(* ===== verification/Prelude.thy ===== *)
theory Prelude
  imports
    "HOL-Library.Word"
    "HOL-Library.Sublist"
    "HOL-Library.List_Lexorder"
    "HOL-Library.Char_ord"
    "HOL-Library.Multiset"
begin

text \<open>
  The vocabulary every component of the development shares: the machine integers of the Go
  sources as words, byte strings, the arithmetic of little-endian digit lists, the standard
  library's binary search \<open>sort.Search\<close> and \<open>math/bits.Len32\<close>, and the generic list lemmas.
  A Go run-time panic (an index out of range) is the value \<open>None\<close> of an \<open>option\<close>; a returned
  \<open>error\<close> is the left summand of a sum.
\<close>

unbundle bit_operations_syntax

type_synonym byte = "8 word"
type_synonym bytes = "8 word list"
type_synonym u16 = "16 word"
type_synonym u32 = "32 word"
type_synonym u64 = "64 word"

named_theorems word_nat "reading machine words as natural numbers"
named_theorems codec "round-trip laws of the byte codecs"

subsection \<open>Words read as natural numbers\<close>

lemma unat_push_bit [word_nat]:
  "unat (push_bit n (w :: 'a::len word)) = (unat w * 2 ^ n) mod 2 ^ LENGTH('a)"
  unfolding unsigned_push_bit_eq by (simp add: push_bit_eq_mult take_bit_eq_mod)

lemma unat_ucast_mod [word_nat]:
  "unat (ucast (w :: 'a::len word) :: 'b::len word) = unat w mod 2 ^ LENGTH('b)"
  by (simp add: unsigned_ucast_eq take_bit_eq_mod)

lemma unat_drop_bit [word_nat]: "unat (drop_bit n (w :: 'a::len word)) = unat w div 2 ^ n"
  unfolding unsigned_drop_bit_eq by (simp add: drop_bit_eq_div take_bit_eq_mod)

lemma unat_take_bit [word_nat]: "unat (take_bit n (w :: 'a::len word)) = unat w mod 2 ^ n"
  unfolding unsigned_take_bit_eq by (simp add: take_bit_eq_mod)

lemma or_disjoint_nat: "(a::nat) < 2 ^ n \<Longrightarrow> a OR b * 2 ^ n = a + b * 2 ^ n"
  by (rule disjunctive_add [symmetric])
    (auto simp: bit_simps simp flip: push_bit_eq_mult take_bit_nat_eq_self_iff,
     metis bit_take_bit_iff not_le)

lemma unat_or_disjoint:
  assumes "unat a < 2 ^ n" and "unat b = k * 2 ^ n"
  shows "unat (a OR b :: 'a::len word) = unat a + k * 2 ^ n"
  using assms by (simp add: unsigned_or_eq or_disjoint_nat)

text \<open>\<open>acc |= uint64(v) << n\<close> adds \<open>v * 2^n\<close> when the low \<open>n\<close> bits only are in use and the
  shifted value fits.\<close>

lemma unat_or_push_bit:
  assumes "unat a < 2 ^ n" and "unat b * 2 ^ n < 2 ^ LENGTH('a)"
  shows "unat (a OR push_bit n b :: 'a::len word) = unat a + unat b * 2 ^ n"
  using assms by (intro unat_or_disjoint) (simp_all add: unat_push_bit)

lemma unat_byte_less [simp]: "unat (b :: byte) < 256"
  using unsigned_less [of b] by simp

lemma unat_byte_le: "unat (b :: byte) \<le> 255"
  by (rule less_Suc_eq_le [THEN iffD1]) simp

lemma unat_u32_less [simp]: "unat (b :: u32) < 4294967296"
  using unsigned_less [of b] by simp

lemma unat_u64_less [simp]: "unat (b :: u64) < 18446744073709551616"
  using unsigned_less [of b] by simp

lemma unat_ucast_u32_u64 [simp]: "unat (ucast (v :: u32) :: u64) = unat v"
  by (simp add: unat_ucast_mod) (rule mod_less, rule less_trans [OF unat_u32_less], simp)

lemma unat_ucast_byte_u64 [simp]: "unat (ucast (v :: byte) :: u64) = unat v"
  by (simp add: unat_ucast_mod) (rule mod_less, rule less_trans [OF unat_byte_less], simp)

lemma unat_ucast_byte_u32 [simp]: "unat (ucast (v :: byte) :: u32) = unat v"
  by (simp add: unat_ucast_mod) (rule mod_less, rule less_trans [OF unat_byte_less], simp)

lemma pow2_split: "w \<le> n \<Longrightarrow> (2::nat) ^ n = 2 ^ (n - w) * 2 ^ w"
  by (simp flip: power_add)

lemma unat_drop_bit_less: "w \<le> n \<Longrightarrow> unat a < 2 ^ n \<Longrightarrow> unat (drop_bit w a) < 2 ^ (n - w)"
  by (simp only: unat_drop_bit pow2_split less_mult_imp_div_less)

text \<open>Numbers compare as their leading digit, then as the rest.\<close>

lemma digit_lex:
  fixes r1 r2 B d1 d2 :: nat
  assumes "r1 < B" "r2 < B"
  shows "r1 + B * d1 < r2 + B * d2 \<longleftrightarrow> d1 < d2 \<or> d1 = d2 \<and> r1 < r2"
proof (cases d1 d2 rule: linorder_cases)
  case less
  then have "B * (d1 + 1) \<le> B * d2" by (intro mult_le_mono2) simp
  with less assms show ?thesis by simp
next
  case greater
  then have "B * (d2 + 1) \<le> B * d1" by (intro mult_le_mono2) simp
  with greater assms show ?thesis by simp
qed simp

text \<open>One step of a little-endian fold: the low digit and the rest give back the number.\<close>

lemma digit_fold: "(x mod 2 ^ k) * 2 ^ s + (x div 2 ^ k) * 2 ^ (s + k) = x * 2 ^ s" for x :: nat
proof -
  have "x * 2 ^ s = (x mod 2 ^ k + 2 ^ k * (x div 2 ^ k)) * 2 ^ s" by simp
  then show ?thesis by (simp only: power_add distrib_right) (simp add: mult_ac)
qed

lemma digit_acc_less: "(a::nat) < 2 ^ s \<Longrightarrow> a + (x mod 2 ^ k) * 2 ^ s < 2 ^ (s + k)"
proof -
  assume "a < 2 ^ s"
  then have "a + (x mod 2 ^ k) * 2 ^ s < (1 + x mod 2 ^ k) * 2 ^ s" by simp
  also have "\<dots> \<le> 2 ^ k * 2 ^ s" by (rule mult_le_mono1) (simp add: Suc_le_eq)
  finally show ?thesis by (simp add: power_add mult.commute)
qed

subsection \<open>Lists\<close>

lemma append_less_cancel [simp]: "(p @ x < p @ y) = (x < (y :: 'a::linorder list))"
  by (induction p) auto

lemma append_le_cancel [simp]: "(p @ x \<le> p @ y) = (x \<le> (y :: 'a::linorder list))"
  by (induction p) auto

lemma drop_eq_ConsD:
  assumes "drop p xs = y # ys"
  shows "p < length xs" "xs ! p = y" "drop (Suc p) xs = ys"
proof -
  show "p < length xs" using assms by (metis drop_all linorder_not_less list.distinct(1))
  then show "xs ! p = y" "drop (Suc p) xs = ys"
    using assms by (simp_all add: Cons_nth_drop_Suc[symmetric])
qed

lemma drop_eq_appendD: "drop p xs = ys @ zs \<Longrightarrow> drop (p + length ys) xs = zs"
  by (metis add.commute append_eq_conv_conj drop_drop)

subsection \<open>Little-endian digit lists\<close>

text \<open>\<open>digits_val w ds\<close> is the number whose base-\<open>2^w\<close> digits, least significant first, are
  \<open>ds\<close>: the meaning of a bit stream cut into fields of \<open>w\<close> bits.\<close>

fun digits_val :: "nat \<Rightarrow> nat list \<Rightarrow> nat" where
  "digits_val w [] = 0"
| "digits_val w (d # ds) = d + 2 ^ w * digits_val w ds"

abbreviation bytes_val :: "bytes \<Rightarrow> nat" where
  "bytes_val bs \<equiv> digits_val 8 (map unat bs)"

lemma digits_val_append:
  "digits_val w (xs @ ys) = digits_val w xs + 2 ^ (w * length xs) * digits_val w ys"
  by (induction xs) (simp_all add: algebra_simps power_add)

lemma digits_val_less:
  "(\<And>d. d \<in> set ds \<Longrightarrow> d < 2 ^ w) \<Longrightarrow> digits_val w ds < 2 ^ (w * length ds)"
proof (induction ds)
  case (Cons d ds)
  then have "d < 2 ^ w" and IH: "digits_val w ds + 1 \<le> 2 ^ (w * length ds)"
    by (auto simp: Suc_le_eq)
  have "d + 2 ^ w * digits_val w ds < 2 ^ w * (digits_val w ds + 1)"
    using \<open>d < 2 ^ w\<close> by simp
  also have "\<dots> \<le> 2 ^ w * 2 ^ (w * length ds)"
    using IH by (rule mult_le_mono2)
  finally show ?case by (simp add: power_add)
qed simp

lemma digits_val_inj:
  assumes "length xs = length ys" "\<forall>d \<in> set xs. d < 2 ^ w" "\<forall>d \<in> set ys. d < 2 ^ w"
    and "digits_val w xs = digits_val w ys"
  shows "xs = ys"
  using assms
proof (induction xs ys rule: list_induct2)
  case (Cons x xs y ys)
  then have "x + 2 ^ w * digits_val w xs = y + 2 ^ w * digits_val w ys" by simp
  moreover from Cons.prems have "x < 2 ^ w" "y < 2 ^ w" by auto
  ultimately have "x = y" by (metis mod_less mod_mult_self2)
  with Cons show ?case by auto
qed simp

subsection \<open>Standard library: sort.Search and bits.Len32\<close>

text \<open>\<open>sort.Search(n, f)\<close>: the binary search loop of Go's standard library.\<close>

function sort_Search_loop :: "(nat \<Rightarrow> bool) \<Rightarrow> nat \<Rightarrow> nat \<Rightarrow> nat" where
  "sort_Search_loop f i j =
     (if i < j then
        let h = (i + j) div 2
        in if \<not> f h then sort_Search_loop f (h + 1) j else sort_Search_loop f i h
      else i)"
  by pat_completeness auto
termination by (relation "measure (\<lambda>(f, i, j). j - i)") auto

declare sort_Search_loop.simps [simp del]

definition sort_Search :: "nat \<Rightarrow> (nat \<Rightarrow> bool) \<Rightarrow> nat" where
  "sort_Search n f = sort_Search_loop f 0 n"

lemma sort_Search_loop_spec:
  assumes "\<And>a b. a \<le> b \<Longrightarrow> b < n \<Longrightarrow> f a \<Longrightarrow> f b"
    and "i \<le> j" "j \<le> n" "\<forall>k < i. \<not> f k" "\<forall>k. j \<le> k \<and> k < n \<longrightarrow> f k"
  shows "sort_Search_loop f i j \<le> n \<and> (\<forall>k < sort_Search_loop f i j. \<not> f k)
    \<and> (\<forall>k. sort_Search_loop f i j \<le> k \<and> k < n \<longrightarrow> f k)"
  using assms
proof (induction f i j rule: sort_Search_loop.induct)
  case (1 f i j)
  show ?case
  proof (cases "i < j")
    case True
    define h where "h = (i + j) div 2"
    have h: "i \<le> h" "h < j" using True by (auto simp: h_def)
    show ?thesis
    proof (cases "f h")
      case False
      have "\<forall>k < h + 1. \<not> f k"
        using False 1(3)[of _ h] h \<open>j \<le> n\<close> by (metis Suc_eq_plus1 less_Suc_eq_le order_less_le_trans)
      with 1(1)[OF True h_def False 1(3)] h 1(4-) show ?thesis
        using True False by (simp add: sort_Search_loop.simps[of f i j] Let_def flip: h_def)
    next
      case T: True
      have "\<forall>k. h \<le> k \<and> k < n \<longrightarrow> f k" using T 1(3) by blast
      with 1(2)[OF True h_def _ 1(3)] T h 1(4-) show ?thesis
        using True by (simp add: sort_Search_loop.simps[of f i j] Let_def flip: h_def)
    qed
  next
    case False
    with 1(4-) have "i = j" by simp
    then have "sort_Search_loop f i j = j" by (subst sort_Search_loop.simps) simp
    with \<open>i = j\<close> 1(5-) show ?thesis by simp
  qed
qed

lemma sort_Search_spec:
  assumes "\<And>a b. a \<le> b \<Longrightarrow> b < n \<Longrightarrow> f a \<Longrightarrow> f b"
  shows "sort_Search n f \<le> n" and "k < sort_Search n f \<Longrightarrow> \<not> f k"
    and "sort_Search n f \<le> k \<Longrightarrow> k < n \<Longrightarrow> f k"
proof -
  have *: "sort_Search n f \<le> n \<and> (\<forall>k < sort_Search n f. \<not> f k)
    \<and> (\<forall>k. sort_Search n f \<le> k \<and> k < n \<longrightarrow> f k)"
    unfolding sort_Search_def 
  proof (rule sort_Search_loop_spec)
    show "\<And>a b. a \<le> b \<Longrightarrow> b < n \<Longrightarrow> f a \<Longrightarrow> f b" by (rule assms)
  qed auto
  then show "sort_Search n f \<le> n" by blast
  from * show "k < sort_Search n f \<Longrightarrow> \<not> f k" by blast
  from * show "sort_Search n f \<le> k \<Longrightarrow> k < n \<Longrightarrow> f k" by blast
qed

text \<open>On a list where \<open>P\<close> holds from some point on, the search finds that point.\<close>

lemma sort_Search_partition:
  assumes "sorted_wrt (\<lambda>x y. P x \<longrightarrow> P y) es"
  obtains L R where "es = L @ R" "sort_Search (length es) (\<lambda>i. P (es ! i)) = length L"
    "\<forall>e \<in> set L. \<not> P e" "\<forall>e \<in> set R. P e"
proof -
  let ?f = "\<lambda>i. P (es ! i)" and ?n = "sort_Search (length es) (\<lambda>i. P (es ! i))"
  have mono: "?f b" if "a \<le> b" "b < length es" "?f a" for a b
    using assms that by (cases "a = b") (auto simp: sorted_wrt_iff_nth_less dest: le_neq_implies_less)
  note s = sort_Search_spec[where n = "length es" and f = ?f, OF mono]
  show thesis
  proof (rule that[of "take ?n es" "drop ?n es"])
    show "\<forall>e \<in> set (take ?n es). \<not> P e" using s(2) by (auto simp: in_set_conv_nth)
    show "\<forall>e \<in> set (drop ?n es). P e" using s(3) by (auto simp: in_set_conv_nth)
  qed (use s(1) in simp_all)
qed

text \<open>\<open>math/bits.Len32\<close>: the number of bits needed to represent a value, 0 for 0.\<close>

fun bits_Len :: "nat \<Rightarrow> nat" where
  "bits_Len n = (if n = 0 then 0 else Suc (bits_Len (n div 2)))"

declare bits_Len.simps [simp del]

lemma bits_Len_bound: "n < 2 ^ bits_Len n"
proof (induction n rule: bits_Len.induct)
  case (1 n)
  show ?case
  proof (cases "n = 0")
    case False
    with 1 have "n div 2 < 2 ^ bits_Len (n div 2)" by simp
    then have "n < 2 * 2 ^ bits_Len (n div 2)" by linarith
    with False show ?thesis by (simp add: bits_Len.simps[of n])
  qed simp
qed

lemma bits_Len_le: "n < 2 ^ k \<Longrightarrow> bits_Len n \<le> k"
proof (induction n arbitrary: k rule: bits_Len.induct)
  case (1 n)
  show ?case
  proof (cases "n = 0")
    case False
    with 1(2) obtain m where m: "k = Suc m" by (cases k) auto
    with False 1 have "bits_Len (n div 2) \<le> m" by simp
    with False m show ?thesis by (simp add: bits_Len.simps[of n])
  qed (simp add: bits_Len.simps)
qed

lemma distinct_map_descending: "sorted_wrt (\<lambda>x y. f y < f x) xs \<Longrightarrow> distinct (map f xs)"
  for f :: "'a \<Rightarrow> 'b :: linorder"
  by (induction xs) auto

lemma distinct_map_ascending: "sorted_wrt (\<lambda>x y. f x < f y) xs \<Longrightarrow> distinct (map f xs)"
  for f :: "'a \<Rightarrow> 'b :: linorder"
  by (induction xs) auto

lemma prefix_le: "prefix p x \<Longrightarrow> p \<le> x" for p :: "'a :: linorder list"
proof -
  assume "prefix p x"
  then obtain y where "x = p @ y" by (auto simp: prefix_def)
  then show ?thesis using append_le_cancel[of p "[]" y] by simp
qed

lemma prefix_interval: "p \<le> x \<Longrightarrow> x < p @ y \<Longrightarrow> prefix p x" for p :: "'a :: linorder list"
proof (induction p arbitrary: x)
  case (Cons a p)
  then show ?case by (cases x) auto
qed simp

text \<open>An accumulating loop over positions is a sum.\<close>

lemma foldl_sum: "foldl (\<lambda>s i. s + f i) b [0..<n] = b + (\<Sum>i<n. f i)" for b :: "'a::comm_monoid_add"
  by (induction n) (simp_all add: add.assoc)

text \<open>What \<open>sort.Slice\<close> by \<open>key\<close> promises: a sorted permutation, equal keys in any order.\<close>

definition sort_Slice :: "('a \<Rightarrow> 'k::linorder) \<Rightarrow> ('a list \<Rightarrow> 'a list) \<Rightarrow> bool" where
  "sort_Slice key srt \<longleftrightarrow> (\<forall>xs. mset (srt xs) = mset xs \<and> sorted (map key (srt xs)))"

text \<open>The map an association list stands for does not depend on its order.\<close>

lemma perm_map_of:
  assumes "mset xs = mset ys" "distinct (map fst xs)"
  shows "distinct (map fst ys)" "map_of ys = map_of xs"
proof -
  have "mset (map fst xs) = mset (map fst ys)" using assms(1) by (metis mset_map)
  then show d: "distinct (map fst ys)" using assms(2) mset_eq_imp_distinct_iff by blast
  show "map_of ys = map_of xs" using d assms mset_eq_setD[OF assms(1)] map_of_inject_set by metis
qed

end
