(* ===== verification/GoHeap.thy ===== *)
theory GoHeap
  imports Prelude
begin

text \<open>
  Go's \<open>container/heap\<close> over a slice with a comparison \<open>lt\<close>: \<open>Push\<close> and \<open>Pop\<close> with their sift
  loops \<open>up\<close> and \<open>down\<close>. The locale \<open>heap_order\<close> is what keeps a slice in heap order for a coarser order
  \<open>clt\<close> than the one the loops compare with; with \<open>weak_order\<close>, what the package asks of \<open>Less\<close>, the two are
  the same.
\<close>

definition swap :: "'a list \<Rightarrow> nat \<Rightarrow> nat \<Rightarrow> 'a list" where
  "swap h i j = h[i := h ! j, j := h ! i]"

text \<open>\<open>i := (j - 1) / 2\<close> rounds towards zero, so the parent of the root is the root.\<close>

function heap_up :: "('a \<Rightarrow> 'a \<Rightarrow> bool) \<Rightarrow> nat \<Rightarrow> 'a list \<Rightarrow> 'a list" where
  "heap_up lt j h =
     (let i = (j - 1) div 2
      in if i = j \<or> \<not> lt (h ! j) (h ! i) then h else heap_up lt i (swap h i j))"
  by pat_completeness auto
termination by (relation "measure (\<lambda>(lt, j, h). j)") auto

declare heap_up.simps [simp del]

definition pick_child :: "('a \<Rightarrow> 'a \<Rightarrow> bool) \<Rightarrow> nat \<Rightarrow> nat \<Rightarrow> 'a list \<Rightarrow> nat" where
  "pick_child lt i n h =
     (let j1 = 2 * i + 1; j2 = j1 + 1 in if j2 < n \<and> lt (h ! j2) (h ! j1) then j2 else j1)"

function heap_down :: "('a \<Rightarrow> 'a \<Rightarrow> bool) \<Rightarrow> nat \<Rightarrow> nat \<Rightarrow> 'a list \<Rightarrow> 'a list" where
  "heap_down lt i n h =
     (if 2 * i + 1 \<ge> n then h
      else let j = pick_child lt i n h
           in if \<not> lt (h ! j) (h ! i) then h else heap_down lt j n (swap h i j))"
  by pat_completeness auto
termination
  by (relation "measure (\<lambda>(lt, i, n, h). n - i)") (auto simp: pick_child_def Let_def)

declare heap_down.simps [simp del]

definition heap_Push :: "('a \<Rightarrow> 'a \<Rightarrow> bool) \<Rightarrow> 'a \<Rightarrow> 'a list \<Rightarrow> 'a list" where
  "heap_Push lt x h = heap_up lt (length h) (h @ [x])"

definition heap_Pop :: "('a \<Rightarrow> 'a \<Rightarrow> bool) \<Rightarrow> 'a list \<Rightarrow> 'a \<times> 'a list" where
  "heap_Pop lt h =
     (let n = length h - 1; h' = heap_down lt 0 n (swap h 0 n) in (last h', butlast h'))"

subsection \<open>The heap order\<close>

abbreviation parent :: "nat \<Rightarrow> nat" where
  "parent j \<equiv> (j - 1) div 2"

definition heap_ok :: "('a \<Rightarrow> 'a \<Rightarrow> bool) \<Rightarrow> nat \<Rightarrow> 'a list \<Rightarrow> bool" where
  "heap_ok lt n h \<longleftrightarrow> (\<forall>j. 0 < j \<and> j < n \<longrightarrow> \<not> lt (h ! j) (h ! parent j))"

lemma length_swap [simp]: "length (swap h i j) = length h"
  by (simp add: swap_def)

lemma mset_swap_go [simp]: "i < length h \<Longrightarrow> j < length h \<Longrightarrow> mset (swap h i j) = mset h"
  by (simp add: swap_def mset_swap)

lemma nth_swap: "i < length h \<Longrightarrow> j < length h \<Longrightarrow> swap h i j ! k = (if k = j then h ! i else if k = i then h ! j else h ! k)"
  by (auto simp: swap_def nth_list_update)

lemma length_heap_up [simp]: "length (heap_up lt j h) = length h"
  by (induction lt j h rule: heap_up.induct) (subst heap_up.simps, simp add: Let_def)

lemma length_heap_down [simp]: "length (heap_down lt i n h) = length h"
  by (induction lt i n h rule: heap_down.induct) (subst heap_down.simps, simp add: Let_def)

lemma mset_heap_up: "j < length h \<Longrightarrow> mset (heap_up lt j h) = mset h"
proof (induction lt j h rule: heap_up.induct)
  case (1 lt j h)
  have "parent j < length h" using 1(2) by linarith
  with 1 show ?case by (subst heap_up.simps) (simp add: Let_def)
qed

lemma pick_child_less: "2 * i + 1 < n \<Longrightarrow> pick_child lt i n h < n \<and> i < pick_child lt i n h \<and> parent (pick_child lt i n h) = i"
  by (auto simp: pick_child_def Let_def)

lemma mset_heap_down: "n \<le> length h \<Longrightarrow> mset (heap_down lt i n h) = mset h"
proof (induction lt i n h rule: heap_down.induct)
  case (1 lt i n h)
  show ?case
  proof (cases "2 * i + 1 \<ge> n \<or> \<not> lt (h ! pick_child lt i n h) (h ! i)")
    case True
    then show ?thesis by (subst heap_down.simps) (auto simp: Let_def)
  next
    case False
    then have "pick_child lt i n h < length h" "i < length h" using pick_child_less[of i n lt h] 1(2) by linarith+
    with 1 False show ?thesis by (subst heap_down.simps) (simp add: Let_def)
  qed
qed

lemma heap_down_tail: "n \<le> k \<Longrightarrow> k < length h \<Longrightarrow> heap_down lt i n h ! k = h ! k"
proof (induction lt i n h rule: heap_down.induct)
  case (1 lt i n h)
  show ?case
  proof (cases "2 * i + 1 \<ge> n \<or> \<not> lt (h ! pick_child lt i n h) (h ! i)")
    case True
    then show ?thesis by (subst heap_down.simps) (auto simp: Let_def)
  next
    case False
    then have p: "pick_child lt i n h < n" "i < n" using pick_child_less[of i n lt h] by linarith+
    with 1 False show ?thesis by (subst heap_down.simps) (simp add: Let_def nth_swap)
  qed
qed

locale heap_order =
  fixes lt :: "'a \<Rightarrow> 'a \<Rightarrow> bool" and clt :: "'a \<Rightarrow> 'a \<Rightarrow> bool"
  assumes clt_irrefl: "\<not> clt a a"
    and clt_incomp: "\<not> clt a b \<Longrightarrow> \<not> clt b c \<Longrightarrow> \<not> clt a c"
    and lt_clt: "lt a b \<Longrightarrow> \<not> clt b a"
    and not_lt_clt: "\<not> lt a b \<Longrightarrow> \<not> clt a b"
begin

lemma heap_root:
  assumes "heap_ok clt n h" "j < n"
  shows "\<not> clt (h ! j) (h ! 0)"
  using assms(2)
proof (induction j rule: less_induct)
  case (less j)
  show ?case
  proof (cases "j = 0")
    case False
    then have "parent j < j" "parent j < n" using less.prems by linarith+
    with less.IH[of "parent j"] assms(1) False less.prems show ?thesis
      unfolding heap_ok_def using clt_incomp by blast
  qed (simp add: clt_irrefl)
qed

text \<open>Sifting up repairs a heap that is broken only at \<open>j\<close>, sifting down one broken only below \<open>i\<close>.\<close>

lemma heap_up_ok:
  assumes "\<And>k. 0 < k \<Longrightarrow> k < n \<Longrightarrow> k \<noteq> j \<Longrightarrow> \<not> clt (h ! k) (h ! parent k)"
    and "\<And>k. 0 < k \<Longrightarrow> k < n \<Longrightarrow> parent k = j \<Longrightarrow> 0 < j \<Longrightarrow> \<not> clt (h ! k) (h ! parent j)"
    and "j < n" "n \<le> length h"
  shows "heap_ok clt n (heap_up lt j h)"
  using assms
proof (induction j arbitrary: h rule: less_induct)
  case (less j)
  show ?case
  proof (cases "parent j = j \<or> \<not> lt (h ! j) (h ! parent j)")
    case True
    then have "heap_up lt j h = h" by (subst heap_up.simps) (auto simp: Let_def)
    moreover have "\<not> clt (h ! k) (h ! parent k)" if "0 < k" "k < n" for k
      using that True less.prems(1) not_lt_clt by (cases "k = j") auto
    ultimately show ?thesis by (simp add: heap_ok_def)
  next
    case False
    define p where "p = parent j"
    have p: "p < j" "0 < j" "p < length h" "j < length h" "p < n" and lt: "lt (h ! j) (h ! p)"
      using False less.prems(3,4) by (auto simp: p_def)
    have up: "heap_up lt j h = heap_up lt p (swap h p j)"
      using False by (subst heap_up.simps) (simp add: Let_def p_def)
    note s = nth_swap[OF p(3,4)]
    have "heap_ok clt n (heap_up lt p (swap h p j))"
    proof (rule less.IH[OF p(1)])
      fix k assume k: "0 < k" "k < n" "k \<noteq> p"
      define q where "q = parent k"
      have "q \<noteq> k" "k = j \<Longrightarrow> q = p" using k by (auto simp: q_def p_def)
      moreover have "k \<noteq> j \<Longrightarrow> \<not> clt (h ! k) (h ! q)" using less.prems(1) k by (simp add: q_def)
      moreover have "q = j \<Longrightarrow> \<not> clt (h ! k) (h ! p)" using less.prems(2)[of k] k p by (simp add: q_def p_def)
      moreover have "\<not> clt (h ! p) (h ! j)" using lt_clt[OF lt] .
      moreover have "\<not> clt x (h ! p) \<Longrightarrow> \<not> clt x (h ! j)" for x using clt_incomp[OF _ lt_clt[OF lt]] .
      ultimately show "\<not> clt (swap h p j ! k) (swap h p j ! parent k)"
        unfolding q_def[symmetric] s using k(3) p(1) by (cases "k = j"; cases "q = j"; cases "q = p") simp_all
    next
      fix k assume k: "0 < k" "k < n" "parent k = p" "0 < p"
      define q where "q = parent p"
      have "q \<noteq> p" "q \<noteq> j" "k \<noteq> p" using k p by (auto simp: q_def)
      moreover have pq: "\<not> clt (h ! p) (h ! q)" using less.prems(1)[of p] k p by (simp add: q_def)
      moreover have "\<not> clt (h ! k) (h ! q)" if "k \<noteq> j"
        using less.prems(1)[OF k(1,2) that] clt_incomp pq unfolding k(3) by blast
      ultimately show "\<not> clt (swap h p j ! k) (swap h p j ! parent p)"
        unfolding q_def[symmetric] s by (cases "k = j") simp_all
    qed (use p less.prems in simp_all)
    then show ?thesis by (simp only: up)
  qed
qed

lemma pick_child_min:
  assumes "2 * i + 1 < n" "0 < k" "k < n" "parent k = i"
  shows "\<not> clt (h ! k) (h ! pick_child lt i n h)"
proof -
  have "k - 1 = 2 * i + (k - 1) mod 2" using div_mult_mod_eq[of "k - 1" 2] unfolding assms(4) by linarith
  moreover have "(k - 1) mod 2 < 2" by simp
  ultimately have "k = 2 * i + 1 \<or> k = 2 * i + 2" using assms(2) by linarith
  then show ?thesis using assms clt_irrefl lt_clt not_lt_clt by (auto simp: pick_child_def Let_def)
qed

lemma heap_down_ok:
  assumes "\<And>k. 0 < k \<Longrightarrow> k < n \<Longrightarrow> parent k \<noteq> i \<Longrightarrow> \<not> clt (h ! k) (h ! parent k)"
    and "\<And>k. 0 < k \<Longrightarrow> k < n \<Longrightarrow> parent k = i \<Longrightarrow> 0 < i \<Longrightarrow> \<not> clt (h ! k) (h ! parent i)"
    and "n \<le> length h"
  shows "heap_ok clt n (heap_down lt i n h)"
  using assms
proof (induction "n - i" arbitrary: i h rule: less_induct)
  case less
  let ?j = "pick_child lt i n h"
  show ?case
  proof (cases "2 * i + 1 < n \<and> lt (h ! ?j) (h ! i)")
    case False
    then have "heap_down lt i n h = h" by (subst heap_down.simps) (auto simp: Let_def)
    moreover have "\<not> clt (h ! k) (h ! parent k)" if "0 < k" "k < n" for k
    proof (cases "parent k = i")
      case True
      then have "2 * i + 1 < n" using that by auto
      with False pick_child_min[of i n k h] that True show ?thesis using clt_incomp not_lt_clt by blast
    qed (use that less.prems(1) in simp)
    ultimately show ?thesis by (simp add: heap_ok_def)
  next
    case True
    then have j: "?j < n" "i < ?j" "parent ?j = i" using pick_child_less[of i n lt h] by auto
    have l: "i < length h" "?j < length h" using j less.prems(3) by auto
    have down: "heap_down lt i n h = heap_down lt ?j n (swap h i ?j)"
      using True by (subst heap_down.simps) (simp add: Let_def)
    note s = nth_swap[OF l]
    have lt: "lt (h ! ?j) (h ! i)" using True by simp
    have "heap_ok clt n (heap_down lt ?j n (swap h i ?j))"
    proof (rule less.hyps)
      show "n - ?j < n - i" using j by simp
      fix k assume k: "0 < k" "k < n" "parent k \<noteq> ?j"
      define q where "q = parent k"
      have "q \<noteq> k" "q \<noteq> ?j" "k = ?j \<Longrightarrow> q = i" using k j by (auto simp: q_def)
      moreover have "q = i \<Longrightarrow> \<not> clt (h ! k) (h ! ?j)" using pick_child_min k True by (simp add: q_def)
      moreover have "k = i \<Longrightarrow> \<not> clt (h ! ?j) (h ! q)" using less.prems(2)[of ?j] j k by (simp add: q_def)
      moreover have "q \<noteq> i \<Longrightarrow> \<not> clt (h ! k) (h ! q)" using less.prems(1) k by (simp add: q_def)
      moreover have "\<not> clt (h ! i) (h ! ?j)" using lt_clt[OF lt] .
      ultimately show "\<not> clt (swap h i ?j ! k) (swap h i ?j ! parent k)"
        unfolding q_def[symmetric] s by (cases "k = ?j"; cases "k = i"; cases "q = i") simp_all
    next
      fix k assume k: "0 < k" "k < n" "parent k = ?j" "0 < ?j"
      then have "?j < k" by auto
      then have ne: "k \<noteq> ?j" "k \<noteq> i" "i \<noteq> ?j" "parent k \<noteq> i" using j k(3) by auto
      have "\<not> clt (h ! k) (h ! ?j)" using less.prems(1)[OF k(1,2) ne(4)] unfolding k(3) .
      then show "\<not> clt (swap h i ?j ! k) (swap h i ?j ! parent ?j)"
        unfolding j(3) s using ne by simp
    qed (use less.prems in simp)
    then show ?thesis by (simp only: down)
  qed
qed

lemma heap_Push:
  assumes "heap_ok clt (length h) h"
  shows "heap_ok clt (length (heap_Push lt x h)) (heap_Push lt x h)" "mset (heap_Push lt x h) = add_mset x (mset h)"
proof -
  have "heap_ok clt (Suc (length h)) (heap_up lt (length h) (h @ [x]))"
  proof (rule heap_up_ok)
    fix k assume k: "0 < k" "k < Suc (length h)" "k \<noteq> length h"
    then have "parent k < length h" by auto
    with k assms show "\<not> clt ((h @ [x]) ! k) ((h @ [x]) ! parent k)" by (auto simp: heap_ok_def nth_append)
  qed auto
  then show "heap_ok clt (length (heap_Push lt x h)) (heap_Push lt x h)" by (simp add: heap_Push_def)
  show "mset (heap_Push lt x h) = add_mset x (mset h)" by (simp add: heap_Push_def mset_heap_up)
qed

lemma heap_Pop:
  assumes "heap_ok clt (length h) h" "h \<noteq> []"
  shows "fst (heap_Pop lt h) = hd h" "mset h = add_mset (hd h) (mset (snd (heap_Pop lt h)))"
    "heap_ok clt (length (snd (heap_Pop lt h))) (snd (heap_Pop lt h))"
    "\<And>x. x \<in> set h \<Longrightarrow> \<not> clt x (hd h)"
proof -
  let ?n = "length h - 1" and ?h = "heap_down lt 0 (length h - 1) (swap h 0 (length h - 1))"
  have n: "?n < length h" "0 < length h" using assms(2) by simp_all
  have ne: "?h \<noteq> []" using n by (metis length_0_conv length_heap_down length_swap not_less_zero)
  have "last ?h = ?h ! ?n" using ne by (simp add: last_conv_nth)
  also have "\<dots> = swap h 0 ?n ! ?n" using n by (intro heap_down_tail) simp_all
  also have "\<dots> = hd h" using n assms(2) by (simp add: nth_swap hd_conv_nth)
  finally have l: "last ?h = hd h" .
  then show "fst (heap_Pop lt h) = hd h" by (simp add: heap_Pop_def Let_def)
  have "mset ?h = mset h" using n by (simp add: mset_heap_down)
  moreover have "mset ?h = add_mset (last ?h) (mset (butlast ?h))"
    using ne by (metis append_butlast_last_id mset.simps mset_append add.commute union_mset_add_mset_left add_mset_add_single)
  ultimately show "mset h = add_mset (hd h) (mset (snd (heap_Pop lt h)))"
    using l by (simp add: heap_Pop_def Let_def)
  have "heap_ok clt ?n ?h"
  proof (rule heap_down_ok)
    fix k assume "0 < k" "k < ?n" "parent k \<noteq> 0"
    moreover from this have "parent k < ?n" by auto
    ultimately show "\<not> clt (swap h 0 ?n ! k) (swap h 0 ?n ! parent k)"
      using assms(1) n by (simp add: nth_swap heap_ok_def)
  qed simp_all
  then show "heap_ok clt (length (snd (heap_Pop lt h))) (snd (heap_Pop lt h))"
    by (auto simp: heap_Pop_def Let_def heap_ok_def nth_butlast)
  show "\<not> clt x (hd h)" if "x \<in> set h" for x
    using that heap_root[OF assms(1)] assms(2) by (auto simp: in_set_conv_nth hd_conv_nth)
qed

end

locale weak_order =
  fixes lt :: "'a \<Rightarrow> 'a \<Rightarrow> bool"
  assumes irrefl: "\<not> lt a a"
    and trans: "lt a b \<Longrightarrow> lt b c \<Longrightarrow> lt a c"
    and incomp_trans: "\<not> lt a b \<Longrightarrow> \<not> lt b c \<Longrightarrow> \<not> lt a c"

sublocale weak_order \<subseteq> heap_order lt lt
  using irrefl trans incomp_trans by unfold_locales blast+

end
