(* ===== verification/DistHeap.thy ===== *)
theory DistHeap
  imports GoHeap Complex_Main
begin

text \<open>
  \<open>vector/ann/heap.go\<close>: the two candidate heaps of the graph search. Their sift loops are written by hand in the source; they
  do what \<open>container/heap\<close> does, so that the facts of the locale \<open>weak_order\<close> apply. A \<open>pop\<close> or \<open>peek\<close> of an empty heap panics:
  \<open>None\<close>. Distances are reals.
\<close>

record candidate =
  c_node :: nat
  c_dist :: real

text \<open>The loops of \<open>push\<close> and \<open>siftDown\<close>, for the comparison \<open>lt\<close> of the min-heap or of the max-heap.\<close>

function sift_up :: "('a \<Rightarrow> 'a \<Rightarrow> bool) \<Rightarrow> nat \<Rightarrow> 'a list \<Rightarrow> 'a list" where
  "sift_up lt i a =
     (if i > 0
      then let p = (i - 1) div 2 in if \<not> lt (a ! i) (a ! p) then a else sift_up lt p (swap a p i)
      else a)"
  by pat_completeness auto
termination by (relation "measure (\<lambda>(lt, i, a). i)") auto

declare sift_up.simps [simp del]

definition first_child :: "('a \<Rightarrow> 'a \<Rightarrow> bool) \<Rightarrow> nat \<Rightarrow> 'a list \<Rightarrow> nat" where
  "first_child lt i a =
     (let n = length a; l = 2 * i + 1; r = 2 * i + 2;
          small = i;
          small = (if l < n \<and> lt (a ! l) (a ! small) then l else small)
      in if r < n \<and> lt (a ! r) (a ! small) then r else small)"

lemma first_child_bound: "first_child lt i a \<noteq> i \<Longrightarrow> i < first_child lt i a \<and> first_child lt i a < length a"
  by (auto simp: first_child_def Let_def split: if_splits)

function siftDown :: "('a \<Rightarrow> 'a \<Rightarrow> bool) \<Rightarrow> nat \<Rightarrow> 'a list \<Rightarrow> 'a list" where
  "siftDown lt i a =
     (let small = first_child lt i a in if small = i then a else siftDown lt small (swap a i small))"
  by pat_completeness auto
termination
proof (relation "measure (\<lambda>(lt, i, a). length a - i)", simp, goal_cases)
  case (1 lt i a)
  then show ?case using first_child_bound[of lt i a] by (simp add: diff_less_mono2)
qed

declare siftDown.simps [simp del]

definition heap_push :: "('a \<Rightarrow> 'a \<Rightarrow> bool) \<Rightarrow> 'a list \<Rightarrow> 'a \<Rightarrow> 'a list" where
  "heap_push lt a c = sift_up lt (length a) (a @ [c])"

definition heap_pop :: "('a \<Rightarrow> 'a \<Rightarrow> bool) \<Rightarrow> 'a list \<Rightarrow> ('a \<times> 'a list) option" where
  "heap_pop lt a =
     (if a = [] then None
      else let n = length a - 1 in Some (a ! 0, siftDown lt 0 (take n (a[0 := a ! n]))))"

definition heap_peek :: "'a list \<Rightarrow> 'a option" where
  "heap_peek a = (if a = [] then None else Some (a ! 0))"

definition min_lt :: "candidate \<Rightarrow> candidate \<Rightarrow> bool" where "min_lt a b \<longleftrightarrow> c_dist a < c_dist b"

definition max_lt :: "candidate \<Rightarrow> candidate \<Rightarrow> bool" where "max_lt a b \<longleftrightarrow> c_dist a > c_dist b"

subsection \<open>The hand-written loops are those of the library\<close>

lemma sift_up_eq: "sift_up lt i a = heap_up lt i a"
proof (induction lt i a rule: sift_up.induct)
  case (1 lt i a)
  have "(i - 1) div 2 = i \<longleftrightarrow> i = 0" by auto
  then show ?case using 1 by (subst sift_up.simps, subst heap_up.simps) (auto simp: Let_def)
qed

context weak_order
begin

lemma first_child_pick:
  "first_child lt i a = (if 2 * i + 1 < length a \<and> lt (a ! pick_child lt i (length a) a) (a ! i) then pick_child lt i (length a) a else i)"
proof -
  let ?l = "a ! (2 * i + 1)" and ?r = "a ! (2 * i + 2)" and ?x = "a ! i"
  have "lt ?r ?l \<Longrightarrow> lt ?l ?x \<Longrightarrow> lt ?r ?x" by (rule trans)
  moreover have "\<not> lt ?r ?l \<Longrightarrow> \<not> lt ?l ?x \<Longrightarrow> \<not> lt ?r ?x" by (rule incomp_trans)
  moreover have "2 * i + 2 < length a \<Longrightarrow> 2 * i + 1 < length a" by simp
  ultimately show ?thesis unfolding first_child_def pick_child_def Let_def
    by (cases "lt ?r ?l"; cases "lt ?l ?x"; cases "lt ?r ?x"; cases "2 * i + 2 < length a"; cases "2 * i + 1 < length a") simp_all
qed

lemma siftDown_eq: "siftDown lt i a = heap_down lt i (length a) a"
proof (induction "length a - i" arbitrary: i a rule: less_induct)
  case less
  show ?case
  proof (cases "2 * i + 1 < length a \<and> lt (a ! pick_child lt i (length a) a) (a ! i)")
    case True
    then have fc: "first_child lt i a = pick_child lt i (length a) a" "i < pick_child lt i (length a) a" "pick_child lt i (length a) a < length a"
      using first_child_pick[of i a] pick_child_less[of i "length a" lt a] by auto
    then have "siftDown lt (pick_child lt i (length a) a) (swap a i (pick_child lt i (length a) a)) =
        heap_down lt (pick_child lt i (length a) a) (length a) (swap a i (pick_child lt i (length a) a))"
      using less[of "swap a i (pick_child lt i (length a) a)" "pick_child lt i (length a) a"] by (simp add: diff_less_mono2)
    then show ?thesis using True fc by (subst siftDown.simps, subst heap_down.simps) (simp add: Let_def)
  next
    case False
    then have "first_child lt i a = i" using first_child_pick[of i a] by auto
    then show ?thesis using False by (subst siftDown.simps, subst heap_down.simps) (auto simp: Let_def)
  qed
qed

end

lemma take_heap_down: "n \<le> length h \<Longrightarrow> take n (heap_down lt i n h) = heap_down lt i n (take n h)"
proof (induction lt i n h rule: heap_down.induct)
  case (1 lt i n h)
  show ?case
  proof (cases "2 * i + 1 < n")
    case True
    let ?j = "pick_child lt i n h"
    have j: "?j < n" "i < n" using pick_child_less[of i n lt h] True by auto
    have p: "pick_child lt i n (take n h) = ?j" using True by (auto simp: pick_child_def Let_def)
    have s: "take n (swap h i ?j) = swap (take n h) i ?j" using j by (simp add: swap_def take_update_swap)
    show ?thesis
      using 1 True p j s by (subst heap_down.simps, subst (2) heap_down.simps) (simp add: Let_def)
  next
    case False
    then show ?thesis by (subst heap_down.simps, subst (2) heap_down.simps) simp
  qed
qed

context weak_order
begin

text \<open>What the search uses of a heap: the multiset, the heap order, and that the root is first.\<close>

lemma push_spec:
  assumes "heap_ok lt (length a) a"
  shows "heap_ok lt (length (heap_push lt a c)) (heap_push lt a c)" "mset (heap_push lt a c) = add_mset c (mset a)"
  using heap_Push[OF assms, of c] by (simp_all add: heap_push_def sift_up_eq heap_Push_def)

lemma pop_spec:
  assumes "heap_ok lt (length a) a" "a \<noteq> []"
  obtains x b where "heap_pop lt a = Some (x, b)" "x = hd a" "heap_ok lt (length b) b" "mset a = add_mset x (mset b)" "\<forall>y \<in> set a. \<not> lt y x"
proof -
  let ?n = "length a - 1"
  have n: "?n < length a" using assms(2) by simp
  have "take ?n (a[0 := a ! ?n]) = take ?n (swap a 0 ?n)" by (simp add: swap_def)
  then have "siftDown lt 0 (take ?n (a[0 := a ! ?n])) = heap_down lt 0 ?n (take ?n (swap a 0 ?n))" using n by (simp add: siftDown_eq)
  also have "\<dots> = take ?n (heap_down lt 0 ?n (swap a 0 ?n))" using n by (simp add: take_heap_down)
  also have "\<dots> = snd (heap_Pop lt a)" by (simp add: heap_Pop_def Let_def butlast_conv_take)
  finally have "heap_pop lt a = Some (hd a, snd (heap_Pop lt a))" using assms(2) by (simp add: heap_pop_def Let_def hd_conv_nth)
  then show thesis using heap_Pop[OF assms] by (intro that) auto
qed

lemma peek_spec:
  assumes "heap_ok lt (length a) a" "a \<noteq> []"
  obtains x where "heap_peek a = Some x" "x \<in> set a" "\<forall>y \<in> set a. \<not> lt y x"
proof -
  have "heap_peek a = Some (hd a)" using assms(2) by (simp add: heap_peek_def hd_conv_nth)
  then show thesis using heap_Pop(4)[OF assms] assms(2) by (intro that) auto
qed

end

interpretation min_heap: weak_order min_lt
  by unfold_locales (auto simp: min_lt_def)

interpretation max_heap: weak_order max_lt
  by unfold_locales (auto simp: max_lt_def)

end
