(* ===== verification/GoStrings.thy ===== *)
theory GoStrings
  imports Prelude
begin

text \<open>
  The functions of Go's \<open>strings\<close> package the sources call, over \<open>string\<close> (a Go string is a byte
  sequence and a HOL \<open>char\<close> is a byte). \<open>ToLower\<close> is its ASCII part: the callers lower host names,
  header fields and user-agent tokens, which are ASCII on the wire.
\<close>

definition lower_char :: "char \<Rightarrow> char" where
  "lower_char c = (if of_char c \<ge> (65::nat) \<and> of_char c \<le> (90::nat) then char_of (of_char c + (32::nat)) else c)"

definition ToLower :: "string \<Rightarrow> string" where
  "ToLower s = map lower_char s"

definition HasPrefix :: "string \<Rightarrow> string \<Rightarrow> bool" where
  "HasPrefix s p = prefix p s"

definition HasSuffix :: "string \<Rightarrow> string \<Rightarrow> bool" where
  "HasSuffix s p = suffix p s"

definition TrimSuffix :: "string \<Rightarrow> string \<Rightarrow> string" where
  "TrimSuffix s p = (if HasSuffix s p then take (length s - length p) s else s)"

definition CutPrefix :: "string \<Rightarrow> string \<Rightarrow> string \<times> bool" where
  "CutPrefix s p = (if HasPrefix s p then (drop (length p) s, True) else (s, False))"

text \<open>\<open>strings.Split\<close> with a one-character separator, and \<open>strings.Join\<close>.\<close>

fun Split :: "char \<Rightarrow> string \<Rightarrow> string list" where
  "Split c [] = [[]]"
| "Split c (x # xs) =
     (if x = c then [] # Split c xs
      else case Split c xs of w # ws \<Rightarrow> (x # w) # ws | [] \<Rightarrow> [[x]])"

fun Join :: "string list \<Rightarrow> string \<Rightarrow> string" where
  "Join [] sep = []"
| "Join [w] sep = w"
| "Join (w # ws) sep = w @ sep @ Join ws sep"

text \<open>\<open>strings.Cut\<close> with a one-character separator.\<close>

fun Cut :: "string \<Rightarrow> char \<Rightarrow> string \<times> string \<times> bool" where
  "Cut [] c = ([], [], False)"
| "Cut (x # xs) c =
     (if x = c then ([], xs, True) else case Cut xs c of (b, a, f) \<Rightarrow> (x # b, a, f))"

definition is_space :: "char \<Rightarrow> bool" where
  "is_space c \<longleftrightarrow> (of_char c :: nat) \<in> {9, 10, 11, 12, 13, 32}"

definition TrimSpace :: "string \<Rightarrow> string" where
  "TrimSpace s = rev (dropWhile is_space (rev (dropWhile is_space s)))"

fun Contains :: "string \<Rightarrow> string \<Rightarrow> bool" where
  "Contains [] t = (t = [])"
| "Contains (x # xs) t = (prefix t (x # xs) \<or> Contains xs t)"

text \<open>\<open>strings.Fields\<close>: the maximal runs of non-space characters.\<close>

fun Fields_loop :: "string \<Rightarrow> string \<Rightarrow> string list" where
  "Fields_loop acc [] = (if acc = [] then [] else [acc])"
| "Fields_loop acc (x # xs) =
     (if is_space x then (if acc = [] then [] else [acc]) @ Fields_loop [] xs
      else Fields_loop (acc @ [x]) xs)"

definition Fields :: "string \<Rightarrow> string list" where
  "Fields s = Fields_loop [] s"

definition bytes_of :: "string \<Rightarrow> bytes" where
  "bytes_of s = map of_char s"

subsection \<open>Split and Join are inverse\<close>

lemma Split_ne [simp]: "Split c s \<noteq> []"
  by (induction s) (auto split: list.splits)

lemma Join_Cons: "ws \<noteq> [] \<Longrightarrow> Join (w # ws) sep = w @ sep @ Join ws sep"
  by (cases ws) auto

lemma Join_Cons_Cons: "Join ((x # w) # ws) sep = x # Join (w # ws) sep"
  by (cases ws) auto

lemma Join_Split: "Join (Split c s) [c] = s"
proof (induction s)
  case (Cons x xs)
  obtain w ws where s: "Split c xs = w # ws" by (cases "Split c xs") (auto simp del: Split_ne dest: sym simp: Split_ne)
  with Cons show ?case by (simp add: Join_Cons_Cons)
qed simp

lemma Split_no_sep: "c \<notin> set w \<Longrightarrow> Split c w = [w]"
  by (induction w) auto

lemma Split_append_sep: "c \<notin> set w \<Longrightarrow> Split c (w @ c # s) = w # Split c s"
  by (induction w) auto

lemma Split_Join: "ws \<noteq> [] \<Longrightarrow> \<forall>w \<in> set ws. c \<notin> set w \<Longrightarrow> Split c (Join ws [c]) = ws"
proof (induction ws)
  case (Cons w ws)
  then show ?case by (cases ws) (simp_all add: Split_no_sep Split_append_sep)
qed simp

lemma Split_parts_no_sep: "w \<in> set (Split c s) \<Longrightarrow> c \<notin> set w"
proof (induction s arbitrary: w)
  case (Cons x xs)
  obtain v vs where s: "Split c xs = v # vs" by (cases "Split c xs") (auto simp: Split_ne)
  with Cons show ?case by (auto split: if_splits)
qed simp

end
