(* ===== verification/ControlStore.thy ===== *)
theory ControlStore
  imports GoStrings "HOL-Library.AList"
begin

text \<open>
  \<open>control/store.go\<close>: the coordination store. \<open>MemStore\<close> keeps the keys, the lease each key is
  attached to, the keys of every lease and the watchers; an event reaches every watcher whose prefix
  matches, and a full channel drops it. The mutex makes every exported method one atomic step, so an
  operation is a function of the whole store. The map that the code iterates over is an association
  list with distinct keys (its order stands for Go's unspecified iteration order); the maps that are
  only read by key are HOL maps. A \<open>[]byte\<close> value is the string with the same bytes, and a channel is
  its buffer, named by a number. The \<open>Store\<close> interface is the locale \<open>coord_store\<close>.
\<close>

type_synonym LeaseID = u64

datatype EventType = EventPut | EventDelete

record Event =
  ev_Type :: EventType
  ev_Key :: string
  ev_Value :: string

record channel =
  ch_buf :: "Event list"
  ch_closed :: bool

record watcher =
  w_prefix :: string
  w_ch :: nat

record MemStore =
  kv :: "(string \<times> string) list"
  leaseOf :: "string \<rightharpoonup> LeaseID"
  keysOf :: "LeaseID \<rightharpoonup> string list"
  nextLid :: LeaseID
  watchers :: "watcher list"
  channels :: "channel list"

definition NewMemStore :: MemStore where
  "NewMemStore = \<lparr>kv = [], leaseOf = Map.empty, keysOf = Map.empty, nextLid = 1, watchers = [], channels = []\<rparr>"

text \<open>A read of a missing key of \<open>keysOf\<close> is the nil slice.\<close>

definition keys_at :: "MemStore \<Rightarrow> LeaseID \<Rightarrow> string list" where
  "keys_at m l = (case keysOf m l of Some ks \<Rightarrow> ks | None \<Rightarrow> [])"

definition chan_cap :: nat where "chan_cap = 64"

text \<open>A non-blocking send: an event that finds the buffer full is dropped.\<close>

definition try_send :: "Event \<Rightarrow> channel \<Rightarrow> channel" where
  "try_send e c = (if length (ch_buf c) < chan_cap then c\<lparr>ch_buf := ch_buf c @ [e]\<rparr> else c)"

fun fan_loop :: "Event \<Rightarrow> watcher list \<Rightarrow> channel list \<Rightarrow> channel list" where
  "fan_loop e [] cs = cs"
| "fan_loop e (w # ws) cs =
     (if \<not> HasPrefix (ev_Key e) (w_prefix w) then fan_loop e ws cs
      else fan_loop e ws (cs[w_ch w := try_send e (cs ! w_ch w)]))"

definition fan :: "Event \<Rightarrow> MemStore \<Rightarrow> MemStore" where
  "fan e m = m\<lparr>channels := fan_loop e (watchers m) (channels m)\<rparr>"

definition appendUnique :: "string list \<Rightarrow> string \<Rightarrow> string list" where
  "appendUnique s v = (if v \<in> set s then s else s @ [v])"

text \<open>\<open>detach\<close> removes the first occurrence of the key and leaves the map alone when there is none.\<close>

definition detach :: "LeaseID \<Rightarrow> string \<Rightarrow> MemStore \<Rightarrow> MemStore" where
  "detach lease key m =
     (if key \<in> set (keys_at m lease) then m\<lparr>keysOf := (keysOf m)(lease \<mapsto> remove1 key (keys_at m lease))\<rparr> else m)"

definition attach :: "LeaseID \<Rightarrow> string \<Rightarrow> MemStore \<Rightarrow> MemStore" where
  "attach lease key m =
     m\<lparr>leaseOf := (leaseOf m)(key \<mapsto> lease), keysOf := (keysOf m)(lease \<mapsto> appendUnique (keys_at m lease) key)\<rparr>"

definition del :: "string \<Rightarrow> MemStore \<Rightarrow> MemStore" where
  "del key m =
     (if map_of (kv m) key = None then m
      else let m = m\<lparr>kv := AList.delete key (kv m)\<rparr>;
               m = (case leaseOf m key of
                      Some lid \<Rightarrow> (detach lid key m)\<lparr>leaseOf := (leaseOf m)(key := None)\<rparr>
                    | None \<Rightarrow> m)
           in fan \<lparr>ev_Type = EventDelete, ev_Key = key, ev_Value = []\<rparr> m)"

fun expire_keys :: "LeaseID \<Rightarrow> string list \<Rightarrow> MemStore \<Rightarrow> MemStore" where
  "expire_keys lease [] m = m"
| "expire_keys lease (k # ks) m =
     expire_keys lease ks (if (case leaseOf m k of Some l \<Rightarrow> l | None \<Rightarrow> 0) = lease then del k m else m)"

definition expire :: "LeaseID \<Rightarrow> MemStore \<Rightarrow> MemStore" where
  "expire lease m = expire_keys lease (keys_at m lease) (m\<lparr>keysOf := (keysOf m)(lease := None)\<rparr>)"

subsection \<open>The exported methods\<close>

definition Get :: "MemStore \<Rightarrow> string \<Rightarrow> string option" where
  "Get m key = map_of (kv m) key"

definition Put :: "string \<Rightarrow> string \<Rightarrow> LeaseID \<Rightarrow> MemStore \<Rightarrow> MemStore" where
  "Put key val lease m =
     (let m = m\<lparr>kv := AList.update key val (kv m)\<rparr>;
          m = (if lease = 0 then m
               else let m = (case leaseOf m key of
                               Some old \<Rightarrow> if old \<noteq> lease then detach old key m else m
                             | None \<Rightarrow> m)
                    in attach lease key m)
      in fan \<lparr>ev_Type = EventPut, ev_Key = key, ev_Value = val\<rparr> m)"

definition Create :: "string \<Rightarrow> string \<Rightarrow> LeaseID \<Rightarrow> MemStore \<Rightarrow> bool \<times> MemStore" where
  "Create key val lease m =
     (if map_of (kv m) key \<noteq> None then (False, m)
      else let m = m\<lparr>kv := AList.update key val (kv m)\<rparr>;
               m = (if lease = 0 then m else attach lease key m)
           in (True, fan \<lparr>ev_Type = EventPut, ev_Key = key, ev_Value = val\<rparr> m))"

definition Delete :: "string \<Rightarrow> MemStore \<Rightarrow> MemStore" where
  "Delete key m = del key m"

definition List_prefix :: "MemStore \<Rightarrow> string \<Rightarrow> (string \<times> string) list" where
  "List_prefix m p = filter (\<lambda>(k, v). HasPrefix k p) (kv m)"

definition Watch :: "string \<Rightarrow> MemStore \<Rightarrow> nat \<times> MemStore" where
  "Watch p m =
     (let ch = length (channels m)
      in (ch, m\<lparr>watchers := watchers m @ [\<lparr>w_prefix = p, w_ch = ch\<rparr>],
                channels := channels m @ [\<lparr>ch_buf = [], ch_closed = False\<rparr>]\<rparr>))"

text \<open>The watch goroutine once its context is done: drop the watcher (named by its channel, which no
  other watcher has), then close the channel.\<close>

fun dropWatcher :: "nat \<Rightarrow> watcher list \<Rightarrow> watcher list" where
  "dropWatcher ch [] = []"
| "dropWatcher ch (x # xs) = (if w_ch x = ch then xs else x # dropWatcher ch xs)"

definition Watch_cancel :: "nat \<Rightarrow> MemStore \<Rightarrow> MemStore" where
  "Watch_cancel ch m =
     m\<lparr>watchers := dropWatcher ch (watchers m),
       channels := (channels m)[ch := (channels m ! ch)\<lparr>ch_closed := True\<rparr>]\<rparr>"

definition Grant :: "MemStore \<Rightarrow> LeaseID \<times> MemStore" where
  "Grant m = (nextLid m, m\<lparr>nextLid := nextLid m + 1, keysOf := (keysOf m)(nextLid m \<mapsto> [])\<rparr>)"

definition Revoke :: "LeaseID \<Rightarrow> MemStore \<Rightarrow> MemStore" where
  "Revoke lease m = expire lease m"

definition Expire :: "LeaseID \<Rightarrow> MemStore \<Rightarrow> MemStore" where
  "Expire lease m = expire lease m"

subsection \<open>The interface\<close>

text \<open>
  What the control plane relies on: an atomic map with leases. \<open>holds s k\<close> is the lease a key is
  attached to, \<open>granted\<close> the leases handed out; ending a lease removes exactly the keys it holds.
\<close>

locale coord_store =
  fixes get :: "'s \<Rightarrow> string \<Rightarrow> string option"
    and put :: "string \<Rightarrow> string \<Rightarrow> LeaseID \<Rightarrow> 's \<Rightarrow> 's"
    and create :: "string \<Rightarrow> string \<Rightarrow> LeaseID \<Rightarrow> 's \<Rightarrow> bool \<times> 's"
    and delete :: "string \<Rightarrow> 's \<Rightarrow> 's"
    and list_keys :: "'s \<Rightarrow> string \<Rightarrow> (string \<times> string) list"
    and grant :: "'s \<Rightarrow> LeaseID \<times> 's"
    and revoke :: "LeaseID \<Rightarrow> 's \<Rightarrow> 's"
    and invar :: "'s \<Rightarrow> bool"
    and holds :: "'s \<Rightarrow> string \<rightharpoonup> LeaseID"
    and granted :: "'s \<Rightarrow> LeaseID set"
    and can_grant :: "'s \<Rightarrow> bool"
  assumes put: "invar s \<Longrightarrow> l = 0 \<or> l \<in> granted s \<Longrightarrow>
      invar (put k v l s) \<and> get (put k v l s) = (get s)(k \<mapsto> v) \<and>
      holds (put k v l s) = (if l = 0 then holds s else (holds s)(k \<mapsto> l)) \<and> granted (put k v l s) = granted s"
    and create: "invar s \<Longrightarrow> l = 0 \<or> l \<in> granted s \<Longrightarrow>
      create k v l s = (if get s k = None then (True, put k v l s) else (False, s))"
    and delete: "invar s \<Longrightarrow>
      invar (delete k s) \<and> get (delete k s) = (get s)(k := None) \<and> holds (delete k s) = (holds s)(k := None) \<and>
      granted (delete k s) = granted s"
    and list_keys: "invar s \<Longrightarrow>
      distinct (map fst (list_keys s p)) \<and>
      (map_of (list_keys s p) k = (if prefix p k then get s k else None))"
    and grant: "invar s \<Longrightarrow> can_grant s \<Longrightarrow>
      invar (snd (grant s)) \<and> get (snd (grant s)) = get s \<and> holds (snd (grant s)) = holds s \<and>
      fst (grant s) \<noteq> 0 \<and> fst (grant s) \<notin> granted s \<and> granted (snd (grant s)) = insert (fst (grant s)) (granted s)"
    and revoke: "invar s \<Longrightarrow> l \<noteq> 0 \<Longrightarrow>
      invar (revoke l s) \<and> get (revoke l s) = (\<lambda>k. if holds s k = Some l then None else get s k) \<and>
      holds (revoke l s) = (\<lambda>k. if holds s k = Some l then None else holds s k) \<and>
      granted (revoke l s) = granted s"
    and holds_get: "invar s \<Longrightarrow> holds s k \<noteq> None \<Longrightarrow> get s k \<noteq> None"
begin

lemmas store_laws = put create delete list_keys grant revoke

end

subsection \<open>The store keeps its contract\<close>

definition store_ok :: "MemStore \<Rightarrow> bool" where
  "store_ok m \<longleftrightarrow> distinct (map fst (kv m)) \<and>
     (\<forall>k l. leaseOf m k = Some l \<longleftrightarrow> k \<in> set (keys_at m l)) \<and> (\<forall>l. distinct (keys_at m l)) \<and>
     (\<forall>k l. leaseOf m k = Some l \<longrightarrow> map_of (kv m) k \<noteq> None) \<and>
     (\<forall>l. keysOf m l \<noteq> None \<longrightarrow> 0 < l \<and> l < nextLid m) \<and> 0 < nextLid m"

definition granted_leases :: "MemStore \<Rightarrow> LeaseID set" where
  "granted_leases m = {l. 0 < l \<and> l < nextLid m}"

lemma fan_sel [simp]:
  "kv (fan e m) = kv m" "leaseOf (fan e m) = leaseOf m" "keysOf (fan e m) = keysOf m"
  "nextLid (fan e m) = nextLid m" "watchers (fan e m) = watchers m"
  by (simp_all add: fan_def)

lemma keys_at_sel [simp]:
  "keys_at (fan e m) l = keys_at m l" "keys_at (kv_update f m) l = keys_at m l"
  "keys_at (leaseOf_update g m) l = keys_at m l"
  by (simp_all add: keys_at_def)

lemma detach_sel [simp]:
  "kv (detach l k m) = kv m" "leaseOf (detach l k m) = leaseOf m" "nextLid (detach l k m) = nextLid m"
  "watchers (detach l k m) = watchers m" "channels (detach l k m) = channels m"
  by (simp_all add: detach_def)

lemma keys_at_detach [simp]:
  "keys_at (detach l k m) l' = (if l' = l then remove1 k (keys_at m l) else keys_at m l')"
  by (auto simp: detach_def keys_at_def remove1_idem split: option.splits)

lemma keysOf_detach: "keysOf (detach l k m) l' \<noteq> None \<longleftrightarrow> keysOf m l' \<noteq> None"
  by (cases "keysOf m l") (auto simp: detach_def keys_at_def)

lemma store_ok_fan [simp]: "store_ok (fan e m) = store_ok m"
  by (simp add: store_ok_def)

lemma store_okD:
  assumes "store_ok m"
  shows "distinct (map fst (kv m))" "leaseOf m k = Some l \<longleftrightarrow> k \<in> set (keys_at m l)" "distinct (keys_at m l)"
    "leaseOf m k = Some l \<Longrightarrow> map_of (kv m) k \<noteq> None" "keysOf m l \<noteq> None \<Longrightarrow> 0 < l \<and> l < nextLid m"
    "0 < nextLid m"
  using assms unfolding store_ok_def by blast+

lemma store_okI:
  assumes "distinct (map fst (kv m))" "\<And>k l. leaseOf m k = Some l \<longleftrightarrow> k \<in> set (keys_at m l)"
    "\<And>l. distinct (keys_at m l)" "\<And>k l. leaseOf m k = Some l \<Longrightarrow> map_of (kv m) k \<noteq> None"
    "\<And>l. keysOf m l \<noteq> None \<Longrightarrow> 0 < l \<and> l < nextLid m" "0 < nextLid m"
  shows "store_ok m"
  using assms unfolding store_ok_def by blast

lemma store_ok_New [simp]: "store_ok NewMemStore"
  by (simp add: store_ok_def NewMemStore_def keys_at_def)

lemma leaseOf_granted: "store_ok m \<Longrightarrow> leaseOf m k = Some l \<Longrightarrow> 0 < l \<and> l < nextLid m"
  using store_okD(2)[of m k l] store_okD(5)[of m l] by (cases "keysOf m l") (auto simp: keys_at_def)

lemma keys_at_attach:
  "keys_at (attach l k m) l' = (if l' = l then appendUnique (keys_at m l) k else keys_at m l')"
  by (simp add: attach_def keys_at_def)

text \<open>Writing a key under a lease, the step \<open>Put\<close> and \<open>Create\<close> share.\<close>

definition put_kv :: "string \<Rightarrow> string \<Rightarrow> LeaseID \<Rightarrow> MemStore \<Rightarrow> MemStore" where
  "put_kv k v l m =
     (let m = m\<lparr>kv := AList.update k v (kv m)\<rparr>
      in if l = 0 then m
         else attach l k (case leaseOf m k of Some old \<Rightarrow> if old \<noteq> l then detach old k m else m | None \<Rightarrow> m))"

lemma Put_put_kv: "Put k v l m = fan \<lparr>ev_Type = EventPut, ev_Key = k, ev_Value = v\<rparr> (put_kv k v l m)"
  by (simp add: Put_def put_kv_def Let_def)

lemma put_kv_sel:
  "kv (put_kv k v l m) = AList.update k v (kv m)" "nextLid (put_kv k v l m) = nextLid m"
  "leaseOf (put_kv k v l m) = (if l = 0 then leaseOf m else (leaseOf m)(k \<mapsto> l))"
  by (auto simp: put_kv_def attach_def Let_def split: option.splits)

lemma keys_at_put_kv:
  assumes "store_ok m" "l \<noteq> 0"
  shows "set (keys_at (put_kv k v l m) l') = (if l' = l then insert k (set (keys_at m l)) else set (keys_at m l') - {k})"
    and "distinct (keys_at (put_kv k v l m) l')"
proof -
  note ok = store_okD[OF assms(1)]
  have other: "k \<notin> set (keys_at m l'')" if "leaseOf m k \<noteq> Some l''" for l'' using ok(2)[of k l''] that by simp
  show "set (keys_at (put_kv k v l m) l') = (if l' = l then insert k (set (keys_at m l)) else set (keys_at m l') - {k})"
    using assms(2) other ok(3)
    by (cases "leaseOf m k") (auto simp: put_kv_def Let_def keys_at_attach appendUnique_def)
  show "distinct (keys_at (put_kv k v l m) l')"
    using assms(2) other ok(3)
    by (cases "leaseOf m k") (auto simp: put_kv_def Let_def keys_at_attach appendUnique_def)
qed

lemma keysOf_put_kv:
  "store_ok m \<Longrightarrow> keysOf (put_kv k v l m) l' \<noteq> None \<Longrightarrow> keysOf m l' \<noteq> None \<or> l' = l \<and> l \<noteq> 0"
  using keysOf_detach[of _ k "m\<lparr>kv := AList.update k v (kv m)\<rparr>" l']
  by (auto simp: put_kv_def attach_def Let_def split: option.splits if_splits)

lemma store_ok_put_kv:
  assumes "store_ok m" "l = 0 \<or> 0 < l \<and> l < nextLid m"
  shows "store_ok (put_kv k v l m)"
proof (cases "l = 0")
  case True
  then show ?thesis using store_okD[OF assms(1)]
    by (intro store_okI) (auto simp: put_kv_def Let_def distinct_update update_conv keys_at_def)
next
  case False
  note ok = store_okD[OF assms(1)]
  show ?thesis
  proof (rule store_okI)
    show "leaseOf (put_kv k v l m) k' = Some l' \<longleftrightarrow> k' \<in> set (keys_at (put_kv k v l m) l')" for k' l'
      using ok(2) False by (auto simp: put_kv_sel keys_at_put_kv(1)[OF assms(1) False])
    show "keysOf (put_kv k v l m) l' \<noteq> None \<Longrightarrow> 0 < l' \<and> l' < nextLid (put_kv k v l m)" for l'
      using keysOf_put_kv[OF assms(1), of k v l l'] ok(5)[of l'] assms(2) by (auto simp: put_kv_sel)
  qed (use ok False keys_at_put_kv(2)[OF assms(1) False] in
      \<open>auto simp: put_kv_sel distinct_update update_conv\<close>)
qed

lemma store_ok_del:
  assumes "store_ok m"
  shows "store_ok (del k m)" "map_of (kv (del k m)) = (map_of (kv m))(k := None)"
    "leaseOf (del k m) = (leaseOf m)(k := None)" "nextLid (del k m) = nextLid m"
proof -
  note ok = store_okD[OF assms]
  have none: "leaseOf m k = None" if "map_of (kv m) k = None" using ok(4)[of k] that by (cases "leaseOf m k") auto
  show m: "map_of (kv (del k m)) = (map_of (kv m))(k := None)"
    by (auto simp: del_def Let_def delete_conv' split: option.splits)
  show l: "leaseOf (del k m) = (leaseOf m)(k := None)"
    using none by (auto simp: del_def Let_def split: option.splits)
  show n: "nextLid (del k m) = nextLid m" by (simp add: del_def Let_def split: option.splits)
  have ks: "keys_at (del k m) l' = remove1 k (keys_at m l')" for l'
    using none ok(2)[of k l'] by (auto simp: del_def Let_def remove1_idem split: option.splits)
  have kn: "keysOf (del k m) l' \<noteq> None \<Longrightarrow> keysOf m l' \<noteq> None" for l'
    using keysOf_detach[of _ k "m\<lparr>kv := AList.delete k (kv m)\<rparr>" l']
    by (auto simp: del_def Let_def split: option.splits if_splits)
  show "store_ok (del k m)"
  proof (rule store_okI)
    show "distinct (map fst (kv (del k m)))" using ok(1) by (auto simp: del_def Let_def distinct_delete split: option.splits)
    show "leaseOf (del k m) k' = Some l' \<longleftrightarrow> k' \<in> set (keys_at (del k m) l')" for k' l'
      using ok(2)[of k' l'] ok(3)[of l'] by (auto simp: l ks)
  qed (use ok kn in \<open>auto simp: l ks m n\<close>)
qed

text \<open>Ending a lease: its list is already gone when its keys are deleted one by one.\<close>

lemma expire_keys_spec:
  assumes "distinct ks" "\<forall>k \<in> set ks. leaseOf m k = Some l \<and> map_of (kv m) k \<noteq> None" "keysOf m l = None"
  shows "kv (expire_keys l ks m) = filter (\<lambda>x. fst x \<notin> set ks) (kv m) \<and>
    leaseOf (expire_keys l ks m) = (\<lambda>k. if k \<in> set ks then None else leaseOf m k) \<and>
    keysOf (expire_keys l ks m) = keysOf m \<and> nextLid (expire_keys l ks m) = nextLid m"
  using assms
proof (induction ks arbitrary: m)
  case (Cons k ks)
  have d: "detach l k (m\<lparr>kv := AList.delete k (kv m)\<rparr>) = m\<lparr>kv := AList.delete k (kv m)\<rparr>"
    using Cons.prems(3) by (simp add: detach_def keys_at_def)
  have k: "leaseOf m k = Some l" "map_of (kv m) k \<noteq> None" using Cons.prems(2) by auto
  have del: "kv (del k m) = AList.delete k (kv m)" "leaseOf (del k m) = (leaseOf m)(k := None)"
    "keysOf (del k m) = keysOf m" "nextLid (del k m) = nextLid m"
    using k d by (auto simp: del_def Let_def)
  have "distinct ks" "\<forall>k' \<in> set ks. leaseOf (del k m) k' = Some l \<and> map_of (kv (del k m)) k' \<noteq> None"
    using Cons.prems(1,2) by (auto simp: del)
  from Cons.IH[OF this] Cons.prems(3) show ?case
    using k Cons.prems(1) by (auto simp: del AList.delete_eq fun_eq_iff intro: filter_cong)
qed simp

lemma map_of_filter_keys: "map_of (filter (\<lambda>x. P (fst x)) al) = (\<lambda>k. if P k then map_of al k else None)"
  by (induction al) (auto simp: fun_eq_iff)

lemma expire_spec:
  assumes "store_ok m"
  shows "store_ok (expire l m)"
    "map_of (kv (expire l m)) = (\<lambda>k. if leaseOf m k = Some l then None else map_of (kv m) k)"
    "leaseOf (expire l m) = (\<lambda>k. if leaseOf m k = Some l then None else leaseOf m k)"
    "nextLid (expire l m) = nextLid m"
proof -
  note ok = store_okD[OF assms]
  let ?m = "m\<lparr>keysOf := (keysOf m)(l := None)\<rparr>" and ?ks = "keys_at m l"
  have e: "kv (expire l m) = filter (\<lambda>x. fst x \<notin> set ?ks) (kv m) \<and>
      leaseOf (expire l m) = (\<lambda>k. if k \<in> set ?ks then None else leaseOf m k) \<and>
      keysOf (expire l m) = (keysOf m)(l := None) \<and> nextLid (expire l m) = nextLid m"
    using expire_keys_spec[of ?ks ?m l] ok(3)[of l] ok(2)[of _ l] ok(4)[of _ l] by (simp add: expire_def cong: if_cong)
  have ks: "k \<in> set ?ks \<longleftrightarrow> leaseOf m k = Some l" for k using ok(2) by simp
  show kv: "map_of (kv (expire l m)) = (\<lambda>k. if leaseOf m k = Some l then None else map_of (kv m) k)"
    using e map_of_filter_keys[of "\<lambda>k. k \<notin> set ?ks" "kv m"] by (simp add: ks fun_eq_iff)
  show lo: "leaseOf (expire l m) = (\<lambda>k. if leaseOf m k = Some l then None else leaseOf m k)"
    using e by (simp add: ks)
  show n: "nextLid (expire l m) = nextLid m" using e by simp
  have ka: "keys_at (expire l m) l' = (if l' = l then [] else keys_at m l')" for l'
    using e by (simp add: keys_at_def)
  show "store_ok (expire l m)"
  proof (rule store_okI)
    show "distinct (map fst (kv (expire l m)))" using e ok(1) by (simp add: distinct_map_filter)
    show "leaseOf (expire l m) k = Some l' \<longleftrightarrow> k \<in> set (keys_at (expire l m) l')" for k l'
      using ok(2)[of k l'] by (auto simp: lo ka)
    show "keysOf (expire l m) l' \<noteq> None \<Longrightarrow> 0 < l' \<and> l' < nextLid (expire l m)" for l'
      using e ok(5)[of l'] by (auto split: if_splits)
  qed (use ok in \<open>auto simp: ka kv lo n split: if_splits\<close>)
qed

definition can_Grant :: "MemStore \<Rightarrow> bool" where
  "can_Grant m \<longleftrightarrow> nextLid m \<noteq> - 1"

lemma word_less_succ: "(x :: 'a::len word) \<noteq> - 1 \<Longrightarrow> y < x + 1 \<longleftrightarrow> y \<le> x"
proof -
  assume "x \<noteq> - 1"
  then have "1 + x \<noteq> 0" by (metis add.inverse_unique add.commute)
  then have "unat (x + 1) = Suc (unat x)" using unatSuc[of x] by (simp add: add.commute)
  then show ?thesis by (simp add: word_less_nat_alt word_le_nat_alt less_Suc_eq_le)
qed

lemma Grant_ok:
  assumes "store_ok m" "can_Grant m"
  shows "store_ok (snd (Grant m))"
proof (rule store_okI)
  note ok = store_okD[OF assms(1)]
  have fresh: "keysOf m (nextLid m) = None" using ok(5)[of "nextLid m"] by (cases "keysOf m (nextLid m)") auto
  have ka: "keys_at (snd (Grant m)) l = keys_at m l" for l using fresh by (simp add: keys_at_def Grant_def)
  show "leaseOf (snd (Grant m)) k = Some l \<longleftrightarrow> k \<in> set (keys_at (snd (Grant m)) l)" for k l
    using ok(2)[of k l] by (simp add: ka) (simp add: Grant_def)
  show "distinct (keys_at (snd (Grant m)) l)" for l using ok(3) by (simp add: ka)
  show "keysOf (snd (Grant m)) l \<noteq> None \<Longrightarrow> 0 < l \<and> l < nextLid (snd (Grant m))" for l
    using ok(5)[of l] ok(6) assms(2) word_less_succ[of "nextLid m" l]
    by (auto simp: Grant_def can_Grant_def split: if_splits)
  show "0 < nextLid (snd (Grant m))"
    using assms(2) word_less_succ[of "nextLid m" 0] by (simp add: Grant_def can_Grant_def)
qed (use store_okD[OF assms(1)] in \<open>auto simp: Grant_def\<close>)

lemma Grant_granted:
  assumes "store_ok m" "can_Grant m"
  shows "granted_leases (snd (Grant m)) = insert (nextLid m) (granted_leases m)"
proof -
  have "l < nextLid m + 1 \<longleftrightarrow> l = nextLid m \<or> l < nextLid m" for l
    using word_less_succ[of "nextLid m" l] assms(2) by (auto simp: can_Grant_def)
  then show ?thesis using store_okD(6)[OF assms(1)] by (auto simp: granted_leases_def Grant_def)
qed

interpretation ms: coord_store Get Put Create Delete List_prefix Grant Revoke store_ok leaseOf granted_leases can_Grant
proof (unfold_locales, goal_cases)
  case (1 s l k v)
  then show ?case
    using store_ok_put_kv[of s l k v]
    by (auto simp: Put_put_kv put_kv_sel Get_def granted_leases_def update_conv fun_eq_iff)
next
  case (2 s l k v)
  then have "leaseOf s k = None" if "Get s k = None"
    using store_okD(4)[of s k] that by (cases "leaseOf s k") (auto simp: Get_def)
  then show ?case by (auto simp: Create_def Put_def Get_def Let_def)
next
  case (3 s k)
  then show ?case using store_ok_del[of s k] by (auto simp: Delete_def Get_def granted_leases_def fun_eq_iff)
next
  case (4 s p k)
  then show ?case using store_okD(1)[of s] map_of_filter_keys[of "prefix p" "kv s"]
    by (simp add: List_prefix_def HasPrefix_def Get_def case_prod_beta' distinct_map_filter)
next
  case (5 s)
  then show ?case using Grant_ok[of s] store_okD(6)[of s] Grant_granted[of s]
    by (auto simp: Grant_def granted_leases_def Get_def fun_eq_iff)
next
  case (6 s l)
  then show ?case using expire_spec[of s l] by (auto simp: Revoke_def Get_def granted_leases_def fun_eq_iff)
next
  case (7 s k)
  then show ?case using store_okD(4)[of s k] by (auto simp: Get_def)
qed

end
