(* ===== verification/Membership.thy ===== *)
theory Membership
  imports ControlStore
begin

text \<open>
  \<open>control/control.go\<close>, \<open>control/membership.go\<close> and \<open>control/election.go\<close>: placements, node
  registration under a lease, and leader election by atomic creation of a key. The operations
  take the store's methods as arguments, as the code takes a \<open>Store\<close>; their lemmas are proved once
  in the locale of the store contract. The store methods that cannot fail in the in-memory store
  return no error, so neither do these.
\<close>

type_synonym NodeID = string
type_synonym ShardID = u32

record Replica =
  rep_Shard :: ShardID
  rep_Node :: NodeID

record ReplicaSet =
  rs_Shard :: ShardID
  rs_Nodes :: "NodeID list"

text \<open>An assignment is a map from shards; it is iterated over, so it is an association list with
  distinct keys.\<close>

type_synonym Assignment = "(ShardID \<times> ReplicaSet) list"

definition NewAssignment :: Assignment where "NewAssignment = []"

definition Nodes :: "Assignment \<Rightarrow> NodeID list" where
  "Nodes a = sort (remdups (concat (map (\<lambda>(_, rs). rs_Nodes rs) a)))"

definition ShardsOn :: "Assignment \<Rightarrow> NodeID \<Rightarrow> ShardID list" where
  "ShardsOn a node = sort (map fst (filter (\<lambda>(_, rs). node \<in> set (rs_Nodes rs)) a))"

subsection \<open>Registration\<close>

definition nodePrefix :: string where "nodePrefix = ''node/''"

definition nodeKey :: "NodeID \<Rightarrow> string" where
  "nodeKey nid = nodePrefix @ nid"

definition Register :: "(string \<Rightarrow> string \<Rightarrow> LeaseID \<Rightarrow> 's \<Rightarrow> 's) \<Rightarrow> NodeID \<Rightarrow> LeaseID \<Rightarrow> 's \<Rightarrow> 's" where
  "Register put nid lease s = put (nodeKey nid) nid lease s"

fun members_loop :: "(string \<times> string) list \<Rightarrow> NodeID list \<Rightarrow> NodeID list" where
  "members_loop [] out = out"
| "members_loop ((k, v) # kvs) out =
     (let (nid, ok) = CutPrefix k nodePrefix in members_loop kvs (if ok then out @ [nid] else out))"

definition Members :: "('s \<Rightarrow> string \<Rightarrow> (string \<times> string) list) \<Rightarrow> 's \<Rightarrow> NodeID list" where
  "Members list_keys s = sort (members_loop (list_keys s nodePrefix) [])"

subsection \<open>Election\<close>

definition leaderPrefix :: string where "leaderPrefix = ''leader/''"

definition leaderKey :: "string \<Rightarrow> string" where
  "leaderKey role = leaderPrefix @ role"

definition Campaign ::
  "(string \<Rightarrow> string \<Rightarrow> LeaseID \<Rightarrow> 's \<Rightarrow> bool \<times> 's) \<Rightarrow> string \<Rightarrow> NodeID \<Rightarrow> LeaseID \<Rightarrow> 's \<Rightarrow> bool \<times> 's" where
  "Campaign create role nid lease s = create (leaderKey role) nid lease s"

definition Resign :: "(string \<Rightarrow> 's \<Rightarrow> 's) \<Rightarrow> string \<Rightarrow> 's \<Rightarrow> 's" where
  "Resign delete role s = delete (leaderKey role) s"

definition Leader :: "('s \<Rightarrow> string \<Rightarrow> string option) \<Rightarrow> 's \<Rightarrow> string \<Rightarrow> NodeID \<times> bool" where
  "Leader get s role = (case get s (leaderKey role) of None \<Rightarrow> ([], False) | Some v \<Rightarrow> (v, True))"

subsection \<open>Keys\<close>

lemma key_disjoint [simp]:
  "nodeKey n \<noteq> leaderKey r" "leaderKey r \<noteq> nodeKey n"
  "nodeKey n = nodeKey n' \<longleftrightarrow> n = n'" "leaderKey r = leaderKey r' \<longleftrightarrow> r = r'"
  by (simp_all add: nodeKey_def leaderKey_def nodePrefix_def leaderPrefix_def)

lemma members_loop_eq:
  "members_loop kvs out = out @ map (\<lambda>(k, v). drop (length nodePrefix) k) (filter (\<lambda>(k, v). prefix nodePrefix k) kvs)"
  by (induction kvs out rule: members_loop.induct) (auto simp: CutPrefix_def HasPrefix_def)

context coord_store
begin

text \<open>The registered nodes are the keys under the node prefix.\<close>

lemma Members_set:
  assumes "invar s"
  shows "set (Members list_keys s) = {n. get s (nodeKey n) \<noteq> None}"
    and "sorted_wrt (<) (Members list_keys s)"
proof -
  let ?kvs = "list_keys s nodePrefix"
  have kvs: "distinct (map fst ?kvs)" "map_of ?kvs k = (if prefix nodePrefix k then get s k else None)" for k
    using list_keys[OF assms, of nodePrefix k] by simp_all
  have pre: "prefix nodePrefix (fst x)" if "x \<in> set ?kvs" for x
    using kvs that by (cases x) (metis fst_conv map_of_is_SomeI option.distinct(1))
  then have "members_loop ?kvs [] = map (drop (length nodePrefix) \<circ> fst) ?kvs"
    unfolding members_loop_eq by (induction ?kvs) (auto simp: case_prod_beta intro!: arg_cong[of _ _ "map _"] filter_True)
  then have m: "members_loop ?kvs [] = map (drop (length nodePrefix)) (map fst ?kvs)" by simp
  have keys: "set (map fst ?kvs) = {k. prefix nodePrefix k \<and> get s k \<noteq> None}"
    using kvs by (auto simp: dom_map_of_conv_image_fst[symmetric] dom_def split: if_splits)
  show "set (Members list_keys s) = {n. get s (nodeKey n) \<noteq> None}"
    unfolding Members_def set_sort m set_map[of _ "map fst ?kvs"] keys
    by (force simp: prefix_def nodeKey_def)
  have "inj_on (drop (length nodePrefix)) (set (map fst ?kvs))"
    unfolding keys by (auto simp: inj_on_def prefix_def)
  then have "distinct (members_loop ?kvs [])" unfolding m using kvs(1) by (simp only: distinct_map)
  then show "sorted_wrt (<) (Members list_keys s)" by (simp add: Members_def strict_sorted_iff)
qed

end

subsection \<open>The cluster, abstractly\<close>

text \<open>What the store's keys stand for: which node is alive under which lease, and who leads a role
  under which lease. A lease that ends takes its nodes and its leaders with it.\<close>

record cluster =
  cl_nodes :: "NodeID \<rightharpoonup> LeaseID"
  cl_leaders :: "string \<rightharpoonup> NodeID \<times> LeaseID"

datatype cluster_op =
    OGrant
  | ORegister NodeID LeaseID
  | OCampaign string NodeID LeaseID
  | OResign string
  | OExpire LeaseID

fun spec_step :: "cluster_op \<Rightarrow> cluster \<Rightarrow> bool \<times> cluster" where
  "spec_step OGrant c = (True, c)"
| "spec_step (ORegister n l) c = (True, c\<lparr>cl_nodes := (cl_nodes c)(n \<mapsto> l)\<rparr>)"
| "spec_step (OCampaign r n l) c =
     (if cl_leaders c r = None then (True, c\<lparr>cl_leaders := (cl_leaders c)(r \<mapsto> (n, l))\<rparr>) else (False, c))"
| "spec_step (OResign r) c = (True, c\<lparr>cl_leaders := (cl_leaders c)(r := None)\<rparr>)"
| "spec_step (OExpire l) c =
     (True, \<lparr>cl_nodes = (\<lambda>n. if cl_nodes c n = Some l then None else cl_nodes c n),
             cl_leaders = (\<lambda>r. if map_option snd (cl_leaders c r) = Some l then None else cl_leaders c r)\<rparr>)"

fun cluster_step :: "cluster_op \<Rightarrow> MemStore \<Rightarrow> bool \<times> MemStore" where
  "cluster_step OGrant s = (True, snd (Grant s))"
| "cluster_step (ORegister n l) s = (True, Register Put n l s)"
| "cluster_step (OCampaign r n l) s = Campaign Create r n l s"
| "cluster_step (OResign r) s = (True, Resign Delete r s)"
| "cluster_step (OExpire l) s = (True, Expire l s)"

fun run_ops :: "(cluster_op \<Rightarrow> 's \<Rightarrow> bool \<times> 's) \<Rightarrow> cluster_op list \<Rightarrow> 's \<Rightarrow> bool list \<times> 's" where
  "run_ops stp [] s = ([], s)"
| "run_ops stp (o1 # ops) s =
     (let (b, s) = stp o1 s; (bs, s) = run_ops stp ops s in (b # bs, s))"

text \<open>Every lease an operation names was granted before it; \<open>g\<close> counts the leases granted so far.\<close>

fun ops_ok :: "nat \<Rightarrow> cluster_op list \<Rightarrow> bool" where
  "ops_ok g [] = True"
| "ops_ok g (OGrant # ops) = (g + 2 < 2 ^ 64 \<and> ops_ok (Suc g) ops)"
| "ops_ok g (ORegister n l # ops) = (l \<noteq> 0 \<and> unat l \<le> g \<and> ops_ok g ops)"
| "ops_ok g (OCampaign r n l # ops) = (l \<noteq> 0 \<and> unat l \<le> g \<and> ops_ok g ops)"
| "ops_ok g (OResign r # ops) = ops_ok g ops"
| "ops_ok g (OExpire l # ops) = (l \<noteq> 0 \<and> ops_ok g ops)"

context coord_store
begin

definition represents :: "'s \<Rightarrow> cluster \<Rightarrow> bool" where
  "represents s c \<longleftrightarrow> invar s \<and>
     (\<forall>n. get s (nodeKey n) = (if cl_nodes c n = None then None else Some n) \<and> holds s (nodeKey n) = cl_nodes c n) \<and>
     (\<forall>r. get s (leaderKey r) = map_option fst (cl_leaders c r) \<and> holds s (leaderKey r) = map_option snd (cl_leaders c r))"

lemma represents_Register:
  "represents s c \<Longrightarrow> l \<in> granted s \<Longrightarrow> l \<noteq> 0 \<Longrightarrow>
     represents (Register put n l s) (snd (spec_step (ORegister n l) c))"
  using put[of s l "nodeKey n" n] by (simp add: represents_def Register_def)

lemma represents_Campaign:
  assumes "represents s c" "l \<in> granted s" "l \<noteq> 0"
  shows "fst (Campaign create r n l s) = fst (spec_step (OCampaign r n l) c)"
    and "represents (snd (Campaign create r n l s)) (snd (spec_step (OCampaign r n l) c))"
  using assms put[of s l "leaderKey r" n] create[of s l "leaderKey r" n]
  by (auto simp: represents_def Campaign_def)

lemma represents_Resign:
  "represents s c \<Longrightarrow> represents (Resign delete r s) (snd (spec_step (OResign r) c))"
  using delete[of s "leaderKey r"] by (simp add: represents_def Resign_def)

lemma represents_revoke:
  "represents s c \<Longrightarrow> l \<noteq> 0 \<Longrightarrow> represents (revoke l s) (snd (spec_step (OExpire l) c))"
  using revoke[of s l] by (auto simp: represents_def)

lemma represents_grant:
  "represents s c \<Longrightarrow> can_grant s \<Longrightarrow> represents (snd (grant s)) c"
  using grant[of s] by (simp add: represents_def)

lemma represents_Members:
  assumes "represents s c"
  shows "set (Members list_keys s) = dom (cl_nodes c)" "sorted_wrt (<) (Members list_keys s)"
  using assms Members_set[of s] by (auto simp: represents_def split: if_splits)

lemma represents_Leader:
  "represents s c \<Longrightarrow> Leader get s r = (case cl_leaders c r of None \<Rightarrow> ([], False) | Some (n, _) \<Rightarrow> (n, True))"
  by (auto simp: represents_def Leader_def split: option.splits)

lemmas represents_steps = represents_Register represents_Campaign represents_Resign represents_revoke represents_grant

end

lemma cluster_step_represents:
  assumes "ms.represents s c" "ops_ok g (o1 # ops)" "unat (nextLid s) = Suc g"
  shows "fst (cluster_step o1 s) = fst (spec_step o1 c)" "ms.represents (snd (cluster_step o1 s)) (snd (spec_step o1 c))"
    "ops_ok (if o1 = OGrant then Suc g else g) ops"
    "unat (nextLid (snd (cluster_step o1 s))) = Suc (if o1 = OGrant then Suc g else g)"
proof -
  have inv: "store_ok s" using assms(1) by (simp add: ms.represents_def)
  have gr: "l \<in> granted_leases s" if "l \<noteq> 0" "unat l \<le> g" for l
  proof -
    have "l < nextLid s" using that assms(3) by (simp add: word_less_nat_alt)
    then show ?thesis using that(1) by (simp add: granted_leases_def word_gt_0)
  qed
  have cg: "can_Grant s" if "g + 2 < 2 ^ 64"
  proof -
    have "unat (- 1 :: u64) = 18446744073709551615" by (simp add: unsigned_minus_1_eq_mask mask_eq_exp_minus_1)
    then show ?thesis using that assms(3) by (auto simp: can_Grant_def)
  qed
  have nl: "unat (nextLid s + 1) = Suc (Suc g)" if "g + 2 < 2 ^ 64"
    using that assms(3) by (simp add: unat_word_ariths)
  show "fst (cluster_step o1 s) = fst (spec_step o1 c)"
    using assms ms.represents_Campaign(1) gr by (cases o1) auto
  show "ms.represents (snd (cluster_step o1 s)) (snd (spec_step o1 c))"
    using assms(2) ms.represents_steps[OF assms(1)] gr cg
    by (cases o1) (simp_all add: Expire_def Revoke_def)
  show "ops_ok (if o1 = OGrant then Suc g else g) ops" using assms(2) by (cases o1) auto
  show "unat (nextLid (snd (cluster_step o1 s))) = Suc (if o1 = OGrant then Suc g else g)"
    using assms nl store_ok_del(4)[OF inv] expire_spec(4)[OF inv]
    by (cases o1) (auto simp: Grant_def Register_def Campaign_def Create_def Resign_def Delete_def Expire_def
        Put_put_kv put_kv_sel attach_def Let_def)
qed

lemma run_ops_represents:
  assumes "ms.represents s c" "ops_ok g ops" "unat (nextLid s) = Suc g"
  shows "fst (run_ops cluster_step ops s) = fst (run_ops spec_step ops c) \<and>
    ms.represents (snd (run_ops cluster_step ops s)) (snd (run_ops spec_step ops c))"
  using assms
proof (induction ops arbitrary: s c g)
  case (Cons o1 ops)
  note st = cluster_step_represents[OF Cons.prems]
  from Cons.IH[OF st(2-4)] st(1) show ?case by (simp add: Let_def case_prod_beta)
qed simp

subsection \<open>Properties\<close>

text \<open>C12: The control plane's liveness and leadership follow the leases. For any sequence of grants,
  registrations, campaigns, resignations and lease expiries on a fresh store, every campaign wins
  exactly when the role is vacant, the members are the nodes whose lease has not ended (in order, each
  once), and the leader of a role is the candidate that won it last, until it resigned or its lease
  ended; so a role never has two leaders.\<close>

theorem cluster_refines_leases:
  assumes "ops_ok 0 ops"
  defines "s \<equiv> snd (run_ops cluster_step ops NewMemStore)"
    and "c \<equiv> snd (run_ops spec_step ops \<lparr>cl_nodes = Map.empty, cl_leaders = Map.empty\<rparr>)"
  shows "fst (run_ops cluster_step ops NewMemStore)
      = fst (run_ops spec_step ops \<lparr>cl_nodes = Map.empty, cl_leaders = Map.empty\<rparr>) \<and>
    set (Members List_prefix s) = dom (cl_nodes c) \<and> sorted_wrt (<) (Members List_prefix s) \<and>
    Leader Get s r = (case cl_leaders c r of None \<Rightarrow> ([], False) | Some (n, _) \<Rightarrow> (n, True))"
proof -
  have "ms.represents NewMemStore \<lparr>cl_nodes = Map.empty, cl_leaders = Map.empty\<rparr>"
    by (simp add: ms.represents_def) (simp add: NewMemStore_def Get_def)
  from run_ops_represents[OF this assms(1)] have "fst (run_ops cluster_step ops NewMemStore)
      = fst (run_ops spec_step ops \<lparr>cl_nodes = Map.empty, cl_leaders = Map.empty\<rparr>)" "ms.represents s c"
    by (simp_all add: NewMemStore_def s_def c_def)
  then show ?thesis using ms.represents_Members ms.represents_Leader by blast
qed

theorem cluster_refines_leases_witness:
  "ops_ok 0 [OGrant, ORegister ''a'' 1, OCampaign ''p'' ''a'' 1, OCampaign ''p'' ''b'' 1] \<and>
   fst (run_ops cluster_step [OGrant, ORegister ''a'' 1, OCampaign ''p'' ''a'' 1, OCampaign ''p'' ''b'' 1] NewMemStore)
     = [True, True, True, False]"
  using cluster_refines_leases[of "[OGrant, ORegister ''a'' 1, OCampaign ''p'' ''a'' 1, OCampaign ''p'' ''b'' 1]"]
  by simp

end
