(* ===== verification/Types.thy ===== *)
theory Types
  imports Prelude
begin

text \<open>
  \<open>types.go\<close>: the domain types every subsystem shares. A \<open>Score\<close> is a float32 in the source; the
  development keeps its type a parameter \<open>'s\<close> and states what it needs of comparison and
  addition where it needs it.
\<close>

type_synonym DocID = u32
type_synonym SegmentID = u64
type_synonym TermID = u32
type_synonym SnapshotID = string

record GlobalDocID =
  Segment :: SegmentID
  Local :: DocID

definition Score_Less :: "'s::ord \<Rightarrow> 's \<Rightarrow> bool" where
  "Score_Less s other = (s > other)"

text \<open>A content hash is 32 bytes; \<open>String\<close> renders it as lowercase hex.\<close>

type_synonym ContentHash = bytes

definition hex_digits :: string where
  "hex_digits = ''0123456789abcdef''"

definition ContentHash_String :: "ContentHash \<Rightarrow> string" where
  "ContentHash_String h =
     concat (map (\<lambda>c. [hex_digits ! unat (drop_bit 4 c), hex_digits ! unat (c AND 0x0f)]) h)"

record 's Result =
  Res_Doc :: GlobalDocID
  Res_URL :: string
  Res_Score :: 's

record Posting =
  Doc :: DocID
  Frequency :: u32

text \<open>\<open>Field\<close> is a \<open>uint8\<close>; the four named values index the per-field arrays.\<close>

type_synonym Field = byte

definition FieldBody :: Field where "FieldBody = 0"
definition FieldTitle :: Field where "FieldTitle = 1"
definition FieldAnchor :: Field where "FieldAnchor = 2"
definition FieldURL :: Field where "FieldURL = 3"
definition NumFields :: nat where "NumFields = 4"

text \<open>\<open>fmt.Sprintf("%d", n)\<close>, the decimal rendering of a natural number.\<close>

fun decimal :: "nat \<Rightarrow> string" where
  "decimal n = (if n < 10 then [char_of (48 + n)] else decimal (n div 10) @ [char_of (48 + n mod 10)])"

declare decimal.simps [simp del]

definition Field_String :: "Field \<Rightarrow> string" where
  "Field_String f =
     (if f = FieldBody then ''body''
      else if f = FieldTitle then ''title''
      else if f = FieldAnchor then ''anchor''
      else if f = FieldURL then ''url''
      else ''field('' @ decimal (unat f) @ '')'')"

subsection \<open>Hex rendering is injective\<close>

lemma hex_digit_inj: "i < 16 \<Longrightarrow> j < 16 \<Longrightarrow> hex_digits ! i = hex_digits ! j \<Longrightarrow> i = j"
  using nth_eq_iff_index_eq[of hex_digits i j] by (simp add: hex_digits_def)

lemma byte_nibbles:
  "unat (drop_bit 4 (c :: byte)) < 16" "unat (c AND 0x0f) < 16"
  "unat c = 16 * unat (drop_bit 4 c) + unat (c AND 0x0f)"
proof -
  have m: "c AND 0x0f = take_bit 4 c" by (simp add: take_bit_eq_mask mask_eq_exp_minus_1)
  show "unat (drop_bit 4 c) < 16" using unat_drop_bit_less[of 4 8 c] by simp
  show "unat (c AND 0x0f) < 16" by (simp add: m unat_take_bit)
  show "unat c = 16 * unat (drop_bit 4 c) + unat (c AND 0x0f)"
    by (simp add: m unat_take_bit unat_drop_bit)
qed

lemma ContentHash_String_length: "length (ContentHash_String h) = 2 * length h"
  by (induction h) (simp_all add: ContentHash_String_def)

lemma ContentHash_String_inj: "ContentHash_String g = ContentHash_String h \<Longrightarrow> g = h"
proof (induction g arbitrary: h)
  case Nil
  then show ?case by (cases h) (simp_all add: ContentHash_String_def)
next
  case (Cons c g)
  then obtain d h' where h: "h = d # h'" by (cases h) (simp_all add: ContentHash_String_def)
  from Cons.prems have "hex_digits ! unat (drop_bit 4 c) = hex_digits ! unat (drop_bit 4 d)"
    "hex_digits ! unat (c AND 0x0f) = hex_digits ! unat (d AND 0x0f)" "ContentHash_String g = ContentHash_String h'"
    by (simp_all add: h ContentHash_String_def)
  then have "unat (drop_bit 4 c) = unat (drop_bit 4 d)" "unat (c AND 0x0f) = unat (d AND 0x0f)" "g = h'"
    using hex_digit_inj byte_nibbles(1,2) Cons.IH by blast+
  then have "unat c = unat d" unfolding byte_nibbles(3)[of c] byte_nibbles(3)[of d] by simp
  with \<open>g = h'\<close> show ?case by (simp add: h word_unat_eq_iff)
qed

end
