(* ===== verification/Routing.thy ===== *)
theory Routing
  imports Membership Types
begin

text \<open>
  \<open>control/routing.go\<close>: the routing table in the store, one key per shard, and the router that keeps
  a serving node's copy current from the watch channel. \<open>Publish\<close> iterates over a Go map, so the order
  of its writes is the argument \<open>ord\<close>.
\<close>

subsection \<open>Decimal numbers\<close>

text \<open>\<open>strconv.ParseUint(s, 10, bits)\<close>: a non-empty run of digits below \<open>2^bits\<close>.\<close>

fun parse_digits :: "nat \<Rightarrow> string \<Rightarrow> nat option" where
  "parse_digits acc [] = Some acc"
| "parse_digits acc (c # cs) =
     (if 48 \<le> (of_char c :: nat) \<and> (of_char c :: nat) \<le> 57 then parse_digits (acc * 10 + (of_char c - 48)) cs else None)"

definition ParseUint :: "string \<Rightarrow> nat \<Rightarrow> nat option" where
  "ParseUint s bits =
     (if s = [] then None
      else case parse_digits 0 s of None \<Rightarrow> None | Some n \<Rightarrow> if n < 2 ^ bits then Some n else None)"

lemma of_char_digit: "d < 10 \<Longrightarrow> (of_char (char_of (48 + d) :: char) :: nat) = 48 + d"
  by simp

lemma parse_digits_append:
  "parse_digits acc (xs @ ys) = (case parse_digits acc xs of None \<Rightarrow> None | Some a \<Rightarrow> parse_digits a ys)"
  by (induction acc xs rule: parse_digits.induct) auto

lemma parse_decimal: "parse_digits 0 (decimal n) = Some n"
proof (induction n rule: decimal.induct)
  case (1 n)
  then show ?case
    by (subst decimal.simps) (auto simp: parse_digits_append of_char_digit)
qed

lemma decimal_ne [simp]: "decimal n \<noteq> []"
  by (subst decimal.simps) simp

lemma decimal_inj [simp]: "decimal m = decimal n \<longleftrightarrow> m = n"
  by (metis parse_decimal option.inject)

lemma ParseUint_decimal: "n < 2 ^ bits \<Longrightarrow> ParseUint (decimal n) bits = Some n"
  by (simp add: ParseUint_def parse_decimal)

subsection \<open>The table\<close>

definition routePrefix :: string where "routePrefix = ''route/''"

definition routeKey :: "ShardID \<Rightarrow> string" where
  "routeKey shard = routePrefix @ decimal (unat shard)"

definition newline :: char where "newline = CHR 0x0A"

definition encodeNodes :: "NodeID list \<Rightarrow> string" where
  "encodeNodes nodes = Join nodes [newline]"

definition decodeNodes :: "string \<Rightarrow> NodeID list" where
  "decodeNodes b = (if b = [] then [] else Split newline b)"

definition Publish ::
  "(Assignment \<Rightarrow> Assignment) \<Rightarrow> (string \<Rightarrow> string \<Rightarrow> LeaseID \<Rightarrow> 's \<Rightarrow> 's) \<Rightarrow> Assignment \<Rightarrow> 's \<Rightarrow> 's" where
  "Publish ord put a s = fold (\<lambda>(shard, rs). put (routeKey shard) (encodeNodes (rs_Nodes rs)) 0) (ord a) s"

definition parseRouteKey :: "string \<Rightarrow> ShardID \<times> bool" where
  "parseRouteKey key =
     (let (s, ok) = CutPrefix key routePrefix
      in if \<not> ok then (0, False)
         else case ParseUint s 32 of None \<Rightarrow> (0, False) | Some n \<Rightarrow> (of_nat n, True))"

fun load_loop :: "(string \<times> string) list \<Rightarrow> Assignment \<Rightarrow> Assignment" where
  "load_loop [] a = a"
| "load_loop ((k, v) # kvs) a =
     (let (shard, ok) = parseRouteKey k
      in load_loop kvs (if ok then AList.update shard \<lparr>rs_Shard = shard, rs_Nodes = decodeNodes v\<rparr> a else a))"

definition Load :: "('s \<Rightarrow> string \<Rightarrow> (string \<times> string) list) \<Rightarrow> 's \<Rightarrow> Assignment" where
  "Load list_keys s = load_loop (list_keys s routePrefix) NewAssignment"

subsection \<open>The router\<close>

record Router =
  r_current :: Assignment

definition NewRouter :: "Assignment \<Rightarrow> Router" where
  "NewRouter seed = \<lparr>r_current = seed\<rparr>"

definition Router_Lookup :: "Router \<Rightarrow> ShardID \<Rightarrow> ReplicaSet option" where
  "Router_Lookup r shard = map_of (r_current r) shard"

definition Router_Snapshot :: "Router \<Rightarrow> Assignment" where
  "Router_Snapshot r = fold (\<lambda>(k, v). AList.update k v) (r_current r) NewAssignment"

definition Router_apply :: "Event \<Rightarrow> Router \<Rightarrow> Router" where
  "Router_apply e r =
     (let (shard, ok) = parseRouteKey (ev_Key e)
      in if \<not> ok then r
         else case ev_Type e of
                EventPut \<Rightarrow> r\<lparr>r_current := AList.update shard \<lparr>rs_Shard = shard, rs_Nodes = decodeNodes (ev_Value e)\<rparr> (r_current r)\<rparr>
              | EventDelete \<Rightarrow> r\<lparr>r_current := AList.delete shard (r_current r)\<rparr>)"

text \<open>The watch loop on the events the channel delivers, in order.\<close>

fun Router_Watch :: "Event list \<Rightarrow> Router \<Rightarrow> Router" where
  "Router_Watch [] r = r"
| "Router_Watch (e # es) r = Router_Watch es (Router_apply e r)"

subsection \<open>Encoding\<close>

definition node_ok :: "NodeID \<Rightarrow> bool" where
  "node_ok n \<longleftrightarrow> n \<noteq> [] \<and> newline \<notin> set n"

lemma Join_ne: "ws \<noteq> [] \<Longrightarrow> hd ws \<noteq> [] \<Longrightarrow> Join ws sep \<noteq> []"
  by (induction ws sep rule: Join.induct) auto

lemma decode_encodeNodes: "\<forall>n \<in> set nodes. node_ok n \<Longrightarrow> decodeNodes (encodeNodes nodes) = nodes"
  by (cases "nodes = []") (auto simp: decodeNodes_def encodeNodes_def node_ok_def Join_ne Split_Join hd_in_set)

lemma parse_routeKey [simp]: "parseRouteKey (routeKey shard) = (shard, True)"
proof -
  have "unat shard < 2 ^ 32" using unat_u32_less[of shard] by simp
  then show ?thesis by (simp add: parseRouteKey_def routeKey_def CutPrefix_def HasPrefix_def ParseUint_decimal)
qed

lemma routeKey_inj [simp]: "routeKey a = routeKey b \<longleftrightarrow> a = b"
  by (simp add: routeKey_def word_unat_eq_iff)

lemma routeKey_disjoint [simp]:
  "routeKey a \<noteq> nodeKey n" "routeKey a \<noteq> leaderKey r" "nodeKey n \<noteq> routeKey a" "leaderKey r \<noteq> routeKey a"
  by (simp_all add: routeKey_def nodeKey_def leaderKey_def routePrefix_def nodePrefix_def leaderPrefix_def)

lemma prefix_routeKey [simp]: "prefix routePrefix (routeKey a)"
  by (simp add: routeKey_def)

text \<open>The keys the control plane itself writes under the prefix are the shard keys. Another spelling
  of a number (leading zeros) parses to the same shard.\<close>

definition canonical :: "string \<Rightarrow> bool" where
  "canonical k \<longleftrightarrow> (prefix routePrefix k \<longrightarrow> k = routeKey (fst (parseRouteKey k)) \<and> snd (parseRouteKey k))"

lemma canonical_route [simp]: "canonical (routeKey a)"
  by (simp add: canonical_def)

lemma canonicalE: "canonical k \<Longrightarrow> prefix routePrefix k \<Longrightarrow> \<exists>shard. k = routeKey shard"
  unfolding canonical_def by blast

text \<open>The table a key-value map stands for.\<close>

definition route_map :: "(string \<rightharpoonup> string) \<Rightarrow> ShardID \<rightharpoonup> ReplicaSet" where
  "route_map m shard = map_option (\<lambda>v. \<lparr>rs_Shard = shard, rs_Nodes = decodeNodes v\<rparr>) (m (routeKey shard))"

lemma load_loop_map:
  assumes "distinct (map fst kvs)" "\<forall>k \<in> fst ` set kvs. \<exists>sh. k = routeKey sh"
  shows "map_of (load_loop kvs a) shard = (case route_map (map_of kvs) shard of None \<Rightarrow> map_of a shard | Some rs \<Rightarrow> Some rs)"
  using assms
proof (induction kvs a rule: load_loop.induct)
  case (2 k v kvs a)
  obtain sh where k: "k = routeKey sh" using 2(3) by auto
  have "map_of kvs k = None" using 2(2) by (simp add: map_of_eq_None_iff)
  with 2 show ?case by (auto simp: k route_map_def update_conv split: option.splits)
qed (simp add: route_map_def)

context coord_store
begin

definition routes_ok :: "'s \<Rightarrow> bool" where
  "routes_ok s \<longleftrightarrow> (\<forall>k. get s k \<noteq> None \<longrightarrow> canonical k)"

lemma Load_map:
  assumes "invar s" "routes_ok s"
  shows "map_of (Load list_keys s) = route_map (get s)"
proof -
  let ?kvs = "list_keys s routePrefix"
  have kvs: "distinct (map fst ?kvs)" "map_of ?kvs k = (if prefix routePrefix k then get s k else None)" for k
    using list_keys[OF assms(1), of routePrefix k] by simp_all
  have "\<exists>sh. k = routeKey sh" if "k \<in> fst ` set ?kvs" for k
  proof -
    have "map_of ?kvs k \<noteq> None" using that by (simp add: map_of_eq_None_iff)
    then show ?thesis using kvs(2)[of k] assms(2) canonicalE by (auto simp: routes_ok_def split: if_splits)
  qed
  from load_loop_map[OF kvs(1)] this have "map_of (Load list_keys s) shard =
      (case route_map (map_of ?kvs) shard of None \<Rightarrow> map_of NewAssignment shard | Some rs \<Rightarrow> Some rs)" for shard
    unfolding Load_def by blast
  then show ?thesis by (auto simp: NewAssignment_def route_map_def kvs(2) split: option.splits)
qed

text \<open>Publishing overwrites exactly the assigned shards.\<close>

lemma Publish_spec:
  assumes "invar s" "distinct (map fst a)" "\<And>xs. mset (ord xs) = mset xs"
  shows "invar (Publish ord put a s) \<and> holds (Publish ord put a s) = holds s \<and>
    get (Publish ord put a s) (routeKey shard) =
      (case map_of a shard of Some rs \<Rightarrow> Some (encodeNodes (rs_Nodes rs)) | None \<Rightarrow> get s (routeKey shard)) \<and>
    (\<forall>k. (\<forall>sh. k \<noteq> routeKey sh) \<longrightarrow> get (Publish ord put a s) k = get s k)"
proof -
  have step: "invar s' \<Longrightarrow> distinct (map fst b) \<Longrightarrow>
      invar (fold (\<lambda>(shard, rs). put (routeKey shard) (encodeNodes (rs_Nodes rs)) 0) b s') \<and>
      holds (fold (\<lambda>(shard, rs). put (routeKey shard) (encodeNodes (rs_Nodes rs)) 0) b s') = holds s' \<and>
      get (fold (\<lambda>(shard, rs). put (routeKey shard) (encodeNodes (rs_Nodes rs)) 0) b s') (routeKey shard) =
        (case map_of b shard of Some rs \<Rightarrow> Some (encodeNodes (rs_Nodes rs)) | None \<Rightarrow> get s' (routeKey shard)) \<and>
      (\<forall>k. (\<forall>sh. k \<noteq> routeKey sh) \<longrightarrow>
        get (fold (\<lambda>(shard, rs). put (routeKey shard) (encodeNodes (rs_Nodes rs)) 0) b s') k = get s' k)" for b s'
  proof (induction b arbitrary: s')
    case (Cons x b)
    obtain sh rs where x: "x = (sh, rs)" by (cases x)
    note p = put[OF Cons.prems(1), of 0 "routeKey sh" "encodeNodes (rs_Nodes rs)"]
    have "map_of b sh = None" using Cons.prems(2) x by (simp add: map_of_eq_None_iff)
    with Cons.IH[of "put (routeKey sh) (encodeNodes (rs_Nodes rs)) 0 s'"] p Cons.prems(2) show ?case
      by (auto simp: x split: option.splits)
  qed simp
  have "distinct (map fst (ord a))" "map_of (ord a) = map_of a"
    using perm_map_of[of a "ord a"] assms(2,3) by simp_all
  with step[OF assms(1), of "ord a"] show ?thesis unfolding Publish_def by simp
qed

end

subsection \<open>Watching the store\<close>

text \<open>An event replays one change of the key space.\<close>

definition ev_effect :: "Event \<Rightarrow> (string \<rightharpoonup> string) \<Rightarrow> (string \<rightharpoonup> string)" where
  "ev_effect e m = (case ev_Type e of EventPut \<Rightarrow> m(ev_Key e \<mapsto> ev_Value e) | EventDelete \<Rightarrow> m(ev_Key e := None))"

text \<open>Between two states every change of the keys was fanned out, in order; only the keys in \<open>K\<close>
  and keys that were present are touched.\<close>

definition follows :: "string set \<Rightarrow> Event list \<Rightarrow> MemStore \<Rightarrow> MemStore \<Rightarrow> bool" where
  "follows K es m m' \<longleftrightarrow> map_of (kv m') = fold ev_effect es (map_of (kv m)) \<and> watchers m' = watchers m \<and>
     channels m' = fold (\<lambda>e. fan_loop e (watchers m)) es (channels m) \<and>
     (distinct (map fst (kv m)) \<longrightarrow> distinct (map fst (kv m'))) \<and>
     ev_Key ` set es \<subseteq> K \<union> dom (map_of (kv m)) \<and> dom (map_of (kv m')) \<subseteq> K \<union> dom (map_of (kv m))"

lemma follows_refl: "follows K [] m m"
  by (simp add: follows_def)

lemma followsD:
  assumes "follows K es m m'"
  shows "map_of (kv m') = fold ev_effect es (map_of (kv m))" "watchers m' = watchers m"
    "channels m' = fold (\<lambda>e. fan_loop e (watchers m)) es (channels m)"
    "distinct (map fst (kv m)) \<Longrightarrow> distinct (map fst (kv m'))"
    "ev_Key ` set es \<subseteq> K \<union> dom (map_of (kv m))" "dom (map_of (kv m')) \<subseteq> K \<union> dom (map_of (kv m))"
  using assms unfolding follows_def by blast+

lemma follows_trans:
  assumes "follows K es m m'" "follows K es' m' m''"
  shows "follows K (es @ es') m m''"
proof -
  note f = followsD[OF assms(1)] and g = followsD[OF assms(2)]
  have dm: "K \<union> dom (map_of (kv m')) \<subseteq> K \<union> dom (map_of (kv m))" by (rule Un_least[OF Un_upper1 f(6)])
  have "ev_Key ` set (es @ es') \<subseteq> K \<union> dom (map_of (kv m))"
    unfolding set_append image_Un by (rule Un_least[OF f(5) subset_trans[OF g(5) dm]])
  moreover have "dom (map_of (kv m'')) \<subseteq> K \<union> dom (map_of (kv m))" by (rule subset_trans[OF g(6) dm])
  moreover have "map_of (kv m'') = fold ev_effect (es @ es') (map_of (kv m))" by (simp add: g(1) f(1))
  moreover have "channels m'' = fold (\<lambda>e. fan_loop e (watchers m)) (es @ es') (channels m)" by (simp add: g(3) f(2,3))
  ultimately show ?thesis unfolding follows_def using f(2,4) g(2,4) by (intro conjI impI) simp_all
qed

lemma follows_frame:
  "follows K es m m' \<Longrightarrow> kv m'' = kv m' \<Longrightarrow> watchers m'' = watchers m' \<Longrightarrow> channels m'' = channels m' \<Longrightarrow> follows K es m m''"
  unfolding follows_def by metis

lemma del_follows: "\<exists>es. follows K es m (del k m)"
proof (cases "map_of (kv m) k")
  case None
  then show ?thesis using follows_refl by (auto simp: del_def)
next
  case (Some v)
  have "follows K [\<lparr>ev_Type = EventDelete, ev_Key = k, ev_Value = []\<rparr>] m (del k m)"
    using Some by (auto simp: follows_def del_def Let_def fan_def ev_effect_def delete_conv' distinct_delete split: option.splits)
  then show ?thesis by blast
qed

lemma expire_keys_follows: "\<exists>es. follows K es m (expire_keys l ks m)"
proof (induction ks arbitrary: m)
  case (Cons k ks)
  let ?m = "if (case leaseOf m k of Some l \<Rightarrow> l | None \<Rightarrow> 0) = l then del k m else m"
  obtain es where "follows K es m ?m"
    using del_follows[of K m k] follows_refl[of K m] by (cases "(case leaseOf m k of Some l \<Rightarrow> l | None \<Rightarrow> 0) = l") auto
  moreover obtain es' where "follows K es' ?m (expire_keys l ks ?m)" using Cons.IH by blast
  ultimately show ?case using follows_trans by (metis expire_keys.simps(2))
qed (use follows_refl in auto)

lemma expire_follows: "\<exists>es. follows K es m (expire l m)"
  using expire_keys_follows[of K "m\<lparr>keysOf := (keysOf m)(l := None)\<rparr>" l "keys_at m l"]
  by (auto simp: expire_def follows_def)

lemma put_kv_channels: "watchers (put_kv k v l m) = watchers m" "channels (put_kv k v l m) = channels m"
  by (auto simp: put_kv_def attach_def Let_def split: option.splits)

lemma fan_put_follows:
  assumes "kv m' = AList.update k v (kv m)" "watchers m' = watchers m" "channels m' = channels m"
  shows "follows {k} [\<lparr>ev_Type = EventPut, ev_Key = k, ev_Value = v\<rparr>] m (fan \<lparr>ev_Type = EventPut, ev_Key = k, ev_Value = v\<rparr> m')"
  using assms by (auto simp: follows_def fan_def ev_effect_def update_conv' distinct_update)

datatype store_write = WPut string string LeaseID | WCreate string string LeaseID | WDelete string | WGrant | WExpire LeaseID

fun write_step :: "store_write \<Rightarrow> MemStore \<Rightarrow> MemStore" where
  "write_step (WPut k v l) m = Put k v l m"
| "write_step (WCreate k v l) m = snd (Create k v l m)"
| "write_step (WDelete k) m = Delete k m"
| "write_step WGrant m = snd (Grant m)"
| "write_step (WExpire l) m = Expire l m"

fun write_keys :: "store_write \<Rightarrow> string set" where
  "write_keys (WPut k v l) = {k}"
| "write_keys (WCreate k v l) = {k}"
| "write_keys _ = {}"

lemma write_step_follows: "\<exists>es. follows (write_keys w) es m (write_step w m)"
proof (cases w)
  case (WPut k v l)
  then show ?thesis using fan_put_follows[of "put_kv k v l m" k v m] put_kv_sel(1)[of k v l m] put_kv_channels[of k v l m]
    by (auto simp: Put_put_kv)
next
  case (WCreate k v l)
  show ?thesis
  proof (cases "map_of (kv m) k")
    case None
    then show ?thesis using WCreate
        fan_put_follows[of "m\<lparr>kv := AList.update k v (kv m)\<rparr>" k v m]
        fan_put_follows[of "attach l k (m\<lparr>kv := AList.update k v (kv m)\<rparr>)" k v m]
      by (cases "l = 0") (auto simp: Create_def Let_def attach_def)
  next
    case (Some y)
    then show ?thesis using follows_refl WCreate by (auto simp: Create_def)
  qed
next
  case WGrant
  then show ?thesis using follows_frame[OF follows_refl[of "{}" m], of "snd (Grant m)"] by (auto simp: Grant_def)
qed (use del_follows expire_follows in \<open>auto simp: Delete_def Expire_def\<close>)

lemma follows_mono: "follows K es m m' \<Longrightarrow> K \<subseteq> K' \<Longrightarrow> follows K' es m m'"
  unfolding follows_def by (elim conjE, intro conjI) (assumption | blast)+

lemma writes_follow: "\<exists>es. follows (\<Union>w \<in> set ws. write_keys w) es m (fold write_step ws m)"
proof (induction ws arbitrary: m)
  case (Cons w ws)
  let ?K = "\<Union>w \<in> set (w # ws). write_keys w"
  obtain es where es: "follows ?K es m (write_step w m)" 
    using write_step_follows[of w m] follows_mono[of "write_keys w" _ m "write_step w m" ?K] by auto
  obtain es' where "follows (\<Union>w \<in> set ws. write_keys w) es' (write_step w m) (fold write_step ws (write_step w m))"
    using Cons.IH by blast
  then have "follows ?K es' (write_step w m) (fold write_step ws (write_step w m))" by (rule follows_mono) auto
  with es show ?case using follows_trans by fastforce
qed (use follows_refl in auto)

text \<open>What one watcher receives: every event under its prefix, as long as its buffer has room.\<close>

lemma fan_loop_other:
  "\<forall>w \<in> set ws. w_ch w \<noteq> ch \<Longrightarrow> fan_loop e ws cs ! ch = cs ! ch" "length (fan_loop e ws cs) = length cs"
  by (induction e ws cs rule: fan_loop.induct) auto

lemma fan_loop_append: "fan_loop e (ws @ ws') cs = fan_loop e ws' (fan_loop e ws cs)"
  by (induction e ws cs rule: fan_loop.induct) auto

definition deliver :: "string \<Rightarrow> Event \<Rightarrow> channel \<Rightarrow> channel" where
  "deliver p e c = (if prefix p (ev_Key e) then try_send e c else c)"

lemma fan_loop_last:
  assumes "\<forall>w \<in> set ws. w_ch w < length cs - 1" "cs \<noteq> []"
  shows "fan_loop e (ws @ [\<lparr>w_prefix = p, w_ch = length cs - 1\<rparr>]) cs ! (length cs - 1) = deliver p e (cs ! (length cs - 1))"
proof -
  have "fan_loop e ws cs ! (length cs - 1) = cs ! (length cs - 1)" using assms(1) by (intro fan_loop_other) auto
  then show ?thesis using assms(2) by (simp add: fan_loop_append HasPrefix_def deliver_def fan_loop_other(2))
qed

lemma fold_fan_last:
  assumes "\<forall>w \<in> set ws. w_ch w < length cs - 1" "cs \<noteq> []"
  shows "fold (\<lambda>e. fan_loop e (ws @ [\<lparr>w_prefix = p, w_ch = length cs - 1\<rparr>])) es cs ! (length cs - 1)
    = fold (deliver p) es (cs ! (length cs - 1))"
  using assms
proof (induction es arbitrary: cs)
  case (Cons e es)
  let ?cs = "fan_loop e (ws @ [\<lparr>w_prefix = p, w_ch = length cs - 1\<rparr>]) cs"
  have l: "length ?cs = length cs" by (rule fan_loop_other(2))
  then have "\<forall>w \<in> set ws. w_ch w < length ?cs - 1" "?cs \<noteq> []" using Cons.prems by auto
  from Cons.IH[OF this, unfolded l] show ?case using fan_loop_last[OF Cons.prems, of e p] by simp
qed simp

lemma deliver_length: "length (ch_buf c) \<le> length (ch_buf (fold (deliver p) es c))"
proof (induction es arbitrary: c)
  case (Cons e es)
  have "length (ch_buf c) \<le> length (ch_buf (deliver p e c))" by (simp add: deliver_def try_send_def)
  then show ?case using Cons[of "deliver p e c"] by simp
qed simp

lemma deliver_all:
  "length (ch_buf (fold (deliver p) es c)) < chan_cap \<Longrightarrow>
   ch_buf (fold (deliver p) es c) = ch_buf c @ filter (\<lambda>e. prefix p (ev_Key e)) es"
proof (induction es arbitrary: c)
  case (Cons e es)
  have "length (ch_buf c) < chan_cap" using deliver_length[of c p "e # es"] Cons.prems by simp
  then show ?case using Cons.IH[of "deliver p e c"] Cons.prems by (simp add: deliver_def try_send_def)
qed simp

text \<open>Replaying the delivered events keeps the router's table equal to the table in the store.\<close>

lemma Router_Watch_route_map:
  assumes "\<forall>e \<in> set es. canonical (ev_Key e)" "map_of (r_current r) = route_map m"
  shows "map_of (r_current (Router_Watch (filter (\<lambda>e. prefix routePrefix (ev_Key e)) es) r)) = route_map (fold ev_effect es m)"
  using assms
proof (induction es arbitrary: r m)
  case (Cons e es)
  show ?case
  proof (cases "prefix routePrefix (ev_Key e)")
    case True
    then obtain sh where k: "ev_Key e = routeKey sh" using Cons.prems(1) canonicalE by auto
    have "map_of (r_current (Router_apply e r)) = route_map (ev_effect e m)"
      using Cons.prems(2)
      by (auto simp: Router_apply_def k ev_effect_def route_map_def update_conv' delete_conv' fun_eq_iff split: EventType.split)
    with Cons.IH[of "Router_apply e r" "ev_effect e m"] Cons.prems(1) True show ?thesis by simp
  next
    case False
    then have "routeKey sh \<noteq> ev_Key e" for sh using prefix_routeKey[of sh] by metis
    then have "route_map (ev_effect e m) = route_map m"
      by (auto simp: ev_effect_def route_map_def fun_eq_iff split: EventType.split)
    with Cons.IH[of r "ev_effect e m"] Cons.prems False show ?thesis by simp
  qed
qed simp

lemma Load_MemStore:
  assumes "distinct (map fst (kv m))" "\<forall>k \<in> dom (map_of (kv m)). canonical k"
  shows "map_of (Load List_prefix m) = route_map (map_of (kv m))"
proof -
  let ?kvs = "List_prefix m routePrefix"
  have kvs: "distinct (map fst ?kvs)" "map_of ?kvs = (\<lambda>k. if prefix routePrefix k then map_of (kv m) k else None)"
    using assms(1) map_of_filter_keys[of "prefix routePrefix" "kv m"]
    by (simp_all add: List_prefix_def HasPrefix_def case_prod_beta' distinct_map_filter)
  have "\<exists>sh. k = routeKey sh" if "k \<in> fst ` set ?kvs" for k
  proof -
    have "map_of ?kvs k \<noteq> None" using that by (simp add: map_of_eq_None_iff)
    then show ?thesis using kvs(2) assms(2) canonicalE by (auto split: if_splits)
  qed
  then have "map_of (Load List_prefix m) shard =
      (case route_map (map_of ?kvs) shard of None \<Rightarrow> map_of NewAssignment shard | Some rs \<Rightarrow> Some rs)" for shard
    using load_loop_map[OF kvs(1)] unfolding Load_def by blast
  then show ?thesis by (auto simp: NewAssignment_def route_map_def kvs(2) split: option.splits)
qed

datatype store_op = SWrite store_write | SWatch string | SCancel nat

fun store_step :: "store_op \<Rightarrow> MemStore \<Rightarrow> MemStore" where
  "store_step (SWrite w) m = write_step w m"
| "store_step (SWatch p) m = snd (Watch p m)"
| "store_step (SCancel ch) m = Watch_cancel ch m"

fun op_keys :: "store_op \<Rightarrow> string set" where
  "op_keys (SWrite w) = write_keys w"
| "op_keys _ = {}"

definition watch_ok :: "MemStore \<Rightarrow> bool" where
  "watch_ok m \<longleftrightarrow> distinct (map fst (kv m)) \<and> (\<forall>k \<in> dom (map_of (kv m)). canonical k) \<and>
     (\<forall>w \<in> set (watchers m). w_ch w < length (channels m))"

lemma length_fold_fan: "length (fold (\<lambda>e. fan_loop e ws) es cs) = length cs"
  by (induction es arbitrary: cs) (simp_all add: fan_loop_other(2))

lemma follows_watch_ok:
  assumes "follows K es m m'" "\<forall>k \<in> K. canonical k" "watch_ok m"
  shows "watch_ok m'" "\<forall>e \<in> set es. canonical (ev_Key e)"
proof -
  note f = followsD[OF assms(1)]
  have m: "distinct (map fst (kv m))" "\<And>k. k \<in> dom (map_of (kv m)) \<Longrightarrow> canonical k"
    "\<forall>w \<in> set (watchers m). w_ch w < length (channels m)" using assms(3) unfolding watch_ok_def by blast+
  have c: "canonical k" if "k \<in> K \<union> dom (map_of (kv m))" for k using that m(2) assms(2) by blast
  show "watch_ok m'" unfolding watch_ok_def
  proof (intro conjI)
    show "\<forall>k \<in> dom (map_of (kv m')). canonical k" using subsetD[OF f(6)] c by metis
    show "\<forall>w \<in> set (watchers m'). w_ch w < length (channels m')" unfolding f(2,3) length_fold_fan using m(3) .
  qed (rule f(4)[OF m(1)])
  show "\<forall>e \<in> set es. canonical (ev_Key e)" using subsetD[OF f(5)] c by (metis imageI)
qed

lemma set_dropWatcher: "set (dropWatcher ch ws) \<subseteq> set ws"
  by (induction ws) auto

lemma store_step_watch_ok:
  assumes "watch_ok m" "\<forall>k \<in> op_keys o1. canonical k"
  shows "watch_ok (store_step o1 m)"
proof (cases o1)
  case (SWrite w)
  obtain es where "follows (write_keys w) es m (write_step w m)" using write_step_follows by blast
  from follows_watch_ok(1)[OF this] show ?thesis using assms SWrite by simp
next
  case (SWatch p)
  then show ?thesis using assms(1) by (auto simp: watch_ok_def Watch_def Let_def less_Suc_eq)
next
  case (SCancel ch)
  then show ?thesis using assms(1) set_dropWatcher[of ch "watchers m"] by (auto simp: watch_ok_def Watch_cancel_def)
qed

lemma fold_store_step_watch_ok:
  "watch_ok m \<Longrightarrow> \<forall>o1 \<in> set ops. \<forall>k \<in> op_keys o1. canonical k \<Longrightarrow> watch_ok (fold store_step ops m)"
  by (induction ops arbitrary: m) (simp_all add: store_step_watch_ok)

subsection \<open>Properties\<close>

text \<open>C13: A router that is seeded with \<open>Load\<close> and follows the watch channel opened at the same moment holds
  the table of the store. Whatever writes, deletions and lease expiries happen afterwards (and
  whatever other watchers exist), applying the delivered events gives for every shard exactly what a
  fresh \<open>Load\<close> would read, as long as the channel's buffer never filled up and the keys under the
  route prefix are shard keys.\<close>

theorem router_tracks_store:
  assumes "\<forall>o1 \<in> set ops. \<forall>k \<in> op_keys o1. canonical k" "\<forall>w \<in> set ws. \<forall>k \<in> write_keys w. canonical k"
    and "m0 = fold store_step ops NewMemStore" "Watch routePrefix m0 = (ch, m1)" "m2 = fold write_step ws m1"
    and "length (ch_buf (channels m2 ! ch)) < chan_cap"
  shows "Router_Lookup (Router_Watch (ch_buf (channels m2 ! ch)) (NewRouter (Load List_prefix m0))) shard
    = map_of (Load List_prefix m2) shard"
proof -
  have "watch_ok NewMemStore" by (simp add: watch_ok_def NewMemStore_def)
  then have m0: "watch_ok m0" using fold_store_step_watch_ok assms(1,3) by blast
  have m1: "m1 = snd (Watch routePrefix m0)" and ch: "ch = length (channels m0)" using assms(4) by (auto simp: Watch_def Let_def)
  have ok1: "watch_ok m1" using store_step_watch_ok[OF m0, of "SWatch routePrefix"] by (simp add: m1)
  obtain es where es: "follows (\<Union>w \<in> set ws. write_keys w) es m1 m2" using writes_follow assms(5) by blast
  note f = followsD[OF es]
  have can: "\<forall>k \<in> (\<Union>w \<in> set ws. write_keys w). canonical k" using assms(2) by blast
  note w = follows_watch_ok[OF es can ok1]
  have wch: "\<forall>w \<in> set (watchers m0). w_ch w < length (channels m1) - 1"
    using m0 by (simp add: watch_ok_def m1 Watch_def Let_def)
  have len: "length (channels m1) - 1 = ch" "channels m1 \<noteq> []" "watchers m1 = watchers m0 @ [\<lparr>w_prefix = routePrefix, w_ch = ch\<rparr>]"
    "ch_buf (channels m1 ! ch) = []" "kv m1 = kv m0"
    by (simp_all add: m1 ch Watch_def Let_def)
  have "channels m2 ! ch = fold (deliver routePrefix) es (channels m1 ! ch)"
    using fold_fan_last[OF wch len(2), of routePrefix es] unfolding f(3) len(1,3) .
  then have buf: "ch_buf (channels m2 ! ch) = filter (\<lambda>e. prefix routePrefix (ev_Key e)) es"
    using deliver_all[of routePrefix es "channels m1 ! ch"] assms(6) len(4) by simp
  have "map_of (r_current (NewRouter (Load List_prefix m0))) = route_map (map_of (kv m1))"
    using m0 Load_MemStore[of m0] by (simp add: NewRouter_def watch_ok_def len(5))
  from Router_Watch_route_map[OF w(2) this] have
    "map_of (r_current (Router_Watch (ch_buf (channels m2 ! ch)) (NewRouter (Load List_prefix m0)))) = route_map (map_of (kv m2))"
    unfolding buf f(1) .
  then show ?thesis using w(1) Load_MemStore[of m2] unfolding Router_Lookup_def watch_ok_def by metis
qed

lemma canonical_other: "\<not> prefix routePrefix k \<Longrightarrow> canonical k"
  by (simp add: canonical_def)

theorem router_tracks_store_witness:
  "Router_Lookup (Router_Watch [\<lparr>ev_Type = EventPut, ev_Key = routeKey 7, ev_Value = ''a''\<rparr>] (NewRouter [])) 7
    = Some \<lparr>rs_Shard = 7, rs_Nodes = [''a'']\<rparr>"
proof -
  let ?m1 = "snd (Watch routePrefix NewMemStore)"
  let ?m2 = "fold write_step [WPut (routeKey 7) ''a'' 0] ?m1"
  have ch: "ch_buf (channels ?m2 ! 0) = [\<lparr>ev_Type = EventPut, ev_Key = routeKey 7, ev_Value = ''a''\<rparr>]"
    by (simp add: Watch_def NewMemStore_def Put_def fan_def HasPrefix_def try_send_def chan_cap_def Let_def)
  have l0: "Load List_prefix NewMemStore = []" by (simp add: Load_def List_prefix_def NewMemStore_def NewAssignment_def)
  have l2: "map_of (Load List_prefix ?m2) 7 = Some \<lparr>rs_Shard = 7, rs_Nodes = [''a'']\<rparr>"
    by (simp add: Load_def List_prefix_def NewMemStore_def NewAssignment_def Watch_def Put_def Let_def HasPrefix_def
        decodeNodes_def newline_def)
  show ?thesis
    using router_tracks_store[of "[]" "[WPut (routeKey 7) ''a'' 0]" NewMemStore 0 ?m1 ?m2 7] ch l0 l2
    by (simp add: Watch_def NewMemStore_def chan_cap_def)
qed

end
