(* ===== verification/Placement.thy ===== *)
theory Placement
  imports Routing "HOL-Library.Product_Lexorder"
begin

text \<open>
  \<open>control/rendezvous.go\<close> and \<open>control/placement.go\<close>: the replicas of a shard are the candidates of
  highest weight (FNV-1a of the node, mixed with the shard by the splitmix64 finalizer), and the
  placement controller publishes the shards whose replica set changed. The comparison \<open>Place\<close> sorts
  by is total on nodes (weight descending, node ascending), so every sorting algorithm gives the
  list that \<open>sort_key\<close> gives.
\<close>

subsection \<open>Rendezvous hashing\<close>

text \<open>\<open>hash/fnv\<close>: 64-bit FNV-1a.\<close>

definition fnv1a :: "string \<Rightarrow> u64" where
  "fnv1a s = foldl (\<lambda>h c. (h XOR of_nat (of_char c)) * 1099511628211) 14695981039346656037 s"

definition weight :: "ShardID \<Rightarrow> NodeID \<Rightarrow> u64" where
  "weight shard node =
     (let x = fnv1a node XOR (ucast shard * 0x9e3779b97f4a7c15);
          x = x XOR drop_bit 30 x;
          x = x * 0xbf58476d1ce4e5b9;
          x = x XOR drop_bit 27 x;
          x = x * 0x94d049bb133111eb;
          x = x XOR drop_bit 31 x
      in x)"

definition weighted_key :: "NodeID \<times> u64 \<Rightarrow> int \<times> NodeID" where
  "weighted_key p = (- uint (snd p), fst p)"

definition Place :: "ShardID \<Rightarrow> NodeID list \<Rightarrow> int \<Rightarrow> NodeID list" where
  "Place shard candidates replicas =
     (if candidates = [] \<or> replicas \<le> 0 then []
      else let ws = sort_key weighted_key (map (\<lambda>n. (n, weight shard n)) candidates);
               n = min (nat replicas) (length ws)
           in map fst (take n ws))"

subsection \<open>The controller\<close>

record PlacementController =
  pc_Shards :: int
  pc_Replicas :: int

definition Desired :: "PlacementController \<Rightarrow> NodeID list \<Rightarrow> Assignment" where
  "Desired c members =
     fold (\<lambda>s a. AList.update (of_nat s) \<lparr>rs_Shard = of_nat s, rs_Nodes = Place (of_nat s) members (pc_Replicas c)\<rparr> a)
       [0..<nat (pc_Shards c)] NewAssignment"

text \<open>A read of a missing shard is the zero replica set, whose node list is empty.\<close>

definition nodes_of :: "Assignment \<Rightarrow> ShardID \<Rightarrow> NodeID list" where
  "nodes_of a shard = (case map_of a shard of Some rs \<Rightarrow> rs_Nodes rs | None \<Rightarrow> [])"

fun diff_loop :: "Assignment \<Rightarrow> Assignment \<Rightarrow> Assignment \<Rightarrow> Assignment" where
  "diff_loop current [] d = d"
| "diff_loop current ((shard, rs) # des) d =
     diff_loop current des (if nodes_of current shard \<noteq> rs_Nodes rs then AList.update shard rs d else d)"

definition Reconcile ::
  "(Assignment \<Rightarrow> Assignment) \<Rightarrow> (string \<Rightarrow> string \<Rightarrow> LeaseID \<Rightarrow> 's \<Rightarrow> 's) \<Rightarrow>
   ('s \<Rightarrow> string \<Rightarrow> (string \<times> string) list) \<Rightarrow> PlacementController \<Rightarrow> 's \<Rightarrow> nat \<times> 's" where
  "Reconcile ord put list_keys c s =
     (let members = Members list_keys s;
          current = Load list_keys s;
          desired = Desired c members;
          d = diff_loop current (ord desired) NewAssignment
      in if d = [] then (0, s) else (length d, Publish ord put d s))"

text \<open>\<open>Run\<close>: reconcile, then once per membership event; between two of them the rest of the cluster
  changes the store.\<close>

fun Run_loop ::
  "(Assignment \<Rightarrow> Assignment) \<Rightarrow> (string \<Rightarrow> string \<Rightarrow> LeaseID \<Rightarrow> 's \<Rightarrow> 's) \<Rightarrow>
   ('s \<Rightarrow> string \<Rightarrow> (string \<times> string) list) \<Rightarrow> PlacementController \<Rightarrow> ('s \<Rightarrow> 's) list \<Rightarrow> 's \<Rightarrow> 's" where
  "Run_loop ord put list_keys c [] s = snd (Reconcile ord put list_keys c s)"
| "Run_loop ord put list_keys c (env # envs) s =
     Run_loop ord put list_keys c envs (env (snd (Reconcile ord put list_keys c s)))"

subsection \<open>Placement by rank\<close>

abbreviation rank_of :: "ShardID \<Rightarrow> NodeID \<Rightarrow> int \<times> NodeID" where
  "rank_of shard n \<equiv> (- uint (weight shard n), n)"

lemma sort_key_map: "sort_key f (map g xs) = map g (sort_key (f \<circ> g) xs)"
proof -
  have "insort_key f (g x) (map g ys) = map g (insort_key (f \<circ> g) x ys)" for x ys by (induction ys) auto
  then show ?thesis by (induction xs) auto
qed

lemma Place_rank: "Place shard cs r = take (nat r) (sort_key (rank_of shard) cs)"
proof -
  have "sort_key weighted_key (map (\<lambda>n. (n, weight shard n)) cs) = map (\<lambda>n. (n, weight shard n)) (sort_key (rank_of shard) cs)"
    by (simp add: sort_key_map comp_def weighted_key_def)
  then show ?thesis by (auto simp: Place_def Let_def take_map min_def comp_def)
qed

lemma sort_rank_remove:
  assumes "distinct cs"
  shows "sort_key (rank_of shard) (remove1 n cs) = remove1 n (sort_key (rank_of shard) cs)"
  using assms by (simp add: distinct_remove1_removeAll removeAll_filter_not_eq filter_sort)

lemma take_remove1:
  assumes "n \<in> set (take r xs)"
  shows "\<exists>extra. length extra \<le> 1 \<and> take r (remove1 n xs) = remove1 n (take r xs) @ extra"
  using assms
proof (induction xs arbitrary: r)
  case (Cons x xs)
  then obtain k where r: "r = Suc k" by (cases r) auto
  show ?case
  proof (cases "x = n")
    case True
    have "take (Suc k) xs = take k xs @ take 1 (drop k xs)" by (metis Suc_eq_plus1 take_add)
    then show ?thesis using True by (auto simp: r intro!: exI[of _ "take 1 (drop k xs)"])
  next
    case False
    then show ?thesis using Cons by (auto simp: r)
  qed
qed simp

lemma take_remove1_notin: "n \<notin> set (take r xs) \<Longrightarrow> take r (remove1 n xs) = take r xs"
proof (induction xs arbitrary: r)
  case (Cons x xs)
  then show ?case by (cases r) auto
qed simp

subsection \<open>Reconciliation\<close>

lemma diff_loop_map:
  assumes "distinct (map fst des)" "distinct (map fst d)"
  shows "distinct (map fst (diff_loop current des d)) \<and>
    map_of (diff_loop current des d) shard =
       (case map_of des shard of
          Some rs \<Rightarrow> if nodes_of current shard \<noteq> rs_Nodes rs then Some rs else map_of d shard
        | None \<Rightarrow> map_of d shard)"
  using assms
proof (induction current des d rule: diff_loop.induct)
  case (2 current sh rs des d)
  have "map_of des sh = None" using 2(2) by (simp add: map_of_eq_None_iff)
  moreover have "distinct (map fst (if nodes_of current sh \<noteq> rs_Nodes rs then AList.update sh rs d else d))"
    using 2(3) by (simp add: distinct_update)
  ultimately show ?case using 2(1) 2(2) by (auto simp: update_conv split: option.splits)
qed simp

lemma Desired_map:
  assumes "pc_Shards c \<le> 2 ^ 32"
  shows "distinct (map fst (Desired c ms))"
    "map_of (Desired c ms) shard =
      (if int (unat shard) < pc_Shards c then Some \<lparr>rs_Shard = shard, rs_Nodes = Place shard ms (pc_Replicas c)\<rparr> else None)"
proof -
  let ?f = "\<lambda>s a. AList.update (of_nat s :: ShardID) \<lparr>rs_Shard = of_nat s, rs_Nodes = Place (of_nat s) ms (pc_Replicas c)\<rparr> a"
  have "k \<le> 2 ^ 32 \<Longrightarrow> distinct (map fst (fold ?f [0..<k] [])) \<and>
      map_of (fold ?f [0..<k] []) shard =
        (if unat shard < k then Some \<lparr>rs_Shard = shard, rs_Nodes = Place shard ms (pc_Replicas c)\<rparr> else None)" for k
  proof (induction k)
    case (Suc k)
    then have "unat (of_nat k :: ShardID) = k" by (simp add: unat_of_nat)
    then have "of_nat k = shard \<longleftrightarrow> unat shard = k" by auto
    then show ?case using Suc by (auto simp: distinct_update update_conv less_Suc_eq)
  qed simp
  from this[of "nat (pc_Shards c)"] assms show "distinct (map fst (Desired c ms))"
    "map_of (Desired c ms) shard =
      (if int (unat shard) < pc_Shards c then Some \<lparr>rs_Shard = shard, rs_Nodes = Place shard ms (pc_Replicas c)\<rparr> else None)"
    by (auto simp: Desired_def NewAssignment_def zless_nat_eq_int_zless)
qed

lemma Place_subset: "set (Place shard cs r) \<subseteq> set cs"
  using set_take_subset[of "nat r" "sort_key (rank_of shard) cs"] by (simp add: Place_rank)

context coord_store
begin

lemma Reconcile_ok:
  assumes "invar s" "routes_ok s" "\<forall>n \<in> set (Members list_keys s). node_ok n" "pc_Shards c \<le> 2 ^ 32"
    "\<And>xs. mset (ord xs) = mset xs"
  defines "s' \<equiv> snd (Reconcile ord put list_keys c s)"
  shows "invar s' \<and> routes_ok s' \<and> Members list_keys s' = Members list_keys s \<and>
    (\<forall>shard. int (unat shard) < pc_Shards c \<longrightarrow>
       nodes_of (Load list_keys s') shard = Place shard (Members list_keys s) (pc_Replicas c)) \<and>
    (\<forall>shard. \<not> int (unat shard) < pc_Shards c \<longrightarrow> map_of (Load list_keys s') shard = map_of (Load list_keys s) shard) \<and>
    (\<forall>k. (\<forall>shard. k \<noteq> routeKey shard) \<longrightarrow> get s' k = get s k)"
proof -
  let ?ms = "Members list_keys s" and ?cur = "Load list_keys s"
  define des where "des = Desired c ?ms"
  define d where "d = diff_loop ?cur (ord des) NewAssignment"
  have des: "distinct (map fst des)" "map_of des shard =
      (if int (unat shard) < pc_Shards c then Some \<lparr>rs_Shard = shard, rs_Nodes = Place shard ?ms (pc_Replicas c)\<rparr> else None)" for shard
    unfolding des_def using Desired_map[OF assms(4)] by blast+
  have od: "distinct (map fst (ord des))" "map_of (ord des) = map_of des"
    using perm_map_of[of des "ord des"] des(1) assms(5) by simp_all
  have d: "distinct (map fst d)" "map_of d shard =
      (if int (unat shard) < pc_Shards c \<and> nodes_of ?cur shard \<noteq> Place shard ?ms (pc_Replicas c)
       then Some \<lparr>rs_Shard = shard, rs_Nodes = Place shard ?ms (pc_Replicas c)\<rparr> else None)" for shard
    unfolding d_def using diff_loop_map[OF od(1), of NewAssignment ?cur] od(2) des(2) by (auto simp: NewAssignment_def)
  have s': "s' = Publish ord put d s"
  proof (cases "d = []")
    case True
    then have "ord d = []" using assms(5)[of d] by simp
    then show ?thesis using True by (simp add: s'_def Reconcile_def Publish_def Let_def flip: des_def d_def)
  qed (simp add: s'_def Reconcile_def Let_def flip: des_def d_def)
  note pub = Publish_spec[OF assms(1) d(1) assms(5), folded s']
  have nk: "get s' (nodeKey n) = get s (nodeKey n)" for n using pub by simp
  have inv: "invar s'" using pub by blast
  have mem: "Members list_keys s' = ?ms"
    using Members_set[OF inv] Members_set[OF assms(1)] nk by (intro strict_sorted_equal) simp_all
  have ro: "routes_ok s'" unfolding routes_ok_def
  proof (intro allI impI)
    fix k assume "get s' k \<noteq> None"
    then show "canonical k" using pub assms(2) unfolding routes_ok_def by (cases "\<exists>sh. k = routeKey sh") auto
  qed
  have dec: "decodeNodes (encodeNodes (Place shard ?ms (pc_Replicas c))) = Place shard ?ms (pc_Replicas c)" for shard
    using Place_subset[of shard ?ms "pc_Replicas c"] assms(3) by (intro decode_encodeNodes) auto
  have ld: "map_of (Load list_keys s') shard = (case map_of d shard of
      Some rs \<Rightarrow> Some \<lparr>rs_Shard = shard, rs_Nodes = decodeNodes (encodeNodes (rs_Nodes rs))\<rparr> | None \<Rightarrow> map_of ?cur shard)" for shard
    unfolding Load_map[OF inv ro] Load_map[OF assms(1,2)] route_map_def using pub by (auto split: option.splits)
  have "nodes_of (Load list_keys s') shard = Place shard ?ms (pc_Replicas c)" if "int (unat shard) < pc_Shards c" for shard
    using that unfolding nodes_of_def[of "Load list_keys s'"] ld d(2) by (auto simp: dec nodes_of_def)
  moreover have "map_of (Load list_keys s') shard = map_of ?cur shard" if "\<not> int (unat shard) < pc_Shards c" for shard
    using that unfolding ld d(2) by simp
  moreover have "\<forall>k. (\<forall>shard. k \<noteq> routeKey shard) \<longrightarrow> get s' k = get s k" using pub by blast
  ultimately show ?thesis using inv ro mem by blast
qed

text \<open>Nothing to do is reported as such.\<close>

lemma Reconcile_idle:
  assumes "pc_Shards c \<le> 2 ^ 32" "\<And>xs. mset (ord xs) = mset xs"
    "\<forall>shard. int (unat shard) < pc_Shards c \<longrightarrow>
       nodes_of (Load list_keys s) shard = Place shard (Members list_keys s) (pc_Replicas c)"
  shows "Reconcile ord put list_keys c s = (0, s)"
proof -
  let ?des = "Desired c (Members list_keys s)"
  have od: "distinct (map fst (ord ?des))" "map_of (ord ?des) = map_of ?des"
    using perm_map_of[of ?des "ord ?des"] Desired_map(1)[OF assms(1)] assms(2) by simp_all
  have "map_of (diff_loop (Load list_keys s) (ord ?des) NewAssignment) shard = None" for shard
    using diff_loop_map[OF od(1), of NewAssignment] od(2) Desired_map(2)[OF assms(1)] assms(3)
    by (auto simp: NewAssignment_def)
  then have "diff_loop (Load list_keys s) (ord ?des) NewAssignment = []"
    by (metis map_of_eq_None_iff equals0I image_is_empty set_empty)
  then show ?thesis by (simp add: Reconcile_def)
qed

end

subsection \<open>Properties\<close>

text \<open>C14: Placement is deterministic and moves as little as possible. \<open>Place\<close> returns distinct candidates,
  as many as asked for or all of them, and does not depend on the order of the candidates. When a
  node leaves, a shard it did not hold keeps its replica list unchanged, and a shard it held keeps
  the surviving replicas in order and gains at most one node at the end.\<close>

theorem Place_minimal_movement:
  assumes "distinct cs"
  shows "distinct (Place shard cs r) \<and> set (Place shard cs r) \<subseteq> set cs \<and>
    length (Place shard cs r) = min (nat r) (length cs) \<and>
    (mset cs' = mset cs \<longrightarrow> Place shard cs' r = Place shard cs r) \<and>
    (n \<notin> set (Place shard cs r) \<longrightarrow> Place shard (remove1 n cs) r = Place shard cs r) \<and>
    (n \<in> set (Place shard cs r) \<longrightarrow>
      (\<exists>extra. length extra \<le> 1 \<and> Place shard (remove1 n cs) r = remove1 n (Place shard cs r) @ extra))"
proof (intro conjI impI)
  show "distinct (Place shard cs r)" using assms by (simp add: Place_rank)
  show "set (Place shard cs r) \<subseteq> set cs" by (rule Place_subset)
  show "length (Place shard cs r) = min (nat r) (length cs)" by (simp add: Place_rank)
  assume "mset cs' = mset cs"
  then have "set cs' = set cs" "distinct cs'" using assms mset_eq_setD mset_eq_imp_distinct_iff by blast+
  then have "sort_key (rank_of shard) cs' = sort_key (rank_of shard) cs"
    using assms by (intro map_sorted_distinct_set_unique[of "rank_of shard"]) (simp_all add: inj_on_def distinct_map)
  then show "Place shard cs' r = Place shard cs r" by (simp add: Place_rank)
next
  assume "n \<notin> set (Place shard cs r)"
  then show "Place shard (remove1 n cs) r = Place shard cs r"
    unfolding Place_rank sort_rank_remove[OF assms] by (rule take_remove1_notin)
next
  assume "n \<in> set (Place shard cs r)"
  then show "\<exists>extra. length extra \<le> 1 \<and> Place shard (remove1 n cs) r = remove1 n (Place shard cs r) @ extra"
    unfolding Place_rank sort_rank_remove[OF assms] by (rule take_remove1)
qed

theorem Place_minimal_movement_witness:
  "length (Place 3 [''a'', ''b'', ''c''] 2) = 2 \<and> set (Place 3 [''a'', ''b'', ''c''] 2) \<subseteq> {''a'', ''b'', ''c''}"
proof -
  have "distinct [''a'', ''b'', ''c'']" by simp
  from Place_minimal_movement[OF this, of 3 2] have "length (Place 3 [''a'', ''b'', ''c''] 2) = min (nat 2) (length [''a'', ''b'', ''c''])"
    "set (Place 3 [''a'', ''b'', ''c''] 2) \<subseteq> set [''a'', ''b'', ''c'']" by blast+
  then show ?thesis by simp
qed

text \<open>C11: Reconciliation converges in one step. From a consistent store whose members' names can be encoded,
  \<open>Reconcile\<close> leaves every shard of the controller on exactly the nodes rendezvous placement gives for the
  live members, touches no other key, and a second \<open>Reconcile\<close> publishes nothing.\<close>

theorem Reconcile_converges:
  assumes "store_ok s" "\<forall>k. Get s k \<noteq> None \<longrightarrow> canonical k" "\<forall>n \<in> set (Members List_prefix s). node_ok n"
    "pc_Shards c \<le> 2 ^ 32" "\<forall>xs. mset (ord xs) = mset xs" "Reconcile ord Put List_prefix c s = (n, s')"
  shows "store_ok s' \<and> Members List_prefix s' = Members List_prefix s \<and>
    (\<forall>shard. int (unat shard) < pc_Shards c \<longrightarrow>
       nodes_of (Load List_prefix s') shard = Place shard (Members List_prefix s) (pc_Replicas c)) \<and>
    (\<forall>k. (\<forall>shard. k \<noteq> routeKey shard) \<longrightarrow> Get s' k = Get s k) \<and>
    Reconcile ord Put List_prefix c s' = (0, s')"
proof -
  have "ms.routes_ok s" using assms(2) by (simp add: ms.routes_ok_def)
  from ms.Reconcile_ok[OF assms(1) this assms(3,4), of ord] assms(5,6) have r: "store_ok s'"
    "Members List_prefix s' = Members List_prefix s"
    "\<forall>shard. int (unat shard) < pc_Shards c \<longrightarrow>
       nodes_of (Load List_prefix s') shard = Place shard (Members List_prefix s) (pc_Replicas c)"
    "\<forall>k. (\<forall>shard. k \<noteq> routeKey shard) \<longrightarrow> Get s' k = Get s k" by auto
  have "Reconcile ord Put List_prefix c s' = (0, s')"
    using r(2,3) assms(5) by (intro ms.Reconcile_idle[OF assms(4)]) auto
  with r show ?thesis by blast
qed

theorem Reconcile_converges_witness:
  "\<exists>n s'. Reconcile (\<lambda>a. a) Put List_prefix \<lparr>pc_Shards = 2, pc_Replicas = 1\<rparr> (Register Put ''a'' 0 NewMemStore) = (n, s') \<and>
     nodes_of (Load List_prefix s') 1 = [''a'']"
proof -
  let ?s = "Register Put ''a'' 0 NewMemStore" and ?c = "\<lparr>pc_Shards = 2, pc_Replicas = 1\<rparr>"
  obtain n s' where r: "Reconcile (\<lambda>a. a) Put List_prefix ?c ?s = (n, s')" by fastforce
  have g: "Get ?s k = (if k = nodeKey ''a'' then Some ''a'' else None)" for k
    by (simp add: Register_def Put_def Get_def NewMemStore_def)
  have m: "Members List_prefix ?s = [''a'']"
    by (simp add: Members_def List_prefix_def Register_def Put_def NewMemStore_def nodeKey_def CutPrefix_def HasPrefix_def)
  have ok: "store_ok ?s" using ms.put[of NewMemStore 0 "nodeKey ''a''" "''a''"] by (simp add: Register_def)
  have can: "\<forall>k. Get ?s k \<noteq> None \<longrightarrow> canonical k"
    by (auto simp: g canonical_def nodeKey_def nodePrefix_def routePrefix_def)
  have "\<forall>n \<in> set (Members List_prefix ?s). node_ok n" by (simp add: m node_ok_def newline_def)
  from Reconcile_converges[OF ok can this _ _ r] have
    "\<forall>shard. int (unat shard) < 2 \<longrightarrow> nodes_of (Load List_prefix s') shard = Place shard [''a''] 1" by (simp add: m)
  then have "nodes_of (Load List_prefix s') 1 = [''a'']" by (simp add: Place_rank)
  with r show ?thesis by blast
qed

end
