(* ===== verification/Vectors.thy ===== *)
theory Vectors
  imports Placement GoStrings Complex_Main
begin

text \<open>
  \<open>vector/vector.go\<close> and \<open>vector/embed\<close>: the distance kernels, over the reals, and the reference embedder. A kernel on vectors
  of different length panics: \<open>None\<close>.
\<close>

type_synonym Vector = "real list"

datatype Metric = L2 | InnerProduct | Cosine

record Neighbor =
  nb_ID :: u32
  nb_Dist :: real

definition SameDim :: "Vector \<Rightarrow> Vector \<Rightarrow> bool" where
  "SameDim a b \<longleftrightarrow> length a = length b"

definition l2sq :: "Vector \<Rightarrow> Vector \<Rightarrow> real option" where
  "l2sq a b = (if length a \<noteq> length b then None
     else Some (foldl (\<lambda>s i. let d = a ! i - b ! i in s + d * d) 0 [0..<length a]))"

definition dot :: "Vector \<Rightarrow> Vector \<Rightarrow> real option" where
  "dot a b = (if length a \<noteq> length b then None else Some (foldl (\<lambda>s i. s + a ! i * b ! i) 0 [0..<length a]))"

definition cosine :: "Vector \<Rightarrow> Vector \<Rightarrow> real option" where
  "cosine a b = (if length a \<noteq> length b then None
     else let (d, na, nb) = foldl (\<lambda>(d, na, nb) i. (d + a ! i * b ! i, na + a ! i * a ! i, nb + b ! i * b ! i)) (0, 0, 0) [0..<length a]
          in if na = 0 \<or> nb = 0 then Some 0 else Some (d / (sqrt na * sqrt nb)))"

definition Distance :: "Metric \<Rightarrow> Vector \<Rightarrow> Vector \<Rightarrow> real option" where
  "Distance m a b = (case m of
     InnerProduct \<Rightarrow> map_option uminus (dot a b)
   | Cosine \<Rightarrow> map_option uminus (cosine a b)
   | L2 \<Rightarrow> l2sq a b)"

definition Normalize :: "Vector \<Rightarrow> Vector" where
  "Normalize v =
     (let n = foldl (\<lambda>n x. n + x * x) 0 v
      in if n = 0 then v else let inv = 1 / sqrt n in map (\<lambda>x. x * inv) v)"

definition Clone :: "Vector \<Rightarrow> Vector" where "Clone v = v"

subsection \<open>The reference embedder\<close>

definition is_token_char :: "char \<Rightarrow> bool" where
  "is_token_char c \<longleftrightarrow> (let n = of_char c :: nat in 97 \<le> n \<and> n \<le> 122 \<or> 65 \<le> n \<and> n \<le> 90 \<or> 48 \<le> n \<and> n \<le> 57)"

definition lower :: "string \<Rightarrow> string" where
  "lower s = map (\<lambda>c. let n = of_char c :: nat in if 65 \<le> n \<and> n \<le> 90 then char_of (n + 32) else c) s"

fun tokenize_loop :: "string \<Rightarrow> nat \<Rightarrow> string \<Rightarrow> nat option \<Rightarrow> string list \<Rightarrow> string list" where
  "tokenize_loop text i [] start toks =
     (case start of None \<Rightarrow> toks | Some s \<Rightarrow> toks @ [lower (drop s text)])"
| "tokenize_loop text i (c # cs) start toks =
     (case start of
        None \<Rightarrow> tokenize_loop text (i + 1) cs (if is_token_char c then Some i else None) toks
      | Some s \<Rightarrow> if is_token_char c then tokenize_loop text (i + 1) cs start toks
          else tokenize_loop text (i + 1) cs None (toks @ [lower (take (i - s) (drop s text))]))"

definition tokenize :: "string \<Rightarrow> string list" where
  "tokenize text = tokenize_loop text 0 text None []"

text \<open>\<open>sum % dm\<close> panics for dimension 0.\<close>

definition embed_token :: "nat \<Rightarrow> Vector option \<Rightarrow> string \<Rightarrow> Vector option" where
  "embed_token dm v tok =
     (case v of None \<Rightarrow> None
      | Some v \<Rightarrow> if dm = 0 then None
         else let sum = fnv1a tok; d = unat sum mod dm
              in Some (v[d := (if bit sum 63 then v ! d + 1 else v ! d - 1)]))"

definition embedOne :: "nat \<Rightarrow> string \<Rightarrow> Vector option" where
  "embedOne dm text = map_option Normalize (foldl (embed_token dm) (Some (replicate dm 0)) (tokenize text))"

fun Embed :: "nat \<Rightarrow> string list \<Rightarrow> Vector list option" where
  "Embed dm [] = Some []"
| "Embed dm (t # ts) =
     (case embedOne dm t of None \<Rightarrow> None
      | Some v \<Rightarrow> (case Embed dm ts of None \<Rightarrow> None | Some vs \<Rightarrow> Some (v # vs)))"

text \<open>\<open>embed.Cosine\<close> is NaN for different lengths, here \<open>None\<close>.\<close>

definition embed_Cosine :: "Vector \<Rightarrow> Vector \<Rightarrow> real option" where
  "embed_Cosine a b = (if length a \<noteq> length b then None else Some (foldl (\<lambda>d i. d + a ! i * b ! i) 0 [0..<length a]))"

subsection \<open>Sums\<close>

definition inner :: "Vector \<Rightarrow> Vector \<Rightarrow> real" where
  "inner a b = (\<Sum>i < length a. a ! i * b ! i)"

definition sqdist :: "Vector \<Rightarrow> Vector \<Rightarrow> real" where
  "sqdist a b = (\<Sum>i < length a. (a ! i - b ! i)\<^sup>2)"

lemma l2sq_eq: "length a = length b \<Longrightarrow> l2sq a b = Some (sqdist a b)"
  by (simp add: l2sq_def sqdist_def Let_def foldl_sum power2_eq_square)

lemma dot_eq: "length a = length b \<Longrightarrow> dot a b = Some (inner a b)"
  by (simp add: dot_def inner_def foldl_sum)

lemma cosine_loop:
  "foldl (\<lambda>(d, na, nb) i. (d + a ! i * b ! i, na + a ! i * a ! i, nb + b ! i * b ! i)) (0, 0, 0) [0..<n] =
     ((\<Sum>i<n. a ! i * b ! i), (\<Sum>i<n. a ! i * a ! i), (\<Sum>i<n. b ! i * b ! i :: real))"
  by (induction n) simp_all

lemma cosine_eq:
  "length a = length b \<Longrightarrow> cosine a b = Some (if inner a a = 0 \<or> inner b b = 0 then 0 else inner a b / (sqrt (inner a a) * sqrt (inner b b)))"
  by (simp add: cosine_def cosine_loop inner_def)

lemma inner_self: "inner a a = (\<Sum>i < length a. (a ! i)\<^sup>2)"
  by (simp add: inner_def power2_eq_square)

lemma inner_nonneg: "0 \<le> inner a a"
  by (simp add: inner_self sum_nonneg)

lemma norm_loop: "foldl (\<lambda>n x. n + x * x) c v = c + inner v v" for c :: real
proof (induction v arbitrary: c)
  case (Cons x v)
  then show ?case by (simp add: inner_def sum.lessThan_Suc_shift del: sum.lessThan_Suc)
qed (simp add: inner_def)

lemma Normalize_eq: "Normalize v = (if inner v v = 0 then v else map (\<lambda>x. x / sqrt (inner v v)) v)"
  by (simp add: Normalize_def norm_loop Let_def)

lemma inner_zero: "inner v v = 0 \<longleftrightarrow> v = replicate (length v) 0"
  by (auto simp: inner_self sum_nonneg_eq_0_iff list_eq_iff_nth_eq)

lemma inner_scale: "inner (map (\<lambda>x. x / c) a) (map (\<lambda>x. x / d) b) = inner a b / (c * d)" if "length a = length b"
  using that by (simp add: inner_def sum_divide_distrib)

lemma Normalize_unit: "length (Normalize v) = length v \<and> (inner (Normalize v) (Normalize v) = (if inner v v = 0 then 0 else 1))"
  using inner_nonneg[of v] by (auto simp: Normalize_eq inner_scale inner_zero simp flip: power2_eq_square)

text \<open>Cosine distance lies in \<open>[-1, 1]\<close>, and on normalized vectors it is the inner-product distance; there, squared Euclidean
  distance orders the same way.\<close>

lemma sqdist_inner: "sqdist a b = inner a a + inner b b - 2 * inner a b" if "length a = length b"
  using that by (simp add: sqdist_def inner_def power2_diff sum.distrib sum_subtractf sum_distrib_left power2_eq_square algebra_simps)

lemma sqdist_nonneg: "0 \<le> sqdist a b"
  by (simp add: sqdist_def sum_nonneg)

lemma inner_unit_le: "\<bar>inner a b\<bar> \<le> 1" if "length a = length b" "inner a a = 1" "inner b b = 1"
proof -
  have "inner (map uminus a) (map uminus a) = 1" "inner (map uminus a) b = - inner a b"
    using that by (simp_all add: inner_def sum_negf)
  then show ?thesis using sqdist_nonneg[of a b] sqdist_nonneg[of "map uminus a" b] that sqdist_inner[of a b] sqdist_inner[of "map uminus a" b]
    by (auto simp: abs_le_iff)
qed

theorem Metrics_agree:
  assumes "length a = length b" "a \<noteq> replicate (length a) 0" "b \<noteq> replicate (length b) 0"
  shows "\<exists>c. Distance Cosine a b = Some c \<and> \<bar>c\<bar> \<le> 1 \<and>
    Distance InnerProduct (Normalize a) (Normalize b) = Some c \<and> Distance Cosine (Normalize a) (Normalize b) = Some c \<and>
    Distance L2 (Normalize a) (Normalize b) = Some (2 + 2 * c)"
proof -
  have n: "inner a a > 0" "inner b b > 0" using assms inner_nonneg[of a] inner_nonneg[of b] by (simp_all add: less_le inner_zero)
  define c where "c = inner a b / (sqrt (inner a a) * sqrt (inner b b))"
  have nn: "inner (Normalize a) (Normalize b) = c" using assms(1) n by (simp add: Normalize_eq inner_scale c_def)
  have len: "length (Normalize a) = length (Normalize b)" and u: "inner (Normalize a) (Normalize a) = 1" "inner (Normalize b) (Normalize b) = 1"
    using Normalize_unit[of a] Normalize_unit[of b] assms(1) n by simp_all
  have "\<bar>c\<bar> \<le> 1" using inner_unit_le[OF len u] by (simp add: nn)
  moreover have "cosine a b = Some c" using assms(1) n by (simp add: cosine_eq c_def)
  ultimately show ?thesis
    using len u nn by (intro exI[of _ "- c"]) (simp add: Distance_def dot_eq cosine_eq l2sq_eq sqdist_inner)
qed

text \<open>The reference embedder gives every text a vector of its dimension, of unit length or zero.\<close>

lemma embed_token_None [simp]: "foldl (embed_token dm) None ts = None"
  by (induction ts) (simp_all add: embed_token_def)

lemma embed_token_Some: "embed_token dm (Some v) t = None \<longleftrightarrow> dm = 0" "embed_token dm (Some v) t = Some w \<Longrightarrow> length w = length v"
  by (auto simp: embed_token_def Let_def split: if_splits)

lemma embed_tokens: "foldl (embed_token dm) (Some v) ts = None \<longleftrightarrow> dm = 0 \<and> ts \<noteq> []"
proof (induction ts arbitrary: v)
  case (Cons t ts)
  then show ?case using embed_token_Some(1)[of dm v t] by (cases "embed_token dm (Some v) t") auto
qed simp

lemma length_embed_tokens: "foldl (embed_token dm) (Some v) ts = Some w \<Longrightarrow> length w = length v"
proof (induction ts arbitrary: v)
  case (Cons t ts)
  then show ?case using embed_token_Some(2)[of dm v t] by (cases "embed_token dm (Some v) t") auto
qed simp

lemma embedOne_unit:
  assumes "0 < dm"
  obtains v where "embedOne dm text = Some v" "length v = dm" "inner v v = 1 \<or> v = replicate dm 0"
proof -
  obtain w where w: "foldl (embed_token dm) (Some (replicate dm 0)) (tokenize text) = Some w"
    using embed_tokens[of dm "replicate dm 0" "tokenize text"] assms by auto
  then have "length w = dm" using length_embed_tokens[OF w] by simp
  then show thesis using that[of "Normalize w"] w Normalize_unit[of w] inner_zero[of "Normalize w"] by (auto simp: embedOne_def split: if_splits)
qed

lemma Embed_unit:
  assumes "0 < dm"
  shows "\<exists>vs. Embed dm texts = Some vs \<and> length vs = length texts \<and> list_all (\<lambda>v. length v = dm \<and> (inner v v = 1 \<or> v = replicate dm 0)) vs"
proof (induction texts)
  case (Cons t ts)
  then obtain vs where "Embed dm ts = Some vs" "length vs = length ts" "list_all (\<lambda>v. length v = dm \<and> (inner v v = 1 \<or> v = replicate dm 0)) vs" by blast
  moreover obtain v where "embedOne dm t = Some v" "length v = dm" "inner v v = 1 \<or> v = replicate dm 0" by (rule embedOne_unit[OF assms])
  ultimately show ?case by simp
qed simp

end
