(* ===== verification/HNSW.thy ===== *)
theory HNSW
  imports DistHeap Vectors "HOL-Library.Monad_Syntax"
begin

text \<open>
  \<open>vector/ann/hnsw.go\<close>: the layered proximity graph. Distances are reals; a panic and a loop that does not end are both \<open>None\<close>, and
  the theorems of \<open>HNSW_Correct\<close> show that neither occurs. The draw of the level generator is an argument of \<open>Add\<close>, and
  \<open>sort.Slice\<close> on candidates the argument \<open>srt\<close>.
\<close>

record HNSW_Params =
  hp_M :: int
  EfConstruction :: int
  EfSearch :: int
  hp_Metric :: Metric

definition withDefaults :: "HNSW_Params \<Rightarrow> HNSW_Params" where
  "withDefaults p =
     (let p = (if hp_M p \<le> 0 then p\<lparr>hp_M := 16\<rparr> else p);
          p = (if EfConstruction p \<le> 0 then p\<lparr>EfConstruction := 200\<rparr> else p)
      in if EfSearch p \<le> 0 then p\<lparr>EfSearch := 50\<rparr> else p)"

record node =
  n_id :: u32
  n_vec :: Vector
  neighbors :: "nat list list"

record HNSW =
  h_params :: HNSW_Params
  mMax0 :: int
  nodes :: "node list"
  h_entry :: int
  h_dim :: int

definition New_HNSW :: "HNSW_Params \<Rightarrow> HNSW" where
  "New_HNSW p = (let p = withDefaults p in \<lparr>h_params = p, mMax0 = 2 * hp_M p, nodes = [], h_entry = - 1, h_dim = - 1\<rparr>)"

definition HNSW_Len :: "HNSW \<Rightarrow> nat" where "HNSW_Len h = length (nodes h)"

text \<open>The level for a draw \<open>r\<close> of the unit interval. For \<open>M = 1\<close> the multiplier \<open>1 / ln M\<close> is infinite and its conversion to an
  integer is up to the implementation.\<close>

definition randomLevel :: "HNSW \<Rightarrow> real \<Rightarrow> nat option" where
  "randomLevel h r =
     (if hp_M (h_params h) = 1 then None
      else let r = (if r \<le> 0 then 2 powr (- 1074) else r); mL = 1 / ln (real_of_int (hp_M (h_params h)))
           in Some (nat \<lfloor>- ln r * mL\<rfloor>))"

definition hdist :: "HNSW \<Rightarrow> Vector \<Rightarrow> Vector \<Rightarrow> real option" where
  "hdist h a b = Distance (hp_Metric (h_params h)) a b"

definition at_node :: "HNSW \<Rightarrow> nat \<Rightarrow> node option" where
  "at_node h i = (if i < length (nodes h) then Some (nodes h ! i) else None)"

definition at_layer :: "HNSW \<Rightarrow> nat \<Rightarrow> nat \<Rightarrow> nat list option" where
  "at_layer h i lc = do {
     n \<leftarrow> at_node h i;
     if lc < length (neighbors n) then Some (neighbors n ! lc) else None }"

definition dist_to :: "HNSW \<Rightarrow> Vector \<Rightarrow> nat \<Rightarrow> real option" where
  "dist_to h q i = do { n \<leftarrow> at_node h i; hdist h q (n_vec n) }"

subsection \<open>Greedy descent\<close>

fun greedy_scan :: "HNSW \<Rightarrow> Vector \<Rightarrow> nat list \<Rightarrow> nat \<Rightarrow> real \<Rightarrow> bool \<Rightarrow> (nat \<times> real \<times> bool) option" where
  "greedy_scan h q [] best bestDist improved = Some (best, bestDist, improved)"
| "greedy_scan h q (nb # nbs) best bestDist improved = do {
     d \<leftarrow> dist_to h q nb;
     if d < bestDist then greedy_scan h q nbs nb d True else greedy_scan h q nbs best bestDist improved }"

partial_function (option) greedy_loop :: "HNSW \<Rightarrow> Vector \<Rightarrow> nat \<Rightarrow> nat \<Rightarrow> real \<Rightarrow> nat option" where
  "greedy_loop h q lc best bestDist = do {
     nbs \<leftarrow> at_layer h best lc;
     (best', bestDist', improved) \<leftarrow> greedy_scan h q nbs best bestDist False;
     if \<not> improved then Some best' else greedy_loop h q lc best' bestDist' }"

definition greedyClosest :: "HNSW \<Rightarrow> Vector \<Rightarrow> nat \<Rightarrow> nat \<Rightarrow> nat option" where
  "greedyClosest h q ep lc = do { d \<leftarrow> dist_to h q ep; greedy_loop h q lc ep d }"

subsection \<open>Layer search\<close>

record search_state =
  visited :: "nat set"
  toVisit :: "candidate list"
  found :: "candidate list"

definition visit_entry :: "HNSW \<Rightarrow> Vector \<Rightarrow> search_state \<Rightarrow> nat \<Rightarrow> search_state option" where
  "visit_entry h q st ep = do {
     d \<leftarrow> dist_to h q ep;
     let c = \<lparr>c_node = ep, c_dist = d\<rparr>;
     Some (st\<lparr>visited := insert ep (visited st), toVisit := heap_push min_lt (toVisit st) c, found := heap_push max_lt (found st) c\<rparr>) }"

definition visit :: "HNSW \<Rightarrow> Vector \<Rightarrow> int \<Rightarrow> search_state \<Rightarrow> nat \<Rightarrow> search_state option" where
  "visit h q ef st e =
     (if e \<in> visited st then Some st
      else do {
        let st = st\<lparr>visited := insert e (visited st)\<rparr>;
        d \<leftarrow> dist_to h q e;
        closer \<leftarrow> (if int (length (found st)) < ef then Some True else do { w \<leftarrow> heap_peek (found st); Some (d < c_dist w) });
        if \<not> closer then Some st
        else do {
          let c = \<lparr>c_node = e, c_dist = d\<rparr>;
          let st = st\<lparr>toVisit := heap_push min_lt (toVisit st) c, found := heap_push max_lt (found st) c\<rparr>;
          if int (length (found st)) > ef
          then do { (x, rest) \<leftarrow> heap_pop max_lt (found st); Some (st\<lparr>found := rest\<rparr>) }
          else Some st } })"

fun visit_all :: "HNSW \<Rightarrow> Vector \<Rightarrow> int \<Rightarrow> search_state \<Rightarrow> nat list \<Rightarrow> search_state option" where
  "visit_all h q ef st [] = Some st"
| "visit_all h q ef st (e # es) = do { st' \<leftarrow> visit h q ef st e; visit_all h q ef st' es }"

text \<open>The early stop: the result set is full and the nearest open candidate is farther than its worst member.\<close>

definition exhausted :: "int \<Rightarrow> search_state \<Rightarrow> candidate \<Rightarrow> bool option" where
  "exhausted ef st c =
     (if int (length (found st)) \<ge> ef then do { w \<leftarrow> heap_peek (found st); Some (c_dist c > c_dist w) } else Some False)"

partial_function (option) search_loop :: "HNSW \<Rightarrow> Vector \<Rightarrow> int \<Rightarrow> nat \<Rightarrow> search_state \<Rightarrow> search_state option" where
  "search_loop h q ef lc st =
     (if toVisit st = [] then Some st
      else do {
        (c, rest) \<leftarrow> heap_pop min_lt (toVisit st);
        let st = st\<lparr>toVisit := rest\<rparr>;
        stop \<leftarrow> exhausted ef st c;
        if stop then Some st
        else do {
          es \<leftarrow> at_layer h (c_node c) lc;
          st' \<leftarrow> visit_all h q ef st es;
          search_loop h q ef lc st' } })"

fun visit_entries :: "HNSW \<Rightarrow> Vector \<Rightarrow> search_state \<Rightarrow> nat list \<Rightarrow> search_state option" where
  "visit_entries h q st [] = Some st"
| "visit_entries h q st (ep # eps) = do { st' \<leftarrow> visit_entry h q st ep; visit_entries h q st' eps }"

definition searchLayer :: "(candidate list \<Rightarrow> candidate list) \<Rightarrow> HNSW \<Rightarrow> Vector \<Rightarrow> nat list \<Rightarrow> int \<Rightarrow> nat \<Rightarrow> candidate list option" where
  "searchLayer srt h q entryPoints ef lc = do {
     st \<leftarrow> visit_entries h q \<lparr>visited = {}, toVisit = [], found = []\<rparr> entryPoints;
     st \<leftarrow> search_loop h q ef lc st;
     Some (srt (found st)) }"

subsection \<open>Edges\<close>

fun keep_loop :: "HNSW \<Rightarrow> candidate \<Rightarrow> nat list \<Rightarrow> bool option" where
  "keep_loop h c [] = Some True"
| "keep_loop h c (r # rs) = do {
     n \<leftarrow> at_node h (c_node c);
     d \<leftarrow> dist_to h (n_vec n) r;
     if d < c_dist c then Some False else keep_loop h c rs }"

fun select_loop :: "HNSW \<Rightarrow> int \<Rightarrow> nat list \<Rightarrow> candidate list \<Rightarrow> nat list option" where
  "select_loop h m result [] = Some result"
| "select_loop h m result (c # cs) =
     (if int (length result) \<ge> m then Some result
      else do {
        keep \<leftarrow> keep_loop h c result;
        select_loop h m (if keep then result @ [c_node c] else result) cs })"

definition selectNeighbors :: "HNSW \<Rightarrow> candidate list \<Rightarrow> int \<Rightarrow> nat list option" where
  "selectNeighbors h cands m = select_loop h m [] cands"

definition set_layer :: "HNSW \<Rightarrow> nat \<Rightarrow> nat \<Rightarrow> nat list \<Rightarrow> HNSW option" where
  "set_layer h i lc es = do {
     n \<leftarrow> at_node h i;
     if lc < length (neighbors n) then Some (h\<lparr>nodes := (nodes h)[i := n\<lparr>neighbors := (neighbors n)[lc := es]\<rparr>]\<rparr>) else None }"

fun candidates_of :: "HNSW \<Rightarrow> Vector \<Rightarrow> nat list \<Rightarrow> candidate list option" where
  "candidates_of h v [] = Some []"
| "candidates_of h v (nb # nbs) = do {
     d \<leftarrow> dist_to h v nb;
     cs \<leftarrow> candidates_of h v nbs;
     Some (\<lparr>c_node = nb, c_dist = d\<rparr> # cs) }"

definition pruneNode :: "(candidate list \<Rightarrow> candidate list) \<Rightarrow> HNSW \<Rightarrow> nat \<Rightarrow> nat \<Rightarrow> int \<Rightarrow> HNSW option" where
  "pruneNode srt h idx lc mMax = do {
     n \<leftarrow> at_node h idx;
     es \<leftarrow> at_layer h idx lc;
     cands \<leftarrow> candidates_of h (n_vec n) es;
     sel \<leftarrow> selectNeighbors h (srt cands) mMax;
     set_layer h idx lc sel }"

definition connect_one :: "(candidate list \<Rightarrow> candidate list) \<Rightarrow> nat \<Rightarrow> nat \<Rightarrow> int \<Rightarrow> HNSW \<Rightarrow> nat \<Rightarrow> HNSW option" where
  "connect_one srt cur lc mMax h m = do {
     es \<leftarrow> at_layer h m lc;
     h' \<leftarrow> set_layer h m lc (es @ [cur]);
     if int (length (es @ [cur])) > mMax then pruneNode srt h' m lc mMax else Some h' }"

fun connect :: "(candidate list \<Rightarrow> candidate list) \<Rightarrow> nat \<Rightarrow> nat \<Rightarrow> int \<Rightarrow> HNSW \<Rightarrow> nat list \<Rightarrow> HNSW option" where
  "connect srt cur lc mMax h [] = Some h"
| "connect srt cur lc mMax h (m # ms) = do { h' \<leftarrow> connect_one srt cur lc mMax h m; connect srt cur lc mMax h' ms }"

subsection \<open>Add\<close>

fun descend :: "HNSW \<Rightarrow> Vector \<Rightarrow> nat \<Rightarrow> nat list \<Rightarrow> nat option" where
  "descend h q ep [] = Some ep"
| "descend h q ep (lc # lcs) = do { ep' \<leftarrow> greedyClosest h q ep lc; descend h q ep' lcs }"

definition add_layer :: "(candidate list \<Rightarrow> candidate list) \<Rightarrow> Vector \<Rightarrow> nat \<Rightarrow> HNSW \<Rightarrow> nat \<Rightarrow> nat \<Rightarrow> (HNSW \<times> nat) option" where
  "add_layer srt v cur h ep lc = do {
     cands \<leftarrow> searchLayer srt h v [ep] (EfConstruction (h_params h)) lc;
     let mMax = (if lc = 0 then mMax0 h else hp_M (h_params h));
     selected \<leftarrow> selectNeighbors h cands (hp_M (h_params h));
     h \<leftarrow> set_layer h cur lc selected;
     h \<leftarrow> connect srt cur lc mMax h selected;
     Some (h, if length cands > 0 then c_node (cands ! 0) else ep) }"

fun add_layers :: "(candidate list \<Rightarrow> candidate list) \<Rightarrow> Vector \<Rightarrow> nat \<Rightarrow> HNSW \<Rightarrow> nat \<Rightarrow> nat list \<Rightarrow> HNSW option" where
  "add_layers srt v cur h ep [] = Some h"
| "add_layers srt v cur h ep (lc # lcs) = do { (h', ep') \<leftarrow> add_layer srt v cur h ep lc; add_layers srt v cur h' ep' lcs }"

definition top_level :: "HNSW \<Rightarrow> nat \<Rightarrow> nat" where
  "top_level h i = length (neighbors (nodes h ! i)) - 1"

definition Add_HNSW :: "(candidate list \<Rightarrow> candidate list) \<Rightarrow> real \<Rightarrow> HNSW \<Rightarrow> u32 \<Rightarrow> Vector \<Rightarrow> HNSW option" where
  "Add_HNSW srt r h ext v =
     (if h_dim h \<noteq> - 1 \<and> int (length v) \<noteq> h_dim h then None
      else do {
        let h = (if h_dim h = - 1 then h\<lparr>h_dim := int (length v)\<rparr> else h);
        level \<leftarrow> randomLevel h r;
        let n = \<lparr>n_id = ext, n_vec = Clone v, neighbors = replicate (level + 1) []\<rparr>;
        let cur = length (nodes h);
        let h = h\<lparr>nodes := nodes h @ [n]\<rparr>;
        if h_entry h = - 1 then Some (h\<lparr>h_entry := int cur\<rparr>)
        else do {
          let ep = nat (h_entry h);
          let topLevel = top_level h ep;
          ep \<leftarrow> descend h v ep (rev [level + 1..<topLevel + 1]);
          h \<leftarrow> add_layers srt v cur h ep (rev [0..<min level topLevel + 1]);
          Some (if level > topLevel then h\<lparr>h_entry := int cur\<rparr> else h) } })"

subsection \<open>Search\<close>

definition Search_HNSW :: "(candidate list \<Rightarrow> candidate list) \<Rightarrow> HNSW \<Rightarrow> Vector \<Rightarrow> int \<Rightarrow> int \<Rightarrow> Neighbor list option" where
  "Search_HNSW srt h q k ef =
     (if h_entry h = - 1 \<or> k \<le> 0 then Some []
      else do {
        let ef = (if ef \<le> 0 then EfSearch (h_params h) else ef);
        let ef = (if ef < k then k else ef);
        let ep = nat (h_entry h);
        ep \<leftarrow> descend h q ep (rev [1..<top_level h ep + 1]);
        cands \<leftarrow> searchLayer srt h q [ep] ef 0;
        let cands = take (nat k) cands;
        Some (map (\<lambda>c. \<lparr>nb_ID = n_id (nodes h ! c_node c), nb_Dist = c_dist c\<rparr>) cands) })"

end
