(* ===== verification/HNSW_Correct.thy ===== *)
theory HNSW_Correct
  imports HNSW
begin

text \<open>
  The graph search of \<open>HNSW\<close> ends and is exact on what it visits; \<open>Add\<close> keeps the graph well formed.
\<close>

subsection \<open>Graphs\<close>

abbreviation levels :: "HNSW \<Rightarrow> nat \<Rightarrow> nat" where
  "levels h i \<equiv> length (neighbors (nodes h ! i))"

definition adj :: "HNSW \<Rightarrow> nat \<Rightarrow> nat \<Rightarrow> nat list" where
  "adj h lc i = neighbors (nodes h ! i) ! lc"

definition on_layer :: "HNSW \<Rightarrow> nat \<Rightarrow> nat set" where
  "on_layer h lc = {i. i < length (nodes h) \<and> lc < levels h i}"

text \<open>Vectors have the dimension of the index, and the edges of a layer lead to nodes of that layer.\<close>

definition graph_ok :: "HNSW \<Rightarrow> bool" where
  "graph_ok h \<longleftrightarrow>
     (\<forall>i < length (nodes h). int (length (n_vec (nodes h ! i))) = h_dim h \<and> neighbors (nodes h ! i) \<noteq> []) \<and>
     (\<forall>lc. \<forall>i \<in> on_layer h lc. set (adj h lc i) \<subseteq> on_layer h lc)"

definition D :: "HNSW \<Rightarrow> Vector \<Rightarrow> nat \<Rightarrow> real" where
  "D h q i = the (Distance (hp_Metric (h_params h)) q (n_vec (nodes h ! i)))"

abbreviation query_ok :: "HNSW \<Rightarrow> Vector \<Rightarrow> bool" where
  "query_ok h q \<equiv> int (length q) = h_dim h"

lemma Distance_Some: "length a = length b \<Longrightarrow> \<exists>d. Distance m a b = Some d"
  by (cases m) (simp_all add: Distance_def dot_eq cosine_eq l2sq_eq)

lemma finite_on_layer [simp]: "finite (on_layer h lc)"
  by (simp add: on_layer_def)

lemma on_layer_mono: "i \<in> on_layer h lc \<Longrightarrow> l \<le> lc \<Longrightarrow> i \<in> on_layer h l"
  by (auto simp: on_layer_def)

lemma dist_to_D:
  assumes "graph_ok h" "query_ok h q" "i < length (nodes h)"
  shows "dist_to h q i = Some (D h q i)"
proof -
  have "int (length q) = int (length (n_vec (nodes h ! i)))" using assms by (simp add: graph_ok_def)
  then show ?thesis using assms(3) Distance_Some[of q "n_vec (nodes h ! i)" "hp_Metric (h_params h)"]
    by (auto simp: dist_to_def at_node_def hdist_def D_def)
qed

lemma at_layer_adj: "i \<in> on_layer h lc \<Longrightarrow> at_layer h i lc = Some (adj h lc i)"
  by (simp add: at_layer_def at_node_def on_layer_def adj_def)

lemma adj_on_layer: "graph_ok h \<Longrightarrow> i \<in> on_layer h lc \<Longrightarrow> set (adj h lc i) \<subseteq> on_layer h lc"
  by (simp add: graph_ok_def)

lemma on_layer_less: "i \<in> on_layer h lc \<Longrightarrow> i < length (nodes h)"
  by (simp add: on_layer_def)

subsection \<open>The descent ends in a local minimum\<close>

lemma greedy_scan_spec:
  assumes "graph_ok h" "query_ok h q" "\<forall>nb \<in> set nbs. nb < length (nodes h)"
  shows "\<exists>b imp'. greedy_scan h q nbs best (D h q best) imp = Some (b, D h q b, imp') \<and> b \<in> insert best (set nbs) \<and>
    (\<forall>nb \<in> set nbs. D h q b \<le> D h q nb) \<and> D h q b \<le> D h q best \<and> (imp' \<longleftrightarrow> imp \<or> D h q b < D h q best) \<and> (D h q b = D h q best \<longrightarrow> b = best)"
  using assms(3)
proof (induction nbs arbitrary: best imp)
  case (Cons nb nbs)
  have d: "dist_to h q nb = Some (D h q nb)" using dist_to_D[OF assms(1,2)] Cons.prems by simp
  show ?case
  proof (cases "D h q nb < D h q best")
    case True
    obtain b imp' where "greedy_scan h q nbs nb (D h q nb) True = Some (b, D h q b, imp')" "b \<in> insert nb (set nbs)"
      "\<forall>nb \<in> set nbs. D h q b \<le> D h q nb" "D h q b \<le> D h q nb" "imp'" using Cons.IH[of nb True] Cons.prems by auto
    then show ?thesis using True d by (intro exI[of _ b] exI[of _ imp']) auto
  next
    case False
    obtain b imp' where "greedy_scan h q nbs best (D h q best) imp = Some (b, D h q b, imp')" "b \<in> insert best (set nbs)"
      "\<forall>nb \<in> set nbs. D h q b \<le> D h q nb" "D h q b \<le> D h q best" "imp' \<longleftrightarrow> imp \<or> D h q b < D h q best" "D h q b = D h q best \<longrightarrow> b = best"
      using Cons.IH[of best imp] Cons.prems by auto
    then show ?thesis using False d by (intro exI[of _ b] exI[of _ imp']) auto
  qed
qed auto

lemma greedy_loop_spec:
  assumes "graph_ok h" "query_ok h q" "best \<in> on_layer h lc"
  shows "\<exists>b \<in> on_layer h lc. greedy_loop h q lc best (D h q best) = Some b \<and> D h q b \<le> D h q best \<and> (\<forall>nb \<in> set (adj h lc b). D h q b \<le> D h q nb)"
  using assms(3)
proof (induction "card {i \<in> on_layer h lc. D h q i < D h q best}" arbitrary: best rule: less_induct)
  case less
  have nb: "\<forall>nb \<in> set (adj h lc best). nb < length (nodes h)" "set (adj h lc best) \<subseteq> on_layer h lc"
    using adj_on_layer[OF assms(1) less.prems] on_layer_less by blast+
  obtain b imp where s: "greedy_scan h q (adj h lc best) best (D h q best) False = Some (b, D h q b, imp)"
    and b: "b \<in> insert best (set (adj h lc best))" "\<forall>nb \<in> set (adj h lc best). D h q b \<le> D h q nb" "D h q b \<le> D h q best"
      "imp \<longleftrightarrow> D h q b < D h q best" "D h q b = D h q best \<longrightarrow> b = best"
    using greedy_scan_spec[OF assms(1,2) nb(1), of best False] by auto
  have bl: "b \<in> on_layer h lc" using b(1) nb(2) less.prems by auto
  show ?case
  proof (cases imp)
    case True
    then have "{i \<in> on_layer h lc. D h q i < D h q b} \<subset> {i \<in> on_layer h lc. D h q i < D h q best}" using b(4) bl by force
    then have "card {i \<in> on_layer h lc. D h q i < D h q b} < card {i \<in> on_layer h lc. D h q i < D h q best}" by (intro psubset_card_mono) simp_all
    from less.hyps[OF this bl] obtain c where "c \<in> on_layer h lc" "greedy_loop h q lc b (D h q b) = Some c" "D h q c \<le> D h q b" "\<forall>nb \<in> set (adj h lc c). D h q c \<le> D h q nb"
      by blast
    then show ?thesis using True s b(3) less.prems by (subst greedy_loop.simps) (auto simp: at_layer_adj)
  next
    case False
    then have "b = best" using b by auto
    then show ?thesis using False s b less.prems by (subst greedy_loop.simps) (auto simp: at_layer_adj)
  qed
qed

lemma greedyClosest_spec:
  assumes "graph_ok h" "query_ok h q" "ep \<in> on_layer h lc"
  obtains b where "greedyClosest h q ep lc = Some b" "b \<in> on_layer h lc" "D h q b \<le> D h q ep"
    "\<forall>nb \<in> set (adj h lc b). D h q b \<le> D h q nb"
  using greedy_loop_spec[OF assms] dist_to_D[OF assms(1,2) on_layer_less[OF assms(3)]] by (auto simp: greedyClosest_def)

lemma descend_spec:
  assumes "graph_ok h" "query_ok h q" "\<forall>lc \<in> set lcs. ep \<in> on_layer h lc" "sorted_wrt (>) lcs" "ep \<in> on_layer h l" "\<forall>lc \<in> set lcs. l \<le> lc"
  shows "\<exists>ep'. descend h q ep lcs = Some ep' \<and> ep' \<in> on_layer h l \<and> D h q ep' \<le> D h q ep"
  using assms(3-6)
proof (induction lcs arbitrary: ep)
  case (Cons lc lcs)
  obtain b where b: "greedyClosest h q ep lc = Some b" "b \<in> on_layer h lc" "D h q b \<le> D h q ep"
    using greedyClosest_spec[OF assms(1,2), of ep lc] Cons.prems(1) by (metis list.set_intros(1))
  have "\<exists>ep'. descend h q b lcs = Some ep' \<and> ep' \<in> on_layer h l \<and> D h q ep' \<le> D h q b"
    using Cons.prems on_layer_mono[OF b(2)] by (intro Cons.IH) (auto intro: less_imp_le)
  then show ?case using b by auto
qed simp

subsection \<open>The layer search is exact on what it visits\<close>

definition reach :: "HNSW \<Rightarrow> nat \<Rightarrow> nat \<Rightarrow> nat set" where
  "reach h lc ep = {i. (ep, i) \<in> {(a, b). b \<in> set (adj h lc a)}\<^sup>*}"

lemma reach_refl [simp]: "ep \<in> reach h lc ep"
  by (simp add: reach_def)

lemma reach_step: "i \<in> reach h lc ep \<Longrightarrow> e \<in> set (adj h lc i) \<Longrightarrow> e \<in> reach h lc ep"
  by (auto simp: reach_def intro: rtrancl.rtrancl_into_rtrancl)

lemma reach_closed:
  assumes "ep \<in> A" "\<And>i e. i \<in> A \<Longrightarrow> e \<in> set (adj h lc i) \<Longrightarrow> e \<in> A"
  shows "reach h lc ep \<subseteq> A"
proof
  fix i assume "i \<in> reach h lc ep"
  then have "(ep, i) \<in> {(a, b). b \<in> set (adj h lc a)}\<^sup>*" by (simp add: reach_def)
  then show "i \<in> A" using assms by (induction rule: rtrancl_induct) auto
qed

abbreviation fnodes :: "search_state \<Rightarrow> nat list" where "fnodes st \<equiv> map c_node (found st)"

abbreviation tnodes :: "search_state \<Rightarrow> nat list" where "tnodes st \<equiv> map c_node (toVisit st)"

definition cands_ok :: "HNSW \<Rightarrow> Vector \<Rightarrow> candidate list \<Rightarrow> bool" where
  "cands_ok h q cs \<longleftrightarrow> (\<forall>c \<in> set cs. c_dist c = D h q (c_node c))"

text \<open>The \<open>ef\<close> best of the visited nodes are the found ones.\<close>

definition best_of :: "HNSW \<Rightarrow> Vector \<Rightarrow> int \<Rightarrow> nat set \<Rightarrow> nat list \<Rightarrow> bool" where
  "best_of h q ef W F \<longleftrightarrow> distinct F \<and> set F \<subseteq> W \<and> int (length F) = min ef (int (card W)) \<and> (\<forall>e \<in> W - set F. \<forall>f \<in> set F. D h q f \<le> D h q e)"

definition search_inv :: "HNSW \<Rightarrow> Vector \<Rightarrow> int \<Rightarrow> nat \<Rightarrow> nat \<Rightarrow> nat set \<Rightarrow> search_state \<Rightarrow> bool" where
  "search_inv h q ef lc ep opn st \<longleftrightarrow>
     visited st \<subseteq> on_layer h lc \<inter> reach h lc ep \<and> ep \<in> visited st \<and> set (tnodes st) \<subseteq> visited st \<and>
     heap_ok min_lt (length (toVisit st)) (toVisit st) \<and> heap_ok max_lt (length (found st)) (found st) \<and>
     cands_ok h q (toVisit st) \<and> cands_ok h q (found st) \<and> best_of h q ef (visited st) (fnodes st) \<and>
     (\<forall>f \<in> set (fnodes st). f \<in> set (tnodes st) \<or> f \<in> opn \<or> set (adj h lc f) \<subseteq> visited st)"

lemma search_inv_found:
  assumes "search_inv h q ef lc ep opn st" "1 \<le> ef"
  shows "found st \<noteq> []" "finite (visited st)"
proof -
  show fin: "finite (visited st)" using assms(1) by (metis Int_subset_iff finite_on_layer finite_subset search_inv_def)
  then have "card (visited st) > 0" using assms(1) by (auto simp: search_inv_def card_gt_0_iff)
  then have "0 < min ef (int (card (visited st)))" using assms(2) by simp
  moreover have "int (length (found st)) = min ef (int (card (visited st)))" using assms(1) by (simp add: search_inv_def best_of_def)
  ultimately show "found st \<noteq> []" by auto
qed

text \<open>One more node among the visited: the worst of the found ones leaves if there are too many.\<close>

lemma best_of_full:
  assumes "best_of h q ef W F" "finite W" "e \<notin> W" "int (length F) \<ge> ef" "w \<in> set F" "\<forall>f \<in> set F. D h q f \<le> D h q w"
  shows "D h q e \<ge> D h q w \<Longrightarrow> best_of h q ef (insert e W) F"
    "D h q e < D h q w \<Longrightarrow> mset (e # F) = add_mset x (mset F') \<Longrightarrow> \<forall>f \<in> set (e # F). D h q f \<le> D h q x \<Longrightarrow> best_of h q ef (insert e W) F'"
proof -
  have b: "distinct F" "set F \<subseteq> W" "int (length F) = min ef (int (card W))" "\<forall>e \<in> W - set F. \<forall>f \<in> set F. D h q f \<le> D h q e"
    using assms(1) by (auto simp: best_of_def)
  have card: "card (insert e W) = Suc (card W)" using assms(2,3) by simp
  have len: "int (length F) = ef" "ef \<le> int (card W)" using b(3) assms(4) by linarith+
  show "best_of h q ef (insert e W) F" if "D h q e \<ge> D h q w"
    using b assms(6) that len card unfolding best_of_def by (auto intro: order_trans)
  assume lt: "D h q e < D h q w" and m: "mset (e # F) = add_mset x (mset F')" and mx: "\<forall>f \<in> set (e # F). D h q f \<le> D h q x"
  have "e \<notin> set F" using b(2) assms(3) by auto
  then have dist: "distinct (x # F')" using b(1) m by (metis distinct.simps(2) mset.simps(2) mset_eq_imp_distinct_iff)
  have set: "insert e (set F) = insert x (set F')" using m by (metis list.simps(15) mset.simps(2) set_mset_mset)
  have "length F' = length F" using arg_cong[OF m, of size] by simp
  moreover have "D h q f \<le> D h q y" if y: "y \<in> insert e W - set F'" and f: "f \<in> set F'" for y f
  proof (cases "y = x")
    case True
    then show ?thesis using mx f set by auto
  next
    case False
    then have yW: "y \<in> W - set F" using y set by auto
    have "D h q w \<le> D h q y" using b(4) yW assms(5) by blast
    moreover have "f \<in> insert e (set F)" using f set by blast
    then have "D h q f \<le> D h q w" using lt assms(6) by auto
    ultimately show ?thesis by linarith
  qed
  moreover have "set F' \<subseteq> insert e W" using set b(2) by auto
  ultimately show "best_of h q ef (insert e W) F'" using dist len card by (simp add: best_of_def)
qed

lemma best_of_room:
  assumes "best_of h q ef W F" "finite W" "e \<notin> W" "int (length F) < ef" "mset F' = add_mset e (mset F)"
  shows "best_of h q ef (insert e W) F'"
proof -
  have b: "distinct F" "set F \<subseteq> W" "int (length F) = min ef (int (card W))" using assms(1) by (auto simp: best_of_def)
  then have "card (set F) = card W" using assms(4) by (simp add: distinct_card)
  then have FW: "set F = W" using b(2) assms(2) by (simp add: card_subset_eq)
  have "distinct F'" using assms(3,5) b FW by (metis distinct.simps(2) mset.simps(2) mset_eq_imp_distinct_iff)
  moreover have "set F' = insert e W" using assms(5) FW by (metis list.simps(15) mset.simps(2) set_mset_mset)
  moreover have "length F' = Suc (length F)" using arg_cong[OF assms(5), of size] by simp
  ultimately show ?thesis using b(3) assms(2-4) by (simp add: best_of_def)
qed

lemma set_of_mset: "mset b = add_mset c (mset a) \<Longrightarrow> set b = insert c (set a)"
  by (metis list.simps(15) mset.simps(2) set_mset_mset)

lemma map_mset: "mset b = add_mset c (mset a) \<Longrightarrow> mset (map f b) = add_mset (f c) (mset (map f a))"
  by (metis image_mset_add_mset mset_map)

lemma visit_spec:
  assumes "graph_ok h" "query_ok h q" "1 \<le> ef" and inv: "search_inv h q ef lc ep opn st" and e: "e \<in> on_layer h lc" "e \<in> reach h lc ep"
  shows "\<exists>st'. visit h q ef st e = Some st' \<and> search_inv h q ef lc ep opn st' \<and> visited st' = insert e (visited st) \<and>
    length (toVisit st') + card (visited st) \<le> length (toVisit st) + card (visited st')"
proof (cases "e \<in> visited st")
  case True
  then show ?thesis using inv by (intro exI[of _ st]) (auto simp: visit_def insert_absorb)
next
  case new: False
  note found = search_inv_found[OF inv assms(3)]
  have d: "dist_to h q e = Some (D h q e)" by (rule dist_to_D[OF assms(1,2) on_layer_less[OF e(1)]])
  have I: "visited st \<subseteq> on_layer h lc \<inter> reach h lc ep" "ep \<in> visited st" "set (tnodes st) \<subseteq> visited st"
    "heap_ok min_lt (length (toVisit st)) (toVisit st)" "heap_ok max_lt (length (found st)) (found st)"
    "cands_ok h q (toVisit st)" "cands_ok h q (found st)" "best_of h q ef (visited st) (fnodes st)"
    "\<forall>f \<in> set (fnodes st). f \<in> set (tnodes st) \<or> f \<in> opn \<or> set (adj h lc f) \<subseteq> visited st"
    using inv by (auto simp: search_inv_def)
  define c where "c = \<lparr>c_node = e, c_dist = D h q e\<rparr>"
  have c: "c_node c = e" "c_dist c = D h q e" by (simp_all add: c_def)
  define T F where "T = heap_push min_lt (toVisit st) c" and "F = heap_push max_lt (found st) c"
  have T: "heap_ok min_lt (length T) T" "mset T = add_mset c (mset (toVisit st))" using min_heap.push_spec[OF I(4)] by (simp_all add: T_def)
  have F: "heap_ok max_lt (length F) F" "mset F = add_mset c (mset (found st))" using max_heap.push_spec[OF I(5)] by (simp_all add: F_def)
  have lens: "length T = Suc (length (toVisit st))" "length F = Suc (length (found st))" using arg_cong[OF T(2), of size] arg_cong[OF F(2), of size] by simp_all
  have cok: "cands_ok h q T" "cands_ok h q F" using I(6,7) c by (auto simp: cands_ok_def set_of_mset[OF T(2)] set_of_mset[OF F(2)])
  have tn: "set (map c_node T) = insert e (set (tnodes st))" using set_of_mset[OF T(2)] c by simp
  have cardW: "card (insert e (visited st)) = Suc (card (visited st))" using new found(2) by simp
  obtain w where w: "heap_peek (found st) = Some w" "w \<in> set (found st)" "\<forall>y \<in> set (found st). \<not> max_lt y w"
    by (rule max_heap.peek_spec[OF I(5) found(1)])
  have wD: "c_dist w = D h q (c_node w)" "\<forall>f \<in> set (fnodes st). D h q f \<le> D h q (c_node w)"
    using w(2,3) I(7) by (auto simp: cands_ok_def max_lt_def not_less)
  have pushed: "search_inv h q ef lc ep opn (st\<lparr>visited := insert e (visited st), toVisit := T, found := F'\<rparr>)"
    if "heap_ok max_lt (length F') F'" "cands_ok h q F'" "best_of h q ef (insert e (visited st)) (map c_node F')" "set F' \<subseteq> insert c (set (found st))" for F'
  proof -
    have "f \<in> set (map c_node T) \<or> f \<in> opn \<or> set (adj h lc f) \<subseteq> insert e (visited st)" if f: "f \<in> set (map c_node F')" for f
    proof -
      have "f = e \<or> f \<in> set (fnodes st)" using f \<open>set F' \<subseteq> insert c (set (found st))\<close> c by auto
      then show ?thesis using I(9) unfolding tn by blast
    qed
    then show ?thesis using that(1-3) I(1-3) T(1) cok(1) tn e unfolding search_inv_def by simp blast
  qed
  consider (room) "int (length (found st)) < ef" | (far) "\<not> int (length (found st)) < ef" "\<not> D h q e < c_dist w"
    | (near) "\<not> int (length (found st)) < ef" "D h q e < c_dist w" by blast
  then show ?thesis
  proof cases
    case room
    have "best_of h q ef (insert e (visited st)) (map c_node F)"
      using best_of_room[OF I(8) found(2) new _ map_mset[OF F(2), of c_node, unfolded c]] room by simp
    then show ?thesis using pushed[OF F(1) cok(2)] set_of_mset[OF F(2)] room d new lens cardW
      by (intro exI[of _ "st\<lparr>visited := insert e (visited st), toVisit := T, found := F\<rparr>"]) (auto simp: visit_def Let_def T_def F_def c_def)
  next
    case far
    have "best_of h q ef (insert e (visited st)) (fnodes st)"
      using best_of_full(1)[OF I(8) found(2) new, of "c_node w"] far w(2) wD by simp
    then have "search_inv h q ef lc ep opn (st\<lparr>visited := insert e (visited st)\<rparr>)" using I e by (auto simp: search_inv_def)
    then show ?thesis using far d new cardW w(1) by (intro exI[of _ "st\<lparr>visited := insert e (visited st)\<rparr>"]) (simp add: visit_def Let_def)
  next
    case near
    obtain x F' where p: "heap_pop max_lt F = Some (x, F')" "heap_ok max_lt (length F') F'" "mset F = add_mset x (mset F')" "\<forall>y \<in> set F. \<not> max_lt y x"
      using max_heap.pop_spec[OF F(1)] lens by (metis length_0_conv nat.simps(3))
    have "mset (e # fnodes st) = add_mset (c_node x) (mset (map c_node F'))"
      using map_mset[OF F(2), of c_node, unfolded c] map_mset[OF p(3), of c_node] by simp
    moreover have "\<forall>f \<in> set (e # fnodes st). D h q f \<le> D h q (c_node x)"
    proof -
      have "x \<in> set F" by (simp add: set_of_mset[OF p(3)])
      then have "c_dist y \<le> c_dist x" "c_dist y = D h q (c_node y)" "c_dist x = D h q (c_node x)" if "y \<in> set F" for y
        using p(4) that cok(2) by (auto simp: max_lt_def not_less cands_ok_def)
      then have "D h q f \<le> D h q (c_node x)" if "f \<in> c_node ` set F" for f using that by (metis image_iff)
      moreover have "set (e # fnodes st) = c_node ` set F" using set_of_mset[OF F(2)] c by simp
      ultimately show ?thesis by blast
    qed
    ultimately have "best_of h q ef (insert e (visited st)) (map c_node F')"
      using best_of_full(2)[OF I(8) found(2) new, of "c_node w"] near w(2) wD by simp
    moreover have "set F' \<subseteq> insert c (set (found st))" using set_of_mset[OF p(3)] set_of_mset[OF F(2)] by blast
    moreover have "cands_ok h q F'" using cok(2) set_of_mset[OF p(3)] by (auto simp: cands_ok_def)
    ultimately show ?thesis using pushed[OF p(2)] near d new lens cardW w(1) p(1)
      by (intro exI[of _ "st\<lparr>visited := insert e (visited st), toVisit := T, found := F'\<rparr>"]) (simp add: visit_def Let_def T_def F_def c_def)
  qed
qed

lemma visit_all_spec:
  assumes "graph_ok h" "query_ok h q" "1 \<le> ef" "search_inv h q ef lc ep opn st" "set es \<subseteq> on_layer h lc \<inter> reach h lc ep"
  shows "\<exists>st'. visit_all h q ef st es = Some st' \<and> search_inv h q ef lc ep opn st' \<and> visited st' = visited st \<union> set es \<and>
    length (toVisit st') + card (visited st) \<le> length (toVisit st) + card (visited st')"
  using assms(4,5)
proof (induction es arbitrary: st)
  case (Cons e es)
  obtain st1 where 1: "visit h q ef st e = Some st1" "search_inv h q ef lc ep opn st1" "visited st1 = insert e (visited st)"
    "length (toVisit st1) + card (visited st) \<le> length (toVisit st) + card (visited st1)"
    using visit_spec[OF assms(1-3) Cons.prems(1), of e] Cons.prems(2) by auto
  obtain st2 where 2: "visit_all h q ef st1 es = Some st2" "search_inv h q ef lc ep opn st2" "visited st2 = visited st1 \<union> set es"
    "length (toVisit st2) + card (visited st1) \<le> length (toVisit st1) + card (visited st2)"
    using Cons.IH[OF 1(2)] Cons.prems(2) by auto
  show ?case using 1 2 by (intro exI[of _ st2]) auto
qed simp

definition search_done :: "HNSW \<Rightarrow> Vector \<Rightarrow> int \<Rightarrow> nat \<Rightarrow> nat \<Rightarrow> search_state \<Rightarrow> bool" where
  "search_done h q ef lc ep st \<longleftrightarrow>
     visited st \<subseteq> on_layer h lc \<inter> reach h lc ep \<and> ep \<in> visited st \<and> cands_ok h q (found st) \<and> best_of h q ef (visited st) (fnodes st) \<and>
     (\<forall>f \<in> set (fnodes st). set (adj h lc f) \<subseteq> visited st)"

text \<open>Popping the nearest open candidate leaves it as the one being expanded; when the search stops there, every found node has
  been expanded.\<close>

lemma pop_open:
  assumes "search_inv h q ef lc ep {} st" "toVisit st \<noteq> []" "1 \<le> ef"
  obtains c rest stop where "heap_pop min_lt (toVisit st) = Some (c, rest)" "length (toVisit st) = Suc (length rest)"
    "search_inv h q ef lc ep {c_node c} (st\<lparr>toVisit := rest\<rparr>)" "c_node c \<in> visited st"
    "exhausted ef (st\<lparr>toVisit := rest\<rparr>) c = Some stop" "stop \<longrightarrow> search_done h q ef lc ep (st\<lparr>toVisit := rest\<rparr>)"
proof -
  have I: "visited st \<subseteq> on_layer h lc \<inter> reach h lc ep" "ep \<in> visited st" "set (tnodes st) \<subseteq> visited st"
    "heap_ok min_lt (length (toVisit st)) (toVisit st)" "heap_ok max_lt (length (found st)) (found st)"
    "cands_ok h q (toVisit st)" "cands_ok h q (found st)" "best_of h q ef (visited st) (fnodes st)"
    "\<forall>f \<in> set (fnodes st). f \<in> set (tnodes st) \<or> set (adj h lc f) \<subseteq> visited st"
    using assms(1) by (auto simp: search_inv_def)
  obtain c rest where p: "heap_pop min_lt (toVisit st) = Some (c, rest)" "heap_ok min_lt (length rest) rest"
    "mset (toVisit st) = add_mset c (mset rest)" "\<forall>y \<in> set (toVisit st). \<not> min_lt y c"
    by (rule min_heap.pop_spec[OF I(4) assms(2)])
  have T: "set (toVisit st) = insert c (set rest)" by (rule set_of_mset[OF p(3)])
  have len: "length (toVisit st) = Suc (length rest)" using arg_cong[OF p(3), of size] by simp
  have inv: "search_inv h q ef lc ep {c_node c} (st\<lparr>toVisit := rest\<rparr>)"
    using I p(2) T unfolding search_inv_def by (simp add: cands_ok_def) blast
  obtain w where w: "heap_peek (found st) = Some w" "w \<in> set (found st)" "\<forall>y \<in> set (found st). \<not> max_lt y w"
    by (rule max_heap.peek_spec[OF I(5) search_inv_found(1)[OF assms(1,3)]])
  define stop where "stop \<longleftrightarrow> int (length (found st)) \<ge> ef \<and> c_dist c > c_dist w"
  have "search_done h q ef lc ep (st\<lparr>toVisit := rest\<rparr>)" if stop
  proof -
    have "set (adj h lc f) \<subseteq> visited st" if f: "f \<in> set (fnodes st)" for f
    proof -
      obtain y where y: "y \<in> set (found st)" "c_node y = f" using f by auto
      have lt: "D h q f < c_dist c" using y w(3) I(7) \<open>stop\<close> by (auto simp: stop_def max_lt_def cands_ok_def not_less)
      have "f \<notin> set (tnodes st)"
      proof
        assume "f \<in> set (tnodes st)"
        then obtain t where "t \<in> set (toVisit st)" "c_node t = f" by auto
        then show False using lt p(4) I(6) by (auto simp: min_lt_def cands_ok_def)
      qed
      then show ?thesis using I(9) f by blast
    qed
    then show ?thesis using I by (simp add: search_done_def)
  qed
  moreover have "exhausted ef (st\<lparr>toVisit := rest\<rparr>) c = Some stop" using w(1) by (simp add: exhausted_def stop_def)
  moreover have "c_node c \<in> visited st" using I(3) T by auto
  ultimately show thesis using that[OF p(1) len inv] by blast
qed

lemma search_loop_spec:
  assumes "graph_ok h" "query_ok h q" "1 \<le> ef" "search_inv h q ef lc ep {} st"
  shows "\<exists>st'. search_loop h q ef lc st = Some st' \<and> search_done h q ef lc ep st'"
  using assms(4)
proof (induction "2 * card (on_layer h lc - visited st) + length (toVisit st)" arbitrary: st rule: less_induct)
  case less
  show ?case
  proof (cases "toVisit st = []")
    case True
    then have "search_done h q ef lc ep st" using less.prems by (simp add: search_inv_def search_done_def)
    then show ?thesis using True by (subst search_loop.simps) simp
  next
    case False
    obtain c rest stop where p: "heap_pop min_lt (toVisit st) = Some (c, rest)" "length (toVisit st) = Suc (length rest)"
      "search_inv h q ef lc ep {c_node c} (st\<lparr>toVisit := rest\<rparr>)" "c_node c \<in> visited st"
      "exhausted ef (st\<lparr>toVisit := rest\<rparr>) c = Some stop" "stop \<longrightarrow> search_done h q ef lc ep (st\<lparr>toVisit := rest\<rparr>)"
      by (rule pop_open[OF less.prems False assms(3)])
    have c: "c_node c \<in> on_layer h lc" "c_node c \<in> reach h lc ep" using p(4) less.prems by (auto simp: search_inv_def)
    have es: "set (adj h lc (c_node c)) \<subseteq> on_layer h lc \<inter> reach h lc ep" using adj_on_layer[OF assms(1) c(1)] reach_step[OF c(2)] by blast
    obtain st' where v: "visit_all h q ef (st\<lparr>toVisit := rest\<rparr>) (adj h lc (c_node c)) = Some st'" "search_inv h q ef lc ep {c_node c} st'"
      "visited st' = visited st \<union> set (adj h lc (c_node c))" "length (toVisit st') + card (visited st) \<le> length rest + card (visited st')"
      using visit_all_spec[OF assms(1-3) p(3) es] by auto
    have inv: "search_inv h q ef lc ep {} st'" using v(2,3) unfolding search_inv_def by auto
    have sub: "visited st \<subseteq> visited st'" "visited st' \<subseteq> on_layer h lc" using v(3) inv by (auto simp: search_inv_def)
    then have "card (on_layer h lc - visited st) + card (visited st) = card (on_layer h lc)" "card (on_layer h lc - visited st') + card (visited st') = card (on_layer h lc)"
      using finite_on_layer[of h lc] by (metis add.commute card_Diff_subset card_mono finite_subset le_add_diff_inverse order_trans)+
    moreover have "card (visited st) \<le> card (visited st')" using sub finite_on_layer finite_subset by (metis card_mono)
    ultimately have "2 * card (on_layer h lc - visited st') + length (toVisit st') < 2 * card (on_layer h lc - visited st) + length (toVisit st)"
      using v(4) p(2) by linarith
    from less.hyps[OF this inv] obtain st2 where "search_loop h q ef lc st' = Some st2" "search_done h q ef lc ep st2" by blast
    then show ?thesis using False p(1,5,6) v(1) c(1) by (subst search_loop.simps) (cases stop, auto simp: at_layer_adj Let_def)
  qed
qed

lemma best_of_perm: "mset F = mset F' \<Longrightarrow> best_of h q ef W F = best_of h q ef W F'"
  using mset_eq_setD[of F F'] mset_eq_length[of F F'] mset_eq_imp_distinct_iff[of F F'] by (simp add: best_of_def)

lemma searchLayer_spec:
  assumes "graph_ok h" "query_ok h q" "1 \<le> ef" "ep \<in> on_layer h lc" "sort_Slice c_dist srt"
  obtains cands W where "searchLayer srt h q [ep] ef lc = Some cands" "cands_ok h q cands" "sorted (map c_dist cands)"
    "W \<subseteq> on_layer h lc \<inter> reach h lc ep" "ep \<in> W" "best_of h q ef W (map c_node cands)" "\<forall>f \<in> set (map c_node cands). set (adj h lc f) \<subseteq> W"
proof -
  define c where "c = \<lparr>c_node = ep, c_dist = D h q ep\<rparr>"
  define st0 where "st0 = \<lparr>visited = {ep}, toVisit = [c], found = [c]\<rparr>"
  have push: "heap_push lt [] x = [x]" for lt and x :: candidate by (simp add: heap_push_def sift_up.simps)
  have e: "visit_entries h q \<lparr>visited = {}, toVisit = [], found = []\<rparr> [ep] = Some st0"
    using dist_to_D[OF assms(1,2) on_layer_less[OF assms(4)]] by (simp add: visit_entry_def Let_def push st0_def c_def)
  have "search_inv h q ef lc ep {} st0" using assms(3,4) by (simp add: search_inv_def st0_def c_def cands_ok_def best_of_def heap_ok_def)
  from search_loop_spec[OF assms(1-3) this] obtain st where st: "search_loop h q ef lc st0 = Some st" "search_done h q ef lc ep st" by blast
  have m: "mset (srt (found st)) = mset (found st)" "sorted (map c_dist (srt (found st)))" using assms(5) by (simp_all add: sort_Slice_def)
  have set: "set (srt (found st)) = set (found st)" using mset_eq_setD[OF m(1)] .
  have "mset (map c_node (srt (found st))) = mset (fnodes st)" using m(1) by (metis mset_map)
  then have b: "best_of h q ef (visited st) (map c_node (srt (found st)))" using st(2) best_of_perm by (metis search_done_def)
  show thesis
  proof (rule that[of "srt (found st)" "visited st"])
    show "searchLayer srt h q [ep] ef lc = Some (srt (found st))" using e st(1) by (simp add: searchLayer_def)
  qed (use st(2) m(2) set b in \<open>auto simp: search_done_def cands_ok_def\<close>)
qed

lemma search_exhaustive:
  assumes "best_of h q ef W F" "W \<subseteq> on_layer h lc \<inter> reach h lc ep" "ep \<in> W" "\<forall>f \<in> set F. set (adj h lc f) \<subseteq> W" "int (card (on_layer h lc)) \<le> ef"
  shows "set F = reach h lc ep"
proof -
  have sub: "W \<subseteq> on_layer h lc" using assms(2) by blast
  have W: "finite W" "W \<subseteq> on_layer h lc" using finite_subset[OF sub] sub by simp_all
  then have "card W \<le> card (on_layer h lc)" by (simp add: card_mono)
  then have "length F = card W" using assms(1,5) by (simp add: best_of_def)
  then have "set F = W" using assms(1) W(1) by (metis best_of_def card_subset_eq distinct_card)
  then show ?thesis using assms(2-4) reach_closed[of ep W h lc] by blast
qed

subsection \<open>Neighbour selection\<close>

lemma keep_loop_Some:
  assumes "graph_ok h" "c_node c < length (nodes h)" "\<forall>r \<in> set rs. r < length (nodes h)"
  shows "keep_loop h c rs = Some (\<forall>r \<in> set rs. \<not> D h (n_vec (nodes h ! c_node c)) r < c_dist c)"
  using assms(3)
proof (induction rs)
  case (Cons r rs)
  have "query_ok h (n_vec (nodes h ! c_node c))" using assms(1,2) by (simp add: graph_ok_def)
  then have "dist_to h (n_vec (nodes h ! c_node c)) r = Some (D h (n_vec (nodes h ! c_node c)) r)" using dist_to_D[OF assms(1)] Cons.prems by simp
  then show ?case using Cons assms(2) by (simp add: at_node_def)
qed simp

lemma select_loop_spec:
  assumes "graph_ok h" "\<forall>c \<in> set cs. c_node c < length (nodes h)" "\<forall>r \<in> set res. r < length (nodes h)" "int (length res) \<le> m" "distinct (res @ map c_node cs)"
  shows "\<exists>sel. select_loop h m res cs = Some sel \<and> set sel \<subseteq> set res \<union> c_node ` set cs \<and> distinct sel \<and> int (length sel) \<le> m"
  using assms(2-5)
proof (induction cs arbitrary: res)
  case (Cons c cs)
  show ?case
  proof (cases "int (length res) \<ge> m")
    case True
    then show ?thesis using Cons.prems by auto
  next
    case False
    obtain keep where k: "keep_loop h c res = Some keep" using keep_loop_Some[OF assms(1)] Cons.prems by simp
    let ?res = "if keep then res @ [c_node c] else res"
    have "\<exists>sel. select_loop h m ?res cs = Some sel \<and> set sel \<subseteq> set ?res \<union> c_node ` set cs \<and> distinct sel \<and> int (length sel) \<le> m"
      using Cons.prems False by (intro Cons.IH) auto
    then obtain sel where "select_loop h m ?res cs = Some sel" "set sel \<subseteq> set ?res \<union> c_node ` set cs" "distinct sel" "int (length sel) \<le> m" by blast
    then show ?thesis using False k by (intro exI[of _ sel]) (auto split: if_splits)
  qed
qed auto

lemma selectNeighbors_spec:
  assumes "graph_ok h" "\<forall>c \<in> set cs. c_node c < length (nodes h)" "distinct (map c_node cs)" "0 \<le> m"
  obtains sel where "selectNeighbors h cs m = Some sel" "set sel \<subseteq> c_node ` set cs" "distinct sel" "int (length sel) \<le> m"
  using select_loop_spec[OF assms(1,2), of "[]" m] assms(3,4) by (auto simp: selectNeighbors_def)

lemma candidates_of_spec:
  assumes "graph_ok h" "query_ok h v" "\<forall>e \<in> set es. e < length (nodes h)"
  shows "\<exists>cs. candidates_of h v es = Some cs \<and> map c_node cs = es \<and> cands_ok h v cs"
  using assms(3) by (induction es) (auto simp: dist_to_D[OF assms(1,2)] cands_ok_def)

subsection \<open>Adding edges\<close>

text \<open>Everything but the edges.\<close>

definition same_shape :: "HNSW \<Rightarrow> HNSW \<Rightarrow> bool" where
  "same_shape h h' \<longleftrightarrow> h_params h' = h_params h \<and> mMax0 h' = mMax0 h \<and> h_entry h' = h_entry h \<and> h_dim h' = h_dim h \<and>
     length (nodes h') = length (nodes h) \<and>
     (\<forall>i < length (nodes h). n_id (nodes h' ! i) = n_id (nodes h ! i) \<and> n_vec (nodes h' ! i) = n_vec (nodes h ! i) \<and> levels h' i = levels h i)"

lemma same_shape_refl [simp]: "same_shape h h"
  by (simp add: same_shape_def)

lemma same_shape_trans: "same_shape h h' \<Longrightarrow> same_shape h' h'' \<Longrightarrow> same_shape h h''"
  by (simp add: same_shape_def)

lemma same_shape_layer: "same_shape h h' \<Longrightarrow> on_layer h' lc = on_layer h lc"
  by (auto simp: same_shape_def on_layer_def)

definition cap :: "HNSW \<Rightarrow> nat \<Rightarrow> int" where
  "cap h lc = (if lc = 0 then mMax0 h else hp_M (h_params h))"

lemma same_shape_cap: "same_shape h h' \<Longrightarrow> cap h' = cap h"
  by (auto simp: same_shape_def cap_def)

text \<open>The edges of a node: distinct, none to itself, within the degree budget of the layer.\<close>

definition edges_ok :: "HNSW \<Rightarrow> bool" where
  "edges_ok h \<longleftrightarrow> graph_ok h \<and> (\<forall>lc. \<forall>i \<in> on_layer h lc. distinct (adj h lc i) \<and> i \<notin> set (adj h lc i) \<and> int (length (adj h lc i)) \<le> cap h lc)"

lemma set_layer_spec:
  assumes "i \<in> on_layer h lc"
  obtains h' where "set_layer h i lc es = Some h'" "same_shape h h'" "\<forall>l j. adj h' l j = (if j = i \<and> l = lc then es else adj h l j)"
proof -
  define h' where "h' = h\<lparr>nodes := (nodes h)[i := (nodes h ! i)\<lparr>neighbors := (neighbors (nodes h ! i))[lc := es]\<rparr>]\<rparr>"
  have i: "i < length (nodes h)" "lc < levels h i" using assms by (auto simp: on_layer_def)
  have "set_layer h i lc es = Some h'" using i by (simp add: set_layer_def at_node_def h'_def)
  moreover have "same_shape h h'" using i by (auto simp: same_shape_def h'_def nth_list_update)
  moreover have "\<forall>l j. adj h' l j = (if j = i \<and> l = lc then es else adj h l j)"
    using i by (auto simp: adj_def h'_def nth_list_update)
  ultimately show thesis by (rule that)
qed

lemma graph_ok_update:
  assumes "graph_ok h" "same_shape h h'" "\<forall>l j. adj h' l j = (if j = i \<and> l = lc then es else adj h l j)" "set es \<subseteq> on_layer h lc"
  shows "graph_ok h'"
proof -
  have "neighbors (nodes h' ! j) \<noteq> []" if "j < length (nodes h)" for j
  proof -
    have "levels h' j = levels h j" "neighbors (nodes h ! j) \<noteq> []" using assms(1,2) that by (simp_all add: graph_ok_def same_shape_def)
    then show ?thesis by auto
  qed
  then show ?thesis using assms same_shape_layer[OF assms(2)] unfolding graph_ok_def by (auto simp: same_shape_def)
qed

lemma edges_ok_update:
  assumes "edges_ok h" "same_shape h h'" "\<forall>l j. adj h' l j = (if j = i \<and> l = lc then es else adj h l j)"
    "set es \<subseteq> on_layer h lc" "distinct es" "i \<notin> set es" "int (length es) \<le> cap h lc"
  shows "edges_ok h'"
  using assms graph_ok_update[OF _ assms(2-4)] same_shape_layer[OF assms(2)] same_shape_cap[OF assms(2)] by (auto simp: edges_ok_def)

lemma pruneNode_spec:
  assumes "graph_ok h" "i \<in> on_layer h lc" "distinct (adj h lc i)" "0 \<le> m" "sort_Slice c_dist srt"
  obtains h' sel where "pruneNode srt h i lc m = Some h'" "same_shape h h'" "\<forall>l j. adj h' l j = (if j = i \<and> l = lc then sel else adj h l j)"
    "set sel \<subseteq> set (adj h lc i)" "distinct sel" "int (length sel) \<le> m"
proof -
  have sub: "\<forall>e \<in> set (adj h lc i). e < length (nodes h)" using adj_on_layer[OF assms(1,2)] on_layer_less by blast
  have i: "i < length (nodes h)" by (rule on_layer_less[OF assms(2)])
  then have "query_ok h (n_vec (nodes h ! i))" using assms(1) by (simp add: graph_ok_def)
  then obtain cs where cs: "candidates_of h (n_vec (nodes h ! i)) (adj h lc i) = Some cs" "map c_node cs = adj h lc i"
    using candidates_of_spec[OF assms(1) _ sub] by blast
  have m: "mset (srt cs) = mset cs" using assms(5) by (simp add: sort_Slice_def)
  have "mset (map c_node (srt cs)) = mset (adj h lc i)" using m cs(2) by (metis mset_map)
  then have d: "distinct (map c_node (srt cs))" "c_node ` set (srt cs) = set (adj h lc i)"
    using assms(3) mset_eq_imp_distinct_iff by (blast, metis list.set_map mset_eq_setD)
  then have "\<forall>c \<in> set (srt cs). c_node c < length (nodes h)" using sub by blast
  then obtain sel where sel: "selectNeighbors h (srt cs) m = Some sel" "set sel \<subseteq> set (adj h lc i)" "distinct sel" "int (length sel) \<le> m"
    using selectNeighbors_spec[OF assms(1) _ d(1) assms(4)] d(2) by metis
  obtain h' where h': "set_layer h i lc sel = Some h'" "same_shape h h'" "\<forall>l j. adj h' l j = (if j = i \<and> l = lc then sel else adj h l j)"
    by (rule set_layer_spec[OF assms(2), where es = sel])
  show thesis by (rule that[OF _ h'(2,3) sel(2-4)]) (simp add: pruneNode_def at_node_def i at_layer_adj[OF assms(2)] cs(1) sel(1) h'(1))
qed

text \<open>Connecting a neighbour changes its edges only, and adds at most the new node to them.\<close>

lemma connect_one_spec:
  assumes "edges_ok h" "m \<in> on_layer h lc" "cur \<in> on_layer h lc" "m \<noteq> cur" "cur \<notin> set (adj h lc m)" "0 \<le> cap h lc" "sort_Slice c_dist srt"
  obtains h' es where "connect_one srt cur lc (cap h lc) h m = Some h'" "same_shape h h'" "edges_ok h'"
    "\<forall>l j. adj h' l j = (if j = m \<and> l = lc then es else adj h l j)"
proof -
  let ?es = "adj h lc m @ [cur]"
  obtain h1 where h1: "set_layer h m lc ?es = Some h1" "same_shape h h1" "\<forall>l j. adj h1 l j = (if j = m \<and> l = lc then ?es else adj h l j)"
    by (rule set_layer_spec[OF assms(2), where es = ?es])
  have old: "distinct (adj h lc m)" "m \<notin> set (adj h lc m)" "set (adj h lc m) \<subseteq> on_layer h lc" "graph_ok h"
    using assms(1,2) adj_on_layer by (auto simp: edges_ok_def)
  show thesis
  proof (cases "int (length ?es) > cap h lc")
    case False
    have "edges_ok h1" using edges_ok_update[OF assms(1) h1(2,3)] old assms(3-5) False by auto
    then show thesis using that[OF _ h1(2) _ h1(3)] h1(1) False at_layer_adj[OF assms(2)] by (simp add: connect_one_def)
  next
    case True
    have g1: "graph_ok h1" using graph_ok_update[OF old(4) h1(2,3)] old(3) assms(3) by simp
    have m1: "m \<in> on_layer h1 lc" using same_shape_layer[OF h1(2)] assms(2) by simp
    have "distinct (adj h1 lc m)" using h1(3) old(1) assms(5) by simp
    then obtain h2 sel where h2: "pruneNode srt h1 m lc (cap h lc) = Some h2" "same_shape h1 h2" "\<forall>l j. adj h2 l j = (if j = m \<and> l = lc then sel else adj h1 l j)"
      "set sel \<subseteq> set (adj h1 lc m)" "distinct sel" "int (length sel) \<le> cap h lc"
      by (rule pruneNode_spec[OF g1 m1 _ assms(6,7)])
    have sh: "same_shape h h2" by (rule same_shape_trans[OF h1(2) h2(2)])
    have a: "\<forall>l j. adj h2 l j = (if j = m \<and> l = lc then sel else adj h l j)" using h1(3) h2(3) by auto
    have "set sel \<subseteq> insert cur (set (adj h lc m))" using h2(4) h1(3) by auto
    then have "edges_ok h2" using edges_ok_update[OF assms(1) sh a] h2(5,6) old assms(3,4) by blast
    then show thesis using that[OF _ sh _ a] h1(1) h2(1) True at_layer_adj[OF assms(2)] by (simp add: connect_one_def)
  qed
qed

lemma connect_spec:
  assumes "edges_ok h" "set ms \<subseteq> on_layer h lc - {cur}" "cur \<in> on_layer h lc" "distinct ms" "\<forall>m \<in> set ms. cur \<notin> set (adj h lc m)" "0 \<le> cap h lc" "sort_Slice c_dist srt"
  shows "\<exists>h'. connect srt cur lc (cap h lc) h ms = Some h' \<and> same_shape h h' \<and> edges_ok h' \<and> (\<forall>l j. l \<noteq> lc \<longrightarrow> adj h' l j = adj h l j)"
  using assms(1-6)
proof (induction ms arbitrary: h)
  case (Cons m ms)
  obtain h1 es where h1: "connect_one srt cur lc (cap h lc) h m = Some h1" "same_shape h h1" "edges_ok h1" "\<forall>l j. adj h1 l j = (if j = m \<and> l = lc then es else adj h l j)"
    using connect_one_spec[OF Cons.prems(1), of m lc cur srt] Cons.prems assms(7) by auto
  have "\<exists>h'. connect srt cur lc (cap h1 lc) h1 ms = Some h' \<and> same_shape h1 h' \<and> edges_ok h' \<and> (\<forall>l j. l \<noteq> lc \<longrightarrow> adj h' l j = adj h1 l j)"
    using Cons.prems h1 same_shape_layer[OF h1(2)] same_shape_cap[OF h1(2)] by (intro Cons.IH) auto
  then obtain h2 where "connect srt cur lc (cap h lc) h1 ms = Some h2" "same_shape h1 h2" "edges_ok h2" "\<forall>l j. l \<noteq> lc \<longrightarrow> adj h2 l j = adj h1 l j"
    using same_shape_cap[OF h1(2)] by auto
  then show ?case using h1 same_shape_trans[OF h1(2)] by (intro exI[of _ h2]) auto
qed simp

definition params_ok :: "HNSW \<Rightarrow> bool" where
  "params_ok h \<longleftrightarrow> 1 \<le> hp_M (h_params h) \<and> 1 \<le> EfConstruction (h_params h) \<and> 1 \<le> EfSearch (h_params h) \<and> mMax0 h = 2 * hp_M (h_params h)"

definition fresh :: "HNSW \<Rightarrow> nat \<Rightarrow> nat \<Rightarrow> bool" where
  "fresh h cur lc \<longleftrightarrow> (\<forall>i \<in> on_layer h lc. cur \<notin> set (adj h lc i))"

lemma params_cap: "params_ok h \<Longrightarrow> 0 \<le> cap h lc \<and> hp_M (h_params h) \<le> cap h lc"
  by (simp add: params_ok_def cap_def)

lemma reach_fresh:
  assumes "graph_ok h" "fresh h cur lc" "ep \<in> on_layer h lc" "ep \<noteq> cur"
  shows "reach h lc ep \<subseteq> on_layer h lc - {cur}"
  using assms adj_on_layer[OF assms(1)] by (intro reach_closed) (auto simp: fresh_def)

lemma add_layer_spec:
  assumes "edges_ok h" "params_ok h" "query_ok h v" "cur \<in> on_layer h lc" "fresh h cur lc" "ep \<in> on_layer h lc" "ep \<noteq> cur" "sort_Slice c_dist srt"
  obtains h' ep' where "add_layer srt v cur h ep lc = Some (h', ep')" "same_shape h h'" "edges_ok h'" "\<forall>l j. l \<noteq> lc \<longrightarrow> adj h' l j = adj h l j"
    "ep' \<in> on_layer h lc" "ep' \<noteq> cur"
proof -
  have g: "graph_ok h" using assms(1) by (simp add: edges_ok_def)
  have ef: "1 \<le> EfConstruction (h_params h)" "0 \<le> hp_M (h_params h)" using assms(2) by (simp_all add: params_ok_def)
  obtain cands W where c: "searchLayer srt h v [ep] (EfConstruction (h_params h)) lc = Some cands" "W \<subseteq> on_layer h lc \<inter> reach h lc ep" "ep \<in> W"
    "best_of h v (EfConstruction (h_params h)) W (map c_node cands)"
    by (rule searchLayer_spec[OF g assms(3) ef(1) assms(6,8)])
  have W: "W \<subseteq> on_layer h lc - {cur}" using c(2) reach_fresh[OF g assms(5-7)] by blast
  then have cn: "c_node ` set cands \<subseteq> on_layer h lc - {cur}" "distinct (map c_node cands)" using c(4) by (auto simp: best_of_def)
  then have "\<forall>x \<in> set cands. c_node x < length (nodes h)" using on_layer_less by blast
  then obtain sel where sel: "selectNeighbors h cands (hp_M (h_params h)) = Some sel" "set sel \<subseteq> on_layer h lc - {cur}" "distinct sel" "int (length sel) \<le> hp_M (h_params h)"
    using selectNeighbors_spec[OF g _ cn(2) ef(2)] cn(1) by (metis subset_trans)
  obtain h1 where h1: "set_layer h cur lc sel = Some h1" "same_shape h h1" "\<forall>l j. adj h1 l j = (if j = cur \<and> l = lc then sel else adj h l j)"
    by (rule set_layer_spec[OF assms(4), where es = sel])
  have e1: "edges_ok h1" using edges_ok_update[OF assms(1) h1(2,3)] sel params_cap[OF assms(2), of lc] by auto
  have "\<exists>h'. connect srt cur lc (cap h1 lc) h1 sel = Some h' \<and> same_shape h1 h' \<and> edges_ok h' \<and> (\<forall>l j. l \<noteq> lc \<longrightarrow> adj h' l j = adj h1 l j)"
    using e1 sel(2,3) assms(4,5,8) h1(3) params_cap[OF assms(2), of lc] same_shape_layer[OF h1(2)] same_shape_cap[OF h1(2)]
    by (intro connect_spec) (auto simp: fresh_def)
  then obtain h2 where h2: "connect srt cur lc (cap h lc) h1 sel = Some h2" "same_shape h1 h2" "edges_ok h2" "\<forall>l j. l \<noteq> lc \<longrightarrow> adj h2 l j = adj h1 l j"
    using same_shape_cap[OF h1(2)] by auto
  define ep' where "ep' = (if length cands > 0 then c_node (cands ! 0) else ep)"
  have "ep' \<in> insert ep (c_node ` set cands)" using nth_mem[of 0 cands] by (simp add: ep'_def)
  then have ep': "ep' \<in> on_layer h lc" "ep' \<noteq> cur" using cn(1) assms(6,7) by auto
  have "add_layer srt v cur h ep lc = Some (h2, ep')"
    using c(1) sel(1) h1(1) h2(1) by (simp add: add_layer_def Let_def cap_def ep'_def)
  then show thesis using that[OF _ same_shape_trans[OF h1(2) h2(2)] h2(3) _ ep'] h1(3) h2(4) by auto
qed

lemma add_layers_spec:
  assumes "edges_ok h" "params_ok h" "query_ok h v" "\<forall>lc \<in> set lcs. cur \<in> on_layer h lc \<and> fresh h cur lc \<and> ep \<in> on_layer h lc" "ep \<noteq> cur"
    "sorted_wrt (>) lcs" "sort_Slice c_dist srt"
  shows "\<exists>h'. add_layers srt v cur h ep lcs = Some h' \<and> same_shape h h' \<and> edges_ok h'"
  using assms(1-6)
proof (induction lcs arbitrary: h ep)
  case (Cons lc lcs)
  obtain h1 ep1 where h1: "add_layer srt v cur h ep lc = Some (h1, ep1)" "same_shape h h1" "edges_ok h1" "\<forall>l j. l \<noteq> lc \<longrightarrow> adj h1 l j = adj h l j"
    "ep1 \<in> on_layer h lc" "ep1 \<noteq> cur"
    using add_layer_spec[OF Cons.prems(1-3), of cur lc ep srt] Cons.prems(4,5) assms(7) by (metis list.set_intros(1))
  have "\<exists>h'. add_layers srt v cur h1 ep1 lcs = Some h' \<and> same_shape h1 h' \<and> edges_ok h'"
  proof (rule Cons.IH[OF h1(3)])
    show "params_ok h1" "query_ok h1 v" using h1(2) Cons.prems(2,3) by (simp_all add: params_ok_def same_shape_def)
    show "\<forall>l \<in> set lcs. cur \<in> on_layer h1 l \<and> fresh h1 cur l \<and> ep1 \<in> on_layer h1 l"
    proof
      fix l assume l: "l \<in> set lcs"
      then have "l < lc" using Cons.prems(6) by simp
      then show "cur \<in> on_layer h1 l \<and> fresh h1 cur l \<and> ep1 \<in> on_layer h1 l"
        using l Cons.prems(4) h1(4) on_layer_mono[OF h1(5), of l] same_shape_layer[OF h1(2)] by (auto simp: fresh_def)
    qed
  qed (use h1(6) Cons.prems(6) in auto)
  then show ?case using h1(1) same_shape_trans[OF h1(2)] by auto
qed simp

subsection \<open>The index\<close>

definition hnsw_ok :: "HNSW \<Rightarrow> bool" where
  "hnsw_ok h \<longleftrightarrow> edges_ok h \<and> params_ok h \<and>
     (if nodes h = [] then h_entry h = - 1 \<and> h_dim h = - 1
      else 0 \<le> h_entry h \<and> nat (h_entry h) < length (nodes h) \<and> 0 \<le> h_dim h \<and> (\<forall>i < length (nodes h). levels h i \<le> levels h (nat (h_entry h))))"

lemma New_ok: "hnsw_ok (New_HNSW p)"
  by (simp add: New_HNSW_def withDefaults_def hnsw_ok_def edges_ok_def graph_ok_def on_layer_def params_ok_def Let_def)

definition pushed :: "HNSW \<Rightarrow> node \<Rightarrow> HNSW" where
  "pushed h n = h\<lparr>nodes := nodes h @ [n]\<rparr>"

lemma pushed_layer:
  "on_layer (pushed h n) lc = on_layer h lc \<union> (if lc < length (neighbors n) then {length (nodes h)} else {})"
  by (auto simp: on_layer_def pushed_def nth_append)

lemma pushed_adj: "i < length (nodes h) \<Longrightarrow> adj (pushed h n) lc i = adj h lc i"
  by (simp add: adj_def pushed_def nth_append)

lemma pushed_adj_new: "adj (pushed h n) lc (length (nodes h)) = neighbors n ! lc"
  by (simp add: adj_def pushed_def)

lemma pushed_edges:
  assumes "edges_ok h" "params_ok h" "neighbors n = replicate (Suc level) []" "int (length (n_vec n)) = h_dim h"
  shows "edges_ok (pushed h n)" "\<forall>lc. fresh (pushed h n) (length (nodes h)) lc"
proof -
  have cap: "cap (pushed h n) = cap h" by (auto simp: cap_def pushed_def)
  have old: "adj (pushed h n) lc i = adj h lc i" if "i \<in> on_layer h lc" for lc i using that on_layer_less pushed_adj by blast
  have new: "adj (pushed h n) lc (length (nodes h)) = []" if "lc < length (neighbors n)" for lc using that assms(3) nth_replicate[of lc "Suc level" "[] :: nat list"] by (simp add: pushed_adj_new)
  have layer: "on_layer h lc \<subseteq> on_layer (pushed h n) lc" for lc by (simp add: pushed_layer)
  have vec: "\<forall>i < length (nodes (pushed h n)). int (length (n_vec (nodes (pushed h n) ! i))) = h_dim (pushed h n) \<and> neighbors (nodes (pushed h n) ! i) \<noteq> []"
    using assms(1,3,4) by (auto simp: pushed_def nth_append edges_ok_def graph_ok_def less_Suc_eq)
  have each: "set (adj (pushed h n) lc i) \<subseteq> on_layer h lc \<and> distinct (adj (pushed h n) lc i) \<and> i \<notin> set (adj (pushed h n) lc i) \<and> int (length (adj (pushed h n) lc i)) \<le> cap h lc"
    if "i \<in> on_layer (pushed h n) lc" for lc i
  proof (cases "i \<in> on_layer h lc")
    case True
    then show ?thesis using assms(1) old adj_on_layer by (auto simp: edges_ok_def)
  next
    case False
    then have "adj (pushed h n) lc i = []" using that new by (auto simp: pushed_layer split: if_splits)
    then show ?thesis using params_cap[OF assms(2), of lc] by simp
  qed
  show "edges_ok (pushed h n)" using vec each layer unfolding edges_ok_def graph_ok_def cap by blast
  show "\<forall>lc. fresh (pushed h n) (length (nodes h)) lc" using each on_layer_less by (fastforce simp: fresh_def)
qed

lemma edges_ok_entry: "edges_ok (h\<lparr>h_entry := x\<rparr>) = edges_ok h"
proof -
  have "on_layer (h\<lparr>h_entry := x\<rparr>) = on_layer h" "adj (h\<lparr>h_entry := x\<rparr>) = adj h" "cap (h\<lparr>h_entry := x\<rparr>) = cap h"
    by (simp_all add: on_layer_def adj_def cap_def fun_eq_iff)
  then show ?thesis by (simp add: edges_ok_def graph_ok_def)
qed

lemma Add_spec:
  assumes "hnsw_ok h" "hp_M (h_params h) \<noteq> 1" "nodes h = [] \<or> query_ok h v" "sort_Slice c_dist srt"
  shows "\<exists>h'. Add_HNSW srt r h ext v = Some h' \<and> hnsw_ok h' \<and> h_params h' = h_params h \<and> query_ok h' v \<and> nodes h' \<noteq> [] \<and>
    map (\<lambda>n. (n_id n, n_vec n)) (nodes h') = map (\<lambda>n. (n_id n, n_vec n)) (nodes h) @ [(ext, v)]"
proof -
  have ok: "edges_ok h" "params_ok h" using assms(1) by (simp_all add: hnsw_ok_def)
  have level_dim: "randomLevel (h\<lparr>h_dim := x\<rparr>) r = randomLevel h r" for x by (simp add: randomLevel_def)
  obtain level where lv: "randomLevel h r = Some level" using assms(2) by (simp add: randomLevel_def Let_def)
  define n where "n = \<lparr>n_id = ext, n_vec = v, neighbors = replicate (Suc level) []\<rparr>"
  have nn: "neighbors n = replicate (Suc level) []" "n_vec n = v" "n_id n = ext" by (simp_all add: n_def)
  show ?thesis
  proof (cases "nodes h = []")
    case True
    define h1 where "h1 = h\<lparr>h_dim := int (length v), nodes := [n], h_entry := 0\<rparr>"
    have e: "h_entry h = - 1" "h_dim h = - 1" using assms(1) True by (auto simp: hnsw_ok_def)
    have "edges_ok h1"
    proof -
      have "adj h1 lc i = []" if "i \<in> on_layer h1 lc" for lc i
        using that nn(1) nth_replicate[of lc "Suc level" "[] :: nat list"] by (auto simp: on_layer_def adj_def h1_def)
      moreover have "0 \<le> mMax0 h" "0 \<le> hp_M (h_params h)" using ok(2) by (simp_all add: params_ok_def)
      ultimately show ?thesis using nn by (auto simp: edges_ok_def graph_ok_def h1_def cap_def)
    qed
    then have "hnsw_ok h1" using ok(2) by (simp add: hnsw_ok_def params_ok_def h1_def)
    moreover have "Add_HNSW srt r h ext v = Some h1"
      using True e lv level_dim by (simp add: Add_HNSW_def Let_def h1_def n_def Clone_def)
    ultimately show ?thesis using True nn by (auto simp: h1_def)
  next
    case False
    define ep cur tl where "ep = nat (h_entry h)" and "cur = length (nodes h)" and "tl = top_level h ep"
    have e: "0 \<le> h_entry h" "ep < cur" "0 \<le> h_dim h" "\<forall>i < cur. levels h i \<le> levels h ep"
      using assms(1) False by (auto simp: hnsw_ok_def ep_def cur_def)
    have q: "query_ok h v" using assms(3) False by simp
    define h1 where "h1 = pushed h n"
    have p1: "edges_ok h1" "\<forall>lc. fresh h1 cur lc" using pushed_edges[OF ok nn(1)] q nn(2) by (simp_all add: h1_def cur_def)
    have g1: "graph_ok h1" "query_ok h1 v" "params_ok h1" using p1(1) q ok(2) by (simp_all add: edges_ok_def h1_def pushed_def params_ok_def)
    have ne: "neighbors (nodes h ! ep) \<noteq> []" using ok(1) e(2) by (simp add: edges_ok_def graph_ok_def cur_def)
    then have ltl: "levels h ep = Suc tl" by (simp add: tl_def top_level_def)
    have epl: "ep \<in> on_layer h1 l" if "l \<le> tl" for l using that ltl e(2) by (simp add: h1_def pushed_layer) (simp add: on_layer_def cur_def)
    have curl: "cur \<in> on_layer h1 l" if "l \<le> level" for l using that nn(1) by (simp add: h1_def pushed_layer cur_def)
    have oldl: "on_layer h1 l - {cur} \<subseteq> on_layer h l" for l by (auto simp: h1_def pushed_layer cur_def split: if_splits)
    have t1: "top_level h1 ep = tl" using e(2) by (simp add: h1_def pushed_def top_level_def tl_def nth_append cur_def)
    obtain ep1 where ep1: "descend h1 v ep (rev [level + 1..<tl + 1]) = Some ep1" "ep1 \<in> on_layer h1 (min level tl)" "ep1 \<noteq> cur"
    proof (cases "tl \<le> level")
      case True
      then show thesis using that[of ep] epl[of "min level tl"] e(2) by simp
    next
      case False
      have "\<exists>x. descend h1 v ep (rev [level + 1..<tl + 1]) = Some x \<and> x \<in> on_layer h1 (level + 1) \<and> D h1 v x \<le> D h1 v ep"
        using epl False by (intro descend_spec[OF g1(1,2)]) (auto simp: sorted_wrt_rev)
      then obtain x where x: "descend h1 v ep (rev [level + 1..<tl + 1]) = Some x" "x \<in> on_layer h1 (level + 1)" by blast
      moreover have "cur \<notin> on_layer h1 (level + 1)" using nn(1) by (simp add: h1_def pushed_layer cur_def) (simp add: on_layer_def)
      ultimately show thesis using that[of x] on_layer_mono[OF x(2), of "min level tl"] False by auto
    qed
    have "\<exists>h'. add_layers srt v cur h1 ep1 (rev [0..<min level tl + 1]) = Some h' \<and> same_shape h1 h' \<and> edges_ok h'"
      using p1 g1 ep1 curl assms(4) by (intro add_layers_spec) (auto simp: sorted_wrt_rev intro: on_layer_mono)
    then obtain h2 where h2: "add_layers srt v cur h1 ep1 (rev [0..<min level tl + 1]) = Some h2" "same_shape h1 h2" "edges_ok h2" by blast
    define h3 where "h3 = (if level > tl then h2\<lparr>h_entry := int cur\<rparr> else h2)"
    have sh: "length (nodes h2) = Suc cur" "h_params h2 = h_params h" "mMax0 h2 = mMax0 h" "h_entry h2 = h_entry h" "h_dim h2 = h_dim h"
      using h2(2) by (simp_all add: same_shape_def h1_def pushed_def cur_def)
    have lev: "levels h2 i = (if i < cur then levels h i else Suc level)" if "i \<le> cur" for i
      using h2(2) that nn(1) by (simp add: same_shape_def h1_def pushed_def nth_append cur_def)
    have "(\<lambda>n. (n_id n, n_vec n)) (nodes h2 ! i) = (map (\<lambda>n. (n_id n, n_vec n)) (nodes h) @ [(ext, v)]) ! i" if "i < Suc cur" for i
      using h2(2) that nn by (auto simp: same_shape_def h1_def pushed_def nth_append cur_def less_Suc_eq)
    then have mp: "map (\<lambda>n. (n_id n, n_vec n)) (nodes h2) = map (\<lambda>n. (n_id n, n_vec n)) (nodes h) @ [(ext, v)]"
      using sh(1) by (intro nth_equalityI) (simp_all add: cur_def)
    have "edges_ok h3" using h2(3) by (simp add: h3_def edges_ok_entry)
    moreover have "levels h2 i \<le> levels h2 (if level > tl then cur else ep)" if "i \<le> cur" for i
      using lev[OF that] lev[of ep] lev[of cur] e(2,4) ltl by (cases "i < cur") fastforce+
    ultimately have "hnsw_ok h3" using sh ok(2) e e(2) unfolding hnsw_ok_def
      by (auto simp: h3_def params_ok_def ep_def less_Suc_eq_le)
    moreover have "h_entry h1 = h_entry h" "nat (h_entry h) = ep" "length (nodes h) = cur" by (simp_all add: h1_def pushed_def ep_def cur_def)
    then have "Add_HNSW srt r h ext v = Some h3"
      using e q False lv ep1(1) h2(1) t1 unfolding Add_HNSW_def
      by (simp add: Let_def Clone_def n_def[symmetric] pushed_def[symmetric] h1_def[symmetric] h3_def del: upt_Suc replicate_Suc)
    ultimately show ?thesis using mp q sh by (intro exI[of _ h3]) (auto simp: h3_def)
  qed
qed

subsection \<open>Search\<close>

lemma best_prefix:
  assumes "best_of h q ef W (map c_node cs)" "cands_ok h q cs" "sorted (map c_dist cs)" "int k \<le> ef" "finite W"
  shows "distinct (map c_node (take k cs))" "c_node ` set (take k cs) \<subseteq> W" "length (take k cs) = min k (card W)"
    "i \<in> W - c_node ` set (take k cs) \<Longrightarrow> j \<in> c_node ` set (take k cs) \<Longrightarrow> D h q j \<le> D h q i"
proof -
  have b: "distinct (map c_node cs)" "c_node ` set cs \<subseteq> W" "int (length cs) = min ef (int (card W))"
    "\<forall>e \<in> W - c_node ` set cs. \<forall>f \<in> c_node ` set cs. D h q f \<le> D h q e"
    using assms(1) by (auto simp: best_of_def)
  show "distinct (map c_node (take k cs))" using b(1) by (simp add: take_map[symmetric])
  show "c_node ` set (take k cs) \<subseteq> W" using b(2) set_take_subset by fast
  show "length (take k cs) = min k (card W)" using b(3) assms(4) by simp
  assume i: "i \<in> W - c_node ` set (take k cs)" and j: "j \<in> c_node ` set (take k cs)"
  then obtain c where c: "c \<in> set (take k cs)" "j = c_node c" "c_dist c = D h q j" using assms(2) set_take_subset by (fastforce simp: cands_ok_def)
  show "D h q j \<le> D h q i"
  proof (cases "i \<in> c_node ` set cs")
    case True
    then have "i \<in> c_node ` set (drop k cs)" using i by (metis DiffD2 Un_iff append_take_drop_id image_Un set_append)
    then obtain d where d: "d \<in> set (drop k cs)" "i = c_node d" by auto
    have "d \<in> set cs" using d(1) in_set_dropD by fast
    then have di: "c_dist d = D h q i" using assms(2) d(2) by (simp add: cands_ok_def)
    have "sorted (map c_dist (take k cs @ drop k cs))" using assms(3) by simp
    then have "c_dist c \<le> c_dist d" using c(1) d(1) unfolding map_append sorted_append by simp
    then show ?thesis using c(3) di by simp
  next
    case False
    then show ?thesis using b(4) i j set_take_subset by fast
  qed
qed

lemma Search_spec:
  fixes h :: HNSW and q :: Vector and k ef :: int
  assumes "hnsw_ok h" "nodes h \<noteq> []" "query_ok h q" "0 < k" "sort_Slice c_dist srt"
  defines "ef' \<equiv> max k (if ef \<le> 0 then EfSearch (h_params h) else ef)"
  shows "\<exists>ep W res. Search_HNSW srt h q k ef = Some (map (\<lambda>i. \<lparr>nb_ID = n_id (nodes h ! i), nb_Dist = D h q i\<rparr>) res) \<and>
    distinct res \<and> set res \<subseteq> W \<and> length res = min (nat k) (card W) \<and> sorted (map (D h q) res) \<and>
    (\<forall>i \<in> W - set res. \<forall>j \<in> set res. D h q j \<le> D h q i) \<and>
    ep \<in> W \<and> W \<subseteq> reach h 0 ep \<and> W \<subseteq> {..<length (nodes h)} \<and> D h q ep \<le> D h q (nat (h_entry h)) \<and>
    (\<forall>j \<in> set res. set (adj h 0 j) \<subseteq> W) \<and> (int (length (nodes h)) \<le> ef' \<longrightarrow> W = reach h 0 ep)"
proof -
  have g: "graph_ok h" "1 \<le> EfSearch (h_params h)" using assms(1) by (simp_all add: hnsw_ok_def edges_ok_def params_ok_def)
  define e where "e = nat (h_entry h)"
  have e: "0 \<le> h_entry h" "e < length (nodes h)" using assms(1,2) by (simp_all add: hnsw_ok_def e_def)
  have "levels h e = Suc (top_level h e)" using g(1) e(2) by (simp add: graph_ok_def top_level_def)
  then have el: "e \<in> on_layer h l" if "l \<le> top_level h e" for l using that e(2) by (simp add: on_layer_def)
  have "\<exists>ep. descend h q e (rev [1..<top_level h e + 1]) = Some ep \<and> ep \<in> on_layer h 0 \<and> D h q ep \<le> D h q e"
    using el by (intro descend_spec[OF g(1) assms(3)]) (auto simp: sorted_wrt_rev simp del: upt_Suc)
  then obtain ep where ep: "descend h q e (rev [1..<top_level h e + 1]) = Some ep" "ep \<in> on_layer h 0" "D h q ep \<le> D h q e" by blast
  have ef: "1 \<le> ef'" "int (nat k) \<le> ef'" using assms(4) by (simp_all add: ef'_def)
  obtain cs W where c: "searchLayer srt h q [ep] ef' 0 = Some cs" "cands_ok h q cs" "sorted (map c_dist cs)" "W \<subseteq> on_layer h 0 \<inter> reach h 0 ep" "ep \<in> W"
    "best_of h q ef' W (map c_node cs)" "\<forall>f \<in> set (map c_node cs). set (adj h 0 f) \<subseteq> W"
    by (rule searchLayer_spec[OF g(1) assms(3) ef(1) ep(2) assms(5)])
  have layer0: "on_layer h 0 \<subseteq> {..<length (nodes h)}" by (auto simp: on_layer_def)
  have fin: "finite W" using c(4) finite_subset[OF _ finite_on_layer] by blast
  define res where "res = map c_node (take (nat k) cs)"
  note pre = best_prefix[OF c(6,2,3) ef(2) fin]
  have dist: "c_dist x = D h q (c_node x)" if "x \<in> set (take (nat k) cs)" for x using c(2) in_set_takeD[OF that] by (simp add: cands_ok_def)
  have sel: "(if (if ef \<le> 0 then EfSearch (h_params h) else ef) < k then k else if ef \<le> 0 then EfSearch (h_params h) else ef) = ef'" by (simp add: ef'_def)
  have s: "Search_HNSW srt h q k ef = Some (map (\<lambda>c. \<lparr>nb_ID = n_id (nodes h ! c_node c), nb_Dist = c_dist c\<rparr>) (take (nat k) cs))"
    using e assms(4) ep(1) c(1) unfolding Search_HNSW_def Let_def sel e_def[symmetric] by simp
  have m: "map (\<lambda>c. \<lparr>nb_ID = n_id (nodes h ! c_node c), nb_Dist = c_dist c\<rparr>) (take (nat k) cs) = map (\<lambda>i. \<lparr>nb_ID = n_id (nodes h ! i), nb_Dist = D h q i\<rparr>) res"
    "map (D h q) res = map c_dist (take (nat k) cs)"
    using dist by (simp_all add: res_def)
  have srt: "sorted (map (D h q) res)" using c(3) unfolding m(2) by (simp add: take_map[symmetric] sorted_wrt_take)
  have all: "W = reach h 0 ep" if "int (length (nodes h)) \<le> ef'"
  proof -
    have "card (on_layer h 0) \<le> length (nodes h)" using card_mono[OF _ layer0] by simp
    then have "set (map c_node cs) = reach h 0 ep" using that by (intro search_exhaustive[OF c(6,4,5,7)]) simp
    then show ?thesis using c(4,6) by (auto simp: best_of_def)
  qed
  have ad: "\<forall>j \<in> set res. set (adj h 0 j) \<subseteq> W" using c(7) in_set_takeD by (fastforce simp: res_def)
  show ?thesis
  proof (intro exI conjI)
    show "Search_HNSW srt h q k ef = Some (map (\<lambda>i. \<lparr>nb_ID = n_id (nodes h ! i), nb_Dist = D h q i\<rparr>) res)" using s m(1) by simp
    show "D h q ep \<le> D h q (nat (h_entry h))" using ep(3) by (simp add: e_def)
    show "length res = min (nat k) (card W)" using pre(3) by (simp add: res_def)
    show "\<forall>i \<in> W - set res. \<forall>j \<in> set res. D h q j \<le> D h q i" using pre(4) by (simp add: res_def)
  qed (use pre(1,2) srt c(4,5) ad all layer0 in \<open>auto simp: res_def\<close>)
qed

fun Add_all :: "(candidate list \<Rightarrow> candidate list) \<Rightarrow> HNSW \<Rightarrow> (real \<times> u32 \<times> Vector) list \<Rightarrow> HNSW option" where
  "Add_all srt h [] = Some h"
| "Add_all srt h ((r, ext, v) # xs) = do { h' \<leftarrow> Add_HNSW srt r h ext v; Add_all srt h' xs }"

text \<open>\<open>Add\<close> refuses exactly a vector of another dimension, and \<open>M = 1\<close>, where it has no level to draw.\<close>

lemma Add_None:
  assumes "hnsw_ok h" "Add_HNSW srt r h ext v = Some h'"
  shows "hp_M (h_params h) \<noteq> 1" "nodes h = [] \<or> query_ok h v"
proof -
  have level_dim: "randomLevel (h\<lparr>h_dim := x\<rparr>) r = randomLevel h r" for x by (simp add: randomLevel_def)
  show "hp_M (h_params h) \<noteq> 1"
  proof
    assume "hp_M (h_params h) = 1"
    then have "randomLevel h r = None" by (simp add: randomLevel_def)
    then have "Add_HNSW srt r h ext v = None" using level_dim by (simp add: Add_HNSW_def Let_def)
    then show False using assms(2) by simp
  qed
  have "nodes h \<noteq> [] \<longrightarrow> 0 \<le> h_dim h" using assms(1) by (simp add: hnsw_ok_def)
  moreover have "h_dim h = - 1 \<or> query_ok h v" using assms(2) by (auto simp: Add_HNSW_def split: if_splits)
  ultimately show "nodes h = [] \<or> query_ok h v" by auto
qed

lemma Add_all_ok:
  assumes "hnsw_ok h" "sort_Slice c_dist srt" "Add_all srt h items = Some h'"
  shows "hnsw_ok h' \<and> map (\<lambda>n. (n_id n, n_vec n)) (nodes h') = map (\<lambda>n. (n_id n, n_vec n)) (nodes h) @ map snd items"
  using assms(1,3)
proof (induction items arbitrary: h)
  case (Cons x items)
  obtain r ext v where x: "x = (r, ext, v)" by (cases x) auto
  obtain h1 where a: "Add_HNSW srt r h ext v = Some h1" "Add_all srt h1 items = Some h'" using Cons.prems(2) by (auto simp: x bind_eq_Some_conv)
  have "hnsw_ok h1" "map (\<lambda>n. (n_id n, n_vec n)) (nodes h1) = map (\<lambda>n. (n_id n, n_vec n)) (nodes h) @ [(ext, v)]"
    using Add_spec[OF Cons.prems(1) Add_None[OF Cons.prems(1) a(1)] assms(2), of r ext] a(1) by auto
  then show ?case using Cons.IH[of h1] a(2) by (simp add: x)
qed simp

lemma Add_all_Some:
  assumes "hnsw_ok h" "sort_Slice c_dist srt" "hp_M (h_params h) \<noteq> 1" "nodes h = [] \<or> h_dim h = int dm" "\<forall>x \<in> set items. length (snd (snd x)) = dm"
  shows "\<exists>h'. Add_all srt h items = Some h'"
  using assms(1,3-5)
proof (induction items arbitrary: h)
  case (Cons x items)
  obtain r ext v where x: "x = (r, ext, v)" by (cases x) auto
  have v: "length v = dm" "nodes h = [] \<or> query_ok h v" using Cons.prems(3,4) by (auto simp: x)
  obtain h1 where a: "Add_HNSW srt r h ext v = Some h1" "hnsw_ok h1" "h_params h1 = h_params h" "query_ok h1 v"
    using Add_spec[OF Cons.prems(1,2) v(2) assms(2), of r ext] by blast
  then show ?case using Cons.IH[of h1] Cons.prems v(1) by (auto simp: x)
qed simp

lemma Add_all_params:
  assumes "hnsw_ok h" "sort_Slice c_dist srt" "Add_all srt h items = Some h'"
  shows "h_params h' = h_params h"
  using assms(1,3)
proof (induction items arbitrary: h)
  case (Cons x items)
  obtain r ext v where x: "x = (r, ext, v)" by (cases x) auto
  obtain h1 where a: "Add_HNSW srt r h ext v = Some h1" "Add_all srt h1 items = Some h'" using Cons.prems(2) by (auto simp: x bind_eq_Some_conv)
  then show ?case using Add_spec[OF Cons.prems(1) Add_None[OF Cons.prems(1) a(1)] assms(2), of r ext] Cons.IH[of h1] by auto
qed simp

text \<open>C38: Building an index of vectors of one dimension never panics and always ends, whatever levels are drawn, and the graph is
  well formed: the vectors are stored in order under their ids, every edge of a layer leads to a node of that layer, no node is
  its own neighbour or has one twice, degrees are within \<open>2 M\<close> on the bottom layer and \<open>M\<close> above, and the entry point is on the top
  layer.\<close>

theorem HNSW_built:
  assumes "hp_M (withDefaults p) \<noteq> 1" "sort_Slice c_dist srt" "\<forall>x \<in> set items. length (snd (snd x)) = dm"
  shows "\<exists>h. Add_all srt (New_HNSW p) items = Some h \<and> map (\<lambda>n. (n_id n, n_vec n)) (nodes h) = map snd items \<and>
    (\<forall>lc. \<forall>i \<in> on_layer h lc. set (adj h lc i) \<subseteq> on_layer h lc - {i} \<and> distinct (adj h lc i) \<and>
       int (length (adj h lc i)) \<le> (if lc = 0 then 2 else 1) * hp_M (withDefaults p)) \<and>
    (items \<noteq> [] \<longrightarrow> (\<forall>i < length (nodes h). levels h i \<le> levels h (nat (h_entry h))) \<and> nat (h_entry h) < length (nodes h))"
proof -
  let ?p = "withDefaults p"
  have n: "h_params (New_HNSW p) = ?p" "nodes (New_HNSW p) = []" by (simp_all add: New_HNSW_def Let_def)
  obtain h where h: "Add_all srt (New_HNSW p) items = Some h" using Add_all_Some[OF New_ok[of p] assms(2) _ _ assms(3)] assms(1) n by auto
  have pm: "h_params h = ?p" using Add_all_params[OF New_ok assms(2) h] n by simp
  have ok: "hnsw_ok h" "map (\<lambda>n. (n_id n, n_vec n)) (nodes h) = map snd items" using Add_all_ok[OF New_ok assms(2) h] n by simp_all
  then have e: "edges_ok h" "mMax0 h = 2 * hp_M ?p" "items \<noteq> [] \<longrightarrow> nodes h \<noteq> []" using pm by (auto simp: hnsw_ok_def params_ok_def)
  have "set (adj h lc i) \<subseteq> on_layer h lc - {i} \<and> distinct (adj h lc i) \<and> int (length (adj h lc i)) \<le> (if lc = 0 then 2 else 1) * hp_M ?p"
    if "i \<in> on_layer h lc" for lc i
  proof -
    have "distinct (adj h lc i)" "i \<notin> set (adj h lc i)" "int (length (adj h lc i)) \<le> cap h lc" "set (adj h lc i) \<subseteq> on_layer h lc"
      using e(1) that adj_on_layer[of h i lc] by (auto simp: edges_ok_def)
    then show ?thesis using e(2) pm by (auto simp: cap_def)
  qed
  then show ?thesis using h ok e(3) by (auto simp: hnsw_ok_def)
qed

text \<open>C39: Search on a built index ends and returns true distances in ascending order, at most \<open>k\<close> of them, no node twice. They are the
  best of a set \<open>W\<close> of bottom-layer nodes reachable from where the descent ends, which contains every neighbour of a returned
  node: no neighbour left out is closer than a returned node. The descent does not move away from the query. When the
  candidate list can hold the whole index, \<open>W\<close> is everything reachable, so the result is exact there.\<close>

theorem HNSW_Search_exact:
  assumes "Add_all srt (New_HNSW p) items = Some h" "items \<noteq> []" "query_ok h q" "0 < k" "sort_Slice c_dist srt"
  shows "\<exists>ep W res. Search_HNSW srt h q k ef = Some (map (\<lambda>i. \<lparr>nb_ID = n_id (nodes h ! i), nb_Dist = D h q i\<rparr>) res) \<and>
    distinct res \<and> set res \<subseteq> W \<and> length res = min (nat k) (card W) \<and> sorted (map (D h q) res) \<and>
    (\<forall>i \<in> W - set res. \<forall>j \<in> set res. D h q j \<le> D h q i) \<and>
    ep \<in> W \<and> W \<subseteq> reach h 0 ep \<and> W \<subseteq> {..<length (nodes h)} \<and> D h q ep \<le> D h q (nat (h_entry h)) \<and>
    (\<forall>j \<in> set res. set (adj h 0 j) \<subseteq> W) \<and>
    (int (length (nodes h)) \<le> max k (if ef \<le> 0 then EfSearch (h_params h) else ef) \<longrightarrow> W = reach h 0 ep)"
proof -
  have ok: "hnsw_ok h" "map (\<lambda>n. (n_id n, n_vec n)) (nodes h) = map snd items"
    using Add_all_ok[OF New_ok assms(5,1)] by (simp_all add: New_HNSW_def Let_def)
  then have "nodes h \<noteq> []" using assms(2) by auto
  then show ?thesis by (rule Search_spec[OF ok(1) _ assms(3-5)])
qed

definition demo_params :: HNSW_Params where
  "demo_params = \<lparr>hp_M = 4, EfConstruction = 10, EfSearch = 5, hp_Metric = L2\<rparr>"

definition demo_items :: "(real \<times> u32 \<times> Vector) list" where
  "demo_items = [(1 / 2, 7, [0]), (1 / 100, 8, [1]), (9 / 10, 9, [3])]"

lemma demo_hyps: "hp_M (withDefaults demo_params) \<noteq> 1" "sort_Slice c_dist (sort_key c_dist)" "\<forall>x \<in> set demo_items. length (snd (snd x)) = 1"
  by (simp_all add: withDefaults_def demo_params_def sort_Slice_def demo_items_def Let_def)

theorem HNSW_built_witness:
  "\<exists>h. Add_all (sort_key c_dist) (New_HNSW demo_params) demo_items = Some h \<and> length (nodes h) = 3"
proof -
  obtain h where h: "Add_all (sort_key c_dist) (New_HNSW demo_params) demo_items = Some h" "map (\<lambda>n. (n_id n, n_vec n)) (nodes h) = map snd demo_items"
    using HNSW_built[OF demo_hyps] by blast
  have "length (nodes h) = length (map snd demo_items)" using arg_cong[OF h(2), of length] by (simp del: map_eq_conv)
  then have "length (nodes h) = 3" by (simp add: demo_items_def)
  then show ?thesis using h by blast
qed

theorem HNSW_Search_exact_witness:
  "\<exists>h res. Add_all (sort_key c_dist) (New_HNSW demo_params) demo_items = Some h \<and>
     Search_HNSW (sort_key c_dist) h [2] 2 0 = Some res \<and> res \<noteq> [] \<and> length res \<le> 2"
proof -
  obtain h where h: "Add_all (sort_key c_dist) (New_HNSW demo_params) demo_items = Some h"
    using Add_all_Some[OF New_ok[of demo_params] demo_hyps(2) _ _ demo_hyps(3)] demo_hyps(1) by (auto simp: New_HNSW_def Let_def)
  have ok: "hnsw_ok h" "map (\<lambda>n. (n_id n, n_vec n)) (nodes h) = map snd demo_items"
    using Add_all_ok[OF New_ok demo_hyps(2) h] by (simp_all add: New_HNSW_def Let_def)
  have ne: "demo_items \<noteq> []" by (simp add: demo_items_def)
  have "nodes h \<noteq> []" "length (n_vec (nodes h ! 0)) = 1" using ok(2) by (cases "nodes h"; simp add: demo_items_def)+
  moreover have "0 < length (nodes h) \<longrightarrow> int (length (n_vec (nodes h ! 0))) = h_dim h" using ok(1) by (simp add: hnsw_ok_def edges_ok_def graph_ok_def)
  ultimately have q: "query_ok h [2]" by simp
  obtain ep W res where r: "Search_HNSW (sort_key c_dist) h [2] 2 0 = Some (map (\<lambda>i. \<lparr>nb_ID = n_id (nodes h ! i), nb_Dist = D h [2] i\<rparr>) res)"
    "length res = min (nat 2) (card W)" "ep \<in> W" "W \<subseteq> {..<length (nodes h)}"
    using HNSW_Search_exact[OF h ne q _ demo_hyps(2), of 2 0] by auto
  have "finite W" using r(4) by (rule finite_subset) simp
  then have "card W > 0" using r(3) by (auto simp: card_gt_0_iff)
  then have "res \<noteq> [] \<and> length res \<le> 2" using r(2) by auto
  then show ?thesis using h r(1) by auto
qed

end
