(* ===== verification/Bitset.thy ===== *)
theory Bitset
  imports Prelude
begin

text \<open>\<open>index/segment/bitset.go\<close>: the live-docs set, one bit per document in 64-bit words.\<close>

record bitset =
  words :: "u64 list"
  bs_n :: nat

definition newBitset :: "nat \<Rightarrow> bitset" where
  "newBitset n = \<lparr>words = replicate ((n + 63) div 64) 0, bs_n = n\<rparr>"

definition setAll :: "bitset \<Rightarrow> bitset" where
  "setAll b =
     (let ws = map (\<lambda>_. NOT 0) (words b); r = bs_n b mod 64
      in b\<lparr>words := (if r \<noteq> 0 then ws[length ws - 1 := push_bit r 1 - 1] else ws)\<rparr>)"

definition bs_get :: "bitset \<Rightarrow> int \<Rightarrow> bool" where
  "bs_get b i =
     (if i < 0 \<or> i \<ge> int (bs_n b) then False
      else words b ! nat (i div 64) AND push_bit (nat (i mod 64)) 1 \<noteq> 0)"

definition bs_clear :: "int \<Rightarrow> bitset \<Rightarrow> bitset" where
  "bs_clear i b =
     (if i < 0 \<or> i \<ge> int (bs_n b) then b
      else b\<lparr>words := (words b)[nat (i div 64) := words b ! nat (i div 64) AND NOT (push_bit (nat (i mod 64)) 1)]\<rparr>)"

text \<open>\<open>bits.OnesCount64\<close>.\<close>

definition OnesCount64 :: "u64 \<Rightarrow> nat" where
  "OnesCount64 w = length (filter (bit w) [0..<64])"

definition bs_count :: "bitset \<Rightarrow> nat" where
  "bs_count b = foldl (\<lambda>c w. c + OnesCount64 w) 0 (words b)"

subsection \<open>The set a bitset stands for\<close>

definition bs_ok :: "bitset \<Rightarrow> bool" where
  "bs_ok b \<longleftrightarrow> length (words b) = (bs_n b + 63) div 64 \<and>
     (\<forall>i < 64 * length (words b). bit (words b ! (i div 64)) (i mod 64) \<longrightarrow> i < bs_n b)"

lemma bs_get_nat:
  "bs_get b (int i) \<longleftrightarrow> i < bs_n b \<and> bit (words b ! (i div 64)) (i mod 64)"
proof -
  have "nat (int i div 64) = i div 64" "nat (int i mod 64) = i mod 64"
    by (simp_all add: nat_div_distrib nat_mod_distrib)
  then show ?thesis by (auto simp: bs_get_def and_exp_eq_0_iff_not_bit)
qed

lemma bs_get_neg: "i < 0 \<Longrightarrow> \<not> bs_get b i"
  by (simp add: bs_get_def)

lemma word_index: "length ws = (n + 63) div 64 \<Longrightarrow> i < n \<Longrightarrow> i div 64 < length ws" for n :: nat
  by simp

lemma bs_ok_clear: "bs_ok b \<Longrightarrow> bs_ok (bs_clear i b)"
  by (auto simp: bs_ok_def bs_clear_def nth_list_update bit_simps split: if_splits)

lemma bs_n_clear [simp]: "bs_n (bs_clear i b) = bs_n b"
  by (simp add: bs_clear_def)

lemma bs_get_clear:
  assumes "bs_ok b"
  shows "bs_get (bs_clear (int j) b) (int i) \<longleftrightarrow> bs_get b (int i) \<and> i \<noteq> j"
proof (cases "j < bs_n b")
  case True
  have d: "nat (int j div 64) = j div 64" "nat (int j mod 64) = j mod 64"
    by (simp_all add: nat_div_distrib nat_mod_distrib)
  have "i = j \<longleftrightarrow> i div 64 = j div 64 \<and> i mod 64 = j mod 64" by (metis div_mult_mod_eq)
  with True assms word_index[of "words b" "bs_n b" j] show ?thesis
    by (auto simp: bs_get_nat bs_clear_def d nth_list_update bit_simps bs_ok_def)
next
  case False
  then show ?thesis by (auto simp: bs_clear_def bs_get_nat)
qed

lemma words_split:
  fixes n :: nat
  obtains (full) k where "n = 64 * k" "(n + 63) div 64 = k" "n mod 64 = 0"
  | (part) k r where "n = 64 * k + r" "0 < r" "r < 64" "(n + 63) div 64 = Suc k" "n mod 64 = r"
proof -
  define k r where "k = n div 64" and "r = n mod 64"
  have n: "n = 64 * k + r" "r < 64" by (simp_all add: k_def r_def)
  show thesis
  proof (cases "r = 0")
    case False
    have "n + 63 = (r - 1) + 64 * Suc k" using False n by simp
    then have d: "(n + 63) div 64 = Suc k" using n(2) by simp
    have "0 < r" using False by simp
    then show thesis by (rule part[OF n(1) _ n(2) d r_def[symmetric]])
  next
    case True
    have nk: "n = 64 * k" using n(1) unfolding True add_0_right .
    have "(64 * k + 63) div 64 = k" by simp
    then have "(n + 63) div 64 = k" by (simp only: nk)
    moreover have "n mod 64 = 0" using True by (simp only: r_def)
    ultimately show thesis by (rule full[OF nk])
  qed
qed

lemma words_cover: "n \<le> 64 * ((n + 63) div 64)" for n :: nat
  by (cases n rule: words_split) simp_all

lemma setAll_bit:
  assumes "i < 64 * ((n + 63) div 64)"
  shows "bit (words (setAll (newBitset n)) ! (i div 64)) (i mod 64) \<longleftrightarrow> i < n"
proof (cases n rule: words_split)
  case (full k)
  then have "i div 64 < k" using assms by (simp add: less_mult_imp_div_less mult.commute)
  with full assms show ?thesis by (simp add: setAll_def newBitset_def bit_simps Let_def)
next
  case (part k r)
  have lt: "i div 64 < Suc k" using assms part by (simp add: less_mult_imp_div_less mult.commute)
  have w: "words (setAll (newBitset n)) ! j = (if j = k then 2 ^ r - 1 else NOT 0)" if "j < Suc k" for j
    using that part by (simp add: setAll_def newBitset_def Let_def nth_list_update map_replicate_const del: replicate_Suc)
  have i: "i = 64 * (i div 64) + i mod 64" by simp
  show ?thesis
  proof (cases "i div 64 = k")
    case True
    then have "i < n \<longleftrightarrow> i mod 64 < r" using i part(1) by linarith
    moreover have "bit (2 ^ r - 1 :: u64) (i mod 64) \<longleftrightarrow> i mod 64 < r"
      by (simp add: bit_mask_iff flip: mask_eq_exp_minus_1)
    ultimately show ?thesis using True w[OF lt] by simp
  next
    case False
    then have "i div 64 < k" using lt by simp
    then have "i < 64 * k" by (simp add: div_less_iff_less_mult mult.commute)
    then show ?thesis using False w[OF lt] part by (simp add: bit_simps)
  qed
qed

lemma setAll_ok: "bs_ok (setAll (newBitset n))" "bs_n (setAll (newBitset n)) = n"
  "bs_get (setAll (newBitset n)) (int i) \<longleftrightarrow> i < n"
proof -
  have n: "bs_n (setAll (newBitset n)) = n" "length (words (setAll (newBitset n))) = (n + 63) div 64"
    by (simp_all add: setAll_def newBitset_def Let_def)
  then show "bs_n (setAll (newBitset n)) = n" "bs_ok (setAll (newBitset n))"
    using setAll_bit[of _ n] by (auto simp: bs_ok_def)
  have "i < 64 * ((n + 63) div 64)" if "i < n" using that words_cover[of n] by simp
  then show "bs_get (setAll (newBitset n)) (int i) \<longleftrightarrow> i < n"
    using setAll_bit[of i n] n by (auto simp: bs_get_nat)
qed

lemma count_words:
  "foldl (\<lambda>c w. c + OnesCount64 w) 0 ws = length (filter (\<lambda>i. bit (ws ! (i div 64)) (i mod 64)) [0..<64 * length ws])"
proof (induction ws rule: rev_induct)
  case (snoc w ws)
  let ?n = "64 * length ws"
  have "[0..<64 * length (ws @ [w])] = [0..<?n] @ map (\<lambda>k. ?n + k) [0..<64]"
    using upt_add_eq_append[of 0 ?n 64] map_add_upt[of ?n 64] by (simp add: add.commute)
  moreover have "filter (\<lambda>i. bit ((ws @ [w]) ! (i div 64)) (i mod 64)) [0..<?n] = filter (\<lambda>i. bit (ws ! (i div 64)) (i mod 64)) [0..<?n]"
    by (rule filter_cong) (auto simp: nth_append less_mult_imp_div_less mult.commute)
  moreover have "filter (\<lambda>k. bit ((ws @ [w]) ! ((?n + k) div 64)) ((?n + k) mod 64)) [0..<64] = filter (bit w) [0..<64]"
    by (rule filter_cong) auto
  ultimately show ?case using snoc by (simp add: OnesCount64_def filter_map o_def)
qed simp

lemma bs_count_card:
  assumes "bs_ok b"
  shows "bs_count b = length (filter (\<lambda>i. bs_get b (int i)) [0..<bs_n b])"
proof -
  let ?N = "64 * length (words b)"
  have le: "bs_n b \<le> ?N" using assms words_cover[of "bs_n b"] by (simp add: bs_ok_def)
  have "filter (\<lambda>i. bit (words b ! (i div 64)) (i mod 64)) [0..<?N] = filter (\<lambda>i. bs_get b (int i)) [0..<?N]"
    using assms by (intro filter_cong) (auto simp: bs_get_nat bs_ok_def)
  also have "\<dots> = filter (\<lambda>i. bs_get b (int i)) ([0..<bs_n b] @ [bs_n b..<?N])"
    using le by (metis le_add_diff_inverse upt_add_eq_append zero_le)
  also have "\<dots> = filter (\<lambda>i. bs_get b (int i)) [0..<bs_n b]"
    by (auto simp: bs_get_nat filter_empty_conv)
  finally show ?thesis by (simp add: bs_count_def count_words)
qed

end
