(* ===== verification/Quantize.thy ===== *)
theory Quantize
  imports Vectors Bitset
begin

text \<open>
  \<open>vector/quantize\<close>: the compression codecs, over the reals. A slice expression or index past the end panics, \<open>None\<close>; slices
  have no spare capacity.
\<close>

subsection \<open>Scalar\<close>

record Scalar =
  sc_min :: "real list"
  sc_scale :: "real list"

text \<open>The observed range of a dimension; \<open>None\<close> is the initial one, from plus to minus infinity.\<close>

definition widen :: "(real \<times> real) option \<Rightarrow> real \<Rightarrow> (real \<times> real) option" where
  "widen r x = (case r of None \<Rightarrow> Some (x, x)
     | Some (lo, hi) \<Rightarrow> Some (if x < lo then x else lo, if x > hi then x else hi))"

definition widen_all :: "(real \<times> real) option list option \<Rightarrow> Vector \<Rightarrow> (real \<times> real) option list option" where
  "widen_all rs v =
     (case rs of None \<Rightarrow> None
      | Some rs \<Rightarrow> if length v > length rs then None
          else Some (map2 widen (take (length v) rs) v @ drop (length v) rs))"

text \<open>The first vector has a value in every dimension, so that no range is left at its initial value.\<close>

definition TrainScalar :: "Vector list \<Rightarrow> Scalar option" where
  "TrainScalar sample =
     (if length sample = 0 then Some \<lparr>sc_min = [], sc_scale = []\<rparr>
      else case foldl widen_all (Some (replicate (length (sample ! 0)) None)) sample of None \<Rightarrow> None
           | Some rs \<Rightarrow> Some \<lparr>sc_min = map (\<lambda>r. case r of Some (lo, hi) \<Rightarrow> lo | None \<Rightarrow> 0) rs,
               sc_scale = map (\<lambda>r. case r of Some (lo, hi) \<Rightarrow> if hi > lo then (hi - lo) / 254 else 0 | None \<Rightarrow> 0) rs\<rparr>)"

definition Scalar_Dim :: "Scalar \<Rightarrow> nat" where "Scalar_Dim s = length (sc_min s)"

text \<open>\<open>math.Round\<close>, and the conversion to \<open>int32\<close>: outside the range of the type its value is up to the implementation, the
  argument \<open>oor\<close>.\<close>

definition go_round :: "real \<Rightarrow> int" where
  "go_round x = (if x \<ge> 0 then \<lfloor>x + 1 / 2\<rfloor> else \<lceil>x - 1 / 2\<rceil>)"

definition to_int32 :: "(int \<Rightarrow> u32) \<Rightarrow> int \<Rightarrow> u32" where
  "to_int32 oor z = (if - (2 ^ 31) \<le> z \<and> z < 2 ^ 31 then word_of_int z else oor z)"

definition encode_dim :: "(int \<Rightarrow> u32) \<Rightarrow> real \<Rightarrow> real \<Rightarrow> real \<Rightarrow> int" where
  "encode_dim oor mn sc x =
     (if sc = 0 then 0
      else let q = to_int32 oor (go_round ((x - mn) / sc)); q = q - 127
           in if sint q > 127 then 127 else if sint q < - 127 then - 127 else sint q)"

definition Scalar_Encode :: "(int \<Rightarrow> u32) \<Rightarrow> Scalar \<Rightarrow> Vector \<Rightarrow> int list option" where
  "Scalar_Encode oor s v =
     (if length v > Scalar_Dim s then None
      else Some (map (\<lambda>d. encode_dim oor (sc_min s ! d) (sc_scale s ! d) (v ! d)) [0..<length v]))"

definition decode_dim :: "Scalar \<Rightarrow> nat \<Rightarrow> int \<Rightarrow> real" where
  "decode_dim s d c = sc_min s ! d + (real_of_int c + 127) * sc_scale s ! d"

definition Scalar_Decode :: "Scalar \<Rightarrow> int list \<Rightarrow> Vector option" where
  "Scalar_Decode s code =
     (if length code > Scalar_Dim s then None else Some (map (\<lambda>d. decode_dim s d (code ! d)) [0..<length code]))"

definition Scalar_Distance :: "Scalar \<Rightarrow> Vector \<Rightarrow> int list \<Rightarrow> real option" where
  "Scalar_Distance s query code =
     (if length code > Scalar_Dim s \<or> length code > length query then None
      else Some (foldl (\<lambda>t d. let diff = query ! d - decode_dim s d (code ! d) in t + diff * diff) 0 [0..<length code]))"

subsection \<open>Product quantization\<close>

text \<open>A codebook of \<open>ksize\<close> rows of \<open>sub\<close> floats is the list of its rows.\<close>

definition ksize :: nat where "ksize = 256"

record PQ =
  pq_m :: nat
  pq_sub :: nat
  pq_dim :: nat
  pq_books :: "Vector list list"

definition seg :: "nat \<Rightarrow> nat \<Rightarrow> Vector \<Rightarrow> Vector" where
  "seg off sub v = take sub (drop off v)"

definition l2subsq :: "Vector \<Rightarrow> Vector \<Rightarrow> real" where
  "l2subsq a b = foldl (\<lambda>s i. let d = a ! i - b ! i in s + d * d) 0 [0..<length a]"

text \<open>The scan for the nearest of the first \<open>k\<close> rows; \<open>None\<close> is the initial distance, infinity.\<close>

definition nearer :: "Vector \<Rightarrow> Vector list \<Rightarrow> nat \<times> real option \<Rightarrow> nat \<Rightarrow> nat \<times> real option" where
  "nearer x book = (\<lambda>(best, bestD) c. let d = l2subsq x (book ! c)
     in if (case bestD of None \<Rightarrow> True | Some b \<Rightarrow> d < b) then (c, Some d) else (best, bestD))"

definition nearest :: "Vector \<Rightarrow> Vector list \<Rightarrow> nat \<Rightarrow> nat" where
  "nearest x book k = fst (foldl (nearer x book) (0, None) [0..<k])"

definition init_book :: "Vector list \<Rightarrow> nat list \<Rightarrow> nat \<Rightarrow> Vector list" where
  "init_book segs perm k = map (\<lambda>c. segs ! (perm ! min c (k - 1))) [0..<ksize]"

definition members :: "nat list \<Rightarrow> nat \<Rightarrow> nat list" where
  "members asg c = filter (\<lambda>i. asg ! i = c) [0..<length asg]"

definition update_row :: "Vector list \<Rightarrow> nat list \<Rightarrow> nat \<Rightarrow> Vector list \<Rightarrow> nat \<Rightarrow> Vector" where
  "update_row segs asg sub book c =
     (let cnt = length (members asg c)
      in if cnt = 0 then book ! c
         else let inv = 1 / real cnt
              in map (\<lambda>d. foldl (\<lambda>s i. s + segs ! i ! d) 0 (members asg c) * inv) [0..<sub])"

fun lloyd :: "nat \<Rightarrow> Vector list \<Rightarrow> nat \<Rightarrow> nat \<Rightarrow> Vector list \<Rightarrow> nat list \<Rightarrow> Vector list" where
  "lloyd 0 segs sub k book asg = book"
| "lloyd (Suc n) segs sub k book asg =
     (let asg' = map (\<lambda>x. nearest x book k) segs;
          book' = map (\<lambda>c. if c < k then update_row segs asg' sub book c else book ! c) [0..<ksize]
      in if asg' = asg then book' else lloyd n segs sub k book' asg')"

definition trainSubspace :: "Vector list \<Rightarrow> nat \<Rightarrow> nat \<Rightarrow> int \<Rightarrow> nat list \<Rightarrow> Vector list" where
  "trainSubspace sample off sub iters perm =
     (let k = min ksize (length sample); segs = map (seg off sub) sample
      in lloyd (nat iters) segs sub k (init_book segs perm k) (replicate (length sample) 0))"

datatype pq_error = EmptySample | NotDivisible

text \<open>The generator's permutations are an argument, one per subspace. Without iterations only the vectors that seed a centroid
  are read.\<close>

definition touched :: "Vector list \<Rightarrow> nat \<Rightarrow> int \<Rightarrow> nat list list \<Rightarrow> Vector list" where
  "touched sample m iters perms =
     (if iters > 0 then sample
      else concat (map (\<lambda>s. map (\<lambda>c. sample ! (perms ! s ! c)) [0..<min ksize (length sample)]) [0..<m]))"

definition TrainPQ :: "Vector list \<Rightarrow> int \<Rightarrow> int \<Rightarrow> nat list list \<Rightarrow> (pq_error + PQ) option" where
  "TrainPQ sample m iters perms =
     (if length sample = 0 then Some (Inl EmptySample)
      else let dm = length (sample ! 0)
           in if m \<le> 0 \<or> int dm mod m \<noteq> 0 then Some (Inl NotDivisible)
              else let sub = dm div nat m
                   in if list_ex (\<lambda>v. length v < dm) (touched sample (nat m) iters perms) then None
                      else Some (Inr \<lparr>pq_m = nat m, pq_sub = sub, pq_dim = dm,
                             pq_books = map (\<lambda>s. trainSubspace sample (s * sub) sub iters (perms ! s)) [0..<nat m]\<rparr>))"

definition PQ_Encode :: "PQ \<Rightarrow> Vector \<Rightarrow> byte list option" where
  "PQ_Encode pq v =
     (if length v < pq_m pq * pq_sub pq then None
      else Some (map (\<lambda>s. of_nat (nearest (seg (s * pq_sub pq) (pq_sub pq) v) (pq_books pq ! s) ksize)) [0..<pq_m pq]))"

definition PQ_Decode :: "PQ \<Rightarrow> byte list \<Rightarrow> Vector option" where
  "PQ_Decode pq code =
     (if length code > pq_m pq then None
      else Some (concat (map (\<lambda>s. pq_books pq ! s ! unat (code ! s)) [0..<length code]) @
             replicate (pq_dim pq - length code * pq_sub pq) 0))"

definition NewADC :: "PQ \<Rightarrow> Vector \<Rightarrow> real list option" where
  "NewADC pq q =
     (if length q < pq_m pq * pq_sub pq then None
      else Some (concat (map (\<lambda>s. map (\<lambda>c. l2subsq (seg (s * pq_sub pq) (pq_sub pq) q) (pq_books pq ! s ! c)) [0..<ksize]) [0..<pq_m pq])))"

definition ADC_Distance :: "real list \<Rightarrow> byte list \<Rightarrow> real option" where
  "ADC_Distance table code =
     foldl (\<lambda>acc s. case acc of None \<Rightarrow> None
              | Some t \<Rightarrow> let i = s * ksize + unat (code ! s) in if i < length table then Some (t + table ! i) else None)
       (Some 0) [0..<length code]"

subsection \<open>Binary\<close>

record Binary =
  threshold :: "real list"

definition TrainBinary :: "Vector list \<Rightarrow> nat \<Rightarrow> Binary option" where
  "TrainBinary sample dm =
     (if list_ex (\<lambda>v. length v < dm) sample then None
      else Some \<lparr>threshold =
        (if length sample > 0
         then map (\<lambda>d. foldl (\<lambda>t v. t + v ! d) 0 sample * (1 / real (length sample))) [0..<dm]
         else replicate dm 0)\<rparr>)"

definition Binary_Dim :: "Binary \<Rightarrow> nat" where "Binary_Dim b = length (threshold b)"

definition CodeLen :: "Binary \<Rightarrow> nat" where "CodeLen b = (length (threshold b) + 7) div 8"

definition set_code_bit :: "byte list \<Rightarrow> nat \<Rightarrow> byte list" where
  "set_code_bit out d = out[d div 8 := out ! (d div 8) OR push_bit (d mod 8) 1]"

definition Binary_Encode :: "Binary \<Rightarrow> Vector \<Rightarrow> byte list option" where
  "Binary_Encode b v =
     (if length v < Binary_Dim b then None
      else Some (foldl (\<lambda>out d. if v ! d > threshold b ! d then set_code_bit out d else out) (replicate (CodeLen b) 0) [0..<Binary_Dim b]))"

definition le64 :: "byte list \<Rightarrow> u64" where
  "le64 b = ucast (b ! 0) OR push_bit 8 (ucast (b ! 1)) OR push_bit 16 (ucast (b ! 2)) OR push_bit 24 (ucast (b ! 3)) OR
     push_bit 32 (ucast (b ! 4)) OR push_bit 40 (ucast (b ! 5)) OR push_bit 48 (ucast (b ! 6)) OR push_bit 56 (ucast (b ! 7))"

definition OnesCount8 :: "byte \<Rightarrow> nat" where "OnesCount8 w = length (filter (bit w) [0..<8])"

function hamming_loop :: "byte list \<Rightarrow> byte list \<Rightarrow> nat \<Rightarrow> nat \<Rightarrow> nat option" where
  "hamming_loop a c i d =
     (if i + 8 \<le> length a
      then if i + 8 \<le> length c then hamming_loop a c (i + 8) (d + OnesCount64 (le64 (drop i a) XOR le64 (drop i c))) else None
      else if i < length a
      then if i < length c then hamming_loop a c (i + 1) (d + OnesCount8 (a ! i XOR c ! i)) else None
      else Some d)"
  by pat_completeness auto
termination by (relation "measure (\<lambda>(a, c, i, d). length a - i)") auto

declare hamming_loop.simps [simp del]

definition Binary_Distance :: "byte list \<Rightarrow> byte list \<Rightarrow> nat option" where
  "Binary_Distance a c = hamming_loop a c 0 0"

subsection \<open>The scalar codec\<close>

lemma sint_word: "- (2 ^ 31) \<le> z \<Longrightarrow> z < 2 ^ 31 \<Longrightarrow> sint (word_of_int z :: u32) = z"
  by (simp add: signed_of_int signed_take_bit_int_eq_self)

lemma go_round_near: "\<bar>real_of_int (go_round x) - x\<bar> \<le> 1 / 2"
  unfolding go_round_def abs_le_iff by (auto; linarith)

lemma go_round_mono: "x \<le> y \<Longrightarrow> go_round x \<le> go_round y"
  unfolding go_round_def by (auto; linarith)

lemma go_round_int [simp]: "go_round (real_of_int z) = z"
  using go_round_near[of "real_of_int z"] by linarith

text \<open>Inside the range of \<open>int32\<close> the code is the rounded step number, recentred and clamped to the ends of the range.\<close>

lemma encode_dim_clamp:
  assumes "sc \<noteq> 0" "- (2 ^ 31) + 127 \<le> go_round ((x - mn) / sc)" "go_round ((x - mn) / sc) < 2 ^ 31"
  shows "encode_dim oor mn sc x = max (- 127) (min 127 (go_round ((x - mn) / sc) - 127))"
proof -
  define z where "z = go_round ((x - mn) / sc)"
  have "to_int32 oor z - 127 = word_of_int (z - 127)" using assms(2,3) by (simp add: to_int32_def z_def)
  then have "sint (to_int32 oor z - 127) = z - 127" using assms(2,3) sint_word[of "z - 127"] by (simp only: z_def[symmetric])
  then show ?thesis using assms(1) by (simp add: encode_dim_def z_def[symmetric] Let_def)
qed

text \<open>Below that, the recentring wraps and the value saturates at the wrong end.\<close>

lemma encode_dim_wraps:
  assumes "sc \<noteq> 0" "go_round ((x - mn) / sc) = - (2 ^ 31) + k" "0 \<le> k" "k < 127"
  shows "encode_dim oor mn sc x = 127"
proof -
  define z where "z = go_round ((x - mn) / sc)"
  have "to_int32 oor z - 127 = word_of_int (z - 127 + 2 ^ 32)" using assms(2-4) by (simp add: to_int32_def z_def word_of_int_2p_len[where 'a = 32, simplified])
  then have "sint (to_int32 oor z - 127) = z - 127 + 2 ^ 32" using assms(2-4) sint_word[of "z - 127 + 2 ^ 32"] by (simp only: z_def[symmetric]) simp
  then show ?thesis using assms by (simp add: encode_dim_def z_def[symmetric] Let_def)
qed

lemma step_near:
  assumes "0 < sc" "mn \<le> x" "x \<le> mn + 254 * sc"
  shows "- 127 \<le> encode_dim oor mn sc x" "encode_dim oor mn sc x \<le> 127" "\<bar>x - (mn + (real_of_int (encode_dim oor mn sc x) + 127) * sc)\<bar> \<le> sc / 2"
proof -
  let ?y = "(x - mn) / sc"
  have y: "0 \<le> ?y" "?y \<le> 254" using assms by (simp_all add: divide_simps)
  then have z: "0 \<le> go_round ?y" "go_round ?y \<le> 254"
    using go_round_mono[of 0 ?y] go_round_mono[of ?y "real_of_int 254"] go_round_int[of 0] go_round_int[of 254] by auto
  then have e: "encode_dim oor mn sc x = go_round ?y - 127" using encode_dim_clamp[of sc x mn oor] assms(1) by simp
  show "- 127 \<le> encode_dim oor mn sc x" "encode_dim oor mn sc x \<le> 127" using e z by simp_all
  have "\<bar>real_of_int (go_round ?y) - ?y\<bar> * sc \<le> 1 / 2 * sc" using go_round_near[of ?y] assms(1) by (intro mult_right_mono) simp_all
  moreover have "x - (mn + (real_of_int (go_round ?y)) * sc) = - ((real_of_int (go_round ?y) - ?y) * sc)" using assms(1) by (simp add: field_simps)
  ultimately show "\<bar>x - (mn + (real_of_int (encode_dim oor mn sc x) + 127) * sc)\<bar> \<le> sc / 2" using assms(1) by (simp add: e abs_mult)
qed

text \<open>Training covers the sample.\<close>

definition in_box :: "(real \<times> real) option \<Rightarrow> real \<Rightarrow> bool" where
  "in_box r x \<longleftrightarrow> (case r of None \<Rightarrow> False | Some (lo, hi) \<Rightarrow> lo \<le> x \<and> x \<le> hi)"

lemma widen_box: "in_box (widen r x) x" "in_box r y \<Longrightarrow> in_box (widen r x) y"
  by (auto simp: in_box_def widen_def split: option.splits)

lemma widen_all_Some:
  assumes "widen_all (Some rs) v = Some rs'"
  shows "length rs' = length rs" "length v \<le> length rs" "d < length v \<Longrightarrow> rs' ! d = widen (rs ! d) (v ! d)" "length v \<le> d \<Longrightarrow> rs' ! d = rs ! d"
  using assms by (auto simp: widen_all_def nth_append split: if_splits)

lemma foldl_widen_None [simp]: "foldl widen_all None vs = None"
  by (induction vs) (simp_all add: widen_all_def)

lemma foldl_widen:
  assumes "foldl widen_all (Some rs) vs = Some rs'"
  shows "length rs' = length rs \<and> (\<forall>v \<in> set vs. length v \<le> length rs) \<and> (\<forall>d x. in_box (rs ! d) x \<longrightarrow> in_box (rs' ! d) x) \<and>
    (\<forall>v \<in> set vs. \<forall>d < length v. in_box (rs' ! d) (v ! d))"
  using assms
proof (induction vs arbitrary: rs)
  case (Cons v vs)
  obtain r1 where r1: "widen_all (Some rs) v = Some r1" using Cons.prems by (cases "widen_all (Some rs) v") auto
  note w = widen_all_Some[OF r1]
  have IH: "length rs' = length r1" "\<forall>v \<in> set vs. length v \<le> length r1" "\<And>d x. in_box (r1 ! d) x \<Longrightarrow> in_box (rs' ! d) x"
    "\<forall>v \<in> set vs. \<forall>d < length v. in_box (rs' ! d) (v ! d)" using Cons.IH[of r1] Cons.prems r1 by auto
  have mono: "in_box (r1 ! d) x" if "in_box (rs ! d) x" for d x
    using that w(3,4)[of d] widen_box(2) by (cases "d < length v") auto
  have "in_box (r1 ! d) (v ! d)" if "d < length v" for d using w(3)[OF that] widen_box(1) by simp
  then show ?case using IH w(1,2) mono by auto
qed simp

lemma TrainScalar_box:
  assumes "TrainScalar sample = Some s" "v \<in> set sample" "d < length v"
  shows "length v \<le> Scalar_Dim s" "length (sc_scale s) = Scalar_Dim s" "0 \<le> sc_scale s ! d" "sc_min s ! d \<le> v ! d" "v ! d \<le> sc_min s ! d + 254 * sc_scale s ! d"
proof -
  have ne: "length sample \<noteq> 0" using assms(2) by auto
  obtain rs where f: "foldl widen_all (Some (replicate (length (sample ! 0)) None)) sample = Some rs"
    and s: "s = \<lparr>sc_min = map (\<lambda>r. case r of Some (lo, hi) \<Rightarrow> lo | None \<Rightarrow> 0) rs,
               sc_scale = map (\<lambda>r. case r of Some (lo, hi) \<Rightarrow> if hi > lo then (hi - lo) / 254 else 0 | None \<Rightarrow> 0) rs\<rparr>"
    using assms(1) ne by (auto simp: TrainScalar_def split: option.splits)
  have b: "length rs = length (sample ! 0)" "\<forall>v \<in> set sample. length v \<le> length (sample ! 0)" "in_box (rs ! d) (v ! d)"
    using foldl_widen[OF f] assms(2,3) by auto
  then have d: "d < length rs" "length v \<le> length rs" using assms(2,3) by auto
  then show "length v \<le> Scalar_Dim s" "length (sc_scale s) = Scalar_Dim s" by (simp_all add: s Scalar_Dim_def)
  obtain lo hi where "rs ! d = Some (lo, hi)" "lo \<le> v ! d" "v ! d \<le> hi" using b(3) by (auto simp: in_box_def split: option.splits)
  then show "0 \<le> sc_scale s ! d" "sc_min s ! d \<le> v ! d" "v ! d \<le> sc_min s ! d + 254 * sc_scale s ! d" using d by (auto simp: s field_simps)
qed

text \<open>Scalar quantization of a vector of the training sample is within half a step in every dimension, its codes stay in the
  symmetric byte range, and the approximate distance is exactly that to the reconstructed vector.\<close>

theorem Scalar_half_step:
  assumes "TrainScalar sample = Some s" "v \<in> set sample"
  shows "\<exists>code w. Scalar_Encode oor s v = Some code \<and> list_all (\<lambda>c. - 127 \<le> c \<and> c \<le> 127) code \<and>
    Scalar_Decode s code = Some w \<and> length w = length v \<and> (\<forall>d < length v. \<bar>v ! d - w ! d\<bar> \<le> sc_scale s ! d / 2) \<and>
    (\<forall>q. length q = length v \<longrightarrow> Scalar_Distance s q code = Distance L2 q w)"
proof -
  have len: "length v \<le> Scalar_Dim s"
  proof (cases "length v = 0")
    case False
    then show ?thesis using TrainScalar_box(1)[OF assms, of 0] by simp
  qed simp
  define code where "code = map (\<lambda>d. encode_dim oor (sc_min s ! d) (sc_scale s ! d) (v ! d)) [0..<length v]"
  define w where "w = map (\<lambda>d. decode_dim s d (code ! d)) [0..<length code]"
  have c: "- 127 \<le> encode_dim oor (sc_min s ! d) (sc_scale s ! d) (v ! d) \<and> encode_dim oor (sc_min s ! d) (sc_scale s ! d) (v ! d) \<le> 127 \<and>
      \<bar>v ! d - w ! d\<bar> \<le> sc_scale s ! d / 2" if d: "d < length v" for d
  proof (cases "sc_scale s ! d = 0")
    case True
    then have "v ! d = sc_min s ! d" "encode_dim oor (sc_min s ! d) (sc_scale s ! d) (v ! d) = 0" using TrainScalar_box[OF assms d] by (auto simp: encode_dim_def)
    then show ?thesis using d True by (simp add: w_def code_def decode_dim_def)
  next
    case False
    then show ?thesis using step_near[of "sc_scale s ! d" "sc_min s ! d" "v ! d" oor] TrainScalar_box[OF assms d] d
      by (simp add: w_def code_def decode_dim_def)
  qed
  have "Scalar_Distance s q code = Distance L2 q w" if "length q = length v" for q
    using that len by (auto simp: Scalar_Distance_def Distance_def l2sq_def w_def code_def Let_def intro!: foldl_cong)
  then show ?thesis using len c
    by (intro exI[of _ code] exI[of _ w]) (auto simp: Scalar_Encode_def Scalar_Decode_def code_def[symmetric] w_def[symmetric] list_all_length, auto simp: code_def w_def)
qed

theorem Scalar_half_step_witness:
  "\<exists>s code. TrainScalar [[0], [254]] = Some s \<and> Scalar_Encode (\<lambda>_. 0) s [254] = Some code \<and> list_all (\<lambda>c. - 127 \<le> c \<and> c \<le> 127) code"
proof -
  have t: "TrainScalar [[0], [254]] = Some \<lparr>sc_min = [0], sc_scale = [1]\<rparr>" by (simp add: TrainScalar_def widen_all_def widen_def)
  show ?thesis using Scalar_half_step[OF t, of "[254]" "\<lambda>_. 0"] t by auto
qed

subsection \<open>The product quantizer\<close>

lemma l2subsq_eq: "l2subsq a b = sqdist a b"
  by (simp add: l2subsq_def sqdist_def Let_def foldl_sum power2_eq_square)

lemma nearest_spec:
  assumes "0 < k"
  shows "nearest x book k < k" "c < k \<Longrightarrow> sqdist x (book ! nearest x book k) \<le> sqdist x (book ! c)"
proof -
  define f where "f n = foldl (nearer x book) (0, None) [0..<n]" for n
  have "fst (f (Suc n)) < Suc n \<and> snd (f (Suc n)) = Some (sqdist x (book ! fst (f (Suc n)))) \<and>
      (\<forall>c < Suc n. sqdist x (book ! fst (f (Suc n))) \<le> sqdist x (book ! c))" for n
  proof (induction n)
    case (Suc n)
    define b where "b = fst (f (Suc n))"
    have fn: "f (Suc n) = (b, Some (sqdist x (book ! b)))" and b: "b < Suc n" "\<forall>c < Suc n. sqdist x (book ! b) \<le> sqdist x (book ! c)"
      using Suc by (simp_all add: b_def prod_eq_iff)
    have "f (Suc (Suc n)) = nearer x book (f (Suc n)) (Suc n)" by (simp add: f_def)
    then have "f (Suc (Suc n)) = (if sqdist x (book ! Suc n) < sqdist x (book ! b) then (Suc n, Some (sqdist x (book ! Suc n))) else (b, Some (sqdist x (book ! b))))"
      by (simp add: fn nearer_def Let_def l2subsq_eq)
    then show ?case using b by (force simp: less_Suc_eq)
  qed (simp add: f_def nearer_def Let_def l2subsq_eq)
  from this[of "k - 1"] show "nearest x book k < k" "c < k \<Longrightarrow> sqdist x (book ! nearest x book k) \<le> sqdist x (book ! c)"
    using assms by (auto simp: nearest_def f_def)
qed

lemma sum_lessThan_add: "(\<Sum>i < m + n. f i) = (\<Sum>i<m. f i) + (\<Sum>i<n. f (m + i))" for f :: "nat \<Rightarrow> real"
  by (induction n) (simp_all add: add.assoc)

lemma sqdist_append: "length a = length b \<Longrightarrow> sqdist (a @ a') (b @ b') = sqdist a b + sqdist a' b'"
  by (simp add: sqdist_def sum_lessThan_add nth_append)

lemma length_concat_rows: "\<forall>s < m. length (r s) = sub \<Longrightarrow> length (concat (map r [0..<m])) = m * sub"
  by (induction m) (simp_all add: add.commute)

lemma sqdist_concat:
  assumes "length v = m * sub" "\<forall>s < m. length (r s) = sub"
  shows "sqdist v (concat (map r [0..<m])) = (\<Sum>s<m. sqdist (seg (s * sub) sub v) (r s))"
  using assms
proof (induction m arbitrary: v)
  case (Suc m)
  define a b where "a = take (m * sub) v" and "b = drop (m * sub) v"
  have v: "v = a @ b" "length a = m * sub" "length b = sub" using Suc.prems by (simp_all add: a_def b_def)
  have s: "seg (s * sub) sub v = seg (s * sub) sub a" if "s < m" for s
  proof -
    have "s * sub + sub \<le> m * sub" using that by (metis add.commute mult_Suc mult_le_mono1 Suc_leI)
    then show ?thesis using v by (simp add: seg_def)
  qed
  have "seg (m * sub) sub v = b" using v by (simp add: seg_def)
  moreover have "length (concat (map r [0..<m])) = m * sub" using length_concat_rows[of m r sub] Suc.prems(2) by simp
  ultimately show ?case using Suc.IH[of a] Suc.prems(2) v s by (simp add: sqdist_append)
qed (simp add: sqdist_def)

definition pq_ok :: "PQ \<Rightarrow> bool" where
  "pq_ok pq \<longleftrightarrow> pq_dim pq = pq_m pq * pq_sub pq \<and> length (pq_books pq) = pq_m pq \<and>
     (\<forall>s < pq_m pq. \<forall>c < ksize. length (pq_books pq ! s ! c) = pq_sub pq)"

lemma PQ_Decode_eq:
  assumes "pq_ok pq" "length code = pq_m pq"
  shows "PQ_Decode pq code = Some (concat (map (\<lambda>s. pq_books pq ! s ! unat (code ! s)) [0..<pq_m pq]))"
  using assms by (simp add: PQ_Decode_def pq_ok_def)

lemma decode_sqdist:
  assumes "pq_ok pq" "length code = pq_m pq" "length v = pq_dim pq"
  shows "sqdist v (the (PQ_Decode pq code)) = (\<Sum>s < pq_m pq. sqdist (seg (s * pq_sub pq) (pq_sub pq) v) (pq_books pq ! s ! unat (code ! s)))"
  unfolding PQ_Decode_eq[OF assms(1,2)] option.sel using assms unat_byte_less
  by (intro sqdist_concat) (auto simp: pq_ok_def ksize_def)

lemma nth_concat_blocks:
  assumes "\<forall>s < m. length (f s) = n" "s < m" "c < n"
  shows "concat (map f [0..<m]) ! (s * n + c) = f s ! c"
  using assms
proof (induction m)
  case (Suc m)
  have len: "length (concat (map f [0..<m])) = m * n" using length_concat_rows[of m f n] Suc.prems(1) by simp
  show ?case
  proof (cases "s = m")
    case False
    then have "s < m" using Suc.prems by simp
    moreover from this have "s * n + c < m * n" using Suc.prems(3) by (metis add.commute add_less_cancel_right less_le_trans mult_Suc mult_le_mono1 Suc_leI)
    ultimately show ?thesis using Suc len by (simp add: nth_append)
  qed (use Suc.prems len in \<open>simp add: nth_append\<close>)
qed simp

lemma ADC_exact:
  assumes "pq_ok pq" "length q = pq_dim pq" "length code = pq_m pq"
  shows "\<exists>table. NewADC pq q = Some table \<and> ADC_Distance table code = Distance L2 q (the (PQ_Decode pq code))"
proof -
  define f where "f s c = l2subsq (seg (s * pq_sub pq) (pq_sub pq) q) (pq_books pq ! s ! c)" for s c
  define table where "table = concat (map (\<lambda>s. map (f s) [0..<ksize]) [0..<pq_m pq])"
  have at: "s * ksize + unat (code ! s) < length table" "table ! (s * ksize + unat (code ! s)) = f s (unat (code ! s))" if "s < pq_m pq" for s
  proof -
    have "length table = pq_m pq * ksize" unfolding table_def by (rule length_concat_rows) simp
    moreover have c: "unat (code ! s) < ksize" by (simp add: ksize_def)
    moreover have "Suc s * ksize \<le> pq_m pq * ksize" using that by (intro mult_le_mono1) simp
    ultimately show "s * ksize + unat (code ! s) < length table" by simp
    show "table ! (s * ksize + unat (code ! s)) = f s (unat (code ! s))"
      unfolding table_def using that c by (subst nth_concat_blocks[where n = ksize]) simp_all
  qed
  have "foldl (\<lambda>acc s. case acc of None \<Rightarrow> None | Some t \<Rightarrow> let i = s * ksize + unat (code ! s) in if i < length table then Some (t + table ! i) else None)
      (Some 0) [0..<n] = Some (\<Sum>s<n. f s (unat (code ! s)))" if "n \<le> pq_m pq" for n
    using that by (induction n) (simp_all add: at Let_def)
  then have "ADC_Distance table code = Some (\<Sum>s < pq_m pq. f s (unat (code ! s)))" by (simp add: ADC_Distance_def assms(3))
  moreover have "length (the (PQ_Decode pq code)) = length q"
    unfolding PQ_Decode_eq[OF assms(1,3)] option.sel using assms length_concat_rows[of "pq_m pq" "\<lambda>s. pq_books pq ! s ! unat (code ! s)" "pq_sub pq"]
    by (simp add: pq_ok_def ksize_def)
  moreover have "NewADC pq q = Some table" using assms by (simp add: NewADC_def table_def f_def[abs_def] pq_ok_def)
  ultimately show ?thesis using decode_sqdist[OF assms(1,3,2)] by (simp add: Distance_def l2sq_eq f_def l2subsq_eq)
qed

lemma Encode_optimal:
  assumes "pq_ok pq" "length v = pq_dim pq"
  shows "\<exists>code. PQ_Encode pq v = Some code \<and> length code = pq_m pq \<and>
    (\<forall>code'. length code' = pq_m pq \<longrightarrow> sqdist v (the (PQ_Decode pq code)) \<le> sqdist v (the (PQ_Decode pq code')))"
proof -
  define code :: "byte list" where "code = map (\<lambda>s. of_nat (nearest (seg (s * pq_sub pq) (pq_sub pq) v) (pq_books pq ! s) ksize)) [0..<pq_m pq]"
  have len: "length code = pq_m pq" by (simp add: code_def)
  have near: "unat (code ! s) = nearest (seg (s * pq_sub pq) (pq_sub pq) v) (pq_books pq ! s) ksize" if "s < pq_m pq" for s
    using that nearest_spec(1)[of ksize "seg (s * pq_sub pq) (pq_sub pq) v" "pq_books pq ! s"] by (simp add: code_def ksize_def unat_of_nat)
  have "sqdist v (the (PQ_Decode pq code)) \<le> sqdist v (the (PQ_Decode pq code'))" if "length code' = pq_m pq" for code'
    unfolding decode_sqdist[OF assms(1) len assms(2)] decode_sqdist[OF assms(1) that assms(2)]
    by (rule sum_mono) (use near nearest_spec(2)[of ksize] unat_byte_less in \<open>simp add: ksize_def\<close>)
  then show ?thesis using len assms by (intro exI[of _ code]) (simp add: PQ_Encode_def code_def pq_ok_def)
qed

text \<open>The distortion of a codebook: every training segment against its nearest row.\<close>

definition distortion :: "Vector list \<Rightarrow> Vector list \<Rightarrow> nat \<Rightarrow> real" where
  "distortion segs book k = (\<Sum>i < length segs. sqdist (segs ! i) (book ! nearest (segs ! i) book k))"

lemma mean_minimal:
  fixes x :: "nat \<Rightarrow> real"
  assumes "finite A" "A \<noteq> {}" "\<mu> = (\<Sum>i \<in> A. x i) * (1 / real (card A))"
  shows "(\<Sum>i \<in> A. (x i - \<mu>)\<^sup>2) \<le> (\<Sum>i \<in> A. (x i - y)\<^sup>2)"
proof -
  have s: "(\<Sum>i \<in> A. x i) = real (card A) * \<mu>" using assms by (simp add: card_gt_0_iff)
  have "(\<Sum>i \<in> A. (x i - y)\<^sup>2) = (\<Sum>i \<in> A. (x i - \<mu>)\<^sup>2) + (\<mu> - y) * (2 * (\<Sum>i \<in> A. x i) - real (card A) * (\<mu> + y))"
    by (simp add: power2_eq_square algebra_simps sum.distrib sum_subtractf sum_distrib_left[symmetric] sum_distrib_right[symmetric])
  also have "\<dots> = (\<Sum>i \<in> A. (x i - \<mu>)\<^sup>2) + real (card A) * (\<mu> - y)\<^sup>2" unfolding s by (simp add: power2_eq_square algebra_simps)
  finally show ?thesis by simp
qed

lemma foldl_members: "foldl (\<lambda>s i. s + f i) (c::real) (members asg k) = c + (\<Sum>i \<in> set (members asg k). f i)"
proof -
  have "foldl (\<lambda>s i. s + f i) c xs = c + (\<Sum>i \<in> set xs. f i)" if "distinct xs" for xs
    using that by (induction xs arbitrary: c) (simp_all add: add.assoc)
  then show ?thesis by (simp add: members_def)
qed

lemma set_members: "set (members asg c) = {i. i < length asg \<and> asg ! i = c}"
  by (auto simp: members_def)

lemma update_row_length: "length (book ! c) = sub \<Longrightarrow> length (update_row segs asg sub book c) = sub"
  by (simp add: update_row_def Let_def)

lemma update_row_improves:
  assumes "\<forall>i < length asg. length (segs ! i) = sub"
  shows "(\<Sum>i \<in> set (members asg c). sqdist (segs ! i) (update_row segs asg sub book c)) \<le> (\<Sum>i \<in> set (members asg c). sqdist (segs ! i) (book ! c))"
proof (cases "length (members asg c) = 0")
  case False
  let ?A = "set (members asg c)"
  have card: "card ?A = length (members asg c)" by (rule distinct_card) (simp add: members_def)
  define \<mu> where "\<mu> d = (\<Sum>i \<in> ?A. segs ! i ! d) * (1 / real (card ?A))" for d
  have u: "update_row segs asg sub book c = map \<mu> [0..<sub]" using False by (simp add: update_row_def Let_def foldl_members \<mu>_def[abs_def] card)
  have len: "length (segs ! i) = sub" if "i \<in> ?A" for i using that assms by (simp add: set_members)
  have "(\<Sum>i \<in> ?A. sqdist (segs ! i) (update_row segs asg sub book c)) = (\<Sum>i \<in> ?A. \<Sum>d \<in> {..<sub}. (segs ! i ! d - \<mu> d)\<^sup>2)"
    unfolding u by (intro sum.cong refl) (simp add: sqdist_def len)
  also have "\<dots> = (\<Sum>d \<in> {..<sub}. \<Sum>i \<in> ?A. (segs ! i ! d - \<mu> d)\<^sup>2)" by (rule sum.swap)
  also have "\<dots> \<le> (\<Sum>d \<in> {..<sub}. \<Sum>i \<in> ?A. (segs ! i ! d - book ! c ! d)\<^sup>2)"
    by (intro sum_mono mean_minimal) (use False in \<open>simp_all add: \<mu>_def\<close>)
  also have "\<dots> = (\<Sum>i \<in> ?A. \<Sum>d \<in> {..<sub}. (segs ! i ! d - book ! c ! d)\<^sup>2)" by (rule sum.swap)
  also have "\<dots> = (\<Sum>i \<in> ?A. sqdist (segs ! i) (book ! c))" by (intro sum.cong refl) (simp add: sqdist_def len)
  finally show ?thesis .
qed (simp add: update_row_def)

lemma sum_by_cluster:
  fixes f :: "nat \<Rightarrow> nat \<Rightarrow> real"
  assumes "\<forall>i < length asg. asg ! i < k"
  shows "(\<Sum>i < length asg. f i (asg ! i)) = (\<Sum>c<k. \<Sum>i \<in> set (members asg c). f i c)"
proof -
  have "(\<Sum>i < length asg. f i (asg ! i)) = (\<Sum>c \<in> {..<k}. sum (\<lambda>i. f i (asg ! i)) {i \<in> {..<length asg}. asg ! i = c})"
    using assms by (intro sum.group[symmetric]) auto
  also have "\<dots> = (\<Sum>c<k. \<Sum>i \<in> set (members asg c). f i c)"
    by (intro sum.cong refl) (auto simp: set_members)
  finally show ?thesis .
qed

definition lloyd_book :: "Vector list \<Rightarrow> nat \<Rightarrow> nat \<Rightarrow> Vector list \<Rightarrow> Vector list" where
  "lloyd_book segs sub k book =
     map (\<lambda>c. if c < k then update_row segs (map (\<lambda>x. nearest x book k) segs) sub book c else book ! c) [0..<ksize]"

definition rows_ok :: "nat \<Rightarrow> Vector list \<Rightarrow> bool" where
  "rows_ok sub book \<longleftrightarrow> (\<forall>c < ksize. length (book ! c) = sub)"

lemma lloyd_book_rows: "rows_ok sub book \<Longrightarrow> rows_ok sub (lloyd_book segs sub k book)"
  by (simp add: rows_ok_def lloyd_book_def update_row_length)

lemma lloyd_book_improves:
  assumes "\<forall>x \<in> set segs. length x = sub" "0 < k" "k \<le> ksize"
  shows "distortion segs (lloyd_book segs sub k book) k \<le> distortion segs book k"
proof -
  let ?asg = "map (\<lambda>x. nearest x book k) segs" and ?book = "lloyd_book segs sub k book"
  have a: "\<forall>i < length ?asg. ?asg ! i < k" using nearest_spec(1)[OF assms(2)] by simp
  have l: "\<forall>i < length ?asg. length (segs ! i) = sub" using assms(1) by simp
  have "distortion segs ?book k \<le> (\<Sum>i < length ?asg. sqdist (segs ! i) (?book ! (?asg ! i)))"
    unfolding distortion_def by (simp, rule sum_mono) (use nearest_spec(1)[OF assms(2)] in \<open>auto intro: nearest_spec(2)[OF assms(2)]\<close>)
  also have "\<dots> = (\<Sum>c<k. \<Sum>i \<in> set (members ?asg c). sqdist (segs ! i) (?book ! c))" by (rule sum_by_cluster[OF a, of "\<lambda>i c. sqdist (segs ! i) (?book ! c)"])
  also have "\<dots> \<le> (\<Sum>c<k. \<Sum>i \<in> set (members ?asg c). sqdist (segs ! i) (book ! c))"
  proof (rule sum_mono)
    fix c assume "c \<in> {..<k}"
    then have "?book ! c = update_row segs ?asg sub book c" using assms(3) by (simp add: lloyd_book_def)
    then show "(\<Sum>i \<in> set (members ?asg c). sqdist (segs ! i) (?book ! c)) \<le> (\<Sum>i \<in> set (members ?asg c). sqdist (segs ! i) (book ! c))"
      using update_row_improves[OF l, of book c] by simp
  qed
  also have "\<dots> = (\<Sum>i < length ?asg. sqdist (segs ! i) (book ! (?asg ! i)))" by (rule sum_by_cluster[OF a, of "\<lambda>i c. sqdist (segs ! i) (book ! c)", symmetric])
  also have "\<dots> = distortion segs book k" by (simp add: distortion_def)
  finally show ?thesis .
qed

lemma lloyd_unfold: "lloyd (Suc n) segs sub k book asg =
    (let asg' = map (\<lambda>x. nearest x book k) segs in if asg' = asg then lloyd_book segs sub k book else lloyd n segs sub k (lloyd_book segs sub k book) asg')"
  by (simp add: lloyd_book_def Let_def)

lemma lloyd_rows: "rows_ok sub book \<Longrightarrow> rows_ok sub (lloyd n segs sub k book asg)"
  by (induction n arbitrary: book asg) (simp_all add: lloyd_unfold Let_def lloyd_book_rows del: lloyd.simps(2))

lemma lloyd_improves:
  assumes "\<forall>x \<in> set segs. length x = sub" "0 < k" "k \<le> ksize" "n \<le> n'"
  shows "distortion segs (lloyd n' segs sub k book asg) k \<le> distortion segs (lloyd n segs sub k book asg) k"
  using assms(4)
proof (induction n' arbitrary: n book asg)
  case (Suc n')
  show ?case
  proof (cases n)
    case 0
    have "distortion segs (lloyd n' segs sub k (lloyd_book segs sub k book) a) k \<le> distortion segs book k" for a
      using Suc.IH[of 0 "lloyd_book segs sub k book" a] lloyd_book_improves[OF assms(1-3), of book] by simp
    then show ?thesis using 0 lloyd_book_improves[OF assms(1-3), of book] by (simp add: lloyd_unfold Let_def del: lloyd.simps(2))
  next
    case (Suc m)
    then show ?thesis using Suc.IH[of m] Suc.prems by (simp add: lloyd_unfold Let_def del: lloyd.simps(2))
  qed
qed simp

lemma init_rows:
  assumes "\<forall>x \<in> set segs. length x = sub" "segs \<noteq> []" "mset perm = mset [0..<length segs]"
  shows "rows_ok sub (init_book segs perm (min ksize (length segs)))"
proof -
  let ?k = "min ksize (length segs)"
  have len: "length perm = length segs" using arg_cong[OF assms(3), of size] by simp
  have "segs ! (perm ! min c (?k - 1)) \<in> set segs" for c
  proof -
    have "0 < ?k" using assms(2) by (simp add: ksize_def)
    moreover have "min c (?k - 1) \<le> ?k - 1" "?k \<le> length perm" by (simp_all add: len)
    ultimately have "min c (?k - 1) < length perm" by linarith
    then have "perm ! min c (?k - 1) \<in> set perm" by (rule nth_mem)
    moreover have "set perm = {0..<length segs}" using arg_cong[OF assms(3), of set_mset] by simp
    ultimately show ?thesis by simp
  qed
  then show ?thesis using assms(1) by (simp add: rows_ok_def init_book_def)
qed

text \<open>Training on vectors of one dimension never panics; it refuses an empty sample and a dimension the subspaces do not divide.\<close>

lemma TrainPQ_ok:
  assumes "sample \<noteq> []" "\<forall>v \<in> set sample. length v = dm" "0 < m" "int dm mod m = 0"
    "length perms = nat m" "\<forall>p \<in> set perms. mset p = mset [0..<length sample]"
  shows "\<exists>pq. TrainPQ sample m iters perms = Some (Inr pq) \<and> pq_ok pq \<and> pq_dim pq = dm \<and> pq_m pq = nat m"
proof -
  have d: "length (sample ! 0) = dm" using assms(1,2) by simp
  obtain mn where m: "m = int mn" "0 < mn" using assms(3) zero_less_imp_eq_int by blast
  then have dv: "dm = mn * (dm div mn)" using assms(4) by (metis dvd_mult_div_cancel mod_0_imp_dvd of_nat_eq_0_iff zmod_int)
  have tch: "\<forall>v \<in> set (touched sample mn iters perms). length v = dm"
  proof
    fix v assume v: "v \<in> set (touched sample mn iters perms)"
    have "sample ! (perms ! s ! c) \<in> set sample" if "s < mn" "c < length sample" for s c
    proof -
      have p: "mset (perms ! s) = mset [0..<length sample]" using assms(5,6) that(1) m(1) by simp
      have "c < length (perms ! s)" using that(2) arg_cong[OF p, of size] by simp
      then have "perms ! s ! c \<in> set (perms ! s)" by simp
      then show ?thesis using arg_cong[OF p, of set_mset] by simp
    qed
    then have "v \<in> set sample" using v by (auto simp: touched_def split: if_splits)
    then show "length v = dm" using assms(2) by simp
  qed
  define sub where "sub = dm div mn"
  have "rows_ok sub (trainSubspace sample (s * sub) sub iters (perms ! s))" if "s < mn" for s
  proof -
    have "s * sub + sub \<le> dm" using that dv by (metis Suc_leI add.commute mult_Suc mult_le_mono1 sub_def)
    then have "\<forall>x \<in> set (map (seg (s * sub) sub) sample). length x = sub" using assms(2) by (auto simp: seg_def)
    moreover have "mset (perms ! s) = mset [0..<length (map (seg (s * sub) sub) sample)]" using assms(5,6) that m(1) by simp
    ultimately have "rows_ok sub (init_book (map (seg (s * sub) sub) sample) (perms ! s) (min ksize (length sample)))"
      using init_rows[of "map (seg (s * sub) sub) sample" sub "perms ! s"] assms(1) by simp
    then show ?thesis unfolding trainSubspace_def Let_def by (rule lloyd_rows)
  qed
  then show ?thesis using assms(1,3,4) d tch dv m
    by (auto simp: TrainPQ_def Let_def pq_ok_def rows_ok_def sub_def[symmetric] list_ex_iff)
qed

text \<open>C40: Product quantization on a trained codebook: a vector's code reconstructs the nearest vector that any code reconstructs, the
  table of a query gives exactly the Euclidean distance to the reconstruction, and more training iterations never increase the
  distortion of a codebook on its sample.\<close>

theorem PQ_optimal:
  assumes "sample \<noteq> []" "\<forall>v \<in> set sample. length v = dm" "0 < m" "int dm mod m = 0"
    "length perms = nat m" "\<forall>p \<in> set perms. mset p = mset [0..<length sample]"
  shows "\<exists>pq. TrainPQ sample m iters perms = Some (Inr pq) \<and>
    (\<forall>v. length v = dm \<longrightarrow> (\<exists>code. PQ_Encode pq v = Some code \<and> length code = nat m \<and>
      (\<forall>code'. length code' = nat m \<longrightarrow> sqdist v (the (PQ_Decode pq code)) \<le> sqdist v (the (PQ_Decode pq code'))))) \<and>
    (\<forall>q code. length q = dm \<and> length code = nat m \<longrightarrow>
      (\<exists>table w. NewADC pq q = Some table \<and> PQ_Decode pq code = Some w \<and> ADC_Distance table code = Distance L2 q w)) \<and>
    (\<forall>s < nat m. \<forall>n \<le> nat iters. let k = min ksize (length sample); segs = map (seg (s * pq_sub pq) (pq_sub pq)) sample
      in distortion segs (pq_books pq ! s) k \<le> distortion segs (lloyd n segs (pq_sub pq) k (init_book segs (perms ! s) k) (replicate (length sample) 0)) k)"
proof -
  obtain pq where pq: "TrainPQ sample m iters perms = Some (Inr pq)" "pq_ok pq" "pq_dim pq = dm" "pq_m pq = nat m"
    using TrainPQ_ok[OF assms] by blast
  have d: "length (sample ! 0) = dm" using assms(1,2) by simp
  have books: "pq_books pq ! s = trainSubspace sample (s * pq_sub pq) (pq_sub pq) iters (perms ! s)" if "s < nat m" for s
    using pq(1) assms(1,3,4) d that by (auto simp: TrainPQ_def Let_def split: if_splits)
  have desc: "distortion (map (seg (s * pq_sub pq) (pq_sub pq)) sample) (pq_books pq ! s) (min ksize (length sample)) \<le>
      distortion (map (seg (s * pq_sub pq) (pq_sub pq)) sample) (lloyd n (map (seg (s * pq_sub pq) (pq_sub pq)) sample) (pq_sub pq) (min ksize (length sample))
        (init_book (map (seg (s * pq_sub pq) (pq_sub pq)) sample) (perms ! s) (min ksize (length sample))) (replicate (length sample) 0)) (min ksize (length sample))"
    if s: "s < nat m" and n: "n \<le> nat iters" for s n
  proof -
    have "dm = nat m * pq_sub pq" using pq by (simp add: pq_ok_def)
    then have "s * pq_sub pq + pq_sub pq \<le> dm" using s by (metis Suc_leI add.commute mult_Suc mult_le_mono1)
    then show ?thesis unfolding books[OF s] trainSubspace_def Let_def
      using assms(1,2) n by (intro lloyd_improves) (auto simp: seg_def ksize_def)
  qed
  have adc: "\<exists>table w. NewADC pq q = Some table \<and> PQ_Decode pq code = Some w \<and> ADC_Distance table code = Distance L2 q w"
    if "length q = dm" "length code = nat m" for q code
    using ADC_exact[OF pq(2), of q code] PQ_Decode_eq[OF pq(2), of code] that pq(3,4) by auto
  show ?thesis using pq(1) Encode_optimal[OF pq(2)] adc desc unfolding pq(3,4) Let_def by blast
qed

theorem PQ_optimal_witness:
  "\<exists>pq code. TrainPQ [[1], [2]] 1 3 [[0, 1]] = Some (Inr pq) \<and> PQ_Encode pq [1] = Some code \<and> length code = 1"
proof -
  obtain pq where pq: "TrainPQ [[1], [2]] 1 3 [[0, 1]] = Some (Inr pq)"
    and enc: "\<forall>v. length v = 1 \<longrightarrow> (\<exists>code. PQ_Encode pq v = Some code \<and> length code = nat 1 \<and>
      (\<forall>code'. length code' = nat 1 \<longrightarrow> sqdist v (the (PQ_Decode pq code)) \<le> sqdist v (the (PQ_Decode pq code'))))"
    using PQ_optimal[of "[[1], [2]]" 1 1 "[[0, 1]]" 3] by (auto simp: numeral_2_eq_2)
  obtain code where "PQ_Encode pq [1] = Some code" "length code = 1" using enc[rule_format, of "[1]"] by auto
  with pq show ?thesis by blast
qed

subsection \<open>The binary codec\<close>

lemma byte_bit_less: "bit (w :: byte) i \<Longrightarrow> i < 8"
  using bit_imp_le_length[of w i] by simp

lemma bit_byte_at: "bit (push_bit k (ucast (w :: byte) :: u64)) i \<longleftrightarrow> k \<le> i \<and> i < k + 8 \<and> i < 64 \<and> bit w (i - k)"
  using byte_bit_less[of w "i - k"] by (auto simp: bit_simps)

lemma bit_byte_low: "bit (ucast (w :: byte) :: u64) i \<longleftrightarrow> i < 8 \<and> bit w i"
  using byte_bit_less[of w i] by (auto simp: bit_simps)

lemma bit_le64:
  assumes "q < 8" "r < 8"
  shows "bit (le64 b) (8 * q + r) \<longleftrightarrow> bit (b ! q) r"
proof -
  have "q \<in> {0, 1, 2, 3, 4, 5, 6, 7}" using assms(1) by auto
  then show ?thesis using assms(2) unfolding le64_def bit_or_iff bit_byte_at bit_byte_low
    by (elim insertE emptyE) simp_all
qed

lemma filter_blocks: "length (filter P [0..<8 * n]) = (\<Sum>q<n. length (filter (\<lambda>r. P (8 * q + r)) [0..<8]))"
proof (induction n)
  case (Suc n)
  have "[0..<8 * Suc n] = [0..<8 * n] @ map (\<lambda>i. i + 8 * n) [0..<8]"
    using map_add_upt[of "8 * n" 8] upt_add_eq_append[of 0 "8 * n" 8] by (simp add: add.commute)
  then show ?case by (simp add: Suc filter_map o_def add.commute)
qed simp

lemma OnesCount64_bytes: "OnesCount64 (le64 a XOR le64 c) = (\<Sum>q<8. OnesCount8 (a ! q XOR c ! q))"
proof -
  have "OnesCount64 (le64 a XOR le64 c) = (\<Sum>q<8. length (filter (\<lambda>r. bit (le64 a XOR le64 c) (8 * q + r)) [0..<8]))"
    using filter_blocks[of "bit (le64 a XOR le64 c)" 8] by (simp add: OnesCount64_def)
  also have "\<dots> = (\<Sum>q<8. OnesCount8 (a ! q XOR c ! q))"
    unfolding OnesCount8_def by (intro sum.cong refl arg_cong[of _ _ length] filter_cong) (auto simp: bit_xor_iff bit_le64)
  finally show ?thesis .
qed


lemma hamming_loop_sum:
  assumes "length a = length c" "i \<le> length a"
  shows "hamming_loop a c i d = Some (d + (\<Sum>j = i..<length a. OnesCount8 (a ! j XOR c ! j)))"
  using assms
proof (induction a c i d rule: hamming_loop.induct)
  case (1 a c i d)
  consider (word) "i + 8 \<le> length a" | (byte) "\<not> i + 8 \<le> length a" "i < length a" | (stop) "i = length a" using "1.prems" by linarith
  then show ?case
  proof cases
    case word
    have "(\<Sum>q<8. OnesCount8 (drop i a ! q XOR drop i c ! q)) = (\<Sum>j = i..<i + 8. OnesCount8 (a ! j XOR c ! j))"
      using word "1.prems" sum.shift_bounds_nat_ivl[of "\<lambda>j. OnesCount8 (a ! j XOR c ! j)" 0 i 8] by (simp add: lessThan_atLeast0 add.commute)
    moreover have "(\<Sum>j = i..<i + 8. OnesCount8 (a ! j XOR c ! j)) + (\<Sum>j = i + 8..<length a. OnesCount8 (a ! j XOR c ! j)) = (\<Sum>j = i..<length a. OnesCount8 (a ! j XOR c ! j))"
      using word by (intro sum.atLeastLessThan_concat) simp_all
    ultimately show ?thesis using word "1.prems" "1.IH"(1) by (subst hamming_loop.simps) (simp add: OnesCount64_bytes)
  next
    case byte
    then show ?thesis using "1.prems" "1.IH"(2) by (subst hamming_loop.simps) (simp add: sum.atLeast_Suc_lessThan)
  next
    case stop
    then show ?thesis by (subst hamming_loop.simps) simp
  qed
qed

lemma length_set_code_bit [simp]: "length (set_code_bit out d) = length out"
  by (simp add: set_code_bit_def)

lemma bit_set_code_bit:
  assumes "d div 8 < length out" "j < length out" "r < 8"
  shows "bit (set_code_bit out d ! j) r \<longleftrightarrow> bit (out ! j) r \<or> d = 8 * j + r"
proof -
  have "bit (push_bit (d mod 8) (1 :: byte)) r \<longleftrightarrow> d mod 8 = r" using assms(3) by (auto simp: bit_exp_iff)
  moreover have "d = 8 * j + r \<longleftrightarrow> d div 8 = j \<and> d mod 8 = r" using assms(3) by auto
  ultimately show ?thesis using assms by (auto simp: set_code_bit_def nth_list_update bit_or_iff)
qed

lemma Binary_Encode_bits:
  assumes "length v \<ge> Binary_Dim b"
  obtains code where "Binary_Encode b v = Some code" "length code = CodeLen b"
    "\<And>j r. j < CodeLen b \<Longrightarrow> r < 8 \<Longrightarrow> bit (code ! j) r \<longleftrightarrow> 8 * j + r < Binary_Dim b \<and> v ! (8 * j + r) > threshold b ! (8 * j + r)"
proof -
  let ?f = "\<lambda>out d. if v ! d > threshold b ! d then set_code_bit out d else out"
  have "length (foldl ?f (replicate (CodeLen b) 0) [0..<D]) = CodeLen b \<and>
      (\<forall>j < CodeLen b. \<forall>r < 8. bit (foldl ?f (replicate (CodeLen b) 0) [0..<D] ! j) r \<longleftrightarrow> 8 * j + r < D \<and> v ! (8 * j + r) > threshold b ! (8 * j + r))"
    if "D \<le> Binary_Dim b" for D
    using that
  proof (induction D)
    case (Suc D)
    define out where "out = foldl ?f (replicate (CodeLen b) 0) [0..<D]"
    have IH: "length out = CodeLen b" "\<And>j r. j < CodeLen b \<Longrightarrow> r < 8 \<Longrightarrow> bit (out ! j) r \<longleftrightarrow> 8 * j + r < D \<and> v ! (8 * j + r) > threshold b ! (8 * j + r)"
      using Suc by (auto simp: out_def)
    have "D div 8 < length out" using Suc.prems unfolding IH(1) CodeLen_def Binary_Dim_def by linarith
    then show ?case using bit_set_code_bit[of D out] IH by (auto simp: out_def[symmetric] less_Suc_eq)
  qed simp
  from this[of "Binary_Dim b"] show thesis using assms by (intro that) (auto simp: Binary_Encode_def)
qed

text \<open>The distance of two binary codes is exactly the number of dimensions on which the vectors fall on different sides of the
  threshold, whatever the padding of the last byte and the grouping into words.\<close>

theorem Binary_Distance_exact:
  assumes "length u = Binary_Dim b" "length v = Binary_Dim b"
  shows "\<exists>cu cv. Binary_Encode b u = Some cu \<and> Binary_Encode b v = Some cv \<and> length cu = CodeLen b \<and>
    Binary_Distance cu cv = Some (card {d. d < Binary_Dim b \<and> (u ! d > threshold b ! d) \<noteq> (v ! d > threshold b ! d)})"
proof -
  obtain cu where cu: "Binary_Encode b u = Some cu" "length cu = CodeLen b"
    "\<And>j r. j < CodeLen b \<Longrightarrow> r < 8 \<Longrightarrow> bit (cu ! j) r \<longleftrightarrow> 8 * j + r < Binary_Dim b \<and> u ! (8 * j + r) > threshold b ! (8 * j + r)"
    using Binary_Encode_bits[of b u] assms by auto
  obtain cv where cv: "Binary_Encode b v = Some cv" "length cv = CodeLen b"
    "\<And>j r. j < CodeLen b \<Longrightarrow> r < 8 \<Longrightarrow> bit (cv ! j) r \<longleftrightarrow> 8 * j + r < Binary_Dim b \<and> v ! (8 * j + r) > threshold b ! (8 * j + r)"
    using Binary_Encode_bits[of b v] assms by auto
  define P where "P d \<longleftrightarrow> d < Binary_Dim b \<and> (u ! d > threshold b ! d) \<noteq> (v ! d > threshold b ! d)" for d
  have "Binary_Distance cu cv = Some (\<Sum>j < CodeLen b. OnesCount8 (cu ! j XOR cv ! j))"
    using hamming_loop_sum[of cu cv 0 0] cu(2) cv(2) by (simp add: Binary_Distance_def lessThan_atLeast0)
  also have "(\<Sum>j < CodeLen b. OnesCount8 (cu ! j XOR cv ! j)) = (\<Sum>j < CodeLen b. length (filter (\<lambda>r. P (8 * j + r)) [0..<8]))"
    unfolding OnesCount8_def by (intro sum.cong refl arg_cong[of _ _ length] filter_cong) (auto simp: bit_xor_iff cu(3) cv(3) P_def)
  also have "\<dots> = length (filter P [0..<8 * CodeLen b])" by (rule filter_blocks[symmetric])
  also have "\<dots> = card {d. d < 8 * CodeLen b \<and> P d}" by (subst distinct_card[symmetric]) (auto intro: arg_cong[of _ _ card])
  also have "{d. d < 8 * CodeLen b \<and> P d} = {d. P d}" by (auto simp: P_def CodeLen_def Binary_Dim_def)
  finally show ?thesis using cu cv by (simp add: P_def)
qed

theorem Binary_Distance_exact_witness:
  "\<exists>cu cv. Binary_Encode \<lparr>threshold = [0, 0]\<rparr> [1, 1] = Some cu \<and> Binary_Encode \<lparr>threshold = [0, 0]\<rparr> [1, - 1] = Some cv \<and> Binary_Distance cu cv = Some 1"
proof -
  have "{d. d < 2 \<and> (([1, 1::real] ! d > [0, 0::real] ! d) \<noteq> ([1, - 1] ! d > [0, 0::real] ! d))} = {1}" by (auto simp: less_2_cases_iff)
  then show ?thesis using Binary_Distance_exact[of "[1, 1]" "\<lparr>threshold = [0, 0]\<rparr>" "[1, - 1]"] by (auto simp: Binary_Dim_def numeral_2_eq_2)
qed
end
