(* ===== verification/Fetch.thy ===== *)
theory Fetch
  imports GoStrings
begin

text \<open>
  \<open>crawler/fetch\<close>: the two policies of the fetcher. The resolver is a pair of arguments, from a query to the answer or \<open>None\<close> for an
  error. Pages are ASCII, so that a rune is a byte. Of the tuned transport the limits that the function sets are a record, with times in
  nanoseconds; what \<open>net/http\<close> does with them is outside the model.
\<close>

subsection \<open>The transport\<close>

record Transport =
  DialTimeout :: int
  DialKeepAlive :: int
  MaxIdleConns :: int
  MaxIdleConnsPerHost :: int
  MaxConnsPerHost :: int
  IdleConnTimeout :: int
  TLSHandshakeTimeout :: int
  ExpectContinueTimeout :: int
  ResponseHeaderTimeout :: int
  DisableCompression :: bool

definition DefaultTransport :: Transport where
  "DefaultTransport =
     \<lparr>DialTimeout = 10 * 10 ^ 9, DialKeepAlive = 30 * 10 ^ 9, MaxIdleConns = 10000, MaxIdleConnsPerHost = 2, MaxConnsPerHost = 4,
      IdleConnTimeout = 90 * 10 ^ 9, TLSHandshakeTimeout = 10 * 10 ^ 9, ExpectContinueTimeout = 1 * 10 ^ 9,
      ResponseHeaderTimeout = 15 * 10 ^ 9, DisableCompression = True\<rparr>"

subsection \<open>Forward-confirmed reverse DNS\<close>

definition normal_host :: "string \<Rightarrow> string" where
  "normal_host name = ToLower (TrimSuffix name ''.'')"

fun verify_names :: "(string \<Rightarrow> string list option) \<Rightarrow> string \<Rightarrow> string \<Rightarrow> string list \<Rightarrow> bool" where
  "verify_names lookupHost ip expected [] = False"
| "verify_names lookupHost ip expected (name # names) =
     (let host = normal_host name
      in if host \<noteq> expected \<and> \<not> HasSuffix host (''.'' @ expected) then verify_names lookupHost ip expected names
         else case lookupHost host of
                None \<Rightarrow> verify_names lookupHost ip expected names
              | Some addrs \<Rightarrow> if ip \<in> set addrs then True else verify_names lookupHost ip expected names)"

definition VerifyFCrDNS :: "(string \<Rightarrow> string list option) \<Rightarrow> (string \<Rightarrow> string list option) \<Rightarrow> string \<Rightarrow> string \<Rightarrow> bool" where
  "VerifyFCrDNS lookupAddr lookupHost ip expectedDomain =
     (case lookupAddr ip of
        None \<Rightarrow> False
      | Some names \<Rightarrow> if length names = 0 then False else verify_names lookupHost ip (normal_host expectedDomain) names)"

subsection \<open>The render gate\<close>

fun strip_loop :: "nat \<Rightarrow> string \<Rightarrow> string" where
  "strip_loop depth [] = []"
| "strip_loop depth (r # rs) =
     (if r = CHR ''<'' then strip_loop (depth + 1) rs
      else if r = CHR ''>'' then strip_loop (if depth > 0 then depth - 1 else depth) rs
      else if depth = 0 then r # strip_loop depth rs
      else strip_loop depth rs)"

definition stripTags :: "string \<Rightarrow> string" where "stripTags s = strip_loop 0 s"

definition quoted :: "string \<Rightarrow> string \<Rightarrow> string" where
  "quoted name v = name @ ''='' @ [CHR 0x22] @ v @ [CHR 0x22]"

definition NeedsRender :: "string \<Rightarrow> bool" where
  "NeedsRender html =
     (let s = ToLower html;
          textisch = stripTags s;
          hasScript = Contains s ''<script'';
          hasAppRoot = Contains s (quoted ''id'' ''root'') \<or> Contains s (quoted ''id'' ''app'') \<or> Contains s (quoted ''id'' ''__next'')
      in if length (TrimSpace textisch) > 512 then False else hasScript \<and> hasAppRoot)"

subsection \<open>Both directions must agree\<close>

text \<open>The domain itself or a name that ends with a dot and the domain.\<close>

definition under_domain :: "string \<Rightarrow> string \<Rightarrow> bool" where
  "under_domain host domain \<longleftrightarrow> (\<exists>labels. host = domain \<or> host = labels @ CHR ''.'' # domain)"

lemma verify_names_iff:
  "verify_names lookupHost ip domain names \<longleftrightarrow>
     (\<exists>name \<in> set names. under_domain (normal_host name) domain \<and> (\<exists>addrs. lookupHost (normal_host name) = Some addrs \<and> ip \<in> set addrs))"
  by (induction names) (auto simp: under_domain_def HasSuffix_def suffix_def Let_def split: option.splits)

text \<open>An address is verified exactly when some name that its reverse lookup gives is under the expected domain, at a label
  boundary and whatever the letter case and the final dot, and the forward lookup of that very name gives the address back. A
  failing lookup verifies nothing.\<close>

theorem VerifyFCrDNS_iff:
  "VerifyFCrDNS lookupAddr lookupHost ip domain \<longleftrightarrow>
     (\<exists>names name addrs. lookupAddr ip = Some names \<and> name \<in> set names \<and> under_domain (normal_host name) (normal_host domain) \<and>
        lookupHost (normal_host name) = Some addrs \<and> ip \<in> set addrs)"
  by (auto simp: VerifyFCrDNS_def verify_names_iff split: option.splits)

text \<open>What the gate measures: the characters outside every tag. The text between a pair of tags is kept, that of a script too.\<close>

lemma strip_loop_no_tags: "set (strip_loop d s) \<inter> {CHR ''<'', CHR ''>''} = {}"
  by (induction d s rule: strip_loop.induct) auto

lemma strip_loop_text: "set s \<inter> {CHR ''<'', CHR ''>''} = {} \<Longrightarrow> strip_loop d (s @ t) = (if d = 0 then s else []) @ strip_loop d t"
  by (induction s) auto

lemma stripTags_script:
  assumes "set attrs \<inter> {CHR ''<'', CHR ''>''} = {}" "set code \<inter> {CHR ''<'', CHR ''>''} = {}"
  shows "stripTags (''<script'' @ attrs @ ''>'' @ code @ ''</script>'') = code"
proof -
  have "strip_loop 1 (''script'' @ attrs @ ''>'' @ code @ ''</script>'') = strip_loop 0 (code @ ''</script>'')"
    using strip_loop_text[of "''script'' @ attrs" 1 "''>'' @ code @ ''</script>''"] assms(1) by simp
  also have "\<dots> = code" using strip_loop_text[OF assms(2), of 0 "''</script>''"] by simp
  finally show ?thesis by (simp add: stripTags_def)
qed

end
