(* ===== verification/RankEval.thy ===== *)
theory RankEval
  imports Prelude Complex_Main
begin

text \<open>
  \<open>rank/eval\<close>: the relevance metrics. A judgment map is an association list with distinct keys, in the map's iteration
  order; \<open>float64\<close> arithmetic is over the reals, so \<open>math.Exp2\<close> of a grade is a power of two.
\<close>

type_synonym 'd judgments = "('d \<times> int) list"

definition grade :: "'d judgments \<Rightarrow> 'd \<Rightarrow> int" where
  "grade rel d = (case map_of rel d of None \<Rightarrow> 0 | Some g \<Rightarrow> g)"

definition gain :: "int \<Rightarrow> real" where "gain g = 2 ^ nat g - 1"

definition DCGAtK :: "'d list \<Rightarrow> 'd judgments \<Rightarrow> int \<Rightarrow> real" where
  "DCGAtK ranked rel k =
     (let k = (if k > int (length ranked) then int (length ranked) else k)
      in foldl (\<lambda>dcg i. let g = grade rel (ranked ! i)
                 in if g \<le> 0 then dcg else dcg + gain g / log 2 (real (i + 2))) 0 [0..<nat k])"

definition idealDCG :: "'d judgments \<Rightarrow> int \<Rightarrow> real" where
  "idealDCG rel k =
     (let grades = rev (sort (filter (\<lambda>g. g > 0) (map snd rel)));
          k = (if k > int (length grades) then int (length grades) else k)
      in foldl (\<lambda>idcg i. idcg + gain (grades ! i) / log 2 (real (i + 2))) 0 [0..<nat k])"

definition NDCGAtK :: "'d list \<Rightarrow> 'd judgments \<Rightarrow> int \<Rightarrow> real" where
  "NDCGAtK ranked rel k = (let idcg = idealDCG rel k in if idcg = 0 then 0 else DCGAtK ranked rel k / idcg)"

fun mrr_loop :: "'d judgments \<Rightarrow> nat \<Rightarrow> 'd list \<Rightarrow> real" where
  "mrr_loop rel i [] = 0"
| "mrr_loop rel i (d # ds) = (if grade rel d > 0 then 1 / real (i + 1) else mrr_loop rel (i + 1) ds)"

definition MRRAtK :: "'d list \<Rightarrow> 'd judgments \<Rightarrow> int \<Rightarrow> real" where
  "MRRAtK ranked rel k =
     (let k = (if k > int (length ranked) then int (length ranked) else k) in mrr_loop rel 0 (take (nat k) ranked))"

definition numRelevant :: "'d judgments \<Rightarrow> nat" where
  "numRelevant rel = foldl (\<lambda>n (d, g). if g > 0 then n + 1 else n) 0 rel"

definition RecallAtK :: "'d list \<Rightarrow> 'd judgments \<Rightarrow> int \<Rightarrow> real" where
  "RecallAtK ranked rel k =
     (let total = numRelevant rel
      in if total = 0 then 0
         else let k = (if k > int (length ranked) then int (length ranked) else k);
                  found = foldl (\<lambda>n i. if grade rel (ranked ! i) > 0 then n + 1 else n) (0::nat) [0..<nat k]
              in real found / real total)"

definition AveragePrecision :: "'d list \<Rightarrow> 'd judgments \<Rightarrow> real" where
  "AveragePrecision ranked rel =
     (let total = numRelevant rel
      in if total = 0 then 0
         else let (hits, s) = foldl (\<lambda>(hits, s) i. if grade rel (ranked ! i) > 0
                                then (hits + 1, s + real (hits + 1) / real (i + 1)) else (hits, s)) (0::nat, 0) [0..<length ranked]
              in s / real total)"

definition Mean :: "real list \<Rightarrow> real" where
  "Mean vs = (if length vs = 0 then 0 else foldl (+) 0 vs / real (length vs))"

subsection \<open>Sums over positions\<close>

lemma sum_initial_best:
  fixes w :: "nat \<Rightarrow> real"
  assumes "finite S" "antimono w"
  shows "(\<Sum>i\<in>S. w i) \<le> (\<Sum>i<card S. w i)"
  using assms(1)
proof (induction "card S" arbitrary: S)
  case (Suc n)
  let ?m = "Max S"
  have "S \<noteq> {}" using Suc.hyps(2) by auto
  then have m1: "?m \<in> S" using Suc.prems by (intro Max_in)
  then have m: "?m \<in> S" "card (S - {?m}) = n" using Suc.hyps(2) Suc.prems by (simp_all add: card_Diff_singleton)
  have "S \<subseteq> {..?m}" using Suc.prems by auto
  then have "card S \<le> Suc ?m" using card_mono[of "{..?m}" S] by simp
  then have "n \<le> ?m" using Suc.hyps(2) by simp
  then have "w ?m \<le> w n" using assms(2) by (simp add: antimonoD)
  moreover have "(\<Sum>i\<in>S - {?m}. w i) \<le> (\<Sum>i<n. w i)" using Suc.hyps(1)[of "S - {?m}"] m(2) Suc.prems by simp
  ultimately show ?case using sum.remove[OF Suc.prems m(1), of w] Suc.hyps(2)[symmetric] by simp
qed simp

lemma downclosed_lessThan:
  assumes "finite B" "\<And>i j. i \<in> B \<Longrightarrow> j \<le> i \<Longrightarrow> j \<in> B"
  shows "B = {..<card B}"
proof (intro equalityI subsetI)
  fix i assume "i \<in> B"
  then have "{..i} \<subseteq> B" using assms(2) by auto
  then have "card {..i} \<le> card B" using assms(1) by (intro card_mono)
  then show "i \<in> {..<card B}" by simp
next
  fix i assume i: "i \<in> {..<card B}"
  show "i \<in> B"
  proof (rule ccontr)
    assume "i \<notin> B"
    then have "B \<subseteq> {..<i}" using assms(2) by (meson lessThan_iff linorder_not_less subsetI)
    then have "card B \<le> card {..<i}" by (intro card_mono) auto
    then show False using i by simp
  qed
qed

lemma gain_layers:
  assumes "g \<le> T"
  shows "2 ^ g - (1::real) = (\<Sum>t=1..T. if t \<le> g then 2 ^ (t - 1) else 0)"
proof -
  have "(\<Sum>t=1..T. if t \<le> g then 2 ^ (t - 1) else 0) = (\<Sum>t=1..g. 2 ^ (t - 1) :: real)"
    using assms by (intro sum.mono_neutral_cong_right) auto
  also have "\<dots> = 2 ^ g - 1" by (induction g) (simp_all add: sum.atLeast1_atMost_eq)
  finally show ?thesis by simp
qed

text \<open>Positions weighted by a decreasing discount: no assignment of grades to positions beats the sorted one, if for every threshold it
  has no more positions at or above it.\<close>

lemma sorted_dominates:
  fixes w :: "nat \<Rightarrow> real" and a b :: "nat \<Rightarrow> nat"
  assumes "antimono w" "\<And>i. 0 \<le> w i" "antimono b"
    and le: "\<And>t. t \<ge> 1 \<Longrightarrow> card {i. i < k \<and> t \<le> a i} \<le> card {i. t \<le> b i}" and fin: "\<And>t. t \<ge> 1 \<Longrightarrow> finite {i. t \<le> b i}"
  shows "(\<Sum>i<k. w i * (2 ^ a i - 1)) \<le> (\<Sum>i<k. w i * (2 ^ b i - 1))"
proof -
  obtain T where T: "\<And>i. i < k \<Longrightarrow> a i \<le> T \<and> b i \<le> T"
    using finite_nat_set_iff_bounded_le[of "(a ` {..<k}) \<union> (b ` {..<k})"] by auto
  have layers: "(\<Sum>i<k. w i * (2 ^ c i - 1)) = (\<Sum>t=1..T. 2 ^ (t - 1) * (\<Sum>i | i < k \<and> t \<le> c i. w i))"
    if "\<And>i. i < k \<Longrightarrow> c i \<le> T" for c
  proof -
    have "(\<Sum>i<k. w i * (2 ^ c i - 1)) = (\<Sum>i<k. \<Sum>t=1..T. if t \<le> c i then 2 ^ (t - 1) * w i else 0)"
      using that by (intro sum.cong) (auto simp: gain_layers[of _ T] sum_distrib_left intro!: sum.cong)
    also have "\<dots> = (\<Sum>t=1..T. \<Sum>i<k. if t \<le> c i then 2 ^ (t - 1) * w i else 0)" by (rule sum.swap)
    also have "\<dots> = (\<Sum>t=1..T. 2 ^ (t - 1) * (\<Sum>i | i < k \<and> t \<le> c i. w i))"
      by (intro sum.cong refl) (simp add: sum.inter_filter[symmetric] sum_distrib_left)
    finally show ?thesis .
  qed
  have "(\<Sum>i | i < k \<and> t \<le> a i. w i) \<le> (\<Sum>i | i < k \<and> t \<le> b i. w i)" if t: "t \<ge> 1" for t
  proof -
    let ?A = "{i. i < k \<and> t \<le> a i}" and ?B = "{i. t \<le> b i}"
    have down: "j \<in> ?B" if "i \<in> ?B" "j \<le> i" for i j using antimonoD[OF assms(3) that(2)] that(1) by simp
    have B: "?B = {..<card ?B}" using fin[OF t] down by (intro downclosed_lessThan) auto
    have "(\<Sum>i\<in>?A. w i) \<le> (\<Sum>i<card ?A. w i)" by (rule sum_initial_best[OF _ assms(1)]) simp
    also have "\<dots> \<le> (\<Sum>i\<in>{i. i < k \<and> t \<le> b i}. w i)"
    proof (rule sum_mono2)
      have "card ?A \<le> k" using card_mono[of "{..<k}" ?A] by auto
      moreover have "card ?A \<le> card ?B" by (rule le[OF t])
      moreover note sub = subsetD[OF equalityD2[OF B]]
      ultimately show "{..<card ?A} \<subseteq> {i. i < k \<and> t \<le> b i}"
        using sub[unfolded lessThan_iff mem_Collect_eq] less_le_trans by blast
    qed (use assms(2) in auto)
    finally show ?thesis .
  qed
  then show ?thesis using T by (auto simp: layers intro!: sum_mono mult_left_mono)
qed


subsection \<open>Normalized gain\<close>

definition discount :: "nat \<Rightarrow> real" where "discount i = 1 / log 2 (real (i + 2))"

lemma discount_pos: "0 < discount i"
  by (simp add: discount_def)

lemma discount_antimono: "antimono discount"
  by (intro antimonoI) (auto simp: discount_def frac_le)

definition grade_at :: "'d list \<Rightarrow> 'd judgments \<Rightarrow> nat \<Rightarrow> nat" where
  "grade_at ranked rel i = nat (grade rel (ranked ! i))"

definition ideal_grades :: "'d judgments \<Rightarrow> int list" where
  "ideal_grades rel = rev (sort (filter (\<lambda>g. g > 0) (map snd rel)))"

definition ideal_at :: "'d judgments \<Rightarrow> nat \<Rightarrow> nat" where
  "ideal_at rel i = (if i < length (ideal_grades rel) then nat (ideal_grades rel ! i) else 0)"

lemma DCG_sum: "DCGAtK ranked rel k = (\<Sum>i<min (nat k) (length ranked). discount i * (2 ^ grade_at ranked rel i - 1))"
proof -
  have "(\<lambda>dcg i. let g = grade rel (ranked ! i) in if g \<le> 0 then dcg else dcg + gain g / log 2 (real (i + 2))) =
      (\<lambda>dcg i. dcg + discount i * (2 ^ grade_at ranked rel i - 1))"
    by (intro ext) (simp add: Let_def gain_def discount_def grade_at_def)
  moreover have "nat (if k > int (length ranked) then int (length ranked) else k) = min (nat k) (length ranked)" by auto
  ultimately show ?thesis unfolding DCGAtK_def Let_def[of "if _ then _ else _"] by (simp only: foldl_sum)
qed

lemma ideal_sum: "idealDCG rel k = (\<Sum>i<nat k. discount i * (2 ^ ideal_at rel i - 1))"
proof -
  let ?n = "length (ideal_grades rel)"
  have k: "nat (if k > int ?n then int ?n else k) = min (nat k) ?n" by auto
  have "idealDCG rel k = (\<Sum>i<min (nat k) ?n. gain (ideal_grades rel ! i) / log 2 (real (i + 2)))"
    unfolding idealDCG_def Let_def ideal_grades_def[symmetric] k by (simp only: foldl_sum)
  also have "\<dots> = (\<Sum>i<min (nat k) ?n. discount i * (2 ^ ideal_at rel i - 1))"
    by (intro sum.cong refl) (simp add: gain_def discount_def ideal_at_def)
  also have "\<dots> = (\<Sum>i<nat k. discount i * (2 ^ ideal_at rel i - 1))"
    by (intro sum.mono_neutral_left) (auto simp: ideal_at_def)
  finally show ?thesis .
qed

lemma ideal_antimono: "antimono (ideal_at rel)"
proof (intro antimonoI)
  fix i j :: nat assume "i \<le> j"
  have "sorted_wrt (\<ge>) (ideal_grades rel)" by (simp add: ideal_grades_def sorted_wrt_rev)
  then show "ideal_at rel j \<le> ideal_at rel i"
    using \<open>i \<le> j\<close> sorted_wrt_nth_less[of "(\<ge>)" "ideal_grades rel" i j] by (cases "i = j") (auto simp: ideal_at_def nat_mono)
qed

lemma ideal_count:
  assumes "t \<ge> 1"
  shows "finite {i. t \<le> ideal_at rel i}" "card {i. t \<le> ideal_at rel i} = length (filter (\<lambda>g. int t \<le> g) (map snd rel))"
proof -
  have e: "{i. t \<le> ideal_at rel i} = {i. i < length (ideal_grades rel) \<and> int t \<le> ideal_grades rel ! i}"
    using assms by (auto simp: ideal_at_def split: if_splits)
  then show "finite {i. t \<le> ideal_at rel i}" by simp
  have "card {i. t \<le> ideal_at rel i} = length (filter (\<lambda>g. int t \<le> g) (ideal_grades rel))"
    unfolding e by (simp add: length_filter_conv_card)
  also have "\<dots> = length (filter (\<lambda>g. int t \<le> g) (filter (\<lambda>g. g > 0) (map snd rel)))"
    unfolding ideal_grades_def size_mset[symmetric] mset_filter mset_rev mset_sort ..
  also have "\<dots> = length (filter (\<lambda>g. int t \<le> g) (map snd rel))"
    unfolding filter_filter using assms by (intro arg_cong[of _ _ length] filter_cong) auto
  finally show "card {i. t \<le> ideal_at rel i} = length (filter (\<lambda>g. int t \<le> g) (map snd rel))" .
qed

lemma ranked_count:
  assumes "distinct ranked" "distinct (map fst rel)" "t \<ge> 1"
  shows "card {i. i < min k (length ranked) \<and> t \<le> grade_at ranked rel i} \<le> length (filter (\<lambda>g. int t \<le> g) (map snd rel))"
proof -
  let ?A = "{i. i < min k (length ranked) \<and> t \<le> grade_at ranked rel i}" and ?R = "filter (\<lambda>(d, g). int t \<le> g) rel"
  have "card ?A = card ((!) ranked ` ?A)"
    using assms(1) by (intro card_image[symmetric]) (auto simp: inj_on_def nth_eq_iff_index_eq)
  also have "\<dots> \<le> card (fst ` set ?R)"
  proof (intro card_mono subsetI)
    fix d assume "d \<in> (!) ranked ` ?A"
    then have "t \<le> nat (grade rel d)" by (auto simp: grade_at_def)
    then have "int t \<le> grade rel d" using assms(3) by linarith
    then obtain g where "map_of rel d = Some g" "int t \<le> g" using assms(3) by (auto simp: grade_def split: option.splits)
    then show "d \<in> fst ` set ?R" by (force dest: map_of_SomeD)
  qed simp
  also have "\<dots> \<le> length ?R" by (metis card_length length_map list.set_map)
  also have "\<dots> = length (filter (\<lambda>g. int t \<le> g) (map snd rel))" by (induction rel) auto
  finally show ?thesis .
qed

text \<open>Normalized discounted gain lies between 0 and 1 for a ranking without repeated documents: no ordering of the judged documents
  beats the ideal one at any cut-off.\<close>

theorem NDCG_unit:
  assumes "distinct ranked" "distinct (map fst rel)"
  shows "0 \<le> NDCGAtK ranked rel k \<and> NDCGAtK ranked rel k \<le> 1 \<and> DCGAtK ranked rel k \<le> idealDCG rel k"
proof -
  let ?m = "min (nat k) (length ranked)"
  have nonneg: "0 \<le> discount i * (2 ^ g - 1)" for i g using discount_pos[of i] by simp
  have "DCGAtK ranked rel k \<le> (\<Sum>i<?m. discount i * (2 ^ ideal_at rel i - 1))"
    unfolding DCG_sum
  proof (rule sorted_dominates[OF discount_antimono _ ideal_antimono])
    show "card {i. i < ?m \<and> t \<le> grade_at ranked rel i} \<le> card {i. t \<le> ideal_at rel i}" if "t \<ge> 1" for t
      unfolding ideal_count(2)[OF that] by (rule ranked_count[OF assms that])
  qed (use ideal_count(1) discount_pos in \<open>auto simp: less_imp_le\<close>)
  also have "\<dots> \<le> idealDCG rel k" unfolding ideal_sum using nonneg by (intro sum_mono2) auto
  finally have le: "DCGAtK ranked rel k \<le> idealDCG rel k" .
  have "0 \<le> DCGAtK ranked rel k" unfolding DCG_sum using nonneg by (intro sum_nonneg) auto
  with le show ?thesis by (auto simp: NDCGAtK_def Let_def)
qed

theorem NDCG_unit_witness:
  "distinct [''a'', ''b''] \<and> NDCGAtK [''a'', ''b''] [(''b'', 2), (''a'', 1)] 10 \<le> 1"
  using NDCG_unit[of "[''a'', ''b'']" "[(''b'', 2), (''a'', 1)]" 10] by simp

text \<open>A repeated document is counted again, and the value leaves the unit interval.\<close>

lemma NDCG_repeats: "NDCGAtK [''a'', ''a''] [(''a'', 1)] 2 > 1"
  by (simp add: NDCGAtK_def Let_def DCG_sum ideal_sum grade_at_def grade_def ideal_at_def ideal_grades_def discount_def eval_nat_numeral)

end
