(* ===== verification/AnswerEval.thy ===== *)
theory AnswerEval
  imports Complex_Main
begin

text \<open>
  \<open>answer/eval\<close>: the grounding metrics, over the reals, on the caller's judgments.
\<close>

definition fraction :: "bool list \<Rightarrow> real" where
  "fraction flags = real (foldl (\<lambda>t f. if f then t + 1 else t) (0::nat) flags) / real (length flags)"

definition Faithfulness :: "bool list \<Rightarrow> real" where
  "Faithfulness entailed = (if length entailed = 0 then 1 else fraction entailed)"

definition ContextPrecisionAtK :: "bool list \<Rightarrow> int \<Rightarrow> real" where
  "ContextPrecisionAtK relevant k =
     (let k = (if k > int (length relevant) then int (length relevant) else k);
          (hits, s) = foldl (\<lambda>(hits, s) i. if relevant ! i then (hits + 1, s + real (hits + 1) / real (i + 1)) else (hits, s))
            (0::nat, 0) [0..<nat k]
      in if hits = 0 then 0 else s / real hits)"

definition ContextRecall :: "bool list \<Rightarrow> real" where
  "ContextRecall supp = (if length supp = 0 then 1 else fraction supp)"

definition CitationRecall :: "bool list \<Rightarrow> real" where
  "CitationRecall entailed = (if length entailed = 0 then 1 else fraction entailed)"

definition CitationPrecision :: "bool list \<Rightarrow> real" where
  "CitationPrecision necessary = (if length necessary = 0 then 1 else fraction necessary)"

definition F1 :: "real \<Rightarrow> real \<Rightarrow> real" where
  "F1 recall precision = (if recall + precision = 0 then 0 else 2 * recall * precision / (recall + precision))"

definition Mean_score :: "real list \<Rightarrow> real" where
  "Mean_score scores = (if length scores = 0 then 0 else foldl (+) 0 scores / real (length scores))"

subsection \<open>The metrics are shares\<close>

lemma foldl_count: "foldl (\<lambda>t f. if f then t + 1 else t) n flags = n + length (filter (\<lambda>b. b) flags)" for n :: nat
  by (induction flags arbitrary: n) auto

lemma fraction_unit: "flags \<noteq> [] \<Longrightarrow> 0 \<le> fraction flags \<and> fraction flags \<le> 1 \<and> (fraction flags = 1 \<longleftrightarrow> list_all (\<lambda>b. b) flags)"
proof -
  assume "flags \<noteq> []"
  moreover have "length (filter (\<lambda>b. b) flags) = length flags \<longleftrightarrow> list_all (\<lambda>b. b) flags"
    by (metis filter_id_conv length_filter_less less_irrefl list_all_iff)
  ultimately show ?thesis using length_filter_le[of "\<lambda>b. b" flags] by (simp add: fraction_def foldl_count divide_simps)
qed

lemma precision_loop:
  assumes "n \<le> length rel"
  shows "foldl (\<lambda>(hits, s) i. if rel ! i then (hits + 1, s + real (hits + 1) / real (i + 1)) else (hits, s)) (0::nat, 0) [0..<n] = (hits, s) \<Longrightarrow>
    hits = length (filter (\<lambda>b. b) (take n rel)) \<and> 0 \<le> s \<and> s \<le> real hits \<and>
    (s = real hits \<longleftrightarrow> (\<forall>i < n. rel ! i \<longrightarrow> list_all (\<lambda>b. b) (take i rel)))"
  using assms
proof (induction n arbitrary: hits s)
  case (Suc n)
  obtain h t where f: "foldl (\<lambda>(hits, s) i. if rel ! i then (hits + 1, s + real (hits + 1) / real (i + 1)) else (hits, s)) (0::nat, 0) [0..<n] = (h, t)"
    by fastforce
  note IH = Suc.IH[OF f]
  have tk: "take (Suc n) rel = take n rel @ [rel ! n]" using Suc.prems by (simp add: take_Suc_conv_app_nth)
  have hn: "h \<le> n" using IH Suc.prems length_filter_le[of "\<lambda>b. b" "take n rel"] by simp
  have full: "h = n \<longleftrightarrow> list_all (\<lambda>b. b) (take n rel)"
    using IH Suc.prems by (metis Suc_leD filter_id_conv length_filter_less length_take less_irrefl list_all_iff min.absorb2)
  show ?case
  proof (cases "rel ! n")
    case True
    then have r: "hits = h + 1" "s = t + real (h + 1) / real (n + 1)" using Suc.prems f by auto
    have q: "0 \<le> real (h + 1) / real (n + 1)" "real (h + 1) / real (n + 1) \<le> 1" "real (h + 1) / real (n + 1) = 1 \<longleftrightarrow> h = n"
      using hn by (auto simp: divide_simps)
    have IH': "h = length (filter (\<lambda>b. b) (take n rel))" "0 \<le> t" "t \<le> real h"
      "t = real h \<longleftrightarrow> (\<forall>i < n. rel ! i \<longrightarrow> list_all (\<lambda>b. b) (take i rel))" using IH Suc.prems(2) by auto
    define x where "x = real (h + 1) / real (n + 1)"
    have sx: "s = t + x" "real hits = real h + 1" using r by (simp_all add: x_def)
    have x: "0 \<le> x" "x \<le> 1" "x = 1 \<longleftrightarrow> h = n" using q unfolding x_def .
    have "s = real hits \<longleftrightarrow> t = real h \<and> h = n" unfolding sx using x IH'(3) by linarith
    also have "\<dots> \<longleftrightarrow> (\<forall>i < Suc n. rel ! i \<longrightarrow> list_all (\<lambda>b. b) (take i rel))"
      unfolding IH'(4) full using True by (auto simp: less_Suc_eq)
    finally show ?thesis using sx x IH'(1-3) r(1) tk True by simp
  next
    case False
    then have "hits = h" "s = t" using Suc.prems f by auto
    then show ?thesis using IH Suc.prems tk False by (auto simp: less_Suc_eq)
  qed
qed simp

text \<open>Context precision lies in the unit interval, and where some of the first \<open>k\<close> passages is relevant it is 1 exactly
  when no irrelevant passage precedes a relevant one.\<close>

lemma ContextPrecision_exact:
  assumes "k \<le> length relevant"
  shows "0 \<le> ContextPrecisionAtK relevant (int k) \<and> ContextPrecisionAtK relevant (int k) \<le> 1 \<and>
    (list_ex (\<lambda>b. b) (take k relevant) \<longrightarrow>
      (ContextPrecisionAtK relevant (int k) = 1 \<longleftrightarrow> (\<forall>i < k. relevant ! i \<longrightarrow> list_all (\<lambda>b. b) (take i relevant))))"
proof -
  obtain hits s where f: "foldl (\<lambda>(hits, s) i. if relevant ! i then (hits + 1, s + real (hits + 1) / real (i + 1)) else (hits, s)) (0::nat, 0) [0..<k] = (hits, s)"
    by fastforce
  have e: "ContextPrecisionAtK relevant (int k) = (if hits = 0 then 0 else s / real hits)"
    using assms f by (simp add: ContextPrecisionAtK_def)
  have "list_ex (\<lambda>b. b) (take k relevant) \<Longrightarrow> hits > 0"
    using precision_loop[OF assms f] by (auto simp: list_ex_iff filter_empty_conv)
  then show ?thesis unfolding e using precision_loop[OF assms f] by (auto simp: divide_simps)
qed

end
