(* ===== verification/Grounding.thy ===== *)
theory Grounding
  imports GoStrings Types Complex_Main
begin

text \<open>
  \<open>answer/ground\<close>, \<open>answer/verify\<close> and \<open>answer/engine/citations.go\<close>: spans of the answer and their supports, the parser of the
  model's citation markers, the entailment check and the correction policy. Text is a byte string and offsets are byte
  offsets. Scores are reals; the entailment model is an argument, with the overlap heuristic of the source as its instance.
  An index out of range panics: \<open>None\<close>.
\<close>

subsection \<open>Domain types\<close>

record Passage =
  pa_Doc :: GlobalDocID
  pa_URL :: string
  pa_Title :: string
  pa_Source :: string
  pa_Text :: string
  pa_Score :: real
  Published :: int

record Chunk =
  ch_URI :: string
  ch_Title :: string

record Segment =
  sg_Start :: int
  sg_End :: int
  sg_Text :: string

record Support =
  su_Segment :: Segment
  su_Chunks :: "int list"

record Metadata =
  md_Chunks :: "Chunk list"
  md_Supports :: "Support list"

text \<open>\<open>b[lo:hi]\<close>\<close>

definition span_text :: "string \<Rightarrow> int \<Rightarrow> int \<Rightarrow> string" where
  "span_text b lo hi = take (nat hi - nat lo) (drop (nat lo) b)"

datatype ground_error = SpanOutOfRange nat | TextMismatch nat | NoBackingChunk nat | ChunkOutOfRange nat int

definition check_support :: "string \<Rightarrow> Chunk list \<Rightarrow> nat \<Rightarrow> Support \<Rightarrow> ground_error option" where
  "check_support b chunks i s =
     (let seg = su_Segment s
      in if sg_Start seg < 0 \<or> sg_End seg > int (length b) \<or> sg_Start seg > sg_End seg then Some (SpanOutOfRange i)
         else if span_text b (sg_Start seg) (sg_End seg) \<noteq> sg_Text seg then Some (TextMismatch i)
         else if length (su_Chunks s) = 0 then Some (NoBackingChunk i)
         else case find (\<lambda>c. c < 0 \<or> c \<ge> int (length chunks)) (su_Chunks s) of
                Some c \<Rightarrow> Some (ChunkOutOfRange i c)
              | None \<Rightarrow> None)"

fun validate_loop :: "string \<Rightarrow> Chunk list \<Rightarrow> nat \<Rightarrow> Support list \<Rightarrow> ground_error option" where
  "validate_loop b chunks i [] = None"
| "validate_loop b chunks i (s # ss) =
     (case check_support b chunks i s of Some e \<Rightarrow> Some e | None \<Rightarrow> validate_loop b chunks (i + 1) ss)"

definition Validate :: "Metadata \<Rightarrow> string \<Rightarrow> ground_error option" where
  "Validate m answer = validate_loop answer (md_Chunks m) 0 (md_Supports m)"

definition format_int :: "int \<Rightarrow> string" where
  "format_int n = (if n < 0 then ''-'' @ decimal (nat (- n)) else decimal (nat n))"

definition Marker :: "int list \<Rightarrow> string" where
  "Marker chunks = concat (map (\<lambda>c. ''['' @ format_int (c + 1) @ '']'') chunks)"

definition insert_one :: "string \<Rightarrow> Support \<Rightarrow> string option" where
  "insert_one b s =
     (let pos = sg_End (su_Segment s)
      in if pos < 0 \<or> pos > int (length b) then None
         else Some (take (nat pos) b @ Marker (su_Chunks s) @ drop (nat pos) b))"

text \<open>\<open>sort.SliceStable\<close> by descending end is a stable sort by the negated end.\<close>

definition Insert :: "string \<Rightarrow> Support list \<Rightarrow> string option" where
  "Insert answer supports =
     (if length supports = 0 then Some answer
      else foldl (\<lambda>b s. case b of None \<Rightarrow> None | Some b \<Rightarrow> insert_one b s) (Some answer)
             (sort_key (\<lambda>s. - sg_End (su_Segment s)) supports))"

subsection \<open>Claims\<close>

record Claim =
  cl_Text :: string
  cl_Start :: int
  cl_End :: int
  ChunkIndices :: "int list"

definition isSentenceEnd :: "char \<Rightarrow> bool" where
  "isSentenceEnd c \<longleftrightarrow> c = CHR ''.'' \<or> c = CHR ''!'' \<or> c = CHR ''?''"

definition isSpace :: "char \<Rightarrow> bool" where
  "isSpace c \<longleftrightarrow> c = CHR '' '' \<or> c = CHR 0x09 \<or> c = CHR 0x0A \<or> c = CHR 0x0D"

definition trim_right :: "string \<Rightarrow> string" where
  "trim_right s = rev (dropWhile isSpace (rev s))"

text \<open>Both trimming helpers: the span \<open>[start, end)\<close> with text \<open>s\<close>.\<close>

definition appendClaimSpan :: "Claim list \<Rightarrow> string \<Rightarrow> nat \<Rightarrow> int list \<Rightarrow> Claim list" where
  "appendClaimSpan claims s start chunks =
     (let t = dropWhile isSpace s;
          u = trim_right t;
          from = start + (length s - length t)
      in if u = [] then claims
         else claims @ [\<lparr>cl_Text = u, cl_Start = int from, cl_End = int (from + length u), ChunkIndices = chunks\<rparr>])"

text \<open>The number of a marker, in 64-bit arithmetic.\<close>

fun marker_num :: "u64 \<Rightarrow> string \<Rightarrow> u64" where
  "marker_num n [] = n"
| "marker_num n (c # cs) = marker_num (n * 10 + (of_char c - 48)) cs"

definition isDigit :: "char \<Rightarrow> bool" where
  "isDigit c \<longleftrightarrow> 48 \<le> (of_char c :: nat) \<and> (of_char c :: nat) \<le> 57"

text \<open>\<open>parseMarkers\<close> on the bytes from \<open>pos\<close> on: the indices and the bytes past the run.\<close>

function marker_loop :: "string \<Rightarrow> int list \<Rightarrow> int list \<times> string" where
  "marker_loop [] chunks = (chunks, [])"
| "marker_loop (c # cs) chunks =
     (if c \<noteq> CHR ''['' then (chunks, c # cs)
      else let ds = takeWhile isDigit cs; rest = dropWhile isDigit cs; num = sint (marker_num 0 ds)
           in if ds = [] \<or> rest = [] \<or> hd rest \<noteq> CHR '']'' then (chunks, c # cs)
              else marker_loop (tl rest) (if num > 0 then chunks @ [num - 1] else chunks))"
  by pat_completeness auto
termination
  by (relation "measure (\<lambda>(s, chunks). length s)")
    (auto simp: less_Suc_eq_le intro: order_trans[OF diff_le_self] length_dropWhile_le)

definition parseMarkers :: "string \<Rightarrow> int list \<times> string \<times> bool" where
  "parseMarkers b = (case marker_loop b [] of (chunks, rest) \<Rightarrow> (chunks, rest, length chunks > 0))"

lemma marker_loop_le: "length (snd (marker_loop s chunks)) \<le> length s"
proof (induction "length s" arbitrary: s chunks rule: less_induct)
  case less
  show ?case
  proof (cases s)
    case (Cons c cs)
    let ?r = "tl (dropWhile isDigit cs)"
    have r: "length ?r \<le> length cs" using length_dropWhile_le[of isDigit cs] by simp
    then have "length (snd (marker_loop ?r ch)) \<le> length ?r" for ch using less[of ?r] Cons by simp
    with r have "length (snd (marker_loop ?r ch)) \<le> Suc (length cs)" for ch using order_trans le_SucI by blast
    then show ?thesis unfolding Cons marker_loop.simps Let_def by simp
  qed simp
qed

text \<open>The main loop of \<open>parseCitations\<close> on the unread bytes.\<close>

function citations_loop :: "string \<Rightarrow> string \<Rightarrow> Claim list \<Rightarrow> nat \<Rightarrow> string \<times> Claim list \<times> nat" where
  "citations_loop [] clean claims sentStart = (clean, claims, sentStart)"
| "citations_loop (c # cs) clean claims sentStart =
     (if \<not> isSentenceEnd c then citations_loop cs (clean @ [c]) claims sentStart
      else let clean = clean @ takeWhile isSentenceEnd (c # cs);
               rest = dropWhile isSentenceEnd (c # cs);
               (chunks, after, ok) = parseMarkers (dropWhile isSpace rest);
               claims = appendClaimSpan claims (drop sentStart clean) sentStart chunks
           in if ok
              then let rest = dropWhile isSpace after;
                       clean = (if rest \<noteq> [] then clean @ '' '' else clean)
                   in citations_loop rest clean claims (length clean)
              else citations_loop rest clean claims (length clean))"
  by pat_completeness auto
termination
proof (relation "measure (\<lambda>(s, clean, claims, st). length s)", goal_cases)
  case (3 c cs clean claims sentStart clean' rest p chunks q after ok claims' rest' clean'')
  have "length rest < length (c # cs)" using 3 length_dropWhile_le[of isSentenceEnd cs] by (simp add: less_Suc_eq_le)
  moreover have "length after \<le> length (dropWhile isSpace rest)"
    using 3 marker_loop_le[of "dropWhile isSpace rest" "[]"] by (auto simp: parseMarkers_def split: prod.splits)
  ultimately show ?case using 3 length_dropWhile_le[of isSpace rest] length_dropWhile_le[of isSpace after] by simp
next
  case (4 c cs)
  then show ?case using length_dropWhile_le[of isSentenceEnd cs] by (simp add: less_Suc_eq_le)
qed auto

definition parseCitations :: "string \<Rightarrow> string \<times> Claim list" where
  "parseCitations raw =
     (let (clean, claims, sentStart) = citations_loop raw [] [] 0
      in (clean, if sentStart < length clean then appendClaimSpan claims (drop sentStart clean) sentStart [] else claims))"


text \<open>\<open>Decompose\<close> splits only where white space or the end follows the punctuation. \<open>i\<close> is the position of the unread bytes.\<close>

function decompose_loop :: "string \<Rightarrow> nat \<Rightarrow> string \<Rightarrow> nat \<Rightarrow> Claim list \<Rightarrow> Claim list" where
  "decompose_loop b i [] start claims = appendClaimSpan claims (drop start b) start []"
| "decompose_loop b i (c # cs) start claims =
     (if \<not> isSentenceEnd c then decompose_loop b (i + 1) cs start claims
      else let e = i + 1 + length (takeWhile isSentenceEnd cs); rest = dropWhile isSentenceEnd cs
           in if rest \<noteq> [] \<and> \<not> isSpace (hd rest) then decompose_loop b e rest start claims
              else decompose_loop b (i + 1) cs e (appendClaimSpan claims (take (e - start) (drop start b)) start []))"
  by pat_completeness auto
termination
  by (relation "measure (\<lambda>(b, i, s, start, claims). length s)")
    (auto simp: less_Suc_eq_le length_dropWhile_le)

definition Decompose :: "string \<Rightarrow> Claim list" where
  "Decompose b = decompose_loop b 0 b 0 []"

subsection \<open>Verification\<close>

record Verdict =
  Entailed :: bool
  v_Score :: real

type_synonym Verifier = "string \<Rightarrow> Passage \<Rightarrow> Verdict"

definition check_one :: "Verifier \<Rightarrow> Claim \<Rightarrow> Passage list \<Rightarrow> Verdict \<Rightarrow> int \<Rightarrow> Verdict" where
  "check_one v claim passages best idx =
     (if idx < 0 \<or> idx \<ge> int (length passages) then best
      else let got = v (cl_Text claim) (passages ! nat idx)
           in if Entailed got \<and> (\<not> Entailed best \<or> v_Score got > v_Score best) then got
              else if \<not> Entailed best \<and> v_Score got > v_Score best then best\<lparr>v_Score := v_Score got\<rparr>
              else best)"

definition Check :: "Verifier \<Rightarrow> Claim \<Rightarrow> Passage list \<Rightarrow> Verdict" where
  "Check v claim passages = foldl (check_one v claim passages) \<lparr>Entailed = False, v_Score = 0\<rparr> (ChunkIndices claim)"

record VerifyResult =
  vr_Supports :: "Support list"
  vr_Verified :: bool

definition MinConfidence :: real where "MinConfidence = 1 / 2"

definition correct_step :: "Verifier \<Rightarrow> Passage list \<Rightarrow> real \<Rightarrow> VerifyResult \<Rightarrow> Claim \<Rightarrow> VerifyResult" where
  "correct_step v passages minConf res c =
     (let verdict = Check v c passages
      in if \<not> Entailed verdict \<or> v_Score verdict < minConf then res\<lparr>vr_Verified := False\<rparr>
         else res\<lparr>vr_Supports := vr_Supports res @
           [\<lparr>su_Segment = \<lparr>sg_Start = cl_Start c, sg_End = cl_End c, sg_Text = cl_Text c\<rparr>, su_Chunks = ChunkIndices c\<rparr>]\<rparr>)"

definition Correct :: "Verifier \<Rightarrow> Claim list \<Rightarrow> Passage list \<Rightarrow> real \<Rightarrow> VerifyResult" where
  "Correct v claims passages minConf =
     (let minConf = (if minConf \<le> 0 then MinConfidence else minConf)
      in foldl (correct_step v passages minConf) \<lparr>vr_Supports = [], vr_Verified = True\<rparr> claims)"

subsection \<open>The overlap verifier\<close>

definition stopwords :: "string list" where
  "stopwords = [''the'', ''a'', ''an'', ''is'', ''are'', ''was'', ''were'', ''of'', ''to'', ''and'', ''or'', ''in'', ''on'', ''at'',
     ''by'', ''for'', ''with'', ''as'', ''that'', ''this'', ''it'', ''its'', ''be'', ''has'']"

definition isWord :: "char \<Rightarrow> bool" where
  "isWord c \<longleftrightarrow> 97 \<le> (of_char c :: nat) \<and> (of_char c :: nat) \<le> 122 \<or> 48 \<le> (of_char c :: nat) \<and> (of_char c :: nat) \<le> 57"

text \<open>\<open>strings.FieldsFunc\<close>: the maximal runs of word characters.\<close>

fun word_fields :: "string \<Rightarrow> string \<Rightarrow> string list" where
  "word_fields acc [] = (if acc = [] then [] else [acc])"
| "word_fields acc (c # cs) =
     (if isWord c then word_fields (acc @ [c]) cs
      else (if acc = [] then [] else [acc]) @ word_fields [] cs)"

definition contentWords :: "string \<Rightarrow> string list" where
  "contentWords s = filter (\<lambda>w. w \<notin> set stopwords) (word_fields [] (ToLower s))"

definition OverlapVerifier :: "real \<Rightarrow> Verifier" where
  "OverlapVerifier threshold claim passage =
     (let threshold = (if threshold \<le> 0 then 1 / 2 else threshold);
          claimWords = contentWords claim
      in if length claimWords = 0 then \<lparr>Entailed = False, v_Score = 0\<rparr>
         else let have_words = set (contentWords (pa_Text passage));
                  hit = foldl (\<lambda>n w. if w \<in> have_words then n + 1 else n) (0::nat) claimWords;
                  score = real hit / real (length claimWords)
              in \<lparr>Entailed = score \<ge> threshold, v_Score = score\<rparr>)"

subsection \<open>Claims are spans of the text and cover it\<close>

definition claim_ok :: "string \<Rightarrow> nat \<Rightarrow> Claim \<Rightarrow> bool" where
  "claim_ok b n c \<longleftrightarrow> 0 \<le> cl_Start c \<and> cl_Start c < cl_End c \<and> cl_End c \<le> int n \<and>
     span_text b (cl_Start c) (cl_End c) = cl_Text c \<and> \<not> isSpace (hd (cl_Text c)) \<and> \<not> isSpace (last (cl_Text c))"

definition claims_ok :: "string \<Rightarrow> nat \<Rightarrow> Claim list \<Rightarrow> bool" where
  "claims_ok b n claims \<longleftrightarrow> n \<le> length b \<and> list_all (claim_ok b n) claims \<and>
     sorted_wrt (\<lambda>c d. cl_End c \<le> cl_Start d) claims \<and>
     (\<forall>i < n. \<not> isSpace (b ! i) \<longrightarrow> list_ex (\<lambda>c. cl_Start c \<le> int i \<and> int i < cl_End c) claims)"

lemma claims_ok_Nil: "claims_ok b 0 []"
  by (simp add: claims_ok_def)

lemma claims_ok_append:
  assumes "claims_ok b n claims"
  shows "claims_ok (b @ x) n claims"
proof -
  have n: "n \<le> length b" using assms by (simp add: claims_ok_def)
  have "claim_ok (b @ x) n c" if "claim_ok b n c" for c
    using that n by (auto simp: claim_ok_def span_text_def)
  then show ?thesis using assms n by (auto simp: claims_ok_def list_all_iff nth_append)
qed

lemma claims_ok_space:
  assumes "claims_ok b n claims" "n < length b" "isSpace (b ! n)"
  shows "claims_ok b (Suc n) claims"
  using assms by (auto simp: claims_ok_def claim_ok_def list_all_iff less_Suc_eq)

lemma trim_split:
  obtains xs ys where "s = xs @ trim_right (dropWhile isSpace s) @ ys" "length xs = length s - length (dropWhile isSpace s)"
    "list_all isSpace xs" "list_all isSpace ys"
    "trim_right (dropWhile isSpace s) \<noteq> [] \<longrightarrow>
      \<not> isSpace (hd (trim_right (dropWhile isSpace s))) \<and> \<not> isSpace (last (trim_right (dropWhile isSpace s)))"
proof -
  let ?t = "dropWhile isSpace s" and ?u = "trim_right (dropWhile isSpace s)"
  let ?xs = "takeWhile isSpace s" and ?ys = "rev (takeWhile isSpace (rev ?t))"
  have t: "?t = ?u @ ?ys" unfolding trim_right_def rev_append[symmetric] takeWhile_dropWhile_id by simp
  have "s = ?xs @ ?u @ ?ys" using t takeWhile_dropWhile_id[of isSpace s] by metis
  moreover have "length ?xs = length s - length ?t" using takeWhile_dropWhile_id[of isSpace s] by (metis add_diff_cancel_right' length_append)
  moreover have "list_all isSpace ?xs" "list_all isSpace ?ys" by (auto simp: list_all_iff dest: set_takeWhileD)
  moreover have "\<not> isSpace (hd ?u) \<and> \<not> isSpace (last ?u)" if "?u \<noteq> []"
  proof
    have "hd ?t = hd ?u" using t that by (metis hd_append)
    moreover have "?t \<noteq> []" using t that by force
    ultimately show "\<not> isSpace (hd ?u)" using hd_dropWhile[of isSpace s] by simp
    have "last ?u = hd (dropWhile isSpace (rev ?t))" using that by (simp add: trim_right_def last_rev)
    then show "\<not> isSpace (last ?u)" using that hd_dropWhile[of isSpace "rev ?t"] by (simp add: trim_right_def)
  qed
  ultimately show thesis using that by blast
qed

lemma appendClaimSpan_ok:
  assumes "claims_ok b n claims" "n + length s \<le> length b" "take (length s) (drop n b) = s"
  shows "claims_ok b (n + length s) (appendClaimSpan claims s n chunks)"
proof -
  define u where "u = trim_right (dropWhile isSpace s)"
  obtain xs ys where sp: "s = xs @ u @ ys" "length xs = length s - length (dropWhile isSpace s)" "list_all isSpace xs" "list_all isSpace ys"
    "u \<noteq> [] \<longrightarrow> \<not> isSpace (hd u) \<and> \<not> isSpace (last u)" using trim_split[of s] unfolding u_def by blast
  have b: "b ! (n + j) = s ! j" if "j < length s" for j using assms(2,3) that by (metis nth_take nth_drop add_leD1)
  have mono: "claim_ok b (n + length s) c" if "claim_ok b n c" for c using that by (auto simp: claim_ok_def)
  have old: "list_all (claim_ok b (n + length s)) claims" "sorted_wrt (\<lambda>c d. cl_End c \<le> cl_Start d) claims"
    "\<forall>c \<in> set claims. cl_End c \<le> int n"
    using assms(1) mono by (auto simp: claims_ok_def list_all_iff claim_ok_def)
  have len: "length s = length xs + length u + length ys" using arg_cong[OF sp(1), of length] by simp
  have inner: "length xs \<le> j \<and> j < length xs + length u" if j: "j < length s" "\<not> isSpace (s ! j)" for j
  proof (rule ccontr)
    assume "\<not> (length xs \<le> j \<and> j < length xs + length u)"
    then consider "j < length xs" | "length xs + length u \<le> j" by linarith
    then show False
    proof cases
      case 1
      then have "s ! j = xs ! j" using arg_cong[OF sp(1), of "\<lambda>l. l ! j"] by (simp add: nth_append)
      then show False using 1 sp(3) j(2) by (simp add: list_all_length)
    next
      case 2
      then have "\<not> j < length xs" "\<not> j - length xs < length u" by linarith+
      then have "s ! j = ys ! (j - length xs - length u)" using arg_cong[OF sp(1), of "\<lambda>l. l ! j"] by (simp add: nth_append)
      then show False using 2 sp(4) j len by (simp add: list_all_length)
    qed
  qed
  have cover: "n + length xs \<le> i \<and> i < n + length xs + length u" if i: "n \<le> i" "i < n + length s" "\<not> isSpace (b ! i)" for i
    using inner[of "i - n"] b[of "i - n"] i by simp linarith
  show ?thesis
  proof (cases "u = []")
    case True
    then have "isSpace (b ! i)" if "n \<le> i" "i < n + length s" for i using cover[OF that] by force
    then show ?thesis using assms old True
      by (auto simp: claims_ok_def appendClaimSpan_def Let_def u_def[symmetric]) (meson linorder_not_less)
  next
    case False
    let ?c = "\<lparr>cl_Text = u, cl_Start = int (n + length xs), cl_End = int (n + length xs + length u), ChunkIndices = chunks\<rparr>"
    have a: "appendClaimSpan claims s n chunks = claims @ [?c]" using False sp(2) by (simp add: appendClaimSpan_def Let_def u_def[symmetric])
    have "take (length u) (drop (n + length xs) b) = u"
    proof -
      have "take (length u) (drop (length xs) (take (length s) (drop n b))) = u" unfolding assms(3) using sp(1) by (metis append_eq_conv_conj)
      moreover have "length xs + length u \<le> length s" using arg_cong[OF sp(1), of length] by simp
      ultimately show ?thesis by (simp add: drop_take add.commute)
    qed
    then have "claim_ok b (n + length s) ?c" using False sp(5) arg_cong[OF sp(1), of length] by (simp add: claim_ok_def span_text_def del: of_nat_add)
    moreover have "list_ex (\<lambda>c. cl_Start c \<le> int i \<and> int i < cl_End c) (claims @ [?c])" if "i < n + length s" "\<not> isSpace (b ! i)" for i
      using that cover[of i] assms(1) by (cases "n \<le> i") (auto simp: claims_ok_def)
    ultimately show ?thesis unfolding a using old assms(2) by (auto simp: claims_ok_def sorted_wrt_append)
  qed
qed


lemma claims_ok_rest:
  assumes "claims_ok b n claims"
  shows "claims_ok b (length b) (appendClaimSpan claims (drop n b) n chunks)"
  using appendClaimSpan_ok[OF assms, of "drop n b" chunks] assms by (simp add: claims_ok_def)

lemma citations_loop_ok:
  "claims_ok clean st claims \<Longrightarrow> citations_loop rest clean claims st = (clean', claims', st') \<Longrightarrow> claims_ok clean' st' claims'"
proof (induction rest clean claims st rule: citations_loop.induct)
  case (2 c cs clean claims st)
  show ?case
  proof (cases "isSentenceEnd c")
    case False
    then show ?thesis using "2.IH"(1)[OF False] "2.prems" claims_ok_append by simp
  next
    case True
    let ?clean = "clean @ takeWhile isSentenceEnd (c # cs)" and ?rest = "dropWhile isSentenceEnd (c # cs)"
    obtain chunks after ok where p: "parseMarkers (dropWhile isSpace ?rest) = (chunks, after, ok)" by (cases "parseMarkers (dropWhile isSpace ?rest)") auto
    let ?claims = "appendClaimSpan claims (drop st ?clean) st chunks"
    have full: "claims_ok ?clean (length ?clean) ?claims" by (rule claims_ok_rest[OF claims_ok_append[OF "2.prems"(1)]])
    show ?thesis
    proof (cases ok)
      case ok: True
      let ?rest2 = "dropWhile isSpace after"
      let ?clean2 = "if ?rest2 \<noteq> [] then ?clean @ '' '' else ?clean"
      have "claims_ok (?clean @ '' '') (length (?clean @ '' '')) ?claims"
        using claims_ok_space[OF claims_ok_append[OF full, of "'' ''"]] by (simp add: isSpace_def nth_append)
      then have "claims_ok ?clean2 (length ?clean2) ?claims" using full by simp
      moreover have "citations_loop (c # cs) clean claims st = citations_loop ?rest2 ?clean2 ?claims (length ?clean2)"
        using True p ok by (simp add: Let_def del: takeWhile.simps dropWhile.simps)
      ultimately show ?thesis using "2.IH"(2)[OF _ refl refl p[symmetric] refl refl refl _ refl refl] True ok "2.prems"(2) by simp
    next
      case nok: False
      have "citations_loop (c # cs) clean claims st = citations_loop ?rest ?clean ?claims (length ?clean)"
        using True p nok by (simp add: Let_def del: takeWhile.simps dropWhile.simps)
      then show ?thesis using "2.IH"(3)[OF _ refl refl p[symmetric] refl refl refl] True nok full "2.prems"(2) by simp
    qed
  qed
qed simp

lemma parseCitations_ok:
  assumes "parseCitations raw = (clean, claims)"
  shows "claims_ok clean (length clean) claims"
proof -
  obtain claims0 st where l: "citations_loop raw [] [] 0 = (clean, claims0, st)"
    using assms by (auto simp: parseCitations_def split: prod.splits)
  have ok: "claims_ok clean st claims0" by (rule citations_loop_ok[OF claims_ok_Nil l])
  show ?thesis
  proof (cases "st < length clean")
    case True
    then show ?thesis using assms l claims_ok_rest[OF ok, of "[]"] by (simp add: parseCitations_def)
  next
    case False
    then have "st = length clean" using ok by (simp add: claims_ok_def)
    then show ?thesis using assms l ok by (simp add: parseCitations_def)
  qed
qed

lemma decompose_loop_ok:
  assumes "claims_ok b start claims" "drop i b = rest" "start \<le> i + length (takeWhile isSentenceEnd rest)" "i \<le> length b"
  shows "claims_ok b (length b) (decompose_loop b i rest start claims)"
  using assms
proof (induction b i rest start claims rule: decompose_loop.induct)
  case (1 b i start claims)
  from claims_ok_rest[OF "1.prems"(1), of "[]"] show ?case by simp
next
  case (2 b i c cs start claims)
  have i: "i < length b" "drop (Suc i) b = cs" using "2.prems"(2) by (metis drop_eq_Nil linorder_not_le list.discI, metis drop_Suc drop_tl list.sel(3) tl_drop)
  show ?case
  proof (cases "isSentenceEnd c")
    case False
    then show ?thesis using "2.IH"(1)[OF False] "2.prems" i by simp
  next
    case True
    let ?e = "i + 1 + length (takeWhile isSentenceEnd cs)" and ?rest = "dropWhile isSentenceEnd cs"
    have e: "start \<le> ?e" "?e \<le> length b" "drop ?e b = ?rest"
      using "2.prems"(3) True i length_takeWhile_le[of isSentenceEnd cs]
      by (simp, metis Suc_eq_plus1 Suc_leI add_le_mono1 length_drop le_diff_conv2 add.commute length_takeWhile_le,
          metis Suc_eq_plus1 add.commute drop_drop dropWhile_eq_drop)
    show ?thesis
    proof (cases "?rest \<noteq> [] \<and> \<not> isSpace (hd ?rest)")
      case jump: True
      then show ?thesis using "2.IH"(2)[OF _ refl refl] True e "2.prems"(1) by (simp add: le_add1 trans_le_add1 Let_def)
    next
      case False
      have "claims_ok b ?e (appendClaimSpan claims (take (?e - start) (drop start b)) start [])"
        using appendClaimSpan_ok[OF "2.prems"(1), of "take (?e - start) (drop start b)" "[]"] e by simp
      then show ?thesis using "2.IH"(3)[OF _ refl refl] True False i by (auto simp: Let_def)
    qed
  qed
qed

lemma Decompose_ok: "claims_ok b (length b) (Decompose b)"
  unfolding Decompose_def by (rule decompose_loop_ok[OF claims_ok_Nil]) simp_all


subsection \<open>What passes verification\<close>

definition in_range :: "Passage list \<Rightarrow> int \<Rightarrow> bool" where
  "in_range ps idx \<longleftrightarrow> 0 \<le> idx \<and> idx < int (length ps)"

text \<open>A claim is entailed if and only if some cited passage entails it, and then the verdict is that of one with the best score.\<close>

lemma Check_spec:
  "(Entailed (Check v c ps) \<longleftrightarrow> list_ex (\<lambda>i. in_range ps i \<and> Entailed (v (cl_Text c) (ps ! nat i))) (ChunkIndices c)) \<and>
   (Entailed (Check v c ps) \<longrightarrow> list_ex (\<lambda>i. in_range ps i \<and> Check v c ps = v (cl_Text c) (ps ! nat i)) (ChunkIndices c) \<and>
     list_all (\<lambda>i. in_range ps i \<and> Entailed (v (cl_Text c) (ps ! nat i)) \<longrightarrow> v_Score (v (cl_Text c) (ps ! nat i)) \<le> v_Score (Check v c ps)) (ChunkIndices c))"
proof -
  have "(Entailed (foldl (check_one v c ps) \<lparr>Entailed = False, v_Score = 0\<rparr> is) \<longleftrightarrow> list_ex (\<lambda>i. in_range ps i \<and> Entailed (v (cl_Text c) (ps ! nat i))) is) \<and>
   (Entailed (foldl (check_one v c ps) \<lparr>Entailed = False, v_Score = 0\<rparr> is) \<longrightarrow>
     list_ex (\<lambda>i. in_range ps i \<and> foldl (check_one v c ps) \<lparr>Entailed = False, v_Score = 0\<rparr> is = v (cl_Text c) (ps ! nat i)) is \<and>
     list_all (\<lambda>i. in_range ps i \<and> Entailed (v (cl_Text c) (ps ! nat i)) \<longrightarrow>
       v_Score (v (cl_Text c) (ps ! nat i)) \<le> v_Score (foldl (check_one v c ps) \<lparr>Entailed = False, v_Score = 0\<rparr> is)) is)" for "is"
  proof (induction "is" rule: rev_induct)
    case (snoc i "is")
    define best where "best = foldl (check_one v c ps) \<lparr>Entailed = False, v_Score = 0\<rparr> is"
    define got where "got = v (cl_Text c) (ps ! nat i)"
    have st: "foldl (check_one v c ps) \<lparr>Entailed = False, v_Score = 0\<rparr> (is @ [i]) =
        (if \<not> in_range ps i then best else if Entailed got \<and> (\<not> Entailed best \<or> v_Score got > v_Score best) then got
         else if \<not> Entailed best \<and> v_Score got > v_Score best then best\<lparr>v_Score := v_Score got\<rparr> else best)"
      by (auto simp: check_one_def in_range_def best_def got_def Let_def)
    note IH = snoc.IH[folded best_def]
    show ?case
    proof (cases "in_range ps i")
      case False
      then show ?thesis unfolding st using IH by auto
    next
      case True
      then show ?thesis unfolding st using IH by (cases "Entailed got"; cases "Entailed best"; cases "v_Score got > v_Score best")
          (auto simp: list_all_iff list_ex_iff got_def[symmetric])
    qed
  qed simp
  then show ?thesis unfolding Check_def .
qed

definition supported :: "Verifier \<Rightarrow> Passage list \<Rightarrow> real \<Rightarrow> Claim \<Rightarrow> bool" where
  "supported v ps minConf c \<longleftrightarrow>
     list_ex (\<lambda>i. in_range ps i \<and> Entailed (v (cl_Text c) (ps ! nat i)) \<and> v_Score (v (cl_Text c) (ps ! nat i)) \<ge> minConf) (ChunkIndices c)"

lemma Check_supported: "supported v ps minConf c \<longleftrightarrow> Entailed (Check v c ps) \<and> v_Score (Check v c ps) \<ge> minConf"
proof
  assume "supported v ps minConf c"
  then obtain i where i: "i \<in> set (ChunkIndices c)" "in_range ps i" "Entailed (v (cl_Text c) (ps ! nat i))" "v_Score (v (cl_Text c) (ps ! nat i)) \<ge> minConf"
    by (auto simp: supported_def list_ex_iff)
  then have "Entailed (Check v c ps)" using Check_spec[of v c ps] by (auto simp: list_ex_iff)
  moreover have "v_Score (v (cl_Text c) (ps ! nat i)) \<le> v_Score (Check v c ps)"
    using calculation i Check_spec[of v c ps] by (auto simp: list_all_iff)
  ultimately show "Entailed (Check v c ps) \<and> v_Score (Check v c ps) \<ge> minConf" using i(4) by simp
next
  assume a: "Entailed (Check v c ps) \<and> v_Score (Check v c ps) \<ge> minConf"
  then obtain i where "i \<in> set (ChunkIndices c)" "in_range ps i" "Check v c ps = v (cl_Text c) (ps ! nat i)"
    using Check_spec[of v c ps] by (auto simp: list_ex_iff)
  with a show "supported v ps minConf c" by (auto simp: supported_def list_ex_iff)
qed

definition support_of :: "Claim \<Rightarrow> Support" where
  "support_of c = \<lparr>su_Segment = \<lparr>sg_Start = cl_Start c, sg_End = cl_End c, sg_Text = cl_Text c\<rparr>, su_Chunks = ChunkIndices c\<rparr>"

lemma Correct_spec:
  "Correct v claims ps minConf =
     (let m = (if minConf \<le> 0 then MinConfidence else minConf)
      in \<lparr>vr_Supports = map support_of (filter (supported v ps m) claims), vr_Verified = list_all (supported v ps m) claims\<rparr>)"
proof -
  have "foldl (correct_step v ps m) \<lparr>vr_Supports = [], vr_Verified = True\<rparr> cs =
      \<lparr>vr_Supports = map support_of (filter (supported v ps m) cs), vr_Verified = list_all (supported v ps m) cs\<rparr>" for m cs
    by (induction cs rule: rev_induct) (auto simp: correct_step_def Let_def Check_supported support_of_def)
  then show ?thesis by (simp add: Correct_def Let_def)
qed

subsection \<open>Markers go where the claims end\<close>

fun annotate :: "string \<Rightarrow> nat \<Rightarrow> Support list \<Rightarrow> string" where
  "annotate b pos [] = drop pos b"
| "annotate b pos (s # ss) =
     take (nat (sg_End (su_Segment s)) - pos) (drop pos b) @ Marker (su_Chunks s) @ annotate b (nat (sg_End (su_Segment s))) ss"

abbreviation ends :: "Support \<Rightarrow> int" where
  "ends s \<equiv> sg_End (su_Segment s)"

lemma annotate_split:
  assumes "pos \<le> e" "e \<le> length b" "\<forall>s \<in> set ss. int e \<le> ends s"
  shows "annotate b pos ss = take (e - pos) (drop pos b) @ annotate b e ss"
proof (cases ss)
  case Nil
  then show ?thesis using assms by (metis annotate.simps(1) append_take_drop_id drop_drop le_add_diff_inverse2)
next
  case (Cons s ss')
  then have "int e \<le> ends s" using assms(3) by simp
  then have "e \<le> nat (ends s)" by linarith
  then have "take (nat (ends s) - pos) (drop pos b) = take (e - pos) (drop pos b) @ take (nat (ends s) - e) (drop e b)"
  proof -
    obtain k l where "e = pos + k" "nat (ends s) = e + l" using assms(1) \<open>e \<le> nat (ends s)\<close> le_Suc_ex by metis
    then show ?thesis by (simp add: add.assoc take_add add.commute)
  qed
  then show ?thesis by (simp add: Cons)
qed

lemma Insert_annotate:
  assumes "sorted_wrt (\<lambda>s t. ends s < ends t) ss" "\<forall>s \<in> set ss. 0 \<le> ends s \<and> ends s \<le> int (length b)"
  shows "Insert b ss = Some (annotate b 0 ss)"
proof -
  have "sorted (map (\<lambda>s. - ends s) (rev ss))" using assms(1) by (induction ss) (auto simp: sorted_append less_imp_le)
  moreover have "distinct (map (\<lambda>s. - ends s) (rev ss))" using assms(1) by (induction ss) auto
  ultimately have srt: "sort_key (\<lambda>s. - ends s) ss = rev ss"
    by (intro sort_key_inj_key_eq) (auto simp: distinct_map)
  have "foldl (\<lambda>b s. case b of None \<Rightarrow> None | Some b \<Rightarrow> insert_one b s) (Some b) (rev ss) = Some (annotate b 0 ss)"
    using assms
  proof (induction ss)
    case (Cons s ss)
    have e: "0 \<le> ends s" "ends s \<le> int (length b)" "\<forall>t \<in> set ss. int (nat (ends s)) \<le> ends t" using Cons.prems by auto
    have a: "annotate b 0 ss = take (nat (ends s)) b @ annotate b (nat (ends s)) ss"
      using annotate_split[of 0 "nat (ends s)" b ss] e by simp
    obtain m where m: "ends s = int m" "m \<le> length b" using e zero_le_imp_eq_int by fastforce
    then have "insert_one (annotate b 0 ss) s = Some (annotate b 0 (s # ss))"
      using a by (simp add: insert_one_def Let_def)
    then show ?case using Cons by simp
  qed simp
  then show ?thesis by (simp add: Insert_def srt)
qed

subsection \<open>The grounding record validates\<close>

lemma validate_loop_None: "validate_loop b chunks i ss = None \<longleftrightarrow> (\<forall>k < length ss. check_support b chunks (i + k) (ss ! k) = None)"
  by (induction ss arbitrary: i) (auto simp: nth_Cons All_less_Suc2 less_Suc_eq_0_disj split: option.splits nat.splits)

lemma check_support_None:
  "check_support b chunks i s = None \<longleftrightarrow>
     0 \<le> sg_Start (su_Segment s) \<and> sg_Start (su_Segment s) \<le> sg_End (su_Segment s) \<and> sg_End (su_Segment s) \<le> int (length b) \<and>
     span_text b (sg_Start (su_Segment s)) (sg_End (su_Segment s)) = sg_Text (su_Segment s) \<and> su_Chunks s \<noteq> [] \<and>
     list_all (\<lambda>c. 0 \<le> c \<and> c < int (length chunks)) (su_Chunks s)"
  by (auto simp: check_support_def Let_def find_None_iff find_Some_iff list_all_iff not_le not_less split: option.splits intro: nth_mem)

text \<open>The supports of checked claims pass validation exactly when every citation they carry names a chunk: the spans and their
  text are always right.\<close>

lemma Validate_claims:
  assumes "claims_ok b n claims"
  shows "Validate \<lparr>md_Chunks = chunks, md_Supports = map support_of claims\<rparr> b = None \<longleftrightarrow>
    list_all (\<lambda>c. ChunkIndices c \<noteq> [] \<and> list_all (\<lambda>i. 0 \<le> i \<and> i < int (length chunks)) (ChunkIndices c)) claims"
proof -
  have "claim_ok b n c" "n \<le> length b" if "c \<in> set claims" for c using assms that by (auto simp: claims_ok_def list_all_iff)
  then have "check_support b chunks i (support_of c) = None \<longleftrightarrow>
      ChunkIndices c \<noteq> [] \<and> list_all (\<lambda>i. 0 \<le> i \<and> i < int (length chunks)) (ChunkIndices c)" if "c \<in> set claims" for c i
    using that by (fastforce simp: check_support_None support_of_def claim_ok_def)
  then show ?thesis by (auto simp: Validate_def validate_loop_None list_all_length)
qed

end
