(* ===== verification/Harness.thy ===== *)
theory Harness
  imports RankEval AnswerEval Grounding
begin

text \<open>
  \<open>harness/\<close>: the evaluation gates over the metrics of \<open>rank/eval\<close> and \<open>answer/eval\<close>, and the latency percentile. Judgments are
  association lists, figures reals, durations integers. Formatting a regression for a message is left out.
\<close>

record Query =
  q_ID :: string
  Rel :: "string judgments"

type_synonym Ranker = "Query \<Rightarrow> string list"

record RelevanceReport =
  rr_K :: int
  rr_NDCG :: real
  rr_MRR :: real
  rr_Recall :: real
  rr_Queries :: nat

definition EvalRelevance :: "Query list \<Rightarrow> Ranker \<Rightarrow> int \<Rightarrow> RelevanceReport" where
  "EvalRelevance queries rank k =
     \<lparr>rr_K = k,
      rr_NDCG = Mean (map (\<lambda>q. NDCGAtK (rank q) (Rel q) k) queries),
      rr_MRR = Mean (map (\<lambda>q. MRRAtK (rank q) (Rel q) k) queries),
      rr_Recall = Mean (map (\<lambda>q. RecallAtK (rank q) (Rel q) k) queries),
      rr_Queries = length queries\<rparr>"

record Baseline =
  b_NDCG :: real
  b_MRR :: real
  b_Recall :: real
  b_Tolerance :: real

record Regression =
  rg_Metric :: string
  rg_Baseline :: real
  rg_Got :: real

definition gate_check :: "real \<Rightarrow> Regression list \<Rightarrow> string \<Rightarrow> real \<Rightarrow> real \<Rightarrow> Regression list" where
  "gate_check tolerance regs name base got =
     (if got < base - tolerance then regs @ [\<lparr>rg_Metric = name, rg_Baseline = base, rg_Got = got\<rparr>] else regs)"

definition GateRelevance :: "Baseline \<Rightarrow> RelevanceReport \<Rightarrow> Regression list" where
  "GateRelevance b r =
     (let regs = gate_check (b_Tolerance b) [] (''NDCG@'' @ format_int (rr_K r)) (b_NDCG b) (rr_NDCG r);
          regs = gate_check (b_Tolerance b) regs (''MRR@'' @ format_int (rr_K r)) (b_MRR b) (rr_MRR r)
      in gate_check (b_Tolerance b) regs (''Recall@'' @ format_int (rr_K r)) (b_Recall b) (rr_Recall r))"

record AnswerJudgment =
  ClaimsEntailed :: "bool list"
  SentencesEntailed :: "bool list"
  CitationsNecessary :: "bool list"
  ReferenceSupported :: "bool list"

record AnswerReport =
  ar_Faithfulness :: real
  ar_CitationRecall :: real
  ar_CitationPrecision :: real
  CitationF1 :: real
  ar_ContextRecall :: real
  ar_Queries :: nat

definition EvalAnswer :: "AnswerJudgment list \<Rightarrow> AnswerReport" where
  "EvalAnswer judgments =
     (let rep = \<lparr>ar_Faithfulness = Mean_score (map (\<lambda>j. Faithfulness (ClaimsEntailed j)) judgments),
                 ar_CitationRecall = Mean_score (map (\<lambda>j. CitationRecall (SentencesEntailed j)) judgments),
                 ar_CitationPrecision = Mean_score (map (\<lambda>j. CitationPrecision (CitationsNecessary j)) judgments),
                 CitationF1 = 0,
                 ar_ContextRecall = Mean_score (map (\<lambda>j. ContextRecall (ReferenceSupported j)) judgments),
                 ar_Queries = length judgments\<rparr>
      in rep\<lparr>CitationF1 := F1 (ar_CitationRecall rep) (ar_CitationPrecision rep)\<rparr>)"

record AnswerBaseline =
  ab_Faithfulness :: real
  ab_CitationRecall :: real
  ab_CitationPrecision :: real
  ab_ContextRecall :: real
  ab_Tolerance :: real

definition GateAnswer :: "AnswerBaseline \<Rightarrow> AnswerReport \<Rightarrow> Regression list" where
  "GateAnswer b r =
     (let regs = gate_check (ab_Tolerance b) [] ''Faithfulness'' (ab_Faithfulness b) (ar_Faithfulness r);
          regs = gate_check (ab_Tolerance b) regs ''CitationRecall'' (ab_CitationRecall b) (ar_CitationRecall r);
          regs = gate_check (ab_Tolerance b) regs ''CitationPrecision'' (ab_CitationPrecision b) (ar_CitationPrecision r)
      in gate_check (ab_Tolerance b) regs ''ContextRecall'' (ab_ContextRecall b) (ar_ContextRecall r))"

definition Percentile :: "int list \<Rightarrow> real \<Rightarrow> int" where
  "Percentile durations q =
     (if length durations = 0 then 0
      else let xs = sort durations
           in if q \<le> 0 then xs ! 0
              else if q \<ge> 1 then xs ! (length xs - 1)
              else xs ! nat \<lfloor>q * real (length xs - 1) + 1 / 2\<rfloor>)"

subsection \<open>Reports lie in the unit interval\<close>

lemma mean_unit:
  assumes "\<forall>x \<in> set xs. 0 \<le> x \<and> x \<le> (1::real)"
  shows "0 \<le> foldl (+) 0 xs / real (length xs) \<and> foldl (+) 0 xs / real (length xs) \<le> 1"
proof -
  have "foldl (+) c xs = c + sum_list xs" for c :: real by (induction xs arbitrary: c) simp_all
  moreover have "0 \<le> sum_list xs \<and> sum_list xs \<le> real (length xs)" using assms by (induction xs) auto
  ultimately show ?thesis by (cases "xs = []") (simp_all add: divide_simps)
qed

lemma Mean_unit: "\<forall>x \<in> set xs. 0 \<le> x \<and> x \<le> 1 \<Longrightarrow> 0 \<le> Mean xs \<and> Mean xs \<le> 1"
  using mean_unit[of xs] by (simp add: Mean_def)

lemma Mean_score_unit: "\<forall>x \<in> set xs. 0 \<le> x \<and> x \<le> 1 \<Longrightarrow> 0 \<le> Mean_score xs \<and> Mean_score xs \<le> 1"
  using mean_unit[of xs] by (simp add: Mean_score_def)

lemma mrr_loop_unit: "0 \<le> mrr_loop rel i ds \<and> mrr_loop rel i ds \<le> 1"
  by (induction rel i ds rule: mrr_loop.induct) (auto simp: divide_simps)

lemma Recall_unit:
  assumes "distinct ranked" "distinct (map fst rel)"
  shows "0 \<le> RecallAtK ranked rel k \<and> RecallAtK ranked rel k \<le> 1"
proof -
  let ?n = "nat (if k > int (length ranked) then int (length ranked) else k)"
  have found: "foldl (\<lambda>n i. if grade rel (ranked ! i) > 0 then n + 1 else n) (0::nat) [0..<m] = card {i. i < m \<and> grade rel (ranked ! i) > 0}" for m
  proof (induction m)
    case (Suc m)
    have "{i. i < Suc m \<and> grade rel (ranked ! i) > 0} = (if grade rel (ranked ! m) > 0 then insert m {i. i < m \<and> grade rel (ranked ! i) > 0} else {i. i < m \<and> grade rel (ranked ! i) > 0})"
      by (auto simp: less_Suc_eq)
    then show ?case using Suc by simp
  qed simp
  have total: "numRelevant rel = length (filter (\<lambda>(d, g). g > 0) rel)"
  proof -
    have "foldl (\<lambda>n (d, g). if g > 0 then n + 1 else n) n rel = n + length (filter (\<lambda>(d, g). g > 0) rel)" for n
      by (induction rel arbitrary: n) auto
    then show ?thesis by (simp add: numRelevant_def)
  qed
  have n: "?n \<le> length ranked" by auto
  have "(\<lambda>i. ranked ! i) ` {i. i < ?n \<and> grade rel (ranked ! i) > 0} \<subseteq> fst ` set (filter (\<lambda>(d, g). g > 0) rel)"
  proof
    fix d
    assume "d \<in> (\<lambda>i. ranked ! i) ` {i. i < ?n \<and> grade rel (ranked ! i) > 0}"
    then have "grade rel d > 0" by auto
    then obtain g where "map_of rel d = Some g" "g > 0" by (auto simp: grade_def split: option.splits)
    then have "(d, g) \<in> set (filter (\<lambda>(d, g). g > 0) rel)" by (simp add: map_of_SomeD)
    then show "d \<in> fst ` set (filter (\<lambda>(d, g). g > 0) rel)" by (intro image_eqI[of _ _ "(d, g)"]) simp_all
  qed
  moreover have "inj_on (\<lambda>i. ranked ! i) {i. i < ?n \<and> grade rel (ranked ! i) > 0}" using assms(1) n by (auto simp: inj_on_def nth_eq_iff_index_eq)
  ultimately have "card {i. i < ?n \<and> grade rel (ranked ! i) > 0} \<le> card (fst ` set (filter (\<lambda>(d, g). g > 0) rel))"
    by (auto dest: card_mono[rotated] simp: card_image)
  also have "\<dots> \<le> card (set (filter (\<lambda>(d, g). g > 0) rel))" by (rule card_image_le) simp
  also have "\<dots> \<le> length (filter (\<lambda>(d, g). g > 0) rel)" by (rule card_length)
  finally have "card {i. i < ?n \<and> grade rel (ranked ! i) > 0} \<le> numRelevant rel" by (simp add: total)
  then show ?thesis by (simp add: RecallAtK_def Let_def found divide_simps)
qed

text \<open>The gate reports exactly the metrics that fall short of the baseline by more than the tolerance, in a fixed order.\<close>

definition short :: "real \<Rightarrow> string \<times> real \<times> real \<Rightarrow> bool" where
  "short tol = (\<lambda>(name, base, got). got < base - tol)"

definition as_regression :: "string \<times> real \<times> real \<Rightarrow> Regression" where
  "as_regression = (\<lambda>(name, base, got). \<lparr>rg_Metric = name, rg_Baseline = base, rg_Got = got\<rparr>)"

lemma GateRelevance_eq:
  "GateRelevance b r = map as_regression (filter (short (b_Tolerance b))
     [(''NDCG@'' @ format_int (rr_K r), b_NDCG b, rr_NDCG r), (''MRR@'' @ format_int (rr_K r), b_MRR b, rr_MRR r),
      (''Recall@'' @ format_int (rr_K r), b_Recall b, rr_Recall r)])"
  by (simp add: GateRelevance_def gate_check_def Let_def short_def as_regression_def)

lemma GateAnswer_eq:
  "GateAnswer b r = map as_regression (filter (short (ab_Tolerance b))
     [(''Faithfulness'', ab_Faithfulness b, ar_Faithfulness r), (''CitationRecall'', ab_CitationRecall b, ar_CitationRecall r),
      (''CitationPrecision'', ab_CitationPrecision b, ar_CitationPrecision r), (''ContextRecall'', ab_ContextRecall b, ar_ContextRecall r)])"
  by (simp add: GateAnswer_def gate_check_def Let_def short_def as_regression_def)

text \<open>For rankings without repeats every figure of a relevance report lies in the unit interval, the build passes exactly when no
  figure is more than the tolerance below its baseline, and an empty query set never passes a baseline above the tolerance.\<close>

theorem EvalRelevance_gate:
  assumes "\<forall>q \<in> set queries. distinct (rank q) \<and> distinct (map fst (Rel q))"
  shows "(let r = EvalRelevance queries rank k in
      0 \<le> rr_NDCG r \<and> rr_NDCG r \<le> 1 \<and> 0 \<le> rr_MRR r \<and> rr_MRR r \<le> 1 \<and> 0 \<le> rr_Recall r \<and> rr_Recall r \<le> 1 \<and>
      (GateRelevance b r = [] \<longleftrightarrow> rr_NDCG r \<ge> b_NDCG b - b_Tolerance b \<and> rr_MRR r \<ge> b_MRR b - b_Tolerance b \<and> rr_Recall r \<ge> b_Recall b - b_Tolerance b) \<and>
      (queries = [] \<and> b_NDCG b > b_Tolerance b \<longrightarrow> GateRelevance b r \<noteq> []))"
proof -
  have n: "\<forall>x \<in> set (map (\<lambda>q. NDCGAtK (rank q) (Rel q) k) queries). 0 \<le> x \<and> x \<le> 1" using assms NDCG_unit by auto
  have m: "\<forall>x \<in> set (map (\<lambda>q. MRRAtK (rank q) (Rel q) k) queries). 0 \<le> x \<and> x \<le> 1" by (auto simp: MRRAtK_def Let_def mrr_loop_unit)
  have r: "\<forall>x \<in> set (map (\<lambda>q. RecallAtK (rank q) (Rel q) k) queries). 0 \<le> x \<and> x \<le> 1" using assms Recall_unit by auto
  show ?thesis unfolding Let_def GateRelevance_eq
    using Mean_unit[OF n] Mean_unit[OF m] Mean_unit[OF r] by (auto simp: EvalRelevance_def short_def Mean_def)
qed

theorem EvalRelevance_gate_witness:
  "rr_NDCG (EvalRelevance [\<lparr>q_ID = ''q'', Rel = [(''a'', 1)]\<rparr>] (\<lambda>q. [''a'']) 10) \<le> 1"
  using EvalRelevance_gate[of "[\<lparr>q_ID = ''q'', Rel = [(''a'', 1)]\<rparr>]" "\<lambda>q. [''a'']" 10] by (simp add: Let_def)

text \<open>An answer report lies in the unit interval too, the harmonic mean between its two parts.\<close>

lemma share_unit: "0 \<le> Faithfulness xs \<and> Faithfulness xs \<le> 1" "0 \<le> CitationRecall xs \<and> CitationRecall xs \<le> 1"
  "0 \<le> CitationPrecision xs \<and> CitationPrecision xs \<le> 1" "0 \<le> ContextRecall xs \<and> ContextRecall xs \<le> 1"
  using fraction_unit[of xs] by (auto simp: Faithfulness_def CitationRecall_def CitationPrecision_def ContextRecall_def)

lemma F1_between:
  assumes "0 \<le> r" "0 \<le> p"
  shows "min r p \<le> F1 r p \<and> F1 r p \<le> max r p"
proof (cases "r + p = 0")
  case False
  then have "0 < r + p" using assms by simp
  moreover have "min r p * (r + p) \<le> 2 * r * p \<and> 2 * r * p \<le> max r p * (r + p)"
    using assms by (auto simp: min_def max_def algebra_simps mult_right_mono mult_left_mono)
  ultimately show ?thesis using False by (simp add: F1_def pos_le_divide_eq pos_divide_le_eq)
qed (use assms in \<open>auto simp: F1_def\<close>)

lemma EvalAnswer_unit:
  "0 \<le> ar_Faithfulness (EvalAnswer js) \<and> ar_Faithfulness (EvalAnswer js) \<le> 1" "0 \<le> ar_ContextRecall (EvalAnswer js) \<and> ar_ContextRecall (EvalAnswer js) \<le> 1"
  "0 \<le> CitationF1 (EvalAnswer js) \<and> CitationF1 (EvalAnswer js) \<le> 1"
proof -
  let ?r = "Mean_score (map (\<lambda>j. CitationRecall (SentencesEntailed j)) js)" and ?p = "Mean_score (map (\<lambda>j. CitationPrecision (CitationsNecessary j)) js)"
  have "0 \<le> ?r \<and> ?r \<le> 1" "0 \<le> ?p \<and> ?p \<le> 1" by (intro Mean_score_unit; simp add: share_unit)+
  then show "0 \<le> CitationF1 (EvalAnswer js) \<and> CitationF1 (EvalAnswer js) \<le> 1"
    using F1_between[of ?r ?p] by (auto simp: EvalAnswer_def Let_def min_def max_def split: if_splits)
  show "0 \<le> ar_Faithfulness (EvalAnswer js) \<and> ar_Faithfulness (EvalAnswer js) \<le> 1"
    using Mean_score_unit[of "map (\<lambda>j. Faithfulness (ClaimsEntailed j)) js"] by (simp add: EvalAnswer_def Let_def share_unit)
  show "0 \<le> ar_ContextRecall (EvalAnswer js) \<and> ar_ContextRecall (EvalAnswer js) \<le> 1"
    using Mean_score_unit[of "map (\<lambda>j. ContextRecall (ReferenceSupported j)) js"] by (simp add: EvalAnswer_def Let_def share_unit)
qed

text \<open>The percentile is one of the latencies, never decreases with \<open>q\<close>, and its rank is within the list.\<close>

lemma Percentile_rank:
  assumes "durations \<noteq> []"
  shows "\<exists>i < length durations. Percentile durations q = sort durations ! i \<and>
    i = (if q \<le> 0 then 0 else if q \<ge> 1 then length durations - 1 else nat \<lfloor>q * real (length durations - 1) + 1 / 2\<rfloor>)"
proof -
  have "nat \<lfloor>q * real (length durations - 1) + 1 / 2\<rfloor> < length durations" if "0 < q" "q < 1"
  proof -
    have "q * real (length durations - 1) \<le> real (length durations - 1)" using that by (simp add: mult_left_le_one_le)
    then have "\<lfloor>q * real (length durations - 1) + 1 / 2\<rfloor> \<le> int (length durations - 1)" by linarith
    moreover have "0 < length durations" using assms by simp
    ultimately show ?thesis by linarith
  qed
  then show ?thesis using assms by (auto simp: Percentile_def Let_def)
qed

lemma Percentile_mono:
  assumes "p \<le> q"
  shows "Percentile durations p \<le> Percentile durations q"
proof (cases "durations = []")
  case False
  obtain i where i: "i < length durations" "Percentile durations p = sort durations ! i"
    "i = (if p \<le> 0 then 0 else if p \<ge> 1 then length durations - 1 else nat \<lfloor>p * real (length durations - 1) + 1 / 2\<rfloor>)"
    using Percentile_rank[OF False, of p] by blast
  obtain j where j: "j < length durations" "Percentile durations q = sort durations ! j"
    "j = (if q \<le> 0 then 0 else if q \<ge> 1 then length durations - 1 else nat \<lfloor>q * real (length durations - 1) + 1 / 2\<rfloor>)"
    using Percentile_rank[OF False, of q] by blast
  have "p * real (length durations - 1) \<le> q * real (length durations - 1)" using assms by (simp add: mult_right_mono)
  then have "nat \<lfloor>p * real (length durations - 1) + 1 / 2\<rfloor> \<le> nat \<lfloor>q * real (length durations - 1) + 1 / 2\<rfloor>" by (intro nat_mono floor_mono) simp
  then have "i \<le> j" using assms i(1,3) j(1,3) by (auto split: if_splits)
  then show ?thesis using i(2) j(1,2) by (simp add: sorted_nth_mono)
qed (simp add: Percentile_def)

end
