(* ===== verification/Capacity.thy ===== *)
theory Capacity
  imports Prelude Complex_Main
begin

text \<open>
  \<open>capacity/\<close>: the cost formulas over the reals, byte counts in 64 bits, and the build plan and risk register as data. A cost of
  plus infinity is \<open>None\<close>.
\<close>

definition Float32 :: int where "Float32 = 4"

definition Float16 :: int where "Float16 = 2"

definition Int8 :: int where "Int8 = 1"

definition CostPer1MTokens :: "real \<Rightarrow> real \<Rightarrow> real option" where
  "CostPer1MTokens pricePerHour tokensPerSec =
     (if tokensPerSec \<le> 0 then None else Some (pricePerHour / tokensPerSec / 3600 * 10 ^ 6))"

definition BlendedCost :: "real list \<Rightarrow> real list \<Rightarrow> real" where
  "BlendedCost fractions costs =
     (if length fractions \<noteq> length costs \<or> length fractions = 0 then 0
      else foldl (\<lambda>t i. t + fractions ! i * costs ! i) 0 [0..<length fractions])"

definition VectorBytes :: "int \<Rightarrow> int \<Rightarrow> int \<Rightarrow> u64" where
  "VectorBytes n dm bytesPerComponent =
     (if n \<le> 0 \<or> dm \<le> 0 \<or> bytesPerComponent \<le> 0 then 0
      else word_of_int n * word_of_int dm * word_of_int bytesPerComponent)"

definition SavingFraction :: "real \<Rightarrow> real \<Rightarrow> real" where
  "SavingFraction baseline alternative = (if baseline \<le> 0 then 0 else (baseline - alternative) / baseline)"

definition MemLimitBytes :: "u64 \<Rightarrow> real \<Rightarrow> u64" where
  "MemLimitBytes cgroupBytes fraction =
     (let fraction = (if fraction < 85 / 100 then 85 / 100 else if fraction > 90 / 100 then 90 / 100 else fraction)
      in word_of_int \<lfloor>real (unat cgroupBytes) * fraction\<rfloor>)"

record Milestone =
  ms_ID :: string
  ms_Title :: string
  Packages :: "string list"
  ms_Gate :: string

definition BuildSequence :: "Milestone list" where
  "BuildSequence =
    [\<lparr>ms_ID = ''M0'', ms_Title = ''Single-node searchable index'', Packages = [''index'', ''crawler'', ''rank'', ''rank/eval''],
       ms_Gate = ''NDCG@10 within reach of an Elasticsearch baseline on a Common Crawl slice, single node''\<rparr>,
     \<lparr>ms_ID = ''M1'', ms_Title = ''Distributed serving'', Packages = [''serve'', ''control''],
       ms_Gate = ''roughly 200ms P99 across a multi-shard fleet with the good-enough cutoff and hedged requests''\<rparr>,
     \<lparr>ms_ID = ''M2'', ms_Title = ''The open artifact'', Packages = [''open'', ''open/ciff''],
       ms_Gate = ''an independent CIFF-aware engine loads the export and reproduces results''\<rparr>,
     \<lparr>ms_ID = ''M3'', ms_Title = ''Real ranking'', Packages = [''rank''],
       ms_Gate = ''NDCG@10 materially above the M0 baseline with spam-set precision measured''\<rparr>,
     \<lparr>ms_ID = ''M4'', ms_Title = ''Hybrid and the vector index'', Packages = [''vector'', ''rank''],
       ms_Gate = ''hybrid lifting Recall@k and NDCG@10 over M3 within the latency budget''\<rparr>,
     \<lparr>ms_ID = ''M5'', ms_Title = ''The answer engine'', Packages = [''answer'', ''answer/eval''],
       ms_Gate = ''RAGAS faithfulness and ALCE citation recall above the retrieve-then-read baselines, TTFT 1.3 to 1.9s, router holding cost in budget''\<rparr>,
     \<lparr>ms_ID = ''M6'', ms_Title = ''The behavioral flywheel'', Packages = [''open/crowdsignal'', ''rank''],
       ms_Gate = ''online interleaving improvement with no privacy regression''\<rparr>,
     \<lparr>ms_ID = ''M7'', ms_Title = ''Crawl at scale'', Packages = [''crawler''],
       ms_Gate = ''sustained polite, consent-compliant crawl throughput with near-real-time freshness''\<rparr>,
     \<lparr>ms_ID = ''M8'', ms_Title = ''Federation'', Packages = [''open'', ''open/federation''],
       ms_Gate = ''an independent operator serving a partition within the latency budget whose rebuild matches the signed snapshot, and a tainted shard rejected''\<rparr>,
     \<lparr>ms_ID = ''M9'', ms_Title = ''Scale-out and verticals'', Packages = [''serve'', ''capacity''],
       ms_Gate = ''the capacity and cost models holding at scale with P99 intact''\<rparr>]"

record Risk =
  rk_Name :: string
  rk_Primary :: bool
  Mitigations :: "string list"

definition RiskRegister :: "Risk list" where
  "RiskRegister =
    [\<lparr>rk_Name = ''Index poisoning and Sybil federation'', rk_Primary = True,
       Mitigations = [''day-one spam stack'', ''signed content-addressed shards'', ''reproducible-build verification'', ''operator reputation gating'']\<rparr>,
     \<lparr>rk_Name = ''The economics of an LLM per query'', rk_Primary = False,
       Mitigations = [''router to the no-LLM and small-model paths'', ''continuous batching'', ''FP8 hardware'', ''conservative semantic caching'',
         ''frontier models as a routed API tier, not a hosted fleet'']\<rparr>,
     \<lparr>rk_Name = ''Cold-start relevance'', rk_Primary = False,
       Mitigations = [''Common Crawl bootstrap'', ''the crowd signal at M6'', ''antitrust data-sharing as an accelerant, not a dependency'']\<rparr>,
     \<lparr>rk_Name = ''Legal and governance of the corpus'', rk_Primary = False,
       Mitigations = [''consent at crawl time'', ''the Common Crawl precedent'', ''a foundation or consortium governance model'']\<rparr>,
     \<lparr>rk_Name = ''Crawl politeness and reputation'', rk_Primary = False,
       Mitigations = [''verifiable good-citizen identity (FCrDNS, published IP ranges, honored REP)'', ''conservative per-host budgeting'', ''the consent layer'']\<rparr>,
     \<lparr>rk_Name = ''Build-versus-bind drift'', rk_Primary = False,
       Mitigations = [''keep the native boundary small, profiled, and contained in vector and the inference processes'', ''defer the bind decision to M4'']\<rparr>]"

subsection \<open>Bounds\<close>

text \<open>The memory limit always leaves headroom: it lies between 85 and 90 percent of the group's limit, whatever fraction is
  configured.\<close>

lemma MemLimit_band:
  "real (unat (MemLimitBytes c f)) \<le> 9 / 10 * real (unat c) \<and> 85 / 100 * real (unat c) - 1 < real (unat (MemLimitBytes c f))"
proof -
  define g :: real where "g = (if f < 85 / 100 then 85 / 100 else if f > 90 / 100 then 90 / 100 else f)"
  have g: "85 / 100 \<le> g" "g \<le> 9 / 10" by (simp_all add: g_def)
  let ?x = "real (unat c) * g"
  have x: "85 / 100 * real (unat c) \<le> ?x" "?x \<le> 9 / 10 * real (unat c)" using mult_right_mono[OF g(1), of "real (unat c)"] mult_right_mono[OF g(2), of "real (unat c)"] by (simp_all only: mult.commute of_nat_0_le_iff)
  then have "0 \<le> \<lfloor>?x\<rfloor>" using g by simp
  moreover have "\<lfloor>?x\<rfloor> \<le> int (unat c)" using x(2) by linarith
  moreover have "int (unat c) < 2 ^ 64" using uint_bounded[of c] by simp
  ultimately have "0 \<le> \<lfloor>?x\<rfloor> \<and> \<lfloor>?x\<rfloor> < 2 ^ 64" by linarith
  then have "uint (word_of_int \<lfloor>?x\<rfloor> :: u64) = \<lfloor>?x\<rfloor>" by (simp add: uint_word_of_int)
  moreover have "MemLimitBytes c f = word_of_int \<lfloor>?x\<rfloor>" unfolding MemLimitBytes_def Let_def g_def by (rule refl)
  moreover have "real (unat b) = real_of_int (uint b)" for b :: u64 by simp
  ultimately have "real (unat (MemLimitBytes c f)) = real_of_int \<lfloor>?x\<rfloor>" by metis
  then show ?thesis using x by linarith
qed

text \<open>Byte counts are exact below \<open>2\<^sup>6\<^sup>4\<close> and wrap from there.\<close>

lemma VectorBytes_mod:
  assumes "0 < n" "0 < d" "0 < w"
  shows "uint (VectorBytes n d w) = (n * d * w) mod 2 ^ 64"
  using assms by (simp add: VectorBytes_def uint_word_of_int flip: of_int_mult)

text \<open>A blend of costs by fractions of one whole lies between the cheapest and the dearest tier.\<close>

lemma BlendedCost_between:
  assumes "length fs = length cs" "fs \<noteq> []" "\<forall>f \<in> set fs. 0 \<le> f" "sum_list fs = 1" "\<forall>c \<in> set cs. lo \<le> c \<and> c \<le> hi"
  shows "lo \<le> BlendedCost fs cs \<and> BlendedCost fs cs \<le> hi"
proof -
  have s: "(\<Sum>i < length fs. fs ! i) = 1" using assms(4) by (simp add: sum_list_sum_nth atLeast0LessThan)
  have b: "BlendedCost fs cs = (\<Sum>i < length fs. fs ! i * cs ! i)" using assms(1,2) by (simp add: BlendedCost_def foldl_sum)
  have "(\<Sum>i < length fs. fs ! i * lo) \<le> (\<Sum>i < length fs. fs ! i * cs ! i)" "(\<Sum>i < length fs. fs ! i * cs ! i) \<le> (\<Sum>i < length fs. fs ! i * hi)"
    using assms(1,3,5) by (auto intro!: sum_mono mult_left_mono)
  then show ?thesis using s by (simp add: b sum_distrib_right[symmetric])
qed

text \<open>Every milestone has a gate and lands a package, no two share an id, and one risk is the primary one.\<close>

lemma plan_complete:
  "list_all (\<lambda>m. Packages m \<noteq> [] \<and> ms_Gate m \<noteq> []) BuildSequence"
  "distinct (map ms_ID BuildSequence)"
  "length (filter rk_Primary RiskRegister) = 1" "list_all (\<lambda>r. Mitigations r \<noteq> []) RiskRegister"
  by (simp_all add: BuildSequence_def RiskRegister_def)

end
