(* ===== verification/Command.thy ===== *)
theory Command
  imports Capacity "HOL-Library.Sublist"
begin

text \<open>
  \<open>cmd/openindex\<close>: the reporter. A stream is a function from what it has accepted so far and the next slice to the number of bytes it
  takes and whether it fails. The flag parser of the standard library is left out: the value of \<open>-version\<close> and the first argument,
  empty when there is none, are arguments of \<open>main\<close>, and so is the stamped version. Text is ASCII.
\<close>

type_synonym stream = "string \<Rightarrow> string \<Rightarrow> nat \<times> bool"

subsection \<open>Writing\<close>

record errWriter =
  ew_out :: string
  ew_err :: bool

definition Stream_Write :: "stream \<Rightarrow> string \<Rightarrow> string \<Rightarrow> bool \<times> string" where
  "Stream_Write w p out = (case w out p of (k, err) \<Rightarrow> (err, out @ take k p))"

definition errWriter_printf :: "stream \<Rightarrow> errWriter \<Rightarrow> string \<Rightarrow> errWriter" where
  "errWriter_printf w ew s =
     (if \<not> ew_err ew then case Stream_Write w s (ew_out ew) of (err, out) \<Rightarrow> \<lparr>ew_out = out, ew_err = err\<rparr>
      else ew)"

definition newline :: string where "newline = [CHR 0x0A]"

definition writeVersion :: "string \<Rightarrow> stream \<Rightarrow> string \<Rightarrow> errWriter" where
  "writeVersion version w out = errWriter_printf w \<lparr>ew_out = out, ew_err = False\<rparr> (version @ newline)"

definition usage_text :: "string \<Rightarrow> string" where
  "usage_text version = concat (map (\<lambda>l. l @ newline)
     [''openindex '' @ version,
      '''',
      ''OpenIndex is a web-scale search engine with an open, auditable index. This'',
      ''release is the foundational library: every subsystem is an interface seam with a'',
      ''tested in-process reference implementation. This command reports the build and'',
      ''the plan it is built against.'',
      '''',
      ''usage:'',
      ''  openindex <command>'',
      ''  openindex -version'',
      '''',
      ''commands:'',
      ''  version   print the build version'',
      ''  plan      print the milestone build sequence and its gates'',
      ''  risks     print the risk register'',
      ''  help      print this message''])"

definition writeUsage :: "string \<Rightarrow> stream \<Rightarrow> string \<Rightarrow> errWriter" where
  "writeUsage version w out = errWriter_printf w \<lparr>ew_out = out, ew_err = False\<rparr> (usage_text version)"

subsection \<open>The plan as an aligned table\<close>

text \<open>What the command uses of \<open>text/tabwriter\<close>: no least width, two spaces of padding, and lines with equally many cells, the last
  of which ends with the line and is not padded. Nothing reaches the stream before \<open>Flush\<close>, which sends each cell, then its padding
  in slices of at most eight bytes, and stops at the first error.\<close>

fun padding :: "nat \<Rightarrow> string list" where
  "padding n = (if n > 8 then replicate 8 (CHR '' '') # padding (n - 8) else [replicate n (CHR '' '')])"

definition column_width :: "string list list \<Rightarrow> nat \<Rightarrow> nat" where
  "column_width rows j = fold (\<lambda>row w. if length (row ! j) + 2 > w then length (row ! j) + 2 else w) rows 0"

definition cell_slices :: "string list list \<Rightarrow> string list \<Rightarrow> nat \<Rightarrow> string list" where
  "cell_slices rows row j =
     (if length (row ! j) > 0 then [row ! j] else []) @
     (if j < length row - 1 then padding (column_width rows j - length (row ! j)) else [])"

definition row_slices :: "string list list \<Rightarrow> string list \<Rightarrow> string list" where
  "row_slices rows row = concat (map (cell_slices rows row) [0..<length row]) @ [newline]"

fun send_slices :: "stream \<Rightarrow> string list \<Rightarrow> string \<Rightarrow> errWriter" where
  "send_slices w [] out = \<lparr>ew_out = out, ew_err = False\<rparr>"
| "send_slices w (p # ps) out =
     (case Stream_Write w p out of (err, out) \<Rightarrow> if err then \<lparr>ew_out = out, ew_err = True\<rparr> else send_slices w ps out)"

definition plan_rows :: "string list list" where
  "plan_rows = [''MILESTONE'', ''TITLE'', ''GATE''] # map (\<lambda>m. [ms_ID m, ms_Title m, ms_Gate m]) BuildSequence"

definition writePlan :: "stream \<Rightarrow> string \<Rightarrow> errWriter" where
  "writePlan w out = send_slices w (concat (map (row_slices plan_rows) plan_rows)) out"

subsection \<open>The risks\<close>

definition risk_prints :: "Risk \<Rightarrow> string list" where
  "risk_prints r =
     (let marker = (if rk_Primary r then '' (primary)'' else [])
      in [rk_Name r @ marker @ newline] @ map (\<lambda>m. ''  - '' @ m @ newline) (Mitigations r) @ [newline])"

definition writeRisks :: "stream \<Rightarrow> string \<Rightarrow> errWriter" where
  "writeRisks w out =
     foldl (\<lambda>ew r. foldl (errWriter_printf w) ew (risk_prints r)) \<lparr>ew_out = out, ew_err = False\<rparr> RiskRegister"

subsection \<open>The command\<close>

text \<open>The verb \<open>%q\<close>.\<close>

definition hex_digit :: "nat \<Rightarrow> char" where "hex_digit n = ''0123456789abcdef'' ! n"

definition quote_char :: "char \<Rightarrow> string" where
  "quote_char c =
     (let n = of_char c :: nat
      in if n = 0x22 \<or> n = 0x5C then [CHR 0x5C, c]
         else if 0x20 \<le> n \<and> n < 0x7F then [c]
         else if n = 7 then [CHR 0x5C, CHR ''a'']
         else if n = 8 then [CHR 0x5C, CHR ''b'']
         else if n = 12 then [CHR 0x5C, CHR ''f'']
         else if n = 10 then [CHR 0x5C, CHR ''n'']
         else if n = 13 then [CHR 0x5C, CHR ''r'']
         else if n = 9 then [CHR 0x5C, CHR ''t'']
         else if n = 11 then [CHR 0x5C, CHR ''v'']
         else [CHR 0x5C, CHR ''x'', hex_digit (n div 16), hex_digit (n mod 16)])"

definition quote_string :: "string \<Rightarrow> string" where
  "quote_string s = [CHR 0x22] @ concat (map quote_char s) @ [CHR 0x22]"

definition writeUnknown :: "string \<Rightarrow> stream \<Rightarrow> string \<Rightarrow> errWriter" where
  "writeUnknown arg w out =
     (case Stream_Write w (''openindex: unknown command '' @ quote_string arg @ newline @ newline) out of
        (err, out) \<Rightarrow> \<lparr>ew_out = out, ew_err = err\<rparr>)"

text \<open>The exit code with what was written; \<open>None\<close> while the process goes on.\<close>

definition render :: "(stream \<Rightarrow> string \<Rightarrow> errWriter) \<Rightarrow> stream \<Rightarrow> string \<Rightarrow> nat option \<times> string" where
  "render fn w out = (let ew = fn w out in (if ew_err ew then Some 1 else None, ew_out ew))"

record outcome =
  exit_code :: nat
  stdout :: string
  stderr :: string

definition to_stdout :: "(stream \<Rightarrow> string \<Rightarrow> errWriter) \<Rightarrow> stream \<Rightarrow> outcome" where
  "to_stdout fn w =
     (case render fn w [] of (stop, out) \<Rightarrow> \<lparr>exit_code = (case stop of Some c \<Rightarrow> c | None \<Rightarrow> 0), stdout = out, stderr = []\<rparr>)"

definition main :: "string \<Rightarrow> stream \<Rightarrow> stream \<Rightarrow> bool \<Rightarrow> string \<Rightarrow> outcome" where
  "main version w_out w_err versionFlag arg =
     (if versionFlag then to_stdout (writeVersion version) w_out
      else if arg = ''version'' then to_stdout (writeVersion version) w_out
      else if arg = ''plan'' then to_stdout writePlan w_out
      else if arg = ''risks'' then to_stdout writeRisks w_out
      else if arg = [] \<or> arg = ''help'' then to_stdout (writeUsage version) w_out
      else case render (writeUnknown arg) w_err [] of
             (Some c, err) \<Rightarrow> \<lparr>exit_code = c, stdout = [], stderr = err\<rparr>
           | (None, err) \<Rightarrow>
               (case render (writeUsage version) w_err err of
                  (Some c, err) \<Rightarrow> \<lparr>exit_code = c, stdout = [], stderr = err\<rparr>
                | (None, err) \<Rightarrow> \<lparr>exit_code = 2, stdout = [], stderr = err\<rparr>))"

subsection \<open>Everything is written or the process fails\<close>

text \<open>The contract of \<open>io.Writer\<close>: a slice that was not taken whole is an error.\<close>

definition stream_ok :: "stream \<Rightarrow> bool" where
  "stream_ok w \<longleftrightarrow> (\<forall>out p. snd (w out p) \<or> length p \<le> fst (w out p))"

definition wrote :: "string \<Rightarrow> string \<Rightarrow> errWriter \<Rightarrow> bool" where
  "wrote out s ew \<longleftrightarrow> prefix (ew_out ew) (out @ s) \<and> (\<not> ew_err ew \<longrightarrow> ew_out ew = out @ s)"

lemma Stream_Write_wrote:
  assumes "stream_ok w" "Stream_Write w p out = (err, out')"
  shows "prefix out' (out @ p) \<and> (\<not> err \<longrightarrow> out' = out @ p)"
  using assms by (auto simp: Stream_Write_def stream_ok_def take_is_prefix split: prod.splits dest: spec[of _ out] spec[of _ p]) (metis fst_conv snd_conv take_all)

lemma printf_wrote:
  assumes "stream_ok w" "wrote out s ew"
  shows "wrote out (s @ p) (errWriter_printf w ew p)"
proof (cases "ew_err ew")
  case True
  then show ?thesis using assms(2) by (auto simp: wrote_def errWriter_printf_def intro: prefix_order.trans)
next
  case False
  obtain err out' where sw: "Stream_Write w p (out @ s) = (err, out')" by fastforce
  then show ?thesis using False assms(2) Stream_Write_wrote[OF assms(1) sw] by (simp add: wrote_def errWriter_printf_def)
qed

lemma foldl_printf_wrote: "stream_ok w \<Longrightarrow> wrote out s ew \<Longrightarrow> wrote out (s @ concat ps) (foldl (errWriter_printf w) ew ps)"
proof (induction ps arbitrary: s ew)
  case (Cons p ps)
  then show ?case using Cons.IH[OF Cons.prems(1) printf_wrote[OF Cons.prems]] by simp
qed simp

lemma wrote_start [simp]: "wrote out [] \<lparr>ew_out = out, ew_err = False\<rparr>" by (simp add: wrote_def)

lemma writeVersion_wrote: "stream_ok w \<Longrightarrow> wrote out (version @ newline) (writeVersion version w out)"
  using printf_wrote[of w out "[]"] by (simp add: writeVersion_def)

lemma writeUsage_wrote: "stream_ok w \<Longrightarrow> wrote out (usage_text version) (writeUsage version w out)"
  using printf_wrote[of w out "[]"] by (simp add: writeUsage_def)

lemma send_slices_wrote: "stream_ok w \<Longrightarrow> wrote out (concat ps) (send_slices w ps out)"
proof (induction ps arbitrary: out)
  case (Cons p ps)
  obtain err out' where sw: "Stream_Write w p out = (err, out')" by fastforce
  note o = Stream_Write_wrote[OF Cons.prems sw]
  show ?case using Cons.IH[OF Cons.prems, of out'] o sw
    by (cases err) (auto simp: wrote_def intro: prefix_order.trans)
qed simp

definition plan_text :: string where "plan_text = concat (concat (map (row_slices plan_rows) plan_rows))"

lemma writePlan_wrote: "stream_ok w \<Longrightarrow> wrote out plan_text (writePlan w out)"
  unfolding writePlan_def plan_text_def by (rule send_slices_wrote)

definition risks_text :: string where "risks_text = concat (concat (map risk_prints RiskRegister))"

lemma writeRisks_wrote:
  assumes "stream_ok w"
  shows "wrote out risks_text (writeRisks w out)"
proof -
  have "foldl (\<lambda>ew r. foldl (errWriter_printf w) ew (risk_prints r)) ew rs = foldl (errWriter_printf w) ew (concat (map risk_prints rs))" for ew rs
    by (induction rs arbitrary: ew) simp_all
  then show ?thesis using foldl_printf_wrote[OF assms wrote_start, of out "concat (map risk_prints RiskRegister)"]
    by (simp add: writeRisks_def risks_text_def)
qed

lemma writeUnknown_wrote:
  "stream_ok w \<Longrightarrow> wrote out (''openindex: unknown command '' @ quote_string arg @ newline @ newline) (writeUnknown arg w out)"
  using Stream_Write_wrote unfolding wrote_def writeUnknown_def by (auto split: prod.splits)

text \<open>What each command prints.\<close>

definition report_text :: "string \<Rightarrow> bool \<Rightarrow> string \<Rightarrow> string option" where
  "report_text version versionFlag arg =
     (if versionFlag \<or> arg = ''version'' then Some (version @ newline)
      else if arg = ''plan'' then Some plan_text
      else if arg = ''risks'' then Some risks_text
      else if arg = [] \<or> arg = ''help'' then Some (usage_text version)
      else None)"

lemma to_stdout_wrote:
  assumes "wrote [] s (fn w [])"
  shows "prefix (stdout (to_stdout fn w)) s \<and> stderr (to_stdout fn w) = [] \<and>
    (exit_code (to_stdout fn w) = 0 \<and> stdout (to_stdout fn w) = s \<or> exit_code (to_stdout fn w) = 1)"
  using assms by (auto simp: to_stdout_def render_def wrote_def Let_def)

lemma main_known:
  assumes "stream_ok w_out" "report_text version versionFlag arg = Some s"
  shows "\<exists>fn. main version w_out w_err versionFlag arg = to_stdout fn w_out \<and> wrote [] s (fn w_out [])"
proof -
  consider "versionFlag \<or> arg = ''version''" | "\<not> versionFlag" "arg = ''plan''" | "\<not> versionFlag" "arg = ''risks''"
    | "\<not> versionFlag" "arg = [] \<or> arg = ''help''"
    using assms(2) by (simp add: report_text_def split: if_splits)
  then show ?thesis
  proof cases
    case 1
    then have "main version w_out w_err versionFlag arg = to_stdout (writeVersion version) w_out" by (auto simp only: main_def if_True if_False list.distinct list.inject simp_thms char.inject if_cancel)
    moreover have "s = version @ newline" using assms(2) 1 by (auto simp: report_text_def)
    ultimately show ?thesis using writeVersion_wrote[OF assms(1)] by (intro exI[of _ "writeVersion version"]) simp
  next
    case 2
    then have "main version w_out w_err versionFlag arg = to_stdout (writePlan) w_out" by (auto simp only: main_def if_True if_False list.distinct list.inject simp_thms char.inject if_cancel)
    moreover have "s = plan_text" using assms(2) 2 by (auto simp: report_text_def)
    ultimately show ?thesis using writePlan_wrote[OF assms(1)] by (intro exI[of _ "writePlan"]) simp
  next
    case 3
    then have "main version w_out w_err versionFlag arg = to_stdout (writeRisks) w_out" by (auto simp only: main_def if_True if_False list.distinct list.inject simp_thms char.inject if_cancel)
    moreover have "s = risks_text" using assms(2) 3 by (auto simp: report_text_def)
    ultimately show ?thesis using writeRisks_wrote[OF assms(1)] by (intro exI[of _ "writeRisks"]) simp
  next
    case 4
    then have "main version w_out w_err versionFlag arg = to_stdout (writeUsage version) w_out" by (auto simp only: main_def if_True if_False list.distinct list.inject simp_thms char.inject if_cancel)
    moreover have "s = usage_text version" using assms(2) 4 by (auto simp: report_text_def)
    ultimately show ?thesis using writeUsage_wrote[OF assms(1)] by (intro exI[of _ "writeUsage version"]) simp
  qed
qed

text \<open>A known command writes its report to the standard output and exits with 0 only when all of it was taken, else with 1 after a
  prefix of it. An unknown command writes nothing to the standard output and never exits with 0.\<close>

theorem main_reports:
  assumes "stream_ok w_out" "stream_ok w_err"
  shows "(let r = main version w_out w_err versionFlag arg in
    case report_text version versionFlag arg of
      Some s \<Rightarrow> prefix (stdout r) s \<and> stderr r = [] \<and> (exit_code r = 0 \<and> stdout r = s \<or> exit_code r = 1)
    | None \<Rightarrow> stdout r = [] \<and> (exit_code r = 1 \<or>
        exit_code r = 2 \<and> stderr r = ''openindex: unknown command '' @ quote_string arg @ newline @ newline @ usage_text version))"
proof (cases "report_text version versionFlag arg")
  case None
  then show ?thesis
    using writeUnknown_wrote[OF assms(2), of "[]" arg] writeUsage_wrote[OF assms(2), of "ew_out (writeUnknown arg w_err [])" version]
    by (auto simp: report_text_def main_def render_def wrote_def Let_def split: if_splits)
next
  case (Some s)
  obtain fn where fn: "main version w_out w_err versionFlag arg = to_stdout fn w_out" "wrote [] s (fn w_out [])"
    using main_known[OF assms(1) Some] by blast
  then show ?thesis using to_stdout_wrote[where fn = fn, OF fn(2)] Some by (simp add: Let_def)
qed

text \<open>The columns of the plan are aligned: in every row a padded cell takes exactly the width of its column.\<close>

lemma concat_padding: "concat (padding n) = replicate n (CHR '' '')"
proof (induction n rule: padding.induct)
  case (1 n)
  show ?case
  proof (cases "n > 8")
    case True
    have "concat (padding n) = replicate 8 (CHR '' '') @ replicate (n - 8) (CHR '' '')" by (subst padding.simps) (use True 1 in simp)
    also have "\<dots> = replicate n (CHR '' '')" using True by (simp flip: replicate_add)
    finally show ?thesis .
  qed (subst padding.simps, simp)
qed

lemma column_width_ge:
  assumes "row \<in> set rows"
  shows "length (row ! j) + 2 \<le> column_width rows j"
proof -
  have m: "column_width rows j = fold max (map (\<lambda>row. length (row ! j) + 2) rows) 0"
    unfolding column_width_def fold_map by (rule arg_cong[where f = "\<lambda>f. fold f rows 0"]) (auto simp: fun_eq_iff max_def)
  have "length (row ! j) + 2 \<in> set (0 # map (\<lambda>row. length (row ! j) + 2) rows)" using assms by auto
  then show ?thesis unfolding m Max.set_eq_fold[symmetric] by (intro Max_ge) simp_all
qed

lemma cells_aligned:
  assumes "row \<in> set rows" "j < length row - 1"
  shows "length (concat (cell_slices rows row j)) = column_width rows j"
  using column_width_ge[OF assms(1), of j] assms(2) by (simp add: cell_slices_def concat_padding del: padding.simps)

end
