(* ===== verification/Metric.thy ===== *)
theory Metric
  imports Prelude "HOL-Library.AList" Complex_Main
begin

text \<open>
  \<open>telemetry/metric\<close>: the request recorder. The series table is an association list with distinct keys, in the
  iteration order of the Go map; counters are 64-bit words; durations in milliseconds and histogram bounds are
  real numbers instead of \<open>float64\<close>. An error is the chain of sentinel errors that \<open>errors.Is\<close> searches.
\<close>

definition DefaultBucketsMillis :: "real list" where
  "DefaultBucketsMillis = [2, 5, 10, 25, 50, 100, 250, 500, 1000]"

definition DefaultMaxSeries :: int where "DefaultMaxSeries = 2000"

definition otherMethod :: string where "otherMethod = ''_OTHER''"

definition overflowReserve :: int where "overflowReserve = 4"

record seriesKey =
  k_method :: string
  k_status :: string

record hist =
  h_count :: u64
  h_errors :: u64
  h_sum :: real
  h_counts :: "u64 list"

record RED =
  bounds :: "real list"
  allowed :: "string list"
  maxSeries :: int
  series :: "(seriesKey \<times> hist) list"

definition WithMaxSeries :: "int \<Rightarrow> RED \<Rightarrow> RED" where
  "WithMaxSeries n r = (if n > 0 then r\<lparr>maxSeries := n\<rparr> else r)"

definition New :: "string list \<Rightarrow> real list \<Rightarrow> (RED \<Rightarrow> RED) list \<Rightarrow> RED" where
  "New methods bs opts =
     (let b = (if length bs = 0 then DefaultBucketsMillis else bs);
          r = \<lparr>bounds = sort b, allowed = methods, maxSeries = DefaultMaxSeries, series = []\<rparr>
      in fold (\<lambda>opt r. opt r) opts r)"

datatype sentinel = DeadlineExceeded | Canceled | OtherError

definition classify :: "sentinel list option \<Rightarrow> string" where
  "classify err =
     (case err of
        None \<Rightarrow> ''OK''
      | Some chain \<Rightarrow>
          if DeadlineExceeded \<in> set chain then ''deadline_exceeded''
          else if Canceled \<in> set chain then ''canceled''
          else ''error'')"

fun bucketOf_loop :: "real \<Rightarrow> nat \<Rightarrow> real list \<Rightarrow> nat" where
  "bucketOf_loop ms i [] = i"
| "bucketOf_loop ms i (b # bs) = (if ms \<le> b then i else bucketOf_loop ms (i + 1) bs)"

definition bucketOf :: "RED \<Rightarrow> real \<Rightarrow> nat" where
  "bucketOf r ms = bucketOf_loop ms 0 (bounds r)"

definition normalize :: "RED \<Rightarrow> string \<Rightarrow> string" where
  "normalize r meth = (if meth \<in> set (allowed r) then meth else otherMethod)"

definition keyFor :: "RED \<Rightarrow> string \<Rightarrow> string \<Rightarrow> seriesKey" where
  "keyFor r meth status =
     (let key = \<lparr>k_method = normalize r meth, k_status = status\<rparr>
      in if map_of (series r) key \<noteq> None then key
         else if int (length (series r)) \<ge> maxSeries r - overflowReserve
           then \<lparr>k_method = otherMethod, k_status = status\<rparr>
         else key)"

text \<open>The duration is in nanoseconds. A Go map update of a new key puts it anywhere in the iteration order; here
  it goes last.\<close>

definition Observe :: "string \<Rightarrow> int \<Rightarrow> sentinel list option \<Rightarrow> RED \<Rightarrow> RED" where
  "Observe meth dur err r =
     (let status = classify err;
          key = keyFor r meth status;
          h = (case map_of (series r) key of
                 Some h \<Rightarrow> h
               | None \<Rightarrow> \<lparr>h_count = 0, h_errors = 0, h_sum = 0, h_counts = replicate (length (bounds r) + 1) 0\<rparr>);
          ms = real_of_int dur / 1000000;
          b = bucketOf r ms;
          h = h\<lparr>h_count := h_count h + 1, h_sum := h_sum h + ms,
                h_errors := (if status \<noteq> ''OK'' then h_errors h + 1 else h_errors h),
                h_counts := (h_counts h)[b := h_counts h ! b + 1]\<rparr>
      in r\<lparr>series := AList.update key h (series r)\<rparr>)"

record Snapshot =
  sn_Method :: string
  sn_Status :: string
  sn_Count :: u64
  sn_Errors :: u64
  SumMillis :: real
  sn_Bounds :: "real list"
  BucketCounts :: "u64 list"

definition snapshot_of :: "RED \<Rightarrow> seriesKey \<times> hist \<Rightarrow> Snapshot" where
  "snapshot_of r kh =
     (case kh of (key, h) \<Rightarrow>
        \<lparr>sn_Method = k_method key, sn_Status = k_status key, sn_Count = h_count h, sn_Errors = h_errors h,
         SumMillis = h_sum h, sn_Bounds = bounds r, BucketCounts = h_counts h\<rparr>)"

text \<open>\<open>sort.Slice\<close> is unstable; it is an argument with the contract of a sort by method and status.\<close>

definition RED_Snapshot :: "(Snapshot list \<Rightarrow> Snapshot list) \<Rightarrow> RED \<Rightarrow> Snapshot list" where
  "RED_Snapshot srt r = srt (map (snapshot_of r) (series r))"

definition ErrorRate :: "string \<Rightarrow> RED \<Rightarrow> real" where
  "ErrorRate meth r =
     (let meth = normalize r meth;
          (total, errs) = foldl (\<lambda>(total, errs) (key, h).
             if k_method key = meth then (total + h_count h, errs + h_errors h) else (total, errs)) (0, 0) (series r)
      in if total = 0 then 0 else real (unat errs) / real (unat total))"

text \<open>The loop over the buckets; \<open>None\<close> when it runs to the end.\<close>

fun quantile_loop :: "real list \<Rightarrow> real \<Rightarrow> nat \<Rightarrow> u64 \<Rightarrow> u64 list \<Rightarrow> real option" where
  "quantile_loop bs target i cum [] = None"
| "quantile_loop bs target i cum (c # cs) =
     (let before = cum; cum = cum + c
      in if real (unat cum) < target \<or> c = 0 then quantile_loop bs target (i + 1) cum cs
         else let lower = (if i > 0 then bs ! (i - 1) else 0)
              in if i \<ge> length bs then Some lower
                 else let upper = bs ! i; frac = (target - real (unat before)) / real (unat c)
                      in Some (lower + frac * (upper - lower)))"

definition Quantile :: "Snapshot \<Rightarrow> real \<Rightarrow> real" where
  "Quantile s q =
     (if sn_Count s = 0 then 0
      else case quantile_loop (sn_Bounds s) (q * real (unat (sn_Count s))) 0 0 (BucketCounts s) of
             Some v \<Rightarrow> v
           | None \<Rightarrow> sn_Bounds s ! (length (sn_Bounds s) - 1))"

definition Mean :: "Snapshot \<Rightarrow> real" where
  "Mean s = (if sn_Count s = 0 then 0 else SumMillis s / real (unat (sn_Count s)))"

subsection \<open>Updating the table\<close>

lemma set_update_subset: "set (AList.update key h al) \<subseteq> insert (key, h) (set al)"
  by (induction al) auto

lemma length_update: "length (AList.update key h al) = (if map_of al key = None then Suc (length al) else length al)"
  by (induction al) auto

lemma length_filter_update:
  "length (filter (\<lambda>(k, v). Q k) (AList.update key h al)) =
     (if map_of al key = None \<and> Q key then Suc (length (filter (\<lambda>(k, v). Q k) al)) else length (filter (\<lambda>(k, v). Q k) al))"
  by (induction al) auto

subsection \<open>The recorder's invariant\<close>

definition statuses :: "string list" where
  "statuses = [''OK'', ''deadline_exceeded'', ''canceled'', ''error'']"

lemma classify_statuses: "classify err \<in> set statuses"
  by (simp add: classify_def statuses_def split: option.split)

definition hist_ok :: "RED \<Rightarrow> seriesKey \<Rightarrow> hist \<Rightarrow> bool" where
  "hist_ok r k h \<longleftrightarrow> length (h_counts h) = length (bounds r) + 1 \<and> h_count h = sum_list (h_counts h) \<and>
     h_errors h = (if k_status k = ''OK'' then 0 else h_count h) \<and> k_status k \<in> set statuses"

definition red_ok :: "RED \<Rightarrow> bool" where
  "red_ok r \<longleftrightarrow> distinct (map fst (series r)) \<and> (\<forall>(k, h) \<in> set (series r). hist_ok r k h) \<and>
     int (length (filter (\<lambda>(k, h). k_method k \<noteq> otherMethod) (series r))) \<le> max 0 (maxSeries r - overflowReserve)"

lemma bucketOf_loop_le: "bucketOf_loop ms i bs \<le> i + length bs"
proof (induction bs arbitrary: i)
  case (Cons b bs)
  from Cons.IH[of "Suc i"] show ?case by simp
qed simp

lemma bucketOf_loop_spec:
  "\<forall>j < bucketOf_loop ms i bs - i. bs ! j < ms" "bucketOf_loop ms i bs < i + length bs \<Longrightarrow> ms \<le> bs ! (bucketOf_loop ms i bs - i)"
proof -
  have "(\<forall>j < bucketOf_loop ms i bs - i. bs ! j < ms) \<and> i \<le> bucketOf_loop ms i bs \<and>
      (bucketOf_loop ms i bs < i + length bs \<longrightarrow> ms \<le> bs ! (bucketOf_loop ms i bs - i))"
  proof (induction bs arbitrary: i)
    case (Cons b bs)
    from Cons.IH[of "Suc i"] show ?case by (auto simp: nth_Cons' less_diff_conv)
  qed simp
  then show "\<forall>j < bucketOf_loop ms i bs - i. bs ! j < ms"
    "bucketOf_loop ms i bs < i + length bs \<Longrightarrow> ms \<le> bs ! (bucketOf_loop ms i bs - i)" by simp_all
qed

lemma sum_list_incr:
  fixes cs :: "'a::comm_ring_1 list"
  shows "b < length cs \<Longrightarrow> sum_list (cs[b := cs ! b + 1]) = sum_list cs + 1"
  by (induction cs arbitrary: b) (auto split: nat.split)

definition observed :: "RED \<Rightarrow> int \<Rightarrow> sentinel list option \<Rightarrow> hist option \<Rightarrow> hist" where
  "observed r dur err old =
     (let h = (case old of Some h \<Rightarrow> h
                | None \<Rightarrow> \<lparr>h_count = 0, h_errors = 0, h_sum = 0, h_counts = replicate (length (bounds r) + 1) 0\<rparr>);
          ms = real_of_int dur / 1000000; b = bucketOf r ms
      in h\<lparr>h_count := h_count h + 1, h_sum := h_sum h + ms,
           h_errors := (if classify err \<noteq> ''OK'' then h_errors h + 1 else h_errors h),
           h_counts := (h_counts h)[b := h_counts h ! b + 1]\<rparr>)"

lemma Observe_eq:
  "Observe meth dur err r =
     (let key = keyFor r meth (classify err)
      in r\<lparr>series := AList.update key (observed r dur err (map_of (series r) key)) (series r)\<rparr>)"
  by (simp add: Observe_def observed_def Let_def)

lemma keyFor_status [simp]: "k_status (keyFor r meth st) = st"
  by (simp add: keyFor_def Let_def)

lemma keyFor_new:
  assumes "map_of (series r) (keyFor r meth st) = None" "k_method (keyFor r meth st) \<noteq> otherMethod"
  shows "int (length (series r)) < maxSeries r - overflowReserve"
  using assms by (auto simp: keyFor_def Let_def split: if_splits)

lemma hist_ok_observed:
  assumes "\<forall>h. old = Some h \<longrightarrow> hist_ok r k h" "k_status k = classify err"
  shows "hist_ok r k (observed r dur err old)"
proof -
  let ?b = "bucketOf r (real_of_int dur / 1000000)"
  have b: "?b < length (bounds r) + 1" using bucketOf_loop_le[of _ 0 "bounds r"] by (simp add: bucketOf_def less_Suc_eq_le)
  define h where "h = (case old of Some h \<Rightarrow> h
      | None \<Rightarrow> \<lparr>h_count = 0, h_errors = 0, h_sum = 0, h_counts = replicate (length (bounds r) + 1) 0\<rparr>)"
  have "hist_ok r k h"
    using assms classify_statuses[of err] by (cases old) (simp_all add: h_def hist_ok_def sum_list_replicate del: replicate_Suc)
  then show ?thesis using b assms(2)
    by (auto simp: hist_ok_def observed_def Let_def sum_list_incr simp flip: h_def)
qed

lemma red_ok_Observe:
  assumes "red_ok r"
  shows "red_ok (Observe meth dur err r)"
proof -
  let ?k = "keyFor r meth (classify err)"
  let ?h = "observed r dur err (map_of (series r) ?k)"
  let ?r = "Observe meth dur err r"
  have r: "series ?r = AList.update ?k ?h (series r)" "bounds ?r = bounds r" "maxSeries ?r = maxSeries r"
    by (simp_all add: Observe_eq Let_def)
  have ok: "hist_ok r k h" if "(k, h) \<in> set (series r)" for k h using assms that by (auto simp: red_ok_def)
  have new: "hist_ok r ?k ?h" by (rule hist_ok_observed) (auto dest: map_of_SomeD ok)
  have "hist_ok ?r k h" if "(k, h) \<in> set (series ?r)" for k h
  proof -
    have "hist_ok r k h" using that set_update_subset[of ?k ?h "series r"] ok new unfolding r(1) by auto
    then show ?thesis by (simp add: hist_ok_def r(2))
  qed
  moreover have "distinct (map fst (series ?r))" unfolding r(1) using assms by (simp add: red_ok_def distinct_update)
  moreover have "int (length (filter (\<lambda>(k, h). k_method k \<noteq> otherMethod) (series ?r))) \<le> max 0 (maxSeries ?r - overflowReserve)"
  proof (cases "map_of (series r) ?k = None \<and> k_method ?k \<noteq> otherMethod")
    case True
    then have "int (length (series r)) < maxSeries r - overflowReserve" using keyFor_new by blast
    moreover obtain n where n: "length (filter (\<lambda>(k, h). k_method k \<noteq> otherMethod) (series r)) = n" "n \<le> length (series r)"
      using length_filter_le by blast
    ultimately show ?thesis using True unfolding r length_filter_update n(1) by simp
  qed (use assms in \<open>auto simp: r length_filter_update red_ok_def\<close>)
  ultimately show ?thesis by (auto simp: red_ok_def)
qed

text \<open>At most four series belong to the overflow method, one per status.\<close>

lemma red_ok_length:
  assumes "red_ok r"
  shows "int (length (series r)) \<le> max 0 (maxSeries r - overflowReserve) + overflowReserve"
proof -
  let ?o = "filter (\<lambda>(k, h). k_method k = otherMethod) (series r)"
  have "distinct (map fst ?o)" using assms by (simp add: red_ok_def distinct_map_filter)
  moreover have "set (map fst ?o) \<subseteq> (\<lambda>st. \<lparr>k_method = otherMethod, k_status = st\<rparr>) ` set statuses"
  proof
    fix k assume "k \<in> set (map fst ?o)"
    then obtain h where h: "(k, h) \<in> set (series r)" "k_method k = otherMethod" by auto
    then have "k_status k \<in> set statuses" using assms by (auto simp: red_ok_def hist_ok_def)
    moreover have "k = \<lparr>k_method = otherMethod, k_status = k_status k\<rparr>" using h(2) by simp
    ultimately show "k \<in> (\<lambda>st. \<lparr>k_method = otherMethod, k_status = st\<rparr>) ` set statuses" by blast
  qed
  ultimately have sub: "set (map fst ?o) \<subseteq> (\<lambda>st. \<lparr>k_method = otherMethod, k_status = st\<rparr>) ` set statuses"
    and dist: "distinct (map fst ?o)" by blast+
  have "length ?o = card (set (map fst ?o))" using distinct_card[OF dist] by (simp only: length_map)
  also have "\<dots> \<le> card ((\<lambda>st. \<lparr>k_method = otherMethod, k_status = st\<rparr>) ` set statuses)"
    using sub by (intro card_mono) simp_all
  also have "\<dots> \<le> card (set statuses)" by (rule card_image_le) simp
  also have "\<dots> = 4" by (simp add: statuses_def)
  finally have o: "length ?o \<le> 4" .
  let ?n = "filter (\<lambda>(k, h). k_method k \<noteq> otherMethod) (series r)"
  have "length (series r) = length ?o + length ?n"
    using sum_length_filter_compl[of "\<lambda>(k, h). k_method k = otherMethod" "series r"] by (simp only: case_prod_unfold)
  moreover have "int (length ?n) \<le> max 0 (maxSeries r - overflowReserve)" using assms unfolding red_ok_def by blast
  ultimately show ?thesis using o unfolding overflowReserve_def by linarith
qed

subsection \<open>Recorded and observed requests\<close>

type_synonym observation = "string \<times> int \<times> sentinel list option"

definition record_all :: "observation list \<Rightarrow> RED \<Rightarrow> RED" where
  "record_all obs r = foldl (\<lambda>r (meth, dur, err). Observe meth dur err r) r obs"

lemma record_all_simps [simp]:
  "record_all [] r = r"
  "record_all (obs @ [(meth, dur, err)]) r = Observe meth dur err (record_all obs r)"
  by (simp_all add: record_all_def)

definition new_recorder :: "string list \<Rightarrow> real list \<Rightarrow> int \<Rightarrow> RED" where
  "new_recorder methods bs n = New methods bs [WithMaxSeries n]"

lemma new_recorder_sel:
  "series (new_recorder methods bs n) = []" "allowed (new_recorder methods bs n) = methods"
  "maxSeries (new_recorder methods bs n) = (if n > 0 then n else DefaultMaxSeries)"
  by (simp_all add: new_recorder_def New_def WithMaxSeries_def Let_def)

lemma RED_Observe_sel [simp]:
  "bounds (Observe meth dur err r) = bounds r" "allowed (Observe meth dur err r) = allowed r"
  "maxSeries (Observe meth dur err r) = maxSeries r"
  by (simp_all add: Observe_eq Let_def)

lemma record_all_sel [simp]:
  "bounds (record_all obs r) = bounds r" "allowed (record_all obs r) = allowed r" "maxSeries (record_all obs r) = maxSeries r"
  by (induction obs rule: rev_induct) auto

lemma red_ok_record_all: "red_ok r \<Longrightarrow> red_ok (record_all obs r)"
  by (induction obs rule: rev_induct) (auto simp: red_ok_Observe)

lemma red_ok_new: "red_ok (new_recorder methods bs n)"
  by (simp add: red_ok_def new_recorder_sel)

subsection \<open>Where a request is counted\<close>

text \<open>The bucket of a duration, declaratively: above the bound before it and not above its own.\<close>

definition in_bucket :: "real list \<Rightarrow> nat \<Rightarrow> real \<Rightarrow> bool" where
  "in_bucket bs b ms \<longleftrightarrow> (b = 0 \<or> bs ! (b - 1) < ms) \<and> (b = length bs \<or> ms \<le> bs ! b)"

definition millis :: "observation \<Rightarrow> real" where
  "millis ob = (case ob of (meth, dur, err) \<Rightarrow> real_of_int dur / 1000000)"

text \<open>No error, a deadline, a cancellation or any other error; a wrapped deadline takes precedence over a cancellation.\<close>

definition status_of :: "sentinel list option \<Rightarrow> string" where
  "status_of err =
     (if err = None then ''OK'' else if DeadlineExceeded \<in> set (the err) then ''deadline_exceeded''
      else if Canceled \<in> set (the err) then ''canceled'' else ''error'')"

lemma status_of_classify: "status_of err = classify err" "classify err \<noteq> ''OK'' \<longleftrightarrow> err \<noteq> None"
  by (simp_all add: status_of_def classify_def split: option.split)

definition label :: "RED \<Rightarrow> observation \<Rightarrow> seriesKey" where
  "label r ob = (case ob of (meth, dur, err) \<Rightarrow> \<lparr>k_method = (if meth \<in> set (allowed r) then meth else otherMethod), k_status = status_of err\<rparr>)"

text \<open>The series that counts a request in the end: the one of its own label if there is one, else the overflow series of its status.\<close>

definition home :: "RED \<Rightarrow> observation \<Rightarrow> seriesKey" where
  "home r ob = (if label r ob \<in> fst ` set (series r) then label r ob else (label r ob)\<lparr>k_method := otherMethod\<rparr>)"

definition histogram :: "real list \<Rightarrow> observation list \<Rightarrow> hist" where
  "histogram bs obs =
     \<lparr>h_count = of_nat (length obs), h_errors = of_nat (length (filter (\<lambda>(meth, dur, err). err \<noteq> None) obs)),
      h_sum = sum_list (map millis obs),
      h_counts = map (\<lambda>b. of_nat (length (filter (\<lambda>ob. in_bucket bs b (millis ob)) obs))) [0..<length bs + 1]\<rparr>"

lemma bucketOf_eq:
  assumes "sorted (bounds r)" "b \<le> length (bounds r)"
  shows "in_bucket (bounds r) b ms \<longleftrightarrow> b = bucketOf r ms"
proof -
  let ?c = "bucketOf r ms"
  have c: "?c \<le> length (bounds r)" "\<forall>j < ?c. bounds r ! j < ms" "?c < length (bounds r) \<Longrightarrow> ms \<le> bounds r ! ?c"
    using bucketOf_loop_le[of ms 0 "bounds r"] bucketOf_loop_spec[of ms 0 "bounds r"] by (simp_all add: bucketOf_def)
  consider "b < ?c" | "b = ?c" | "?c < b" by linarith
  then show ?thesis
  proof cases
    case 1
    then have "bounds r ! b < ms" "b \<noteq> length (bounds r)" using c by auto
    then show ?thesis using 1 by (auto simp: in_bucket_def)
  next
    case 2
    have "?c = 0 \<or> bounds r ! (?c - 1) < ms" using c(2) by (cases ?c) auto
    moreover have "?c = length (bounds r) \<or> ms \<le> bounds r ! ?c" using c(1,3) by linarith
    ultimately show ?thesis using 2 by (simp add: in_bucket_def)
  next
    case 3
    then have "bounds r ! ?c \<le> bounds r ! (b - 1)" using assms by (intro sorted_nth_mono) auto
    moreover have "ms \<le> bounds r ! ?c" using 3 assms(2) c(3) by simp
    ultimately show ?thesis using 3 by (auto simp: in_bucket_def)
  qed
qed

lemma observed_histogram:
  assumes "sorted (bounds r)" "old = (if obs = [] then None else Some (histogram (bounds r) obs)) \<or> old = Some (histogram (bounds r) obs)"
  shows "observed r dur err old = histogram (bounds r) (obs @ [(meth, dur, err)])"
proof -
  have h: "(case old of Some h \<Rightarrow> h | None \<Rightarrow> \<lparr>h_count = 0, h_errors = 0, h_sum = 0, h_counts = replicate (length (bounds r) + 1) 0\<rparr>) =
      histogram (bounds r) obs"
    using assms(2) by (auto simp: histogram_def map_replicate_const simp del: replicate_Suc upt_Suc)
  let ?ms = "real_of_int dur / 1000000" and ?n = "length (bounds r) + 1"
  have b: "bucketOf r ?ms < ?n" using bucketOf_loop_le[of ?ms 0 "bounds r"] by (simp add: bucketOf_def less_Suc_eq_le)
  let ?cs = "h_counts (histogram (bounds r) obs)"
  have "?cs[bucketOf r ?ms := ?cs ! bucketOf r ?ms + 1] = h_counts (histogram (bounds r) (obs @ [(meth, dur, err)]))"
  proof (rule nth_equalityI)
    fix i assume "i < length (?cs[bucketOf r ?ms := ?cs ! bucketOf r ?ms + 1])"
    then have i: "i < ?n" by (simp add: histogram_def)
    then have "in_bucket (bounds r) i ?ms \<longleftrightarrow> i = bucketOf r ?ms" using bucketOf_eq[OF assms(1)] by simp
    then show "?cs[bucketOf r ?ms := ?cs ! bucketOf r ?ms + 1] ! i = h_counts (histogram (bounds r) (obs @ [(meth, dur, err)])) ! i"
      using i b by (simp add: histogram_def millis_def nth_list_update del: upt_Suc)
  qed (simp add: histogram_def)
  then show ?thesis unfolding observed_def Let_def h by (simp add: histogram_def millis_def status_of_classify del: upt_Suc)
qed

definition counted :: "observation list \<Rightarrow> RED \<Rightarrow> bool" where
  "counted obs r \<longleftrightarrow>
     (\<forall>k h. map_of (series r) k = Some h \<longrightarrow> h = histogram (bounds r) (filter (\<lambda>ob. home r ob = k) obs)) \<and>
     (\<forall>ob \<in> set obs. home r ob \<in> fst ` set (series r)) \<and>
     (\<forall>ob \<in> set obs. label r ob \<in> fst ` set (series r) \<or> maxSeries r - overflowReserve \<le> int (length (series r)))"

lemma counted_Observe:
  assumes "counted obs r" "sorted (bounds r)"
  shows "counted (obs @ [(meth, dur, err)]) (Observe meth dur err r)"
proof -
  let ?ob = "(meth, dur, err)" and ?K = "keyFor r meth (classify err)" and ?r = "Observe meth dur err r"
  let ?keys = "fst ` set (series r)"
  have s: "series ?r = AList.update ?K (observed r dur err (map_of (series r) ?K)) (series r)" by (simp add: Observe_eq Let_def)
  have keys: "fst ` set (series ?r) = insert ?K ?keys" unfolding s by (simp add: dom_update)
  have lab: "label ?r = label r" by (simp add: label_def fun_eq_iff)
  have known: "map_of (series r) k = None \<longleftrightarrow> k \<notin> ?keys" for k by (simp add: map_of_eq_None_iff)
  have K: "?K = (if label r ?ob \<in> ?keys \<or> \<not> maxSeries r - overflowReserve \<le> int (length (series r)) then label r ?ob
      else (label r ?ob)\<lparr>k_method := otherMethod\<rparr>)"
    unfolding keyFor_def normalize_def label_def Let_def known by (simp add: status_of_classify)
  have len: "length (series r) \<le> length (series ?r)" unfolding s by (simp add: length_update)
  have same: "home ?r ob = home r ob" if "ob \<in> set obs" for ob
  proof (cases "label r ob = ?K \<and> label r ob \<notin> ?keys")
    case True
    then have full: "maxSeries r - overflowReserve \<le> int (length (series r))" using assms(1) that unfolding counted_def by blast
    have "label r ?ob \<notin> ?keys"
    proof
      assume a: "label r ?ob \<in> ?keys"
      then have "?K = label r ?ob" using K by simp
      then show False using True a by metis
    qed
    then have "?K = (label r ?ob)\<lparr>k_method := otherMethod\<rparr>" using K full by simp
    then have "k_method (label r ob) = otherMethod" using True by simp
    then have "(label r ob)\<lparr>k_method := otherMethod\<rparr> = label r ob" by simp
    then show ?thesis unfolding home_def lab keys by simp
  next
    case False
    then show ?thesis unfolding home_def lab keys by auto
  qed
  have own: "home ?r ?ob = ?K"
  proof (cases "label r ?ob \<in> ?keys \<or> \<not> maxSeries r - overflowReserve \<le> int (length (series r))")
    case True
    then show ?thesis unfolding home_def lab keys using K by simp
  next
    case False
    then have "?K = (label r ?ob)\<lparr>k_method := otherMethod\<rparr>" "label r ?ob \<notin> ?keys" using K by simp_all
    then show ?thesis unfolding home_def lab keys by auto
  qed
  have split: "filter (\<lambda>ob. home ?r ob = k) (obs @ [?ob]) = filter (\<lambda>ob. home r ob = k) obs @ (if k = ?K then [?ob] else [])" for k
    using same own by (auto intro: filter_cong)
  have "h = histogram (bounds ?r) (filter (\<lambda>ob. home ?r ob = k) (obs @ [?ob]))" if "map_of (series ?r) k = Some h" for k h
  proof (cases "k = ?K")
    case True
    have "home r ob \<in> ?keys" if "ob \<in> set obs" for ob using assms(1) that unfolding counted_def by blast
    then have "map_of (series r) ?K = None \<Longrightarrow> filter (\<lambda>ob. home r ob = ?K) obs = []"
      unfolding known filter_empty_conv by metis
    then have "map_of (series r) ?K = (if filter (\<lambda>ob. home r ob = ?K) obs = [] then None else Some (histogram (bounds r) (filter (\<lambda>ob. home r ob = ?K) obs))) \<or>
        map_of (series r) ?K = Some (histogram (bounds r) (filter (\<lambda>ob. home r ob = ?K) obs))"
      using assms(1) unfolding counted_def by (cases "map_of (series r) ?K") auto
    note o = observed_histogram[OF assms(2) this, of dur err meth]
    have "h = observed r dur err (map_of (series r) ?K)" using that True unfolding s by (simp add: update_conv)
    then show ?thesis unfolding split o using True by simp
  next
    case False
    then have "map_of (series r) k = Some h" using that unfolding s by (simp add: update_conv)
    then show ?thesis unfolding split using False assms(1) unfolding counted_def by simp
  qed
  moreover have "home ?r ob \<in> fst ` set (series ?r)" if "ob \<in> set (obs @ [?ob])" for ob
  proof (cases "ob = ?ob")
    case True
    then show ?thesis using own unfolding keys by simp
  next
    case False
    then have "ob \<in> set obs" using that by simp
    moreover from this have "home r ob \<in> ?keys" using assms(1) unfolding counted_def by blast
    ultimately show ?thesis using same unfolding keys by simp
  qed
  moreover have "label ?r ob \<in> fst ` set (series ?r) \<or> maxSeries ?r - overflowReserve \<le> int (length (series ?r))"
    if "ob \<in> set (obs @ [?ob])" for ob
  proof (cases "ob = ?ob")
    case True
    then show ?thesis using K len unfolding lab keys by (auto split: if_splits)
  next
    case False
    then have "ob \<in> set obs" using that by simp
    then have "label r ob \<in> ?keys \<or> maxSeries r - overflowReserve \<le> int (length (series r))" using assms(1) unfolding counted_def by blast
    then show ?thesis using len unfolding lab keys by auto
  qed
  ultimately show ?thesis unfolding counted_def by blast
qed

lemma counted_record_all: "series r = [] \<Longrightarrow> sorted (bounds r) \<Longrightarrow> counted obs (record_all obs r)"
proof (induction obs rule: rev_induct)
  case (snoc ob obs)
  then show ?case by (cases ob) (simp add: counted_Observe)
qed (simp add: counted_def)

text \<open>C35: The recorder's memory is bounded and its books are exact. After any observations there are at most \<open>maxSeries\<close> series
  (four, if \<open>maxSeries\<close> is less), one per label. Every request is counted in one series: that of its method (\<open>_OTHER\<close> for one not on
  the list) and status, or, if there is no such series, the \<open>_OTHER\<close> series of its status, and the first happens unless the reserve
  was reached. A series holds exactly the histogram of its requests: their number, the errors among them, the sum of
  their durations, and for every bucket the number of durations above the bound before it and not above its own, modulo the 64-bit
  counters.\<close>

theorem RED_bounded_exact:
  "let r = record_all obs (new_recorder methods bs n) in
     bounds r = sort (if bs = [] then DefaultBucketsMillis else bs) \<and> allowed r = methods \<and>
     int (length (series r)) \<le> max (maxSeries r) 4 \<and> distinct (map fst (series r)) \<and>
     list_all (\<lambda>ob. home r ob \<in> fst ` set (series r) \<and>
       (label r ob \<in> fst ` set (series r) \<or> maxSeries r - 4 \<le> int (length (series r)))) obs \<and>
     list_all (\<lambda>(k, h). h = histogram (bounds r) (filter (\<lambda>ob. home r ob = k) obs)) (series r)"
proof -
  let ?fresh = "new_recorder methods bs n" let ?r = "record_all obs ?fresh"
  have ok: "red_ok ?r" by (rule red_ok_record_all[OF red_ok_new])
  then have d: "distinct (map fst (series ?r))" by (simp add: red_ok_def)
  have b: "bounds ?fresh = sort (if bs = [] then DefaultBucketsMillis else bs)"
    by (simp add: new_recorder_def New_def WithMaxSeries_def Let_def)
  have "sorted (bounds ?fresh)" unfolding b by (rule sorted_sort)
  then have c: "counted obs ?r" by (rule counted_record_all[OF new_recorder_sel(1)])
  have len: "int (length (series ?r)) \<le> max (maxSeries ?r) 4"
    using red_ok_length[OF ok] by (simp add: overflowReserve_def max_def split: if_splits)
  have "h = histogram (bounds ?r) (filter (\<lambda>ob. home ?r ob = k) obs)" if "(k, h) \<in> set (series ?r)" for k h
    using c map_of_is_SomeI[OF d that] unfolding counted_def by blast
  then show ?thesis using c d b len unfolding Let_def
    by (auto simp: list_all_iff counted_def overflowReserve_def new_recorder_sel)
qed

end
