(* ===== verification/Telemetry.thy ===== *)
theory Telemetry
  imports Metric
begin

text \<open>
  \<open>telemetry/telemetry.go\<close>: the seam that instrumented code uses. A meter is a value with an \<open>Observe\<close> step; the state it changes is
  passed along. A clock is a function from the number of its readings so far to a time in nanoseconds. A context carries a logger or
  not; the default logger of \<open>log/slog\<close> is an argument.
\<close>

type_synonym 'm meter = "string \<Rightarrow> int \<Rightarrow> sentinel list option \<Rightarrow> 'm \<Rightarrow> 'm"

definition NopMeter :: "'m meter" where "NopMeter meth dur err m = m"

record 'm Timer =
  t_meter :: "'m meter"
  t_method :: string
  t_start :: int

text \<open>A nil meter is \<open>None\<close>. The second component of the result is the next reading of the clock.\<close>

definition startAt :: "'m meter option \<Rightarrow> string \<Rightarrow> (nat \<Rightarrow> int) \<Rightarrow> nat \<Rightarrow> 'm Timer \<times> nat" where
  "startAt m meth clock tick =
     (\<lparr>t_meter = (case m of None \<Rightarrow> NopMeter | Some m \<Rightarrow> m), t_method = meth, t_start = clock tick\<rparr>, tick + 1)"

text \<open>\<open>time.Time.Sub\<close> saturates at the ends of the 64-bit range.\<close>

definition time_Sub :: "int \<Rightarrow> int \<Rightarrow> int" where
  "time_Sub t u = (if t - u > 2 ^ 63 - 1 then 2 ^ 63 - 1 else if t - u < - (2 ^ 63) then - (2 ^ 63) else t - u)"

text \<open>\<open>errp\<close> is \<open>None\<close> for a nil pointer, else what it points to when \<open>Done\<close> runs.\<close>

definition Done :: "sentinel list option option \<Rightarrow> (nat \<Rightarrow> int) \<Rightarrow> 'm Timer \<Rightarrow> 'm \<times> nat \<Rightarrow> 'm \<times> nat" where
  "Done errp clock t = (\<lambda>(m, tick).
     (let err = (case errp of None \<Rightarrow> None | Some e \<Rightarrow> e)
      in (t_meter t (t_method t) (time_Sub (clock tick) (t_start t)) err m, tick + 1)))"

definition Logger :: "'l \<Rightarrow> 'l option \<Rightarrow> 'l" where
  "Logger dflt ctx = (case ctx of Some l \<Rightarrow> l | None \<Rightarrow> dflt)"

definition WithLogger :: "'l option \<Rightarrow> 'l \<Rightarrow> 'l option" where
  "WithLogger ctx l = Some l"

text \<open>One instrumented operation: the timer starts, the operation takes \<open>k\<close> further readings of the clock, and the deferred call records.\<close>

definition timed :: "'m meter option \<Rightarrow> string \<Rightarrow> (nat \<Rightarrow> int) \<Rightarrow> nat \<Rightarrow> sentinel list option option \<Rightarrow> 'm \<times> nat \<Rightarrow> 'm \<times> nat" where
  "timed m meth clock k errp = (\<lambda>(st, tick).
     (case startAt m meth clock tick of (t, tick) \<Rightarrow> Done errp clock t (st, tick + k)))"

lemma timed_nil: "fst (timed None meth clock k errp (st, tick)) = st"
  by (simp add: timed_def startAt_def Done_def NopMeter_def Let_def)

text \<open>An operation that does not fail and takes less than 292 years is one observation of its duration without an error.\<close>

lemma timed_observes:
  assumes "mono clock" "clock (tick + 1 + k) - clock tick < 2 ^ 63"
  shows "timed (Some Observe) meth clock k errp (r, tick) =
    (Observe meth (clock (tick + 1 + k) - clock tick) (case errp of None \<Rightarrow> None | Some e \<Rightarrow> e) r, tick + k + 2)"
proof -
  have "clock tick \<le> clock (tick + 1 + k)" by (rule monoD[OF assms(1)]) simp
  then have "time_Sub (clock (tick + 1 + k)) (clock tick) = clock (tick + 1 + k) - clock tick"
    using assms(2) by (simp add: time_Sub_def)
  then show ?thesis by (simp add: timed_def startAt_def Done_def Let_def)
qed

lemma Logger_attached: "Logger dflt (WithLogger ctx l) = l" "Logger dflt None = dflt"
  by (simp_all add: Logger_def WithLogger_def)

end
