(* ===== verification/Synth.thy ===== *)
theory Synth
  imports Grounding
begin

text \<open>
  \<open>answer/synth\<close>: the context the model reads. Scores, utilization and the recency decay are reals.
\<close>

definition DefaultUtilization :: real where "DefaultUtilization = 6 / 10"

subsection \<open>Order\<close>

definition zero_passage :: Passage where
  "zero_passage = \<lparr>pa_Doc = \<lparr>Segment = 0, Local = 0\<rparr>, pa_URL = [], pa_Title = [], pa_Source = [], pa_Text = [], pa_Score = 0, Published = 0\<rparr>"

fun deal_step :: "Passage list \<times> nat \<times> int \<times> nat \<Rightarrow> Passage \<Rightarrow> Passage list \<times> nat \<times> int \<times> nat" where
  "deal_step (out, lo, hi, i) p =
     (if i mod 2 = 0 then (out[lo := p], lo + 1, hi, i + 1) else (out[nat hi := p], lo, hi - 1, i + 1))"

definition Order :: "Passage list \<Rightarrow> Passage list" where
  "Order passages =
     (if length passages \<le> 2 then passages
      else let ranked = sort_key (\<lambda>p. - pa_Score p) passages
           in fst (foldl deal_step (replicate (length ranked) zero_passage, 0, int (length ranked) - 1, 0) ranked))"

subsection \<open>Budget\<close>

text \<open>Go's conversion of a real to an \<open>int\<close> truncates toward zero.\<close>

definition trunc :: "real \<Rightarrow> int" where
  "trunc x = (if x \<ge> 0 then \<lfloor>x\<rfloor> else \<lceil>x\<rceil>)"

fun budget_loop :: "(Passage \<Rightarrow> int) \<Rightarrow> int \<Rightarrow> int \<Rightarrow> Passage list \<Rightarrow> Passage list" where
  "budget_loop cost ceil used [] = []"
| "budget_loop cost ceil used (p # ps) =
     (let c = cost p in if used + c > ceil then [] else p # budget_loop cost ceil (used + c) ps)"

definition Budget :: "Passage list \<Rightarrow> (Passage \<Rightarrow> int) \<Rightarrow> real \<Rightarrow> int \<Rightarrow> Passage list" where
  "Budget passages cost util budget =
     (let util = (if util \<le> 0 then DefaultUtilization else util)
      in budget_loop cost (trunc (real_of_int budget * util)) 0 passages)"

subsection \<open>Consolidate\<close>

definition source_group :: "Passage list \<Rightarrow> string \<Rightarrow> (nat \<times> Passage) list" where
  "source_group ps src = filter (\<lambda>(i, p). pa_Source p = src) (enumerate 0 ps)"

definition kept_positions :: "Passage list \<Rightarrow> nat \<Rightarrow> string \<Rightarrow> nat list" where
  "kept_positions ps perSource src = map fst (take perSource (sort_key (\<lambda>(i, p). - pa_Score p) (source_group ps src)))"

definition Consolidate :: "Passage list \<Rightarrow> int \<Rightarrow> Passage list" where
  "Consolidate ps perSource =
     (let perSource = nat (if perSource \<le> 0 then 1 else perSource)
      in map snd (filter (\<lambda>(i, p). pa_Source p = [] \<or> i \<in> set (kept_positions ps perSource (pa_Source p))) (enumerate 0 ps)))"

subsection \<open>Freshen\<close>

definition halfLifeDecay :: "int \<Rightarrow> int \<Rightarrow> real" where
  "halfLifeDecay age halfLife = 2 powr (- real_of_int age / real_of_int halfLife)"

definition openindexScore :: "real \<Rightarrow> real" where
  "openindexScore v = (if v < 0 then 0 else v)"

definition Freshen :: "Passage list \<Rightarrow> int \<Rightarrow> int \<Rightarrow> real \<Rightarrow> real \<Rightarrow> Passage list" where
  "Freshen ps now halfLife weight scoreScale =
     (if weight \<le> 0 \<or> halfLife \<le> 0 then ps
      else map (\<lambda>p. if Published p = 0 then p
             else let age = max (now - Published p) 0;
                      recency = halfLifeDecay age halfLife;
                      fused = pa_Score p * (1 - weight) + recency * weight * scoreScale
                  in p\<lparr>pa_Score := openindexScore fused\<rparr>) ps)"

subsection \<open>Dealing outward-in\<close>

fun deal :: "bool \<Rightarrow> 'a list \<Rightarrow> 'a list" where
  "deal front [] = []"
| "deal True (x # xs) = x # deal False xs"
| "deal False (x # xs) = deal True xs @ [x]"

lemma foldl_deal:
  assumes "length m = length rs"
  shows "fst (foldl deal_step (a @ m @ b, length a, int (length a + length m) - 1, i) rs) = a @ deal (even i) rs @ b"
  using assms
proof (induction rs arbitrary: a m b i)
  case (Cons r rs)
  show ?case
  proof (cases "even i")
    case True
    obtain x m' where m: "m = x # m'" "length m' = length rs" using Cons.prems by (cases m) auto
    have s: "deal_step (a @ m @ b, length a, int (length a + length m) - 1, i) r =
        ((a @ [r]) @ m' @ b, length (a @ [r]), int (length (a @ [r]) + length m') - 1, Suc i)"
      using True by (simp add: m even_iff_mod_2_eq_zero)
    show ?thesis unfolding foldl_Cons s Cons.IH[OF m(2)] using True by simp
  next
    case False
    obtain m' x where m: "m = m' @ [x]" "length m' = length rs" using Cons.prems by (cases m rule: rev_cases) auto
    have "nat (int (length a + length m) - 1) = length a + length m'" by (simp add: m nat_eq_iff)
    then have s: "deal_step (a @ m @ b, length a, int (length a + length m) - 1, i) r =
        (a @ m' @ ([r] @ b), length a, int (length a + length m') - 1, Suc i)"
      using False by (simp add: m list_update_append even_iff_mod_2_eq_zero)
    show ?thesis unfolding foldl_Cons s Cons.IH[OF m(2)] using False by simp
  qed
qed simp

lemma Order_deal: "Order ps = (if length ps \<le> 2 then ps else deal True (sort_key (\<lambda>p. - pa_Score p) ps))"
  using foldl_deal[of "replicate (length ps) zero_passage" "sort_key (\<lambda>p. - pa_Score p) ps" "[]" "[]" 0]
  by (simp add: Order_def Let_def)

lemma deal_nth:
  "length (deal f xs) = length xs \<and> mset (deal f xs) = mset xs \<and>
   (\<forall>j. 2 * j + (if f then 0 else 1) < length xs \<longrightarrow> deal f xs ! j = xs ! (2 * j + (if f then 0 else 1))) \<and>
   (\<forall>j. 2 * j + (if f then 1 else 0) < length xs \<longrightarrow> deal f xs ! (length xs - 1 - j) = xs ! (2 * j + (if f then 1 else 0)))"
proof (induction f xs rule: deal.induct)
  case (2 x xs)
  then have IH: "length (deal False xs) = length xs" "mset (deal False xs) = mset xs"
    "\<And>j. 2 * j + 1 < length xs \<Longrightarrow> deal False xs ! j = xs ! (2 * j + 1)"
    "\<And>j. 2 * j < length xs \<Longrightarrow> deal False xs ! (length xs - 1 - j) = xs ! (2 * j)" by auto
  have "deal True (x # xs) ! j = (x # xs) ! (2 * j)" if "2 * j < length (x # xs)" for j
    using IH(3)[of "j - 1"] that by (cases j) auto
  moreover have "deal True (x # xs) ! (length (x # xs) - 1 - j) = (x # xs) ! (2 * j + 1)" if "2 * j + 1 < length (x # xs)" for j
  proof -
    have "length xs - j = Suc (length xs - 1 - j)" using that by simp
    then show ?thesis using IH(4)[of j] that by simp
  qed
  ultimately show ?case using IH(1,2) by simp
next
  case (3 x xs)
  then have IH: "length (deal True xs) = length xs" "mset (deal True xs) = mset xs"
    "\<And>j. 2 * j < length xs \<Longrightarrow> deal True xs ! j = xs ! (2 * j)"
    "\<And>j. 2 * j + 1 < length xs \<Longrightarrow> deal True xs ! (length xs - 1 - j) = xs ! (2 * j + 1)" by auto
  have "deal False (x # xs) ! j = (x # xs) ! (2 * j + 1)" if "2 * j + 1 < length (x # xs)" for j
    using IH(1,3) that by (simp add: nth_append)
  moreover have "deal False (x # xs) ! (length (x # xs) - 1 - j) = (x # xs) ! (2 * j)" if "2 * j < length (x # xs)" for j
  proof (cases j)
    case (Suc k)
    then have "length xs - Suc k < length xs" using that by simp
    then show ?thesis using IH(1) IH(4)[of k] that Suc by (simp add: nth_append)
  qed (simp add: IH(1) nth_append)
  ultimately show ?case using IH(1,2) by simp
qed simp


text \<open>The context order puts the strongest passages at the edges: the passage of rank \<open>2j\<close> is the \<open>j\<close>-th from the front and that
  of rank \<open>2j + 1\<close> the \<open>j\<close>-th from the back, and nothing is lost. Two passages or fewer stay as they are.\<close>

theorem Order_edges:
  assumes "2 < length ps"
  shows "mset (Order ps) = mset ps \<and>
    (\<forall>j. 2 * j < length ps \<longrightarrow> Order ps ! j = sort_key (\<lambda>p. - pa_Score p) ps ! (2 * j)) \<and>
    (\<forall>j. 2 * j + 1 < length ps \<longrightarrow> Order ps ! (length ps - 1 - j) = sort_key (\<lambda>p. - pa_Score p) ps ! (2 * j + 1))"
  using deal_nth[of True "sort_key (\<lambda>p. - pa_Score p) ps"] assms by (simp add: Order_deal)

lemma mset_Order: "mset (Order ps) = mset ps"
  using deal_nth[of True "sort_key (\<lambda>p. - pa_Score p) ps"] by (simp add: Order_deal)

subsection \<open>The budget is a prefix\<close>

lemma budget_loop_spec:
  assumes "\<forall>p \<in> set ps. 0 \<le> cost p" "used \<le> ceil"
  shows "\<exists>m \<le> length ps. budget_loop cost ceil used ps = take m ps \<and> used + (\<Sum>p\<leftarrow>take m ps. cost p) \<le> ceil \<and>
    (m < length ps \<longrightarrow> used + (\<Sum>p\<leftarrow>take (Suc m) ps. cost p) > ceil)"
  using assms
proof (induction ps arbitrary: used)
  case (Cons p ps)
  show ?case
  proof (cases "used + cost p > ceil")
    case True
    then show ?thesis using Cons.prems by (intro exI[of _ 0]) simp
  next
    case False
    from Cons.IH[of "used + cost p"] False Cons.prems obtain m where "m \<le> length ps" "budget_loop cost ceil (used + cost p) ps = take m ps"
      "used + cost p + (\<Sum>p\<leftarrow>take m ps. cost p) \<le> ceil" "m < length ps \<longrightarrow> used + cost p + (\<Sum>p\<leftarrow>take (Suc m) ps. cost p) > ceil" by auto
    with False show ?thesis by (intro exI[of _ "Suc m"]) (simp add: add.assoc)
  qed
qed simp

lemma budget_loop_prefix: "\<exists>m. budget_loop cost ceil used ps = take m ps"
proof (induction ps arbitrary: used)
  case (Cons p ps)
  from Cons[of "used + cost p"] obtain m where "budget_loop cost ceil (used + cost p) ps = take m ps" by blast
  then show ?case by (cases "used + cost p > ceil") (auto intro: exI[of _ 0] exI[of _ "Suc m"])
qed simp

lemma budget_loop_total:
  "budget_loop cost ceil used ps \<noteq> [] \<Longrightarrow> used + (\<Sum>p\<leftarrow>budget_loop cost ceil used ps. cost p) \<le> ceil"
proof (induction ps arbitrary: used)
  case (Cons p ps)
  have "\<not> used + cost p > ceil" using Cons.prems by (auto simp: Let_def)
  then show ?case using Cons.IH[of "used + cost p"] by (cases "budget_loop cost ceil (used + cost p) ps = []") (simp_all add: add.assoc)
qed simp

subsection \<open>One source cannot outvote the others\<close>

lemma enumerate_nth: "(i, p) \<in> set (enumerate 0 ps) \<longleftrightarrow> i < length ps \<and> p = ps ! i"
  by (auto simp: in_set_enumerate_eq)

lemma source_group_set: "(i, p) \<in> set (source_group ps src) \<longleftrightarrow> i < length ps \<and> p = ps ! i \<and> pa_Source p = src"
  by (auto simp: source_group_def enumerate_nth)

lemma distinct_group: "distinct (map fst (source_group ps src))"
  unfolding source_group_def by (rule distinct_map_filter) simp

lemma map_snd_group: "map snd (source_group ps src) = filter (\<lambda>p. pa_Source p = src) ps"
proof -
  have "map snd (filter (\<lambda>(i, p). Q p) xs) = filter Q (map snd xs)" for Q :: "Passage \<Rightarrow> bool" and xs :: "(nat \<times> Passage) list"
    by (induction xs) auto
  then show ?thesis by (simp add: source_group_def)
qed

lemma kept_spec:
  fixes ps src k
  defines "K \<equiv> set (kept_positions ps k src)"
  shows "K \<subseteq> {i. i < length ps \<and> pa_Source (ps ! i) = src}"
    and "card K = min k (length (filter (\<lambda>p. pa_Source p = src) ps))"
    and "\<forall>i \<in> K. \<forall>j < length ps. pa_Source (ps ! j) = src \<longrightarrow> j \<notin> K \<longrightarrow> pa_Score (ps ! j) \<le> pa_Score (ps ! i)"
proof -
  let ?g = "sort_key (\<lambda>(i, p). - pa_Score p) (source_group ps src)"
  have g: "set ?g = set (source_group ps src)" "distinct (map fst ?g)"
    using distinct_group[of ps src] by (simp_all add: distinct_map)
  have K: "K = fst ` set (take k ?g)" by (simp add: K_def kept_positions_def)
  show "K \<subseteq> {i. i < length ps \<and> pa_Source (ps ! i) = src}"
    using g(1) by (auto simp: K source_group_set dest!: in_set_takeD)
  have "length ?g = length (filter (\<lambda>p. pa_Source p = src) ps)"
    using arg_cong[OF map_snd_group[of ps src], of length] by simp
  moreover have "card K = length (take k ?g)" unfolding K using g(2)
    by (metis distinct_card distinct_take length_map list.set_map take_map)
  ultimately show "card K = min k (length (filter (\<lambda>p. pa_Source p = src) ps))" by (simp add: min.commute)
  have "sorted (map (\<lambda>(i, p). - pa_Score p) (take k ?g @ drop k ?g))" by simp
  then have le: "\<forall>x \<in> set (take k ?g). \<forall>y \<in> set (drop k ?g). pa_Score (snd y) \<le> pa_Score (snd x)"
    unfolding map_append sorted_append by (force simp: case_prod_unfold)
  show "\<forall>i \<in> K. \<forall>j < length ps. pa_Source (ps ! j) = src \<longrightarrow> j \<notin> K \<longrightarrow> pa_Score (ps ! j) \<le> pa_Score (ps ! i)"
  proof (intro ballI allI impI)
    fix i j assume i: "i \<in> K" and j: "j < length ps" "pa_Source (ps ! j) = src" "j \<notin> K"
    obtain p where p: "(i, p) \<in> set (take k ?g)" using i by (auto simp: K)
    then have "p = ps ! i" using g(1) by (auto simp: source_group_set dest!: in_set_takeD)
    moreover have "(j, ps ! j) \<in> set (take k ?g @ drop k ?g)" using g(1) j by (simp add: source_group_set)
    then have "(j, ps ! j) \<in> set (drop k ?g)" using j(3) by (force simp: K simp del: append_take_drop_id)
    ultimately show "pa_Score (ps ! j) \<le> pa_Score (ps ! i)" using le p by force
  qed
qed


text \<open>The positions \<open>Consolidate\<close> keeps.\<close>

definition survives :: "Passage list \<Rightarrow> nat \<Rightarrow> nat \<Rightarrow> bool" where
  "survives ps k i \<longleftrightarrow> pa_Source (ps ! i) = [] \<or> i \<in> set (kept_positions ps k (pa_Source (ps ! i)))"

lemma nths_enumerate: "map snd (filter (\<lambda>(i, p). Q i) (enumerate m ps)) = nths ps {i. Q (m + i)}"
  by (induction ps arbitrary: m) (simp_all add: nths_Cons)

lemma Consolidate_nths: "Consolidate ps n = nths ps {i. i < length ps \<and> survives ps (nat (if n \<le> 0 then 1 else n)) i}"
proof -
  let ?k = "nat (if n \<le> 0 then 1 else n)"
  have "filter (\<lambda>(i, p). pa_Source p = [] \<or> i \<in> set (kept_positions ps ?k (pa_Source p))) (enumerate 0 ps) =
      filter (\<lambda>(i, p). i < length ps \<and> survives ps ?k i) (enumerate 0 ps)"
    by (rule filter_cong[OF refl]) (auto simp: enumerate_nth survives_def)
  then show ?thesis unfolding Consolidate_def Let_def by (simp add: nths_enumerate)
qed

lemma survives_source:
  assumes "src \<noteq> []"
  shows "{i. i < length ps \<and> survives ps k i \<and> pa_Source (ps ! i) = src} = set (kept_positions ps k src)"
  using kept_spec(1)[of ps k src] assms by (auto simp: survives_def)

lemma length_filter_nths:
  "length (filter Q (nths xs A)) = card {i. i < length xs \<and> i \<in> A \<and> Q (xs ! i)}"
proof -
  have "filter Q (nths xs A) = nths xs {i. i \<in> A \<and> i < length xs \<and> Q (xs ! i)}"
    by (induction xs arbitrary: A) (auto simp: nths_Cons intro!: arg_cong2[where f = nths])
  then show ?thesis by (simp add: length_nths) (rule arg_cong[of _ _ card], auto)
qed

lemma filter_source_Consolidate:
  assumes "src \<noteq> []"
  shows "length (filter (\<lambda>p. pa_Source p = src) (Consolidate ps n)) =
    min (nat (if n \<le> 0 then 1 else n)) (length (filter (\<lambda>p. pa_Source p = src) ps))"
proof -
  let ?k = "nat (if n \<le> 0 then 1 else n)"
  have "length (filter (\<lambda>p. pa_Source p = src) (Consolidate ps n)) =
      card {i. i < length ps \<and> survives ps ?k i \<and> pa_Source (ps ! i) = src}"
    unfolding Consolidate_nths length_filter_nths by (rule arg_cong[of _ _ card]) auto
  then show ?thesis unfolding survives_source[OF assms] using kept_spec(2)[of ps ?k src] by simp
qed

end
