(* ===== verification/AnswerEngine.thy ===== *)
theory AnswerEngine
  imports Synth
begin

text \<open>
  \<open>answer/router\<close> and \<open>answer/engine/engine.go\<close>: the route of a query and the pipeline. Retriever, reranker, synthesizer and
  verifier are served models: they are fields of the engine, with their errors as strings. A nil classifier or token cost is
  \<open>None\<close>; the calls a nil token cost would make panic.
\<close>

subsection \<open>Router\<close>

datatype Route = RouteSearch | RouteSinglePass | RouteAgentic

primrec Route_String :: "Route \<Rightarrow> string" where
  "Route_String RouteSearch = ''search''"
| "Route_String RouteSinglePass = ''single-pass''"
| "Route_String RouteAgentic = ''agentic''"

record Decision =
  d_Route :: Route
  Confidence :: real

definition DefaultMaxNavigationalWords :: int where "DefaultMaxNavigationalWords = 2"

record RuleClassifier =
  MaxNavigationalWords :: int

definition NewRuleClassifier :: RuleClassifier where
  "NewRuleClassifier = \<lparr>MaxNavigationalWords = DefaultMaxNavigationalWords\<rparr>"

definition multiHopCues :: "string list" where
  "multiHopCues = [''compare'', ''versus'', '' vs '', ''difference between'', ''how does'', ''why does'', ''relationship between'',
     ''timeline of'', ''step by step'', ''and then'']"

definition questionCues :: "string list" where
  "questionCues = [''what'', ''who'', ''when'', ''where'', ''why'', ''how'', ''explain'', ''summarize'', ''list'', ''best'', ''should i'']"

definition hasFirstWord :: "string list \<Rightarrow> string \<Rightarrow> bool" where
  "hasFirstWord ws w \<longleftrightarrow> length ws > 0 \<and> ws ! 0 = w"

definition Classify :: "RuleClassifier \<Rightarrow> string \<Rightarrow> Decision" where
  "Classify c query =
     (let maxNav = (if MaxNavigationalWords c \<le> 0 then DefaultMaxNavigationalWords else MaxNavigationalWords c);
          q = ToLower (TrimSpace query);
          ws = Fields q
      in if list_ex (Contains q) multiHopCues then \<lparr>d_Route = RouteAgentic, Confidence = 8 / 10\<rparr>
         else let hasQuestion = Contains q ''?'' \<or> list_ex (\<lambda>cue. hasFirstWord ws cue \<or> Contains q ('' '' @ cue @ '' '')) questionCues
              in if hasQuestion
                 then if length ws > 12 then \<lparr>d_Route = RouteAgentic, Confidence = 55 / 100\<rparr>
                      else \<lparr>d_Route = RouteSinglePass, Confidence = 75 / 100\<rparr>
                 else if int (length ws) \<le> maxNav then \<lparr>d_Route = RouteSearch, Confidence = 7 / 10\<rparr>
                 else \<lparr>d_Route = RouteSinglePass, Confidence = 1 / 2\<rparr>)"

definition EscalationRate :: "Decision list \<Rightarrow> real" where
  "EscalationRate ds =
     (if length ds = 0 then 0
      else real (foldl (\<lambda>n d. if d_Route d \<noteq> RouteSearch then n + 1 else n) (0::nat) ds) / real (length ds))"

definition WantsModel :: "Route \<Rightarrow> bool" where
  "WantsModel r \<longleftrightarrow> r = RouteSinglePass \<or> r = RouteAgentic"

subsection \<open>Pipeline\<close>

record Citation =
  ci_Start :: int
  ci_End :: int
  ci_ChunkIndices :: "int list"

record Answer =
  an_Text :: string
  an_Passages :: "Passage list"
  an_Citations :: "Citation list"
  an_Verified :: bool

record Config =
  CandidatePool :: int
  ContextSize :: int
  PerSource :: int
  TokenBudget :: int
  Utilization :: real
  cf_MinConfidence :: real
  TokenCost :: "(Passage \<Rightarrow> int) option"

definition Defaults :: Config where
  "Defaults = \<lparr>CandidatePool = 50, ContextSize = 8, PerSource = 3, TokenBudget = 8192, Utilization = DefaultUtilization,
     cf_MinConfidence = MinConfidence, TokenCost = Some (\<lambda>p. int (length (pa_Text p) div 4) + 1)\<rparr>"

datatype answer_error = ErrSearchRoute | Upstream string | Panic

record Answer_Engine =
  ae_Classifier :: "(string \<Rightarrow> Decision) option"
  ae_Retriever :: "string \<Rightarrow> int \<Rightarrow> string + Passage list"
  ae_Reranker :: "string \<Rightarrow> Passage list \<Rightarrow> int \<Rightarrow> string + Passage list"
  ae_Synthesizer :: "string \<Rightarrow> Passage list \<Rightarrow> string + string"
  ae_Verifier :: Verifier
  ae_Config :: Config

text \<open>\<open>synth.Budget\<close> with the configured cost: a nil function panics at the first passage.\<close>

definition budget_call :: "Config \<Rightarrow> Passage list \<Rightarrow> Passage list option" where
  "budget_call cfg ps =
     (case TokenCost cfg of
        Some cost \<Rightarrow> Some (Budget ps cost (Utilization cfg) (TokenBudget cfg))
      | None \<Rightarrow> if ps = [] then Some [] else None)"

definition citation_of :: "Support \<Rightarrow> Citation" where
  "citation_of s = \<lparr>ci_Start = sg_Start (su_Segment s), ci_End = sg_End (su_Segment s), ci_ChunkIndices = su_Chunks s\<rparr>"

definition cite :: "Verifier \<Rightarrow> real \<Rightarrow> Passage list \<Rightarrow> string \<Rightarrow> answer_error + Answer" where
  "cite v minConf ps raw =
     (let (clean, claims) = parseCitations raw;
          result = Correct v claims ps minConf
      in case Insert clean (vr_Supports result) of
           None \<Rightarrow> Inl Panic
         | Some text \<Rightarrow> Inr \<lparr>an_Text = text, an_Passages = ps, an_Citations = map citation_of (vr_Supports result),
                          an_Verified = vr_Verified result\<rparr>)"

definition effective :: "Config \<Rightarrow> Config" where
  "effective cfg = (if CandidatePool cfg = 0 then Defaults else cfg)"

definition Answer_query :: "Answer_Engine \<Rightarrow> string \<Rightarrow> answer_error + Answer" where
  "Answer_query e query =
     (let cfg = effective (ae_Config e)
      in if (case ae_Classifier e of Some classify \<Rightarrow> \<not> WantsModel (d_Route (classify query)) | None \<Rightarrow> False) then Inl ErrSearchRoute
         else case ae_Retriever e query (CandidatePool cfg) of Inl err \<Rightarrow> Inl (Upstream err)
         | Inr candidates \<Rightarrow> (case ae_Reranker e query candidates (ContextSize cfg) of Inl err \<Rightarrow> Inl (Upstream err)
         | Inr reranked \<Rightarrow>
             let passages = Order (Consolidate reranked (PerSource cfg))
             in case budget_call cfg passages of None \<Rightarrow> Inl Panic
                | Some passages \<Rightarrow> (case ae_Synthesizer e query passages of Inl err \<Rightarrow> Inl (Upstream err)
                | Inr raw \<Rightarrow> cite (ae_Verifier e) (cf_MinConfidence cfg) passages raw)))"

text \<open>An engine with one passage, a model that cites it twice, and the overlap verifier.\<close>

definition demo_passage :: Passage where
  "demo_passage = \<lparr>pa_Doc = \<lparr>Segment = 1, Local = 2\<rparr>, pa_URL = ''u'', pa_Title = ''t'', pa_Source = ''s'', pa_Text = ''go'', pa_Score = 1, Published = 0\<rparr>"
definition demo_engine :: Answer_Engine where
  "demo_engine = \<lparr>ae_Classifier = Some (Classify NewRuleClassifier), ae_Retriever = (\<lambda>q n. Inr [demo_passage]),
     ae_Reranker = (\<lambda>q ps k. Inr ps), ae_Synthesizer = (\<lambda>q ps. Inr ''Go.[1] No.[1]''),
     ae_Verifier = OverlapVerifier (1 / 2), ae_Config = Defaults\<rparr>"

subsection \<open>Routing escalates\<close>

lemma Classify_search:
  "d_Route (Classify c query) = RouteSearch \<longleftrightarrow>
     (let q = ToLower (TrimSpace query)
      in \<not> list_ex (Contains q) multiHopCues \<and> \<not> Contains q ''?'' \<and>
         \<not> list_ex (\<lambda>cue. hasFirstWord (Fields q) cue \<or> Contains q ('' '' @ cue @ '' '')) questionCues \<and>
         int (length (Fields q)) \<le> (if MaxNavigationalWords c \<le> 0 then DefaultMaxNavigationalWords else MaxNavigationalWords c))"
  unfolding Classify_def Let_def by auto

lemma EscalationRate_share:
  "EscalationRate ds = (if ds = [] then 0 else real (length (filter (\<lambda>d. WantsModel (d_Route d)) ds)) / real (length ds))"
proof -
  have "foldl (\<lambda>n d. if d_Route d \<noteq> RouteSearch then n + 1 else n) n ds = n + length (filter (\<lambda>d. WantsModel (d_Route d)) ds)" for n :: nat
  proof (induction ds arbitrary: n)
    case (Cons d ds)
    then show ?case by (cases "d_Route d") (simp_all add: WantsModel_def)
  qed simp
  then show ?thesis by (simp add: EscalationRate_def)
qed

subsection \<open>Only verified claims are cited\<close>

lemma filtered_ends:
  assumes "claims_ok b n claims"
  shows "sorted_wrt (\<lambda>s t. ends s < ends t) (map support_of (filter Q claims))"
    and "\<forall>s \<in> set (map support_of (filter Q claims)). 0 \<le> ends s \<and> ends s \<le> int (length b)"
proof -
  have ok: "\<forall>c \<in> set claims. claim_ok b n c" "n \<le> length b" and srt: "sorted_wrt (\<lambda>c d. cl_End c \<le> cl_Start d) claims"
    using assms by (auto simp: claims_ok_def list_all_iff)
  have "sorted_wrt (\<lambda>c d. cl_End c < cl_End d) claims"
    by (rule sorted_wrt_mono_rel[OF _ srt]) (use ok in \<open>fastforce simp: claim_ok_def\<close>)
  then show "sorted_wrt (\<lambda>s t. ends s < ends t) (map support_of (filter Q claims))"
    by (simp add: sorted_wrt_map support_of_def sorted_wrt_filter)
  show "\<forall>s \<in> set (map support_of (filter Q claims)). 0 \<le> ends s \<and> ends s \<le> int (length b)"
    using ok by (fastforce simp: claim_ok_def support_of_def)
qed

abbreviation floor_of :: "real \<Rightarrow> real" where
  "floor_of minConf \<equiv> (if minConf \<le> 0 then MinConfidence else minConf)"

lemma cite_spec:
  assumes "parseCitations raw = (clean, claims)"
  shows "cite v minConf ps raw =
    Inr \<lparr>an_Text = annotate clean 0 (map support_of (filter (supported v ps (floor_of minConf)) claims)), an_Passages = ps,
      an_Citations = map (citation_of \<circ> support_of) (filter (supported v ps (floor_of minConf)) claims),
      an_Verified = list_all (supported v ps (floor_of minConf)) claims\<rparr>"
  using Insert_annotate[OF filtered_ends[OF parseCitations_ok[OF assms], of "supported v ps (floor_of minConf)"]]
  by (simp add: cite_def assms Correct_spec Let_def)

lemma budget_call_prefix:
  assumes "budget_call cfg ps = Some qs"
  shows "\<exists>m. qs = take m ps"
  using assms budget_loop_prefix
  by (auto simp: budget_call_def Budget_def Let_def split: option.splits if_splits)

lemma context_capped:
  assumes "budget_call cfg (Order (Consolidate rs n)) = Some ps" "src \<noteq> []"
  shows "length (filter (\<lambda>p. pa_Source p = src) ps) \<le> nat (if n \<le> 0 then 1 else n)"
proof -
  obtain m where "ps = take m (Order (Consolidate rs n))" using budget_call_prefix[OF assms(1)] by blast
  then have "mset ps \<subseteq># mset (Consolidate rs n)" by (metis append_take_drop_id mset_Order mset_append mset_subset_eq_add_left)
  then have "size (filter_mset (\<lambda>p. pa_Source p = src) (mset ps)) \<le> size (filter_mset (\<lambda>p. pa_Source p = src) (mset (Consolidate rs n)))"
    by (intro size_mset_mono multiset_filter_mono)
  then have "length (filter (\<lambda>p. pa_Source p = src) ps) \<le> length (filter (\<lambda>p. pa_Source p = src) (Consolidate rs n))"
    by (metis mset_filter size_mset)
  then show ?thesis using filter_source_Consolidate[OF assms(2), of rs n] by simp
qed

lemma budget_call_fits:
  assumes "TokenCost cfg = Some cost" "budget_call cfg rs = Some ps" "ps \<noteq> []"
  shows "(\<Sum>p\<leftarrow>ps. cost p) \<le> trunc (real_of_int (TokenBudget cfg) * (if Utilization cfg \<le> 0 then DefaultUtilization else Utilization cfg))"
  using assms budget_loop_total[of cost _ 0 rs] by (auto simp: budget_call_def Budget_def Let_def)

lemma Answer_query_cases:
  assumes "TokenCost (effective (ae_Config e)) = Some cost"
  obtains err where "Answer_query e query = Inl err" "err \<noteq> Panic"
  | reranked ps raw where "budget_call (effective (ae_Config e)) (Order (Consolidate reranked (PerSource (effective (ae_Config e))))) = Some ps"
      "ae_Synthesizer e query ps = Inr raw"
      "Answer_query e query = cite (ae_Verifier e) (cf_MinConfidence (effective (ae_Config e))) ps raw"
proof -
  define c where "c = effective (ae_Config e)"
  have b: "\<exists>ps. budget_call c xs = Some ps" for xs using assms by (auto simp: budget_call_def c_def)
  show thesis
  proof (cases "Answer_query e query = Inl ErrSearchRoute \<or> (\<exists>s. Answer_query e query = Inl (Upstream s))")
    case True
    then show thesis using that(1) by blast
  next
    case False
    then obtain cands where 1: "ae_Retriever e query (CandidatePool c) = Inr cands"
      and go: "\<not> (case ae_Classifier e of Some classify \<Rightarrow> \<not> WantsModel (d_Route (classify query)) | None \<Rightarrow> False)"
      unfolding Answer_query_def Let_def c_def[symmetric] by (auto split: sum.splits if_splits)
    with False obtain rr where 2: "ae_Reranker e query cands (ContextSize c) = Inr rr"
      unfolding Answer_query_def Let_def c_def[symmetric] by (auto split: sum.splits)
    obtain ps where 3: "budget_call c (Order (Consolidate rr (PerSource c))) = Some ps" using b by blast
    with False 1 2 go obtain raw where 4: "ae_Synthesizer e query ps = Inr raw"
      unfolding Answer_query_def Let_def c_def[symmetric] by (auto split: sum.splits)
    have "Answer_query e query = cite (ae_Verifier e) (cf_MinConfidence c) ps raw"
      unfolding Answer_query_def Let_def c_def[symmetric] using 1 2 3 4 go by simp
    with 3 4 show thesis unfolding c_def by (rule that(2))
  qed
qed

lemma verified_covers:
  assumes "claims_ok b n claims" "list_all Q claims" "i < n" "\<not> isSpace (b ! i)"
  shows "list_ex (\<lambda>c. ci_Start c \<le> int i \<and> int i < ci_End c) (map (citation_of \<circ> support_of) (filter Q claims))"
  using assms by (force simp: claims_ok_def list_all_iff list_ex_iff citation_of_def support_of_def)

lemma demo_parse: "parseCitations ''Go.[1] No.[1]'' = (''Go. No.'', [\<lparr>cl_Text = ''Go.'', cl_Start = 0, cl_End = 3, ChunkIndices = [0]\<rparr>, \<lparr>cl_Text = ''No.'', cl_Start = 4, cl_End = 7, ChunkIndices = [0]\<rparr>])"
  by code_simp
lemma demo_words: "contentWords ''Go.'' = [''go'']" "contentWords ''No.'' = [''no'']" "contentWords ''go'' = [''go'']" by code_simp+
lemma demo_route: "WantsModel (d_Route (Classify NewRuleClassifier ''what''))" by code_simp
lemma demo_budget: "budget_call Defaults (Order (Consolidate [demo_passage] 3)) = Some [demo_passage]"
  by (simp add: budget_call_def Defaults_def Order_def Consolidate_def demo_passage_def kept_positions_def source_group_def Budget_def DefaultUtilization_def trunc_def enumerate_eq_zip)
lemma demo_answer: "Answer_query demo_engine ''what'' = Inr \<lparr>an_Text = ''Go.[1] No.'', an_Passages = [demo_passage],
   an_Citations = [\<lparr>ci_Start = 0, ci_End = 3, ci_ChunkIndices = [0]\<rparr>], an_Verified = False\<rparr>"
proof -
  have [simp]: "effective Defaults = Defaults" "PerSource Defaults = 3" by (simp_all add: effective_def Defaults_def)
  have v: "supported (OverlapVerifier (1/2)) [demo_passage] (floor_of (cf_MinConfidence Defaults)) c \<longleftrightarrow> cl_Text c = ''Go.''" if "ChunkIndices c = [0]" "cl_Text c \<in> {''Go.'', ''No.''}" for c
    using that by (auto simp: supported_def OverlapVerifier_def demo_words demo_passage_def in_range_def Defaults_def MinConfidence_def)
  have m: "Marker [0] = ''[1]''" by code_simp
  show ?thesis using demo_route demo_budget by (simp add: Answer_query_def demo_engine_def cite_spec[OF demo_parse] v citation_of_def support_of_def m)
qed

text \<open>C37: An answer is grounded. The pipeline never slices out of range. Whatever the model writes, every citation of the answer is the
  span of a sentence of the text without markers, and one of the passages it cites entails that sentence with at least the
  configured confidence; the shown text is that text with the markers of exactly these citations at the ends of their spans; an
  answer that says it is verified has every non-space byte inside a citation. The passages fit the token budget, and no source
  contributes more than its cap.\<close>

theorem Answer_grounded:
  fixes e query
  defines "cfg \<equiv> effective (ae_Config e)"
  assumes "TokenCost cfg = Some cost"
  shows "Answer_query e query \<noteq> Inl Panic \<and>
    (\<forall>a. Answer_query e query = Inr a \<longrightarrow>
      (\<exists>raw clean claims cited. ae_Synthesizer e query (an_Passages a) = Inr raw \<and> parseCitations raw = (clean, claims) \<and>
         claims_ok clean (length clean) claims \<and>
         cited = filter (supported (ae_Verifier e) (an_Passages a) (floor_of (cf_MinConfidence cfg))) claims \<and>
         an_Citations a = map (\<lambda>c. \<lparr>ci_Start = cl_Start c, ci_End = cl_End c, ci_ChunkIndices = ChunkIndices c\<rparr>) cited \<and>
         an_Text a = annotate clean 0 (map support_of cited) \<and>
         (an_Verified a \<longleftrightarrow> cited = claims) \<and>
         (an_Verified a \<longrightarrow> (\<forall>i < length clean. \<not> isSpace (clean ! i) \<longrightarrow>
            list_ex (\<lambda>c. ci_Start c \<le> int i \<and> int i < ci_End c) (an_Citations a)))) \<and>
      (an_Passages a \<noteq> [] \<longrightarrow> (\<Sum>p\<leftarrow>an_Passages a. cost p) \<le>
         trunc (real_of_int (TokenBudget cfg) * (if Utilization cfg \<le> 0 then DefaultUtilization else Utilization cfg))) \<and>
      (\<forall>src. src \<noteq> [] \<longrightarrow> length (filter (\<lambda>p. pa_Source p = src) (an_Passages a)) \<le> nat (if PerSource cfg \<le> 0 then 1 else PerSource cfg)))"
proof (rule Answer_query_cases[OF assms(2)[unfolded cfg_def], of query])
  fix reranked ps raw
  assume b: "budget_call (effective (ae_Config e)) (Order (Consolidate reranked (PerSource (effective (ae_Config e))))) = Some ps"
    and s: "ae_Synthesizer e query ps = Inr raw"
    and q: "Answer_query e query = cite (ae_Verifier e) (cf_MinConfidence (effective (ae_Config e))) ps raw"
  obtain clean claims where p: "parseCitations raw = (clean, claims)" by fastforce
  let ?Q = "supported (ae_Verifier e) ps (floor_of (cf_MinConfidence cfg))"
  note ok = parseCitations_ok[OF p]
  have v: "list_all ?Q claims \<longleftrightarrow> filter ?Q claims = claims"
    by (metis filter_id_conv list_all_iff)
  have cit: "map (citation_of \<circ> support_of) cs = map (\<lambda>c. \<lparr>ci_Start = cl_Start c, ci_End = cl_End c, ci_ChunkIndices = ChunkIndices c\<rparr>) cs" for cs
    by (simp add: citation_of_def support_of_def)
  show ?thesis
    using s p ok v verified_covers[OF ok, of ?Q, unfolded cit] context_capped[OF b] budget_call_fits[OF assms(2)[unfolded cfg_def] b]
    unfolding q cite_spec[OF p] cfg_def[symmetric] cit by (simp del: filter_id_conv)
qed auto

text \<open>Of the two sentences the model writes, the passage entails the first: it alone keeps its marker, and the answer is not verified.\<close>

theorem Answer_grounded_witness:
  "\<exists>a. Answer_query demo_engine ''what'' = Inr a \<and> an_Text a = ''Go.[1] No.'' \<and> \<not> an_Verified a \<and>
     length (filter (\<lambda>p. pa_Source p = ''s'') (an_Passages a)) \<le> 3"
proof -
  have "TokenCost (effective (ae_Config demo_engine)) = Some (\<lambda>p. int (length (pa_Text p) div 4) + 1)" "PerSource (effective (ae_Config demo_engine)) = 3"
    by (simp_all add: demo_engine_def effective_def Defaults_def)
  then show ?thesis using Answer_grounded[of demo_engine _ "''what''"] unfolding demo_answer by fastforce
qed

end
