(* ===== verification/GoFloat.thy ===== *)
theory GoFloat
  imports Prelude Complex_Main
begin

text \<open>
  The part of Go's floating point the sources compute with, as exact numbers: \<open>rnd53\<close> is IEEE rounding to 53
  significant bits, ties to even, of a value of at least 1; \<open>float64\<close> is the conversion of an integer, and
  \<open>Float64bits\<close> the bit pattern of the number nearest to a rational of normal magnitude. \<open>fround\<close> rounds to any precision, with
  its relative error, idempotence and a way to compute it.
\<close>

subsection \<open>Rounding\<close>

definition round_even :: "'a::floor_ceiling \<Rightarrow> int" where
  "round_even x =
     (let f = \<lfloor>x\<rfloor>; r = x - of_int f
      in if r > 1 / 2 \<or> r = 1 / 2 \<and> odd f then f + 1 else f)"

definition rnd53 :: "rat \<Rightarrow> rat" where
  "rnd53 x =
     (let k = bits_Len (nat \<lfloor>x\<rfloor>)
      in if k \<le> 53 then of_int (round_even (x * 2 ^ (53 - k))) / 2 ^ (53 - k)
         else of_int (round_even (x / 2 ^ (k - 53))) * 2 ^ (k - 53))"

definition float64 :: "int \<Rightarrow> rat" where
  "float64 n = rnd53 (of_int n)"

definition fmul :: "rat \<Rightarrow> rat \<Rightarrow> rat" where
  "fmul x y = rnd53 (x * y)"

definition fdiv :: "rat \<Rightarrow> rat \<Rightarrow> rat" where
  "fdiv x y = rnd53 (x / y)"

subsection \<open>Bit patterns\<close>

text \<open>The exponent of the leading bit of a positive number.\<close>

definition exponent2 :: "'a::floor_ceiling \<Rightarrow> int" where
  "exponent2 x =
     (if 1 \<le> x then int (bits_Len (nat \<lfloor>x\<rfloor>)) - 1 else - int (bits_Len (nat (\<lceil>1 / x\<rceil> - 1))))"

text \<open>A fraction that rounds up to the next power of two carries into the exponent field.\<close>

definition Float64bits :: "rat \<Rightarrow> u64" where
  "Float64bits x =
     (if x = 0 then 0
      else let e = exponent2 \<bar>x\<bar>;
               m = round_even (if e \<le> 52 then \<bar>x\<bar> * 2 ^ nat (52 - e) else \<bar>x\<bar> / 2 ^ nat (e - 52))
           in (if x < 0 then push_bit 63 1 else 0) + push_bit 52 (of_int (e + 1023)) + of_int (m - 2 ^ 52))"

text \<open>The conversion of an \<open>int64\<close>.\<close>

definition float64_int :: "int \<Rightarrow> rat" where
  "float64_int n = (if n < 0 then - float64 (- n) else float64 n)"

subsection \<open>Rounding respects representable bounds\<close>

lemma round_even_ge: "of_int n \<le> x \<Longrightarrow> n \<le> round_even x"
  unfolding le_floor_iff[symmetric] by (simp add: round_even_def Let_def)

lemma round_even_le: "x \<le> of_int n \<Longrightarrow> round_even x \<le> n"
proof -
  assume x: "x \<le> of_int n"
  then have "\<lfloor>x\<rfloor> \<le> n" by (metis floor_mono floor_of_int)
  moreover have "\<lfloor>x\<rfloor> \<noteq> n" if "x - of_int \<lfloor>x\<rfloor> \<ge> 1 / 2" using x that by auto
  ultimately show ?thesis by (auto simp: round_even_def Let_def)
qed

lemma round_even_of_int: "round_even (of_int n :: 'a::floor_ceiling) = n"
  by (simp add: round_even_def Let_def)

lemma bits_Len_lower: "0 < n \<Longrightarrow> 2 ^ (bits_Len n - 1) \<le> n"
proof (induction n rule: bits_Len.induct)
  case (1 n)
  show ?case
  proof (cases "n div 2 = 0")
    case True
    then show ?thesis using 1(2) by (simp add: bits_Len.simps[of n] bits_Len.simps[of 0])
  next
    case False
    then obtain k where k: "bits_Len (n div 2) = Suc k" by (simp add: bits_Len.simps[of "n div 2"])
    have "2 ^ k \<le> n div 2" using 1(1) 1(2) False k by simp
    then show ?thesis using 1(2) k by (simp add: bits_Len.simps[of n])
  qed
qed

lemma bits_Len_floor:
  fixes x :: "'a::floor_ceiling"
  assumes "1 \<le> x"
  defines "k \<equiv> bits_Len (nat \<lfloor>x\<rfloor>)"
  shows "1 \<le> k" "2 ^ (k - 1) \<le> x" "x < 2 ^ k"
proof -
  have f: "1 \<le> \<lfloor>x\<rfloor>" using assms(1) by (simp add: le_floor_iff)
  then have p: "0 < nat \<lfloor>x\<rfloor>" by simp
  then show "1 \<le> k" using bits_Len_bound[of "nat \<lfloor>x\<rfloor>"] by (cases k) (auto simp: k_def)
  have "int (2 ^ (k - 1)) \<le> \<lfloor>x\<rfloor>" using bits_Len_lower[OF p] f by (simp add: k_def le_nat_iff)
  then show "2 ^ (k - 1) \<le> x" by (simp add: le_floor_iff)
  have "\<lfloor>x\<rfloor> < int (2 ^ k)" using bits_Len_bound[of "nat \<lfloor>x\<rfloor>"] f by (simp add: k_def nat_less_iff)
  then show "x < 2 ^ k" by (simp add: floor_less_iff)
qed

lemma rnd53_ge:
  assumes "1 \<le> n" "n < 2 ^ 53" "of_int n \<le> x"
  shows "of_int n \<le> rnd53 x"
proof -
  have "(1::rat) \<le> of_int n" using assms(1) by simp
  then have x1: "1 \<le> x" using assms(3) by linarith
  let ?k = "bits_Len (nat \<lfloor>x\<rfloor>)"
  note k = bits_Len_floor[OF x1]
  show ?thesis
  proof (cases "?k \<le> 53")
    case True
    have "of_int (n * 2 ^ (53 - ?k)) \<le> x * 2 ^ (53 - ?k)" using assms(3) by simp
    then have "n * 2 ^ (53 - ?k) \<le> round_even (x * 2 ^ (53 - ?k))" by (rule round_even_ge)
    then have "(of_int (n * 2 ^ (53 - ?k)) :: rat) \<le> of_int (round_even (x * 2 ^ (53 - ?k)))" by (simp only: of_int_le_iff)
    then show ?thesis using True by (simp add: rnd53_def Let_def pos_le_divide_eq)
  next
    case False
    have "?k - 1 = 52 + (?k - 53)" using False by simp
    then have "(2::rat) ^ (?k - 1) = 2 ^ 52 * 2 ^ (?k - 53)" by (metis power_add)
    then have "of_int (2 ^ 52) \<le> x / 2 ^ (?k - 53)" using k(2) by (simp add: pos_le_divide_eq)
    then have "2 ^ 52 \<le> round_even (x / 2 ^ (?k - 53))" by (rule round_even_ge)
    then have "(of_int (2 ^ 52) :: rat) \<le> of_int (round_even (x / 2 ^ (?k - 53)))" by (simp only: of_int_le_iff)
    then have "of_int (2 ^ 52) * (2::rat) ^ (?k - 53) \<le> rnd53 x" using False by (simp add: rnd53_def Let_def)
    moreover have "(2::rat) ^ 1 \<le> 2 ^ (?k - 53)" using False by (intro power_increasing) auto
    moreover have "(of_int n :: rat) \<le> 2 ^ 53" using of_int_le_iff[of n "2 ^ 53", where ?'a = rat] assms(2) by simp
    ultimately show ?thesis by simp
  qed
qed

lemma rnd53_le_pow:
  assumes "1 \<le> x" "x \<le> 2 ^ m"
  shows "rnd53 x \<le> 2 ^ m"
proof -
  let ?k = "bits_Len (nat \<lfloor>x\<rfloor>)"
  note k = bits_Len_floor[OF assms(1)]
  show ?thesis
  proof (cases "?k \<le> 53")
    case True
    have "x * 2 ^ (53 - ?k) \<le> of_int (2 ^ m * 2 ^ (53 - ?k))" using assms(2) by simp
    then have "round_even (x * 2 ^ (53 - ?k)) \<le> 2 ^ m * 2 ^ (53 - ?k)" by (rule round_even_le)
    then have "(of_int (round_even (x * 2 ^ (53 - ?k))) :: rat) \<le> of_int (2 ^ m * 2 ^ (53 - ?k))" by (simp only: of_int_le_iff)
    then show ?thesis using True by (simp add: rnd53_def Let_def pos_divide_le_eq)
  next
    case False
    have "(2::rat) ^ (?k - 1) \<le> 2 ^ m" using k(2) assms(2) by linarith
    then have "?k - 1 \<le> m" by (simp add: power_le_imp_le_exp)
    then have m: "(2::rat) ^ m = 2 ^ (m - (?k - 53)) * 2 ^ (?k - 53)" by (simp flip: power_add)
    then have "x / 2 ^ (?k - 53) \<le> of_int (2 ^ (m - (?k - 53)))" using assms(2) by (simp add: pos_divide_le_eq)
    then have "round_even (x / 2 ^ (?k - 53)) \<le> 2 ^ (m - (?k - 53))" by (rule round_even_le)
    then have "(of_int (round_even (x / 2 ^ (?k - 53))) :: rat) \<le> of_int (2 ^ (m - (?k - 53)))" by (simp only: of_int_le_iff)
    then show ?thesis using False m by (simp add: rnd53_def Let_def)
  qed
qed

lemma float64_exact:
  assumes "1 \<le> n" "n < 2 ^ 53"
  shows "float64 n = of_int n"
proof -
  let ?k = "bits_Len (nat n)"
  have "?k \<le> 53" using assms by (intro bits_Len_le) (simp add: nat_less_iff)
  moreover have "round_even (of_int n * 2 ^ (53 - ?k) :: rat) = n * 2 ^ (53 - ?k)"
    using round_even_of_int[of "n * 2 ^ (53 - ?k)", where 'a = rat] by simp
  ultimately show ?thesis by (simp add: float64_def rnd53_def Let_def)
qed

subsection \<open>Any precision and magnitude\<close>

text \<open>Rounding to \<open>p\<close> significant bits, ties to even: \<open>p = 53\<close> for \<open>float64\<close> and \<open>p = 24\<close> for \<open>float32\<close>, exact for
  results of normal magnitude.\<close>

definition fround :: "nat \<Rightarrow> 'a::floor_ceiling \<Rightarrow> 'a" where
  "fround p x =
     (let s = int p - 1 - exponent2 \<bar>x\<bar>
      in of_int (round_even (x * power_int 2 s)) * power_int 2 (- s))"

lemma round_even_error: "\<bar>of_int (round_even x) - x\<bar> \<le> 1 / 2" for x :: "'a::floor_ceiling"
proof -
  have "of_int \<lfloor>x\<rfloor> \<le> x" "x < of_int \<lfloor>x\<rfloor> + 1" by (rule of_int_floor_le, rule floor_correct[THEN conjunct2, simplified])
  then show ?thesis by (simp add: round_even_def Let_def abs_le_iff algebra_simps)
qed

lemma powi2_mono: "m \<le> n \<Longrightarrow> power_int (2::'a::linordered_field) m \<le> power_int 2 n"
  by (rule power_int_increasing) simp_all

lemma powi2_le_imp: "power_int (2::'a::linordered_field) m \<le> power_int 2 n \<Longrightarrow> m \<le> n"
  using power_int_strict_increasing[of n m "2::'a"] by (meson not_le one_less_numeral_iff semiring_norm(76))

lemma exponent2_bounds:
  fixes x :: "'a::floor_ceiling"
  assumes "0 < x"
  shows "power_int 2 (exponent2 x) \<le> x" "x < power_int 2 (exponent2 x + 1)"
proof (atomize (full), cases "1 \<le> x")
  case True
  note k = bits_Len_floor[OF True]
  have "power_int (2::'a) (int (bits_Len (nat \<lfloor>x\<rfloor>)) - 1) = 2 ^ (bits_Len (nat \<lfloor>x\<rfloor>) - 1)"
    using k(1) by (simp add: power_int_def nat_diff_distrib)
  then show "power_int 2 (exponent2 x) \<le> x \<and> x < power_int 2 (exponent2 x + 1)"
    using True k by (simp add: exponent2_def)
next
  case False
  let ?m = "\<lceil>1 / x\<rceil> - 1" and ?L = "bits_Len (nat (\<lceil>1 / x\<rceil> - 1))"
  have "1 < 1 / x" using False assms by simp
  then have m: "0 < ?m" by (simp add: less_ceiling_iff)
  have c: "of_int ?m < 1 / x" "1 / x \<le> of_int (?m + 1)" using ceiling_correct[of "1 / x"] by simp_all
  have "2 ^ (?L - 1) \<le> nat ?m" using m by (intro bits_Len_lower) simp
  then have "int (2 ^ (?L - 1)) \<le> ?m" using m by (simp add: le_nat_iff)
  then have lo: "2 ^ (?L - 1) < 1 / x" using c(1) of_int_le_iff[of "2 ^ (?L - 1)" ?m, where 'a = 'a] by simp
  have L: "nat ?m < 2 ^ ?L" by (rule bits_Len_bound)
  then have "?m + 1 \<le> int (2 ^ ?L)" using m by (simp add: nat_less_iff)
  then have "(of_int (?m + 1) :: 'a) \<le> of_int (2 ^ ?L)" unfolding of_int_le_iff by simp
  then have "1 / x \<le> of_int (2 ^ ?L)" by (rule order_trans[OF c(2)])
  then have hi: "1 / x \<le> 2 ^ ?L" by (simp only: of_int_power of_int_numeral)
  have "?L \<noteq> 0" using m L by (metis less_one nat_less_eq_zless not_less_zero nat_0_iff not_le power_0 zero_less_nat_eq)
  then have "power_int (2::'a) (1 - int ?L) = 1 / 2 ^ (?L - 1)" by (cases ?L) (simp_all add: power_int_minus field_simps)
  moreover have "power_int (2::'a) (- int ?L) = 1 / 2 ^ ?L" by (simp add: power_int_minus field_simps)
  moreover have "1 / 2 ^ ?L \<le> x" "x < 1 / 2 ^ (?L - 1)" using lo hi assms by (simp_all add: field_simps)
  moreover have "exponent2 x = - int ?L" using False by (simp only: exponent2_def if_False)
  ultimately show "power_int 2 (exponent2 x) \<le> x \<and> x < power_int 2 (exponent2 x + 1)" by (simp add: add.commute)
qed

text \<open>The relative error of a rounded value, its form, and that a value of this form is not changed.\<close>

lemma fround_zero [simp]: "fround p 0 = 0"
  by (simp add: fround_def Let_def round_even_def)

lemma fround_scale:
  fixes x :: "'a::floor_ceiling" and p :: nat
  assumes "x \<noteq> 0"
  defines "s \<equiv> int p - 1 - exponent2 \<bar>x\<bar>"
  shows "\<bar>x * power_int 2 s\<bar> \<le> 2 ^ p" "power_int (2::'a) (- s) = power_int 2 (exponent2 \<bar>x\<bar>) * 2 / 2 ^ p"
proof -
  have "\<bar>x * power_int 2 s\<bar> = \<bar>x\<bar> * power_int 2 s" by (simp add: abs_mult)
  also have "\<dots> \<le> power_int 2 (exponent2 \<bar>x\<bar> + 1) * power_int 2 s"
    using exponent2_bounds(2)[of "\<bar>x\<bar>"] assms(1) by (intro mult_right_mono) simp_all
  also have "\<dots> = 2 ^ p" by (simp add: s_def power_int_add[symmetric])
  finally show "\<bar>x * power_int 2 s\<bar> \<le> 2 ^ p" .
  have "power_int (2::'a) (- s) = power_int 2 (exponent2 \<bar>x\<bar> + 1 - int p)" by (simp add: s_def algebra_simps)
  then show "power_int 2 (- s) = power_int 2 (exponent2 \<bar>x\<bar>) * 2 / (2::'a) ^ p" by (simp add: power_int_diff power_int_add)
qed

lemma fround_error: "\<bar>fround p x - x\<bar> \<le> \<bar>x\<bar> / 2 ^ p" for x :: "'a::floor_ceiling"
proof (cases "x = 0")
  case False
  let ?s = "int p - 1 - exponent2 \<bar>x\<bar>"
  let ?y = "x * power_int 2 ?s"
  have "power_int (2::'a) ?s * power_int 2 (- ?s) = 1" unfolding power_int_minus by simp
  then have "x = ?y * power_int 2 (- ?s)" by (simp only: mult.assoc mult_1_right)
  then have "fround p x - x = (of_int (round_even ?y) - ?y) * power_int 2 (- ?s)"
    unfolding fround_def Let_def by (metis left_diff_distrib)
  then have "\<bar>fround p x - x\<bar> = \<bar>of_int (round_even ?y) - ?y\<bar> * \<bar>power_int 2 (- ?s)\<bar>" by (simp only: abs_mult)
  also have "\<dots> = \<bar>of_int (round_even ?y) - ?y\<bar> * power_int 2 (- ?s)" by simp
  also have "\<dots> \<le> 1 / 2 * power_int 2 (- ?s)" by (intro mult_right_mono round_even_error) simp
  also have "\<dots> = power_int 2 (exponent2 \<bar>x\<bar>) / 2 ^ p" unfolding fround_scale(2)[OF False] by simp
  also have "\<dots> \<le> \<bar>x\<bar> / 2 ^ p" using exponent2_bounds(1)[of "\<bar>x\<bar>"] False by (intro divide_right_mono) simp_all
  finally show ?thesis .
qed simp

lemma fround_exact:
  fixes m t :: int and p :: nat
  assumes "\<bar>m\<bar> \<le> 2 ^ p" "0 < p"
  defines "x \<equiv> of_int m * power_int (2::'a::floor_ceiling) t"
  shows "fround p x = x"
proof (cases "m = 0")
  case False
  let ?e = "exponent2 \<bar>x\<bar>" and ?s = "int p - 1 - exponent2 \<bar>x\<bar>"
  have x: "\<bar>x\<bar> = of_int \<bar>m\<bar> * power_int 2 t" by (simp add: x_def abs_mult)
  have "power_int 2 ?e \<le> \<bar>x\<bar>" using False by (intro exponent2_bounds) (simp add: x_def)
  have y: "x * power_int 2 ?s = of_int m * power_int 2 (t + ?s)" by (simp add: x_def power_int_add)
  have "\<exists>i. x * power_int 2 ?s = of_int i"
  proof (cases "\<bar>m\<bar> = 2 ^ p")
    case True
    then have "power_int (2::'a) ?e \<le> power_int 2 (int p + t)" using \<open>power_int 2 ?e \<le> \<bar>x\<bar>\<close> x by (simp add: power_int_add)
    then have "?e \<le> int p + t" by (rule powi2_le_imp)
    then have "0 \<le> int p + t + ?s" using assms(2) by simp
    then have "power_int (2::'a) (int p + (t + ?s)) = 2 ^ nat (int p + (t + ?s))" by (simp only: power_int_nonneg_exp add.assoc)
    then have "2 ^ p * power_int (2::'a) (t + ?s) = 2 ^ nat (int p + (t + ?s))"
      using power_int_add[of "2::'a" "int p" "t + ?s"] by (simp only: power_int_of_nat) simp
    moreover have "(of_int m :: 'a) = of_int (sgn m) * 2 ^ p"
      using arg_cong[OF mult_sgn_abs[of m], of "of_int :: int \<Rightarrow> 'a"] True by (simp add: mult.commute)
    ultimately have "x * power_int 2 ?s = of_int (sgn m * 2 ^ nat (int p + (t + ?s)))"
      unfolding y by (simp add: mult.assoc)
    then show ?thesis ..
  next
    case F: False
    then have "\<bar>m\<bar> < 2 ^ p" using assms(1) by simp
    then have "(of_int \<bar>m\<bar> :: 'a) < of_int (2 ^ p)" by (simp only: of_int_less_iff)
    then have "\<bar>x\<bar> < power_int 2 (int p + t)" unfolding x by (simp add: power_int_add)
    then have "power_int (2::'a) ?e < power_int 2 (int p + t)" using \<open>power_int 2 ?e \<le> \<bar>x\<bar>\<close> by linarith
    then have "\<not> int p + t \<le> ?e" using powi2_mono by (meson not_le)
    then have "0 \<le> t + ?s" by simp
    then have "x * power_int 2 ?s = of_int (m * 2 ^ nat (t + ?s))" unfolding y by (simp add: power_int_def)
    then show ?thesis ..
  qed
  then obtain i where i: "x * power_int 2 ?s = of_int i" ..
  have "fround p x = of_int i * power_int 2 (- ?s)" by (simp add: fround_def Let_def i round_even_of_int)
  also have "\<dots> = x" unfolding i[symmetric] power_int_minus by simp
  finally show ?thesis .
qed (simp add: x_def)

lemma fround_idem: "0 < p \<Longrightarrow> fround p (fround p x) = fround p x" for x :: "'a::floor_ceiling"
proof (cases "x = 0")
  case False
  assume p: "0 < p"
  let ?y = "x * power_int 2 (int p - 1 - exponent2 \<bar>x\<bar>)"
  have "\<bar>round_even ?y\<bar> \<le> 2 ^ p"
    using round_even_ge[of "- (2 ^ p)" ?y] round_even_le[of ?y "2 ^ p"] fround_scale(1)[OF False, of p] by (simp add: abs_le_iff)
  from fround_exact[OF this p] show ?thesis by (simp add: fround_def[of p x] Let_def)
qed simp

lemma exponent2_eqI:
  fixes x :: "'a::floor_ceiling"
  assumes "power_int 2 e \<le> x" "x < power_int 2 (e + 1)"
  shows "exponent2 x = e"
proof -
  have "0 < power_int (2::'a) e" by simp
  then have "0 < x" using assms(1) by (rule less_le_trans)
  note b = exponent2_bounds[OF this]
  have "power_int (2::'a) (exponent2 x) < power_int 2 (e + 1)" "power_int (2::'a) e < power_int 2 (exponent2 x + 1)"
    using b assms by (meson le_less_trans)+
  then have "\<not> e + 1 \<le> exponent2 x" "\<not> exponent2 x + 1 \<le> e" using powi2_mono by (meson not_le)+
  then show ?thesis by simp
qed

lemma round_even_eqI:
  fixes x :: "'a::floor_ceiling"
  assumes "\<bar>x - of_int m\<bar> < 1 / 2 \<or> \<bar>x - of_int m\<bar> = 1 / 2 \<and> even m"
  shows "round_even x = m"
proof -
  have "\<lfloor>x\<rfloor> = m \<or> \<lfloor>x\<rfloor> = m - 1" using assms by (cases "of_int m \<le> x") (auto simp: floor_eq_iff abs_if split: if_splits)
  then show ?thesis using assms by (auto simp: round_even_def Let_def abs_if algebra_simps split: if_splits)
qed

text \<open>Rounding a given value: its exponent and its mantissa.\<close>

lemma fround_eqI:
  fixes x :: real
  assumes "power_int 2 e \<le> x" "x < power_int 2 (e + 1)"
    "\<bar>x * power_int 2 (int p - 1 - e) - of_int m\<bar> < 1 / 2 \<or> \<bar>x * power_int 2 (int p - 1 - e) - of_int m\<bar> = 1 / 2 \<and> even m"
  shows "fround p x = of_int m * power_int 2 (- (int p - 1 - e))"
proof -
  have "0 < power_int (2::real) e" by simp
  then have "\<bar>x\<bar> = x" using assms(1) by linarith
  then show ?thesis using exponent2_eqI[OF assms(1,2)] round_even_eqI[OF assms(3)] by (simp add: fround_def)
qed

end
