(* ===== verification/Trace.thy ===== *)
theory Trace
  imports GoFloat Routing
begin

text \<open>
  \<open>telemetry/trace\<close>: spans, the head sampling decision, the recorder's keep rule and the propagation of the span
  context through a carrier. A \<open>context.Context\<close> is the span context it carries, if any. The tracer a span points
  to is an argument of \<open>End\<close>, and so are the clock readings. The last part runs several processes, each with its own
  tracer and recorder, over one fan-out tree.
\<close>

subsection \<open>Span contexts and samplers\<close>

record SpanContext =
  sc_Trace :: u64
  sc_Span :: u64
  sc_Sampled :: bool

definition Valid :: "SpanContext \<Rightarrow> bool" where
  "Valid sc \<longleftrightarrow> sc_Trace sc \<noteq> 0 \<and> sc_Span sc \<noteq> 0"

type_synonym Sampler = "u64 \<Rightarrow> bool"

definition AlwaysSample :: Sampler where "AlwaysSample i = True"

definition NeverSample :: Sampler where "NeverSample i = False"

definition mix64 :: "u64 \<Rightarrow> u64" where
  "mix64 x =
     (let x = x + 0x9e3779b97f4a7c15;
          x = (x XOR drop_bit 30 x) * 0xbf58476d1ce4e5b9;
          x = (x XOR drop_bit 27 x) * 0x94d049bb133111eb
      in x XOR drop_bit 31 x)"

text \<open>The quotient of two converted integers, at most 1, rounded to 53 significant bits.\<close>

definition fraction64 :: "int \<Rightarrow> int \<Rightarrow> rat" where
  "fraction64 a b =
     (let x = float64 a / float64 b; s = nat (52 - exponent2 x)
      in if x = 0 then 0 else of_int (round_even (x * 2 ^ s)) / 2 ^ s)"

definition RatioSampler :: "rat \<Rightarrow> Sampler" where
  "RatioSampler ratio tid =
     (if ratio \<le> 0 then False
      else if ratio \<ge> 1 then True
      else fraction64 (uint (mix64 tid)) (uint (NOT 0 :: u64)) < ratio)"

subsection \<open>Tracers and recorders\<close>

record Tracer =
  sampler :: Sampler
  slow :: int
  seq :: u64

type_synonym attrs = "(string \<rightharpoonup> string) option"

record SpanData =
  d_Trace :: u64
  d_Span :: u64
  d_Parent :: u64
  d_Name :: string
  Duration :: int
  Errored :: bool
  d_Sampled :: bool
  Attrs :: attrs

type_synonym Recorder = "SpanData list"

definition NewTracer :: "Sampler option \<Rightarrow> int \<Rightarrow> Tracer" where
  "NewTracer s slw = \<lparr>sampler = (case s of None \<Rightarrow> NeverSample | Some s \<Rightarrow> s), slow = slw, seq = 0\<rparr>"

record Span =
  s_name :: string
  s_ctx :: SpanContext
  s_parent :: u64
  s_start :: int
  s_attrs :: attrs

type_synonym Context = "SpanContext option"

definition ContextWithSpanContext :: "Context \<Rightarrow> SpanContext \<Rightarrow> Context" where
  "ContextWithSpanContext ctx sc = Some sc"

definition SpanContextFromContext :: "Context \<Rightarrow> SpanContext \<times> bool" where
  "SpanContextFromContext ctx =
     (case ctx of Some sc \<Rightarrow> (sc, True) | None \<Rightarrow> (\<lparr>sc_Trace = 0, sc_Span = 0, sc_Sampled = False\<rparr>, False))"

definition seq_Add :: "Tracer \<Rightarrow> u64 \<times> Tracer" where
  "seq_Add t = (seq t + 1, t\<lparr>seq := seq t + 1\<rparr>)"

text \<open>\<open>begin\<close> reads the clock once: \<open>now\<close>.\<close>

definition begin_span :: "int \<Rightarrow> Context \<Rightarrow> string \<Rightarrow> SpanContext \<Rightarrow> u64 \<Rightarrow> Context \<times> Span" where
  "begin_span now ctx name sc parent =
     (ContextWithSpanContext ctx sc, \<lparr>s_name = name, s_ctx = sc, s_parent = parent, s_start = now, s_attrs = None\<rparr>)"

definition StartTrace :: "int \<Rightarrow> Context \<Rightarrow> string \<Rightarrow> Tracer \<Rightarrow> Context \<times> Span \<times> Tracer" where
  "StartTrace now ctx name t =
     (let (tid, t1) = seq_Add t;
          (sp, t2) = seq_Add t1;
          sc = \<lparr>sc_Trace = tid, sc_Span = sp, sc_Sampled = sampler t tid\<rparr>;
          (ctx', s) = begin_span now ctx name sc 0
      in (ctx', s, t2))"

definition StartSpan :: "int \<Rightarrow> Context \<Rightarrow> string \<Rightarrow> Tracer \<Rightarrow> Context \<times> Span \<times> Tracer" where
  "StartSpan now ctx name t =
     (let (parent, ok) = SpanContextFromContext ctx
      in if \<not> ok \<or> \<not> Valid parent then StartTrace now ctx name t
         else let (sp, t1) = seq_Add t;
                  child = \<lparr>sc_Trace = sc_Trace parent, sc_Span = sp, sc_Sampled = sc_Sampled parent\<rparr>;
                  (ctx', s) = begin_span now ctx name child (sc_Span parent)
              in (ctx', s, t1))"

definition SetAttr :: "string \<Rightarrow> string \<Rightarrow> Span \<Rightarrow> Span" where
  "SetAttr key val s =
     s\<lparr>s_attrs := Some ((case s_attrs s of None \<Rightarrow> Map.empty | Some m \<Rightarrow> m)(key \<mapsto> val))\<rparr>"

definition offer :: "SpanData \<Rightarrow> int \<Rightarrow> Recorder \<Rightarrow> Recorder" where
  "offer s slw r =
     (let keep = d_Sampled s \<or> Errored s \<or> slw > 0 \<and> Duration s \<ge> slw
      in if \<not> keep then r else r @ [s])"

text \<open>The recorder is \<open>None\<close> when the tracer has a nil one; \<open>err\<close> says whether the error read through the pointer
  is non-nil.\<close>

definition End :: "int \<Rightarrow> bool \<Rightarrow> Span \<Rightarrow> Tracer \<Rightarrow> Recorder option \<Rightarrow> Recorder option" where
  "End now err s t rec =
     (case rec of
        None \<Rightarrow> None
      | Some r \<Rightarrow>
          let dur = now - s_start s
          in Some (offer \<lparr>d_Trace = sc_Trace (s_ctx s), d_Span = sc_Span (s_ctx s), d_Parent = s_parent s,
                          d_Name = s_name s, Duration = dur, Errored = err, d_Sampled = sc_Sampled (s_ctx s),
                          Attrs = s_attrs s\<rparr> (slow t) r))"

definition NewRecorder :: Recorder where "NewRecorder = []"

definition Spans :: "Recorder \<Rightarrow> SpanData list" where "Spans r = r"

definition Recorder_Trace :: "Recorder \<Rightarrow> u64 \<Rightarrow> SpanData list" where
  "Recorder_Trace r tid = foldl (\<lambda>out s. if d_Trace s = tid then out @ [s] else out) [] r"

definition Reset :: "Recorder \<Rightarrow> Recorder" where "Reset r = []"

subsection \<open>Propagation\<close>

definition headerTrace :: string where "headerTrace = ''x-openindex-trace''"
definition headerSpan :: string where "headerSpan = ''x-openindex-span''"
definition headerSampled :: string where "headerSampled = ''x-openindex-sampled''"

type_synonym carrier = "string \<rightharpoonup> string"

definition FormatBool :: "bool \<Rightarrow> string" where
  "FormatBool b = (if b then ''true'' else ''false'')"

text \<open>\<open>strconv.ParseBool\<close>, \<open>None\<close> for its error.\<close>

definition ParseBool :: "string \<Rightarrow> bool option" where
  "ParseBool s =
     (if s \<in> {''1'', ''t'', ''T'', ''true'', ''TRUE'', ''True''} then Some True
      else if s \<in> {''0'', ''f'', ''F'', ''false'', ''FALSE'', ''False''} then Some False
      else None)"

definition Inject :: "SpanContext \<Rightarrow> carrier option \<Rightarrow> carrier" where
  "Inject sc c =
     (let m = (case c of None \<Rightarrow> Map.empty | Some m \<Rightarrow> m)
      in m(headerTrace \<mapsto> decimal (unat (sc_Trace sc)), headerSpan \<mapsto> decimal (unat (sc_Span sc)),
           headerSampled \<mapsto> FormatBool (sc_Sampled sc)))"

text \<open>A missing key of a Go map reads as the empty string.\<close>

definition carrier_get :: "carrier \<Rightarrow> string \<Rightarrow> string" where
  "carrier_get c k = (case c k of None \<Rightarrow> [] | Some v \<Rightarrow> v)"

definition Extract :: "carrier \<Rightarrow> SpanContext \<times> bool" where
  "Extract c =
     (let none = (\<lparr>sc_Trace = 0, sc_Span = 0, sc_Sampled = False\<rparr>, False)
      in case ParseUint (carrier_get c headerTrace) 64 of
           None \<Rightarrow> none
         | Some trc \<Rightarrow>
             if trc = 0 then none
             else case ParseUint (carrier_get c headerSpan) 64 of
                    None \<Rightarrow> none
                  | Some spn \<Rightarrow>
                      if spn = 0 then none
                      else let sampled = (case ParseBool (carrier_get c headerSampled) of None \<Rightarrow> False | Some b \<Rightarrow> b)
                           in (\<lparr>sc_Trace = of_nat trc, sc_Span = of_nat spn, sc_Sampled = sampled\<rparr>, True))"

lemma ParseUint_word: "ParseUint (decimal (unat (w :: u64))) 64 = Some (unat w)"
  by (rule ParseUint_decimal) (use unsigned_less[of w] in simp)

lemma ParseBool_FormatBool: "ParseBool (FormatBool b) = Some b"
  by (simp add: ParseBool_def FormatBool_def)

lemma Inject_get [simp]:
  "carrier_get (Inject sc c) headerTrace = decimal (unat (sc_Trace sc))"
  "carrier_get (Inject sc c) headerSpan = decimal (unat (sc_Span sc))"
  "carrier_get (Inject sc c) headerSampled = FormatBool (sc_Sampled sc)"
  by (simp_all add: Inject_def carrier_get_def Let_def headerTrace_def headerSpan_def headerSampled_def)

text \<open>A context survives the carrier whatever else the carrier held, and a zero context is not one.\<close>

lemma Extract_Inject:
  "Extract (Inject sc c) =
     (if Valid sc then (sc, True) else (\<lparr>sc_Trace = 0, sc_Span = 0, sc_Sampled = False\<rparr>, False))"
  by (cases sc) (auto simp: Extract_def Let_def ParseUint_word ParseUint_word[of 0, simplified] ParseBool_FormatBool
      Valid_def unat_eq_0)

lemma Inject_other:
  "k \<notin> {headerTrace, headerSpan, headerSampled} \<Longrightarrow> Inject sc (Some c) k = c k"
  by (auto simp: Inject_def Let_def)

lemma Extract_Valid: "Extract c = (sc, True) \<Longrightarrow> Valid sc"
proof -
  assume a: "Extract c = (sc, True)"
  have lt: "n < 2 ^ 64" if "ParseUint s 64 = Some n" for s n
    using that by (auto simp: ParseUint_def split: option.splits if_splits)
  have ne: "(of_nat n :: u64) \<noteq> 0" if "n \<noteq> 0" "n < 2 ^ 64" for n
    using that by (auto simp: word_of_nat_eq_0_iff dest: dvd_imp_le)
  show ?thesis using a lt ne by (auto simp: Extract_def Let_def Valid_def split: option.splits if_splits)
qed


subsection \<open>Tracing a fan-out over several processes\<close>

text \<open>Process \<open>p\<close> has its own tracer and recorder. \<open>started\<close> lists the spans in the order they began, each with its
  process and the index of the span whose context it was started under; \<open>ended\<close> lists the spans that ended, with
  the error flag and the time. \<open>Call\<close> starts a span under the context of a span of the same process, \<open>Rpc\<close> in
  process \<open>p\<close> under a context that travelled through a carrier.\<close>

record world =
  tracers :: "nat \<Rightarrow> Tracer"
  recorders :: "nat \<Rightarrow> Recorder option"
  started :: "(nat \<times> Span \<times> nat option) list"
  ended :: "(nat \<times> bool \<times> int) list"

datatype event =
  Edge nat string int
| Call nat string int
| Rpc nat nat "carrier option" string int
| Attr nat string string
| Finish nat bool int

definition proc_of :: "world \<Rightarrow> nat \<Rightarrow> nat" where "proc_of w i = fst (started w ! i)"
definition span_of :: "world \<Rightarrow> nat \<Rightarrow> Span" where "span_of w i = fst (snd (started w ! i))"
definition parent_of :: "world \<Rightarrow> nat \<Rightarrow> nat option" where "parent_of w i = snd (snd (started w ! i))"
definition has_ended :: "world \<Rightarrow> nat \<Rightarrow> bool" where "has_ended w i \<longleftrightarrow> i \<in> fst ` set (ended w)"

definition start_under :: "nat \<Rightarrow> Context \<Rightarrow> nat \<Rightarrow> string \<Rightarrow> int \<Rightarrow> world \<Rightarrow> world" where
  "start_under p ctx i name now w =
     (case StartSpan now ctx name (tracers w p) of (ctx', s, t) \<Rightarrow>
        w\<lparr>tracers := (tracers w)(p := t), started := started w @ [(p, s, Some i)]\<rparr>)"

text \<open>The server's side of a call: the extracted context, or none.\<close>

definition server_ctx :: "carrier \<Rightarrow> Context" where
  "server_ctx c = (case Extract c of (sc, ok) \<Rightarrow> if ok then ContextWithSpanContext None sc else None)"

fun exec :: "event \<Rightarrow> world \<Rightarrow> world" where
  "exec (Edge p name now) w =
     (case StartTrace now None name (tracers w p) of (ctx, s, t) \<Rightarrow>
        w\<lparr>tracers := (tracers w)(p := t), started := started w @ [(p, s, None)]\<rparr>)"
| "exec (Call i name now) w =
     (if i < length (started w)
      then start_under (proc_of w i) (ContextWithSpanContext None (s_ctx (span_of w i))) i name now w else w)"
| "exec (Rpc p i c name now) w =
     (if i < length (started w)
      then start_under p (server_ctx (Inject (s_ctx (span_of w i)) c)) i name now w else w)"
| "exec (Attr i k v) w =
     (if i < length (started w) \<and> \<not> has_ended w i
      then w\<lparr>started := (started w)[i := (proc_of w i, SetAttr k v (span_of w i), parent_of w i)]\<rparr> else w)"
| "exec (Finish i err now) w =
     (if i < length (started w) \<and> \<not> has_ended w i
      then let p = proc_of w i
           in w\<lparr>recorders := (recorders w)(p := End now err (span_of w i) (tracers w p) (recorders w p)),
                ended := ended w @ [(i, err, now)]\<rparr>
      else w)"

definition start_world :: "(nat \<Rightarrow> Sampler) \<Rightarrow> (nat \<Rightarrow> int) \<Rightarrow> world" where
  "start_world ss sl =
     \<lparr>tracers = (\<lambda>p. NewTracer (Some (ss p)) (sl p)), recorders = (\<lambda>p. Some NewRecorder), started = [], ended = []\<rparr>"

definition run_world :: "(nat \<Rightarrow> Sampler) \<Rightarrow> (nat \<Rightarrow> int) \<Rightarrow> event list \<Rightarrow> world" where
  "run_world ss sl evs = foldl (\<lambda>w e. exec e w) (start_world ss sl) evs"

lemma run_world_simps [simp]:
  "run_world ss sl [] = start_world ss sl" "run_world ss sl (evs @ [e]) = exec e (run_world ss sl evs)"
  by (simp_all add: run_world_def)

text \<open>The edge span a span descends from.\<close>

function root_of :: "world \<Rightarrow> nat \<Rightarrow> nat" where
  "root_of w i = (case parent_of w i of Some j \<Rightarrow> if j < i then root_of w j else i | None \<Rightarrow> i)"
  by auto
termination by (relation "measure snd") auto

declare root_of.simps [simp del]

subsection \<open>The shape of the tree\<close>

definition span_ok :: "(nat \<Rightarrow> Sampler) \<Rightarrow> world \<Rightarrow> nat \<Rightarrow> bool" where
  "span_ok ss w i \<longleftrightarrow>
     Valid (s_ctx (span_of w i)) \<and> unat (sc_Span (s_ctx (span_of w i))) \<le> unat (seq (tracers w (proc_of w i))) \<and>
     (case parent_of w i of
        None \<Rightarrow> s_parent (span_of w i) = 0 \<and>
          sc_Sampled (s_ctx (span_of w i)) = ss (proc_of w i) (sc_Trace (s_ctx (span_of w i)))
      | Some j \<Rightarrow> j < i \<and> s_parent (span_of w i) = sc_Span (s_ctx (span_of w j)) \<and>
          sc_Trace (s_ctx (span_of w i)) = sc_Trace (s_ctx (span_of w j)) \<and>
          sc_Sampled (s_ctx (span_of w i)) = sc_Sampled (s_ctx (span_of w j)))"

definition world_ok :: "(nat \<Rightarrow> Sampler) \<Rightarrow> (nat \<Rightarrow> int) \<Rightarrow> nat \<Rightarrow> world \<Rightarrow> bool" where
  "world_ok ss sl n w \<longleftrightarrow>
     (\<forall>p. sampler (tracers w p) = ss p \<and> slow (tracers w p) = sl p \<and> unat (seq (tracers w p)) \<le> 2 * n) \<and>
     (\<forall>i < length (started w). span_ok ss w i) \<and>
     (\<forall>i j. i < j \<longrightarrow> j < length (started w) \<longrightarrow> proc_of w i = proc_of w j \<longrightarrow>
        unat (sc_Span (s_ctx (span_of w i))) < unat (sc_Span (s_ctx (span_of w j))))"


lemma world_ok_start:
  assumes ok: "world_ok ss sl n w"
    and t: "sampler t = sampler (tracers w p)" "slow t = slow (tracers w p)" "unat (seq t) \<le> 2 * Suc n"
    and sp: "unat (seq (tracers w p)) < unat (sc_Span (s_ctx s))" "unat (sc_Span (s_ctx s)) \<le> unat (seq t)" "Valid (s_ctx s)"
    and par: "case par of
        None \<Rightarrow> s_parent s = 0 \<and> sc_Sampled (s_ctx s) = ss p (sc_Trace (s_ctx s))
      | Some j \<Rightarrow> j < length (started w) \<and> s_parent s = sc_Span (s_ctx (span_of w j)) \<and>
          sc_Trace (s_ctx s) = sc_Trace (s_ctx (span_of w j)) \<and> sc_Sampled (s_ctx s) = sc_Sampled (s_ctx (span_of w j))"
  shows "world_ok ss sl (Suc n) (w\<lparr>tracers := (tracers w)(p := t), started := started w @ [(p, s, par)]\<rparr>)"
proof -
  let ?k = "length (started w)"
  define w' where "w' = w\<lparr>tracers := (tracers w)(p := t), started := started w @ [(p, s, par)]\<rparr>"
  have sel: "tracers w' = (tracers w)(p := t)" "started w' = started w @ [(p, s, par)]" by (simp_all add: w'_def)
  have old: "span_of w' i = span_of w i" "proc_of w' i = proc_of w i" "parent_of w' i = parent_of w i" if "i < ?k" for i
    using that by (simp_all add: span_of_def proc_of_def parent_of_def nth_append sel)
  have new: "span_of w' ?k = s" "proc_of w' ?k = p" "parent_of w' ?k = par"
    by (simp_all add: span_of_def proc_of_def parent_of_def sel)
  have spans: "span_ok ss w i" if "i < ?k" for i using ok that by (simp add: world_ok_def)
  have "span_ok ss w' i" if "i < Suc ?k" for i
  proof (cases "i = ?k")
    case True
    then show ?thesis using sp par by (auto simp: span_ok_def new old sel split: option.splits cong: option.case_cong)
  next
    case False
    then have i: "i < ?k" using that by simp
    have "unat (sc_Span (s_ctx (span_of w i))) \<le> unat (seq (tracers w' (proc_of w i)))"
      using spans[OF i] sp by (auto simp: span_ok_def sel)
    then show ?thesis using spans[OF i] i by (auto simp: span_ok_def old split: option.splits cong: option.case_cong)
  qed
  moreover have "unat (sc_Span (s_ctx (span_of w' i))) < unat (sc_Span (s_ctx (span_of w' j)))"
    if "i < j" "j < Suc ?k" "proc_of w' i = proc_of w' j" for i j
  proof (cases "j = ?k")
    case True
    then have "i < ?k" "proc_of w i = p" using that by (simp_all add: new old)
    then show ?thesis using spans[of i] sp(1) True by (simp add: span_ok_def new old)
  next
    case False
    then show ?thesis using that ok by (simp add: world_ok_def old)
  qed
  moreover have "sampler (tracers w' q) = ss q \<and> slow (tracers w' q) = sl q \<and> unat (seq (tracers w' q)) \<le> 2 * Suc n" for q
  proof -
    have "sampler (tracers w q) = ss q" "slow (tracers w q) = sl q" "unat (seq (tracers w q)) \<le> 2 * n"
      using ok by (simp_all add: world_ok_def)
    then show ?thesis using t ok by (auto simp: world_ok_def sel intro: le_SucI)
  qed
  ultimately show ?thesis unfolding w'_def[symmetric] by (simp add: world_ok_def sel)
qed

lemma unat_seq_Add: "unat (x :: u64) + 1 < 2 ^ 64 \<Longrightarrow> unat (x + 1) = unat x + 1"
  by (simp add: unat_word_ariths)

lemma world_ok_Edge:
  assumes "world_ok ss sl n w" "n < 2 ^ 62"
  shows "world_ok ss sl (Suc n) (exec (Edge p name now) w)"
proof -
  let ?q = "seq (tracers w p)"
  have q: "unat ?q \<le> 2 * n" "sampler (tracers w p) = ss p" using assms(1) by (simp_all add: world_ok_def)
  have u: "unat (?q + 1) = unat ?q + 1" by (rule unat_seq_Add) (use q assms(2) in simp)
  have u2: "unat (?q + 1 + 1) = unat ?q + 2" using unat_seq_Add[of "?q + 1"] u q assms(2) by simp
  have nz: "?q + 1 \<noteq> 0" "?q + 1 + 1 \<noteq> 0" using u u2 by (metis unat_0 add_is_0 zero_neq_one, metis unat_0 add_is_0 zero_neq_numeral)
  show ?thesis unfolding exec.simps StartTrace_def seq_Add_def begin_span_def Let_def prod.case
    by (rule world_ok_start) (use assms(1) q u u2 nz in \<open>simp_all add: Valid_def del: add_2_eq_Suc'\<close>)
qed

lemma world_ok_under:
  assumes "world_ok ss sl n w" "n < 2 ^ 62" "i < length (started w)" "ctx = Some (s_ctx (span_of w i))"
  shows "world_ok ss sl (Suc n) (start_under p ctx i name now w)"
proof -
  let ?q = "seq (tracers w p)"
  have q: "unat ?q \<le> 2 * n" using assms(1) by (simp add: world_ok_def)
  have u: "unat (?q + 1) = unat ?q + 1" by (rule unat_seq_Add) (use q assms(2) in simp)
  have nz: "?q + 1 \<noteq> 0" using u by (metis unat_0 add_is_0 zero_neq_one)
  have v: "Valid (s_ctx (span_of w i))" using assms(1,3) by (simp add: world_ok_def span_ok_def)
  show ?thesis
    using world_ok_start[OF assms(1), of "(tracers w p)\<lparr>seq := ?q + 1\<rparr>" p
        "snd (begin_span now ctx name \<lparr>sc_Trace = sc_Trace (s_ctx (span_of w i)), sc_Span = ?q + 1,
          sc_Sampled = sc_Sampled (s_ctx (span_of w i))\<rparr> (sc_Span (s_ctx (span_of w i))))" "Some i"] v nz u q assms(3)
    by (simp add: start_under_def StartSpan_def SpanContextFromContext_def assms(4) seq_Add_def begin_span_def Let_def Valid_def)
qed

lemma server_ctx_Inject: "Valid sc \<Longrightarrow> server_ctx (Inject sc c) = Some sc"
  by (simp add: server_ctx_def Extract_Inject ContextWithSpanContext_def)

lemma span_ok_seq_mono: "world_ok ss sl n w \<Longrightarrow> world_ok ss sl (Suc n) w"
  by (auto simp: world_ok_def intro: le_trans)

lemma world_ok_attr:
  assumes "world_ok ss sl n w" "i < length (started w)"
  shows "world_ok ss sl n (w\<lparr>started := (started w)[i := (proc_of w i, SetAttr k v (span_of w i), parent_of w i)]\<rparr>)"
    (is "world_ok _ _ _ ?w")
proof -
  have sel: "proc_of ?w j = proc_of w j" "parent_of ?w j = parent_of w j" "s_ctx (span_of ?w j) = s_ctx (span_of w j)"
    "s_parent (span_of ?w j) = s_parent (span_of w j)" for j
    using assms(2) by (cases "i = j"; simp add: proc_of_def parent_of_def span_of_def SetAttr_def)+
  show ?thesis using assms(1) by (simp add: world_ok_def span_ok_def sel cong: option.case_cong)
qed

lemma world_ok_exec:
  assumes "world_ok ss sl n w" "n < 2 ^ 62"
  shows "world_ok ss sl (Suc n) (exec e w)"
proof (cases e)
  case (Edge p name now)
  then show ?thesis using world_ok_Edge[OF assms] by simp
next
  case (Call i name now)
  then show ?thesis using world_ok_under[OF assms] span_ok_seq_mono[OF assms(1)] by (simp add: ContextWithSpanContext_def)
next
  case (Rpc p i c name now)
  have "Valid (s_ctx (span_of w i))" if "i < length (started w)" using assms(1) that by (simp add: world_ok_def span_ok_def)
  then show ?thesis using Rpc world_ok_under[OF assms] span_ok_seq_mono[OF assms(1)] by (simp add: server_ctx_Inject)
next
  case (Attr i k v)
  then show ?thesis using span_ok_seq_mono[OF world_ok_attr[OF assms(1)]] span_ok_seq_mono[OF assms(1)] by simp
next
  case (Finish i err now)
  then show ?thesis using span_ok_seq_mono[OF assms(1)]
    by (simp add: world_ok_def span_ok_def Let_def proc_of_def parent_of_def span_of_def cong: option.case_cong)
qed

lemma world_ok_run:
  assumes "length evs < 2 ^ 62"
  shows "world_ok ss sl (length evs) (run_world ss sl evs)"
  using assms
proof (induction evs rule: rev_induct)
  case (snoc e evs)
  then show ?case using world_ok_exec[of ss sl "length evs"] by simp
qed (simp add: world_ok_def start_world_def NewTracer_def)


lemma root_of_props:
  assumes "world_ok ss sl n w" "i < length (started w)"
  shows "root_of w i \<le> i \<and> parent_of w (root_of w i) = None \<and>
    sc_Trace (s_ctx (span_of w i)) = sc_Trace (s_ctx (span_of w (root_of w i))) \<and>
    sc_Sampled (s_ctx (span_of w i)) = ss (proc_of w (root_of w i)) (sc_Trace (s_ctx (span_of w (root_of w i))))"
  using assms(2)
proof (induction i rule: less_induct)
  case (less i)
  have ok: "span_ok ss w i" using assms(1) less.prems by (simp add: world_ok_def)
  show ?case
  proof (cases "parent_of w i")
    case None
    then show ?thesis using ok by (simp add: root_of.simps[of w i] span_ok_def)
  next
    case (Some j)
    then have j: "j < i" "root_of w i = root_of w j" using ok by (simp_all add: root_of.simps[of w i] span_ok_def)
    from less.IH[OF j(1)] less.prems j(1) show ?thesis unfolding j(2) using ok by (simp add: span_ok_def Some)
  qed
qed

subsection \<open>What the recorders hold\<close>

definition span_data :: "world \<Rightarrow> nat \<times> bool \<times> int \<Rightarrow> SpanData" where
  "span_data w e = (case e of (i, err, now) \<Rightarrow>
     let s = span_of w i
     in \<lparr>d_Trace = sc_Trace (s_ctx s), d_Span = sc_Span (s_ctx s), d_Parent = s_parent s, d_Name = s_name s,
         Duration = now - s_start s, Errored = err, d_Sampled = sc_Sampled (s_ctx s), Attrs = s_attrs s\<rparr>)"

definition keeps :: "int \<Rightarrow> world \<Rightarrow> nat \<Rightarrow> nat \<times> bool \<times> int \<Rightarrow> bool" where
  "keeps slw w p e = (case e of (i, err, now) \<Rightarrow>
     proc_of w i = p \<and> (sc_Sampled (s_ctx (span_of w i)) \<or> err \<or> slw > 0 \<and> now - s_start (span_of w i) \<ge> slw))"

definition records_ok :: "(nat \<Rightarrow> int) \<Rightarrow> world \<Rightarrow> bool" where
  "records_ok sl w \<longleftrightarrow> (\<forall>e \<in> set (ended w). fst e < length (started w)) \<and>
     (\<forall>p. slow (tracers w p) = sl p \<and> recorders w p = Some (map (span_data w) (filter (keeps (sl p) w p) (ended w))))"

lemma records_ok_same:
  assumes "records_ok sl w" "recorders w' = recorders w" "ended w' = ended w" "length (started w) \<le> length (started w')"
    "\<forall>p. slow (tracers w' p) = slow (tracers w p)"
    and same: "\<forall>i < length (started w). has_ended w i \<longrightarrow> started w' ! i = started w ! i"
  shows "records_ok sl w'"
proof -
  have e: "started w' ! fst e = started w ! fst e" "fst e < length (started w')" if "e \<in> set (ended w)" for e
    using that assms(1,4) same by (auto simp: records_ok_def has_ended_def intro: less_le_trans)
  have "span_data w' e = span_data w e \<and> keeps slw w' p e = keeps slw w p e" if "e \<in> set (ended w)" for e slw p
    using e(1)[OF that] by (cases e) (simp add: span_data_def keeps_def proc_of_def span_of_def)
  then show ?thesis using assms(1-3,5) e(2)
    by (auto simp: records_ok_def intro!: map_cong filter_cong)
qed

lemma slow_start:
  "StartTrace now ctx name t = (ctx', s, t') \<Longrightarrow> slow t' = slow t"
  "StartSpan now ctx name t = (ctx', s, t') \<Longrightarrow> slow t' = slow t"
  by (auto simp: StartSpan_def StartTrace_def seq_Add_def begin_span_def Let_def split: prod.splits if_splits)

lemma records_ok_under: "records_ok sl w \<Longrightarrow> records_ok sl (start_under p ctx i name now w)"
  by (cases "StartSpan now ctx name (tracers w p)", rule records_ok_same)
    (auto simp: start_under_def nth_append slow_start)

lemma records_ok_Finish:
  assumes "records_ok sl w" "i < length (started w)" "\<not> has_ended w i"
  shows "records_ok sl (exec (Finish i err now) w)"
proof -
  let ?p = "proc_of w i"
  let ?w = "exec (Finish i err now) w"
  have sel: "started ?w = started w" "tracers ?w = tracers w" "ended ?w = ended w @ [(i, err, now)]"
    "recorders ?w = (recorders w)(?p := End now err (span_of w i) (tracers w ?p) (recorders w ?p))"
    using assms(2,3) by (simp_all add: Let_def)
  have same: "span_data ?w = span_data w" "keeps slw ?w p = keeps slw w p" for slw p
    by (intro ext; simp add: span_data_def keeps_def span_of_def proc_of_def sel del: exec.simps)+
  have r: "recorders w p = Some (map (span_data w) (filter (keeps (sl p) w p) (ended w)))" "slow (tracers w p) = sl p" for p
    using assms(1) by (simp_all add: records_ok_def)
  have "End now err (span_of w i) (tracers w ?p) (recorders w ?p) =
      Some (map (span_data w) (filter (keeps (sl ?p) w ?p) (ended w @ [(i, err, now)])))"
    unfolding r(1) by (simp add: End_def offer_def keeps_def span_data_def Let_def r(2))
  then have "recorders ?w p = Some (map (span_data ?w) (filter (keeps (sl p) ?w p) (ended ?w)))" for p
    unfolding sel same by (simp add: r keeps_def)
  moreover have "\<forall>e \<in> set (ended ?w). fst e < length (started ?w)"
    unfolding sel using assms(1,2) by (simp add: records_ok_def)
  moreover have "slow (tracers ?w p) = sl p" for p unfolding sel by (rule r(2))
  ultimately show ?thesis unfolding records_ok_def by blast
qed

lemma records_ok_exec:
  assumes "records_ok sl w"
  shows "records_ok sl (exec e w)"
proof (cases e)
  case (Edge p name now)
  then show ?thesis
    by (cases "StartTrace now None name (tracers w p)", intro records_ok_same[OF assms]) (auto simp: nth_append slow_start)
next
  case (Finish i err now)
  then show ?thesis using records_ok_Finish[OF assms] assms by (cases "i < length (started w) \<and> \<not> has_ended w i") auto
next
  case (Attr i k v)
  then show ?thesis using assms by (auto intro!: records_ok_same[OF assms] simp: nth_list_update)
qed (use assms records_ok_under in auto)

lemma records_ok_run: "records_ok sl (run_world ss sl evs)"
  by (induction evs rule: rev_induct)
    (simp_all add: records_ok_exec, simp add: records_ok_def start_world_def NewTracer_def NewRecorder_def)

text \<open>C27: One query is one trace. After any events (fewer than \<open>2^62\<close>, so that no sequence number wraps) on processes
  that each sample with \<open>ss p\<close>, every span belongs to the trace of the edge span it descends from, names its parent's
  span id, and carries the sampling decision made there by the edge process, also across carriers. Each process's
  recorder therefore holds, in the order they ended, exactly its ended spans of sampled traces, plus of the others
  those that erred or ran at least the slow threshold; and its own span ids are all different.\<close>

theorem Trace_complete:
  fixes ss :: "nat \<Rightarrow> Sampler" and sl :: "nat \<Rightarrow> int" and evs :: "event list" and p :: nat
  assumes "length evs < 2 ^ 62"
  defines "w \<equiv> run_world ss sl evs"
  shows "list_all (\<lambda>i. parent_of w (root_of w i) = None \<and>
       sc_Trace (s_ctx (span_of w i)) = sc_Trace (s_ctx (span_of w (root_of w i))) \<and>
       s_parent (span_of w i) = (case parent_of w i of Some j \<Rightarrow> sc_Span (s_ctx (span_of w j)) | None \<Rightarrow> 0))
     [0..<length (started w)] \<and>
   recorders w p = Some (map (span_data w) (filter (\<lambda>(i, err, now). proc_of w i = p \<and>
       (ss (proc_of w (root_of w i)) (sc_Trace (s_ctx (span_of w (root_of w i)))) \<or> err \<or>
        sl p > 0 \<and> now - s_start (span_of w i) \<ge> sl p)) (ended w))) \<and>
   distinct (map (\<lambda>i. sc_Span (s_ctx (span_of w i))) (filter (\<lambda>i. proc_of w i = p) [0..<length (started w)]))"
proof (intro conjI)
  have ok: "world_ok ss sl (length evs) w" unfolding w_def by (rule world_ok_run[OF assms(1)])
  have rec: "records_ok sl w" unfolding w_def by (rule records_ok_run)
  have "s_parent (span_of w i) = (case parent_of w i of Some j \<Rightarrow> sc_Span (s_ctx (span_of w j)) | None \<Rightarrow> 0)"
    if "i < length (started w)" for i using ok that by (auto simp: world_ok_def span_ok_def split: option.split)
  then show "list_all (\<lambda>i. parent_of w (root_of w i) = None \<and>
       sc_Trace (s_ctx (span_of w i)) = sc_Trace (s_ctx (span_of w (root_of w i))) \<and>
       s_parent (span_of w i) = (case parent_of w i of Some j \<Rightarrow> sc_Span (s_ctx (span_of w j)) | None \<Rightarrow> 0))
     [0..<length (started w)]"
    using root_of_props[OF ok] by (auto simp: list_all_iff)
  have "keeps (sl p) w p e = (case e of (i, err, now) \<Rightarrow> proc_of w i = p \<and>
       (ss (proc_of w (root_of w i)) (sc_Trace (s_ctx (span_of w (root_of w i)))) \<or> err \<or>
        sl p > 0 \<and> now - s_start (span_of w i) \<ge> sl p))" if "e \<in> set (ended w)" for e
    using rec that root_of_props[OF ok, of "fst e"] by (cases e) (auto simp: keeps_def records_ok_def)
  then show "recorders w p = Some (map (span_data w) (filter (\<lambda>(i, err, now). proc_of w i = p \<and>
       (ss (proc_of w (root_of w i)) (sc_Trace (s_ctx (span_of w (root_of w i)))) \<or> err \<or>
        sl p > 0 \<and> now - s_start (span_of w i) \<ge> sl p)) (ended w)))"
    using rec by (auto simp: records_ok_def intro!: map_cong filter_cong)
  have "sc_Span (s_ctx (span_of w i)) \<noteq> sc_Span (s_ctx (span_of w j))"
    if "i \<noteq> j" "i < length (started w)" "j < length (started w)" "proc_of w i = proc_of w j" for i j
    using ok that unfolding world_ok_def by (metis nat_neq_iff)
  then show "distinct (map (\<lambda>i. sc_Span (s_ctx (span_of w i))) (filter (\<lambda>i. proc_of w i = p) [0..<length (started w)]))"
    unfolding distinct_map inj_on_def by (auto simp del: upt.simps) (metis)
qed


text \<open>A query at process 0, which samples every trace, with a call to process 1, which samples none.\<close>

definition demo_events :: "event list" where
  "demo_events = [Edge 0 ''root'' 0, Rpc 1 0 None ''leaf'' 1, Finish 1 False 2, Finish 0 False 3]"

theorem Trace_complete_witness:
  "length demo_events < 2 ^ 62 \<and>
   recorders (run_world (\<lambda>p. if p = 0 then AlwaysSample else NeverSample) (\<lambda>p. 0) demo_events) 1 =
     Some [\<lparr>d_Trace = 1, d_Span = 1, d_Parent = 2, d_Name = ''leaf'', Duration = 1, Errored = False, d_Sampled = True, Attrs = None\<rparr>]"
proof -
  let ?w = "run_world (\<lambda>p. if p = 0 then AlwaysSample else NeverSample) (\<lambda>p. 0) demo_events"
  have n: "length demo_events < 2 ^ 62" by (simp add: demo_events_def)
  have w: "started ?w = [(0, \<lparr>s_name = ''root'', s_ctx = \<lparr>sc_Trace = 1, sc_Span = 2, sc_Sampled = True\<rparr>, s_parent = 0, s_start = 0, s_attrs = None\<rparr>, None),
      (1, \<lparr>s_name = ''leaf'', s_ctx = \<lparr>sc_Trace = 1, sc_Span = 1, sc_Sampled = True\<rparr>, s_parent = 2, s_start = 1, s_attrs = None\<rparr>, Some 0)]"
    "ended ?w = [(1, False, 2), (0, False, 3)]"
    by (simp_all add: run_world_def demo_events_def start_world_def NewTracer_def StartTrace_def seq_Add_def begin_span_def
        start_under_def StartSpan_def SpanContextFromContext_def server_ctx_Inject Valid_def has_ended_def
        proc_of_def span_of_def AlwaysSample_def Let_def)
  have "root_of ?w 1 = 0" "root_of ?w 0 = 0"
    by (simp_all add: root_of.simps[of ?w "Suc 0"] root_of.simps[of ?w 0] parent_of_def w)
  then show ?thesis using n Trace_complete[OF n, of "\<lambda>p. if p = 0 then AlwaysSample else NeverSample" "\<lambda>p. 0" 1]
    by (simp add: w proc_of_def span_of_def span_data_def AlwaysSample_def Let_def)
qed

text \<open>Ids are unique within one tracer only. Each process counts from 1, so spans of one trace collide: the second
  span a server starts for a caller whose edge span has id 2 is a child with the id of its parent.\<close>

lemma span_ids_collide:
  "let w = run_world (\<lambda>p. AlwaysSample) (\<lambda>p. 0) [Edge 0 ''root'' 0, Rpc 1 0 None ''leaf'' 1, Rpc 1 0 None ''leaf'' 1]
   in s_ctx (span_of w 2) = s_ctx (span_of w 0) \<and> s_parent (span_of w 2) = sc_Span (s_ctx (span_of w 2))"
  by (simp add: run_world_def start_world_def NewTracer_def StartTrace_def seq_Add_def begin_span_def
      start_under_def StartSpan_def SpanContextFromContext_def server_ctx_Inject Valid_def
      proc_of_def span_of_def AlwaysSample_def Let_def)

end
