(* ===== verification/WARC.thy ===== *)
theory WARC
  imports GoStrings Routing
begin

text \<open>
  \<open>crawler/warc\<close>: the archive writer. A byte slice is a \<open>string\<close>. The stream below the counting writer is a
  function \<open>dst\<close> from what it has accepted so far and the next slice to the number of bytes it takes and whether
  it fails; compression is a function \<open>gz\<close> from a record to the slices \<open>gz.Write\<close> and \<open>gz.Close\<close> send down; the
  block digest \<open>sha1Base32\<close> is the argument \<open>digest\<close>, and the formatted clock reading an argument of \<open>Write\<close>. A header
  field map is an association list with distinct keys.
\<close>

subsection \<open>The writer\<close>

datatype RecordType = TypeRequest | TypeResponse | TypeMetadata

definition type_name :: "RecordType \<Rightarrow> string" where
  "type_name t = (case t of TypeRequest \<Rightarrow> ''request'' | TypeResponse \<Rightarrow> ''response'' | TypeMetadata \<Rightarrow> ''metadata'')"

record Locator =
  Offset :: int
  Length :: int

type_synonym dst = "string \<Rightarrow> string \<Rightarrow> nat \<times> bool"
type_synonym gz = "string \<Rightarrow> string list \<times> string list"

record countingWriter =
  accepted :: string
  cw_n :: int

record Writer =
  w_w :: countingWriter
  idSeq :: u64
  idStem :: string
  records :: nat

definition WithIDStem :: "string \<Rightarrow> Writer \<Rightarrow> Writer" where
  "WithIDStem stem w = w\<lparr>idStem := stem\<rparr>"

text \<open>\<open>accepted\<close> is what the stream has taken since the writer was made.\<close>

definition NewWriter :: "(Writer \<Rightarrow> Writer) list \<Rightarrow> Writer" where
  "NewWriter opts =
     fold (\<lambda>f w. f w) opts \<lparr>w_w = \<lparr>accepted = [], cw_n = 0\<rparr>, idSeq = 0, idStem = ''openindex'', records = 0\<rparr>"

record Record =
  r_Type :: RecordType
  TargetURI :: string
  ContentType :: string
  r_Fields :: "(string \<times> string) list"
  Block :: string

definition CRLF :: string where "CRLF = [CHR 0x0D, CHR 0x0A]"

definition sortedKeys :: "(string \<times> string) list \<Rightarrow> string list" where
  "sortedKeys m = sort (map fst m)"

text \<open>\<open>%012d\<close>\<close>

definition pad12 :: "nat \<Rightarrow> string" where
  "pad12 n = replicate (12 - length (decimal n)) (CHR ''0'') @ decimal n"

definition nextID :: "Writer \<Rightarrow> string \<times> Writer" where
  "nextID w = (let w = w\<lparr>idSeq := idSeq w + 1\<rparr> in (idStem w @ ''-'' @ pad12 (unat (idSeq w)), w))"

definition field_lines :: "(string \<times> string) list \<Rightarrow> string" where
  "field_lines m = concat (map (\<lambda>k. k @ '': '' @ the (map_of m k) @ CRLF) (sortedKeys m))"

text \<open>The bytes \<open>Write\<close> collects in its buffer.\<close>

definition header_bytes :: "(string \<Rightarrow> string) \<Rightarrow> string \<Rightarrow> string \<Rightarrow> Record \<Rightarrow> string" where
  "header_bytes digest date rid rec =
     ''WARC/1.1'' @ CRLF @
     ''WARC-Type: '' @ type_name (r_Type rec) @ CRLF @
     ''WARC-Date: '' @ date @ CRLF @
     ''WARC-Record-ID: <urn:uuid:'' @ rid @ ''>'' @ CRLF @
     (if TargetURI rec \<noteq> [] then ''WARC-Target-URI: '' @ TargetURI rec @ CRLF else []) @
     (if length (Block rec) > 0 then ''WARC-Block-Digest: sha1:'' @ digest (Block rec) @ CRLF else []) @
     ''Content-Type: '' @ (if ContentType rec = [] then ''application/octet-stream'' else ContentType rec) @ CRLF @
     field_lines (r_Fields rec)"

definition length_line :: "Record \<Rightarrow> string" where
  "length_line rec = ''Content-Length: '' @ decimal (length (Block rec)) @ CRLF"

definition record_bytes :: "(string \<Rightarrow> string) \<Rightarrow> string \<Rightarrow> string \<Rightarrow> Record \<Rightarrow> string" where
  "record_bytes digest date rid rec =
     header_bytes digest date rid rec @ length_line rec @ CRLF @ Block rec @ CRLF @ CRLF"

definition countingWriter_Write :: "dst \<Rightarrow> string \<Rightarrow> countingWriter \<Rightarrow> bool \<times> countingWriter" where
  "countingWriter_Write dst p c =
     (case dst (accepted c) p of (k, err) \<Rightarrow>
        (err, c\<lparr>accepted := accepted c @ take k p, cw_n := cw_n c + int k\<rparr>))"

text \<open>The gzip writer sends its slices until one fails.\<close>

fun send_all :: "dst \<Rightarrow> string list \<Rightarrow> countingWriter \<Rightarrow> bool \<times> countingWriter" where
  "send_all dst [] c = (False, c)"
| "send_all dst (p # ps) c =
     (case countingWriter_Write dst p c of (err, c) \<Rightarrow> if err then (True, c) else send_all dst ps c)"

datatype warc_error = WriteRecordBlock | CloseGzipMember

definition Write :: "(string \<Rightarrow> string) \<Rightarrow> gz \<Rightarrow> dst \<Rightarrow> string \<Rightarrow> Record \<Rightarrow> Writer \<Rightarrow> (warc_error + Locator) \<times> Writer" where
  "Write digest gz dst date rec w =
     (let start = cw_n (w_w w);
          (rid, w) = nextID w;
          (body, tail) = gz (record_bytes digest date rid rec);
          (err, c) = send_all dst body (w_w w)
      in if err then (Inl WriteRecordBlock, w\<lparr>w_w := c\<rparr>)
         else let (err, c) = send_all dst tail c
              in if err then (Inl CloseGzipMember, w\<lparr>w_w := c\<rparr>)
                 else (Inr \<lparr>Offset = start, Length = cw_n c - start\<rparr>, w\<lparr>w_w := c, records := records w + 1\<rparr>))"

definition response_record :: "string \<Rightarrow> string \<Rightarrow> (string \<times> string) list \<Rightarrow> Record" where
  "response_record uri httpResponse flds =
     \<lparr>r_Type = TypeResponse, TargetURI = uri, ContentType = ''application/http;msgtype=response'', r_Fields = flds,
      Block = httpResponse\<rparr>"

definition request_record :: "string \<Rightarrow> string \<Rightarrow> Record" where
  "request_record uri httpRequest =
     \<lparr>r_Type = TypeRequest, TargetURI = uri, ContentType = ''application/http;msgtype=request'', r_Fields = [],
      Block = httpRequest\<rparr>"

definition metadata_record :: "string \<Rightarrow> (string \<times> string) list \<Rightarrow> Record" where
  "metadata_record uri flds =
     \<lparr>r_Type = TypeMetadata, TargetURI = uri, ContentType = ''application/warc-flds'', r_Fields = [],
      Block = field_lines flds\<rparr>"

definition WriteResponse where
  "WriteResponse digest gz dst date uri httpResponse flds w =
     Write digest gz dst date (response_record uri httpResponse flds) w"

definition WriteRequest where
  "WriteRequest digest gz dst date uri httpRequest w = Write digest gz dst date (request_record uri httpRequest) w"

definition WriteMetadata where
  "WriteMetadata digest gz dst date uri flds w = Write digest gz dst date (metadata_record uri flds) w"

subsection \<open>The reader's side of the length field\<close>

text \<open>\<open>strconv.Atoi\<close>: an optional sign and digits, within the range of an \<open>int64\<close>.\<close>

definition Atoi :: "string \<Rightarrow> int option" where
  "Atoi s =
     (let neg = (s \<noteq> [] \<and> hd s = CHR ''-'');
          ds = (if s \<noteq> [] \<and> hd s \<in> {CHR ''-'', CHR ''+''} then tl s else s)
      in if ds = [] then None
         else case parse_digits 0 ds of
                None \<Rightarrow> None
              | Some n \<Rightarrow> if neg then (if n \<le> 2 ^ 63 then Some (- int n) else None)
                           else (if n < 2 ^ 63 then Some (int n) else None))"

definition parseContentLength :: "string \<Rightarrow> int \<times> bool" where
  "parseContentLength headerLine =
     (if \<not> HasPrefix headerLine ''Content-Length:'' then (0, False)
      else case Atoi (TrimSpace (drop (length ''Content-Length:'') headerLine)) of
             None \<Rightarrow> (0, False)
           | Some n \<Rightarrow> (n, True))"

lemma decimal_digits: "c \<in> set (decimal n) \<Longrightarrow> 48 \<le> (of_char c :: nat) \<and> (of_char c :: nat) \<le> 57"
proof (induction n rule: decimal.induct)
  case (1 n)
  then show ?case by (subst (asm) (2) decimal.simps) (auto split: if_splits)
qed

lemma decimal_hd: "c \<in> set (decimal n) \<Longrightarrow> c \<notin> {CHR ''-'', CHR ''+''} \<and> \<not> is_space c"
  by (drule decimal_digits) (auto simp: is_space_def)

lemma Atoi_decimal: "n < 2 ^ 63 \<Longrightarrow> Atoi (decimal n) = Some (int n)"
  using decimal_hd[of "hd (decimal n)" n] by (auto simp: Atoi_def Let_def parse_decimal)

lemma TrimSpace_core:
  assumes "s \<noteq> []" "\<forall>c \<in> set s. \<not> is_space c" "\<forall>c \<in> set xs. is_space c" "\<forall>c \<in> set ys. is_space c"
  shows "TrimSpace (xs @ s @ ys) = s"
proof -
  have drop: "dropWhile is_space (zs @ s') = s'" if "\<forall>c \<in> set zs. is_space c" "s' \<noteq> []" "\<not> is_space (hd s')" for zs s'
    using that by (cases s') (auto simp: dropWhile_append3)
  have "dropWhile is_space (xs @ s @ ys) = s @ ys" using assms by (intro drop) (auto simp: hd_append)
  moreover have "dropWhile is_space (rev ys @ rev s) = rev s" using assms by (intro drop) (auto simp: hd_rev)
  ultimately show ?thesis by (simp add: TrimSpace_def)
qed

text \<open>The length line reads back as the block's length.\<close>

lemma parseContentLength_line:
  assumes "length (Block rec) < 2 ^ 63"
  shows "parseContentLength (length_line rec) = (int (length (Block rec)), True)"
proof -
  have "TrimSpace ('' '' @ decimal (length (Block rec)) @ CRLF) = decimal (length (Block rec))"
    by (rule TrimSpace_core) (use decimal_hd in blast | simp add: CRLF_def is_space_def)+
  then show ?thesis using assms by (simp add: parseContentLength_def length_line_def HasPrefix_def Atoi_decimal)
qed


subsection \<open>Locators address their records\<close>

text \<open>The contract of \<open>io.Writer\<close>: at most the slice is taken, all of it unless an error is returned.\<close>

definition io_Writer :: "dst \<Rightarrow> bool" where
  "io_Writer dst \<longleftrightarrow> (\<forall>s p. fst (dst s p) \<le> length p \<and> (snd (dst s p) \<or> fst (dst s p) = length p))"

definition member_of :: "gz \<Rightarrow> string \<Rightarrow> string" where
  "member_of gz x = concat (fst (gz x)) @ concat (snd (gz x))"

lemma send_all_grows:
  assumes "io_Writer dst" "send_all dst ps c = (err, c')"
  shows "\<exists>t. accepted c' = accepted c @ t \<and> cw_n c' = cw_n c + int (length t) \<and> (err \<or> t = concat ps)"
  using assms(2)
proof (induction ps arbitrary: c)
  case (Cons p ps)
  obtain k e where d: "dst (accepted c) p = (k, e)" by (cases "dst (accepted c) p")
  have k: "k \<le> length p" "e \<or> k = length p" using assms(1) d unfolding io_Writer_def by (metis fst_conv snd_conv)+
  let ?c = "c\<lparr>accepted := accepted c @ take k p, cw_n := cw_n c + int k\<rparr>"
  show ?case
  proof (cases e)
    case True
    then show ?thesis using Cons.prems k by (auto simp: countingWriter_Write_def d intro!: exI[of _ "take k p"])
  next
    case False
    then have "send_all dst ps ?c = (err, c')" using Cons.prems by (simp add: countingWriter_Write_def d)
    from Cons.IH[OF this] obtain t where "accepted c' = accepted ?c @ t" "cw_n c' = cw_n ?c + int (length t)"
      "err \<or> t = concat ps" by blast
    then show ?thesis using k False by (intro exI[of _ "p @ t"]) auto
  qed
qed simp

text \<open>The record id the writer gives to its next record.\<close>

definition next_id :: "Writer \<Rightarrow> string" where
  "next_id w = fst (nextID w)"

lemma Write_cases:
  assumes "io_Writer dst" "Write digest gz dst date rec w = (res, w')"
  obtains (ok) m where "m = member_of gz (record_bytes digest date (next_id w) rec)"
      "res = Inr \<lparr>Offset = cw_n (w_w w), Length = int (length m)\<rparr>" "accepted (w_w w') = accepted (w_w w) @ m"
      "cw_n (w_w w') = cw_n (w_w w) + int (length m)" "records w' = records w + 1"
    | (fail) e t where "res = Inl e" "accepted (w_w w') = accepted (w_w w) @ t"
      "cw_n (w_w w') = cw_n (w_w w) + int (length t)" "records w' = records w"
proof -
  let ?x = "record_bytes digest date (next_id w) rec"
  obtain body rest where g: "gz ?x = (body, rest)" by (cases "gz ?x")
  obtain e1 c1 where s1: "send_all dst body (w_w w) = (e1, c1)" by (cases "send_all dst body (w_w w)")
  obtain e2 c2 where s2: "send_all dst rest c1 = (e2, c2)" by (cases "send_all dst rest c1")
  from send_all_grows[OF assms(1) s1] obtain t1 where t1: "accepted c1 = accepted (w_w w) @ t1"
    "cw_n c1 = cw_n (w_w w) + int (length t1)" "e1 \<or> t1 = concat body" by blast
  from send_all_grows[OF assms(1) s2] obtain t2 where t2: "accepted c2 = accepted c1 @ t2"
    "cw_n c2 = cw_n c1 + int (length t2)" "e2 \<or> t2 = concat rest" by blast
  have id: "nextID w = (next_id w, w\<lparr>idSeq := idSeq w + 1\<rparr>)" by (simp add: next_id_def nextID_def Let_def)
  have W: "Write digest gz dst date rec w =
      (if e1 then (Inl WriteRecordBlock, w\<lparr>idSeq := idSeq w + 1, w_w := c1\<rparr>)
       else if e2 then (Inl CloseGzipMember, w\<lparr>idSeq := idSeq w + 1, w_w := c2\<rparr>)
       else (Inr \<lparr>Offset = cw_n (w_w w), Length = cw_n c2 - cw_n (w_w w)\<rparr>,
             w\<lparr>idSeq := idSeq w + 1, w_w := c2, records := records w + 1\<rparr>))"
    by (simp add: Write_def Let_def id g s1 s2)
  consider "e1" | "\<not> e1" "e2" | "\<not> e1" "\<not> e2" by blast
  then show thesis
  proof cases
    case 1 with W t1 assms(2) show ?thesis by (intro fail[of WriteRecordBlock t1]) auto
  next
    case 2 with W t1 t2 assms(2) show ?thesis by (intro fail[of CloseGzipMember "t1 @ t2"]) auto
  next
    case 3 with W t1 t2 assms(2) show ?thesis by (intro ok[of "t1 @ t2"]) (auto simp: member_of_def g)
  qed
qed

text \<open>A session: each record with its clock reading. A failed write leaves a partial member in the file; the
  writer goes on.\<close>

fun write_session :: "(string \<Rightarrow> string) \<Rightarrow> gz \<Rightarrow> dst \<Rightarrow> (string \<times> Record) list \<Rightarrow> Writer \<Rightarrow>
    (warc_error + Locator) list \<times> Writer" where
  "write_session digest gz dst [] w = ([], w)"
| "write_session digest gz dst ((date, rec) # rs) w =
     (let (r, w1) = Write digest gz dst date rec w;
          (out, w2) = write_session digest gz dst rs w1
      in (r # out, w2))"

definition slice :: "string \<Rightarrow> Locator \<Rightarrow> string" where
  "slice file loc = take (nat (Length loc)) (drop (nat (Offset loc)) file)"

lemma idSeq_Write: "idSeq (snd (Write digest gz dst date rec w)) = idSeq w + 1 \<and> idStem (snd (Write digest gz dst date rec w)) = idStem w"
  by (simp add: Write_def nextID_def Let_def split: prod.split)

definition record_id :: "string \<Rightarrow> u64 \<Rightarrow> string" where
  "record_id stem n = stem @ ''-'' @ pad12 (unat n)"

lemma next_id_eq: "next_id w = record_id (idStem w) (idSeq w + 1)"
  by (simp add: next_id_def nextID_def record_id_def Let_def)

lemma write_session_slices:
  assumes "io_Writer dst" "write_session digest gz dst rs w = (out, w')" "cw_n (w_w w) = int (length (accepted (w_w w)))"
  shows "(\<exists>t. accepted (w_w w') = accepted (w_w w) @ t) \<and> length out = length rs \<and>
    records w' = records w + length (filter (\<lambda>r. \<not> isl r) out) \<and>
    (\<forall>i < length rs. \<forall>loc. out ! i = Inr loc \<longrightarrow>
       slice (accepted (w_w w')) loc =
         member_of gz (record_bytes digest (fst (rs ! i)) (record_id (idStem w) (idSeq w + 1 + of_nat i)) (snd (rs ! i))))"
  using assms(2,3)
proof (induction rs arbitrary: w out)
  case (Cons a rs)
  obtain date rec where a: "a = (date, rec)" by (cases a)
  obtain r w1 where W: "Write digest gz dst date rec w = (r, w1)" by (cases "Write digest gz dst date rec w")
  obtain out1 where S: "write_session digest gz dst rs w1 = (out1, w')" "out = r # out1"
    using Cons.prems(1) W by (cases "write_session digest gz dst rs w1") (auto simp: a)
  have n1: "cw_n (w_w w1) = int (length (accepted (w_w w1)))"
    using Cons.prems(2) by (cases rule: Write_cases[OF assms(1) W]) simp_all
  have id1: "idSeq w1 = idSeq w + 1" "idStem w1 = idStem w" using idSeq_Write[of digest gz dst date rec w] W by simp_all
  from Cons.IH[OF S(1) n1] obtain t where t: "accepted (w_w w') = accepted (w_w w1) @ t"
    and IH: "length out1 = length rs" "records w' = records w1 + length (filter (\<lambda>r. \<not> isl r) out1)"
      "\<And>i loc. i < length rs \<Longrightarrow> out1 ! i = Inr loc \<Longrightarrow> slice (accepted (w_w w')) loc =
         member_of gz (record_bytes digest (fst (rs ! i)) (record_id (idStem w) (idSeq w + 1 + (1 + of_nat i))) (snd (rs ! i)))"
    unfolding id1 by (auto simp: add.assoc)
  have first: "slice (accepted (w_w w')) loc = member_of gz (record_bytes digest date (record_id (idStem w) (idSeq w + 1)) rec)"
    if "r = Inr loc" for loc
    using Cons.prems(2) that t
    by (cases rule: Write_cases[OF assms(1) W]) (auto simp: slice_def next_id_eq)
  have "records w1 = records w + length (filter (\<lambda>r. \<not> isl r) [r]) \<and> (\<exists>t. accepted (w_w w1) = accepted (w_w w) @ t)"
    by (cases rule: Write_cases[OF assms(1) W]) auto
  moreover have "slice (accepted (w_w w')) loc =
      member_of gz (record_bytes digest (fst ((a # rs) ! i)) (record_id (idStem w) (idSeq w + 1 + of_nat i)) (snd ((a # rs) ! i)))"
    if "i < length (a # rs)" "out ! i = Inr loc" for i loc
    using that first IH(3) by (cases i) (auto simp: S(2) a)
  ultimately show ?case using t IH(1,2) by (auto simp: S(2))
qed simp


subsection \<open>Record ids\<close>

lemma parse_pad12: "parse_digits 0 (pad12 n) = Some n"
proof -
  have "parse_digits 0 (replicate k (CHR ''0'') @ s) = parse_digits 0 s" for k s by (induction k) simp_all
  then show ?thesis by (simp add: pad12_def parse_decimal)
qed

lemma record_id_inj: "record_id stem m = record_id stem n \<longleftrightarrow> m = n"
proof -
  have "unat m = unat n" if "pad12 (unat m) = pad12 (unat n)" using that parse_pad12 by (metis option.inject)
  then show ?thesis by (auto simp: record_id_def word_unat_eq_iff)
qed

lemma record_ids_distinct:
  assumes "k \<le> 2 ^ 64"
  shows "distinct (map (\<lambda>i. record_id stem (1 + of_nat i)) [0..<k])"
proof -
  have "i = j" if "i < k" "j < k" "(of_nat i :: u64) = of_nat j" for i j
    using that assms by (simp add: word_of_nat_eq_iff take_bit_nat_eq_self)
  then show ?thesis by (auto simp: distinct_map inj_on_def record_id_inj)
qed

text \<open>C30: A locator resolves to its record. Over a stream that keeps the contract of \<open>io.Writer\<close>, with a decompressor that
  inverts the compressor member by member, the bytes a returned locator addresses in the finished file decompress
  to exactly the record that was written: its header, the length line, a blank line, the block and the record end,
  also when other writes of the session failed half-way. The length line reads back as the block's length, \<open>Records\<close>
  counts the successful writes, and no two records of a writer share an id.\<close>

theorem WARC_locators:
  assumes "io_Writer dst" and "\<And>x. gunzip (member_of gz x) = x"
    and "write_session digest gz dst rs (NewWriter [WithIDStem stem]) = (out, w)"
    and "i < length rs" "rs ! i = (date, rec)" "out ! i = Inr loc" "length (Block rec) < 2 ^ 63" "length rs \<le> 2 ^ 64"
  shows "gunzip (slice (accepted (w_w w)) loc) =
      header_bytes digest date (record_id stem (1 + of_nat i)) rec @ length_line rec @ CRLF @ Block rec @ CRLF @ CRLF \<and>
    parseContentLength (length_line rec) = (int (length (Block rec)), True) \<and>
    records w = length (filter (\<lambda>r. \<not> isl r) out) \<and>
    distinct (map (\<lambda>j. record_id stem (1 + of_nat j)) [0..<length rs])"
proof -
  let ?w = "NewWriter [WithIDStem stem]"
  have w: "cw_n (w_w ?w) = int (length (accepted (w_w ?w)))" "idStem ?w = stem" "idSeq ?w = 0" "records ?w = 0"
    by (simp_all add: NewWriter_def WithIDStem_def)
  have "slice (accepted (w_w w)) loc = member_of gz (record_bytes digest date (record_id stem (1 + of_nat i)) rec)"
    "records w = length (filter (\<lambda>r. \<not> isl r) out)"
    using write_session_slices[OF assms(1,3) w(1)] assms(4-6) by (simp_all add: w)
  then show ?thesis using assms(2) parseContentLength_line[OF assms(7)] record_ids_distinct[OF assms(8)]
    by (simp add: record_bytes_def)
qed

text \<open>Two records on a stream that accepts everything, stored without compression.\<close>

definition demo_session :: "(warc_error + Locator) list \<times> Writer" where
  "demo_session = write_session (\<lambda>b. ''digest'') (\<lambda>x. ([x], [])) (\<lambda>s p. (length p, False))
     [(''2024'', request_record ''http://a/'' ''GET /''), (''2025'', response_record ''http://a/'' ''200 OK'' [])]
     (NewWriter [WithIDStem ''s''])"

theorem WARC_locators_witness:
  "case fst demo_session ! 1 of
     Inr loc \<Rightarrow> slice (accepted (w_w (snd demo_session))) loc =
       header_bytes (\<lambda>b. ''digest'') ''2025'' (record_id ''s'' 2) (response_record ''http://a/'' ''200 OK'' []) @
       ''Content-Length: 6'' @ CRLF @ CRLF @ ''200 OK'' @ CRLF @ CRLF
   | Inl e \<Rightarrow> False"
proof -
  let ?rec = "response_record ''http://a/'' ''200 OK'' []"
  let ?rs = "[(''2024'', request_record ''http://a/'' ''GET /''), (''2025'', ?rec)]"
  obtain out w where d: "demo_session = (out, w)" by (cases demo_session)
  then have d': "write_session (\<lambda>b. ''digest'') (\<lambda>x. ([x], [])) (\<lambda>s p. (length p, False)) ?rs (NewWriter [WithIDStem ''s'']) = (out, w)"
    by (simp add: demo_session_def)
  obtain loc where l: "out ! 1 = Inr loc"
    using d' by (auto simp: Write_def nextID_def countingWriter_Write_def Let_def)
  have io: "io_Writer (\<lambda>s p. (length p, False))" by (simp add: io_Writer_def)
  have gz: "id (member_of (\<lambda>x. ([x], [])) x) = x" for x by (simp add: member_of_def)
  have "id (slice (accepted (w_w w)) loc) =
      header_bytes (\<lambda>b. ''digest'') ''2025'' (record_id ''s'' (1 + of_nat 1)) ?rec @ length_line ?rec @ CRLF @ Block ?rec @ CRLF @ CRLF"
    using WARC_locators[where gunzip = id, OF io gz d', of 1 "''2025''" ?rec loc] l by (simp add: response_record_def)
  moreover have "length_line ?rec = ''Content-Length: 6'' @ CRLF"
    by (simp add: length_line_def response_record_def decimal.simps char_of_def bit_0)
  moreover have "Block ?rec = ''200 OK''" by (simp add: response_record_def)
  ultimately show ?thesis by (simp only: d fst_conv snd_conv l sum.case id_apply append_assoc) simp
qed

end
