(* ===== verification/Federation.thy ===== *)
theory Federation
  imports GoStrings Types
begin

text \<open>
  \<open>open/open.go\<close>, \<open>open/sign.go\<close> and \<open>open/federation\<close>: content-addressed, signed artifacts, the operators' key
  registry, the trust gate and the federated search. SHA-256 and ed25519 are arguments. A leaf of another operator
  is a handle; what its call returned in this run is the argument \<open>answer\<close>, and the choices of the \<open>select\<close>
  loop (which goroutine's message, the timer or the context) are an explicit list.
\<close>

subsection \<open>Artifacts\<close>

type_synonym OperatorID = string
type_synonym ArtifactKind = byte

definition KindWARC :: ArtifactKind where "KindWARC = 0"
definition KindWAT :: ArtifactKind where "KindWAT = 1"
definition KindWET :: ArtifactKind where "KindWET = 2"
definition KindCIFF :: ArtifactKind where "KindCIFF = 3"
definition KindWebGraph :: ArtifactKind where "KindWebGraph = 4"
definition KindEmbeddings :: ArtifactKind where "KindEmbeddings = 5"

definition ArtifactKind_String :: "ArtifactKind \<Rightarrow> string" where
  "ArtifactKind_String k =
     (if k = KindWARC then ''warc''
      else if k = KindWAT then ''wat''
      else if k = KindWET then ''wet''
      else if k = KindCIFF then ''ciff''
      else if k = KindWebGraph then ''webgraph''
      else if k = KindEmbeddings then ''embeddings''
      else ''kind('' @ decimal (unat k) @ '')'')"

record Artifact =
  a_Kind :: ArtifactKind
  a_Snapshot :: SnapshotID
  a_Content :: ContentHash
  a_Operator :: OperatorID
  a_Sig :: bytes

definition Address :: "(bytes \<Rightarrow> bytes) \<Rightarrow> bytes \<Rightarrow> ContentHash" where
  "Address sha256 data = sha256 data"

definition SigningBytes :: "Artifact \<Rightarrow> bytes" where
  "SigningBytes a = [a_Kind a] @ bytes_of (a_Snapshot a) @ a_Content a @ bytes_of (a_Operator a)"

subsection \<open>Signatures and the registry\<close>

datatype open_error = ErrUnknownOperator | ErrBadSignature | ErrRebuildMismatch

definition Sign :: "('priv \<Rightarrow> bytes \<Rightarrow> bytes) \<Rightarrow> Artifact \<Rightarrow> 'priv \<Rightarrow> bytes" where
  "Sign ed_sign a priv = ed_sign priv (SigningBytes a)"

definition Verify :: "('pub \<Rightarrow> bytes \<Rightarrow> bytes \<Rightarrow> bool) \<Rightarrow> Artifact \<Rightarrow> 'pub \<Rightarrow> open_error option" where
  "Verify ed_verify a pub = (if \<not> ed_verify pub (SigningBytes a) (a_Sig a) then Some ErrBadSignature else None)"

type_synonym 'pub Registry = "OperatorID \<rightharpoonup> 'pub"

definition NewRegistry :: "'pub Registry" where "NewRegistry = Map.empty"

definition Registry_Add :: "OperatorID \<Rightarrow> 'pub \<Rightarrow> 'pub Registry \<Rightarrow> 'pub Registry" where
  "Registry_Add oper pub r = r(oper \<mapsto> pub)"

definition Registry_Key :: "'pub Registry \<Rightarrow> OperatorID \<Rightarrow> 'pub option" where
  "Registry_Key r oper = r oper"

definition VerifyArtifact :: "('pub \<Rightarrow> bytes \<Rightarrow> bytes \<Rightarrow> bool) \<Rightarrow> 'pub Registry \<Rightarrow> Artifact \<Rightarrow> open_error option" where
  "VerifyArtifact ed_verify r a =
     (case r (a_Operator a) of None \<Rightarrow> Some ErrUnknownOperator | Some pub \<Rightarrow> Verify ed_verify a pub)"

definition VerifyRebuild ::
  "(bytes \<Rightarrow> bytes) \<Rightarrow> ('pub \<Rightarrow> bytes \<Rightarrow> bytes \<Rightarrow> bool) \<Rightarrow> 'pub Registry \<Rightarrow> Artifact \<Rightarrow> bytes \<Rightarrow> open_error option" where
  "VerifyRebuild sha256 ed_verify reg art rebuilt =
     (case VerifyArtifact ed_verify reg art of
        Some err \<Rightarrow> Some err
      | None \<Rightarrow> if Address sha256 rebuilt \<noteq> a_Content art then Some ErrRebuildMismatch else None)"

subsection \<open>The trust gate and the federated search\<close>

record Partition =
  p_Operator :: OperatorID
  p_Snapshot :: SnapshotID
  p_Leaf :: nat

record ('pub, 'f) Gate =
  registry :: "'pub Registry"
  reputation :: "OperatorID \<rightharpoonup> 'f"
  MinReputation :: 'f

definition NewGate :: "'pub Registry \<Rightarrow> 'f \<Rightarrow> ('pub, 'f) Gate" where
  "NewGate reg minRep = \<lparr>registry = reg, reputation = Map.empty, MinReputation = minRep\<rparr>"

definition SetReputation :: "OperatorID \<Rightarrow> 'f \<Rightarrow> ('pub, 'f) Gate \<Rightarrow> ('pub, 'f) Gate" where
  "SetReputation oper score g = g\<lparr>reputation := (reputation g)(oper \<mapsto> score)\<rparr>"

definition Trusted :: "('pub, 'f::{zero,ord}) Gate \<Rightarrow> Partition \<Rightarrow> bool" where
  "Trusted g p =
     (case Registry_Key (registry g) (p_Operator p) of
        None \<Rightarrow> False
      | Some pub \<Rightarrow> (case reputation g (p_Operator p) of None \<Rightarrow> 0 | Some f \<Rightarrow> f) \<ge> MinReputation g)"

text \<open>\<open>slices.SortFunc\<close> is unstable; \<open>srt\<close> stands for it.\<close>

definition topK :: "('s Result list \<Rightarrow> 's Result list) \<Rightarrow> 's Result list \<Rightarrow> int \<Rightarrow> 's Result list" where
  "topK srt results k =
     (let results = srt results
      in if k > 0 \<and> int (length results) > k then take (nat k) results else results)"

datatype sel = Recv nat | TimerFired | CtxDone

text \<open>The collection loop; \<open>n\<close> answers are outstanding. \<open>None\<close>: still waiting.\<close>

fun collect :: "('s Result list \<Rightarrow> 's Result list) \<Rightarrow> int \<Rightarrow> (nat \<Rightarrow> string + 's Result list) \<Rightarrow> Partition list \<Rightarrow>
    nat \<Rightarrow> sel list \<Rightarrow> 's Result list \<Rightarrow> 's Result list option" where
  "collect srt k answer trusted 0 sels merged = Some (topK srt merged k)"
| "collect srt k answer trusted (Suc n) [] merged = None"
| "collect srt k answer trusted (Suc n) (Recv i # sels) merged =
     collect srt k answer trusted n sels
       (case answer (p_Leaf (trusted ! i)) of Inr results \<Rightarrow> merged @ results | Inl err \<Rightarrow> merged)"
| "collect srt k answer trusted (Suc n) (TimerFired # sels) merged = Some (topK srt merged k)"
| "collect srt k answer trusted (Suc n) (CtxDone # sels) merged = Some (topK srt merged k)"

text \<open>The partitions whose leaves are called, and the results.\<close>

definition Federator_Search :: "('s Result list \<Rightarrow> 's Result list) \<Rightarrow> ('pub, 'f::{zero,ord}) Gate \<Rightarrow> int \<Rightarrow>
    (nat \<Rightarrow> string + 's Result list) \<Rightarrow> sel list \<Rightarrow> Partition list \<Rightarrow> Partition list \<times> 's Result list option" where
  "Federator_Search srt g k answer sels partitions =
     (let trusted = foldl (\<lambda>t p. if Trusted g p then t @ [p] else t) [] partitions
      in if length trusted = 0 then ([], Some [])
         else (trusted, collect srt k answer trusted (length trusted) sels []))"

subsection \<open>Provenance\<close>

lemma bytes_of_inj: "bytes_of s = bytes_of t \<longleftrightarrow> s = t"
proof -
  have "c = d" if "(of_char c :: byte) = of_char d" for c d
  proof -
    have "(of_nat (of_char c) :: byte) = of_nat (of_char d)" using that by (simp only: of_nat_of_char)
    then have "(of_char c :: nat) = of_char d"
      using nat_of_char_less_256[of c] nat_of_char_less_256[of d]
      by (simp only: word_of_nat_eq_iff take_bit_nat_eq_self_iff) (simp add: take_bit_nat_eq_self)
    then show ?thesis by (simp only: of_char_eq_iff)
  qed
  then show ?thesis unfolding bytes_of_def by (intro inj_map_eq_map) (auto simp: inj_def)
qed

text \<open>The signing bytes have no length fields. They still determine an artifact among those of one operator, because
  the operator is the last part and the content address has a fixed length.\<close>

lemma SigningBytes_inj:
  assumes "SigningBytes a = SigningBytes b" "a_Operator a = a_Operator b" "length (a_Content a) = length (a_Content b)"
  shows "a\<lparr>a_Sig := []\<rparr> = b\<lparr>a_Sig := []\<rparr>"
proof -
  have "bytes_of (a_Snapshot a) @ a_Content a = bytes_of (a_Snapshot b) @ a_Content b" "a_Kind a = a_Kind b"
    using assms(1,2) by (simp_all add: SigningBytes_def)
  then have "a_Snapshot a = a_Snapshot b" "a_Content a = a_Content b" using assms(3) by (auto simp: bytes_of_inj)
  with \<open>a_Kind a = a_Kind b\<close> assms(2) show ?thesis by (cases a; cases b) simp
qed

text \<open>Across operators they do not: a byte moves from the snapshot name into the content address.\<close>

lemma SigningBytes_ambiguous:
  "\<exists>a b. length (a_Content a) = 32 \<and> length (a_Content b) = 32 \<and> a_Operator a \<noteq> a_Operator b \<and>
     a_Snapshot a \<noteq> a_Snapshot b \<and> a_Content a \<noteq> a_Content b \<and> SigningBytes a = SigningBytes b"
proof (intro exI)
  let ?a = "\<lparr>a_Kind = 0, a_Snapshot = ''ab'', a_Content = replicate 31 0 @ bytes_of ''x'', a_Operator = ''y'', a_Sig = []\<rparr>"
  let ?b = "\<lparr>a_Kind = 0, a_Snapshot = ''a'', a_Content = bytes_of ''b'' @ replicate 31 0, a_Operator = ''xy'', a_Sig = []\<rparr>"
  have "hd (replicate 31 (0 :: byte) @ [120]) \<noteq> hd (98 # replicate 31 0)" by (simp add: hd_append hd_replicate)
  then have ne: "replicate 31 (0 :: byte) @ [120] \<noteq> 98 # replicate 31 0" by metis
  show "length (a_Content ?a) = 32 \<and> length (a_Content ?b) = 32 \<and> a_Operator ?a \<noteq> a_Operator ?b \<and>
     a_Snapshot ?a \<noteq> a_Snapshot ?b \<and> a_Content ?a \<noteq> a_Content ?b \<and> SigningBytes ?a = SigningBytes ?b"
    by (simp add: SigningBytes_def bytes_of_def ne)
qed


text \<open>C32: Provenance. If the key registered for the artifact's operator verifies only messages that operator signed
  (\<open>issued\<close>, artifacts that name the operator and carry 32-byte addresses), then an artifact \<open>VerifyRebuild\<close> accepts is, up to the
  signature value, one the operator issued, and its content address is that of the rebuilt bytes. Every other
  outcome names its cause.\<close>

theorem VerifyRebuild_provenance:
  assumes "\<And>pub msg sig. registry_of (a_Operator art) = Some pub \<Longrightarrow> ed_verify pub msg sig \<Longrightarrow> msg \<in> SigningBytes ` issued"
    and "\<And>b. b \<in> issued \<Longrightarrow> a_Operator b = a_Operator art \<and> length (a_Content b) = 32"
    and "length (a_Content art) = 32"
  shows "case VerifyRebuild sha256 ed_verify registry_of art rebuilt of
      None \<Rightarrow> (\<exists>b \<in> issued. art\<lparr>a_Sig := []\<rparr> = b\<lparr>a_Sig := []\<rparr>) \<and> a_Content art = Address sha256 rebuilt
    | Some ErrUnknownOperator \<Rightarrow> registry_of (a_Operator art) = None
    | Some ErrBadSignature \<Rightarrow>
        \<not> ed_verify (the (registry_of (a_Operator art))) (SigningBytes art) (a_Sig art)
    | Some ErrRebuildMismatch \<Rightarrow> VerifyArtifact ed_verify registry_of art = None \<and> Address sha256 rebuilt \<noteq> a_Content art"
proof (cases "registry_of (a_Operator art)")
  case (Some pub)
  show ?thesis
  proof (cases "ed_verify pub (SigningBytes art) (a_Sig art)")
    case True
    then obtain b where b: "b \<in> issued" "SigningBytes art = SigningBytes b" using assms(1)[OF Some] by blast
    then have "art\<lparr>a_Sig := []\<rparr> = b\<lparr>a_Sig := []\<rparr>" using assms(2,3) by (intro SigningBytes_inj) auto
    then show ?thesis using b(1) True by (auto simp: VerifyRebuild_def VerifyArtifact_def Verify_def Some)
  qed (simp add: VerifyRebuild_def VerifyArtifact_def Verify_def Some)
qed (simp add: VerifyRebuild_def VerifyArtifact_def)

definition demo_artifact :: "bytes \<Rightarrow> Artifact" where
  "demo_artifact sg = \<lparr>a_Kind = KindCIFF, a_Snapshot = ''s1'', a_Content = replicate 32 7, a_Operator = ''oi'', a_Sig = sg\<rparr>"

text \<open>A registry with one operator, whose key accepts one message only.\<close>

theorem VerifyRebuild_provenance_witness:
  "VerifyRebuild (\<lambda>b. replicate 32 7) (\<lambda>pub msg sg. msg = SigningBytes (demo_artifact [])) (Registry_Add ''oi'' () NewRegistry)
     (demo_artifact [1]) [] = None \<and>
   (\<exists>b \<in> {demo_artifact []}. (demo_artifact [1])\<lparr>a_Sig := []\<rparr> = b\<lparr>a_Sig := []\<rparr>)"
proof -
  let ?v = "\<lambda>pub msg sg. msg = SigningBytes (demo_artifact [])" and ?r = "Registry_Add ''oi'' () NewRegistry"
  have eq: "VerifyRebuild (\<lambda>b. replicate 32 7) ?v ?r (demo_artifact [1]) [] = None"
    by (simp add: VerifyRebuild_def VerifyArtifact_def Verify_def Registry_Add_def demo_artifact_def SigningBytes_def Address_def)
  from VerifyRebuild_provenance[of ?r "demo_artifact [1]" ?v "{demo_artifact []}" "\<lambda>b. replicate 32 7" "[]"] eq
  show ?thesis by (simp add: demo_artifact_def)
qed

subsection \<open>The federated search\<close>

text \<open>The contract of \<open>slices.SortFunc\<close> with the comparison of \<open>topK\<close>.\<close>

definition score_sort :: "('s::linorder Result list \<Rightarrow> 's Result list) \<Rightarrow> bool" where
  "score_sort srt \<longleftrightarrow> (\<forall>xs. mset (srt xs) = mset xs \<and> sorted_wrt (\<lambda>a b. Res_Score a \<ge> Res_Score b) (srt xs))"

lemma topK_spec:
  assumes "score_sort srt"
  shows "\<exists>rest. mset (topK srt rs k) + mset rest = mset rs \<and> sorted_wrt (\<lambda>a b. Res_Score a \<ge> Res_Score b) (topK srt rs k) \<and>
    (\<forall>x \<in> set (topK srt rs k). \<forall>y \<in> set rest. Res_Score y \<le> Res_Score x) \<and>
    (k > 0 \<longrightarrow> length (topK srt rs k) = min (nat k) (length rs)) \<and> (k \<le> 0 \<longrightarrow> rest = [])"
proof -
  have s: "mset (srt rs) = mset rs" "sorted_wrt (\<lambda>a b. Res_Score a \<ge> Res_Score b) (srt rs)"
    using assms by (auto simp: score_sort_def)
  then have l: "length (srt rs) = length rs" by (metis size_mset)
  show ?thesis
  proof (cases "k > 0 \<and> int (length rs) > k")
    case True
    let ?t = "take (nat k) (srt rs)" and ?d = "drop (nat k) (srt rs)"
    have td: "sorted_wrt (\<lambda>a b. Res_Score a \<ge> Res_Score b) (?t @ ?d)" "mset (?t @ ?d) = mset rs"
      using s by simp_all
    then have "sorted_wrt (\<lambda>a b. Res_Score a \<ge> Res_Score b) ?t" "\<forall>x \<in> set ?t. \<forall>y \<in> set ?d. Res_Score y \<le> Res_Score x"
      unfolding sorted_wrt_append by blast+
    moreover have "topK srt rs k = ?t" using True by (simp add: topK_def l)
    ultimately show ?thesis using td(2) True by (intro exI[of _ ?d]) (simp only: mset_append, simp add: l min.commute)
  next
    case False
    then have "topK srt rs k = srt rs" by (auto simp: topK_def l)
    then show ?thesis using s False l by (intro exI[of _ "[]"]) auto
  qed
qed

text \<open>The answers received before the loop ends.\<close>

fun received :: "nat \<Rightarrow> sel list \<Rightarrow> nat list" where
  "received (Suc n) (Recv i # sels) = i # received n sels"
| "received n sels = []"

definition answered :: "(nat \<Rightarrow> string + 's Result list) \<Rightarrow> Partition \<Rightarrow> 's Result list" where
  "answered answer p = (case answer (p_Leaf p) of Inr results \<Rightarrow> results | Inl err \<Rightarrow> [])"

lemma collect_received:
  "collect srt k answer trusted n sels merged = Some out \<Longrightarrow>
     out = topK srt (merged @ concat (map (\<lambda>i. answered answer (trusted ! i)) (received n sels))) k"
  by (induction srt k answer trusted n sels merged rule: collect.induct)
    (auto simp: answered_def split: sum.splits)

lemma collect_ends:
  "(\<exists>s \<in> set sels. s = TimerFired \<or> s = CtxDone) \<or> n \<le> length sels \<Longrightarrow> collect srt k answer trusted n sels merged \<noteq> None"
  by (induction srt k answer trusted n sels merged rule: collect.induct) auto

lemma trusted_filter: "foldl (\<lambda>t p. if Q p then t @ [p] else t) acc ps = acc @ filter Q ps"
  by (induction ps arbitrary: acc) auto

text \<open>C31: The federated search queries exactly the trusted partitions: operator registered and reputation at or above the
  floor. It returns as soon as the timer or the context ends the wait, at the latest when every trusted partition answered;
  and what it returns is the best \<open>K\<close> by score, best first, of the answers received by then from trusted partitions that did not
  fail: no other result can appear, and none left out scores higher than one returned.\<close>

theorem Federator_Search_exact:
  assumes "score_sort srt"
  shows "let trusted = filter (\<lambda>p. registry g (p_Operator p) \<noteq> None \<and>
          MinReputation g \<le> (case reputation g (p_Operator p) of None \<Rightarrow> 0 | Some f \<Rightarrow> f)) partitions;
        pool = concat (map (\<lambda>i. answered answer (trusted ! i)) (received (length trusted) sels))
    in fst (Federator_Search srt g k answer sels partitions) = trusted \<and>
       (list_ex (\<lambda>s. s = TimerFired \<or> s = CtxDone) sels \<or> length trusted \<le> length sels \<longrightarrow>
          snd (Federator_Search srt g k answer sels partitions) \<noteq> None) \<and>
       (\<forall>out. snd (Federator_Search srt g k answer sels partitions) = Some out \<longrightarrow>
          (\<exists>rest. mset out + mset rest = mset pool \<and> sorted_wrt (\<lambda>a b. Res_Score a \<ge> Res_Score b) out \<and>
             (\<forall>x \<in> set out. \<forall>y \<in> set rest. Res_Score y \<le> Res_Score x) \<and>
             (k > 0 \<longrightarrow> length out = min (nat k) (length pool))))"
proof -
  let ?t = "filter (Trusted g) partitions"
  have tr: "(\<lambda>p. registry g (p_Operator p) \<noteq> None \<and>
      MinReputation g \<le> (case reputation g (p_Operator p) of None \<Rightarrow> 0 | Some f \<Rightarrow> f)) = Trusted g"
    by (auto simp: Trusted_def Registry_Key_def fun_eq_iff split: option.split)
  let ?pool = "concat (map (\<lambda>i. answered answer (?t ! i)) (received (length ?t) sels))"
  have S: "Federator_Search srt g k answer sels partitions =
      (if length ?t = 0 then ([], Some []) else (?t, collect srt k answer ?t (length ?t) sels []))"
    unfolding Federator_Search_def trusted_filter Let_def by simp
  have "\<exists>rest. mset out + mset rest = mset ?pool \<and> sorted_wrt (\<lambda>a b. Res_Score a \<ge> Res_Score b) out \<and>
      (\<forall>x \<in> set out. \<forall>y \<in> set rest. Res_Score y \<le> Res_Score x) \<and> (k > 0 \<longrightarrow> length out = min (nat k) (length ?pool))"
    if "snd (Federator_Search srt g k answer sels partitions) = Some out" for out
  proof (cases "length ?t = 0")
    case True
    then show ?thesis using that unfolding S by simp
  next
    case False
    then have "collect srt k answer ?t (length ?t) sels [] = Some out" using that unfolding S by (simp split: if_splits)
    from collect_received[OF this] have "out = topK srt ?pool k" by simp
    with topK_spec[OF assms, of ?pool k] show ?thesis by blast
  qed
  moreover have "snd (Federator_Search srt g k answer sels partitions) \<noteq> None"
    if "list_ex (\<lambda>s. s = TimerFired \<or> s = CtxDone) sels \<or> length ?t \<le> length sels"
  proof (cases "length ?t = 0")
    case False
    have "collect srt k answer ?t (length ?t) sels [] \<noteq> None"
      using that by (intro collect_ends) (auto simp: list_ex_iff)
    then show ?thesis using False unfolding S by simp
  qed (simp add: S)
  moreover have "fst (Federator_Search srt g k answer sels partitions) = ?t" unfolding S by simp
  ultimately show ?thesis unfolding tr Let_def by blast
qed


text \<open>Two known operators, one below the floor, and an unknown one.\<close>

definition demo_gate :: "(unit, int) Gate" where
  "demo_gate = SetReputation ''a'' 5 (SetReputation ''b'' 1 (NewGate (Registry_Add ''a'' () (Registry_Add ''b'' () NewRegistry)) 3))"

definition demo_partitions :: "Partition list" where
  "demo_partitions = map (\<lambda>(n, i). \<lparr>p_Operator = n, p_Snapshot = ''s'', p_Leaf = i\<rparr>) [(''a'', 0), (''b'', 1), (''c'', 2)]"

theorem Federator_Search_exact_witness:
  "score_sort (sort_key (\<lambda>r. - Res_Score r :: int)) \<and>
   fst (Federator_Search (sort_key (\<lambda>r. - Res_Score r :: int)) demo_gate 10 (\<lambda>i. Inl ''down'') [TimerFired] demo_partitions) =
     [\<lparr>p_Operator = ''a'', p_Snapshot = ''s'', p_Leaf = 0\<rparr>] \<and>
   snd (Federator_Search (sort_key (\<lambda>r. - Res_Score r :: int)) demo_gate 10 (\<lambda>i. Inl ''down'') [TimerFired] demo_partitions) \<noteq> None"
proof -
  have "sorted_wrt (\<lambda>a b. Res_Score a \<ge> Res_Score b) (sort_key (\<lambda>r. - Res_Score r) xs)" for xs :: "int Result list"
    using sorted_sort_key[of "\<lambda>r. - Res_Score r" xs] by (simp add: sorted_map)
  then have s: "score_sort (sort_key (\<lambda>r. - Res_Score r :: int))" by (simp add: score_sort_def)
  show ?thesis
    using s Federator_Search_exact[OF s, of demo_gate demo_partitions "\<lambda>i. Inl ''down''" "[TimerFired]" 10]
    by (simp add: Let_def demo_gate_def demo_partitions_def Registry_Add_def NewRegistry_def NewGate_def SetReputation_def)
qed

end
