(* ===== verification/CrowdSignal.thy ===== *)
theory CrowdSignal
  imports Types Complex_Main
begin

text \<open>
  \<open>open/crowdsignal\<close>: squashing on the client, randomized response, and the de-biased aggregate. \<open>float64\<close> arithmetic is
  over the reals. The three numbers \<open>Privatize\<close> draws from \<open>rng.Float64\<close> are its argument; the last part averages
  over them. \<open>Float64\<close> of \<open>math/rand/v2\<close> returns one of the \<open>2\<^sup>5\<^sup>3\<close> numbers \<open>k / 2\<^sup>5\<^sup>3\<close> below 1, each equally likely; the theorems
  hold for any number \<open>n\<close> of equidistant values.
\<close>

subsection \<open>Reports and squashing\<close>

record Outcome =
  Good :: bool
  LastLongest :: bool
  Pogo :: bool

record Report =
  Query :: string
  rep_Doc :: GlobalDocID
  rep_Outcome :: Outcome

type_synonym key = "string \<times> GlobalDocID"

definition key_of :: "Report \<Rightarrow> key" where
  "key_of r = (Query r, rep_Doc r)"

definition or_outcome :: "Outcome \<Rightarrow> Outcome \<Rightarrow> Outcome" where
  "or_outcome a b = \<lparr>Good = Good a \<or> Good b, LastLongest = LastLongest a \<or> LastLongest b, Pogo = Pogo a \<or> Pogo b\<rparr>"

definition no_outcome :: Outcome where
  "no_outcome = \<lparr>Good = False, LastLongest = False, Pogo = False\<rparr>"

fun squash_step :: "(key \<rightharpoonup> Outcome) \<times> key list \<Rightarrow> Report \<Rightarrow> (key \<rightharpoonup> Outcome) \<times> key list" where
  "squash_step (merged, order) r =
     (let k = key_of r;
          (ob, seen) = (case merged k of Some ob \<Rightarrow> (ob, True) | None \<Rightarrow> (no_outcome, False));
          order = (if \<not> seen then order @ [k] else order)
      in (merged(k \<mapsto> or_outcome ob (rep_Outcome r)), order))"

definition Squash :: "Report list \<Rightarrow> Report list" where
  "Squash session =
     (let (merged, order) = foldl squash_step (Map.empty, []) session
      in map (\<lambda>k. \<lparr>Query = fst k, rep_Doc = snd k, rep_Outcome = the (merged k)\<rparr>) order)"

subsection \<open>Randomized response\<close>

definition keepProb :: "real \<Rightarrow> real" where
  "keepProb epsilon = (let e = exp epsilon in e / (1 + e))"

definition Privatize :: "Report \<Rightarrow> real \<Rightarrow> real \<times> real \<times> real \<Rightarrow> Report" where
  "Privatize r epsilon draws =
     (case draws of (u, v, w) \<Rightarrow>
        let p = keepProb epsilon;
            flip = (\<lambda>x b. if x < p then b else \<not> b);
            ob = rep_Outcome r
        in r\<lparr>rep_Outcome := \<lparr>Good = flip u (Good ob), LastLongest = flip v (LastLongest ob), Pogo = flip w (Pogo ob)\<rparr>\<rparr>)"

subsection \<open>Aggregation\<close>

record Stats =
  GoodClicks :: real
  LastLongestClick :: real
  PogoClicks :: real
  Reports :: int

record counts =
  c_good :: int
  c_lastLongest :: int
  c_pogo :: int
  c_n :: int

record Aggregator =
  epsilon :: real
  tally :: "key \<rightharpoonup> counts"

definition NewAggregator :: "real \<Rightarrow> Aggregator" where
  "NewAggregator eps = \<lparr>epsilon = eps, tally = Map.empty\<rparr>"

definition zero_counts :: counts where
  "zero_counts = \<lparr>c_good = 0, c_lastLongest = 0, c_pogo = 0, c_n = 0\<rparr>"

definition Observe :: "Report \<Rightarrow> Aggregator \<Rightarrow> Aggregator" where
  "Observe r a =
     (let k = key_of r;
          c = (case tally a k of None \<Rightarrow> zero_counts | Some c \<Rightarrow> c);
          c = (if Good (rep_Outcome r) then c\<lparr>c_good := c_good c + 1\<rparr> else c);
          c = (if LastLongest (rep_Outcome r) then c\<lparr>c_lastLongest := c_lastLongest c + 1\<rparr> else c);
          c = (if Pogo (rep_Outcome r) then c\<lparr>c_pogo := c_pogo c + 1\<rparr> else c);
          c = c\<lparr>c_n := c_n c + 1\<rparr>
      in a\<lparr>tally := (tally a)(k \<mapsto> c)\<rparr>)"

definition debias :: "Aggregator \<Rightarrow> int \<Rightarrow> int \<Rightarrow> real" where
  "debias a reportedTrue n =
     (let p = keepProb (epsilon a);
          est = (real_of_int reportedTrue - (1 - p) * real_of_int n) / (2 * p - 1)
      in max est 0)"

definition Aggregator_Stats :: "Aggregator \<Rightarrow> string \<Rightarrow> GlobalDocID \<Rightarrow> Stats" where
  "Aggregator_Stats a query doc =
     (let none = \<lparr>GoodClicks = 0, LastLongestClick = 0, PogoClicks = 0, Reports = 0\<rparr>
      in case tally a (query, doc) of
           None \<Rightarrow> none
         | Some c \<Rightarrow>
             if c_n c = 0 then none
             else \<lparr>GoodClicks = debias a (c_good c) (c_n c), LastLongestClick = debias a (c_lastLongest c) (c_n c),
                   PogoClicks = debias a (c_pogo c) (c_n c), Reports = c_n c\<rparr>)"

subsection \<open>Squashing keeps one report per query and document\<close>

definition merged_outcome :: "Report list \<Rightarrow> key \<Rightarrow> Outcome" where
  "merged_outcome rs k = foldl or_outcome no_outcome (map rep_Outcome (filter (\<lambda>r. key_of r = k) rs))"

lemma squash_fold:
  "foldl squash_step (Map.empty, []) rs =
     ((\<lambda>k. if k \<in> key_of ` set rs then Some (merged_outcome rs k) else None), rev (remdups (rev (map key_of rs))))"
proof (induction rs rule: rev_induct)
  case (snoc r rs)
  have "merged_outcome (rs @ [r]) k =
      (if k = key_of r then or_outcome (merged_outcome rs k) (rep_Outcome r) else merged_outcome rs k)" for k
    by (simp add: merged_outcome_def)
  moreover have "merged_outcome rs k = no_outcome" if "k \<notin> key_of ` set rs" for k
  proof -
    have "filter (\<lambda>r. key_of r = k) rs = []" using that by (auto simp: filter_empty_conv)
    then show ?thesis by (simp add: merged_outcome_def)
  qed
  ultimately show ?case using snoc by (auto simp: Let_def fun_eq_iff split: option.splits)
qed (simp add: fun_eq_iff)


lemma merged_outcome_bits:
  "Good (merged_outcome rs k) = list_ex (\<lambda>r. key_of r = k \<and> Good (rep_Outcome r)) rs"
  "LastLongest (merged_outcome rs k) = list_ex (\<lambda>r. key_of r = k \<and> LastLongest (rep_Outcome r)) rs"
  "Pogo (merged_outcome rs k) = list_ex (\<lambda>r. key_of r = k \<and> Pogo (rep_Outcome r)) rs"
  by (induction rs rule: rev_induct) (auto simp: merged_outcome_def no_outcome_def or_outcome_def)

lemma Squash_eq:
  "Squash rs = map (\<lambda>k. \<lparr>Query = fst k, rep_Doc = snd k, rep_Outcome = merged_outcome rs k\<rparr>) (rev (remdups (rev (map key_of rs))))"
  unfolding Squash_def squash_fold Let_def by auto

lemma key_of_Squash: "map key_of (Squash rs) = rev (remdups (rev (map key_of rs)))"
  by (simp add: Squash_eq key_of_def comp_def)

lemma Squash_distinct:
  assumes "distinct (map key_of rs)"
  shows "Squash rs = rs"
proof -
  have m: "merged_outcome rs (key_of r) = rep_Outcome r" if "r \<in> set rs" for r
  proof -
    have "filter (\<lambda>r'. key_of r' = key_of r) rs = [r]"
      using assms that by (induction rs) (auto simp: filter_empty_conv image_iff)
    then show ?thesis by (simp add: merged_outcome_def or_outcome_def no_outcome_def)
  qed
  have "remdups (rev (map key_of rs)) = rev (map key_of rs)" using assms by (intro distinct_remdups_id) simp
  then have "Squash rs = map (\<lambda>r. \<lparr>Query = Query r, rep_Doc = rep_Doc r, rep_Outcome = merged_outcome rs (key_of r)\<rparr>) rs"
    unfolding Squash_eq by (simp only: rev_rev_ident map_map comp_def) (simp add: key_of_def)
  also have "\<dots> = rs" by (rule map_idI) (simp add: m)
  finally show ?thesis .
qed

text \<open>Squashing keeps exactly one report for every query and document of the session, whose bits are the disjunctions of the
  session's; squashing again changes nothing. So however often a session repeats a click, it adds at most one to any
  tally.\<close>

theorem Squash_once:
  "let out = Squash session in
     distinct (map key_of out) \<and> set (map key_of out) = key_of ` set session \<and>
     list_all (\<lambda>r.
       Good (rep_Outcome r) = list_ex (\<lambda>r'. key_of r' = key_of r \<and> Good (rep_Outcome r')) session \<and>
       LastLongest (rep_Outcome r) = list_ex (\<lambda>r'. key_of r' = key_of r \<and> LastLongest (rep_Outcome r')) session \<and>
       Pogo (rep_Outcome r) = list_ex (\<lambda>r'. key_of r' = key_of r \<and> Pogo (rep_Outcome r')) session) out \<and>
     Squash out = out"
proof -
  have d: "distinct (map key_of (Squash session))" by (simp add: key_of_Squash)
  moreover have "set (map key_of (Squash session)) = key_of ` set session" unfolding key_of_Squash by simp
  moreover have "rep_Outcome r = merged_outcome session (key_of r)" if "r \<in> set (Squash session)" for r
    using that by (auto simp: Squash_eq key_of_def)
  ultimately show ?thesis using Squash_distinct[OF d] by (simp add: Let_def list_all_iff merged_outcome_bits)
qed

subsection \<open>Averages over the draws\<close>

definition mean :: "nat \<Rightarrow> (real \<Rightarrow> real) \<Rightarrow> real" where
  "mean n f = (\<Sum>k<n. f (real k / real n)) / real n"

definition expect3 :: "nat \<Rightarrow> (real \<times> real \<times> real \<Rightarrow> real) \<Rightarrow> real" where
  "expect3 n f = mean n (\<lambda>u. mean n (\<lambda>v. mean n (\<lambda>w. f (u, v, w))))"

text \<open>The probability that the report \<open>r\<close> leaves the device as \<open>out\<close>.\<close>

definition report_prob :: "nat \<Rightarrow> real \<Rightarrow> Report \<Rightarrow> Report \<Rightarrow> real" where
  "report_prob n eps r out = expect3 n (\<lambda>d. if Privatize r eps d = out then 1 else 0)"

lemma keepProb_bounds: "0 < keepProb eps" "keepProb eps < 1" "0 \<le> eps \<Longrightarrow> 1 / 2 \<le> keepProb eps"
  "0 < eps \<Longrightarrow> 1 / 2 < keepProb eps"
  by (simp_all add: keepProb_def Let_def field_simps add_pos_pos)

text \<open>How many of the values keep a bit: as many as the threshold asks for, up to one.\<close>

definition keep_share :: "nat \<Rightarrow> real \<Rightarrow> real" where
  "keep_share n eps = mean n (\<lambda>x. of_bool (x < keepProb eps))"

lemma keep_share_bounds:
  assumes "0 < n"
  shows "keepProb eps \<le> keep_share n eps" "keep_share n eps \<le> keepProb eps + 1 / real n" "0 \<le> keep_share n eps" "keep_share n eps \<le> 1"
proof -
  let ?x = "keepProb eps * real n" and ?S = "{k. k < n \<and> real k < keepProb eps * real n}"
  have x: "0 < ?x" "?x < real n" using keepProb_bounds[of eps] assms by simp_all
  have "(real k / real n < keepProb eps) = (real k < ?x)" for k using assms by (simp add: pos_divide_less_eq)
  then have "keep_share n eps = (\<Sum>k<n. of_bool (real k < ?x)) / real n" by (simp add: keep_share_def mean_def)
  also have "(\<Sum>k<n. of_bool (real k < ?x)) = real (card ?S)"
    by (simp add: of_bool_def sum.If_cases Int_def lessThan_def)
  also have "?S = {..<nat \<lceil>?x\<rceil>}" using x by (auto simp: nat_less_iff less_ceiling_iff) linarith+
  finally have q: "keep_share n eps = real (nat \<lceil>?x\<rceil>) / real n" by simp
  have "\<lceil>?x\<rceil> \<le> int n" using x(2) by (simp add: ceiling_le_iff)
  then have "?x \<le> real (nat \<lceil>?x\<rceil>)" "real (nat \<lceil>?x\<rceil>) \<le> ?x + 1" "real (nat \<lceil>?x\<rceil>) \<le> real n" using x by linarith+
  then show "keepProb eps \<le> keep_share n eps" "keep_share n eps \<le> keepProb eps + 1 / real n" "0 \<le> keep_share n eps" "keep_share n eps \<le> 1"
    using assms by (simp_all add: q field_simps)
qed

definition bern :: "real \<Rightarrow> (bool \<Rightarrow> real) \<Rightarrow> real" where
  "bern q f = q * f True + (1 - q) * f False"

lemma mean_threshold:
  assumes "0 < n"
  shows "mean n (\<lambda>x. g (x < keepProb eps)) = bern (keep_share n eps) g"
proof -
  have "g (x < keepProb eps) = g False + (g True - g False) * of_bool (x < keepProb eps)" for x by simp
  then have "mean n (\<lambda>x. g (x < keepProb eps)) = g False + (g True - g False) * keep_share n eps"
    using assms by (simp add: mean_def keep_share_def sum.distrib add_divide_distrib flip: sum_distrib_left)
  then show ?thesis by (simp add: bern_def algebra_simps)
qed

text \<open>\<open>Privatize\<close> looks only at whether its draws are below the threshold.\<close>

definition noised :: "Report \<Rightarrow> bool \<Rightarrow> bool \<Rightarrow> bool \<Rightarrow> Report" where
  "noised r a b c = r\<lparr>rep_Outcome := \<lparr>Good = (Good (rep_Outcome r) = a), LastLongest = (LastLongest (rep_Outcome r) = b),
     Pogo = (Pogo (rep_Outcome r) = c)\<rparr>\<rparr>"

lemma Privatize_noised: "Privatize r eps (u, v, w) = noised r (u < keepProb eps) (v < keepProb eps) (w < keepProb eps)"
  by (auto simp: Privatize_def noised_def Let_def)

lemma key_of_noised [simp]: "key_of (noised r a b c) = key_of r"
  by (simp add: key_of_def noised_def)

lemma expect3_Privatize:
  assumes "0 < n"
  shows "expect3 n (\<lambda>d. f (Privatize r eps d)) =
    bern (keep_share n eps) (\<lambda>a. bern (keep_share n eps) (\<lambda>b. bern (keep_share n eps) (\<lambda>c. f (noised r a b c))))"
  unfolding expect3_def Privatize_noised
  by (simp add: mean_threshold[OF assms, of "\<lambda>c. f (noised r _ _ c)"] mean_threshold[OF assms, of "\<lambda>b. bern _ (\<lambda>c. f (noised r _ b c))"]
      mean_threshold[OF assms, of "\<lambda>a. bern _ (\<lambda>b. bern _ (\<lambda>c. f (noised r a b c)))"])

definition resp :: "real \<Rightarrow> bool \<Rightarrow> bool \<Rightarrow> real" where
  "resp q a b = (if a = b then q else 1 - q)"

definition response :: "real \<Rightarrow> Report \<Rightarrow> Report \<Rightarrow> real" where
  "response q r out =
     (if key_of out = key_of r
      then resp q (Good (rep_Outcome r)) (Good (rep_Outcome out)) *
        (resp q (LastLongest (rep_Outcome r)) (LastLongest (rep_Outcome out)) * resp q (Pogo (rep_Outcome r)) (Pogo (rep_Outcome out)))
      else 0)"

lemma report_prob_eq:
  assumes "0 < n"
  shows "report_prob n eps r out = response (keep_share n eps) r out"
  unfolding report_prob_def expect3_Privatize[OF assms, of "\<lambda>x. if x = out then 1 else 0"] bern_def
  by (cases r; cases out; cases "rep_Outcome r"; cases "rep_Outcome out")
    (auto simp: noised_def resp_def key_of_def response_def)

subsection \<open>Local differential privacy\<close>

lemma keepProb_exp: "exp eps * (1 - keepProb eps) = keepProb eps"
proof -
  have "1 + exp eps \<noteq> 0" using exp_gt_zero[of eps] by linarith
  then show ?thesis by (simp add: keepProb_def Let_def divide_simps)
qed

lemma resp_ratio:
  assumes "0 \<le> eps"
  shows "resp (keepProb eps) a b \<le> exp eps * resp (keepProb eps) a' b" "0 \<le> resp (keepProb eps) a b"
proof -
  note e = keepProb_exp[of eps]
  have ge: "1 - keepProb eps \<le> keepProb eps" using keepProb_bounds(3)[OF assms] by simp
  have one: "x \<le> exp eps * x" if "0 \<le> x" for x using that assms by (simp add: mult_le_cancel_right1)
  have "1 - keepProb eps \<le> exp eps * keepProb eps" using ge one[of "keepProb eps"] keepProb_bounds(1)[of eps] by linarith
  then show "resp (keepProb eps) a b \<le> exp eps * resp (keepProb eps) a' b"
    using e ge one[of "keepProb eps"] one[of "1 - keepProb eps"] keepProb_bounds[of eps] by (auto simp: resp_def)
  show "0 \<le> resp (keepProb eps) a b" using keepProb_bounds[of eps] by (simp add: resp_def)
qed

lemma mult3_mono:
  fixes a b c :: real
  assumes "a \<le> a'" "b \<le> b'" "c \<le> c'" "0 \<le> a" "0 \<le> b" "0 \<le> c"
  shows "a * (b * c) \<le> a' * (b' * c')"
  using assms by (intro mult_mono mult_nonneg_nonneg) auto

definition flip_all :: "Report \<Rightarrow> Report" where
  "flip_all r = r\<lparr>rep_Outcome := \<lparr>Good = \<not> Good (rep_Outcome r), LastLongest = \<not> LastLongest (rep_Outcome r), Pogo = \<not> Pogo (rep_Outcome r)\<rparr>\<rparr>"

text \<open>With the exact keep probability the factor is \<open>e^(3 epsilon)\<close>, and is attained.\<close>

lemma response_private:
  assumes "0 \<le> eps" "key_of r = key_of r'"
  shows "response (keepProb eps) r out \<le> exp (3 * eps) * response (keepProb eps) r' out"
    and "response (keepProb eps) r r = exp (3 * eps) * response (keepProb eps) (flip_all r) r"
proof -
  let ?p = "keepProb eps"
  have e3: "exp (3 * eps) = exp eps * (exp eps * exp eps)" by (simp flip: exp_add)
  have "resp ?p a x * (resp ?p b y * resp ?p c z) \<le>
      (exp eps * resp ?p a' x) * ((exp eps * resp ?p b' y) * (exp eps * resp ?p c' z))" for a b c a' b' c' x y z
    by (rule mult3_mono) (rule resp_ratio[OF assms(1)])+
  then show "response ?p r out \<le> exp (3 * eps) * response ?p r' out"
    using assms(2) by (simp add: response_def e3 mult.assoc mult.left_commute)
  have "response ?p r r = (exp eps * (1 - ?p)) * ((exp eps * (1 - ?p)) * (exp eps * (1 - ?p)))"
    unfolding keepProb_exp by (simp add: response_def resp_def)
  moreover have "response ?p (flip_all r) r = (1 - ?p) * ((1 - ?p) * (1 - ?p))"
    by (simp add: response_def resp_def flip_all_def key_of_def)
  ultimately show "response ?p r r = exp (3 * eps) * response ?p (flip_all r) r" by (simp add: e3 mult.assoc mult.left_commute)
qed

text \<open>The generator's resolution moves every probability by at most \<open>3 / n\<close>.\<close>

lemma mult_close:
  fixes a b :: real
  assumes "\<bar>a - a'\<bar> \<le> d" "\<bar>b - b'\<bar> \<le> e" "0 \<le> b" "b \<le> 1" "0 \<le> a'" "a' \<le> 1"
  shows "\<bar>a * b - a' * b'\<bar> \<le> d + e"
proof -
  have "a * b - a' * b' = (a - a') * b + a' * (b - b')" by (simp add: algebra_simps)
  then have "\<bar>a * b - a' * b'\<bar> \<le> \<bar>a - a'\<bar> * \<bar>b\<bar> + \<bar>a'\<bar> * \<bar>b - b'\<bar>" by (simp add: abs_mult[symmetric] abs_triangle_ineq)
  also have "\<dots> \<le> \<bar>a - a'\<bar> + \<bar>b - b'\<bar>" using assms by (intro add_mono mult_right_le_one_le mult_left_le_one_le) simp_all
  finally show ?thesis using assms(1,2) by linarith
qed

lemma report_prob_close:
  assumes "0 < n"
  shows "\<bar>report_prob n eps r out - response (keepProb eps) r out\<bar> \<le> 3 / real n"
proof -
  let ?q = "keep_share n eps" and ?p = "keepProb eps"
  note q = keep_share_bounds[OF assms, of eps]
  have c: "\<bar>resp ?q a b - resp ?p a b\<bar> \<le> 1 / real n" for a b using q(1,2) by (simp add: resp_def abs_le_iff)
  have u: "0 \<le> resp ?q a b \<and> resp ?q a b \<le> 1 \<and> 0 \<le> resp ?p a b \<and> resp ?p a b \<le> 1" for a b
    using q(3,4) keepProb_bounds(1,2)[of eps] by (simp add: resp_def)
  have u2: "0 \<le> resp ?q a b * resp ?q c d \<and> resp ?q a b * resp ?q c d \<le> 1" for a b c d
    using u by (simp add: mult_le_one)
  have "\<bar>resp ?q a x * (resp ?q b y * resp ?q c z) - resp ?p a x * (resp ?p b y * resp ?p c z)\<bar> \<le> 1 / real n + (1 / real n + 1 / real n)" for a b c x y z
    by (intro mult_close c) (use u u2 in blast)+
  then have "\<bar>response ?q r out - response ?p r out\<bar> \<le> 3 / real n" by (simp add: response_def)
  then show ?thesis unfolding report_prob_eq[OF assms] .
qed

text \<open>C33: Local differential privacy of the outcome bits. For two reports on the same query and document, whatever leaves the
  device is at most \<open>e^(3 epsilon)\<close> times as likely under the one outcome as under the other, up to an additive error that is a
  multiple of the resolution of the random generator (\<open>n\<close> is \<open>2\<^sup>5\<^sup>3\<close>). Up to that error the factor is attained when all three bits
  differ, so the loss is neither more nor less than three times the budget. The query and the document are sent as they are.\<close>

theorem Privatize_private:
  assumes "0 \<le> eps" "key_of r = key_of r'" "0 < n"
  shows "report_prob n eps r out \<le> exp (3 * eps) * report_prob n eps r' out + 3 * (1 + exp (3 * eps)) / real n \<and>
    \<bar>report_prob n eps r r - exp (3 * eps) * report_prob n eps (flip_all r) r\<bar> \<le> 3 * (1 + exp (3 * eps)) / real n"
proof -
  let ?R = "\<lambda>r out. response (keepProb eps) r out" and ?P = "report_prob n eps" and ?e = "exp (3 * eps)"
  have up: "?P r out \<le> ?R r out + 3 / real n" and lo: "?R r out \<le> ?P r out + 3 / real n" for r out
    using report_prob_close[OF assms(3), of eps r out] by linarith+
  have e: "?e * ?R r out \<le> ?e * (?P r out + 3 / real n)" "?e * ?P r out \<le> ?e * (?R r out + 3 / real n)" for r out
    using lo up by (simp_all add: mult_left_mono)
  have s: "3 * (1 + ?e) / real n = 3 / real n + ?e * (3 / real n)" by (simp add: algebra_simps add_divide_distrib)
  have "?P r out \<le> ?e * ?P r' out + 3 * (1 + ?e) / real n"
    using up[of r out] response_private(1)[OF assms(1,2), of out] e(1)[of r' out] unfolding s by (simp add: distrib_left)
  moreover have "?P r r \<le> ?e * ?P (flip_all r) r + 3 * (1 + ?e) / real n"
    using up[of r r] response_private(2)[OF assms(1,2)] e(1)[of "flip_all r" r] unfolding s by (simp add: distrib_left)
  moreover have "?e * ?P (flip_all r) r \<le> ?P r r + 3 * (1 + ?e) / real n"
    using lo[of r r] response_private(2)[OF assms(1,2)] e(2)[of "flip_all r" r] unfolding s by (simp add: distrib_left)
  ultimately show ?thesis by (simp add: abs_le_iff)
qed

definition demo_report :: "bool \<Rightarrow> Report" where
  "demo_report b = \<lparr>Query = ''q'', rep_Doc = \<lparr>Segment = 1, Local = 2\<rparr>, rep_Outcome = \<lparr>Good = b, LastLongest = b, Pogo = False\<rparr>\<rparr>"

theorem Privatize_private_witness:
  "key_of (demo_report True) = key_of (demo_report False) \<and>
   report_prob (2 ^ 53) 1 (demo_report True) (demo_report True) \<le>
     exp (3 * 1) * report_prob (2 ^ 53) 1 (demo_report False) (demo_report True) + 3 * (1 + exp (3 * 1)) / real (2 ^ 53)"
proof -
  have k: "key_of (demo_report True) = key_of (demo_report False)" by (simp add: key_of_def demo_report_def)
  have "(0::real) \<le> 1" "(0::nat) < 2 ^ 53" by simp_all
  from Privatize_private[OF this(1) k this(2), of "demo_report True"] k show ?thesis by blast
qed

subsection \<open>The accuracy of the aggregate\<close>

text \<open>The average over independent draws for every report of a list.\<close>

fun expect :: "nat \<Rightarrow> real \<Rightarrow> Report list \<Rightarrow> (Report list \<Rightarrow> real) \<Rightarrow> real" where
  "expect n eps [] f = f []"
| "expect n eps (r # rs) f = expect3 n (\<lambda>d. expect n eps rs (\<lambda>rs'. f (Privatize r eps d # rs')))"

definition noise_avg :: "real \<Rightarrow> Report \<Rightarrow> (Report \<Rightarrow> real) \<Rightarrow> real" where
  "noise_avg q r f = bern q (\<lambda>a. bern q (\<lambda>b. bern q (\<lambda>c. f (noised r a b c))))"

lemma expect_Cons:
  assumes "0 < n"
  shows "expect n eps (r # rs) f = noise_avg (keep_share n eps) r (\<lambda>x. expect n eps rs (\<lambda>rs'. f (x # rs')))"
  using expect3_Privatize[OF assms, of "\<lambda>x. expect n eps rs (\<lambda>rs'. f (x # rs'))" r eps] by (simp add: noise_avg_def)

lemma noise_avg_add: "noise_avg q r (\<lambda>x. f x + g x) = noise_avg q r f + noise_avg q r g"
  by (simp add: noise_avg_def bern_def algebra_simps)

lemma noise_avg_scale: "noise_avg q r (\<lambda>x. c * f x) = c * noise_avg q r f"
  by (simp add: noise_avg_def bern_def algebra_simps)

lemma noise_avg_const: "noise_avg q r (\<lambda>x. c) = c"
  by (simp add: noise_avg_def bern_def algebra_simps)

lemma noise_avg_mono:
  assumes "0 \<le> q" "q \<le> 1" "\<And>x. key_of x = key_of r \<Longrightarrow> f x \<le> g x"
  shows "noise_avg q r f \<le> noise_avg q r g"
  unfolding noise_avg_def bern_def using assms by (intro add_mono mult_left_mono) simp_all

lemma expect_add: "0 < n \<Longrightarrow> expect n eps rs (\<lambda>x. f x + g x) = expect n eps rs f + expect n eps rs g"
  by (induction rs arbitrary: f g) (simp_all add: expect_Cons noise_avg_add del: expect.simps(2))

lemma expect_scale: "0 < n \<Longrightarrow> expect n eps rs (\<lambda>x. c * f x) = c * expect n eps rs f"
  by (induction rs arbitrary: f) (simp_all add: expect_Cons noise_avg_scale del: expect.simps(2))

lemma expect_const: "0 < n \<Longrightarrow> expect n eps rs (\<lambda>x. c) = c"
  by (induction rs) (simp_all add: expect_Cons noise_avg_const del: expect.simps(2))

lemma expect_mono:
  "0 < n \<Longrightarrow> (\<And>x. map key_of x = map key_of rs \<Longrightarrow> f x \<le> g x) \<Longrightarrow> expect n eps rs f \<le> expect n eps rs g"
proof (induction rs arbitrary: f g)
  case (Cons r rs)
  show ?case unfolding expect_Cons[OF Cons.prems(1)]
    by (rule noise_avg_mono[OF keep_share_bounds(3,4)[OF Cons.prems(1)]]) (intro Cons.IH Cons.prems, simp)
qed simp

lemma expect_cong: "0 < n \<Longrightarrow> (\<And>x. map key_of x = map key_of rs \<Longrightarrow> f x = g x) \<Longrightarrow> expect n eps rs f = expect n eps rs g"
  by (intro antisym expect_mono) simp_all

definition tallied :: "(Outcome \<Rightarrow> bool) \<Rightarrow> key \<Rightarrow> Report list \<Rightarrow> nat" where
  "tallied S k rs = length (filter (\<lambda>r. key_of r = k \<and> S (rep_Outcome r)) rs)"

definition reports_on :: "key \<Rightarrow> Report list \<Rightarrow> nat" where
  "reports_on k rs = length (filter (\<lambda>r. key_of r = k) rs)"

lemma tallied_le: "tallied S k rs \<le> reports_on k rs"
  by (induction rs) (auto simp: tallied_def reports_on_def)

lemma reports_on_keys: "map key_of xs = map key_of rs \<Longrightarrow> reports_on k xs = reports_on k rs"
proof -
  have "reports_on k ys = length (filter (\<lambda>k'. k' = k) (map key_of ys))" for ys
    by (simp add: reports_on_def filter_map comp_def)
  from this[of xs] this[of rs] show "map key_of xs = map key_of rs \<Longrightarrow> reports_on k xs = reports_on k rs" by (simp only:)
qed

definition observe_all :: "Report list \<Rightarrow> Aggregator \<Rightarrow> Aggregator" where
  "observe_all rs a = foldl (\<lambda>a r. Observe r a) a rs"

lemma tally_observe_all:
  "tally (observe_all rs (NewAggregator eps)) k =
     (if reports_on k rs = 0 then None
      else Some \<lparr>c_good = int (tallied Good k rs), c_lastLongest = int (tallied LastLongest k rs), c_pogo = int (tallied Pogo k rs),
                c_n = int (reports_on k rs)\<rparr>) \<and>
   epsilon (observe_all rs (NewAggregator eps)) = eps"
proof (induction rs rule: rev_induct)
  case (snoc r rs)
  have z: "tallied S k rs = 0" if "reports_on k rs = 0" for S using tallied_le[of S k rs] that by simp
  from snoc show ?case
    by (cases "reports_on k rs = 0")
      (auto simp: observe_all_def Observe_def Let_def zero_counts_def z[unfolded tallied_def reports_on_def] tallied_def reports_on_def)
qed (simp add: observe_all_def NewAggregator_def reports_on_def)

text \<open>One noised bit: its mean and its variance.\<close>

definition bit_of :: "(Outcome \<Rightarrow> bool) \<Rightarrow> key \<Rightarrow> Report \<Rightarrow> real" where
  "bit_of S k r = of_bool (key_of r = k \<and> S (rep_Outcome r))"

definition bit_mean :: "real \<Rightarrow> (Outcome \<Rightarrow> bool) \<Rightarrow> key \<Rightarrow> Report \<Rightarrow> real" where
  "bit_mean q S k r = (if key_of r = k then (if S (rep_Outcome r) then q else 1 - q) else 0)"

lemma noise_avg_bit:
  assumes "S \<in> {Good, LastLongest, Pogo}"
  shows "noise_avg q r (bit_of S k) = bit_mean q S k r"
    and "noise_avg q r (\<lambda>x. (bit_of S k x - bit_mean q S k r)\<^sup>2) = (if key_of r = k then q * (1 - q) else 0)"
proof -
  from assms consider "S = Good" | "S = LastLongest" | "S = Pogo" by blast
  then have "noise_avg q r (\<lambda>x. f (bit_of S k x)) =
      (if key_of r = k then (if S (rep_Outcome r) then q * f 1 + (1 - q) * f 0 else (1 - q) * f 1 + q * f 0) else f 0)" for f
    by cases (simp_all add: noise_avg_def bern_def bit_of_def noised_def key_of_def algebra_simps)
  note this[of "\<lambda>x. x"] this[of "\<lambda>x. (x - bit_mean q S k r)\<^sup>2"]
  then show "noise_avg q r (bit_of S k) = bit_mean q S k r"
    "noise_avg q r (\<lambda>x. (bit_of S k x - bit_mean q S k r)\<^sup>2) = (if key_of r = k then q * (1 - q) else 0)"
    by (simp_all add: bit_mean_def power2_eq_square algebra_simps)
qed

lemma tallied_Cons: "real (tallied S k (x # xs)) = bit_of S k x + real (tallied S k xs)"
  by (simp add: tallied_def bit_of_def)

definition tally_mean :: "real \<Rightarrow> (Outcome \<Rightarrow> bool) \<Rightarrow> key \<Rightarrow> Report list \<Rightarrow> real" where
  "tally_mean q S k rs = (1 - q) * real (reports_on k rs) + (2 * q - 1) * real (tallied S k rs)"

lemma expect_tallied:
  fixes eps :: real
  assumes "0 < n" "S \<in> {Good, LastLongest, Pogo}"
  defines "q \<equiv> keep_share n eps"
  shows "expect n eps rs (\<lambda>x. real (tallied S k x)) = tally_mean q S k rs"
    and "expect n eps rs (\<lambda>x. (real (tallied S k x) - tally_mean q S k rs)\<^sup>2) = real (reports_on k rs) * (q * (1 - q))"
proof (induction rs)
  case Nil
  show "expect n eps [] (\<lambda>x. real (tallied S k x)) = tally_mean q S k []" "expect n eps [] (\<lambda>x. (real (tallied S k x) - tally_mean q S k [])\<^sup>2) = real (reports_on k []) * (q * (1 - q))"
    by (simp_all add: tally_mean_def tallied_def reports_on_def)
next
  case (Cons r rs)
  note bit = noise_avg_bit[OF assms(2), of q r k] and step = expect_Cons[OF assms(1), where eps = eps, folded q_def]
  have m: "tally_mean q S k (r # rs) = bit_mean q S k r + tally_mean q S k rs"
    by (simp add: tally_mean_def tallied_Cons reports_on_def bit_mean_def bit_of_def algebra_simps)
  have "expect n eps (r # rs) (\<lambda>x. real (tallied S k x)) = noise_avg q r (\<lambda>x. bit_of S k x + tally_mean q S k rs)"
    unfolding step tallied_Cons expect_add[OF assms(1)] expect_const[OF assms(1)] Cons.IH(1) ..
  then show "expect n eps (r # rs) (\<lambda>x. real (tallied S k x)) = tally_mean q S k (r # rs)"
    by (simp add: m noise_avg_add noise_avg_const bit(1))
  have sq: "(bit_of S k x + real (tallied S k xs) - tally_mean q S k (r # rs))\<^sup>2 =
      (bit_of S k x - bit_mean q S k r)\<^sup>2 + (2 * (bit_of S k x - bit_mean q S k r) * (real (tallied S k xs) + - tally_mean q S k rs) +
       (real (tallied S k xs) - tally_mean q S k rs)\<^sup>2)" for x xs
    by (simp add: m power2_eq_square algebra_simps)
  have "expect n eps (r # rs) (\<lambda>x. (real (tallied S k x) - tally_mean q S k (r # rs))\<^sup>2) =
      noise_avg q r (\<lambda>x. (bit_of S k x - bit_mean q S k r)\<^sup>2 + real (reports_on k rs) * (q * (1 - q)))"
    unfolding step tallied_Cons sq expect_add[OF assms(1)] expect_const[OF assms(1)] expect_scale[OF assms(1)] Cons.IH by simp
  then show "expect n eps (r # rs) (\<lambda>x. (real (tallied S k x) - tally_mean q S k (r # rs))\<^sup>2) = real (reports_on k (r # rs)) * (q * (1 - q))"
    unfolding noise_avg_add noise_avg_const bit(2) by (simp add: reports_on_def algebra_simps del: expect.simps)
qed

text \<open>The estimate before the clamp at zero: its mean and its mean squared error.\<close>

definition estimate :: "real \<Rightarrow> real \<Rightarrow> real \<Rightarrow> real" where
  "estimate eps x c = (x - (1 - keepProb eps) * c) / (2 * keepProb eps - 1)"

lemma expect_estimate:
  fixes eps :: real and rs :: "Report list" and k :: key and S :: "Outcome \<Rightarrow> bool"
  assumes "0 < n" "0 < eps" "S \<in> {Good, LastLongest, Pogo}"
  defines "N \<equiv> real (reports_on k rs)" and "T \<equiv> real (tallied S k rs)" and "slope \<equiv> 2 * keepProb eps - 1"
  shows "T - N / real n / slope \<le> expect n eps rs (\<lambda>x. estimate eps (real (tallied S k x)) N)"
    and "expect n eps rs (\<lambda>x. (estimate eps (real (tallied S k x)) N - T)\<^sup>2) \<le> (N / 4 + (N / real n)\<^sup>2) / slope\<^sup>2"
proof -
  let ?p = "keepProb eps" and ?q = "keep_share n eps" and ?X = "\<lambda>x. real (tallied S k x)"
  let ?m = "tally_mean ?q S k rs" and ?b = "(?q - ?p) * (2 * T - N)"
  note E = expect_add[OF assms(1)] expect_scale[OF assms(1)] expect_const[OF assms(1)]
  note X = expect_tallied[OF assms(1,3), of eps rs k]
  note q = keep_share_bounds[OF assms(1), of eps]
  have sl: "0 < slope" using keepProb_bounds(4)[OF assms(2)] by (simp add: slope_def)
  have NT: "0 \<le> N" "0 \<le> T" "T \<le> N" using tallied_le[of S k rs] by (simp_all add: N_def T_def)
  have m: "?m = (1 - ?p) * N + slope * T + ?b" by (simp add: tally_mean_def N_def T_def slope_def algebra_simps)
  have e: "estimate eps x N = T + (?b + 1 * (x - ?m)) / slope" for x
  proof -
    have "x - (1 - ?p) * N = slope * T + (?b + 1 * (x - ?m))" unfolding m by simp
    then show ?thesis unfolding estimate_def slope_def[symmetric] using sl by (simp only: add_divide_distrib) simp
  qed
  have "\<bar>?b\<bar> = (?q - ?p) * \<bar>2 * T - N\<bar>" using q(1) by (simp add: abs_mult)
  also have "\<dots> \<le> (1 / real n) * N" using q(1,2) NT by (intro mult_mono) (simp_all add: abs_le_iff)
  finally have b: "\<bar>?b\<bar> \<le> N / real n" by simp
  have X0: "expect n eps rs (\<lambda>x. ?X x + - ?m) = 0" unfolding E X(1) by simp
  have "expect n eps rs (\<lambda>x. estimate eps (?X x) N) = expect n eps rs (\<lambda>x. (T + ?b / slope) + 1 / slope * (?X x + - ?m))"
    unfolding e by (simp add: add_divide_distrib add.assoc)
  also have "\<dots> = T + ?b / slope" unfolding E(1)[of _ _ "\<lambda>x. T + ?b / slope"] E(2)[of _ _ "1 / slope"] E(3) X0 by simp
  finally have "expect n eps rs (\<lambda>x. estimate eps (?X x) N) = T + ?b / slope" .
  moreover have "- (N / real n) / slope \<le> ?b / slope" using b sl by (intro divide_right_mono) (simp_all only: abs_le_iff, linarith)
  then have "- (N / real n / slope) \<le> ?b / slope" by (simp only: minus_divide_left)
  ultimately show "T - N / real n / slope \<le> expect n eps rs (\<lambda>x. estimate eps (?X x) N)" by linarith
  have sq: "(estimate eps x N - T)\<^sup>2 = 1 / slope\<^sup>2 * (?b\<^sup>2 + (2 * ?b * (x + - ?m) + (x - ?m)\<^sup>2))" for x
    unfolding e by (simp add: power_divide power2_sum)
  have "expect n eps rs (\<lambda>x. (estimate eps (?X x) N - T)\<^sup>2) = 1 / slope\<^sup>2 * (?b\<^sup>2 + N * (?q * (1 - ?q)))"
    unfolding sq E(2)[of _ _ "1 / slope\<^sup>2"] E(1)[of _ _ "\<lambda>x. ?b\<^sup>2"] E(3) E(1)[of _ _ "\<lambda>x. 2 * ?b * (?X x + - ?m)"]
      E(2)[of _ _ "2 * ?b"] X0 X(2)[folded N_def] by simp
  moreover have "?b\<^sup>2 \<le> (N / real n)\<^sup>2" using b by (simp add: abs_le_square_iff[symmetric] NT)
  moreover have "N * (?q * (1 - ?q)) \<le> N * (1 / 4)"
  proof (rule mult_left_mono[OF _ NT(1)])
    have "0 \<le> (?q - 1 / 2)\<^sup>2" by simp
    then show "?q * (1 - ?q) \<le> 1 / 4" by (simp add: power2_eq_square algebra_simps)
  qed
  ultimately show "expect n eps rs (\<lambda>x. (estimate eps (?X x) N - T)\<^sup>2) \<le> (N / 4 + (N / real n)\<^sup>2) / slope\<^sup>2"
    using sl by (simp add: divide_right_mono)
qed

text \<open>C34: How accurate the published counts are. Take any reports on which honest clients use the aggregator's \<open>epsilon\<close>, and
  write \<open>N\<close> for their number on a query and document and \<open>T\<close> for the number among them whose true bit is set. \<open>Stats\<close> always returns
  \<open>N\<close> as its report count. For each of the three signals the mean squared distance between the count that \<open>Stats\<close> returns and \<open>T\<close> is at
  most \<open>N / 4\<close>, plus the generator's resolution \<open>(N / n)^2\<close>, over the square of \<open>2 p - 1\<close>: the error grows with the root of the
  number of reports, so the relative error vanishes. In expectation the count is at least \<open>T\<close>, up to the resolution.\<close>

theorem Stats_expectation:
  assumes "0 < eps" "0 < n"
  shows "let N = real (reports_on (q, d) rs); slope = 2 * keepProb eps - 1;
      stats = (\<lambda>rs'. Aggregator_Stats (observe_all rs' (NewAggregator eps)) q d)
    in expect n eps rs (\<lambda>rs'. (real_of_int (Reports (stats rs')) - N)\<^sup>2) = 0 \<and>
      list_all (\<lambda>(clicks, bit).
        expect n eps rs (\<lambda>rs'. (clicks (stats rs') - real (tallied bit (q, d) rs))\<^sup>2) \<le> (N / 4 + (N / real n)\<^sup>2) / slope\<^sup>2 \<and>
        real (tallied bit (q, d) rs) - N / real n / slope \<le> expect n eps rs (\<lambda>rs'. clicks (stats rs')))
      [(GoodClicks, Good), (LastLongestClick, LastLongest), (PogoClicks, Pogo)]"
proof -
  let ?N = "real (reports_on (q, d) rs)" and ?slope = "2 * keepProb eps - 1"
  let ?stats = "\<lambda>rs'. Aggregator_Stats (observe_all rs' (NewAggregator eps)) q d"
  have reports: "expect n eps rs (\<lambda>rs'. (real_of_int (Reports (?stats rs')) - ?N)\<^sup>2) = expect n eps rs (\<lambda>x. 0)"
    by (rule expect_cong[OF assms(2)])
      (auto dest!: reports_on_keys[where k = "(q, d)"] simp: Aggregator_Stats_def Let_def tally_observe_all)
  have signal: "expect n eps rs (\<lambda>rs'. (clicks (?stats rs') - real (tallied S (q, d) rs))\<^sup>2) \<le> (?N / 4 + (?N / real n)\<^sup>2) / ?slope\<^sup>2 \<and>
      real (tallied S (q, d) rs) - ?N / real n / ?slope \<le> expect n eps rs (\<lambda>rs'. clicks (?stats rs'))"
    if S: "S \<in> {Good, LastLongest, Pogo}"
      and clicks: "\<And>rs'. clicks (?stats rs') = (if reports_on (q, d) rs' = 0 then 0
        else debias (observe_all rs' (NewAggregator eps)) (int (tallied S (q, d) rs')) (int (reports_on (q, d) rs')))"
    for S and clicks :: "Stats \<Rightarrow> real"
  proof -
    have c: "clicks (?stats x) = max (estimate eps (real (tallied S (q, d) x)) ?N) 0" if "map key_of x = map key_of rs" for x
      using reports_on_keys[OF that, of "(q, d)"] tallied_le[of S "(q, d)" x]
      by (auto simp: clicks debias_def Let_def estimate_def tally_observe_all)
    have le: "(max a 0 - t)\<^sup>2 \<le> (a - t)\<^sup>2" if "0 \<le> t" for a t :: real
      unfolding abs_le_square_iff[symmetric] using that by (auto simp: max_def)
    have "expect n eps rs (\<lambda>rs'. (clicks (?stats rs') - real (tallied S (q, d) rs))\<^sup>2) \<le>
        expect n eps rs (\<lambda>x. (estimate eps (real (tallied S (q, d) x)) ?N - real (tallied S (q, d) rs))\<^sup>2)"
      by (rule expect_mono[OF assms(2)]) (simp add: c le)
    moreover have "expect n eps rs (\<lambda>x. estimate eps (real (tallied S (q, d) x)) ?N) \<le> expect n eps rs (\<lambda>rs'. clicks (?stats rs'))"
      by (rule expect_mono[OF assms(2)]) (simp add: c)
    ultimately show ?thesis using expect_estimate[OF assms(2,1) S, where k = "(q, d)" and rs = rs] by linarith
  qed
  have st: "Aggregator_Stats (observe_all rs' (NewAggregator eps)) q d =
      (if reports_on (q, d) rs' = 0 then \<lparr>GoodClicks = 0, LastLongestClick = 0, PogoClicks = 0, Reports = 0\<rparr>
       else let deb = \<lambda>S. debias (observe_all rs' (NewAggregator eps)) (int (tallied S (q, d) rs')) (int (reports_on (q, d) rs'))
            in \<lparr>GoodClicks = deb Good, LastLongestClick = deb LastLongest, PogoClicks = deb Pogo, Reports = int (reports_on (q, d) rs')\<rparr>)" for rs'
    by (simp add: Aggregator_Stats_def Let_def tally_observe_all)
  have "expect n eps rs (\<lambda>rs'. (real_of_int (Reports (?stats rs')) - ?N)\<^sup>2) = 0" using reports expect_const[OF assms(2)] by simp
  moreover have "GoodClicks (?stats rs') = (if reports_on (q, d) rs' = 0 then 0
        else debias (observe_all rs' (NewAggregator eps)) (int (tallied Good (q, d) rs')) (int (reports_on (q, d) rs')))"
    "LastLongestClick (?stats rs') = (if reports_on (q, d) rs' = 0 then 0
        else debias (observe_all rs' (NewAggregator eps)) (int (tallied LastLongest (q, d) rs')) (int (reports_on (q, d) rs')))"
    "PogoClicks (?stats rs') = (if reports_on (q, d) rs' = 0 then 0
        else debias (observe_all rs' (NewAggregator eps)) (int (tallied Pogo (q, d) rs')) (int (reports_on (q, d) rs')))" for rs'
    by (simp_all add: st Let_def)
  note signal[of Good GoodClicks, OF _ this(1)] signal[of LastLongest LastLongestClick, OF _ this(2)] signal[of Pogo PogoClicks, OF _ this(3)]
  ultimately show ?thesis by (simp only: Let_def list.pred_inject prod.case insert_iff simp_thms)
qed

theorem Stats_expectation_witness:
  "expect (2 ^ 53) 1 [demo_report True, demo_report True]
     (\<lambda>rs'. (GoodClicks (Aggregator_Stats (observe_all rs' (NewAggregator 1)) ''q'' \<lparr>Segment = 1, Local = 2\<rparr>) - 2)\<^sup>2)
   \<le> (2 / 4 + (2 / real (2 ^ 53))\<^sup>2) / (2 * keepProb 1 - 1)\<^sup>2"
proof -
  have "reports_on (''q'', \<lparr>Segment = 1, Local = 2\<rparr>) [demo_report True, demo_report True] = 2"
    "tallied Good (''q'', \<lparr>Segment = 1, Local = 2\<rparr>) [demo_report True, demo_report True] = 2"
    by (simp_all add: reports_on_def tallied_def key_of_def demo_report_def)
  moreover have "(0::real) < 1" "(0::nat) < 2 ^ 53" by simp_all
  note Stats_expectation[OF this, of "''q''" "\<lparr>Segment = 1, Local = 2\<rparr>" "[demo_report True, demo_report True]"]
  ultimately show ?thesis by (simp add: Let_def)
qed

text \<open>The clamp biases the published value: one report of an unclicked document has expected clicks above zero.\<close>

lemma Stats_biased:
  assumes "0 < eps" "0 < n" "keep_share n eps < 1"
  shows "0 < expect n eps [\<lparr>Query = q, rep_Doc = d, rep_Outcome = no_outcome\<rparr>]
    (\<lambda>rs'. GoodClicks (Aggregator_Stats (observe_all rs' (NewAggregator eps)) q d))"
proof -
  have p: "keepProb eps < 1" "1 / 2 < keepProb eps" using keepProb_bounds[of eps] assms(1) by simp_all
  have b: "debias \<lparr>epsilon = eps, tally = t\<rparr> 0 1 = 0" "debias \<lparr>epsilon = eps, tally = t\<rparr> 1 1 > 0" for t
    using p by (simp_all add: debias_def Let_def max_def field_simps)
  have q: "0 < keep_share n eps" using keep_share_bounds(1)[OF assms(2), of eps] p by linarith
  show ?thesis unfolding expect_Cons[OF assms(2)] noise_avg_def bern_def
    using assms(3) q
    by (simp add: noised_def no_outcome_def observe_all_def Observe_def NewAggregator_def Aggregator_Stats_def zero_counts_def key_of_def b Let_def)
      (intro mult_pos_pos add_pos_pos b(2); simp)
qed

end
