(* ===== verification/PageRank.thy ===== *)
theory PageRank
  imports Prelude Complex_Main
begin

text \<open>
  \<open>rank/graph\<close>: the link graph, PageRank by power iteration, and its seeded variants. \<open>float32\<close> arithmetic is over
  the reals; vertex ids are naturals, below the \<open>2^31\<close> an \<open>int32\<close> can name. A run-time panic is \<open>None\<close>: \<open>AddEdge\<close>
  of a missing source, an edge to a missing vertex when messages are pushed along it, a teleport vector that is too short.
\<close>

subsection \<open>The graph\<close>

type_synonym Graph = "nat list list"

definition New :: "nat \<Rightarrow> Graph" where "New n = replicate n []"

definition NumVertices :: "Graph \<Rightarrow> nat" where "NumVertices g = length g"

definition AddEdge :: "nat \<Rightarrow> nat \<Rightarrow> Graph \<Rightarrow> Graph option" where
  "AddEdge from to g = (if from < length g then Some (g[from := g ! from @ [to]]) else None)"

definition OutDegree :: "Graph \<Rightarrow> nat \<Rightarrow> nat" where "OutDegree g v = length (g ! v)"

definition in_range :: "Graph \<Rightarrow> bool" where
  "in_range g = list_all (list_all (\<lambda>u. u < length g)) g"

definition reverse_from :: "Graph \<Rightarrow> Graph \<Rightarrow> nat \<Rightarrow> Graph" where
  "reverse_from g r from = foldl (\<lambda>r to. r[to := r ! to @ [from]]) r (g ! from)"

definition Reverse :: "Graph \<Rightarrow> Graph option" where
  "Reverse g = (if in_range g then Some (foldl (reverse_from g) (New (length g)) [0..<length g]) else None)"

subsection \<open>Power iteration\<close>

definition DefaultDamping :: real where "DefaultDamping = 85 / 100"

record Config =
  Damping :: real
  Tolerance :: real
  MaxSupersteps :: int
  Teleport :: "real list option"

definition withDefaults :: "Config \<Rightarrow> nat \<Rightarrow> Config" where
  "withDefaults c n =
     (let c = (if Damping c \<le> 0 then c\<lparr>Damping := DefaultDamping\<rparr> else c);
          c = (if Tolerance c \<le> 0 then c\<lparr>Tolerance := 1 / 1000000\<rparr> else c);
          c = (if MaxSupersteps c \<le> 0 then c\<lparr>MaxSupersteps := 100\<rparr> else c)
      in if Teleport c = None then c\<lparr>Teleport := Some (replicate n (1 / real n))\<rparr> else c)"

record Stats =
  Supersteps :: int
  Residual :: real
  Converged :: bool

text \<open>The push phase: the combiner's sums and the dangling mass.\<close>

definition push :: "Graph \<Rightarrow> real list \<Rightarrow> real list \<times> real \<Rightarrow> nat \<Rightarrow> real list \<times> real" where
  "push g rank st v =
     (case st of (msg, dangling) \<Rightarrow>
        let deg = length (g ! v)
        in if deg = 0 then (msg, dangling + rank ! v)
           else let share = rank ! v / real deg
                in (foldl (\<lambda>msg u. msg[u := msg ! u + share]) msg (g ! v), dangling))"

definition superstep :: "Graph \<Rightarrow> real \<Rightarrow> real list \<Rightarrow> real list \<Rightarrow> real list \<times> real" where
  "superstep g d teleport rank =
     (let n = length g;
          (msg, dangling) = foldl (push g rank) (replicate n 0, 0) [0..<n];
          base = 1 - d
      in foldl (\<lambda>(rank, residual) u.
           let nxt = base * teleport ! u + d * (msg ! u + dangling * teleport ! u)
           in (rank[u := nxt], residual + \<bar>nxt - rank ! u\<bar>)) (rank, 0) [0..<n])"

text \<open>\<open>k\<close> supersteps are left.\<close>

fun pr_loop :: "Graph \<Rightarrow> real \<Rightarrow> real \<Rightarrow> real list \<Rightarrow> nat \<Rightarrow> int \<Rightarrow> real list \<Rightarrow> Stats \<Rightarrow> real list \<times> Stats" where
  "pr_loop g d tol teleport 0 step rank stats = (rank, stats)"
| "pr_loop g d tol teleport (Suc k) step rank stats =
     (let (rank, residual) = superstep g d teleport rank;
          stats = stats\<lparr>Supersteps := step, Residual := residual\<rparr>
      in if residual < tol then (rank, stats\<lparr>Converged := True\<rparr>)
         else pr_loop g d tol teleport k (step + 1) rank stats)"

definition PageRank :: "Graph \<Rightarrow> Config \<Rightarrow> (real list \<times> Stats) option" where
  "PageRank g cfg =
     (let n = NumVertices g
      in if n = 0 then Some ([], \<lparr>Supersteps = 0, Residual = 0, Converged = True\<rparr>)
         else let cfg = withDefaults cfg n;
                  teleport = the (Teleport cfg)
              in if length teleport < n \<or> \<not> in_range g then None
                 else Some (pr_loop g (Damping cfg) (Tolerance cfg) teleport (nat (MaxSupersteps cfg)) 1
                        (take n teleport) \<lparr>Supersteps = 0, Residual = 0, Converged = False\<rparr>))"

text \<open>A seed out of range panics.\<close>

definition seedTeleport :: "nat \<Rightarrow> nat list \<Rightarrow> real list option" where
  "seedTeleport n seeds =
     (if length seeds = 0 then Some (replicate n (1 / real n))
      else if list_all (\<lambda>s. s < n) seeds
        then Some (foldl (\<lambda>t s. t[s := t ! s + 1 / real (length seeds)]) (replicate n 0) seeds)
      else None)"

definition TrustRank :: "Graph \<Rightarrow> nat list \<Rightarrow> Config \<Rightarrow> (real list \<times> Stats) option" where
  "TrustRank g seeds cfg =
     (case seedTeleport (NumVertices g) seeds of
        None \<Rightarrow> None
      | Some t \<Rightarrow> PageRank g (cfg\<lparr>Teleport := Some t\<rparr>))"

definition AntiTrustRank :: "Graph \<Rightarrow> nat list \<Rightarrow> Config \<Rightarrow> (real list \<times> Stats) option" where
  "AntiTrustRank g spamSeeds cfg =
     (case Reverse g of None \<Rightarrow> None | Some r \<Rightarrow> TrustRank r spamSeeds cfg)"

subsection \<open>One superstep is a stochastic step\<close>

text \<open>The share of the rank of \<open>v\<close> that goes to \<open>u\<close>.\<close>

definition flow :: "Graph \<Rightarrow> real list \<Rightarrow> nat \<Rightarrow> nat \<Rightarrow> real" where
  "flow g t v u = (if g ! v = [] then t ! u else real (count_list (g ! v) u) / real (length (g ! v)))"

definition next_rank :: "Graph \<Rightarrow> real \<Rightarrow> real list \<Rightarrow> real list \<Rightarrow> nat \<Rightarrow> real" where
  "next_rank g d t x u = (1 - d) * t ! u + d * (\<Sum>v<length g. x ! v * flow g t v u)"

lemma add_all:
  "\<forall>u \<in> set us. u < length (m :: real list) \<Longrightarrow>
     length (foldl (\<lambda>msg u. msg[u := msg ! u + s]) m us) = length m \<and>
     (\<forall>w < length m. foldl (\<lambda>msg u. msg[u := msg ! u + s]) m us ! w = m ! w + real (count_list us w) * s)"
proof (induction us arbitrary: m)
  case (Cons u us)
  from Cons.IH[of "m[u := m ! u + s]"] Cons.prems show ?case by (auto simp: nth_list_update algebra_simps)
qed simp

lemma push_phase:
  assumes "in_range g" "k \<le> length g"
  shows "\<exists>msg dang. foldl (push g x) (replicate (length g) 0, 0) [0..<k] = (msg, dang) \<and> length msg = length g \<and>
    (\<forall>u < length g. msg ! u + dang * t ! u = (\<Sum>v<k. x ! v * flow g t v u))"
  using assms(2)
proof (induction k)
  case (Suc k)
  then obtain msg dang where IH: "foldl (push g x) (replicate (length g) 0, 0) [0..<k] = (msg, dang)" "length msg = length g"
    "\<forall>u < length g. msg ! u + dang * t ! u = (\<Sum>v<k. x ! v * flow g t v u)" by auto
  have r: "\<forall>u \<in> set (g ! k). u < length msg" using assms(1) Suc.prems IH(2) by (auto simp: in_range_def list_all_iff)
  have st: "foldl (push g x) (replicate (length g) 0, 0) [0..<Suc k] = push g x (msg, dang) k" by (simp add: IH(1))
  show ?case
  proof (cases "g ! k = []")
    case True
    then have "push g x (msg, dang) k = (msg, dang + x ! k)" "\<And>u. flow g t k u = t ! u" by (simp_all add: push_def flow_def)
    then show ?thesis unfolding st using IH(2,3) by (simp add: algebra_simps)
  next
    case False
    let ?s = "x ! k / real (length (g ! k))"
    have "push g x (msg, dang) k = (foldl (\<lambda>msg u. msg[u := msg ! u + ?s]) msg (g ! k), dang)"
      "\<And>u. x ! k * flow g t k u = real (count_list (g ! k) u) * ?s" using False by (simp_all add: push_def flow_def Let_def)
    then show ?thesis unfolding st using IH(2,3) add_all[OF r, of ?s] by (simp add: algebra_simps)
  qed
qed simp

lemma compute_phase:
  fixes f :: "nat \<Rightarrow> real"
  assumes "k \<le> length x"
  shows "foldl (\<lambda>(rank, residual) u. let nxt = f u in (rank[u := nxt], residual + \<bar>nxt - rank ! u\<bar>)) (x, r) [0..<k] =
    (map f [0..<k] @ drop k x, r + (\<Sum>u<k. \<bar>f u - x ! u\<bar>))"
  using assms
proof (induction k)
  case (Suc k)
  then have "drop k x = x ! k # drop (Suc k) x" by (simp add: Cons_nth_drop_Suc)
  with Suc show ?case by (simp add: nth_append list_update_append Let_def)
qed simp

lemma superstep_eq:
  assumes "in_range g" "length x = length g"
  shows "superstep g d t x = (map (next_rank g d t x) [0..<length g], \<Sum>u<length g. \<bar>next_rank g d t x u - x ! u\<bar>)"
proof -
  obtain msg dang where p: "foldl (push g x) (replicate (length g) 0, 0) [0..<length g] = (msg, dang)"
    "\<forall>u < length g. msg ! u + dang * t ! u = (\<Sum>v<length g. x ! v * flow g t v u)"
    using push_phase[OF assms(1), of "length g" x t] by auto
  have "superstep g d t x =
      (map (\<lambda>u. (1 - d) * t ! u + d * (msg ! u + dang * t ! u)) [0..<length g],
       \<Sum>u<length g. \<bar>(1 - d) * t ! u + d * (msg ! u + dang * t ! u) - x ! u\<bar>)"
    unfolding superstep_def p(1) Let_def prod.case
    using compute_phase[of "length g" x "\<lambda>u. (1 - d) * t ! u + d * (msg ! u + dang * t ! u)" 0] assms(2)
    by (simp add: Let_def)
  then show ?thesis using p(2) by (simp add: next_rank_def)
qed


subsection \<open>Mass and contraction\<close>

definition distribution :: "nat \<Rightarrow> real list \<Rightarrow> bool" where
  "distribution n x \<longleftrightarrow> length x = n \<and> list_all (\<lambda>p. 0 \<le> p) x \<and> (\<Sum>i<n. x ! i) = 1"

lemma distribution_nonneg: "distribution n x \<Longrightarrow> i < n \<Longrightarrow> 0 \<le> x ! i"
  by (simp add: distribution_def list_all_length)

lemma sum_count_list:
  fixes n :: nat
  shows "\<forall>u \<in> set us. u < n \<Longrightarrow> (\<Sum>u<n. real (count_list us u)) = real (length us)"
proof (induction us)
  case (Cons a us)
  have "real (count_list (a # us) u) = (if a = u then 1 else 0) + real (count_list us u)" for u by simp
  moreover have "(\<Sum>u<n. if a = u then 1 else 0 :: real) = 1" using Cons.prems by (subst sum.delta') auto
  ultimately show ?case using Cons by (simp add: sum.distrib del: count_list.simps)
qed simp

lemma flow_stochastic:
  assumes "in_range g" "distribution (length g) t" "v < length g"
  shows "(\<Sum>u<length g. flow g t v u) = 1" "u < length g \<Longrightarrow> 0 \<le> flow g t v u"
proof -
  have "\<forall>u \<in> set (g ! v). u < length g" using assms(1,3) by (auto simp: in_range_def list_all_iff)
  from sum_count_list[OF this] show "(\<Sum>u<length g. flow g t v u) = 1"
    using assms(2) by (cases "g ! v = []") (simp_all add: flow_def distribution_def flip: sum_divide_distrib)
  show "u < length g \<Longrightarrow> 0 \<le> flow g t v u" using assms(2) by (simp add: flow_def distribution_nonneg)
qed

lemma flow_sum:
  assumes "in_range g" "distribution (length g) t"
  shows "(\<Sum>u<length g. \<Sum>v<length g. y v * flow g t v u) = (\<Sum>v<length g. y v)"
proof -
  have "(\<Sum>u<length g. \<Sum>v<length g. y v * flow g t v u) = (\<Sum>v<length g. \<Sum>u<length g. y v * flow g t v u)"
    by (rule sum.swap)
  also have "\<dots> = (\<Sum>v<length g. y v * (\<Sum>u<length g. flow g t v u))" by (simp add: sum_distrib_left)
  finally show ?thesis using flow_stochastic(1)[OF assms] by simp
qed

lemma next_distribution:
  assumes "in_range g" "distribution (length g) t" "distribution (length g) x" "0 \<le> d" "d \<le> 1"
  shows "distribution (length g) (map (next_rank g d t x) [0..<length g])"
proof -
  have "0 \<le> next_rank g d t x u" if "u < length g" for u
    using that assms(4,5) distribution_nonneg[OF assms(2)] distribution_nonneg[OF assms(3)] flow_stochastic(2)[OF assms(1,2)]
    unfolding next_rank_def by (intro add_nonneg_nonneg mult_nonneg_nonneg sum_nonneg) auto
  moreover have "(\<Sum>u<length g. next_rank g d t x u) = 1"
  proof -
    have "(\<Sum>u<length g. next_rank g d t x u) = (1 - d) * (\<Sum>u<length g. t ! u) + d * (\<Sum>u<length g. \<Sum>v<length g. x ! v * flow g t v u)"
      unfolding next_rank_def by (simp add: sum.distrib sum_distrib_left)
    then show ?thesis using assms(2,3) unfolding flow_sum[OF assms(1,2)] by (simp add: distribution_def)
  qed
  ultimately show ?thesis by (simp add: distribution_def list_all_length)
qed

definition dist1 :: "nat \<Rightarrow> real list \<Rightarrow> real list \<Rightarrow> real" where
  "dist1 n x y = (\<Sum>i<n. \<bar>x ! i - y ! i\<bar>)"

lemma dist1_triangle: "dist1 n x z \<le> dist1 n x y + dist1 n y z"
  unfolding dist1_def sum.distrib[symmetric] by (rule sum_mono) linarith

lemma dist1_le_2: "distribution n x \<Longrightarrow> distribution n y \<Longrightarrow> dist1 n x y \<le> 2"
proof -
  assume a: "distribution n x" "distribution n y"
  have "dist1 n x y \<le> (\<Sum>i<n. x ! i + y ! i)" unfolding dist1_def
    by (rule sum_mono) (use distribution_nonneg[OF a(1)] distribution_nonneg[OF a(2)] in \<open>force simp: abs_le_iff\<close>)
  then show ?thesis using a by (simp add: distribution_def sum.distrib)
qed

lemma contraction:
  assumes "in_range g" "distribution (length g) t" "0 \<le> d"
  shows "dist1 (length g) (map (next_rank g d t x) [0..<length g]) (map (next_rank g d t y) [0..<length g]) \<le> d * dist1 (length g) x y"
proof -
  have "\<bar>next_rank g d t x u - next_rank g d t y u\<bar> \<le> d * (\<Sum>v<length g. \<bar>x ! v - y ! v\<bar> * flow g t v u)" if "u < length g" for u
  proof -
    have "next_rank g d t x u - next_rank g d t y u = d * (\<Sum>v<length g. (x ! v - y ! v) * flow g t v u)"
      by (simp add: next_rank_def algebra_simps sum_subtractf)
    also have "\<bar>\<dots>\<bar> \<le> d * (\<Sum>v<length g. \<bar>(x ! v - y ! v) * flow g t v u\<bar>)"
      unfolding abs_mult[of d] using assms(3) sum_abs[of "\<lambda>v. (x ! v - y ! v) * flow g t v u" "{..<length g}"]
      by (simp add: mult_left_mono)
    finally show ?thesis using flow_stochastic(2)[OF assms(1,2)] that by (simp add: abs_mult)
  qed
  then have "dist1 (length g) (map (next_rank g d t x) [0..<length g]) (map (next_rank g d t y) [0..<length g]) \<le>
      (\<Sum>u<length g. d * (\<Sum>v<length g. \<bar>x ! v - y ! v\<bar> * flow g t v u))"
    unfolding dist1_def by (intro sum_mono) simp
  also have "\<dots> = d * (\<Sum>u<length g. \<Sum>v<length g. \<bar>x ! v - y ! v\<bar> * flow g t v u)" by (simp only: sum_distrib_left)
  finally show ?thesis unfolding flow_sum[OF assms(1,2)] dist1_def .
qed


subsection \<open>Convergence\<close>

definition step_of :: "Graph \<Rightarrow> real \<Rightarrow> real list \<Rightarrow> real list \<Rightarrow> real list" where
  "step_of g d t x = map (next_rank g d t x) [0..<length g]"

lemma length_step_of [simp]: "length (step_of g d t x) = length g"
  by (simp add: step_of_def)

lemma step_of_nth: "u < length g \<Longrightarrow> step_of g d t x ! u = next_rank g d t x u"
  by (simp add: step_of_def)

lemma superstep_step:
  assumes "in_range g" "length x = length g"
  shows "superstep g d t x = (step_of g d t x, dist1 (length g) (step_of g d t x) x)"
  by (simp add: superstep_eq[OF assms] step_of_def dist1_def)

abbreviation power_iter :: "Graph \<Rightarrow> real \<Rightarrow> real list \<Rightarrow> nat \<Rightarrow> real list \<Rightarrow> real list" where
  "power_iter g d t s x \<equiv> (step_of g d t ^^ s) x"

lemma power_iter_length [simp]: "length x = length g \<Longrightarrow> length (power_iter g d t s x) = length g"
  by (induction s) auto

definition residual_at :: "Graph \<Rightarrow> real \<Rightarrow> real list \<Rightarrow> nat \<Rightarrow> real" where
  "residual_at g d t s = dist1 (length g) (power_iter g d t (Suc s) t) (power_iter g d t s t)"

text \<open>The loop stops at the first superstep whose residual is below the tolerance, or at the cap.\<close>

lemma pr_loop_spec:
  assumes "in_range g" "length t = length g"
  shows "\<exists>s st'. pr_loop g d tol t k (int j + 1) (power_iter g d t j t) st = (power_iter g d t s t, st') \<and> j \<le> s \<and> s \<le> j + k \<and>
    (k > 0 \<longrightarrow> Supersteps st' = int s \<and> s > 0 \<and> Residual st' = residual_at g d t (s - 1)) \<and>
    (\<not> Converged st \<longrightarrow> (Converged st' \<longleftrightarrow> (\<exists>i. j \<le> i \<and> i < j + k \<and> residual_at g d t i < tol))) \<and>
    (Converged st' \<and> \<not> Converged st \<longrightarrow> Residual st' < tol)"
proof (induction k arbitrary: j st)
  case (Suc k)
  let ?r = "residual_at g d t j"
  let ?st = "st\<lparr>Supersteps := int j + 1, Residual := ?r\<rparr>"
  have L: "pr_loop g d tol t (Suc k) (int j + 1) (power_iter g d t j t) st =
      (if ?r < tol then (power_iter g d t (Suc j) t, ?st\<lparr>Converged := True\<rparr>)
       else pr_loop g d tol t k (int (Suc j) + 1) (power_iter g d t (Suc j) t) ?st)"
    using assms by (simp add: superstep_step residual_at_def Let_def algebra_simps)
  show ?case
  proof (cases "?r < tol")
    case True
    then show ?thesis unfolding L
      by (intro exI[of _ "Suc j"] exI[of _ "?st\<lparr>Converged := True\<rparr>"]) (auto intro!: exI[of _ j])
  next
    case False
    from Suc.IH[of "Suc j" ?st] obtain s st' where IH:
      "pr_loop g d tol t k (int (Suc j) + 1) (power_iter g d t (Suc j) t) ?st = (power_iter g d t s t, st')" "Suc j \<le> s" "s \<le> Suc j + k"
      "k > 0 \<longrightarrow> Supersteps st' = int s \<and> s > 0 \<and> Residual st' = residual_at g d t (s - 1)"
      "\<not> Converged ?st \<longrightarrow> (Converged st' \<longleftrightarrow> (\<exists>i. Suc j \<le> i \<and> i < Suc j + k \<and> residual_at g d t i < tol))"
      "Converged st' \<and> \<not> Converged ?st \<longrightarrow> Residual st' < tol" by blast
    have z: "k = 0 \<Longrightarrow> s = Suc j \<and> st' = ?st" using IH(1-3) by auto
    have ex: "(\<exists>i. Suc j \<le> i \<and> i < Suc j + k \<and> residual_at g d t i < tol) \<longleftrightarrow> (\<exists>i. j \<le> i \<and> i < j + Suc k \<and> residual_at g d t i < tol)"
      using False by (metis Suc_leD add_Suc add_Suc_right le_eq_less_or_eq less_eq_Suc_le)
    have "Supersteps st' = int s \<and> s > 0 \<and> Residual st' = residual_at g d t (s - 1)"
      using IH(4) z by (cases "k = 0") auto
    then show ?thesis unfolding L using False IH(1-3,5,6) ex by (intro exI[of _ s] exI[of _ st']) auto
  qed
qed auto

lemma power_iter_distribution:
  assumes "in_range g" "distribution (length g) t" "0 \<le> d" "d \<le> 1"
  shows "distribution (length g) (power_iter g d t s t)"
  by (induction s) (auto simp: step_of_def intro: assms next_distribution)

lemma residual_geometric:
  assumes "in_range g" "distribution (length g) t" "0 \<le> d" "d \<le> 1"
  shows "residual_at g d t s \<le> 2 * d ^ Suc s"
proof (induction s)
  case 0
  have "t ! u = (1 - d) * t ! u + d * t ! u" for u by (simp add: algebra_simps)
  have n: "next_rank g d t t u - t ! u = d * ((\<Sum>v<length g. t ! v * flow g t v u) - t ! u)" for u
    by (simp add: next_rank_def algebra_simps)
  let ?p = "step_of g 1 t t"
  have p: "?p ! u = (\<Sum>v<length g. t ! v * flow g t v u)" if "u < length g" for u
    using that by (simp add: step_of_def next_rank_def)
  have "residual_at g d t 0 = d * dist1 (length g) ?p t"
    using assms(3) p by (simp add: residual_at_def dist1_def step_of_def n abs_mult sum_distrib_left del: upt.simps)
  also have "\<dots> \<le> d * 2"
    using power_iter_distribution[OF assms(1,2), of 1 1] assms(2,3) by (intro mult_left_mono dist1_le_2) auto
  finally show ?case by simp
next
  case (Suc s)
  have "residual_at g d t (Suc s) \<le> d * residual_at g d t s"
    using contraction[OF assms(1-3)] by (simp add: residual_at_def step_of_def)
  also have "\<dots> \<le> d * (2 * d ^ Suc s)" using Suc assms(3) by (intro mult_left_mono) auto
  finally show ?case by (simp add: algebra_simps)
qed

lemma mult_left_mono_trans: "0 \<le> (c::real) \<Longrightarrow> a \<le> c * x \<Longrightarrow> x \<le> y \<Longrightarrow> a \<le> c * y"
  by (meson mult_left_mono order_trans)

text \<open>Any solution of the rank equation is within a multiple of the residual.\<close>

lemma fixpoint_near:
  assumes "in_range g" "distribution (length g) t" "0 \<le> d" "d < 1" "step_of g d t z = z"
  shows "(1 - d) * dist1 (length g) (step_of g d t x) z \<le> d * dist1 (length g) (step_of g d t x) x"
proof -
  let ?y = "step_of g d t x"
  have "dist1 (length g) ?y z \<le> d * dist1 (length g) x z"
    using contraction[OF assms(1-3), of x z] assms(5) by (simp add: step_of_def)
  also have "dist1 (length g) x z \<le> dist1 (length g) ?y x + dist1 (length g) ?y z"
    using dist1_triangle[of "length g" x z ?y] by (simp add: dist1_def abs_minus_commute)
  finally (mult_left_mono_trans[OF assms(3)]) show ?thesis by (simp add: algebra_simps)
qed


definition config_ok :: "Graph \<Rightarrow> Config \<Rightarrow> bool" where
  "config_ok g cfg \<longleftrightarrow> g \<noteq> [] \<and> in_range g \<and> Damping cfg \<le> 1 \<and> (\<forall>t. Teleport cfg = Some t \<longrightarrow> distribution (length g) t)"

lemma withDefaults_sel:
  "Damping (withDefaults cfg n) = (if Damping cfg \<le> 0 then DefaultDamping else Damping cfg)"
  "Tolerance (withDefaults cfg n) = (if Tolerance cfg \<le> 0 then 1 / 1000000 else Tolerance cfg)"
  "MaxSupersteps (withDefaults cfg n) = (if MaxSupersteps cfg \<le> 0 then 100 else MaxSupersteps cfg)"
  "Teleport (withDefaults cfg n) = (case Teleport cfg of None \<Rightarrow> Some (replicate n (1 / real n)) | Some t \<Rightarrow> Some t)"
  by (auto simp: withDefaults_def Let_def split: option.splits)

lemma uniform_distribution: "0 < n \<Longrightarrow> distribution n (replicate n (1 / real n))"
  by (simp add: distribution_def list_all_iff)

lemma PageRank_run:
  assumes "config_ok g cfg"
  defines "c \<equiv> withDefaults cfg (length g)"
  shows "\<exists>t. Teleport c = Some t \<and> distribution (length g) t \<and> 0 \<le> Damping c \<and> Damping c \<le> 1 \<and>
    PageRank g cfg = Some (pr_loop g (Damping c) (Tolerance c) t (nat (MaxSupersteps c)) (int 0 + 1) (power_iter g (Damping c) t 0 t)
      \<lparr>Supersteps = 0, Residual = 0, Converged = False\<rparr>)"
proof -
  obtain t where t: "Teleport c = Some t" "distribution (length g) t"
    using assms(1) uniform_distribution[of "length g"] by (cases "Teleport cfg") (auto simp: c_def withDefaults_sel config_ok_def)
  moreover have "0 \<le> Damping c \<and> Damping c \<le> 1" using assms(1) by (auto simp: c_def withDefaults_sel config_ok_def DefaultDamping_def)
  moreover have "length t = length g" using t(2) by (simp add: distribution_def)
  moreover have "g \<noteq> []" "in_range g" using assms(1) by (simp_all add: config_ok_def)
  ultimately show ?thesis
    by (intro exI[of _ t]) (simp add: PageRank_def NumVertices_def Let_def c_def[symmetric])
qed

lemma PageRank_result:
  assumes "config_ok g cfg"
  defines "c \<equiv> withDefaults cfg (length g)"
  shows "\<exists>rank st. PageRank g cfg = Some (rank, st) \<and> distribution (length g) rank \<and>
    1 \<le> Supersteps st \<and> Supersteps st \<le> MaxSupersteps c \<and>
    Residual st \<le> 2 * Damping c ^ nat (Supersteps st) \<and>
    (Converged st \<longrightarrow> Residual st < Tolerance c) \<and>
    (2 * Damping c ^ nat (MaxSupersteps c) < Tolerance c \<longrightarrow> Converged st) \<and>
    (\<forall>z. Damping c < 1 \<and> step_of g (Damping c) (the (Teleport c)) z = z \<longrightarrow>
       (1 - Damping c) * dist1 (length g) rank z \<le> Damping c * Residual st)"
proof -
  let ?d = "Damping c" and ?m = "nat (MaxSupersteps c)"
  obtain t where t: "Teleport c = Some t" "distribution (length g) t" "0 \<le> ?d" "?d \<le> 1" and
    run: "PageRank g cfg = Some (pr_loop g ?d (Tolerance c) t ?m (int 0 + 1) (power_iter g ?d t 0 t) \<lparr>Supersteps = 0, Residual = 0, Converged = False\<rparr>)"
    using PageRank_run[OF assms(1)] unfolding c_def by blast
  have g: "in_range g" "length t = length g" using assms(1) t(2) by (simp_all add: config_ok_def distribution_def)
  have m: "0 < ?m" "0 < MaxSupersteps c" by (auto simp: c_def withDefaults_sel)
  let ?st = "\<lparr>Supersteps = 0, Residual = 0, Converged = False\<rparr>"
  obtain s st where L0: "pr_loop g ?d (Tolerance c) t ?m (int 0 + 1) (power_iter g ?d t 0 t) ?st = (power_iter g ?d t s t, st)"
      "0 \<le> s" "s \<le> 0 + ?m" "?m > 0 \<longrightarrow> Supersteps st = int s \<and> s > 0 \<and> Residual st = residual_at g ?d t (s - 1)"
      "\<not> Converged ?st \<longrightarrow> (Converged st \<longleftrightarrow> (\<exists>i. 0 \<le> i \<and> i < 0 + ?m \<and> residual_at g ?d t i < Tolerance c))"
      "Converged st \<and> \<not> Converged ?st \<longrightarrow> Residual st < Tolerance c"
    using pr_loop_spec[OF g, of ?d "Tolerance c" ?m 0 ?st] by - (elim exE conjE, rule that, assumption+)
  then have
    L: "PageRank g cfg = Some (power_iter g ?d t s t, st)" "s \<le> ?m" "Supersteps st = int s" "s > 0" "Residual st = residual_at g ?d t (s - 1)"
      "Converged st \<longleftrightarrow> (\<exists>i < ?m. residual_at g ?d t i < Tolerance c)" "Converged st \<longrightarrow> Residual st < Tolerance c"
    unfolding run using m by simp_all
  obtain j where j: "s = Suc j" using L(4) by (cases s) auto
  have "Residual st \<le> 2 * ?d ^ s" using residual_geometric[OF g(1) t(2-4), of j] L(5) j by simp
  moreover have "Converged st" if "2 * ?d ^ ?m < Tolerance c"
    using L(6) that m residual_geometric[OF g(1) t(2-4), of "?m - 1"] by (auto intro!: exI[of _ "?m - 1"])
  moreover have "(1 - ?d) * dist1 (length g) (power_iter g ?d t s t) z \<le> ?d * Residual st"
    if "?d < 1" "step_of g ?d t z = z" for z
    using fixpoint_near[OF g(1) t(2,3) that, of "power_iter g ?d t j t"] L(5) by (simp add: residual_at_def j)
  ultimately show ?thesis
    using L(1-4,7) m power_iter_distribution[OF g(1) t(2-4), of s] t(1)
    by (intro exI[of _ "power_iter g ?d t s t"] exI[of _ st]) auto
qed

text \<open>With the default configuration the run converges on every graph: \<open>2 * 0.85^100 < 10^-6\<close>.\<close>

definition default_config :: Config where
  "default_config = \<lparr>Damping = 0, Tolerance = 0, MaxSupersteps = 0, Teleport = None\<rparr>"

lemma default_power: "2 * DefaultDamping ^ 100 < 1 / 1000000"
  by (simp add: DefaultDamping_def power_divide field_simps)

lemma PageRank_default:
  assumes "g \<noteq> []" "in_range g"
  shows "\<exists>rank st. PageRank g default_config = Some (rank, st) \<and> Converged st \<and> distribution (length g) rank"
proof -
  have "config_ok g default_config" using assms by (simp add: config_ok_def default_config_def)
  moreover have "Damping (withDefaults default_config (length g)) = DefaultDamping" "MaxSupersteps (withDefaults default_config (length g)) = 100"
    "Tolerance (withDefaults default_config (length g)) = 1 / 1000000" by (simp_all add: withDefaults_sel default_config_def)
  ultimately show ?thesis using PageRank_result[of g default_config] default_power by auto
qed

text \<open>C28: PageRank converges to the stationary ranks. For a graph whose edges are in range, a damping factor of at most 1 and
  a teleport distribution, the run does not panic and returns a probability distribution. Its last residual is at most \<open>2 d^s\<close>
  after \<open>s\<close> supersteps, so the run reports convergence whenever \<open>2 d^max\<close> is below the tolerance; and every solution of the rank equation
  is within \<open>d / (1 - d)\<close> times the residual of the returned vector. The default configuration
  meets that bound, so it converges on every graph.\<close>

theorem PageRank_converges:
  assumes "config_ok g cfg"
  defines "c \<equiv> withDefaults cfg (length g)"
  shows "(\<exists>rank st. PageRank g cfg = Some (rank, st) \<and> distribution (length g) rank \<and>
    1 \<le> Supersteps st \<and> Supersteps st \<le> MaxSupersteps c \<and>
    Residual st \<le> 2 * Damping c ^ nat (Supersteps st) \<and>
    (Converged st \<longrightarrow> Residual st < Tolerance c) \<and>
    (2 * Damping c ^ nat (MaxSupersteps c) < Tolerance c \<longrightarrow> Converged st) \<and>
    (\<forall>z. Damping c < 1 \<and> step_of g (Damping c) (the (Teleport c)) z = z \<longrightarrow>
       (1 - Damping c) * dist1 (length g) rank z \<le> Damping c * Residual st)) \<and>
   (\<exists>rank st. PageRank g default_config = Some (rank, st) \<and> Converged st \<and> distribution (length g) rank)"
  using PageRank_result[OF assms(1)] PageRank_default[of g] assms(1) unfolding c_def by (simp add: config_ok_def)

theorem PageRank_converges_witness:
  "config_ok [[1], [0]] default_config \<and>
   (\<exists>rank st. PageRank [[1], [0]] default_config = Some (rank, st) \<and> Converged st \<and> distribution 2 rank)"
proof -
  have "config_ok [[1], [0]] default_config" by (simp add: config_ok_def default_config_def in_range_def)
  with PageRank_converges[of "[[1], [0]]" default_config] show ?thesis by (simp add: numeral_2_eq_2)
qed

subsection \<open>Trust follows links\<close>

definition links :: "Graph \<Rightarrow> (nat \<times> nat) set" where
  "links g = {(v, u). v < length g \<and> u \<in> set (g ! v)}"

lemma power_iter_support:
  assumes "\<forall>u < length g. u \<notin> R \<longrightarrow> t ! u = 0" "\<forall>(v, u) \<in> links g. v \<in> R \<longrightarrow> u \<in> R" "length t = length g"
  shows "\<forall>u < length g. u \<notin> R \<longrightarrow> power_iter g d t s t ! u = 0"
proof (induction s)
  case (Suc s)
  have "power_iter g d t s t ! v * flow g t v u = 0" if "v < length g" "u < length g" "u \<notin> R" for u v
  proof (cases "v \<in> R")
    case True
    then have "u \<notin> set (g ! v)" using assms(2) that by (auto simp: links_def)
    then show ?thesis using assms(1) that by (simp add: flow_def)
  qed (use Suc that in simp)
  then have "(\<Sum>v<length g. power_iter g d t s t ! v * flow g t v u) = 0" if "u < length g" "u \<notin> R" for u
    using that by (intro sum.neutral) simp
  then show ?case using assms(1) by (simp add: step_of_nth next_rank_def)
qed (use assms in auto)

lemma seed_vector:
  assumes "\<forall>s \<in> set seeds. s < n"
  shows "length (foldl (\<lambda>t s. t[s := t ! s + c]) (replicate n (0::real)) seeds) = n \<and>
    (\<forall>u < n. foldl (\<lambda>t s. t[s := t ! s + c]) (replicate n 0) seeds ! u = real (count_list seeds u) * c)"
  using add_all[of seeds "replicate n 0" c] assms by simp

lemma seedTeleport_distribution:
  assumes "seeds \<noteq> []" "seedTeleport n seeds = Some t"
  shows "distribution n t" "u < n \<Longrightarrow> u \<notin> set seeds \<Longrightarrow> t ! u = 0"
proof -
  have r: "\<forall>s \<in> set seeds. s < n" "t = foldl (\<lambda>t s. t[s := t ! s + 1 / real (length seeds)]) (replicate n 0) seeds"
    using assms by (auto simp: seedTeleport_def list_all_iff split: if_splits)
  have t: "length t = n" "\<And>u. u < n \<Longrightarrow> t ! u = real (count_list seeds u) / real (length seeds)"
    using seed_vector[OF r(1), of "1 / real (length seeds)"] by (simp_all add: r(2))
  have "(\<Sum>u<n. t ! u) = (\<Sum>u<n. real (count_list seeds u)) / real (length seeds)" by (simp add: t sum_divide_distrib)
  then show "distribution n t" using assms(1) by (simp add: distribution_def t list_all_length sum_count_list[OF r(1)])
  show "u < n \<Longrightarrow> u \<notin> set seeds \<Longrightarrow> t ! u = 0" by (simp add: t)
qed

lemma PageRank_support:
  assumes "PageRank g cfg = Some (rank, st)" "Teleport cfg = Some t" "length t = length g"
    and "\<forall>u < length g. u \<notin> R \<longrightarrow> t ! u = 0" "\<forall>(v, u) \<in> links g. v \<in> R \<longrightarrow> u \<in> R" "u < length g" "u \<notin> R"
  shows "rank ! u = 0"
proof -
  let ?c = "withDefaults cfg (length g)"
  have t: "Teleport ?c = Some t" using assms(2) by (simp add: withDefaults_sel)
  have g: "in_range g" and run: "pr_loop g (Damping ?c) (Tolerance ?c) t (nat (MaxSupersteps ?c)) (int 0 + 1) (power_iter g (Damping ?c) t 0 t)
      \<lparr>Supersteps = 0, Residual = 0, Converged = False\<rparr> = (rank, st)"
    using assms(1,3,6) by (auto simp: PageRank_def NumVertices_def Let_def t split: if_splits)
  from pr_loop_spec[OF g assms(3)] run obtain s where "rank = power_iter g (Damping ?c) t s t" by (metis Pair_inject)
  then show ?thesis using power_iter_support[OF assms(4,5,3)] assms(6,7) by simp
qed

lemma TrustRank_support:
  assumes "TrustRank g seeds cfg = Some (rank, st)" "seeds \<noteq> []" "u < length g" "\<not> (\<exists>s \<in> set seeds. (s, u) \<in> (links g)\<^sup>*)"
  shows "rank ! u = 0"
proof -
  obtain t where t: "seedTeleport (length g) seeds = Some t" "PageRank g (cfg\<lparr>Teleport := Some t\<rparr>) = Some (rank, st)"
    using assms(1) by (auto simp: TrustRank_def NumVertices_def split: option.splits)
  let ?R = "{u. \<exists>s \<in> set seeds. (s, u) \<in> (links g)\<^sup>*}"
  note d = seedTeleport_distribution[OF assms(2) t(1)]
  show ?thesis
  proof (rule PageRank_support[OF t(2), where R = ?R])
    show "length t = length g" using d(1) by (simp add: distribution_def)
    show "\<forall>u < length g. u \<notin> ?R \<longrightarrow> t ! u = 0" using d(2) by blast
    show "\<forall>(v, u) \<in> links g. v \<in> ?R \<longrightarrow> u \<in> ?R" by (auto intro: rtrancl.rtrancl_into_rtrancl)
  qed (use assms in auto)
qed


lemma reverse_from_spec:
  assumes "\<forall>u \<in> set us. u < length r"
  shows "length (foldl (\<lambda>r to. r[to := r ! to @ [from]]) r us) = length r \<and>
    (\<forall>u < length r. set (foldl (\<lambda>r to. r[to := r ! to @ [from]]) r us ! u) = set (r ! u) \<union> (if u \<in> set us then {from} else {}))"
  using assms
proof (induction us arbitrary: r)
  case (Cons a us)
  from Cons.IH[of "r[a := r ! a @ [from]]"] Cons.prems show ?case by (auto simp: nth_list_update)
qed simp

lemma Reverse_links:
  assumes "in_range g" "Reverse g = Some r"
  shows "length r = length g" "links r = (links g)\<inverse>"
proof -
  have tg: "\<forall>u \<in> set (g ! v). u < length g" if "v < length g" for v
    using assms(1) that by (auto simp: in_range_def list_all_iff)
  have "length (foldl (reverse_from g) (New (length g)) [0..<k]) = length g \<and>
      (\<forall>u < length g. set (foldl (reverse_from g) (New (length g)) [0..<k] ! u) = {v. v < k \<and> u \<in> set (g ! v)})"
    if "k \<le> length g" for k
    using that
  proof (induction k)
    case (Suc k)
    define q where "q = foldl (reverse_from g) (New (length g)) [0..<k]"
    have q: "length q = length g" "\<forall>u < length g. set (q ! u) = {v. v < k \<and> u \<in> set (g ! v)}"
      using Suc by (simp_all add: q_def)
    have st: "foldl (reverse_from g) (New (length g)) [0..<Suc k] = foldl (\<lambda>r to. r[to := r ! to @ [k]]) q (g ! k)"
      by (simp add: q_def reverse_from_def[of g _ k])
    show ?case unfolding st using reverse_from_spec[of "g ! k" q k] tg[of k] q Suc.prems
      by (auto simp: less_Suc_eq)
  qed (simp add: New_def)
  from this[of "length g"] have r: "length r = length g" "\<And>u. u < length g \<Longrightarrow> set (r ! u) = {v. v < length g \<and> u \<in> set (g ! v)}"
    using assms by (simp_all add: Reverse_def)
  then show "length r = length g" "links r = (links g)\<inverse>" using tg by (auto simp: links_def)
qed

text \<open>C29: Trust flows forward and distrust backward, and nowhere else: a page that no seed reaches along links gets exactly no trust,
  and a page from which no spam seed can be reached gets exactly no distrust, also when dangling pages hand their mass
  back to the seeds.\<close>

theorem TrustRank_follows_links:
  assumes "seeds \<noteq> []" "u < length g"
  shows "(\<forall>rank st. TrustRank g seeds cfg = Some (rank, st) \<longrightarrow> (\<forall>s \<in> set seeds. (s, u) \<notin> (links g)\<^sup>*) \<longrightarrow> rank ! u = 0) \<and>
    (\<forall>rank st. AntiTrustRank g seeds cfg = Some (rank, st) \<longrightarrow> (\<forall>s \<in> set seeds. (u, s) \<notin> (links g)\<^sup>*) \<longrightarrow> rank ! u = 0)"
proof (intro conjI allI impI)
  show "rank ! u = 0" if "TrustRank g seeds cfg = Some (rank, st)" "\<forall>s \<in> set seeds. (s, u) \<notin> (links g)\<^sup>*" for rank st
    using TrustRank_support[OF that(1) assms] that(2) by blast
  show "rank ! u = 0" if a: "AntiTrustRank g seeds cfg = Some (rank, st)" "\<forall>s \<in> set seeds. (u, s) \<notin> (links g)\<^sup>*" for rank st
  proof -
    obtain r where r: "Reverse g = Some r" "TrustRank r seeds cfg = Some (rank, st)"
      using a(1) by (auto simp: AntiTrustRank_def split: option.splits)
    then have g: "in_range g" by (simp add: Reverse_def split: if_splits)
    show ?thesis using TrustRank_support[OF r(2) assms(1)] Reverse_links[OF g r(1)] assms(2) a(2)
      by (simp add: rtrancl_converse)
  qed
qed

text \<open>A graph of two pages that link to themselves, with a seed on the first.\<close>

theorem TrustRank_follows_links_witness:
  "\<exists>rank st. TrustRank [[0], [1]] [0] default_config = Some (rank, st) \<and> rank ! 1 = 0"
proof -
  have r: "(0, 1) \<notin> (links [[0], [1]])\<^sup>*"
  proof
    assume "(0, 1) \<in> (links [[0], [1]])\<^sup>*"
    then have "(1::nat) = 0" by (induction "0::nat" "1::nat" rule: rtrancl.induct) (auto simp: links_def less_Suc_eq nth_Cons')
    then show False by simp
  qed
  have "TrustRank [[0], [1]] [0] default_config \<noteq> None"
    by (simp add: TrustRank_def seedTeleport_def NumVertices_def PageRank_def default_config_def withDefaults_sel in_range_def Let_def)
  then obtain rank st where t: "TrustRank [[0], [1]] [0] default_config = Some (rank, st)" by auto
  then have "rank ! 1 = 0" using TrustRank_follows_links[of "[0]" 1 "[[0], [1]]" default_config] r by simp
  with t show ?thesis by blast
qed

end
