(* ===== verification/Fusion.thy ===== *)
theory Fusion
  imports Types GoFloat "HOL-Library.AList" "HOL-Library.Product_Lexorder" Complex_Main
begin

text \<open>
  \<open>rank/fusion\<close>, \<open>rank/cascade.go\<close>, \<open>rank/ltr\<close> and \<open>rank/feature\<close>: fusing first-stage lists by reciprocal rank or by weighted
  scores, assembling feature vectors, and the second-stage reranker. Reciprocal rank fusion keeps the rounding of the source: the share
  of a candidate is a \<open>float64\<close> quotient converted to \<open>float32\<close>, and every addition into the accumulator rounds to \<open>float32\<close>. The weighted
  scores, the features and the linear model are reals instead of floating-point numbers. The accumulator of fusion is an association
  list; \<open>ord\<close> is the order in which Go iterates over the map it stands for, and \<open>srt\<close> is \<open>sort.Slice\<close> with the comparison of \<open>sorted\<close>.
\<close>

subsection \<open>Fusion\<close>

definition DefaultK :: int where "DefaultK = 60"

record Candidate =
  c_Doc :: GlobalDocID
  c_Score :: real
  c_Rank :: int

record Fused =
  f_Doc :: GlobalDocID
  f_Score :: real

type_synonym acc = "(GlobalDocID \<times> real) list"

text \<open>\<open>fl\<close> rounds the sum.\<close>

definition acc_add :: "(real \<Rightarrow> real) \<Rightarrow> GlobalDocID \<Rightarrow> real \<Rightarrow> acc \<Rightarrow> acc" where
  "acc_add fl doc x acc = AList.update doc (fl ((case map_of acc doc of None \<Rightarrow> 0 | Some s \<Rightarrow> s) + x)) acc"

definition fused_key :: "Fused \<Rightarrow> real \<times> SegmentID \<times> DocID" where
  "fused_key f = (- f_Score f, Segment (f_Doc f), Local (f_Doc f))"

definition sorted_acc :: "(acc \<Rightarrow> acc) \<Rightarrow> (Fused list \<Rightarrow> Fused list) \<Rightarrow> acc \<Rightarrow> Fused list" where
  "sorted_acc ord srt acc = srt (map (\<lambda>(doc, score). \<lparr>f_Doc = doc, f_Score = score\<rparr>) (ord acc))"

text \<open>\<open>openindex.Score(1.0 / float64(k+c.Rank+1))\<close>.\<close>

definition rrf_share :: "int \<Rightarrow> Candidate \<Rightarrow> real" where
  "rrf_share k c = fround 24 (fround 53 (1 / fround 53 (real_of_int (k + c_Rank c + 1))))"

definition RRF :: "(acc \<Rightarrow> acc) \<Rightarrow> (Fused list \<Rightarrow> Fused list) \<Rightarrow> int \<Rightarrow> Candidate list list \<Rightarrow> Fused list" where
  "RRF ord srt k ls =
     (let k = (if k \<le> 0 then DefaultK else k)
      in sorted_acc ord srt (foldl (foldl (\<lambda>acc c. acc_add (fround 24) (c_Doc c) (rrf_share k c) acc)) [] ls))"

definition scoreRange :: "Candidate list \<Rightarrow> real \<times> real" where
  "scoreRange cs =
     foldl (\<lambda>(lo, hi) c. (if c_Score c < lo then c_Score c else lo, if c_Score c > hi then c_Score c else hi))
       (c_Score (hd cs), c_Score (hd cs)) (tl cs)"

definition linear_list :: "real \<Rightarrow> Candidate list \<Rightarrow> acc \<Rightarrow> acc" where
  "linear_list w cs acc =
     (let (lo, hi) = scoreRange cs; spn = hi - lo
      in foldl (\<lambda>acc c. acc_add (\<lambda>x. x) (c_Doc c) (w * (if spn > 0 then (c_Score c - lo) / spn else 1)) acc) acc cs)"

text \<open>\<open>zip\<close> drops the lists beyond the supplied weights.\<close>

definition Linear :: "(acc \<Rightarrow> acc) \<Rightarrow> (Fused list \<Rightarrow> Fused list) \<Rightarrow> real list \<Rightarrow> Candidate list list \<Rightarrow> Fused list" where
  "Linear ord srt weights ls =
     sorted_acc ord srt (foldl (\<lambda>acc (w, cs). if w = 0 \<or> length cs = 0 then acc else linear_list w cs acc) [] (zip weights ls))"

definition FromResults :: "real Result list \<Rightarrow> Candidate list" where
  "FromResults results =
     map (\<lambda>(i, r). \<lparr>c_Doc = Res_Doc r, c_Score = Res_Score r, c_Rank = int i\<rparr>) (enumerate 0 results)"

subsection \<open>Features and models\<close>

definition SchemaVersion :: nat where "SchemaVersion = 1"

definition BM25FScore :: nat where "BM25FScore = 0"
definition DenseSim :: nat where "DenseSim = 1"
definition Proximity :: nat where "Proximity = 2"
definition ExactMatch :: nat where "ExactMatch = 3"
definition DocLength :: nat where "DocLength = 4"
definition PageRankScore :: nat where "PageRankScore = 5"
definition SiteAuthority :: nat where "SiteAuthority = 6"
definition SpamScore :: nat where "SpamScore = 7"
definition Freshness :: nat where "Freshness = 8"
definition ClickRate :: nat where "ClickRate = 9"
definition Dwell :: nat where "Dwell = 10"
definition NumFeatures :: nat where "NumFeatures = 11"

record IndexFeatures =
  ix_BM25F :: real
  ix_DenseSim :: real
  ix_Proximity :: real
  ix_ExactMatch :: real
  ix_DocLength :: real

record DocumentFeatures =
  dc_PageRank :: real
  dc_SiteAuthority :: real
  dc_SpamScore :: real
  dc_Freshness :: real

record Behavioral =
  be_ClickRate :: real
  be_Dwell :: real

type_synonym Vector = "real list"

definition New_Vector :: Vector where "New_Vector = replicate NumFeatures 0"

definition Vector_Set :: "nat \<Rightarrow> real \<Rightarrow> Vector \<Rightarrow> Vector option" where
  "Vector_Set f x v = (if f < length v then Some (v[f := x]) else None)"

definition Vector_Get :: "nat \<Rightarrow> Vector \<Rightarrow> real option" where
  "Vector_Get f v = (if f < length v then Some (v ! f) else None)"

definition Assemble :: "Vector \<Rightarrow> IndexFeatures \<Rightarrow> DocumentFeatures \<Rightarrow> Behavioral \<Rightarrow> Vector" where
  "Assemble dst ix doc beh =
     (let dst = (if length dst \<noteq> NumFeatures then New_Vector else dst)
      in dst[BM25FScore := ix_BM25F ix, DenseSim := ix_DenseSim ix, Proximity := ix_Proximity ix,
             ExactMatch := ix_ExactMatch ix, DocLength := ix_DocLength ix, PageRankScore := dc_PageRank doc,
             SiteAuthority := dc_SiteAuthority doc, SpamScore := dc_SpamScore doc, Freshness := dc_Freshness doc,
             ClickRate := be_ClickRate beh, Dwell := be_Dwell beh])"

record Model =
  Model_Score :: "Vector \<Rightarrow> real"
  FeatureDim :: nat

definition linear_score :: "real list \<Rightarrow> real \<Rightarrow> Vector \<Rightarrow> real" where
  "linear_score ws bias features =
     (let n = min (length ws) (length features)
      in foldl (\<lambda>s i. s + ws ! i * features ! i) bias [0..<n])"

definition NewLinearModel :: "real list \<Rightarrow> real \<Rightarrow> Model" where
  "NewLinearModel ws bias = \<lparr>Model_Score = linear_score ws bias, FeatureDim = length ws\<rparr>"

text \<open>The error of \<open>Check\<close> carries the two dimensions of its message.\<close>

definition Check :: "Model \<Rightarrow> (nat \<times> nat \<times> nat) option" where
  "Check m = (if FeatureDim m \<noteq> NumFeatures then Some (FeatureDim m, SchemaVersion, NumFeatures) else None)"

subsection \<open>The second stage\<close>

definition DefaultMinRerankPool :: int where "DefaultMinRerankPool = 50"

record RankCandidate =
  rc_Doc :: GlobalDocID
  rc_URL :: string
  Features :: Vector

record Reranker =
  rr_model :: Model
  minPool :: int

definition NewReranker :: "Model \<Rightarrow> int \<Rightarrow> Reranker" where
  "NewReranker model mp = \<lparr>rr_model = model, minPool = (if mp \<le> 0 then DefaultMinRerankPool else mp)\<rparr>"

definition passthrough :: "RankCandidate list \<Rightarrow> int \<Rightarrow> real Result list" where
  "passthrough cands k =
     map (\<lambda>c. \<lparr>Res_Doc = rc_Doc c, Res_URL = rc_URL c, Res_Score = 0\<rparr>) (take (nat k) cands)"

definition truncate_results :: "real Result list \<Rightarrow> int \<Rightarrow> real Result list" where
  "truncate_results rs k = (if k < int (length rs) then take (nat k) rs else rs)"

definition lessResult :: "real Result \<Rightarrow> real Result \<Rightarrow> bool" where
  "lessResult a b =
     (if Res_Score a \<noteq> Res_Score b then Res_Score a > Res_Score b
      else if Segment (Res_Doc a) \<noteq> Segment (Res_Doc b) then Segment (Res_Doc a) < Segment (Res_Doc b)
      else Local (Res_Doc a) < Local (Res_Doc b))"

text \<open>\<open>srt\<close> is \<open>sort.Slice\<close> with \<open>lessResult\<close>, which leaves the order of equal elements open.\<close>

definition Rerank :: "(real Result list \<Rightarrow> real Result list) \<Rightarrow> Reranker \<Rightarrow> RankCandidate list \<Rightarrow> int \<Rightarrow> real Result list \<times> bool" where
  "Rerank srt r cands k =
     (if k \<le> 0 \<or> length cands = 0 then ([], False)
      else if int (length cands) < minPool r then (passthrough cands k, False)
      else let scored = map (\<lambda>c. \<lparr>Res_Doc = rc_Doc c, Res_URL = rc_URL c, Res_Score = Model_Score (rr_model r) (Features c)\<rparr>) cands
           in (truncate_results (srt scored) k, True))"

subsection \<open>The accumulator\<close>

text \<open>The score of a document: the rounded sum of its contributions, in their order.\<close>

definition contribution :: "(real \<Rightarrow> real) \<Rightarrow> (GlobalDocID \<times> real) list \<Rightarrow> GlobalDocID \<Rightarrow> real" where
  "contribution fl xs doc = foldl (\<lambda>s x. fl (s + x)) 0 (map snd (filter (\<lambda>p. fst p = doc) xs))"

definition acc_all :: "(real \<Rightarrow> real) \<Rightarrow> (GlobalDocID \<times> real) list \<Rightarrow> acc \<Rightarrow> acc" where
  "acc_all fl xs acc = foldl (\<lambda>acc (d, x). acc_add fl d x acc) acc xs"

lemma acc_all_append: "acc_all fl (xs @ ys) acc = acc_all fl ys (acc_all fl xs acc)"
  by (simp add: acc_all_def)

lemma contribution_none: "doc \<notin> fst ` set xs \<Longrightarrow> contribution fl xs doc = 0"
  by (simp add: contribution_def) (metis (mono_tags, lifting) filter_False foldl_Nil image_eqI list.simps(8))

lemma acc_add_keys: "set (map fst (acc_add fl d x acc)) = insert d (set (map fst acc))"
  by (simp add: acc_add_def dom_update)

lemma acc_all_spec:
  "distinct (map fst (acc_all fl xs [])) \<and> set (map fst (acc_all fl xs [])) = fst ` set xs \<and>
   (\<forall>doc. map_of (acc_all fl xs []) doc = (if doc \<in> fst ` set xs then Some (contribution fl xs doc) else None))"
proof (induction xs rule: rev_induct)
  case (snoc p xs)
  obtain d x where p: "p = (d, x)" by (cases p)
  have step: "acc_all fl (xs @ [p]) [] = acc_add fl d x (acc_all fl xs [])" by (simp add: acc_all_def p)
  have "(case map_of (acc_all fl xs []) d of None \<Rightarrow> 0 | Some s \<Rightarrow> s) = contribution fl xs d"
    using snoc contribution_none[of d xs fl] by simp
  then have "map_of (acc_all fl (xs @ [p]) []) doc =
      (if doc = d then Some (fl (contribution fl xs d + x)) else map_of (acc_all fl xs []) doc)" for doc
    by (simp add: step acc_add_def update_conv)
  moreover have "contribution fl (xs @ [p]) doc = (if doc = d then fl (contribution fl xs d + x) else contribution fl xs doc)" for doc
    by (simp add: contribution_def p)
  moreover have "set (map fst (acc_all fl (xs @ [p]) [])) = insert d (fst ` set xs)" "distinct (map fst (acc_all fl (xs @ [p]) []))"
    using snoc unfolding step acc_add_keys by (simp_all add: acc_add_def distinct_update)
  ultimately show ?case using snoc by (simp add: p)
qed (simp add: acc_all_def)

lemma foldl_acc_all: "foldl (\<lambda>acc c. acc_add fl (h c) (w c) acc) acc cs = acc_all fl (map (\<lambda>c. (h c, w c)) cs) acc"
  by (simp add: acc_all_def foldl_map)

lemma fused_key_inj: "inj fused_key"
proof (rule injI)
  show "fused_key a = fused_key b \<Longrightarrow> a = b" for a b
    by (cases a; cases b; cases "f_Doc a"; cases "f_Doc b") (simp add: fused_key_def)
qed

text \<open>What \<open>range\<close> over the map and \<open>sort.Slice\<close> promise.\<close>

definition fusion_ok :: "(acc \<Rightarrow> acc) \<Rightarrow> (Fused list \<Rightarrow> Fused list) \<Rightarrow> bool" where
  "fusion_ok ord srt \<longleftrightarrow> (\<forall>acc. mset (ord acc) = mset acc) \<and> sort_Slice fused_key srt"

lemma fusion_ok_id: "fusion_ok (\<lambda>acc. acc) (sort_key fused_key)"
  by (simp add: fusion_ok_def sort_Slice_def)

lemma sorted_acc_spec:
  fixes fl :: "real \<Rightarrow> real" and xs :: "(GlobalDocID \<times> real) list"
  assumes "fusion_ok ord srt"
  defines "out \<equiv> sorted_acc ord srt (acc_all fl xs [])"
  shows "set (map f_Doc out) = fst ` set xs" "distinct (map f_Doc out)" "sorted (map fused_key out)"
    "\<forall>f \<in> set out. f_Score f = contribution fl xs (f_Doc f)"
proof -
  note spec = acc_all_spec[of fl xs]
  have o: "mset (ord acc) = mset acc" for acc using assms(1) by (simp add: fusion_ok_def)
  have m: "mset out = mset (map (\<lambda>(doc, score). \<lparr>f_Doc = doc, f_Score = score\<rparr>) (acc_all fl xs []))"
    using assms(1) by (simp add: out_def sorted_acc_def fusion_ok_def sort_Slice_def)
  then have "mset (map f_Doc out) = mset (map fst (acc_all fl xs []))"
    by (simp add: image_mset.compositionality comp_def case_prod_beta)
  then show "set (map f_Doc out) = fst ` set xs" "distinct (map f_Doc out)"
    using spec mset_eq_setD mset_eq_imp_distinct_iff by metis+
  show "sorted (map fused_key out)" using assms(1) by (simp add: out_def sorted_acc_def fusion_ok_def sort_Slice_def)
  show "\<forall>f \<in> set out. f_Score f = contribution fl xs (f_Doc f)"
  proof
    fix f assume "f \<in> set out"
    then have "f \<in> (\<lambda>(doc, score). \<lparr>f_Doc = doc, f_Score = score\<rparr>) ` set (acc_all fl xs [])"
      using mset_eq_setD[OF m] by simp
    then obtain doc x where f: "f = \<lparr>f_Doc = doc, f_Score = x\<rparr>" "(doc, x) \<in> set (acc_all fl xs [])" by auto
    then have "map_of (acc_all fl xs []) doc = Some x" by (simp add: spec[THEN conjunct1])
    moreover have "map_of (acc_all fl xs []) doc = (if doc \<in> fst ` set xs then Some (contribution fl xs doc) else None)" using spec by blast
    ultimately show "f_Score f = contribution fl xs (f_Doc f)" by (simp add: f(1) split: if_splits)
  qed
qed

text \<open>The documents and their scores determine the result, whatever the map iteration and the sort do.\<close>

lemma fused_unique:
  assumes "set (map f_Doc a) = set (map f_Doc b)" "distinct (map f_Doc a)" "distinct (map f_Doc b)"
    "sorted (map fused_key a)" "sorted (map fused_key b)"
    "\<forall>f \<in> set a. f_Score f = g (f_Doc f)" "\<forall>f \<in> set b. f_Score f = g (f_Doc f)"
  shows "a = b"
proof -
  have recon: "set out = (\<lambda>d. \<lparr>f_Doc = d, f_Score = g d\<rparr>) ` set (map f_Doc out)"
    if "\<forall>f \<in> set out. f_Score f = g (f_Doc f)" for out
  proof -
    have "(\<lambda>d. \<lparr>f_Doc = d, f_Score = g d\<rparr>) ` set (map f_Doc out) = (\<lambda>f. f) ` set out"
      unfolding set_map image_image using that by (intro image_cong) simp_all
    then show ?thesis by simp
  qed
  have "set a = set b" using recon[OF assms(6)] recon[OF assms(7)] assms(1) by simp
  moreover have "distinct (map fused_key a)" "distinct (map fused_key b)"
    using assms(2,3) fused_key_inj by (auto simp: distinct_map intro: inj_on_subset)
  ultimately have "map fused_key a = map fused_key b"
    using sorted_distinct_set_unique[OF assms(4) _ assms(5)] by simp
  then show ?thesis using fused_key_inj by (simp add: inj_map_eq_map)
qed

lemma sorted_acc_unique:
  assumes "fusion_ok ord srt" "fusion_ok ord' srt'" "fst ` set xs = fst ` set ys" "contribution fl xs = contribution fl ys"
  shows "sorted_acc ord srt (acc_all fl xs []) = sorted_acc ord' srt' (acc_all fl ys [])"
proof -
  note a = sorted_acc_spec[OF assms(1), of fl xs] and b = sorted_acc_spec[OF assms(2), of fl ys]
  show ?thesis using a(1) b(1) assms(3)
    by (intro fused_unique[OF _ a(2) b(2) a(3) b(3) a(4) b(4)[folded assms(4)]]) simp
qed

text \<open>The contributions of all lists to all documents.\<close>

definition rrf_const :: "int \<Rightarrow> int" where
  "rrf_const k = (if k \<le> 0 then 60 else k)"

definition rrf_shares :: "int \<Rightarrow> Candidate list \<Rightarrow> (GlobalDocID \<times> real) list" where
  "rrf_shares k cs = map (\<lambda>c. (c_Doc c, rrf_share (rrf_const k) c)) cs"

lemma foldl_shares: "foldl (\<lambda>acc cs. acc_all fl (h cs) acc) acc ls = acc_all fl (concat (map h ls)) acc"
  by (induction ls arbitrary: acc) (simp_all add: acc_all_append, simp add: acc_all_def)

lemma RRF_eq: "RRF ord srt k ls = sorted_acc ord srt (acc_all (fround 24) (rrf_shares k (concat ls)) [])"
  unfolding RRF_def Let_def foldl_acc_all foldl_shares
  by (simp add: rrf_shares_def rrf_const_def DefaultK_def map_concat)

text \<open>A contribution is the rounded sum of the document's shares.\<close>

definition rrf_sum :: "int \<Rightarrow> Candidate list \<Rightarrow> real" where
  "rrf_sum k cs = foldl (\<lambda>s c. fround 24 (s + rrf_share k c)) 0 cs"

lemma contribution_rrf: "contribution (fround 24) (rrf_shares k cs) d = rrf_sum (rrf_const k) (filter (\<lambda>c. c_Doc c = d) cs)"
  by (simp add: contribution_def rrf_shares_def rrf_sum_def filter_map comp_def foldl_map)

text \<open>Its relative error: three roundings of the share, and one for each addition.\<close>

lemma fround_between:
  fixes x :: real
  assumes "0 \<le> x"
  shows "(1 - 1 / 2 ^ p) * x \<le> fround p x" "fround p x \<le> (1 + 1 / 2 ^ p) * x"
  using fround_error[of p x] assms by (simp_all add: abs_le_iff algebra_simps)

lemma rrf_share_bounds:
  fixes c :: Candidate and k :: int
  assumes "0 < k" "0 \<le> c_Rank c"
  defines "w \<equiv> 1 / real_of_int (k + c_Rank c + 1)"
  shows "(1 - 1 / 2 ^ 24)\<^sup>2 * w \<le> rrf_share k c" "rrf_share k c \<le> (1 + 1 / 2 ^ 24)\<^sup>2 * w"
proof -
  let ?n = "real_of_int (k + c_Rank c + 1)" and ?d = "fround 53 (real_of_int (k + c_Rank c + 1))"
  define e u :: real where "e = 1 / 2 ^ 53" and "u = 1 / 2 ^ 24"
  have eu: "0 < e" "e < 1" "(1 - u) * (1 + e) \<le> 1 - e" "1 + e \<le> (1 + u) * (1 - e)" "0 < u" "u < 1"
    by (simp_all add: e_def u_def)
  have n: "0 < ?n" using assms(1,2) by simp
  have d: "(1 - e) * ?n \<le> ?d" "?d \<le> (1 + e) * ?n"
    using fround_between[of ?n 53] n by (simp_all only: e_def less_imp_le)
  have "0 < (1 - e) * ?n" using n eu by simp
  then have d0: "0 < ?d" using d(1) by linarith
  have w: "0 < w" using n by (simp add: w_def)
  have q: "w \<le> (1 + e) * (1 / ?d)" "(1 - e) * (1 / ?d) \<le> w"
    using d d0 n by (simp_all add: w_def field_simps)
  have "(1 - u) * w \<le> (1 - u) * ((1 + e) * (1 / ?d))" using q(1) eu by (intro mult_left_mono) simp_all
  also have "\<dots> \<le> (1 - e) * (1 / ?d)" unfolding mult.assoc[symmetric] using eu(3) d0 by (intro mult_right_mono) simp_all
  also have "\<dots> \<le> fround 53 (1 / ?d)" using fround_between(1)[of "1 / ?d" 53] d0 by (simp add: e_def)
  finally have lo: "(1 - u) * w \<le> fround 53 (1 / ?d)" .
  have "fround 53 (1 / ?d) \<le> (1 + e) * (1 / ?d)" using fround_between(2)[of "1 / ?d" 53] d0 by (simp add: e_def)
  also have "\<dots> \<le> (1 + u) * ((1 - e) * (1 / ?d))" unfolding mult.assoc[symmetric] using eu(4) d0 by (intro mult_right_mono) simp_all
  also have "\<dots> \<le> (1 + u) * w" using q(2) eu by (intro mult_left_mono) simp_all
  finally have hi: "fround 53 (1 / ?d) \<le> (1 + u) * w" .
  have "0 \<le> (1 - u) * w" using eu w by simp
  then have p: "0 \<le> fround 53 (1 / ?d)" using lo by linarith
  have "(1 - u) * ((1 - u) * w) \<le> (1 - u) * fround 53 (1 / ?d)" using lo eu by (intro mult_left_mono) simp_all
  also have "\<dots> \<le> rrf_share k c" using fround_between(1)[OF p, of 24] by (simp add: u_def rrf_share_def)
  finally show "(1 - 1 / 2 ^ 24)\<^sup>2 * w \<le> rrf_share k c" by (simp only: u_def power2_eq_square mult.assoc)
  have "rrf_share k c \<le> (1 + u) * fround 53 (1 / ?d)" using fround_between(2)[OF p, of 24] by (simp add: u_def rrf_share_def)
  also have "\<dots> \<le> (1 + u) * ((1 + u) * w)" using hi eu by (intro mult_left_mono) simp_all
  finally show "rrf_share k c \<le> (1 + 1 / 2 ^ 24)\<^sup>2 * w" by (simp only: u_def power2_eq_square mult.assoc)
qed

lemma rrf_sum_bounds:
  assumes "0 < k" "list_all (\<lambda>c. 0 \<le> c_Rank c) cs"
  defines "S \<equiv> \<lambda>cs. \<Sum>c\<leftarrow>cs. 1 / real_of_int (k + c_Rank c + 1)"
  shows "(1 - 1 / 2 ^ 24) ^ (length cs + 2) * S cs \<le> rrf_sum k cs \<and> rrf_sum k cs \<le> (1 + 1 / 2 ^ 24) ^ (length cs + 2) * S cs"
  using assms(2)
proof (induction cs rule: rev_induct)
  case (snoc c cs)
  define u :: real where "u = 1 / 2 ^ 24"
  have u: "0 \<le> 1 - u" "1 - u \<le> 1" "1 \<le> 1 + u" by (simp_all add: u_def)
  let ?w = "1 / real_of_int (k + c_Rank c + 1)" and ?m = "length cs + 2"
  have w: "0 \<le> ?w" "0 \<le> c_Rank c" using snoc.prems assms(1) by simp_all
  have "\<forall>x \<in> set cs. 0 \<le> 1 / real_of_int (k + c_Rank x + 1)" using snoc.prems assms(1) by (auto simp: list_all_iff)
  then have S0: "0 \<le> S cs" by (auto simp: S_def intro!: sum_list_nonneg)
  have IH: "(1 - u) ^ ?m * S cs \<le> rrf_sum k cs" "rrf_sum k cs \<le> (1 + u) ^ ?m * S cs" using snoc by (simp_all add: u_def)
  have "(1 - u) ^ ?m * ?w \<le> (1 - u)\<^sup>2 * ?w" using w u by (intro mult_right_mono power_decreasing) simp_all
  also have "\<dots> \<le> rrf_share k c" unfolding u_def by (rule rrf_share_bounds(1)[OF assms(1) w(2)])
  finally have lo: "(1 - u) ^ ?m * S (cs @ [c]) \<le> rrf_sum k cs + rrf_share k c"
    using IH(1) by (simp add: S_def distrib_left)
  have "rrf_share k c \<le> (1 + u)\<^sup>2 * ?w" unfolding u_def by (rule rrf_share_bounds(2)[OF assms(1) w(2)])
  also have "\<dots> \<le> (1 + u) ^ ?m * ?w" using w u by (intro mult_right_mono power_increasing) simp_all
  finally have hi: "rrf_sum k cs + rrf_share k c \<le> (1 + u) ^ ?m * S (cs @ [c])"
    using IH(2) by (simp add: S_def distrib_left)
  have "0 \<le> (1 - u) ^ ?m * S (cs @ [c])" using S0 w u by (simp add: S_def)
  then have p: "0 \<le> rrf_sum k cs + rrf_share k c" using lo by linarith
  have step: "rrf_sum k (cs @ [c]) = fround 24 (rrf_sum k cs + rrf_share k c)" by (simp add: rrf_sum_def)
  have "(1 - u) * ((1 - u) ^ ?m * S (cs @ [c])) \<le> (1 - u) * (rrf_sum k cs + rrf_share k c)" using lo u by (intro mult_left_mono) simp_all
  moreover have "(1 - u) * (rrf_sum k cs + rrf_share k c) \<le> rrf_sum k (cs @ [c])"
    unfolding step u_def by (rule fround_between(1)[OF p])
  moreover have "rrf_sum k (cs @ [c]) \<le> (1 + u) * (rrf_sum k cs + rrf_share k c)"
    unfolding step u_def by (rule fround_between(2)[OF p])
  moreover have "(1 + u) * (rrf_sum k cs + rrf_share k c) \<le> (1 + u) * ((1 + u) ^ ?m * S (cs @ [c]))" using hi u by (intro mult_left_mono) simp_all
  ultimately show ?case unfolding u_def[symmetric] by (simp add: mult.assoc)
qed (simp add: rrf_sum_def S_def)

text \<open>Two addends commute.\<close>

lemma rrf_share_idem: "fround 24 (rrf_share k c) = rrf_share k c"
  by (simp add: rrf_share_def fround_idem)

lemma rrf_sum_swap:
  assumes "length xs \<le> 1" "length ys \<le> 1"
  shows "rrf_sum k (xs @ ys) = rrf_sum k (ys @ xs)"
  using assms by (cases xs; cases ys) (simp_all add: rrf_sum_def rrf_share_idem add.commute)

lemma distinct_filter_length:
  assumes "distinct (map f xs)"
  shows "length (filter (\<lambda>x. f x = y) xs) \<le> 1"
  using assms by (induction xs) (auto simp: filter_empty_conv, metis image_eqI)

lemma RRF_swap:
  assumes "fusion_ok ord srt" "distinct (map c_Doc a)" "distinct (map c_Doc b)"
  shows "RRF ord srt k [b, a] = RRF ord srt k [a, b]"
  unfolding RRF_eq
proof (rule sorted_acc_unique[OF assms(1,1)])
  show "fst ` set (rrf_shares k (concat [b, a])) = fst ` set (rrf_shares k (concat [a, b]))"
    by (simp add: rrf_shares_def image_Un Un_commute)
  show "contribution (fround 24) (rrf_shares k (concat [b, a])) = contribution (fround 24) (rrf_shares k (concat [a, b]))"
    unfolding contribution_rrf
    by (rule ext) (simp only: concat.simps append_Nil2 filter_append rrf_sum_swap[OF distinct_filter_length[OF assms(3)] distinct_filter_length[OF assms(2)]])
qed

text \<open>C36: Reciprocal rank fusion returns every document of any list exactly once, ordered by score descending and ties by segment and
  local id. The score of a document is the \<open>float32\<close> sum of its shares in the order of the lists, and stays within a factor of
  \<open>(1 - 2^-24)^(m+2)\<close> to \<open>(1 + 2^-24)^(m+2)\<close> of the sum of its \<open>m\<close> reciprocal ranks. Neither the order in which Go iterates over the
  accumulator nor the unstable sort has an influence, and two lists without duplicates may be given in either order (three may not:
  \<open>RRF_list_order\<close> below). Ranks are natural numbers and \<open>k + rank + 1\<close> fits an \<open>int\<close>.\<close>

theorem RRF_exact:
  assumes "\<forall>acc. mset (ord acc) = mset acc" "sort_Slice fused_key srt"
    "list_all (\<lambda>c. 0 \<le> c_Rank c \<and> (if k \<le> 0 then 60 else k) + c_Rank c + 1 < 2 ^ 63) (concat ls)"
  shows "set (map f_Doc (RRF ord srt k ls)) = c_Doc ` set (concat ls) \<and> distinct (map f_Doc (RRF ord srt k ls)) \<and>
   sorted (map (\<lambda>f. (- f_Score f, Segment (f_Doc f), Local (f_Doc f))) (RRF ord srt k ls)) \<and>
   list_all (\<lambda>f.
     let cs = filter (\<lambda>c. c_Doc c = f_Doc f) (concat ls);
         exact = (\<Sum>c\<leftarrow>cs. 1 / real_of_int ((if k \<le> 0 then 60 else k) + c_Rank c + 1))
     in f_Score f = foldl (\<lambda>s c. fround 24 (s + rrf_share (if k \<le> 0 then 60 else k) c)) 0 cs \<and>
        (1 - 1 / 2 ^ 24) ^ (length cs + 2) * exact \<le> f_Score f \<and> f_Score f \<le> (1 + 1 / 2 ^ 24) ^ (length cs + 2) * exact)
     (RRF ord srt k ls) \<and>
   RRF ord srt k ls = RRF (\<lambda>acc. acc) (sort_key fused_key) k ls \<and>
   (\<forall>a b. ls = [a, b] \<and> distinct (map c_Doc a) \<and> distinct (map c_Doc b) \<longrightarrow> RRF ord srt k [b, a] = RRF ord srt k ls)"
proof -
  let ?xs = "rrf_shares k (concat ls)" and ?k = "if k \<le> 0 then 60 else k"
  have ok: "fusion_ok ord srt" using assms(1,2) by (simp add: fusion_ok_def)
  note spec = sorted_acc_spec[OF ok, of "fround 24" ?xs, folded RRF_eq]
  have docs: "fst ` set ?xs = c_Doc ` set (concat ls)" unfolding rrf_shares_def set_map image_image by simp
  have score: "let cs = filter (\<lambda>c. c_Doc c = f_Doc f) (concat ls);
         exact = (\<Sum>c\<leftarrow>cs. 1 / real_of_int (?k + c_Rank c + 1))
     in f_Score f = foldl (\<lambda>s c. fround 24 (s + rrf_share ?k c)) 0 cs \<and>
        (1 - 1 / 2 ^ 24) ^ (length cs + 2) * exact \<le> f_Score f \<and> f_Score f \<le> (1 + 1 / 2 ^ 24) ^ (length cs + 2) * exact"
    if "f \<in> set (RRF ord srt k ls)" for f
  proof -
    let ?cs = "filter (\<lambda>c. c_Doc c = f_Doc f) (concat ls)"
    have f: "f_Score f = rrf_sum ?k ?cs" using spec(4) that by (simp only: contribution_rrf rrf_const_def)
    have "0 < ?k" by simp
    moreover have "list_all (\<lambda>c. 0 \<le> c_Rank c) ?cs" using assms(3) by (auto simp: list_all_iff)
    ultimately show ?thesis using rrf_sum_bounds unfolding Let_def f by (simp only: rrf_sum_def)
  qed
  have det: "RRF ord srt k ls = RRF (\<lambda>acc. acc) (sort_key fused_key) k ls"
    unfolding RRF_eq by (rule sorted_acc_unique[OF ok fusion_ok_id refl refl])
  show ?thesis
    using spec(1-3) score det RRF_swap[OF ok] unfolding docs fused_key_def[abs_def] list_all_iff by blast
qed

text \<open>A lexical and a dense list; the sort is the stable one.\<close>

definition demo_candidate :: "DocID \<Rightarrow> int \<Rightarrow> Candidate" where
  "demo_candidate n r = \<lparr>c_Doc = \<lparr>Segment = 1, Local = n\<rparr>, c_Score = 0, c_Rank = r\<rparr>"

theorem RRF_exact_witness:
  "RRF rev (sort_key fused_key) 60 [[demo_candidate 2 0], [demo_candidate 1 0, demo_candidate 2 1]] =
     RRF rev (sort_key fused_key) 60 [[demo_candidate 1 0, demo_candidate 2 1], [demo_candidate 2 0]] \<and>
   set (map f_Doc (RRF rev (sort_key fused_key) 60 [[demo_candidate 1 0, demo_candidate 2 1], [demo_candidate 2 0]])) =
     {\<lparr>Segment = 1, Local = 1\<rparr>, \<lparr>Segment = 1, Local = 2\<rparr>}"
proof -
  let ?ls = "[[demo_candidate 1 0, demo_candidate 2 1], [demo_candidate 2 0]]"
  have "\<forall>acc :: acc. mset (rev acc) = mset acc" "sort_Slice fused_key (sort_key fused_key)" by (simp_all add: sort_Slice_def)
  moreover have "list_all (\<lambda>c. 0 \<le> c_Rank c \<and> (if (60::int) \<le> 0 then 60 else 60) + c_Rank c + 1 < 2 ^ 63) (concat ?ls)"
    by (simp add: demo_candidate_def)
  ultimately have R: "set (map f_Doc (RRF rev (sort_key fused_key) 60 ?ls)) = c_Doc ` set (concat ?ls)"
    "\<forall>a b. ?ls = [a, b] \<and> distinct (map c_Doc a) \<and> distinct (map c_Doc b) \<longrightarrow>
       RRF rev (sort_key fused_key) 60 [b, a] = RRF rev (sort_key fused_key) 60 ?ls"
    using RRF_exact[of rev "sort_key fused_key" 60 ?ls] by blast+
  show ?thesis using R(1) R(2)[rule_format, of "[demo_candidate 1 0, demo_candidate 2 1]" "[demo_candidate 2 0]"]
    by (simp add: demo_candidate_def)
qed

text \<open>Three lists in the opposite order give other scores: the first document, at ranks 0, 1 and 2, and the second, at ranks 1, 2 and 0,
  swap places, although the sums of their reciprocal ranks are equal.\<close>

lemma rrf_share_60:
  "rrf_share 60 (demo_candidate d 0) = 8801162 / 2 ^ 29"
  "rrf_share 60 (demo_candidate d 1) = 8659208 / 2 ^ 29"
  "rrf_share 60 (demo_candidate d 2) = 8521761 / 2 ^ 29"
proof -
  have f: "fround 53 (61 :: real) = 61" "fround 53 (62 :: real) = 62" "fround 53 (63 :: real) = 63"
    using fround_exact[of 61 53 0, where 'a = real] fround_exact[of 62 53 0, where 'a = real] fround_exact[of 63 53 0, where 'a = real]
    by simp_all
  have q: "fround 53 (1 / 61 :: real) = 4725088133634619 / 2 ^ 58" "fround 53 (1 / 62 :: real) = 4648877034705028 / 2 ^ 58"
    "fround 53 (1 / 63 :: real) = 4575085335741456 / 2 ^ 58"
    using fround_eqI[of "-6" "1 / 61" 53 4725088133634619] fround_eqI[of "-6" "1 / 62" 53 4648877034705028]
      fround_eqI[of "-6" "1 / 63" 53 4575085335741456] by simp_all
  have "fround 24 (4725088133634619 / 2 ^ 58 :: real) = 8801162 / 2 ^ 29" "fround 24 (4648877034705028 / 2 ^ 58 :: real) = 8659208 / 2 ^ 29"
    "fround 24 (4575085335741456 / 2 ^ 58 :: real) = 8521761 / 2 ^ 29"
    using fround_eqI[of "-6" "4725088133634619 / 2 ^ 58" 24 8801162] fround_eqI[of "-6" "4648877034705028 / 2 ^ 58" 24 8659208]
      fround_eqI[of "-6" "4575085335741456 / 2 ^ 58" 24 8521761] by simp_all
  then show "rrf_share 60 (demo_candidate d 0) = 8801162 / 2 ^ 29" "rrf_share 60 (demo_candidate d 1) = 8659208 / 2 ^ 29"
    "rrf_share 60 (demo_candidate d 2) = 8521761 / 2 ^ 29"
    by (simp_all only: rrf_share_def demo_candidate_def Candidate.simps f q) (simp_all add: f q)
qed

lemma rrf_sum_60:
  "rrf_sum 60 [demo_candidate d 0, demo_candidate d 1, demo_candidate d 2] = 12991066 / 2 ^ 28"
  "rrf_sum 60 [demo_candidate d 1, demo_candidate d 2, demo_candidate d 0] = 12991065 / 2 ^ 28"
  "rrf_sum 60 [demo_candidate d 2, demo_candidate d 1, demo_candidate d 0] = 12991065 / 2 ^ 28"
  "rrf_sum 60 [demo_candidate d 0, demo_candidate d 2, demo_candidate d 1] = 12991066 / 2 ^ 28"
proof -
  have first: "fround 24 (rrf_share 60 c) = rrf_share 60 c" for c by (rule rrf_share_idem)
  have s: "fround 24 (8801162 / 2 ^ 29 + 8659208 / 2 ^ 29 :: real) = 8730185 / 2 ^ 28"
    "fround 24 (8659208 / 2 ^ 29 + 8521761 / 2 ^ 29 :: real) = 8590484 / 2 ^ 28"
    "fround 24 (8521761 / 2 ^ 29 + 8659208 / 2 ^ 29 :: real) = 8590484 / 2 ^ 28"
    "fround 24 (8801162 / 2 ^ 29 + 8521761 / 2 ^ 29 :: real) = 8661462 / 2 ^ 28"
    using fround_eqI[of "-5" "8801162 / 2 ^ 29 + 8659208 / 2 ^ 29" 24 8730185] fround_eqI[of "-5" "8659208 / 2 ^ 29 + 8521761 / 2 ^ 29" 24 8590484]
      fround_eqI[of "-5" "8801162 / 2 ^ 29 + 8521761 / 2 ^ 29" 24 8661462] by (simp_all add: add.commute)
  have t: "fround 24 (8730185 / 2 ^ 28 + 8521761 / 2 ^ 29 :: real) = 12991066 / 2 ^ 28"
    "fround 24 (8590484 / 2 ^ 28 + 8801162 / 2 ^ 29 :: real) = 12991065 / 2 ^ 28"
    "fround 24 (8661462 / 2 ^ 28 + 8659208 / 2 ^ 29 :: real) = 12991066 / 2 ^ 28"
    using fround_eqI[of "-5" "8730185 / 2 ^ 28 + 8521761 / 2 ^ 29" 24 12991066] fround_eqI[of "-5" "8590484 / 2 ^ 28 + 8801162 / 2 ^ 29" 24 12991065]
      fround_eqI[of "-5" "8661462 / 2 ^ 28 + 8659208 / 2 ^ 29" 24 12991066] by simp_all
  show "rrf_sum 60 [demo_candidate d 0, demo_candidate d 1, demo_candidate d 2] = 12991066 / 2 ^ 28"
    "rrf_sum 60 [demo_candidate d 1, demo_candidate d 2, demo_candidate d 0] = 12991065 / 2 ^ 28"
    "rrf_sum 60 [demo_candidate d 2, demo_candidate d 1, demo_candidate d 0] = 12991065 / 2 ^ 28"
    "rrf_sum 60 [demo_candidate d 0, demo_candidate d 2, demo_candidate d 1] = 12991066 / 2 ^ 28"
    by (simp_all only: rrf_sum_def foldl.simps add_0 first) (simp_all only: rrf_share_60 s t)
qed

lemma RRF_list_order:
  defines "ls \<equiv> [[demo_candidate 1 0, demo_candidate 2 1], [demo_candidate 1 1, demo_candidate 2 2], [demo_candidate 2 0, demo_candidate 1 2]]"
  shows "map f_Doc (RRF (\<lambda>acc. acc) (sort_key fused_key) 60 ls) = [\<lparr>Segment = 1, Local = 1\<rparr>, \<lparr>Segment = 1, Local = 2\<rparr>]"
    "map f_Doc (RRF (\<lambda>acc. acc) (sort_key fused_key) 60 (rev ls)) = [\<lparr>Segment = 1, Local = 2\<rparr>, \<lparr>Segment = 1, Local = 1\<rparr>]"
proof -
  let ?R = "RRF (\<lambda>acc. acc) (sort_key fused_key) 60" and ?d = "\<lambda>n. \<lparr>Segment = 1, Local = n\<rparr> :: GlobalDocID"
  have R: "?R ms = out"
    if "set (map f_Doc out) = c_Doc ` set (concat ms)" "distinct (map f_Doc out)" "sorted (map fused_key out)"
      "\<forall>f \<in> set out. f_Score f = rrf_sum 60 (filter (\<lambda>c. c_Doc c = f_Doc f) (concat ms))" for ms out
  proof -
    note spec = sorted_acc_spec[OF fusion_ok_id, of "fround 24" "rrf_shares 60 (concat ms)", folded RRF_eq]
    have "fst ` set (rrf_shares 60 (concat ms)) = c_Doc ` set (concat ms)" unfolding rrf_shares_def set_map image_image by simp
    with spec(1) that(1) have "set (map f_Doc (?R ms)) = set (map f_Doc out)" by simp
    moreover have "\<forall>f \<in> set (?R ms). f_Score f = rrf_sum 60 (filter (\<lambda>c. c_Doc c = f_Doc f) (concat ms))"
      using spec(4) unfolding contribution_rrf rrf_const_def by simp
    ultimately show ?thesis
      using fused_unique[where g = "\<lambda>d. rrf_sum 60 (filter (\<lambda>c. c_Doc c = d) (concat ms))", OF _ spec(2) that(2) spec(3) that(3) _ that(4)] by blast
  qed
  have "filter (\<lambda>c. c_Doc c = ?d 1) (concat ls) = [demo_candidate 1 0, demo_candidate 1 1, demo_candidate 1 2]"
    "filter (\<lambda>c. c_Doc c = ?d 2) (concat ls) = [demo_candidate 2 1, demo_candidate 2 2, demo_candidate 2 0]"
    "filter (\<lambda>c. c_Doc c = ?d 1) (concat (rev ls)) = [demo_candidate 1 2, demo_candidate 1 1, demo_candidate 1 0]"
    "filter (\<lambda>c. c_Doc c = ?d 2) (concat (rev ls)) = [demo_candidate 2 0, demo_candidate 2 2, demo_candidate 2 1]"
    by (simp_all add: ls_def demo_candidate_def)
  note f = this[THEN arg_cong, of "rrf_sum 60", unfolded rrf_sum_60]
  have docs: "c_Doc ` set (concat ls) = {?d 1, ?d 2}" by (auto simp: ls_def demo_candidate_def)
  have "?R ls = [\<lparr>f_Doc = ?d 1, f_Score = 12991066 / 2 ^ 28\<rparr>, \<lparr>f_Doc = ?d 2, f_Score = 12991065 / 2 ^ 28\<rparr>]"
    by (rule R) (simp_all only: docs, simp_all add: f fused_key_def)
  then show "map f_Doc (?R ls) = [?d 1, ?d 2]" by simp
  have "c_Doc ` set (concat (rev ls)) = {?d 1, ?d 2}" using docs by simp
  then have "?R (rev ls) = [\<lparr>f_Doc = ?d 2, f_Score = 12991066 / 2 ^ 28\<rparr>, \<lparr>f_Doc = ?d 1, f_Score = 12991065 / 2 ^ 28\<rparr>]"
    by (intro R) (simp_all only:, simp_all add: f fused_key_def insert_commute)
  then show "map f_Doc (?R (rev ls)) = [?d 2, ?d 1]" by simp
qed

subsection \<open>Weighted fusion stays within the weights\<close>

lemma scoreRange_bounds:
  assumes "cs \<noteq> []"
  shows "\<forall>c \<in> set cs. fst (scoreRange cs) \<le> c_Score c \<and> c_Score c \<le> snd (scoreRange cs)"
proof -
  define upd where "upd = (\<lambda>(lo, hi) (c :: Candidate). (if c_Score c < lo then c_Score c else lo, if c_Score c > hi then c_Score c else hi))"
  have "lo \<le> hi \<Longrightarrow> fst (foldl upd (lo, hi) xs) \<le> lo \<and> hi \<le> snd (foldl upd (lo, hi) xs) \<and>
      (\<forall>c \<in> set xs. fst (foldl upd (lo, hi) xs) \<le> c_Score c \<and> c_Score c \<le> snd (foldl upd (lo, hi) xs))" for lo hi xs
  proof (induction xs arbitrary: lo hi)
    case (Cons x xs)
    let ?lo = "min (c_Score x) lo" and ?hi = "max (c_Score x) hi"
    have u: "upd (lo, hi) x = (?lo, ?hi)" by (auto simp: upd_def)
    have "?lo \<le> ?hi" using Cons.prems by simp
    from Cons.IH[OF this] show ?case by (auto simp: u)
  qed simp
  from this[of "c_Score (hd cs)" "c_Score (hd cs)" "tl cs"] assms show ?thesis
    by (cases cs) (auto simp: scoreRange_def upd_def)
qed

text \<open>A normalized score lies in the unit interval.\<close>

lemma norm_unit:
  assumes "c \<in> set cs"
  defines "lo \<equiv> fst (scoreRange cs)" and "hi \<equiv> snd (scoreRange cs)"
  shows "0 \<le> (if hi - lo > 0 then (c_Score c - lo) / (hi - lo) else 1)" "(if hi - lo > 0 then (c_Score c - lo) / (hi - lo) else 1) \<le> 1"
proof -
  have "lo \<le> c_Score c" "c_Score c \<le> hi" using scoreRange_bounds[of cs] assms(1) list.set_intros(1) by (cases cs; auto simp: lo_def hi_def)+
  then show "0 \<le> (if hi - lo > 0 then (c_Score c - lo) / (hi - lo) else 1)"
    "(if hi - lo > 0 then (c_Score c - lo) / (hi - lo) else 1) \<le> 1" by (simp_all add: field_simps)
qed

subsection \<open>Assembled vectors\<close>

text \<open>Every position is written, so nothing of a reused backing array survives, and a model that passes \<open>Check\<close> reads all of it.\<close>

lemma Assemble_eq:
  "Assemble dst ix doc beh =
     [ix_BM25F ix, ix_DenseSim ix, ix_Proximity ix, ix_ExactMatch ix, ix_DocLength ix, dc_PageRank doc, dc_SiteAuthority doc,
      dc_SpamScore doc, dc_Freshness doc, be_ClickRate beh, be_Dwell beh]"
proof -
  have "\<exists>a b c d e f g h i j k. v = [a, b, c, d, e, f, g, h, i, j, k]" if "length v = 11" for v :: Vector
    using that by (simp add: length_Suc_conv eval_nat_numeral) blast
  from this[of "if length dst \<noteq> NumFeatures then New_Vector else dst"] show ?thesis
    by (auto simp: Assemble_def Let_def NumFeatures_def New_Vector_def BM25FScore_def DenseSim_def Proximity_def ExactMatch_def
        DocLength_def PageRankScore_def SiteAuthority_def SpamScore_def Freshness_def ClickRate_def Dwell_def split: if_splits)
qed

lemma linear_score_Check:
  assumes "Check (NewLinearModel ws bias) = None"
  shows "Model_Score (NewLinearModel ws bias) (Assemble dst ix doc beh) = bias + (\<Sum>i<11. ws ! i * Assemble dst ix doc beh ! i)"
proof -
  have "foldl (\<lambda>s i. s + f i) b [0..<n] = b + (\<Sum>i<n. f i)" for f :: "nat \<Rightarrow> real" and b n
    by (induction n) simp_all
  moreover have "min (length ws) (length (Assemble dst ix doc beh)) = 11"
    using assms by (simp add: Check_def NewLinearModel_def NumFeatures_def Assemble_eq split: if_splits)
  ultimately show ?thesis by (simp add: NewLinearModel_def linear_score_def Let_def)
qed

subsection \<open>Reranking\<close>

definition result_sort :: "(real Result list \<Rightarrow> real Result list) \<Rightarrow> bool" where
  "result_sort srt \<longleftrightarrow> (\<forall>xs. mset (srt xs) = mset xs \<and> sorted_wrt (\<lambda>a b. \<not> lessResult b a) (srt xs))"

definition scored_result :: "Model \<Rightarrow> RankCandidate \<Rightarrow> real Result" where
  "scored_result m c = \<lparr>Res_Doc = rc_Doc c, Res_URL = rc_URL c, Res_Score = Model_Score m (Features c)\<rparr>"

text \<open>The second stage adds no document and loses none it should keep. For a positive \<open>k\<close>, below the pool floor the results are the
  first \<open>k\<close> candidates in first-stage order; from the floor on they are \<open>min k n\<close> of the scored candidates, best first, and no candidate left out
  precedes one returned.\<close>

theorem Rerank_exact:
  assumes "result_sort srt" "0 < k"
  shows "case Rerank srt r cands k of (results, reranked) \<Rightarrow>
    (reranked \<longleftrightarrow> cands \<noteq> [] \<and> minPool r \<le> int (length cands)) \<and>
    (\<not> reranked \<longrightarrow> map Res_Doc results = map rc_Doc (take (nat k) cands) \<and> map Res_URL results = map rc_URL (take (nat k) cands)) \<and>
    (reranked \<longrightarrow> length results = min (nat k) (length cands) \<and> sorted_wrt (\<lambda>a b. \<not> lessResult b a) results \<and>
       (\<exists>rest. mset results + mset rest = mset (map (scored_result (rr_model r)) cands) \<and>
          (\<forall>x \<in> set results. \<forall>y \<in> set rest. \<not> lessResult y x)))"
proof (cases "cands \<noteq> [] \<and> minPool r \<le> int (length cands)")
  case True
  let ?s = "srt (map (scored_result (rr_model r)) cands)"
  have m: "mset ?s = mset (map (scored_result (rr_model r)) cands)" "sorted_wrt (\<lambda>a b. \<not> lessResult b a) ?s"
    using assms(1) unfolding result_sort_def by blast+
  then have l: "length ?s = length cands" by (metis length_map size_mset)
  have R: "Rerank srt r cands k = (take (nat k) ?s, True)"
    using True assms(2) l by (simp add: Rerank_def truncate_results_def scored_result_def[abs_def] Let_def)
  have td: "sorted_wrt (\<lambda>a b. \<not> lessResult b a) (take (nat k) ?s @ drop (nat k) ?s)" using m(2) by simp
  then have "sorted_wrt (\<lambda>a b. \<not> lessResult b a) (take (nat k) ?s)"
    "\<forall>x \<in> set (take (nat k) ?s). \<forall>y \<in> set (drop (nat k) ?s). \<not> lessResult y x" unfolding sorted_wrt_append by blast+
  moreover have "mset (take (nat k) ?s) + mset (drop (nat k) ?s) = mset (map (scored_result (rr_model r)) cands)"
    unfolding m(1)[symmetric] mset_append[symmetric] by simp
  moreover have "length (take (nat k) ?s) = min (nat k) (length cands)" by (simp add: l min.commute)
  ultimately show ?thesis unfolding R using True by auto
qed (use assms(2) in \<open>auto simp: Rerank_def passthrough_def comp_def\<close>)

definition result_key :: "real Result \<Rightarrow> real \<times> SegmentID \<times> DocID" where
  "result_key r = (- Res_Score r, Segment (Res_Doc r), Local (Res_Doc r))"

lemma lessResult_key: "lessResult a b \<longleftrightarrow> result_key a < result_key b"
  by (auto simp: lessResult_def result_key_def)

text \<open>Two candidates and a pool floor of two.\<close>

theorem Rerank_exact_witness:
  "let srt = sort_key result_key; m = NewLinearModel [1] 0;
       cand = (\<lambda>x. \<lparr>rc_Doc = \<lparr>Segment = 1, Local = 1\<rparr>, rc_URL = [], Features = [x]\<rparr>)
   in result_sort srt \<and> snd (Rerank srt (NewReranker m 2) [cand 1, cand 2] 1) \<and>
      length (fst (Rerank srt (NewReranker m 2) [cand 1, cand 2] 1)) = 1"
proof -
  have s: "result_sort (sort_key result_key)"
    using sorted_sort_key[of result_key] by (simp add: result_sort_def lessResult_key sorted_map not_less)
  let ?cs = "[\<lparr>rc_Doc = \<lparr>Segment = 1, Local = 1\<rparr>, rc_URL = [], Features = [1]\<rparr>, \<lparr>rc_Doc = \<lparr>Segment = 1, Local = 1\<rparr>, rc_URL = [], Features = [2]\<rparr>]"
  from Rerank_exact[OF s, where k = 1 and r = "NewReranker (NewLinearModel [1] 0) 2" and cands = ?cs] s show ?thesis
    by (auto simp: Let_def NewReranker_def split: prod.splits)
qed

end
