(* ===== verification/BitPack.thy ===== *)
theory BitPack
  imports Prelude
begin

text \<open>
  \<open>index/postings/bitpack.go\<close>: the frame-of-reference bit packing of a block of 32-bit values
  at a fixed width, its inverse, and the LEB128 unsigned varints. The accumulator is the
  64-bit word of the source; a read past the end of the input is a Go panic (\<open>None\<close>).
\<close>

definition BlockSize :: nat where
  "BlockSize = 128"

definition minWidth :: "u32 \<Rightarrow> nat" where
  "minWidth v = (if v = 0 then 1 else bits_Len (unat v))"

definition maxWidth :: "u32 list \<Rightarrow> nat" where
  "maxWidth vs = minWidth (foldl (\<lambda>m v. if v > m then v else m) 0 vs)"

text \<open>The inner loop \<open>for nbits >= 8\<close> of \<open>packBits\<close>.\<close>

fun packBits_flush :: "bytes \<Rightarrow> u64 \<Rightarrow> nat \<Rightarrow> bytes \<times> u64 \<times> nat" where
  "packBits_flush dst acc nbits =
     (if nbits \<ge> 8 then packBits_flush (dst @ [ucast acc]) (drop_bit 8 acc) (nbits - 8)
      else (dst, acc, nbits))"

declare packBits_flush.simps [simp del]

fun packBits_loop :: "bytes \<Rightarrow> u64 \<Rightarrow> nat \<Rightarrow> nat \<Rightarrow> u32 list \<Rightarrow> bytes" where
  "packBits_loop dst acc nbits width [] = (if nbits > 0 then dst @ [ucast acc] else dst)"
| "packBits_loop dst acc nbits width (v # vs) =
     (let (dst', acc', nbits') =
        packBits_flush dst (acc OR push_bit nbits (ucast v)) (nbits + width)
      in packBits_loop dst' acc' nbits' width vs)"

definition packBits :: "bytes \<Rightarrow> u32 list \<Rightarrow> nat \<Rightarrow> bytes" where
  "packBits dst vs width = packBits_loop dst 0 0 (if width = 0 then 1 else width) vs"

text \<open>The inner loop \<open>for nbits < width\<close> of \<open>unpackBits\<close>; \<open>src[pos]\<close> panics past the end.\<close>

function unpackBits_fill :: "bytes \<Rightarrow> nat \<Rightarrow> u64 \<Rightarrow> nat \<Rightarrow> nat \<Rightarrow> (u64 \<times> nat \<times> nat) option" where
  "unpackBits_fill src width acc nbits pos =
     (if nbits < width then
        if pos < length src
        then unpackBits_fill src width (acc OR push_bit nbits (ucast (src ! pos))) (nbits + 8) (pos + 1)
        else None
      else Some (acc, nbits, pos))"
  by pat_completeness auto
termination by (relation "measure (\<lambda>(src, width, acc, nbits, pos). width - nbits)") auto

declare unpackBits_fill.simps [simp del]

fun unpackBits_loop :: "bytes \<Rightarrow> nat \<Rightarrow> nat \<Rightarrow> u64 \<Rightarrow> nat \<Rightarrow> nat \<Rightarrow> (u32 list \<times> nat) option" where
  "unpackBits_loop src 0 width acc nbits pos = Some ([], pos)"
| "unpackBits_loop src (Suc cnt) width acc nbits pos =
     (case unpackBits_fill src width acc nbits pos of
        None \<Rightarrow> None
      | Some (acc', nbits', pos') \<Rightarrow>
          map_option (\<lambda>(vs, p). (ucast (acc' AND (push_bit width 1 - 1)) # vs, p))
            (unpackBits_loop src cnt width (drop_bit width acc') (nbits' - width) pos'))"

definition unpackBits :: "bytes \<Rightarrow> nat \<Rightarrow> nat \<Rightarrow> (u32 list \<times> nat) option" where
  "unpackBits src cnt width = unpackBits_loop src cnt (if width = 0 then 1 else width) 0 0 0"

definition packedLen :: "nat \<Rightarrow> nat \<Rightarrow> nat" where
  "packedLen cnt width = (cnt * (if width = 0 then 1 else width) + 7) div 8"

function appendUvarint :: "bytes \<Rightarrow> u64 \<Rightarrow> bytes" where
  "appendUvarint dst x =
     (if x \<ge> 0x80 then appendUvarint (dst @ [ucast x OR 0x80]) (drop_bit 7 x)
      else dst @ [ucast x])"
  by pat_completeness auto
termination
proof (relation "measure (\<lambda>(dst, x). unat x)")
  fix dst :: bytes and x :: u64
  assume "x \<ge> 0x80"
  then have "128 \<le> unat x" by (simp add: word_le_nat_alt)
  then show "((dst @ [ucast x OR 0x80], drop_bit 7 x), dst, x) \<in> measure (\<lambda>(dst, x). unat x)"
    by (simp add: unat_drop_bit)
qed simp

declare appendUvarint.simps [simp del]

fun readUvarint_loop :: "u64 \<Rightarrow> nat \<Rightarrow> nat \<Rightarrow> bytes \<Rightarrow> u64 \<times> nat" where
  "readUvarint_loop x s i [] = (0, 0)"
| "readUvarint_loop x s i (b # bs) =
     (if b < 0x80 then (x OR push_bit s (ucast b), i + 1)
      else readUvarint_loop (x OR push_bit s (ucast (b AND 0x7f))) (s + 7) (i + 1) bs)"

definition readUvarint :: "bytes \<Rightarrow> u64 \<times> nat" where
  "readUvarint src = readUvarint_loop 0 0 0 src"

subsection \<open>Widths\<close>

lemma minWidth_pos [simp]: "0 < minWidth v"
  by (auto simp: minWidth_def bits_Len.simps[of "unat v"] unat_eq_0)

lemma minWidth_le32: "minWidth v \<le> 32"
  using bits_Len_le[of "unat v" 32] by (simp add: minWidth_def)

lemma minWidth_fits: "unat v < 2 ^ minWidth v"
  by (simp add: minWidth_def bits_Len_bound)

lemma foldl_max_ge:
  "(m :: 'a::linorder) \<le> foldl (\<lambda>m v. if v > m then v else m) m vs"
  "v \<in> set vs \<Longrightarrow> v \<le> foldl (\<lambda>m v. if v > m then v else m) m vs"
proof (induction vs arbitrary: m)
  case (Cons a vs)
  { case 1 show ?case using Cons.IH(1)[of "if a > m then a else m"] by (simp split: if_splits) }
  { case 2 then show ?case
      using Cons.IH(1)[of "if a > m then a else m"] Cons.IH(2)[of "if a > m then a else m"]
      by (auto split: if_splits) }
qed auto

lemma maxWidth_fits:
  assumes "v \<in> set vs"
  shows "unat v < 2 ^ maxWidth vs"
proof -
  let ?m = "foldl (\<lambda>m v. if v > m then v else m) 0 vs"
  have "unat v \<le> unat ?m" using foldl_max_ge(2)[OF assms] by (simp add: word_le_nat_alt)
  also have "\<dots> < 2 ^ minWidth ?m" by (rule minWidth_fits)
  finally show ?thesis by (simp add: maxWidth_def)
qed

lemma maxWidth_range: "1 \<le> maxWidth vs" "maxWidth vs \<le> 32"
  by (simp_all add: maxWidth_def minWidth_le32 Suc_le_eq)

subsection \<open>Packing writes the bit stream of its values\<close>

lemma packBits_flush_spec:
  assumes "packBits_flush dst acc nbits = (dst', acc', nbits')" and "unat acc < 2 ^ nbits"
  shows "\<exists>em. dst' = dst @ em \<and> nbits' < 8 \<and> nbits = 8 * length em + nbits' \<and>
    unat acc' < 2 ^ nbits' \<and> bytes_val em + 2 ^ (8 * length em) * unat acc' = unat acc"
  using assms
proof (induction dst acc nbits rule: packBits_flush.induct)
  case (1 dst acc nbits)
  show ?case
  proof (cases "nbits \<ge> 8")
    case True
    have small: "unat (drop_bit 8 acc) < 2 ^ (nbits - 8)"
      using True 1(3) by (rule unat_drop_bit_less)
    from True 1(2) have "packBits_flush (dst @ [ucast acc]) (drop_bit 8 acc) (nbits - 8) = (dst', acc', nbits')"
      by (simp add: packBits_flush.simps[of dst])
    from 1(1)[OF True this small] obtain em where em: "dst' = dst @ ucast acc # em" "nbits' < 8"
      "nbits - 8 = 8 * length em + nbits'" "unat acc' < 2 ^ nbits'"
      "bytes_val em + 2 ^ (8 * length em) * unat acc' = unat acc div 256"
      by (auto simp: unat_drop_bit)
    have "unat acc mod 256 + 256 * (unat acc div 256) = unat acc" by simp
    then have "bytes_val (ucast acc # em) + 2 ^ (8 * length (ucast acc # em)) * unat acc' = unat acc"
      unfolding em(5)[symmetric] by (simp add: unat_ucast_mod algebra_simps power_add)
    with em True show ?thesis by (intro exI[of _ "ucast acc # em"]) auto
  next
    case False
    with 1 show ?thesis by (simp add: packBits_flush.simps[of dst])
  qed
qed

lemma packBits_loop_spec:
  assumes "unat acc < 2 ^ nbits" "nbits < 8" "1 \<le> w" "w \<le> 32" "\<forall>v \<in> set vs. unat v < 2 ^ w"
  shows "\<exists>em. packBits_loop dst acc nbits w vs = dst @ em \<and>
    bytes_val em = unat acc + 2 ^ nbits * digits_val w (map unat vs) \<and>
    length em = (nbits + length vs * w + 7) div 8"
  using assms
proof (induction vs arbitrary: dst acc nbits)
  case Nil
  show ?case
  proof (cases "nbits > 0")
    case True
    have "unat acc < 256"
      by (rule less_le_trans[OF Nil.prems(1)]) (use Nil.prems(2) power_increasing[of nbits 8 "2::nat"] in simp)
    with True Nil show ?thesis by (intro exI[of _ "[ucast acc]"]) (simp add: unat_ucast_mod)
  qed (use Nil in simp)
next
  case (Cons v vs)
  let ?acc = "acc OR push_bit nbits (ucast v)"
  obtain dst' acc' nbits' where fl: "packBits_flush dst ?acc (nbits + w) = (dst', acc', nbits')"
    by (cases "packBits_flush dst ?acc (nbits + w)") auto
  have v: "unat v < 2 ^ w" using Cons.prems by simp
  have "unat v * 2 ^ nbits < 2 ^ (w + nbits)" using v by (simp add: power_add)
  also have "\<dots> \<le> 2 ^ 64" using Cons.prems by (intro power_increasing) auto
  finally have acc: "unat ?acc = unat acc + unat v * 2 ^ nbits"
    using Cons.prems by (subst unat_or_push_bit) auto
  have "unat acc + unat v * 2 ^ nbits < (1 + unat v) * 2 ^ nbits" using Cons.prems by simp
  also have "\<dots> \<le> 2 ^ w * 2 ^ nbits" using v by (intro mult_le_mono1) simp
  finally have "unat ?acc < 2 ^ (nbits + w)" by (simp add: acc power_add mult.commute)
  from packBits_flush_spec[OF fl this] obtain em where em: "dst' = dst @ em" "nbits' < 8"
    "nbits + w = 8 * length em + nbits'" "unat acc' < 2 ^ nbits'"
    "bytes_val em + 2 ^ (8 * length em) * unat acc' = unat ?acc" by blast
  from Cons.IH[OF em(4,2)] Cons.prems obtain em' where em': "packBits_loop dst' acc' nbits' w vs = dst' @ em'"
    "bytes_val em' = unat acc' + 2 ^ nbits' * digits_val w (map unat vs)"
    "length em' = (nbits' + length vs * w + 7) div 8" by auto
  have pw: "(2::nat) ^ (8 * length em) * 2 ^ nbits' = 2 ^ nbits * 2 ^ w"
    using em(3) by (simp flip: power_add)
  have "bytes_val (em @ em') = bytes_val em + 2 ^ (8 * length em) * unat acc'
      + 2 ^ (8 * length em) * 2 ^ nbits' * digits_val w (map unat vs)"
    by (simp add: digits_val_append em'(2) algebra_simps)
  also have "\<dots> = unat acc + 2 ^ nbits * digits_val w (map unat (v # vs))"
    unfolding em(5) acc pw by (simp add: algebra_simps)
  finally show ?case using fl em em' by (intro exI[of _ "em @ em'"]) auto
qed

lemma packBits_bytes_val:
  assumes "1 \<le> w" "w \<le> 32" "\<forall>v \<in> set vs. unat v < 2 ^ w"
  obtains em where "packBits dst vs w = dst @ em" "bytes_val em = digits_val w (map unat vs)"
    "length em = packedLen (length vs) w"
  using packBits_loop_spec[of 0 0 w vs dst] assms by (auto simp: packBits_def packedLen_def)

subsection \<open>Unpacking reads it back\<close>

lemma unpackBits_fill_spec:
  assumes "unat acc < 2 ^ nbits" "w \<le> 32" "pos \<le> length src" "w \<le> nbits + 8 * (length src - pos)"
  shows "\<exists>acc' nbits' pos'. unpackBits_fill src w acc nbits pos = Some (acc', nbits', pos') \<and>
    unat acc' < 2 ^ nbits' \<and> w \<le> nbits' \<and> nbits' < max (w + 8) (nbits + 1) \<and> pos' \<le> length src \<and>
    nbits' + 8 * pos = nbits + 8 * pos' \<and>
    unat acc' + 2 ^ nbits' * bytes_val (drop pos' src) = unat acc + 2 ^ nbits * bytes_val (drop pos src)"
  using assms
proof (induction src w acc nbits pos rule: unpackBits_fill.induct)
  case (1 src w acc nbits pos)
  show ?case
  proof (cases "nbits < w")
    case True
    with 1(5) have pos: "pos < length src" by auto
    let ?b = "src ! pos" and ?acc = "acc OR push_bit nbits (ucast (src ! pos))"
    have "unat ?b * 2 ^ nbits < 2 ^ (8 + nbits)"
      unfolding power_add by (rule mult_strict_right_mono) (use unat_byte_less[of ?b] in simp_all)
    also have "\<dots> \<le> 2 ^ 64" using True 1(3) by (intro power_increasing) auto
    finally have acc: "unat ?acc = unat acc + unat ?b * 2 ^ nbits"
      using 1(2) by (subst unat_or_push_bit) auto
    have "unat acc + unat ?b * 2 ^ nbits < (1 + unat ?b) * 2 ^ nbits" using 1(2) by simp
    also have "\<dots> \<le> 2 ^ 8 * 2 ^ nbits"
      by (intro mult_le_mono1) (use unat_byte_less[of ?b] in \<open>simp add: Suc_le_eq\<close>)
    finally have lt: "unat ?acc < 2 ^ (nbits + 8)" by (simp add: acc power_add)
    have dr: "drop pos src = ?b # drop (pos + 1) src" using pos by (simp add: Cons_nth_drop_Suc)
    have val: "unat ?acc + 2 ^ (nbits + 8) * bytes_val (drop (pos + 1) src)
        = unat acc + 2 ^ nbits * bytes_val (drop pos src)"
      unfolding dr acc by (simp add: power_add algebra_simps)
    from 1(1)[OF True pos lt 1(3)] pos 1(5) True obtain acc' nbits' pos' where
      "unpackBits_fill src w ?acc (nbits + 8) (pos + 1) = Some (acc', nbits', pos')"
      "unat acc' < 2 ^ nbits'" "w \<le> nbits'" "nbits' < max (w + 8) (nbits + 9)" "pos' \<le> length src"
      "nbits' + 8 * (pos + 1) = nbits + 8 + 8 * pos'"
      "unat acc' + 2 ^ nbits' * bytes_val (drop pos' src) = unat ?acc + 2 ^ (nbits + 8) * bytes_val (drop (pos + 1) src)"
      by fastforce
    with True pos show ?thesis unfolding val by (subst unpackBits_fill.simps) auto
  next
    case False
    then have "unpackBits_fill src w acc nbits pos = Some (acc, nbits, pos)"
      by (simp add: unpackBits_fill.simps[of src])
    with False 1(2,4) show ?thesis by simp
  qed
qed

lemma and_low_mask: "(a :: u64) AND (push_bit w 1 - 1) = take_bit w a"
  by (simp add: take_bit_eq_mask mask_eq_exp_minus_1)

lemma digits_step:
  assumes "w \<le> n" "(T::nat) = a + 2 ^ n * R"
  shows "T mod 2 ^ w = a mod 2 ^ w" and "a div 2 ^ w + 2 ^ (n - w) * R = T div 2 ^ w"
proof -
  have "(2::nat) ^ n = 2 ^ w * 2 ^ (n - w)" using assms(1) by (simp flip: power_add)
  then have T: "T = a + 2 ^ w * (2 ^ (n - w) * R)" using assms(2) by (simp add: mult.assoc)
  show "T mod 2 ^ w = a mod 2 ^ w" by (simp add: T)
  show "a div 2 ^ w + 2 ^ (n - w) * R = T div 2 ^ w" unfolding T by simp
qed

lemma unpackBits_loop_spec:
  assumes "unat acc < 2 ^ nbits" "nbits < 8" "1 \<le> w" "w \<le> 32" "\<forall>v \<in> set vs. unat v < 2 ^ w"
    and "pos \<le> length src" "w * length vs \<le> nbits + 8 * (length src - pos)"
    and "(unat acc + 2 ^ nbits * bytes_val (drop pos src)) mod 2 ^ (w * length vs) = digits_val w (map unat vs)"
  shows "\<exists>p. unpackBits_loop src (length vs) w acc nbits pos = Some (vs, p) \<and>
    p = pos + (w * length vs + 7 - nbits) div 8"
  using assms
proof (induction vs arbitrary: acc nbits pos)
  case Nil
  then show ?case by simp
next
  case (Cons v vs)
  let ?T = "unat acc + 2 ^ nbits * bytes_val (drop pos src)"
  have "w \<le> w * length (v # vs)" by simp
  with Cons.prems(7) have "w \<le> nbits + 8 * (length src - pos)" by linarith
  from unpackBits_fill_spec[OF Cons.prems(1,4,6) this] obtain acc' nbits' pos' where
    fl: "unpackBits_fill src w acc nbits pos = Some (acc', nbits', pos')" and
    f: "unat acc' < 2 ^ nbits'" "w \<le> nbits'" "nbits' < max (w + 8) (nbits + 1)" "pos' \<le> length src"
      "nbits' + 8 * pos = nbits + 8 * pos'" "?T = unat acc' + 2 ^ nbits' * bytes_val (drop pos' src)" by auto
  note st = digits_step[OF f(2,6)]
  have split: "?T mod 2 ^ (w * length (v # vs)) = ?T mod 2 ^ w + 2 ^ w * (?T div 2 ^ w mod 2 ^ (w * length vs))"
    by (simp add: power_add mod_mult2_eq)
  have v: "unat v < 2 ^ w" using Cons.prems by simp
  have eq: "?T mod 2 ^ w + 2 ^ w * (?T div 2 ^ w mod 2 ^ (w * length vs))
      = unat v + 2 ^ w * digits_val w (map unat vs)"
    using Cons.prems(8) unfolding split by simp
  have d: "?T mod 2 ^ w = unat v" using arg_cong[OF eq, of "\<lambda>x. x mod 2 ^ w"] v by simp
  with eq have r: "?T div 2 ^ w mod 2 ^ (w * length vs) = digits_val w (map unat vs)" by simp
  have hd: "ucast (acc' AND (push_bit w 1 - 1)) = v"
  proof (rule word_unat_eq_iff[THEN iffD2])
    have "(2::nat) ^ w \<le> 2 ^ 32" using Cons.prems(4) by (intro power_increasing) auto
    then show "unat (ucast (acc' AND (push_bit w 1 - 1)) :: u32) = unat v"
      unfolding and_low_mask unat_ucast_mod unat_take_bit using d st(1) v by simp
  qed
  have nb: "nbits' - w < 8" using f(2,3) Cons.prems(2) by auto
  have le: "unat (drop_bit w acc') < 2 ^ (nbits' - w)"
    using f(2,1) by (rule unat_drop_bit_less)
  have room: "w * length vs \<le> nbits' - w + 8 * (length src - pos')"
    using Cons.prems(6,7) f(2,4,5) by (simp add: algebra_simps)
  have "(unat (drop_bit w acc') + 2 ^ (nbits' - w) * bytes_val (drop pos' src)) mod 2 ^ (w * length vs)
      = digits_val w (map unat vs)" unfolding unat_drop_bit st(2) by (rule r)
  from Cons.IH[OF le nb Cons.prems(3,4) _ f(4) room this] Cons.prems(5) obtain p where
    "unpackBits_loop src (length vs) w (drop_bit w acc') (nbits' - w) pos' = Some (vs, p)"
    "p = pos' + (w * length vs + 7 - (nbits' - w)) div 8" by auto
  moreover have "pos' + (w * length vs + 7 - (nbits' - w)) div 8 = pos + (w * length (v # vs) + 7 - nbits) div 8"
    using f(2,5) nb Cons.prems(2) by (simp add: algebra_simps)
  ultimately show ?case using fl hd by simp
qed

lemma less_mod_ge8: "n \<le> 8 * ((n + 7) div 8)" for n :: nat
  by linarith

lemma digits_val_bound_set:
  "(\<forall>v \<in> set vs. unat (v :: u32) < 2 ^ w) \<Longrightarrow> digits_val w (map unat vs) < 2 ^ (w * length vs)"
  using digits_val_less[of "map unat vs" w] by auto

text \<open>Unpacking what \<open>packBits\<close> appended returns the values and consumes exactly the packed
  bytes, whatever follows them.\<close>

lemma unpack_packBits [codec]:
  assumes "1 \<le> w" "w \<le> 32" "\<forall>v \<in> set vs. unat v < 2 ^ w" "n = length vs"
  shows "unpackBits (packBits [] vs w @ rest) n w = Some (vs, packedLen n w)"
proof -
  obtain em where em: "packBits [] vs w = em" "bytes_val em = digits_val w (map unat vs)"
    "length em = packedLen (length vs) w"
    using packBits_bytes_val[OF assms(1-3), of "[]"] by auto
  have le: "w * length vs \<le> 8 * length em" using assms(1) less_mod_ge8[of "length vs * w"]
    by (simp add: em(3) packedLen_def mult.commute)
  have dvd: "(2::nat) ^ (w * length vs) dvd 2 ^ (8 * length em)" using le by (rule le_imp_power_dvd)
  have "bytes_val (em @ rest) mod 2 ^ (w * length vs) = digits_val w (map unat vs)"
    using digits_val_bound_set[OF assms(3)] dvd
    by (simp add: digits_val_append em(2) mod_add_right_eq[symmetric] dvd_imp_mod_0 del: mod_add_right_eq)
  then have "\<exists>p. unpackBits_loop (em @ rest) (length vs) w 0 0 0 = Some (vs, p) \<and>
      p = 0 + (w * length vs + 7 - 0) div 8"
    using assms le by (intro unpackBits_loop_spec) auto
  with assms em(1) show ?thesis by (simp add: unpackBits_def packedLen_def mult.commute)
qed

lemma packBits_flush_append:
  "packBits_flush (pre @ dst) acc n = apfst ((@) pre) (packBits_flush dst acc n)"
proof (induction dst acc n rule: packBits_flush.induct)
  case (1 dst acc n)
  then show ?case
    by (cases "8 \<le> n") (simp_all add: packBits_flush.simps[of dst] packBits_flush.simps[of "pre @ dst"])
qed

lemma packBits_loop_append: "packBits_loop (pre @ dst) acc n w vs = pre @ packBits_loop dst acc n w vs"
  by (induction vs arbitrary: dst acc n) (simp_all add: packBits_flush_append split: prod.splits)

lemma packBits_append: "packBits dst vs w = dst @ packBits [] vs w"
  using packBits_loop_append[of dst "[]"] by (simp add: packBits_def)

lemma length_packBits:
  "1 \<le> w \<Longrightarrow> w \<le> 32 \<Longrightarrow> \<forall>v \<in> set vs. unat v < 2 ^ w \<Longrightarrow>
   length (packBits [] vs w) = packedLen (length vs) w"
  by (erule (2) packBits_bytes_val[where dst = "[]"]) simp

subsection \<open>Unsigned varints\<close>

lemma appendUvarint_pre: "appendUvarint (pre @ dst) x = pre @ appendUvarint dst x"
proof (induction dst x rule: appendUvarint.induct)
  case (1 dst x)
  then show ?case
    by (cases "x \<ge> 0x80") (simp_all add: appendUvarint.simps[of dst] appendUvarint.simps[of "pre @ dst"])
qed

lemma appendUvarint_append: "appendUvarint dst x = dst @ appendUvarint [] x"
  using appendUvarint_pre[of dst "[]"] by simp

lemma appendUvarint_step:
  "x \<ge> 0x80 \<Longrightarrow> appendUvarint [] x = (ucast x OR 0x80) # appendUvarint [] (drop_bit 7 x)"
  "x < 0x80 \<Longrightarrow> appendUvarint [] x = [ucast x]"
  using appendUvarint_append[of "[ucast x OR 0x80]" "drop_bit 7 x"]
  by (auto simp: appendUvarint.simps[of "[]" x])

text \<open>\<open>byte(x)|0x80\<close> carries the continuation bit and the low seven bits of \<open>x\<close>.\<close>

lemma continuation_byte:
  fixes x :: u64
  shows "\<not> (ucast x OR 0x80 :: byte) < 0x80" "unat ((ucast x OR 0x80 :: byte) AND 0x7f) = unat x mod 128"
proof -
  have "(0x80 :: byte) \<le> ucast x OR 0x80" by (simp add: le_word_or1)
  then show "\<not> (ucast x OR 0x80 :: byte) < 0x80" by simp
  have "((ucast x OR 0x80) :: byte) AND 0x7f = take_bit 7 (ucast x)"
    by (rule bit_word_eqI) (auto simp: bit_simps less_Suc_eq eval_nat_numeral)
  then show "unat ((ucast x OR 0x80 :: byte) AND 0x7f) = unat x mod 128"
    by (simp add: unat_take_bit unat_ucast_mod mod_mod_cancel)
qed

lemma readUvarint_loop_spec:
  assumes "unat x < 2 ^ s" "unat y * 2 ^ s < 2 ^ 64"
  shows "\<exists>z. readUvarint_loop x s i (appendUvarint [] y @ rest) = (z, i + length (appendUvarint [] y)) \<and>
    unat z = unat x + unat y * 2 ^ s"
  using assms
proof (induction "unat y" arbitrary: x s i y rule: less_induct)
  case less
  show ?case
  proof (cases "y \<ge> 0x80")
    case True
    then have big: "128 \<le> unat y" by (simp add: word_le_nat_alt)
    let ?b = "ucast y OR 0x80 :: byte" and ?y = "drop_bit 7 y"
    let ?x = "x OR push_bit s (ucast (?b AND 0x7f)) :: u64"
    have yy: "unat y = unat y mod 128 + 128 * unat ?y" by (simp add: unat_drop_bit)
    have "unat y mod 128 * 2 ^ s \<le> unat y * 2 ^ s" by simp
    with less.prems have le: "unat y mod 128 * 2 ^ s < 2 ^ 64" by linarith
    have x: "unat ?x = unat x + unat y mod 128 * 2 ^ s"
      using less.prems le continuation_byte(2)[of y] by (subst unat_or_push_bit) simp_all
    have lt: "unat ?x < 2 ^ (s + 7)"
      using digit_acc_less[OF less.prems(1), of "unat y" 7] by (simp add: x)
    have "unat ?y * 2 ^ (s + 7) \<le> unat y * 2 ^ s" by (subst yy) (simp add: power_add)
    with less.prems have fit: "unat ?y * 2 ^ (s + 7) < 2 ^ 64" by simp
    have dec: "unat ?y < unat y" using big by (simp add: unat_drop_bit)
    from less.hyps[OF dec lt fit, of "i + 1"] obtain z where
      z: "readUvarint_loop ?x (s + 7) (i + 1) (appendUvarint [] ?y @ rest) = (z, i + 1 + length (appendUvarint [] ?y))"
      "unat z = unat ?x + unat ?y * 2 ^ (s + 7)" by auto
    have "unat z = unat x + unat y * 2 ^ s"
      unfolding z(2) x unat_drop_bit using digit_fold[of "unat y" 7 s] by simp
    with z(1) True continuation_byte(1)[of y] show ?thesis by (simp add: appendUvarint_step)
  next
    case False
    then have sm: "unat y < 128" by (simp add: word_le_nat_alt)
    have b: "(ucast y :: byte) < 0x80" using sm by (simp add: word_less_nat_alt unat_ucast_mod)
    have "unat (ucast (ucast y :: byte) :: u64) = unat y" using sm by (simp add: unat_ucast_mod)
    with less.prems have "unat (x OR push_bit s (ucast (ucast y :: byte))) = unat x + unat y * 2 ^ s"
      by (subst unat_or_push_bit) simp_all
    with False b show ?thesis by (simp add: appendUvarint_step)
  qed
qed

lemma read_appendUvarint [codec]:
  "readUvarint (appendUvarint [] y @ rest) = (y, length (appendUvarint [] y))"
proof -
  have "unat (0::u64) < 2 ^ 0" "unat y * 2 ^ 0 < 2 ^ 64" by simp_all
  from readUvarint_loop_spec[OF this, of 0 rest] show ?thesis
    by (auto simp: readUvarint_def word_unat_eq_iff)
qed

subsection \<open>Properties\<close>

text \<open>Bit packing is lossless. Values that fit in \<open>w\<close> bits, packed by \<open>packBits\<close> behind any bytes
  and followed by any bytes, are read back by \<open>unpackBits\<close>, which consumes exactly the
  \<open>packedLen\<close> bytes that were written.\<close>

theorem packBits_roundtrip:
  assumes "1 \<le> w" "w \<le> 32" "\<forall>v \<in> set vs. unat v < 2 ^ w"
  shows "unpackBits (packBits [] vs w @ rest) (length vs) w = Some (vs, packedLen (length vs) w)
    \<and> length (packBits [] vs w) = packedLen (length vs) w"
  using unpack_packBits[OF assms refl] packBits_bytes_val[OF assms, of "[]"] by auto

theorem packBits_roundtrip_witness:
  "unpackBits (packBits [] [5, 0, 7] 3 @ [0xFF]) 3 3 = Some ([5, 0, 7], 2)"
proof -
  have "length [5, 0, 7 :: u32] = 3" "packedLen 3 3 = 2" by (simp_all add: packedLen_def)
  then show ?thesis using packBits_roundtrip[of 3 "[5, 0, 7]" "[0xFF]"] by (simp del: list.size)
qed

end
