(* ===== verification/GroupVarint.thy ===== *)
theory GroupVarint
  imports BitPack
begin

text \<open>
  \<open>index/postings/groupvarint.go\<close>: integers four at a time behind one control byte of 2-bit
  lengths. The model follows the source's loop over groups of four; a read past the end of the
  input is a Go panic (\<open>None\<close>).
\<close>

definition byteLen :: "u32 \<Rightarrow> nat" where
  "byteLen v = (if v < 2 ^ 8 then 1 else if v < 2 ^ 16 then 2 else if v < 2 ^ 24 then 3 else 4)"

text \<open>The control byte of a group: \<open>ctrl |= byte(l-1) << uint(2*j)\<close> for the values from index \<open>j\<close>.\<close>

fun group_ctrl :: "nat \<Rightarrow> byte \<Rightarrow> u32 list \<Rightarrow> byte" where
  "group_ctrl j ctrl [] = ctrl"
| "group_ctrl j ctrl (v # vs) =
     group_ctrl (j + 1) (ctrl OR push_bit (2 * j) (of_nat (byteLen v - 1))) vs"

text \<open>The data bytes of one value: \<open>lens[j]\<close> bytes, least significant first.\<close>

fun group_bytes :: "nat \<Rightarrow> u32 \<Rightarrow> bytes" where
  "group_bytes 0 v = []"
| "group_bytes (Suc l) v = ucast v # group_bytes l (drop_bit 8 v)"

function appendGroupVarint :: "bytes \<Rightarrow> u32 list \<Rightarrow> bytes" where
  "appendGroupVarint dst vs =
     (if vs = [] then dst
      else let g = take 4 vs
           in appendGroupVarint
                (dst @ [group_ctrl 0 0 g] @ concat (map (\<lambda>v. group_bytes (byteLen v) v) g))
                (drop 4 vs))"
  by pat_completeness auto
termination by (relation "measure (\<lambda>(dst, vs). length vs)") auto

declare appendGroupVarint.simps [simp del]

text \<open>\<open>for b := range l { v |= uint32(src[pos]) << uint(8*b); pos++ }\<close>\<close>

fun readGroup_value :: "bytes \<Rightarrow> nat \<Rightarrow> nat \<Rightarrow> nat \<Rightarrow> u32 \<Rightarrow> (u32 \<times> nat) option" where
  "readGroup_value src 0 b pos v = Some (v, pos)"
| "readGroup_value src (Suc l) b pos v =
     (if pos < length src
      then readGroup_value src l (b + 1) (pos + 1) (v OR push_bit (8 * b) (ucast (src ! pos)))
      else None)"

text \<open>The loop over the \<open>n\<close> values of a group, from index \<open>j\<close>.\<close>

fun readGroup_values :: "bytes \<Rightarrow> byte \<Rightarrow> nat \<Rightarrow> nat \<Rightarrow> nat \<Rightarrow> (u32 list \<times> nat) option" where
  "readGroup_values src ctrl j 0 pos = Some ([], pos)"
| "readGroup_values src ctrl j (Suc n) pos =
     (case readGroup_value src (unat (drop_bit (2 * j) ctrl AND 3) + 1) 0 pos 0 of
        None \<Rightarrow> None
      | Some (v, pos') \<Rightarrow>
          map_option (apfst ((#) v)) (readGroup_values src ctrl (j + 1) n pos'))"

function readGroup_loop :: "bytes \<Rightarrow> nat \<Rightarrow> nat \<Rightarrow> (u32 list \<times> nat) option" where
  "readGroup_loop src cnt pos =
     (if cnt = 0 then Some ([], pos)
      else if pos < length src then
        (case readGroup_values src (src ! pos) 0 (min 4 cnt) (pos + 1) of
           None \<Rightarrow> None
         | Some (vs, pos') \<Rightarrow> map_option (apfst ((@) vs)) (readGroup_loop src (cnt - 4) pos'))
      else None)"
  by pat_completeness auto
termination by (relation "measure (\<lambda>(src, cnt, pos). cnt)") auto

declare readGroup_loop.simps [simp del]

definition readGroupVarint :: "bytes \<Rightarrow> nat \<Rightarrow> (u32 list \<times> nat) option" where
  "readGroupVarint src cnt = readGroup_loop src cnt 0"

subsection \<open>One value\<close>

lemma byteLen_range: "1 \<le> byteLen v" "byteLen v \<le> 4"
  by (simp_all add: byteLen_def)

lemma byteLen_Suc: obtains d where "byteLen v = Suc d" "d < 4"
  using byteLen_range[of v] by (cases "byteLen v") auto

lemma byteLen_fits: "unat v < 2 ^ (8 * byteLen v)"
  by (auto simp: byteLen_def word_less_nat_alt)

lemma length_group_bytes [simp]: "length (group_bytes l v) = l"
  by (induction l arbitrary: v) auto

lemma readGroup_value_spec:
  assumes "unat v < 2 ^ (8 * l)" "unat a < 2 ^ (8 * b)" "b + l \<le> 4" "drop pos src = group_bytes l v @ rest"
  shows "\<exists>z. readGroup_value src l b pos a = Some (z, pos + l) \<and> unat z = unat a + unat v * 2 ^ (8 * b)"
  using assms
proof (induction l arbitrary: v a b pos)
  case (Suc l)
  then have "drop pos src = ucast v # group_bytes l (drop_bit 8 v) @ rest" by simp
  note pos = drop_eq_ConsD[OF this]
  let ?a = "a OR push_bit (8 * b) (ucast (src ! pos))"
  have small: "unat v mod 256 * 2 ^ (8 * b) < 2 ^ (8 * b + 8)" by (simp add: power_add)
  also have "\<dots> \<le> 2 ^ 32" using Suc.prems(3) by (intro power_increasing) auto
  finally have a: "unat ?a = unat a + unat v mod 256 * 2 ^ (8 * b)"
    using Suc.prems(2) by (subst unat_or_push_bit) (simp_all add: pos(2) unat_ucast_mod)
  have lt: "unat ?a < 2 ^ (8 * (b + 1))"
    unfolding a using digit_acc_less[OF Suc.prems(2), of "unat v" 8] by (simp add: ac_simps)
  have v: "unat (drop_bit 8 v) < 2 ^ (8 * l)"
    using unat_drop_bit_less[of 8 "8 * Suc l" v] Suc.prems(1) by simp
  from Suc.IH[OF v lt _ pos(3)[unfolded Suc_eq_plus1]] Suc.prems(3) obtain z where
    z: "readGroup_value src l (b + 1) (pos + 1) ?a = Some (z, pos + 1 + l)"
      "unat z = unat ?a + unat (drop_bit 8 v) * 2 ^ (8 * (b + 1))" by auto
  have "unat z = unat a + unat v * 2 ^ (8 * b)"
    unfolding z(2) a unat_drop_bit using digit_fold[of "unat v" 8 "8 * b"] by (simp add: add.commute[of 8])
  with z(1) pos show ?case by simp
qed simp

subsection \<open>The control byte\<close>

abbreviation len_digits :: "u32 list \<Rightarrow> nat list" where
  "len_digits vs \<equiv> map (\<lambda>v. byteLen v - 1) vs"

lemma unat_len_digit: "unat (of_nat (byteLen v - 1) :: byte) = byteLen v - 1"
  by (rule byteLen_Suc[of v]) (simp add: unat_of_nat)

lemma group_ctrl_val:
  assumes "unat c < 2 ^ (2 * j)" "j + length vs \<le> 4"
  shows "unat (group_ctrl j c vs) = unat c + 2 ^ (2 * j) * digits_val 2 (len_digits vs)"
  using assms
proof (induction vs arbitrary: j c)
  case (Cons v vs)
  let ?d = "byteLen v - 1"
  have d: "?d mod 2 ^ 2 = ?d" "?d < 4" using byteLen_range[of v] by simp_all
  have "?d * 2 ^ (2 * j) < 2 ^ 2 * 2 ^ (2 * j)" using d by simp
  also have "\<dots> = 2 ^ (2 + 2 * j)" by (simp add: power_add)
  also have "\<dots> \<le> 2 ^ 8" using Cons.prems(2) by (intro power_increasing) auto
  finally have c: "unat (c OR push_bit (2 * j) (of_nat ?d)) = unat c + ?d * 2 ^ (2 * j)"
    using Cons.prems(1) by (subst unat_or_push_bit) (simp_all add: unat_len_digit[unfolded One_nat_def])
  have "unat (c OR push_bit (2 * j) (of_nat ?d)) < 2 ^ (2 * (j + 1))"
    using digit_acc_less[OF Cons.prems(1), of ?d 2] unfolding c d(1) by (simp add: add.commute)
  from Cons.IH[OF this] Cons.prems(2) have
    "unat (group_ctrl (j + 1) (c OR push_bit (2 * j) (of_nat ?d)) vs)
      = unat c + ?d * 2 ^ (2 * j) + 2 ^ (2 * (j + 1)) * digits_val 2 (len_digits vs)"
    unfolding c by simp
  then show ?case unfolding group_ctrl.simps by (simp add: distrib_left mult.commute)
qed simp

lemma ctrl_digit:
  assumes "unat c div 2 ^ (2 * j) = (byteLen v - 1) + 4 * r"
  shows "unat (drop_bit (2 * j) c AND 3 :: byte) + 1 = byteLen v" and "unat c div 2 ^ (2 * (j + 1)) = r"
proof -
  obtain d where d: "byteLen v = Suc d" "d < 4" by (rule byteLen_Suc)
  have "drop_bit (2 * j) c AND 3 = take_bit 2 (drop_bit (2 * j) c)"
    by (simp add: take_bit_eq_mask mask_eq_exp_minus_1)
  then show "unat (drop_bit (2 * j) c AND 3 :: byte) + 1 = byteLen v"
    using assms d by (simp add: unat_take_bit unat_drop_bit)
  have "unat c div 2 ^ (2 * (j + 1)) = unat c div 2 ^ (2 * j) div 4"
    by (simp add: div_mult2_eq[symmetric] power_add mult.commute)
  then show "unat c div 2 ^ (2 * (j + 1)) = r"
    using assms d by simp
qed

subsection \<open>Groups and streams\<close>

abbreviation group_data :: "u32 list \<Rightarrow> bytes" where
  "group_data vs \<equiv> concat (map (\<lambda>v. group_bytes (byteLen v) v) vs)"

lemma readGroup_values_spec:
  assumes "unat ctrl div 2 ^ (2 * j) = digits_val 2 (len_digits vs)" "drop pos src = group_data vs @ rest"
  shows "readGroup_values src ctrl j (length vs) pos = Some (vs, pos + length (group_data vs))"
  using assms
proof (induction vs arbitrary: j pos)
  case (Cons v vs)
  have dr: "drop pos src = group_bytes (byteLen v) v @ (group_data vs @ rest)"
    using Cons.prems(2) by simp
  have "unat ctrl div 2 ^ (2 * j) = (byteLen v - 1) + 4 * digits_val 2 (len_digits vs)"
    using Cons.prems(1) by simp
  note c = ctrl_digit[OF this]
  from readGroup_value_spec[OF byteLen_fits _ _ dr, of 0 0] byteLen_range[of v] obtain z where
    z: "readGroup_value src (byteLen v) 0 pos 0 = Some (z, pos + byteLen v)" "unat z = unat v" by auto
  then have "z = v" by (simp add: word_unat_eq_iff)
  moreover have "drop (pos + byteLen v) src = group_data vs @ rest"
    using drop_eq_appendD[OF dr] by simp
  from Cons.IH[OF c(2) this] have
    "readGroup_values src ctrl (j + 1) (length vs) (pos + byteLen v) = Some (vs, pos + byteLen v + length (group_data vs))" .
  ultimately show ?case using z(1) c(1) by simp
qed simp

lemma appendGroupVarint_pre: "appendGroupVarint (pre @ dst) vs = pre @ appendGroupVarint dst vs"
proof (induction dst vs rule: appendGroupVarint.induct)
  case (1 dst vs)
  then show ?case
    by (cases "vs = []")
      (simp_all add: appendGroupVarint.simps[of dst] appendGroupVarint.simps[of "pre @ dst"] Let_def)
qed

lemma appendGroupVarint_append: "appendGroupVarint dst vs = dst @ appendGroupVarint [] vs"
  using appendGroupVarint_pre[of dst "[]"] by simp

lemma appendGroupVarint_step:
  "vs \<noteq> [] \<Longrightarrow> appendGroupVarint [] vs =
     group_ctrl 0 0 (take 4 vs) # group_data (take 4 vs) @ appendGroupVarint [] (drop 4 vs)"
  by (subst appendGroupVarint.simps) (simp add: Let_def appendGroupVarint_append[of "_ # _"])

lemma readGroup_loop_spec:
  "drop pos src = appendGroupVarint [] vs @ rest \<Longrightarrow>
   readGroup_loop src (length vs) pos = Some (vs, pos + length (appendGroupVarint [] vs))"
proof (induction "length vs" arbitrary: vs pos rule: less_induct)
  case less
  show ?case
  proof (cases "vs = []")
    case True
    then show ?thesis by (simp add: readGroup_loop.simps appendGroupVarint.simps)
  next
    case False
    let ?g = "take 4 vs" and ?r = "drop 4 vs" and ?c = "group_ctrl 0 0 (take 4 vs)"
    have "drop pos src = ?c # group_data ?g @ (appendGroupVarint [] ?r @ rest)"
      using less.prems False by (simp add: appendGroupVarint_step)
    note d = drop_eq_ConsD[OF this]
    have "unat ?c div 2 ^ (2 * 0) = digits_val 2 (len_digits ?g)"
      using group_ctrl_val[of 0 0 ?g] by simp
    from readGroup_values_spec[OF this d(3)] have
      g: "readGroup_values src (src ! pos) 0 (min 4 (length vs)) (pos + 1) = Some (?g, pos + 1 + length (group_data ?g))"
      by (simp add: d(2) min.commute)
    have "drop (pos + 1 + length (group_data ?g)) src = appendGroupVarint [] ?r @ rest"
      using drop_eq_appendD[OF d(3)] by simp
    from less.hyps[OF _ this] False have
      "readGroup_loop src (length vs - 4) (pos + 1 + length (group_data ?g))
        = Some (?r, pos + 1 + length (group_data ?g) + length (appendGroupVarint [] ?r))" by simp
    with g d(1) False show ?thesis
      by (simp add: readGroup_loop.simps[of src "length vs"] appendGroupVarint_step)
  qed
qed

lemma read_appendGroupVarint [codec]:
  "n = length vs \<Longrightarrow>
   readGroupVarint (appendGroupVarint [] vs @ rest) n = Some (vs, length (appendGroupVarint [] vs))"
  using readGroup_loop_spec[of 0 _ vs rest] by (simp add: readGroupVarint_def)

subsection \<open>Properties\<close>

text \<open>The group varint encoding of any list of 32-bit values, of any length (a partial final group
  included), is read back by \<open>readGroupVarint\<close> for the same count, whatever bytes follow it.\<close>

theorem GroupVarint_roundtrip:
  "readGroupVarint (appendGroupVarint [] vs @ rest) (length vs) = Some (vs, length (appendGroupVarint [] vs))"
  by (rule read_appendGroupVarint[OF refl])

end
