(* ===== verification/PForDelta.thy ===== *)
theory PForDelta
  imports GroupVarint
begin

text \<open>
  \<open>index/postings/pfordelta.go\<close>: patched frame-of-reference coding of a block of frequencies.
  The width is chosen by exhaustive search over the candidate widths; values that exceed it are
  written as exception records in front of the packed body.
\<close>

function uvarintLen :: "u64 \<Rightarrow> nat" where
  "uvarintLen x = (if x \<ge> 0x80 then Suc (uvarintLen (drop_bit 7 x)) else 1)"
  by pat_completeness auto
termination
  by (relation "measure unat") (auto simp: unat_drop_bit word_le_nat_alt)

declare uvarintLen.simps [simp del]

text \<open>The largest value that fits \<open>w\<close> bits: \<open>^uint32(0)\<close> at 32, \<open>1<<w - 1\<close> below.\<close>

definition pfor_limit :: "nat \<Rightarrow> u32" where
  "pfor_limit w = (if w < 32 then push_bit w 1 - 1 else NOT 0)"

text \<open>Exceptions and exception bytes of a block at a limit, the inner loop of \<open>chooseWidth\<close>.\<close>

definition pfor_excs_cost :: "u32 \<Rightarrow> u32 list \<Rightarrow> nat \<times> nat" where
  "pfor_excs_cost limit vs =
     foldl (\<lambda>(exc, excBytes) v.
        if v > limit then (exc + 1, excBytes + 1 + uvarintLen (ucast v)) else (exc, excBytes))
       (0, 0) vs"

definition pfor_cost :: "u32 list \<Rightarrow> nat \<Rightarrow> nat" where
  "pfor_cost vs w = packedLen (length vs) w + snd (pfor_excs_cost (pfor_limit w) vs)"

text \<open>The candidate loop; \<open>best < 0\<close> of the source is the initial value \<open>-1\<close>.\<close>

definition chooseWidth_step :: "u32 list \<Rightarrow> int \<times> nat \<times> nat \<Rightarrow> nat \<Rightarrow> int \<times> nat \<times> nat" where
  "chooseWidth_step vs s w =
     (case s of (best, bestW, bestExc) \<Rightarrow>
        let cost = int (pfor_cost vs w); exc = fst (pfor_excs_cost (pfor_limit w) vs)
        in if best < 0 \<or> cost < best then (cost, w, exc) else (best, bestW, bestExc))"

definition chooseWidth :: "u32 list \<Rightarrow> nat \<times> nat" where
  "chooseWidth vs =
     (case foldl (chooseWidth_step vs) (-1, 1, 0) [1..<33] of (best, bestW, bestExc) \<Rightarrow> (bestW, bestExc))"

text \<open>The loop of \<open>appendPForDelta\<close> that splits a block into low bits and exception records.\<close>

fun pfor_split :: "u32 \<Rightarrow> nat \<Rightarrow> u32 list \<Rightarrow> bytes \<Rightarrow> nat \<Rightarrow> u32 list \<Rightarrow> u32 list \<times> bytes \<times> nat" where
  "pfor_split limit i low excPos excCount [] = (low, excPos, excCount)"
| "pfor_split limit i low excPos excCount (v # vs) =
     (if v > limit
      then pfor_split limit (i + 1) (low @ [v AND limit])
             (appendUvarint (excPos @ [of_nat i]) (ucast v)) (excCount + 1) vs
      else pfor_split limit (i + 1) (low @ [v AND limit]) excPos excCount vs)"

definition appendPForDelta :: "bytes \<Rightarrow> u32 list \<Rightarrow> bytes" where
  "appendPForDelta dst vs =
     (let w = fst (chooseWidth vs);
          (low, excPos, excCount) = pfor_split (pfor_limit w) 0 [] [] 0 vs
      in packBits (dst @ [of_nat w, of_nat excCount] @ excPos) low w)"

text \<open>Reading the exception records; \<open>src[pos]\<close> panics past the end.\<close>

fun readPatches :: "bytes \<Rightarrow> nat \<Rightarrow> nat \<Rightarrow> ((nat \<times> u32) list \<times> nat) option" where
  "readPatches src 0 pos = Some ([], pos)"
| "readPatches src (Suc n) pos =
     (if pos < length src then
        (let (v, m) = readUvarint (drop (pos + 1) src)
         in map_option (apfst ((#) (unat (src ! pos), ucast v)))
              (readPatches src n (pos + 1 + m)))
      else None)"

text \<open>\<open>out[p.at] = p.val\<close> for every patch; an index past the block panics.\<close>

fun applyPatches :: "(nat \<times> u32) list \<Rightarrow> u32 list \<Rightarrow> u32 list option" where
  "applyPatches [] out = Some out"
| "applyPatches ((i, v) # ps) out = (if i < length out then applyPatches ps (out[i := v]) else None)"

definition readPForDelta :: "bytes \<Rightarrow> nat \<Rightarrow> (u32 list \<times> nat) option" where
  "readPForDelta src n =
     (if length src < 2 then None
      else case readPatches src (unat (src ! 1)) 2 of
        None \<Rightarrow> None
      | Some (patches, pos) \<Rightarrow>
          (case unpackBits (drop pos src) n (unat (src ! 0)) of
             None \<Rightarrow> None
           | Some (out, m) \<Rightarrow> map_option (\<lambda>out'. (out', pos + m)) (applyPatches patches out)))"

subsection \<open>The chosen width\<close>

lemma uvarintLen_length: "uvarintLen x = length (appendUvarint [] x)"
proof (induction x rule: uvarintLen.induct)
  case (1 x)
  then show ?case
    by (cases "x \<ge> 0x80") (simp_all add: uvarintLen.simps[of x] appendUvarint_step[of x])
qed

lemma chooseWidth_fold:
  assumes "foldl (chooseWidth_step vs) (-1, 1, 0) [1..<Suc n] = (best, bw, be)" "1 \<le> n"
  shows "1 \<le> bw \<and> bw \<le> n \<and> best = int (pfor_cost vs bw) \<and>
    be = fst (pfor_excs_cost (pfor_limit bw) vs) \<and> (\<forall>w. 1 \<le> w \<and> w \<le> n \<longrightarrow> best \<le> int (pfor_cost vs w))"
  using assms(2,1)
proof (induction n arbitrary: best bw be rule: nat_induct_at_least)
  case base
  have "[1..<Suc 1] = [1::nat]" by simp
  with base have "best = int (pfor_cost vs 1)" "bw = 1" "be = fst (pfor_excs_cost (pfor_limit 1) vs)"
    by (auto simp: chooseWidth_step_def Let_def)
  moreover have "w = 1" if "1 \<le> w \<and> w \<le> 1" for w :: nat using that by linarith
  ultimately show ?case by (metis order_refl)
next
  case (Suc n)
  obtain b w e where s: "foldl (chooseWidth_step vs) (-1, 1, 0) [1..<Suc n] = (b, w, e)"
    by (cases "foldl (chooseWidth_step vs) (-1, 1, 0) [1..<Suc n]") auto
  note IH = Suc.IH[OF s]
  have "[1..<Suc (Suc n)] = [1..<Suc n] @ [Suc n]" by simp
  with Suc.prems s have "chooseWidth_step vs (b, w, e) (Suc n) = (best, bw, be)" by simp
  with IH show ?case
    by (auto simp: chooseWidth_step_def Let_def le_Suc_eq split: if_splits)
qed

lemma chooseWidth_spec:
  assumes "chooseWidth vs = (w, e)"
  shows "1 \<le> w" "w \<le> 32" "1 \<le> w' \<Longrightarrow> w' \<le> 32 \<Longrightarrow> pfor_cost vs w \<le> pfor_cost vs w'"
proof -
  obtain b bw be where s: "foldl (chooseWidth_step vs) (-1, 1, 0) [1..<Suc 32] = (b, bw, be)"
    by (cases "foldl (chooseWidth_step vs) (-1, 1, 0) [1..<Suc 32]") auto
  have w: "w = bw" using assms s by (simp add: chooseWidth_def)
  have *: "1 \<le> bw \<and> bw \<le> 32 \<and> b = int (pfor_cost vs bw) \<and>
    be = fst (pfor_excs_cost (pfor_limit bw) vs) \<and> (\<forall>w. 1 \<le> w \<and> w \<le> 32 \<longrightarrow> b \<le> int (pfor_cost vs w))"
    by (rule chooseWidth_fold[OF s]) simp
  then show "1 \<le> w" "w \<le> 32" by (simp_all add: w)
  from * show "1 \<le> w' \<Longrightarrow> w' \<le> 32 \<Longrightarrow> pfor_cost vs w \<le> pfor_cost vs w'" by (auto simp: w)
qed

lemma pfor_limit_mask: "w \<le> 32 \<Longrightarrow> pfor_limit w = mask w"
  by (rule bit_word_eqI) (auto simp: pfor_limit_def bit_simps simp flip: mask_eq_exp_minus_1)

lemma and_pfor_limit: "w \<le> 32 \<Longrightarrow> v AND pfor_limit w = take_bit w v"
  by (simp add: pfor_limit_mask take_bit_eq_mask)

lemma unat_pfor_limit: "w \<le> 32 \<Longrightarrow> unat (pfor_limit w) = 2 ^ w - 1"
  by (simp only: pfor_limit_mask unat_eq_nat_uint uint_mask_eq)
    (simp add: mask_eq_exp_minus_1 nat_diff_distrib nat_power_eq min_absorb2)

lemma pfor_limit_iff: "w \<le> 32 \<Longrightarrow> v > pfor_limit w \<longleftrightarrow> unat v \<ge> 2 ^ w"
  by (simp add: word_less_nat_alt unat_pfor_limit) (metis Suc_pred less_eq_Suc_le zero_less_numeral zero_less_power)

lemma low_bits_self: "w \<le> 32 \<Longrightarrow> \<not> v > pfor_limit w \<Longrightarrow> v AND pfor_limit w = v"
  by (simp add: and_pfor_limit pfor_limit_iff word_unat_eq_iff unat_take_bit)

subsection \<open>Exceptions\<close>

fun pfor_excs :: "u32 \<Rightarrow> nat \<Rightarrow> u32 list \<Rightarrow> (nat \<times> u32) list" where
  "pfor_excs limit i [] = []"
| "pfor_excs limit i (v # vs) = (if v > limit then [(i, v)] else []) @ pfor_excs limit (i + 1) vs"

definition exc_bytes :: "(nat \<times> u32) list \<Rightarrow> bytes" where
  "exc_bytes ps = concat (map (\<lambda>(i, v). of_nat i # appendUvarint [] (ucast v)) ps)"

lemma exc_bytes_simps [simp]:
  "exc_bytes [] = []" "exc_bytes ((i, v) # ps) = of_nat i # appendUvarint [] (ucast v) @ exc_bytes ps"
  "exc_bytes (ps @ qs) = exc_bytes ps @ exc_bytes qs"
  by (simp_all add: exc_bytes_def)

lemma pfor_split_eq:
  "pfor_split limit i low ep ec vs =
     (low @ map (\<lambda>v. v AND limit) vs, ep @ exc_bytes (pfor_excs limit i vs), ec + length (pfor_excs limit i vs))"
proof (induction vs arbitrary: i low ep ec)
  case (Cons v vs)
  then show ?case by (simp add: appendUvarint_append[of "ep @ [of_nat i]"])
qed simp

lemma pfor_excs_cost_eq:
  "pfor_excs_cost limit vs = (length (pfor_excs limit i vs), length (exc_bytes (pfor_excs limit i vs)))"
proof -
  have "foldl (\<lambda>(exc, excBytes) v. if v > limit then (exc + 1, excBytes + 1 + uvarintLen (ucast v)) else (exc, excBytes)) (a, b) vs
    = (a + length (pfor_excs limit i vs), b + length (exc_bytes (pfor_excs limit i vs)))" for a b
  proof (induction vs arbitrary: a b i)
    case (Cons v vs)
    show ?case using Cons[where i = "i + 1"] by (simp add: uvarintLen_length)
  qed simp
  then show ?thesis by (simp add: pfor_excs_cost_def)
qed

lemma pfor_excs_index: "(j, v) \<in> set (pfor_excs limit i vs) \<Longrightarrow> i \<le> j \<and> j < i + length vs"
  by (induction vs arbitrary: i) (fastforce split: if_splits)+

lemma length_pfor_excs: "length (pfor_excs limit i vs) \<le> length vs"
  by (induction vs arbitrary: i) (auto simp: le_SucI)

lemma readPatches_spec:
  assumes "\<forall>(i, v) \<in> set ps. i < 256" "drop pos src = exc_bytes ps @ rest"
  shows "readPatches src (length ps) pos = Some (ps, pos + length (exc_bytes ps))"
  using assms
proof (induction ps arbitrary: pos)
  case (Cons p ps)
  obtain i v where p: "p = (i, v)" by fastforce
  have "drop pos src = of_nat i # appendUvarint [] (ucast v) @ (exc_bytes ps @ rest)"
    using Cons.prems by (simp add: p)
  note d = drop_eq_ConsD[OF this]
  have "drop (Suc pos + length (appendUvarint [] (ucast v))) src = exc_bytes ps @ rest"
    using drop_eq_appendD[OF d(3)] .
  from Cons.IH[OF _ this] Cons.prems(1) have
    "readPatches src (length ps) (Suc pos + length (appendUvarint [] (ucast v)))
      = Some (ps, Suc pos + length (appendUvarint [] (ucast v)) + length (exc_bytes ps))" by simp
  moreover have "ucast (ucast v :: u64) = v" by (simp add: word_unat_eq_iff unat_ucast_mod)
  ultimately show ?case
    using d Cons.prems(1) by (simp add: p read_appendUvarint unat_of_nat)
qed simp

lemma applyPatches_excs:
  assumes "w \<le> 32"
  shows "applyPatches (pfor_excs (pfor_limit w) (length pre) vs) (pre @ map (\<lambda>v. v AND pfor_limit w) vs)
    = Some (pre @ vs)"
proof (induction vs arbitrary: pre)
  case (Cons v vs)
  from Cons[of "pre @ [v]"] show ?case
    using low_bits_self[OF assms, of v] by auto
qed simp

lemma appendPForDelta_shape:
  assumes "chooseWidth vs = (w, e)"
  shows "appendPForDelta dst vs = dst @ of_nat w # of_nat (length (pfor_excs (pfor_limit w) 0 vs)) #
      exc_bytes (pfor_excs (pfor_limit w) 0 vs) @ packBits [] (map (\<lambda>v. v AND pfor_limit w) vs) w"
  using assms packBits_append[of "dst @ _"] by (simp add: appendPForDelta_def pfor_split_eq)

lemma appendPForDelta_append: "appendPForDelta dst vs = dst @ appendPForDelta [] vs"
  by (cases "chooseWidth vs") (simp add: appendPForDelta_shape)

lemma low_bits_fit: "w \<le> 32 \<Longrightarrow> \<forall>v \<in> set (map (\<lambda>v. v AND pfor_limit w) vs). unat v < 2 ^ w"
  by (auto simp: and_pfor_limit unat_take_bit)

lemma length_appendPForDelta:
  assumes "chooseWidth vs = (w, e)"
  shows "length (appendPForDelta [] vs) = 2 + pfor_cost vs w"
  using chooseWidth_spec(1,2)[OF assms] low_bits_fit[of w vs]
  by (simp add: appendPForDelta_shape[OF assms] pfor_cost_def length_packBits pfor_excs_cost_eq[of _ _ 0])

lemma read_appendPForDelta [codec]:
  assumes "length vs \<le> 255" "n = length vs"
  shows "readPForDelta (appendPForDelta [] vs @ rest) n = Some (vs, length (appendPForDelta [] vs))"
proof -
  obtain w e where cw: "chooseWidth vs = (w, e)" by fastforce
  note w = chooseWidth_spec(1,2)[OF cw]
  let ?ps = "pfor_excs (pfor_limit w) 0 vs" and ?low = "map (\<lambda>v. v AND pfor_limit w) vs"
  let ?src = "appendPForDelta [] vs @ rest"
  have src: "?src = of_nat w # of_nat (length ?ps) # exc_bytes ?ps @ (packBits [] ?low w @ rest)"
    by (simp add: appendPForDelta_shape[OF cw])
  have n: "unat (of_nat (length ?ps) :: byte) = length ?ps" "unat (of_nat w :: byte) = w"
    using length_pfor_excs[of "pfor_limit w" 0 vs] assms w by (simp_all add: unat_of_nat)
  have "readPatches ?src (length ?ps) 2 = Some (?ps, 2 + length (exc_bytes ?ps))"
    by (rule readPatches_spec) (use assms in \<open>auto simp: src dest: pfor_excs_index\<close>)
  moreover have "unpackBits (drop (2 + length (exc_bytes ?ps)) ?src) n w = Some (?low, packedLen n w)"
    using unpack_packBits[OF w low_bits_fit[OF w(2), of vs], of n rest] assms(2) by (simp add: src)
  moreover have "applyPatches ?ps ?low = Some vs"
    using applyPatches_excs[OF w(2), of "[]" vs] by simp
  moreover have "length (appendPForDelta [] vs) = 2 + length (exc_bytes ?ps) + packedLen n w"
    using low_bits_fit[OF w(2), of vs] w assms(2) by (simp add: appendPForDelta_shape[OF cw] length_packBits)
  ultimately show ?thesis
    using n by (simp add: readPForDelta_def src)
qed

subsection \<open>Properties\<close>

text \<open>A block of at most 255 values written by \<open>appendPForDelta\<close> is read back by \<open>readPForDelta\<close>,
  exceptions patched in, and exactly the written bytes are consumed.\<close>

theorem PForDelta_roundtrip:
  assumes "length vs \<le> 255"
  shows "readPForDelta (appendPForDelta [] vs @ rest) (length vs) = Some (vs, length (appendPForDelta [] vs))"
  using assms by (rule read_appendPForDelta) simp

theorem PForDelta_roundtrip_witness:
  "readPForDelta (appendPForDelta [] [1, 2, 100000, 3] @ []) 4
     = Some ([1, 2, 100000, 3], length (appendPForDelta [] [1, 2, 100000, 3]))"
  using PForDelta_roundtrip[of "[1, 2, 100000, 3]" "[]"] by (simp add: eval_nat_numeral)

text \<open>The width \<open>chooseWidth\<close> picks is the cheapest: no width from 1 to 32 gives a smaller encoded
  block, the patches included.\<close>

theorem chooseWidth_optimal:
  "fst (chooseWidth vs) \<in> {1..32} \<and>
   (\<forall>w' \<in> {1..32}. pfor_cost vs (fst (chooseWidth vs)) \<le> pfor_cost vs w')"
  using chooseWidth_spec[of vs "fst (chooseWidth vs)" "snd (chooseWidth vs)"] by simp

theorem chooseWidth_optimal_witness:
  "fst (chooseWidth [1, 2, 3]) \<in> {1..32} \<and> pfor_cost [1, 2, 3] (fst (chooseWidth [1, 2, 3])) \<le> pfor_cost [1, 2, 3] 2"
  using chooseWidth_optimal[of "[1, 2, 3]"] by simp

end
