(* ===== verification/Postings.thy ===== *)
theory Postings
  imports Types PForDelta
begin

text \<open>
  \<open>index/postings/postings.go\<close>: the encoded posting list with its skip table, and the cursor
  that walks it. \<open>Encode\<close> cuts the postings into blocks of 128; the cursor decodes one block at
  a time into its two fixed arrays. \<open>None\<close> is a run-time panic.
\<close>

record block =
  firstDoc :: DocID
  lastDoc :: DocID
  maxFreq :: u32
  blk_offset :: nat
  blk_count :: nat

record PList =
  l_data :: bytes
  l_blocks :: "block list"
  l_numDoc :: nat

definition NumDocs :: "PList \<Rightarrow> nat" where
  "NumDocs l = l_numDoc l"

definition MaxFreq :: "PList \<Rightarrow> u32" where
  "MaxFreq l = foldl (\<lambda>m b. if maxFreq b > m then maxFreq b else m) 0 (l_blocks l)"

datatype encode_error = NotAscending

text \<open>The check loop of \<open>Encode\<close>: \<open>ps[i].Doc <= ps[i-1].Doc\<close> is an error.\<close>

fun strictly_ascending :: "Posting list \<Rightarrow> bool" where
  "strictly_ascending (p # q # ps) = (if Doc q \<le> Doc p then False else strictly_ascending (q # ps))"
| "strictly_ascending _ = True"

definition doc_gaps :: "Posting list \<Rightarrow> u32 list" where
  "doc_gaps ps = map (\<lambda>i. Doc (ps ! i) - Doc (ps ! (i - 1))) [1..<length ps]"

definition encodeBlock :: "PList \<Rightarrow> Posting list \<Rightarrow> PList" where
  "encodeBlock l ps =
     (let b = \<lparr>firstDoc = Doc (hd ps), lastDoc = Doc (last ps),
               maxFreq = foldl (\<lambda>m p. if Frequency p > m then Frequency p else m) 0 ps,
               blk_offset = length (l_data l), blk_count = length ps\<rparr>;
          gaps = doc_gaps ps; freqs = map Frequency ps;
          data = (if blk_count b = BlockSize
                  then packBits (l_data l @ [of_nat (maxWidth gaps)]) gaps (maxWidth gaps)
                  else appendGroupVarint (l_data l) gaps)
      in l\<lparr>l_data := appendPForDelta data freqs, l_blocks := l_blocks l @ [b]\<rparr>)"

function encode_blocks :: "PList \<Rightarrow> Posting list \<Rightarrow> PList" where
  "encode_blocks l ps =
     (if ps = [] then l else encode_blocks (encodeBlock l (take BlockSize ps)) (drop BlockSize ps))"
  by pat_completeness auto
termination by (relation "measure (\<lambda>(l, ps). length ps)") (auto simp: BlockSize_def)

declare encode_blocks.simps [simp del]

definition Encode :: "Posting list \<Rightarrow> encode_error + PList" where
  "Encode ps =
     (if strictly_ascending ps
      then Inr (encode_blocks \<lparr>l_data = [], l_blocks = [], l_numDoc = length ps\<rparr> ps)
      else Inl NotAscending)"

subsection \<open>The cursor\<close>

record Cursor =
  cu_l :: PList
  blockIdx :: int
  inBlock :: nat
  cu_docs :: "DocID list"
  cu_freqs :: "u32 list"
  decoded :: bool
  shallowIdx :: nat

definition List_Cursor :: "PList \<Rightarrow> Cursor" where
  "List_Cursor l = \<lparr>cu_l = l, blockIdx = -1, inBlock = 0, cu_docs = replicate BlockSize 0,
     cu_freqs = replicate BlockSize 0, decoded = False, shallowIdx = 0\<rparr>"

definition Done :: "Cursor \<Rightarrow> bool" where
  "Done c = (blockIdx c \<ge> int (length (l_blocks (cu_l c))))"

definition Cursor_Doc :: "Cursor \<Rightarrow> DocID" where
  "Cursor_Doc c = cu_docs c ! inBlock c"

definition Cursor_Freq :: "Cursor \<Rightarrow> u32" where
  "Cursor_Freq c = cu_freqs c ! inBlock c"

text \<open>\<open>c.docs[i] = c.docs[i-1] + gaps[i-1]\<close>: the running sums that rebuild the ids.\<close>

fun undelta :: "DocID \<Rightarrow> u32 list \<Rightarrow> DocID list" where
  "undelta d [] = [d]"
| "undelta d (g # gs) = d # undelta (d + g) gs"

definition decodeBlock :: "Cursor \<Rightarrow> Cursor option" where
  "decodeBlock c =
     (let bs = l_blocks (cu_l c)
      in if blockIdx c < 0 \<or> int (length bs) \<le> blockIdx c then None
         else let b = bs ! nat (blockIdx c); data = l_data (cu_l c)
              in if length data < blk_offset b \<or> blk_count b = 0 \<or> BlockSize < blk_count b then None
                 else let src = drop (blk_offset b) data
                      in case (if blk_count b = BlockSize
                               then (if src = [] then None
                                     else map_option (apsnd Suc)
                                            (unpackBits (tl src) (blk_count b - 1) (unat (hd src))))
                               else readGroupVarint src (blk_count b - 1)) of
                           None \<Rightarrow> None
                         | Some (gaps, pos) \<Rightarrow>
                             (case readPForDelta (drop pos src) (blk_count b) of
                                None \<Rightarrow> None
                              | Some (fs, _) \<Rightarrow>
                                  Some (c\<lparr>cu_docs := undelta (firstDoc b) gaps @ drop (blk_count b) (cu_docs c),
                                          cu_freqs := fs @ drop (blk_count b) (cu_freqs c),
                                          decoded := True\<rparr>)))"

definition Next :: "Cursor \<Rightarrow> (bool \<times> Cursor) option" where
  "Next c =
     (if blockIdx c < 0 then
        let c = c\<lparr>blockIdx := 0\<rparr>
        in if l_blocks (cu_l c) = [] then Some (False, c)
           else map_option (\<lambda>c. (True, c\<lparr>inBlock := 0\<rparr>)) (decodeBlock c)
      else
        let c = c\<lparr>inBlock := inBlock c + 1\<rparr>
        in if int (length (l_blocks (cu_l c))) \<le> blockIdx c then None
           else if inBlock c \<ge> blk_count (l_blocks (cu_l c) ! nat (blockIdx c)) then
             let c = c\<lparr>blockIdx := blockIdx c + 1\<rparr>
             in if Done c then Some (False, c)
                else map_option (\<lambda>c. (True, c\<lparr>inBlock := 0\<rparr>)) (decodeBlock c)
           else Some (True, c))"

text \<open>The block-skipping loop of \<open>NextGEQ\<close>.\<close>

function skip_blocks :: "DocID \<Rightarrow> Cursor \<Rightarrow> Cursor" where
  "skip_blocks target c =
     (if blockIdx c < int (length (l_blocks (cu_l c))) \<and>
         lastDoc (l_blocks (cu_l c) ! nat (blockIdx c)) < target
      then skip_blocks target (c\<lparr>blockIdx := blockIdx c + 1, decoded := False\<rparr>)
      else c)"
  by pat_completeness auto
termination
  by (relation "measure (\<lambda>(t, c). nat (int (length (l_blocks (cu_l c))) - blockIdx c))") auto

declare skip_blocks.simps [simp del]

text \<open>The scan inside the decoded block.\<close>

function scan_block :: "DocID \<Rightarrow> nat \<Rightarrow> Cursor \<Rightarrow> bool \<times> Cursor" where
  "scan_block target cnt c =
     (if inBlock c < cnt then
        if cu_docs c ! inBlock c \<ge> target then (True, c)
        else scan_block target cnt (c\<lparr>inBlock := inBlock c + 1\<rparr>)
      else (False, c))"
  by pat_completeness auto
termination by (relation "measure (\<lambda>(t, cnt, c). cnt - inBlock c)") auto

declare scan_block.simps [simp del]

lemma skip_blocks_frame:
  "cu_l (skip_blocks target c) = cu_l c" "shallowIdx (skip_blocks target c) = shallowIdx c"
  "inBlock (skip_blocks target c) = inBlock c" "cu_docs (skip_blocks target c) = cu_docs c"
  "cu_freqs (skip_blocks target c) = cu_freqs c" "blockIdx c \<le> blockIdx (skip_blocks target c)"
proof (induction target c rule: skip_blocks.induct)
  case (1 target c)
  { case 1 show ?case using "1.IH"(1) by (simp add: skip_blocks.simps[of target c]) }
  { case 2 show ?case using "1.IH"(2) by (simp add: skip_blocks.simps[of target c]) }
  { case 3 show ?case using "1.IH"(3) by (simp add: skip_blocks.simps[of target c]) }
  { case 4 show ?case using "1.IH"(4) by (simp add: skip_blocks.simps[of target c]) }
  { case 5 show ?case using "1.IH"(5) by (simp add: skip_blocks.simps[of target c]) }
  { case 6 show ?case using "1.IH"(6) by (force simp: skip_blocks.simps[of target c]) }
qed

lemma scan_block_frame:
  assumes "scan_block target cnt c = (found, c')"
  shows "cu_l c' = cu_l c" "blockIdx c' = blockIdx c" "shallowIdx c' = shallowIdx c"
    "decoded c' = decoded c" "cu_docs c' = cu_docs c" "cu_freqs c' = cu_freqs c"
proof -
  have "c' = c\<lparr>inBlock := inBlock c'\<rparr>"
    using assms
  proof (induction target cnt c rule: scan_block.induct)
    case (1 target cnt c)
    then show ?case
      by (auto simp: scan_block.simps[of target cnt c] split: if_splits)
  qed
  then show "cu_l c' = cu_l c" "blockIdx c' = blockIdx c" "shallowIdx c' = shallowIdx c"
    "decoded c' = decoded c" "cu_docs c' = cu_docs c" "cu_freqs c' = cu_freqs c"
    by (metis Cursor.select_convs Cursor.surjective Cursor.update_convs(3))+
qed

lemma decodeBlock_frame:
  "decodeBlock c = Some c' \<Longrightarrow>
   cu_l c' = cu_l c \<and> blockIdx c' = blockIdx c \<and> shallowIdx c' = shallowIdx c \<and> inBlock c' = inBlock c \<and> decoded c'"
  by (auto simp: decodeBlock_def Let_def split: if_splits option.splits prod.splits)

text \<open>\<open>NextGEQ\<close>: enter the list, skip whole blocks, decode the block reached unless it already is,
  and scan it; the tail call is the recursion into the next block.\<close>

definition geq_enter :: "DocID \<Rightarrow> Cursor \<Rightarrow> Cursor" where
  "geq_enter target c = skip_blocks target (if blockIdx c < 0 then c\<lparr>blockIdx := 0\<rparr> else c)"

definition ensure_decoded :: "Cursor \<Rightarrow> Cursor option" where
  "ensure_decoded c = (if \<not> decoded c then map_option (\<lambda>c. c\<lparr>inBlock := 0\<rparr>) (decodeBlock c) else Some c)"

lemma geq_enter_frame:
  "cu_l (geq_enter target c) = cu_l c" "blockIdx c \<le> blockIdx (geq_enter target c)"
  using skip_blocks_frame(6)[of "c\<lparr>blockIdx := 0\<rparr>" target]
  by (auto simp: geq_enter_def skip_blocks_frame)

lemma ensure_decoded_frame:
  "ensure_decoded c = Some c' \<Longrightarrow> cu_l c' = cu_l c \<and> blockIdx c' = blockIdx c \<and> shallowIdx c' = shallowIdx c"
  by (auto simp: ensure_decoded_def dest: decodeBlock_frame split: if_splits)

function NextGEQ :: "DocID \<Rightarrow> Cursor \<Rightarrow> (DocID \<times> bool \<times> Cursor) option" where
  "NextGEQ target c =
     (if Done c then Some (0, False, c)
      else if Done (geq_enter target c) then Some (0, False, geq_enter target c)
      else case ensure_decoded (geq_enter target c) of
             None \<Rightarrow> None
           | Some c2 \<Rightarrow>
               (case scan_block target (blk_count (l_blocks (cu_l c2) ! nat (blockIdx c2))) c2 of
                  (found, c3) \<Rightarrow>
                    if found then Some (Cursor_Doc c3, True, c3)
                    else NextGEQ target (c3\<lparr>blockIdx := blockIdx c3 + 1, decoded := False\<rparr>)))"
  by pat_completeness auto
termination
proof (relation "measure (\<lambda>(t, c). nat (int (length (l_blocks (cu_l c))) - blockIdx c))", goal_cases)
  case (2 target c c2 found c3)
  then have "cu_l c3 = cu_l c" "blockIdx c \<le> blockIdx c3"
    using ensure_decoded_frame[of "geq_enter target c" c2] geq_enter_frame[where target = target and c = c]
      scan_block_frame(1,2)[where target = target and c = c2 and found = found and c' = c3] by auto
  with 2(1) show ?case by (simp add: Done_def)
qed simp

declare NextGEQ.simps [simp del]

subsection \<open>The shallow pointer\<close>

definition BlockMaxFreq :: "Cursor \<Rightarrow> u32 option" where
  "BlockMaxFreq c =
     (if shallowIdx c < length (l_blocks (cu_l c)) then Some (maxFreq (l_blocks (cu_l c) ! shallowIdx c)) else None)"

definition BlockLastDoc :: "Cursor \<Rightarrow> DocID option" where
  "BlockLastDoc c =
     (if shallowIdx c < length (l_blocks (cu_l c)) then Some (lastDoc (l_blocks (cu_l c) ! shallowIdx c)) else None)"

function AdvanceShallow :: "DocID \<Rightarrow> Cursor \<Rightarrow> Cursor" where
  "AdvanceShallow target c =
     (if int (shallowIdx c) < int (length (l_blocks (cu_l c))) - 1 \<and>
         lastDoc (l_blocks (cu_l c) ! shallowIdx c) < target
      then AdvanceShallow target (c\<lparr>shallowIdx := shallowIdx c + 1\<rparr>)
      else c)"
  by pat_completeness auto
termination
  by (relation "measure (\<lambda>(t, c). length (l_blocks (cu_l c)) - shallowIdx c)") auto

declare AdvanceShallow.simps [simp del]

text \<open>The loop \<open>for c.Next()\<close> of a caller that walks a whole list, collecting the postings.\<close>

partial_function (option) drain_cursor :: "Cursor \<Rightarrow> Posting list option" where
  "drain_cursor c =
     (case Next c of
        None \<Rightarrow> None
      | Some (b, c') \<Rightarrow>
          if b then Option.bind (drain_cursor c')
                 (\<lambda>ps. Some (\<lparr>Doc = Cursor_Doc c', Frequency = Cursor_Freq c'\<rparr> # ps))
          else Some [])"

end
