(* ===== verification/Postings_Correct.thy ===== *)
theory Postings_Correct
  imports Postings
begin

text \<open>
  The posting-list codec is correct: what \<open>Encode\<close> writes, a cursor reads back. The abstract
  view of a cursor is the list of postings it has not passed yet (\<open>remaining\<close>); \<open>Next\<close> drops its
  head and \<open>NextGEQ\<close> drops the postings below the target.
\<close>

subsection \<open>Encoded lists\<close>

definition payload :: "Posting list \<Rightarrow> bytes" where
  "payload ch =
     (if length ch = BlockSize
      then of_nat (maxWidth (doc_gaps ch)) # packBits [] (doc_gaps ch) (maxWidth (doc_gaps ch))
      else appendGroupVarint [] (doc_gaps ch)) @ appendPForDelta [] (map Frequency ch)"

definition block_ok :: "bytes \<Rightarrow> block \<Rightarrow> Posting list \<Rightarrow> bool" where
  "block_ok data b ch \<longleftrightarrow> ch \<noteq> [] \<and> length ch \<le> BlockSize \<and> firstDoc b = Doc (hd ch) \<and>
     lastDoc b = Doc (last ch) \<and> maxFreq b = foldl (\<lambda>m p. if Frequency p > m then Frequency p else m) 0 ch \<and>
     blk_count b = length ch \<and> blk_offset b \<le> length data \<and> (\<exists>rest. drop (blk_offset b) data = payload ch @ rest)"

definition list_ok :: "PList \<Rightarrow> Posting list list \<Rightarrow> bool" where
  "list_ok l pss \<longleftrightarrow> list_all2 (block_ok (l_data l)) (l_blocks l) pss"

function chunks :: "'a list \<Rightarrow> 'a list list" where
  "chunks ps = (if ps = [] then [] else take BlockSize ps # chunks (drop BlockSize ps))"
  by pat_completeness auto
termination by (relation "measure length") (auto simp: BlockSize_def)

declare chunks.simps [simp del]

lemma chunks_Nil [simp]: "chunks [] = []"
  by (subst chunks.simps) simp

lemma concat_chunks [simp]: "concat (chunks ps) = ps"
proof (induction ps rule: chunks.induct)
  case (1 ps)
  then show ?case by (cases "ps = []") (simp_all add: chunks.simps[of ps])
qed

lemma l_data_encodeBlock: "ch \<noteq> [] \<Longrightarrow> l_data (encodeBlock l ch) = l_data l @ payload ch"
  using packBits_append[of "l_data l @ _"] appendGroupVarint_append[of "l_data l"]
    appendPForDelta_append[of "l_data l @ _"]
  by (simp add: encodeBlock_def payload_def Let_def)

lemma block_ok_append: "block_ok data b ch \<Longrightarrow> block_ok (data @ ys) b ch"
  by (auto simp: block_ok_def)

lemma encodeBlock_ok:
  assumes "list_ok l pss" "ch \<noteq> []" "length ch \<le> BlockSize"
  shows "list_ok (encodeBlock l ch) (pss @ [ch])"
proof -
  have "list_all2 (block_ok (l_data l @ payload ch)) (l_blocks l) pss"
    using assms(1) unfolding list_ok_def by (rule list_all2_mono) (rule block_ok_append)
  moreover obtain b where "l_blocks (encodeBlock l ch) = l_blocks l @ [b]"
    "block_ok (l_data l @ payload ch) b ch"
    using assms(2,3) by (simp add: encodeBlock_def Let_def block_ok_def)
  ultimately show ?thesis
    by (simp add: list_ok_def l_data_encodeBlock[OF assms(2)] list_all2_appendI)
qed

lemma encode_blocks_ok:
  "list_ok l pss \<Longrightarrow> list_ok (encode_blocks l ps) (pss @ chunks ps) \<and> l_numDoc (encode_blocks l ps) = l_numDoc l"
proof (induction l ps arbitrary: pss rule: encode_blocks.induct)
  case (1 l ps)
  show ?case
  proof (cases "ps = []")
    case False
    have "list_ok (encodeBlock l (take BlockSize ps)) (pss @ [take BlockSize ps])"
      using 1(2) False by (intro encodeBlock_ok) (simp_all add: BlockSize_def)
    from 1(1)[OF False this] False show ?thesis
      by (simp add: encode_blocks.simps[of l ps] chunks.simps[of ps] encodeBlock_def Let_def)
  qed (use 1(2) in \<open>simp add: encode_blocks.simps[of l] chunks.simps\<close>)
qed

lemma Encode_ok:
  assumes "Encode ps = Inr l"
  shows "list_ok l (chunks ps)" "l_numDoc l = length ps"
  using assms encode_blocks_ok[of "\<lparr>l_data = [], l_blocks = [], l_numDoc = length ps\<rparr>" "[]" ps]
  by (auto simp: Encode_def list_ok_def split: if_splits)

abbreviation doc_sorted :: "Posting list \<Rightarrow> bool" where
  "doc_sorted ps \<equiv> sorted_wrt (\<lambda>p q. Doc p < Doc q) ps"

lemma strictly_ascending_iff: "strictly_ascending ps \<longleftrightarrow> doc_sorted ps"
proof (induction ps rule: strictly_ascending.induct)
  case (1 p q ps)
  then show ?case by (auto simp: not_le intro: less_trans)
qed auto

subsection \<open>Decoding a block\<close>

lemma undelta_doc_gaps: "ch \<noteq> [] \<Longrightarrow> undelta (Doc (hd ch)) (doc_gaps ch) = map Doc ch"
proof (induction ch)
  case (Cons p ch)
  show ?case
  proof (cases ch)
    case (Cons q ch')
    have "doc_gaps (p # ch) = (Doc q - Doc p) # doc_gaps ch"
      unfolding doc_gaps_def Cons
      by (simp add: upt_conv_Cons map_Suc_upt[symmetric] nth_Cons' o_def del: upt_Suc cong: map_cong)
    with Cons.IH Cons show ?thesis by simp
  qed (simp add: doc_gaps_def)
qed simp

lemma list_okD:
  assumes "list_ok l pss" "i < length pss"
  shows "i < length (l_blocks l)" "block_ok (l_data l) (l_blocks l ! i) (pss ! i)"
  using assms by (auto simp: list_ok_def list_all2_conv_all_nth)

lemma length_list_ok: "list_ok l pss \<Longrightarrow> length (l_blocks l) = length pss"
  by (simp add: list_ok_def list_all2_lengthD)

text \<open>Reading back the two streams of a payload.\<close>

lemma read_payload:
  assumes "src = payload ch @ rest" "ch \<noteq> []" "length ch \<le> BlockSize"
  shows "\<exists>pos. (if length ch = BlockSize
      then (if src = [] then None
            else map_option (apsnd Suc) (unpackBits (tl src) (length ch - 1) (unat (hd src))))
      else readGroupVarint src (length ch - 1)) = Some (doc_gaps ch, pos) \<and>
    drop pos src = appendPForDelta [] (map Frequency ch) @ rest"
proof (cases "length ch = BlockSize")
  case True
  let ?w = "maxWidth (doc_gaps ch)"
  have fits: "\<forall>v \<in> set (doc_gaps ch). unat v < 2 ^ ?w" by (auto intro: maxWidth_fits)
  have n: "length (doc_gaps ch) = length ch - 1" by (simp add: doc_gaps_def)
  have w: "unat (of_nat ?w :: byte) = ?w" using maxWidth_range[of "doc_gaps ch"] by (simp add: unat_of_nat)
  have "unpackBits (packBits [] (doc_gaps ch) ?w @ (appendPForDelta [] (map Frequency ch) @ rest)) (length ch - 1) ?w
      = Some (doc_gaps ch, packedLen (length ch - 1) ?w)"
    by (rule unpack_packBits[OF maxWidth_range fits n[symmetric]])
  moreover have "length (packBits [] (doc_gaps ch) ?w) = packedLen (length ch - 1) ?w"
    using length_packBits[OF maxWidth_range fits] by (simp add: n)
  ultimately show ?thesis using True w by (simp add: assms(1) payload_def)
next
  case False
  have "length ch - 1 = length (doc_gaps ch)" by (simp add: doc_gaps_def)
  from read_appendGroupVarint[OF this, of "appendPForDelta [] (map Frequency ch) @ rest"] False
  show ?thesis by (simp add: assms(1) payload_def)
qed

lemma decodeBlock_spec:
  assumes "list_ok (cu_l c) pss" "0 \<le> blockIdx c" "nat (blockIdx c) < length pss"
  defines "ch \<equiv> pss ! nat (blockIdx c)"
  shows "decodeBlock c = Some (c\<lparr>cu_docs := map Doc ch @ drop (length ch) (cu_docs c),
    cu_freqs := map Frequency ch @ drop (length ch) (cu_freqs c), decoded := True\<rparr>)"
proof -
  note b = list_okD[OF assms(1,3), folded ch_def]
  let ?b = "l_blocks (cu_l c) ! nat (blockIdx c)"
  from b(2) obtain rest where src: "drop (blk_offset ?b) (l_data (cu_l c)) = payload ch @ rest"
    and bo: "ch \<noteq> []" "length ch \<le> BlockSize" "firstDoc ?b = Doc (hd ch)" "blk_count ?b = length ch"
      "blk_offset ?b \<le> length (l_data (cu_l c))" by (auto simp: block_ok_def)
  from read_payload[OF src bo(1,2)] obtain pos where gaps: "(if length ch = BlockSize
      then (if drop (blk_offset ?b) (l_data (cu_l c)) = [] then None
            else map_option (apsnd Suc) (unpackBits (tl (drop (blk_offset ?b) (l_data (cu_l c)))) (length ch - 1)
              (unat (hd (drop (blk_offset ?b) (l_data (cu_l c)))))))
      else readGroupVarint (drop (blk_offset ?b) (l_data (cu_l c))) (length ch - 1)) = Some (doc_gaps ch, pos)"
    and pos: "drop pos (drop (blk_offset ?b) (l_data (cu_l c))) = appendPForDelta [] (map Frequency ch) @ rest"
    by blast
  have "readPForDelta (drop pos (drop (blk_offset ?b) (l_data (cu_l c)))) (length ch)
      = Some (map Frequency ch, length (appendPForDelta [] (map Frequency ch)))"
    unfolding pos using bo(2) by (intro read_appendPForDelta) (simp_all add: BlockSize_def)
  moreover have "\<not> (blockIdx c < 0 \<or> int (length (l_blocks (cu_l c))) \<le> blockIdx c)" using b(1) assms(2) by auto
  ultimately show ?thesis
    unfolding decodeBlock_def Let_def bo(4) gaps using bo undelta_doc_gaps[OF bo(1)] by simp
qed

subsection \<open>The abstract view of a cursor\<close>

definition remaining :: "Posting list list \<Rightarrow> Cursor \<Rightarrow> Posting list" where
  "remaining pss c =
     (if blockIdx c < 0 then concat pss
      else drop (if decoded c then inBlock c else 0) (concat (drop (nat (blockIdx c)) pss)))"

definition positioned :: "Posting list list \<Rightarrow> Cursor \<Rightarrow> bool" where
  "positioned pss c \<longleftrightarrow> 0 \<le> blockIdx c \<and> nat (blockIdx c) < length pss \<and> decoded c \<and>
     inBlock c < length (pss ! nat (blockIdx c)) \<and>
     take (length (pss ! nat (blockIdx c))) (cu_docs c) = map Doc (pss ! nat (blockIdx c)) \<and>
     take (length (pss ! nat (blockIdx c))) (cu_freqs c) = map Frequency (pss ! nat (blockIdx c))"

definition cursor_ok :: "Posting list list \<Rightarrow> Cursor \<Rightarrow> bool" where
  "cursor_ok pss c \<longleftrightarrow> list_ok (cu_l c) pss \<and>
     (blockIdx c < 0 \<longrightarrow> \<not> decoded c) \<and>
     (0 \<le> blockIdx c \<and> nat (blockIdx c) < length pss \<and> decoded c \<longrightarrow> positioned pss c)"

lemma cursor_ok_Cursor: "list_ok l pss \<Longrightarrow> cursor_ok pss (List_Cursor l) \<and> remaining pss (List_Cursor l) = concat pss"
  by (simp add: cursor_ok_def List_Cursor_def remaining_def)

lemma positioned_hd:
  assumes "positioned pss c"
  shows "remaining pss c = \<lparr>Doc = Cursor_Doc c, Frequency = Cursor_Freq c\<rparr> #
    drop (Suc (inBlock c)) (pss ! nat (blockIdx c)) @ concat (drop (Suc (nat (blockIdx c))) pss)"
proof -
  let ?i = "nat (blockIdx c)" and ?j = "inBlock c"
  let ?ch = "pss ! ?i"
  from assms have p: "0 \<le> blockIdx c" "?i < length pss" "decoded c" "?j < length ?ch"
    "take (length ?ch) (cu_docs c) = map Doc ?ch" "take (length ?ch) (cu_freqs c) = map Frequency ?ch"
    by (simp_all add: positioned_def)
  have "drop ?i pss = ?ch # drop (Suc ?i) pss" using p(2) by (simp add: Cons_nth_drop_Suc)
  moreover have "drop ?j ?ch = ?ch ! ?j # drop (Suc ?j) ?ch" using p(4) by (simp add: Cons_nth_drop_Suc)
  moreover have "Cursor_Doc c = Doc (?ch ! ?j)" "Cursor_Freq c = Frequency (?ch ! ?j)"
    using p(4) arg_cong[OF p(5), of "\<lambda>xs. xs ! ?j"] arg_cong[OF p(6), of "\<lambda>xs. xs ! ?j"]
    by (simp_all add: Cursor_Doc_def Cursor_Freq_def)
  ultimately show ?thesis using p(1,3,4) by (simp add: remaining_def)
qed

lemma decode_positioned:
  assumes "list_ok (cu_l c) pss" "0 \<le> blockIdx c" "nat (blockIdx c) < length pss"
  shows "\<exists>c'. map_option (\<lambda>c. c\<lparr>inBlock := 0\<rparr>) (decodeBlock c) = Some c' \<and> positioned pss c' \<and>
    remaining pss c' = concat (drop (nat (blockIdx c)) pss) \<and> cu_l c' = cu_l c \<and>
    blockIdx c' = blockIdx c \<and> shallowIdx c' = shallowIdx c"
proof -
  have "pss ! nat (blockIdx c) \<noteq> []" using list_okD(2)[OF assms(1,3)] by (simp add: block_ok_def)
  with assms show ?thesis by (simp add: decodeBlock_spec positioned_def remaining_def)
qed

lemma cursor_ok_positioned: "list_ok (cu_l c) pss \<Longrightarrow> positioned pss c \<Longrightarrow> cursor_ok pss c"
  by (simp add: cursor_ok_def positioned_def)

subsection \<open>Next walks the list\<close>

lemma Next_fresh:
  assumes "list_ok (cu_l c) pss" "blockIdx c < 0"
  shows "\<exists>c'. Next c = Some (pss \<noteq> [], c') \<and> cu_l c' = cu_l c \<and>
    (pss \<noteq> [] \<longrightarrow> positioned pss c' \<and> remaining pss c' = concat pss)"
proof (cases pss)
  case Nil
  with assms length_list_ok[OF assms(1)] show ?thesis by (simp add: Next_def)
next
  case (Cons ch pss')
  then have "l_blocks (cu_l c) \<noteq> []" using length_list_ok[OF assms(1)] by auto
  with decode_positioned[of "c\<lparr>blockIdx := 0\<rparr>" pss] assms Cons show ?thesis
    by (auto simp: Next_def Let_def)
qed

lemma Next_positioned:
  assumes "list_ok (cu_l c) pss" "positioned pss c"
  shows "\<exists>c'. Next c = Some (tl (remaining pss c) \<noteq> [], c') \<and> cu_l c' = cu_l c \<and>
    (tl (remaining pss c) \<noteq> [] \<longrightarrow> positioned pss c' \<and> remaining pss c' = tl (remaining pss c))"
proof -
  let ?i = "nat (blockIdx c)"
  let ?ch = "pss ! ?i" and ?c = "c\<lparr>inBlock := inBlock c + 1\<rparr>"
  from assms(2) have p: "0 \<le> blockIdx c" "?i < length pss" "inBlock c < length ?ch"
    by (simp_all add: positioned_def)
  have cnt: "blk_count (l_blocks (cu_l c) ! ?i) = length ?ch"
    using list_okD(2)[OF assms(1) p(2)] by (simp add: block_ok_def)
  have len: "int (length (l_blocks (cu_l c))) = int (length pss)" "\<not> int (length pss) \<le> blockIdx c"
    using length_list_ok[OF assms(1)] p(1,2) by simp_all
  have tl: "tl (remaining pss c) = drop (Suc (inBlock c)) ?ch @ concat (drop (Suc ?i) pss)"
    by (simp add: positioned_hd[OF assms(2)])
  show ?thesis
  proof (cases "Suc (inBlock c) < length ?ch")
    case True
    have "positioned pss ?c" using assms(2) True by (simp add: positioned_def)
    moreover have "remaining pss ?c = tl (remaining pss c)"
      using assms(2) by (simp add: remaining_def positioned_def tl_drop drop_Suc)
    moreover have "Next c = Some (True, ?c)" using True p cnt len by (simp add: Next_def Let_def)
    ultimately show ?thesis using True by (auto simp: tl)
  next
    case last: False
    then have tl': "tl (remaining pss c) = concat (drop (Suc ?i) pss)" using p(3) by (simp add: tl)
    let ?d = "?c\<lparr>blockIdx := blockIdx c + 1\<rparr>"
    have n: "Next c = (if Done ?d then Some (False, ?d)
        else map_option (\<lambda>c. (True, c\<lparr>inBlock := 0\<rparr>)) (decodeBlock ?d))"
      using last p cnt len by (simp add: Next_def Let_def)
    show ?thesis
    proof (cases "Suc ?i < length pss")
      case True
      have "\<not> Done ?d" using True p len by (simp add: Done_def)
      moreover have "pss ! Suc ?i \<noteq> []" using list_okD(2)[OF assms(1) True] by (simp add: block_ok_def)
      then have "concat (drop (Suc ?i) pss) \<noteq> []"
        using True by (metis Cons_nth_drop_Suc append_is_Nil_conv concat.simps(2))
      moreover have "nat (blockIdx c + 1) = Suc ?i" using p(1) by (simp add: nat_add_distrib)
      ultimately show ?thesis
        using decode_positioned[of ?d pss] assms(1) p(1) True by (auto simp: n tl')
    next
      case False
      then have "Done ?d" using p len by (simp add: Done_def)
      with False show ?thesis by (simp add: n tl')
    qed
  qed
qed

lemma drain_positioned:
  assumes "list_ok (cu_l c) pss" "positioned pss c"
  shows "drain_cursor c = Some (tl (remaining pss c))"
  using assms
proof (induction "tl (remaining pss c)" arbitrary: c)
  case Nil
  with Next_positioned[OF Nil.prems] show ?case by (auto simp: drain_cursor.simps)
next
  case (Cons p ps)
  from Next_positioned[OF Cons.prems] Cons.hyps(2)[symmetric] obtain c' where
    c': "Next c = Some (True, c')" "cu_l c' = cu_l c" "positioned pss c'" "remaining pss c' = p # ps" by auto
  then have "drain_cursor c' = Some ps" using Cons.hyps(1)[of c'] Cons.prems(1) by simp
  moreover have "p = \<lparr>Doc = Cursor_Doc c', Frequency = Cursor_Freq c'\<rparr>"
    using positioned_hd[OF c'(3)] c'(4) by simp
  ultimately show ?case using c'(1) Cons.hyps(2)[symmetric] by (simp add: drain_cursor.simps[of c])
qed

lemma drain_Cursor:
  assumes "list_ok l pss"
  shows "drain_cursor (List_Cursor l) = Some (concat pss)"
proof -
  have "list_ok (cu_l (List_Cursor l)) pss" "blockIdx (List_Cursor l) < 0"
    using assms by (simp_all add: List_Cursor_def)
  note f = Next_fresh[OF this]
  show ?thesis
  proof (cases "pss = []")
    case True
    with f show ?thesis by (auto simp: drain_cursor.simps)
  next
    case False
    with f obtain c' where c': "Next (List_Cursor l) = Some (True, c')" "cu_l c' = l" "positioned pss c'"
      "remaining pss c' = concat pss" by (auto simp: List_Cursor_def)
    have "concat pss = \<lparr>Doc = Cursor_Doc c', Frequency = Cursor_Freq c'\<rparr> # tl (concat pss)"
      using positioned_hd[OF c'(3)] c'(4) by (metis list.sel(3))
    with drain_positioned[OF _ c'(3)] assms c'(1,2,4) show ?thesis
      by (simp add: drain_cursor.simps[of "List_Cursor l"])
  qed
qed

subsection \<open>NextGEQ drops the postings below the target\<close>

abbreviation below :: "DocID \<Rightarrow> Posting \<Rightarrow> bool" where
  "below t p \<equiv> Doc p < t"

lemma block_all_below:
  assumes "doc_sorted (concat pss)" "i < length pss" "pss ! i \<noteq> []" "Doc (last (pss ! i)) < t" "p \<in> set (pss ! i)"
  shows "Doc p < t"
proof -
  have "concat pss = concat (take i pss) @ pss ! i @ concat (drop (Suc i) pss)"
    using assms(2) by (metis Cons_nth_drop_Suc append_take_drop_id concat.simps(2) concat_append)
  with assms(1) have "doc_sorted (pss ! i)" by (simp add: sorted_wrt_append)
  moreover obtain xs x where x: "pss ! i = xs @ [x]" using assms(3) by (cases "pss ! i" rule: rev_cases) auto
  ultimately have "\<forall>p \<in> set xs. Doc p < Doc x" by (simp add: sorted_wrt_append)
  with assms(4,5) x show ?thesis by (auto intro: less_trans)
qed

lemma skip_blocks_spec:
  assumes "cursor_ok pss c" "doc_sorted (concat pss)" "0 \<le> blockIdx c"
  shows "cursor_ok pss (skip_blocks t c) \<and>
    dropWhile (below t) (remaining pss (skip_blocks t c)) = dropWhile (below t) (remaining pss c) \<and>
    (nat (blockIdx (skip_blocks t c)) < length pss \<longrightarrow>
       \<not> Doc (last (pss ! nat (blockIdx (skip_blocks t c)))) < t)"
  using assms
proof (induction t c rule: skip_blocks.induct)
  case (1 t c)
  let ?i = "nat (blockIdx c)" and ?c = "c\<lparr>blockIdx := blockIdx c + 1, decoded := False\<rparr>"
  have lok: "list_ok (cu_l c) pss" using 1(2) by (simp add: cursor_ok_def)
  note len = length_list_ok[OF lok]
  show ?case
  proof (cases "blockIdx c < int (length (l_blocks (cu_l c))) \<and> lastDoc (l_blocks (cu_l c) ! ?i) < t")
    case True
    then have i: "?i < length pss" using 1(4) len by auto
    from list_okD(2)[OF lok i] have b: "pss ! ?i \<noteq> []" "lastDoc (l_blocks (cu_l c) ! ?i) = Doc (last (pss ! ?i))"
      by (auto simp: block_ok_def)
    have n: "nat (blockIdx c + 1) = Suc ?i" using 1(4) by (simp add: nat_add_distrib)
    have "cursor_ok pss ?c" using lok 1(4) by (simp add: cursor_ok_def)
    from 1(1)[OF True this 1(3)] 1(4) have IH: "cursor_ok pss (skip_blocks t ?c) \<and>
      dropWhile (below t) (remaining pss (skip_blocks t ?c)) = dropWhile (below t) (remaining pss ?c) \<and>
      (nat (blockIdx (skip_blocks t ?c)) < length pss \<longrightarrow> \<not> Doc (last (pss ! nat (blockIdx (skip_blocks t ?c)))) < t)"
      by simp
    let ?k = "if decoded c then inBlock c else 0"
    have "?k \<le> length (pss ! ?i)" using 1(2,4) i by (auto simp: cursor_ok_def positioned_def)
    moreover have "drop ?i pss = pss ! ?i # drop (Suc ?i) pss" using i by (simp add: Cons_nth_drop_Suc)
    ultimately have "remaining pss c = drop ?k (pss ! ?i) @ remaining pss ?c"
      using 1(4) n by (simp add: remaining_def)
    moreover have "\<forall>p \<in> set (drop ?k (pss ! ?i)). below t p"
      using block_all_below[OF 1(3) i b(1)] True b(2) by (metis in_set_dropD)
    ultimately have "dropWhile (below t) (remaining pss ?c) = dropWhile (below t) (remaining pss c)"
      by (simp add: dropWhile_append2)
    with IH True show ?thesis by (simp add: skip_blocks.simps[of t c])
  next
    case False
    then have "skip_blocks t c = c" by (subst skip_blocks.simps) (simp only: if_False)
    moreover have "\<not> Doc (last (pss ! ?i)) < t" if "?i < length pss"
      using False that 1(4) len list_okD(2)[OF lok that] by (auto simp: block_ok_def)
    ultimately show ?thesis using 1(2) by simp
  qed
qed

lemma scan_block_spec:
  assumes "positioned pss c" "\<not> Doc (last (pss ! nat (blockIdx c))) < t"
  shows "\<exists>c'. scan_block t (length (pss ! nat (blockIdx c))) c = (True, c') \<and> positioned pss c' \<and>
    remaining pss c' = dropWhile (below t) (remaining pss c)"
  using assms
proof (induction t "length (pss ! nat (blockIdx c))" c rule: scan_block.induct)
  case (1 t c)
  let ?ch = "pss ! nat (blockIdx c)"
  have p: "inBlock c < length ?ch" "cu_docs c ! inBlock c = Doc (hd (remaining pss c))" "remaining pss c \<noteq> []"
    using 1(2) positioned_hd[OF 1(2)] by (simp_all add: positioned_def Cursor_Doc_def)
  show ?case
  proof (cases "t \<le> cu_docs c ! inBlock c")
    case True
    with p 1(2) show ?thesis
      by (cases "remaining pss c") (auto simp: scan_block.simps[of t _ c] not_less[symmetric])
  next
    case False
    let ?c = "c\<lparr>inBlock := inBlock c + 1\<rparr>"
    have nl: "inBlock c + 1 < length ?ch"
    proof (rule ccontr)
      assume "\<not> inBlock c + 1 < length ?ch"
      with p(1) have "inBlock c = length ?ch - 1" by simp
      moreover have "cu_docs c ! inBlock c = Doc (?ch ! inBlock c)"
        using 1(2) p(1) by (simp add: positioned_def) (metis nth_map nth_take)
      moreover have "?ch \<noteq> []" using p(1) by auto
      ultimately show False using 1(3) False by (simp add: last_conv_nth)
    qed
    have pos: "positioned pss ?c" using 1(2) nl by (simp add: positioned_def)
    have "remaining pss ?c = tl (remaining pss c)"
      using 1(2) by (simp add: remaining_def positioned_def tl_drop drop_Suc)
    then have "dropWhile (below t) (remaining pss c) = dropWhile (below t) (remaining pss ?c)"
      using p(2,3) False by (cases "remaining pss c") simp_all
    with 1(1)[OF p(1) False _ pos] 1(3) False p(1) show ?thesis
      by (simp add: scan_block.simps[of t _ c])
  qed
qed

lemma NextGEQ_spec:
  fixes t :: DocID
  assumes "cursor_ok pss c" "doc_sorted (concat pss)"
  defines "ps \<equiv> dropWhile (below t) (remaining pss c)"
  shows "\<exists>c'. NextGEQ t c = Some (if ps = [] then (0, False, c') else (Doc (hd ps), True, c')) \<and>
    cursor_ok pss c' \<and> remaining pss c' = ps \<and> (ps \<noteq> [] \<longrightarrow> positioned pss c') \<and>
    cu_l c' = cu_l c \<and> shallowIdx c' = shallowIdx c"
proof -
  have lok: "list_ok (cu_l c) pss" using assms(1) by (simp add: cursor_ok_def)
  note len = length_list_ok[OF lok]
  let ?c0 = "if blockIdx c < 0 then c\<lparr>blockIdx := 0\<rparr> else c" and ?e = "geq_enter t c"
  have "cursor_ok pss ?c0" "remaining pss ?c0 = remaining pss c" "0 \<le> blockIdx ?c0"
    using assms(1) by (auto simp: cursor_ok_def remaining_def)
  with skip_blocks_spec[OF this(1) assms(2) this(3), of t] have
    e: "cursor_ok pss ?e" "dropWhile (below t) (remaining pss ?e) = ps"
      "nat (blockIdx ?e) < length pss \<Longrightarrow> \<not> Doc (last (pss ! nat (blockIdx ?e))) < t"
    by (auto simp: geq_enter_def ps_def)
  have "0 \<le> blockIdx ?c0" by simp
  also have "\<dots> \<le> blockIdx ?e" unfolding geq_enter_def by (rule skip_blocks_frame(6))
  finally have fr: "cu_l ?e = cu_l c" "shallowIdx ?e = shallowIdx c" "0 \<le> blockIdx ?e"
    by (simp_all add: geq_enter_def skip_blocks_frame)
  have done_rem: "remaining pss d = []" if "Done d" "cu_l d = cu_l c" for d
    using that len by (simp add: Done_def remaining_def)
  show ?thesis
  proof (cases "Done c \<or> Done ?e")
    case True
    then have "ps = []"
    proof
      assume "Done c" then show ?thesis using done_rem[of c] by (simp add: ps_def)
    next
      assume "Done ?e" then show ?thesis using done_rem[of ?e] fr(1) e(2) by simp
    qed
    then show ?thesis
      using True e(1) done_rem[of c] done_rem[of ?e] assms(1) fr
      by (cases "Done c") (auto simp: NextGEQ.simps[of t c])
  next
    case False
    then have i: "nat (blockIdx ?e) < length pss" using fr len by (simp add: Done_def) linarith
    have lokE: "list_ok (cu_l ?e) pss" using e(1) by (simp add: cursor_ok_def)
    obtain c2 where c2: "ensure_decoded ?e = Some c2" "positioned pss c2" "remaining pss c2 = remaining pss ?e"
      "cu_l c2 = cu_l c" "blockIdx c2 = blockIdx ?e" "shallowIdx c2 = shallowIdx c"
    proof (cases "decoded ?e")
      case True
      with e(1) fr i that show thesis by (simp add: ensure_decoded_def cursor_ok_def)
    next
      case False
      with decode_positioned[OF lokE fr(3) i] fr that show thesis
        by (auto simp: ensure_decoded_def remaining_def)
    qed
    have cnt: "blk_count (l_blocks (cu_l c2) ! nat (blockIdx c2)) = length (pss ! nat (blockIdx c2))"
      using list_okD(2)[OF lok i] c2(4,5) by (simp add: block_ok_def)
    from scan_block_spec[OF c2(2), of t] e(3)[OF i] c2(5) obtain c3 where
      c3: "scan_block t (length (pss ! nat (blockIdx c2))) c2 = (True, c3)" "positioned pss c3"
        "remaining pss c3 = ps" using c2(3) e(2) by auto
    have "remaining pss c3 \<noteq> []" "Cursor_Doc c3 = Doc (hd ps)"
      using positioned_hd[OF c3(2)] c3(3) by auto
    moreover have "NextGEQ t c = Some (Cursor_Doc c3, True, c3)"
      using False c2(1) c3(1) cnt by (simp add: NextGEQ.simps[of t c])
    moreover have "cu_l c3 = cu_l c" "shallowIdx c3 = shallowIdx c"
      using scan_block_frame[OF c3(1)] c2 by simp_all
    ultimately show ?thesis using c3 lok by (auto intro: cursor_ok_positioned)
  qed
qed

lemma NextGEQ_iff:
  assumes "NextGEQ t c = Some (d, ok, c')" "cursor_ok pss c" "doc_sorted (concat pss)"
  defines "ps \<equiv> dropWhile (below t) (remaining pss c)"
  shows "ok \<longleftrightarrow> ps \<noteq> []" "ok \<Longrightarrow> d = Doc (hd ps) \<and> positioned pss c'"
    "cursor_ok pss c'" "remaining pss c' = ps" "cu_l c' = cu_l c" "shallowIdx c' = shallowIdx c"
  using NextGEQ_spec[OF assms(2,3), of t] assms(1) unfolding ps_def by (auto split: if_splits)

subsection \<open>The shallow pointer bounds the frequencies of its block\<close>

lemma AdvanceShallow_frame:
  "AdvanceShallow t c = c\<lparr>shallowIdx := shallowIdx (AdvanceShallow t c)\<rparr>"
proof (induction t c rule: AdvanceShallow.induct)
  case (1 t c)
  then show ?case by (auto simp: AdvanceShallow.simps[of t c])
qed

lemma AdvanceShallow_spec:
  "shallowIdx c < length (l_blocks (cu_l c)) \<Longrightarrow>
   (let k = shallowIdx (AdvanceShallow t c); bs = l_blocks (cu_l c)
    in shallowIdx c \<le> k \<and> k < length bs \<and> (\<forall>i. shallowIdx c \<le> i \<and> i < k \<longrightarrow> lastDoc (bs ! i) < t) \<and>
       (k < length bs - 1 \<longrightarrow> t \<le> lastDoc (bs ! k)))"
proof (induction t c rule: AdvanceShallow.induct)
  case (1 t c)
  show ?case
  proof (cases "int (shallowIdx c) < int (length (l_blocks (cu_l c))) - 1 \<and>
      lastDoc (l_blocks (cu_l c) ! shallowIdx c) < t")
    case True
    then have "Suc (shallowIdx c) < length (l_blocks (cu_l c))" by linarith
    with 1(1)[OF True] have IH: "let k = shallowIdx (AdvanceShallow t (c\<lparr>shallowIdx := shallowIdx c + 1\<rparr>));
        bs = l_blocks (cu_l c) in Suc (shallowIdx c) \<le> k \<and> k < length bs \<and>
        (\<forall>i. Suc (shallowIdx c) \<le> i \<and> i < k \<longrightarrow> lastDoc (bs ! i) < t) \<and> (k < length bs - 1 \<longrightarrow> t \<le> lastDoc (bs ! k))"
      by simp
    have "lastDoc (l_blocks (cu_l c) ! i) < t"
      if "\<forall>i. Suc (shallowIdx c) \<le> i \<and> i < k \<longrightarrow> lastDoc (l_blocks (cu_l c) ! i) < t" "shallowIdx c \<le> i" "i < k" for i k
      using that True by (cases "i = shallowIdx c") auto
    with IH show ?thesis
      unfolding AdvanceShallow.simps[of t c] Let_def using True by (auto intro: Suc_leD)
  next
    case False
    then have "AdvanceShallow t c = c" by (subst AdvanceShallow.simps) (simp only: if_False)
    with False 1(2) show ?thesis by (auto simp: Let_def not_less)
  qed
qed

subsection \<open>Properties\<close>

text \<open>C6: \<open>Encode\<close> accepts exactly the postings whose document ids strictly ascend and refuses every
  other input; what it accepts, a cursor's \<open>Next\<close> calls read back posting by posting, and the list
  reports the number of documents.\<close>

theorem Encode_roundtrip:
  "case Encode ps of
     Inl e \<Rightarrow> \<not> sorted_wrt (\<lambda>p q. Doc p < Doc q) ps
   | Inr l \<Rightarrow> sorted_wrt (\<lambda>p q. Doc p < Doc q) ps \<and> drain_cursor (List_Cursor l) = Some ps \<and> NumDocs l = length ps"
proof (cases "Encode ps")
  case (Inr l)
  then have "doc_sorted ps" using strictly_ascending_iff[of ps] by (auto simp: Encode_def split: if_splits)
  then show ?thesis
    using Inr drain_Cursor[OF Encode_ok(1)[OF Inr]] Encode_ok(2)[OF Inr] by (simp add: NumDocs_def)
qed (auto simp: Encode_def strictly_ascending_iff split: if_splits)

text \<open>Any number of seeks on one cursor, in the order given.\<close>

fun seek :: "DocID list \<Rightarrow> Cursor \<Rightarrow> Cursor option" where
  "seek [] c = Some c"
| "seek (t # ts) c = (case NextGEQ t c of None \<Rightarrow> None | Some (_, _, c') \<Rightarrow> seek ts c')"

lemma dropWhile_below_twice:
  "doc_sorted ps \<Longrightarrow> dropWhile (below t) (dropWhile (below s) ps) = dropWhile (below (max s t)) ps"
  by (induction ps) (auto simp: max_def not_less)

lemma seek_spec:
  assumes "cursor_ok pss c" "doc_sorted (concat pss)" "remaining pss c = dropWhile (below s) (concat pss)"
  shows "\<exists>c'. seek ts c = Some c' \<and> cursor_ok pss c' \<and>
    remaining pss c' = dropWhile (below (foldl max s ts)) (concat pss)"
  using assms
proof (induction ts arbitrary: c s)
  case (Cons t ts)
  obtain r f c' where c': "NextGEQ t c = Some (r, f, c')" "cursor_ok pss c'"
    "remaining pss c' = dropWhile (below t) (remaining pss c)"
    using NextGEQ_spec[OF Cons.prems(1,2), of t] by (auto split: if_splits)
  have "remaining pss c' = dropWhile (below (max s t)) (concat pss)"
    using c'(3) Cons.prems(2,3) dropWhile_below_twice by simp
  from Cons.IH[OF c'(2) Cons.prems(2) this] show ?case using c'(1) by simp
qed simp

text \<open>C7: A seek is a lower bound, however it was reached. On a list \<open>Encode\<close> accepted, after any earlier
  seeks, \<open>NextGEQ t\<close> returns the first document of the list that is not below \<open>t\<close> nor below any
  earlier target, and reports exhaustion when there is none; whole blocks are skipped undecoded
  without losing a document.\<close>

theorem NextGEQ_lower_bound:
  assumes "Encode ps = Inr l"
  shows "\<exists>c c'. seek ts (List_Cursor l) = Some c \<and>
    NextGEQ t c = Some (case find (\<lambda>p. foldl max t ts \<le> Doc p) ps of
        None \<Rightarrow> (0, False, c') | Some p \<Rightarrow> (Doc p, True, c'))"
proof -
  have so: "doc_sorted (concat (chunks ps))"
    using assms strictly_ascending_iff[of ps] by (auto simp: Encode_def split: if_splits)
  have c0: "cursor_ok (chunks ps) (List_Cursor l)" "remaining (chunks ps) (List_Cursor l) = ps"
    using cursor_ok_Cursor[OF Encode_ok(1)[OF assms]] by simp_all
  have "dropWhile (below 0) ps = ps" by (cases ps) simp_all
  with c0 so obtain c where c: "seek ts (List_Cursor l) = Some c" "cursor_ok (chunks ps) c"
    "remaining (chunks ps) c = dropWhile (below (foldl max 0 ts)) ps"
    using seek_spec[of "chunks ps" "List_Cursor l" 0 ts] by auto
  have fm: "foldl max a (xs :: DocID list) = max a (foldl max 0 xs)" for a xs
  proof (induction xs arbitrary: a)
    case (Cons x xs)
    show ?case using Cons[of "max a x"] Cons[of "max 0 x"] by (simp add: max.assoc)
  qed simp
  let ?m = "foldl max t ts"
  have rem: "dropWhile (below t) (remaining (chunks ps) c) = dropWhile (below ?m) ps"
    unfolding c(3) fm[of t ts] max.commute[of t] using so by (intro dropWhile_below_twice) simp
  have fd: "find (\<lambda>p. m \<le> Doc p) qs = (case dropWhile (below m) qs of [] \<Rightarrow> None | p # _ \<Rightarrow> Some p)" for m qs
    by (induction qs) (auto simp: not_less)
  obtain c' where "NextGEQ t c = Some (if dropWhile (below ?m) ps = [] then (0, False, c')
      else (Doc (hd (dropWhile (below ?m) ps)), True, c'))"
    using NextGEQ_spec[OF c(2) so, of t] unfolding rem by blast
  then show ?thesis using c(1) fd[of ?m ps] by (cases "dropWhile (below ?m) ps") auto
qed

theorem NextGEQ_lower_bound_witness:
  "\<exists>l c c'. Encode [\<lparr>Doc = 3, Frequency = 1\<rparr>, \<lparr>Doc = 9, Frequency = 2\<rparr>] = Inr l \<and>
     seek [1] (List_Cursor l) = Some c \<and> NextGEQ 4 c = Some (9, True, c')"
proof -
  let ?ps = "[\<lparr>Doc = 3, Frequency = 1\<rparr>, \<lparr>Doc = 9, Frequency = 2\<rparr>] :: Posting list"
  obtain l where "Encode ?ps = Inr l" by (simp add: Encode_def)
  then show ?thesis using NextGEQ_lower_bound[of ?ps l "[1]" 4] by auto
qed

end
