(* ===== verification/Search.thy ===== *)
theory Search
  imports Postings_Correct GoHeap "HOL-Library.Product_Lexorder"
begin

text \<open>
  \<open>index/search/wand.go\<close>: top-k retrieval by Block-Max WAND. The per-term states are a list and a
  slice of pointers to them is a list of indices into it. A \<open>Score\<close> (float32 in the source) is an
  element of a linearly ordered ring \<open>'s\<close>, so sums are exact. \<open>None\<close> is a panic or a loop that does
  not end.
\<close>

record 's Scorer =
  Score :: "u32 \<Rightarrow> 's"
  MaxScore :: "u32 \<Rightarrow> 's"

record 's TermInput =
  ti_Cursor :: Cursor
  ti_Scorer :: "'s Scorer"
  ti_MaxFreq :: u32

record 's Hit =
  hit_Doc :: DocID
  hit_Score :: 's

record 's termState =
  ts_cur :: Cursor
  ts_scorer :: "'s Scorer"
  ts_maxScore :: 's
  ts_doc :: DocID
  ts_done :: bool

type_synonym 's states = "'s termState list"

definition advance :: "DocID \<Rightarrow> 's termState \<Rightarrow> 's termState option" where
  "advance target t =
     (case NextGEQ target (ts_cur t) of
        None \<Rightarrow> None
      | Some (d, ok, c) \<Rightarrow>
          Some (if \<not> ok then t\<lparr>ts_cur := c, ts_done := True\<rparr> else t\<lparr>ts_cur := c, ts_doc := d\<rparr>))"

text \<open>Position a cursor on its first document, as the setup loop of \<open>WAND\<close> does for every term.\<close>

definition init_state :: "'s TermInput \<Rightarrow> 's termState option" where
  "init_state t =
     advance 0 \<lparr>ts_cur = ti_Cursor t, ts_scorer = ti_Scorer t, ts_maxScore = MaxScore (ti_Scorer t) (ti_MaxFreq t),
                ts_doc = 0, ts_done = False\<rparr>"

fun init_states :: "'s TermInput list \<Rightarrow> 's states option" where
  "init_states [] = Some []"
| "init_states (t # ts) =
     (case init_state t of
        None \<Rightarrow> None
      | Some s \<Rightarrow> map_option ((#) s) (init_states ts))"

definition liveSorted :: "'s states \<Rightarrow> nat list" where
  "liveSorted states =
     sort_key (\<lambda>i. ts_doc (states ! i)) (filter (\<lambda>i. \<not> ts_done (states ! i)) [0..<length states])"

fun findPivot_loop :: "'s::linordered_idom states \<Rightarrow> 's \<Rightarrow> 's \<Rightarrow> int \<Rightarrow> nat list \<Rightarrow> int" where
  "findPivot_loop states threshold sm i [] = -1"
| "findPivot_loop states threshold sm i (x # live) =
     (let sm = sm + ts_maxScore (states ! x)
      in if sm > threshold then i else findPivot_loop states threshold sm (i + 1) live)"

definition findPivot :: "'s::linordered_idom states \<Rightarrow> nat list \<Rightarrow> 's \<Rightarrow> int" where
  "findPivot states live threshold = findPivot_loop states threshold 0 0 live"

definition shallow :: "DocID \<Rightarrow> nat \<Rightarrow> 's states \<Rightarrow> 's states" where
  "shallow pivotDoc x states = states[x := (states ! x)\<lparr>ts_cur := AdvanceShallow pivotDoc (ts_cur (states ! x))\<rparr>]"

fun blockMaxSum :: "DocID \<Rightarrow> nat list \<Rightarrow> 's::linordered_idom \<Rightarrow> 's states \<Rightarrow> ('s \<times> 's states) option" where
  "blockMaxSum pivotDoc [] sm states = Some (sm, states)"
| "blockMaxSum pivotDoc (x # live) sm states =
     (if ts_doc (states ! x) > pivotDoc then Some (sm, states)
      else let states = shallow pivotDoc x states
           in case BlockMaxFreq (ts_cur (states ! x)) of
                None \<Rightarrow> None
              | Some f \<Rightarrow> blockMaxSum pivotDoc live (sm + MaxScore (ts_scorer (states ! x)) f) states)"

text \<open>The first loop of \<open>skipBlock\<close>: the shallowest block end of the pivot set (\<open>None\<close> while \<open>first\<close>) and
  the current document of the next term, if any.\<close>

fun skip_bounds ::
  "DocID \<Rightarrow> nat list \<Rightarrow> DocID option \<Rightarrow> 's states \<Rightarrow> (DocID option \<times> DocID option \<times> 's states) option" where
  "skip_bounds pivotDoc [] minLast states = Some (minLast, None, states)"
| "skip_bounds pivotDoc (x # live) minLast states =
     (if ts_doc (states ! x) > pivotDoc then Some (minLast, Some (ts_doc (states ! x)), states)
      else let states = shallow pivotDoc x states
           in case BlockLastDoc (ts_cur (states ! x)) of
                None \<Rightarrow> None
              | Some lst \<Rightarrow>
                  skip_bounds pivotDoc live
                    (case minLast of None \<Rightarrow> Some lst | Some m \<Rightarrow> if lst < m then Some lst else Some m) states)"

fun advance_where :: "('s termState \<Rightarrow> bool) \<Rightarrow> DocID \<Rightarrow> nat list \<Rightarrow> 's states \<Rightarrow> 's states option" where
  "advance_where P target [] states = Some states"
| "advance_where P target (x # live) states =
     (if P (states ! x) then
        case advance target (states ! x) of
          None \<Rightarrow> None
        | Some s \<Rightarrow> advance_where P target live (states[x := s])
      else advance_where P target live states)"

definition skipBlock :: "DocID \<Rightarrow> nat list \<Rightarrow> 's states \<Rightarrow> 's states option" where
  "skipBlock pivotDoc live states =
     (case skip_bounds pivotDoc live None states of
        None \<Rightarrow> None
      | Some (minLast, nextTermDoc, states) \<Rightarrow>
          (let target = (case minLast of None \<Rightarrow> 0 | Some m \<Rightarrow> m) + 1;
               target = (case nextTermDoc of None \<Rightarrow> target | Some d \<Rightarrow> if d < target then d else target)
           in advance_where (\<lambda>t. ts_doc t < target) target live states))"

definition scoreDoc :: "'s::linordered_idom states \<Rightarrow> nat list \<Rightarrow> DocID \<Rightarrow> 's" where
  "scoreDoc states live doc =
     foldl (\<lambda>s x. if ts_doc (states ! x) = doc then s + Score (ts_scorer (states ! x)) (Cursor_Freq (ts_cur (states ! x))) else s)
       0 live"

fun pickAdvance_loop :: "'s::linordered_idom states \<Rightarrow> DocID \<Rightarrow> nat list \<Rightarrow> nat option \<Rightarrow> 's \<Rightarrow> nat option" where
  "pickAdvance_loop states pivotDoc [] best bestScore = best"
| "pickAdvance_loop states pivotDoc (x # live) best bestScore =
     (if ts_doc (states ! x) < pivotDoc \<and> ts_maxScore (states ! x) > bestScore
      then pickAdvance_loop states pivotDoc live (Some x) (ts_maxScore (states ! x))
      else pickAdvance_loop states pivotDoc live best bestScore)"

text \<open>\<open>pickAdvance\<close> returns a position of \<open>live\<close>; here the index of the state there, \<open>None\<close> for -1 (which
  the caller would use as an index and panic).\<close>

definition pickAdvance :: "'s::linordered_idom states \<Rightarrow> nat list \<Rightarrow> DocID \<Rightarrow> nat option" where
  "pickAdvance states live pivotDoc = pickAdvance_loop states pivotDoc live None (-1)"

definition better :: "'s::linorder Hit \<Rightarrow> 's Hit \<Rightarrow> bool" where
  "better a b = (if hit_Score a \<noteq> hit_Score b then hit_Score a > hit_Score b else hit_Doc a < hit_Doc b)"

definition heap_less :: "'s::linorder Hit \<Rightarrow> 's Hit \<Rightarrow> bool" where
  "heap_less a b = better b a"

definition pushTop :: "'s::linorder Hit list \<Rightarrow> 's Hit \<Rightarrow> int \<Rightarrow> 's \<Rightarrow> 's \<times> 's Hit list" where
  "pushTop h hit k threshold =
     (let h = (if int (length h) < k then heap_Push heap_less hit h
               else if better hit (h ! 0) then heap_Push heap_less hit (snd (heap_Pop heap_less h))
               else h)
      in (if int (length h) = k then hit_Score (h ! 0) else threshold, h))"

text \<open>\<open>drain\<close>: pop everything, then sort by rank.\<close>

fun pop_all :: "nat \<Rightarrow> 's::linorder Hit list \<Rightarrow> 's Hit list" where
  "pop_all 0 h = []"
| "pop_all (Suc n) h = (case heap_Pop heap_less h of (x, h') \<Rightarrow> x # pop_all n h')"

definition drain :: "('s Hit list \<Rightarrow> 's Hit list) \<Rightarrow> 's::linorder Hit list \<Rightarrow> 's Hit list" where
  "drain srt h = srt (pop_all (length h) h)"

partial_function (option) wand_loop ::
  "int \<Rightarrow> 's::linordered_idom states \<Rightarrow> 's Hit list \<Rightarrow> 's \<Rightarrow> 's Hit list option" where
  "wand_loop k states hp threshold =
     (let live = liveSorted states in
      if live = [] then Some hp
      else let pivot = findPivot states live threshold in
      if pivot < 0 then Some hp
      else let pivotDoc = ts_doc (states ! (live ! nat pivot)) in
      if ts_doc (states ! (live ! 0)) = pivotDoc then
        case blockMaxSum pivotDoc live 0 states of
          None \<Rightarrow> None
        | Some (ub, states) \<Rightarrow>
            if ub \<le> threshold \<and> threshold > 0 then
              Option.bind (skipBlock pivotDoc live states) (\<lambda>states. wand_loop k states hp threshold)
            else
              (case pushTop hp \<lparr>hit_Doc = pivotDoc, hit_Score = scoreDoc states live pivotDoc\<rparr> k threshold of
                 (threshold, hp) \<Rightarrow>
                   Option.bind (advance_where (\<lambda>t. ts_doc t = pivotDoc) (pivotDoc + 1) live states)
                     (\<lambda>states. wand_loop k states hp threshold))
      else
        case pickAdvance states live pivotDoc of
          None \<Rightarrow> None
        | Some x \<Rightarrow>
            Option.bind (advance pivotDoc (states ! x)) (\<lambda>s. wand_loop k (states[x := s]) hp threshold))"

definition WAND :: "('s Hit list \<Rightarrow> 's Hit list) \<Rightarrow> 's::linordered_idom TermInput list \<Rightarrow> int \<Rightarrow> 's Hit list option" where
  "WAND srt terms k =
     (if k \<le> 0 \<or> terms = [] then Some []
      else Option.bind (init_states terms) (\<lambda>states.
           map_option (drain srt) (wand_loop k states [] 0)))"

end
