(* ===== verification/TopK.thy ===== *)
theory TopK
  imports Search
begin

text \<open>
  The top-k heap of \<open>index/search/wand.go\<close>: \<open>better\<close> is the lexicographic order by score descending,
  then document ascending, and \<open>pushTop\<close> keeps the best \<open>k\<close> hits seen.
\<close>

definition rank :: "'s::linordered_idom Hit \<Rightarrow> 's \<times> DocID" where
  "rank h = (- hit_Score h, hit_Doc h)"

lemma better_rank: "better a b \<longleftrightarrow> rank a < rank b"
  by (auto simp: better_def rank_def)

lemma heap_less_rank: "heap_less a b \<longleftrightarrow> rank b < rank a"
  by (simp add: heap_less_def better_rank)

interpretation hit_heap: weak_order "heap_less :: 's::linordered_idom Hit \<Rightarrow> 's Hit \<Rightarrow> bool"
  by unfold_locales (auto simp: heap_less_rank)

lemma rank_inj: "inj rank"
  by (rule injI) (simp add: rank_def Hit.equality)

subsection \<open>The best k of a set\<close>

definition is_topk :: "nat \<Rightarrow> 's::linordered_idom Hit set \<Rightarrow> 's Hit set \<Rightarrow> bool" where
  "is_topk k H T \<longleftrightarrow> finite H \<and> T \<subseteq> H \<and> card T = min k (card H) \<and> (\<forall>t \<in> T. \<forall>x \<in> H - T. rank t < rank x)"

lemma is_topk_empty: "is_topk k {} {}"
  by (simp add: is_topk_def)

lemma is_topk_grow:
  assumes "is_topk k H T" "card T < k" "h \<notin> H"
  shows "is_topk k (insert h H) (insert h T)"
proof -
  have H: "finite H" "T \<subseteq> H" "card T = card H" using assms(1,2) by (auto simp: is_topk_def)
  then have "T = H" by (simp add: card_subset_eq)
  with assms H show ?thesis by (simp add: is_topk_def)
qed

lemma is_topk_replace:
  assumes "is_topk k H T" "card T = k" "h \<notin> H" "m \<in> T" "\<forall>t \<in> T. rank t \<le> rank m" "rank h < rank m"
  shows "is_topk k (insert h H) (insert h (T - {m}))"
proof -
  have T: "finite T" "finite H" "T \<subseteq> H" "h \<notin> T" "k \<le> card H"
    using assms(1-3) by (auto simp: is_topk_def finite_subset)
  have out: "rank t < rank x" if "t \<in> T" "x \<in> H - T" for t x using assms(1) that by (simp add: is_topk_def)
  have strict: "rank t < rank m" if "t \<in> T - {m}" for t
    using assms(5) that rank_inj by (metis DiffE inj_eq insertI1 order_le_less)
  have "card (insert h (T - {m})) = Suc (card (T - {m}))" using T by simp
  also have "\<dots> = k" using T(1) assms(2,4) by (simp only: card_Suc_Diff1)
  finally have "card (insert h (T - {m})) = k" .
  moreover have "rank t < rank x" if "t \<in> insert h (T - {m})" "x \<in> insert h H - insert h (T - {m})" for t x
  proof (cases "x = m")
    case True
    with that strict assms(6) show ?thesis by auto
  next
    case False
    then have x: "x \<in> H - T" using that by auto
    then show ?thesis using that out[OF _ x] out[OF assms(4) x] assms(6) by (metis Diff_iff insert_iff order_less_trans)
  qed
  moreover have "card (insert h H) = Suc (card H)" using T assms(3) by simp
  ultimately show ?thesis using T assms(2) by (auto simp: is_topk_def)
qed

lemma is_topk_lose:
  assumes "is_topk k H T" "card T = k" "finite X" "\<forall>x \<in> X. \<forall>t \<in> T. rank t < rank x"
  shows "is_topk k (H \<union> X) T"
proof -
  have "k \<le> card (H \<union> X)" using assms(1-3) card_mono[of "H \<union> X" T] by (auto simp: is_topk_def)
  then show ?thesis using assms by (auto simp: is_topk_def)
qed

text \<open>Sorted, the best k of a set are a prefix of the sorted set.\<close>

lemma sorted_rank_unique:
  assumes "sorted (map rank xs)" "sorted (map rank ys)" "distinct xs" "distinct ys" "set xs = set ys"
  shows "xs = ys"
proof -
  have "map rank xs = map rank ys"
    using assms by (intro sorted_distinct_set_unique) (auto simp: distinct_map intro: inj_on_subset[OF rank_inj])
  then show ?thesis using rank_inj by (metis map_injective)
qed

lemma is_topk_sorted:
  assumes "is_topk k H T" "distinct xs" "set xs = T" "sorted (map rank xs)" "distinct hs" "set hs = H"
  shows "xs = take k (sort_key rank hs)"
proof -
  obtain zs where zs: "set zs = H - T" "distinct zs" using assms(5,6) by (metis finite_Diff finite_list List.finite_set finite_distinct_list)
  let ?s = "xs @ sort_key rank zs"
  have "sorted (map rank ?s)" using assms zs by (auto simp: sorted_append is_topk_def less_imp_le)
  moreover have "set ?s = set (sort_key rank hs)" using assms zs by (auto simp: is_topk_def)
  ultimately have s: "sort_key rank hs = ?s" using assms zs by (intro sorted_rank_unique) auto
  have "length xs = min k (length hs)" using assms by (metis distinct_card is_topk_def)
  moreover have "length hs = length xs + length zs" using arg_cong[OF s, of length] by simp
  ultimately show ?thesis unfolding s by (cases "k \<le> length hs") auto
qed

subsection \<open>pushTop\<close>

definition top_ok :: "nat \<Rightarrow> 's::linordered_idom Hit set \<Rightarrow> 's Hit list \<Rightarrow> bool" where
  "top_ok k H h \<longleftrightarrow> heap_ok heap_less (length h) h \<and> distinct h \<and> is_topk k H (set h)"

definition threshold_of :: "nat \<Rightarrow> 's::linordered_idom Hit list \<Rightarrow> 's" where
  "threshold_of k h = (if length h = k then hit_Score (h ! 0) else 0)"

lemma distinct_mset_eq: "mset xs = mset ys \<Longrightarrow> distinct xs \<longleftrightarrow> distinct ys"
  by (rule mset_eq_imp_distinct_iff)

lemma top_root:
  assumes "top_ok k H h" "h \<noteq> []" "t \<in> set h"
  shows "rank t \<le> rank (h ! 0)"
  using hit_heap.heap_Pop(4)[of h t] assms by (simp add: top_ok_def heap_less_rank hd_conv_nth not_less)

lemma top_ok_push:
  assumes "heap_ok heap_less (length h) h" "x \<notin> set h" "distinct h" "is_topk k H (insert x (set h))"
  shows "top_ok k H (heap_Push heap_less x h)"
proof -
  note p = hit_heap.heap_Push[OF assms(1), of x]
  have "set (heap_Push heap_less x h) = insert x (set h)" using p(2) by (metis set_mset_add_mset_insert set_mset_mset)
  moreover have "distinct (heap_Push heap_less x h)"
    using p(2) assms(2,3) distinct_mset_eq[of "heap_Push heap_less x h" "x # h"] by simp
  ultimately show ?thesis using p(1) assms(4) by (simp add: top_ok_def)
qed

lemma pushTop_ok:
  assumes "top_ok k H h" "0 < k" "x \<notin> H"
  shows "top_ok k (insert x H) (snd (pushTop h x (int k) (threshold_of k h)))"
    "fst (pushTop h x (int k) (threshold_of k h)) = threshold_of k (snd (pushTop h x (int k) (threshold_of k h)))"
proof -
  have h: "heap_ok heap_less (length h) h" "distinct h" "is_topk k H (set h)" using assms(1) by (simp_all add: top_ok_def)
  have len: "length h = card (set h)" "length h \<le> k" "x \<notin> set h"
    using h assms(3) by (auto simp: distinct_card is_topk_def)
  let ?h = "snd (pushTop h x (int k) (threshold_of k h))"
  have ok: "top_ok k (insert x H) ?h \<and> (length h = k \<longrightarrow> length ?h = k)"
  proof (cases "length h < k")
    case True
    then have "is_topk k (insert x H) (insert x (set h))" using is_topk_grow[OF h(3)] len assms(3) by simp
    then show ?thesis using top_ok_push[OF h(1) len(3) h(2)] True by (simp add: pushTop_def Let_def)
  next
    case False
    then have k: "length h = k" "h \<noteq> []" using len assms(2) by auto
    show ?thesis
    proof (cases "better x (h ! 0)")
      case True
      let ?r = "snd (heap_Pop heap_less h)"
      note pop = hit_heap.heap_Pop[OF h(1) k(2)]
      have "distinct (hd h # ?r)" using h(2) pop(2) distinct_mset_eq[of "hd h # ?r" h] by simp
      moreover have "set h = insert (hd h) (set ?r)" using pop(2) by (metis set_mset_add_mset_insert set_mset_mset)
      ultimately have r: "distinct ?r" "set ?r = set h - {h ! 0}" using k(2) by (auto simp: hd_conv_nth)
      have "h ! 0 \<in> set h" using k(2) by simp
      then have "is_topk k (insert x H) (insert x (set h - {h ! 0}))"
        using is_topk_replace[OF h(3) _ assms(3), of "h ! 0"] True top_root[OF assms(1) k(2)] k len
        by (auto simp: better_rank)
      then have "top_ok k (insert x H) (heap_Push heap_less x ?r)"
        using top_ok_push[OF pop(3) _ r(1)] r(2) len(3) by auto
      moreover have "length (heap_Push heap_less x ?r) = k"
        using pop(2) k by (simp add: heap_Push_def) (metis size_add_mset size_mset)
      ultimately show ?thesis using True False by (simp add: pushTop_def Let_def)
    next
      case F: False
      have "rank t < rank x" if "t \<in> set h" for t
      proof -
        have "rank t \<le> rank (h ! 0)" using top_root[OF assms(1) k(2) that] .
        also have "\<dots> \<le> rank x" using F by (simp add: better_rank)
        finally show ?thesis using that len(3) rank_inj by (metis inj_eq order_le_less)
      qed
      then have "is_topk k (insert x H) (set h)" using is_topk_lose[OF h(3), of "{x}"] k len by simp
      then show ?thesis using F False h k by (simp add: pushTop_def Let_def top_ok_def)
    qed
  qed
  then show "top_ok k (insert x H) ?h" by simp
  have "length ?h = length h + 1" if "length h < k" using that by (simp add: pushTop_def Let_def heap_Push_def)
  then show "fst (pushTop h x (int k) (threshold_of k h)) = threshold_of k ?h"
    using ok len(2) by (auto simp: pushTop_def Let_def threshold_of_def)
qed

text \<open>Every hit no better than the threshold, on a later document, stays out of a full heap.\<close>

lemma below_threshold_loses:
  assumes "top_ok k H h" "length h = k" "0 < k" "t \<in> set h" "hit_Score x \<le> threshold_of k h" "hit_Doc t < hit_Doc x"
  shows "rank t < rank x"
proof -
  have "rank t \<le> rank (h ! 0)" using assms(4) by (intro top_root[OF assms(1) _ assms(4)]) auto
  then have "hit_Score (h ! 0) \<le> hit_Score t" by (auto simp: rank_def)
  then show ?thesis using assms by (auto simp: rank_def threshold_of_def)
qed

lemma mset_pop_all:
  assumes "heap_ok heap_less (length h) h" "length h = n"
  shows "mset (pop_all n h) = mset (h :: 's::linordered_idom Hit list)"
  using assms
proof (induction n arbitrary: h)
  case (Suc n)
  then have ne: "h \<noteq> []" by auto
  note pop = hit_heap.heap_Pop[OF Suc.prems(1) ne]
  have "length (snd (heap_Pop heap_less h)) = n" using pop(2) Suc.prems(2) by (metis diff_Suc_1 size_add_mset size_mset)
  with Suc.IH[OF pop(3)] pop(1,2) show ?case by (simp add: case_prod_unfold)
qed simp

end
