(* ===== verification/WandState.thy ===== *)
theory WandState
  imports TopK
begin

text \<open>
  The per-term state of \<open>WAND\<close> against the posting list it walks: what \<open>advance\<close> and the shallow
  pointer do to the postings still ahead.
\<close>

text \<open>A query term: its postings, its scorer and its declared maximum frequency.\<close>

type_synonym 's qterm = "Posting list \<times> 's Scorer \<times> u32"

definition scorer_ok :: "'s::linordered_idom Scorer \<Rightarrow> bool" where
  "scorer_ok sc \<longleftrightarrow> (\<forall>f. 0 \<le> Score sc f) \<and> (\<forall>f m. f \<le> m \<longrightarrow> Score sc f \<le> MaxScore sc m)"

fun qterm_ok :: "'s::linordered_idom qterm \<Rightarrow> bool" where
  "qterm_ok (ps, sc, mf) \<longleftrightarrow> doc_sorted ps \<and> scorer_ok sc \<and> 0 < MaxScore sc mf \<and>
     (\<forall>p \<in> set ps. Frequency p \<le> mf \<and> Doc p < 0xFFFFFFFF)"

fun contrib :: "'s::linordered_idom qterm \<Rightarrow> DocID \<Rightarrow> 's" where
  "contrib (ps, sc, mf) d =
     (case map_of (map (\<lambda>p. (Doc p, Frequency p)) ps) d of Some f \<Rightarrow> Score sc f | None \<Rightarrow> 0)"

definition shallow_ok :: "Posting list list \<Rightarrow> Cursor \<Rightarrow> Posting list \<Rightarrow> bool" where
  "shallow_ok pss c rem \<longleftrightarrow> (rem \<noteq> [] \<longrightarrow> shallowIdx c < length pss \<and>
     (\<forall>i < shallowIdx c. \<forall>p \<in> set rem. Doc (last (pss ! i)) < Doc p))"

fun state_ok :: "'s::linordered_idom qterm \<Rightarrow> 's termState \<Rightarrow> Posting list \<Rightarrow> bool" where
  "state_ok (ps, sc, mf) t rem \<longleftrightarrow>
     (\<exists>pss. concat pss = ps \<and> cursor_ok pss (ts_cur t) \<and> remaining pss (ts_cur t) = rem \<and>
        (rem \<noteq> [] \<longrightarrow> positioned pss (ts_cur t)) \<and> shallow_ok pss (ts_cur t) rem) \<and>
     (rem \<noteq> [] \<longrightarrow> ts_doc t = Doc (hd rem)) \<and>
     ts_scorer t = sc \<and> ts_maxScore t = MaxScore sc mf \<and> ts_done t = (rem = []) \<and> suffix rem ps"

lemma shallow_ok_mono: "shallow_ok pss c rem \<Longrightarrow> set rem' \<subseteq> set rem \<Longrightarrow> shallow_ok pss c rem'"
  unfolding shallow_ok_def by (cases "rem = []") auto

lemma shallow_ok_idx: "shallowIdx c' = shallowIdx c \<Longrightarrow> shallow_ok pss c rem = shallow_ok pss c' rem"
  by (simp add: shallow_ok_def)

lemma advance_ok:
  assumes "state_ok (ps, sc, mf) t rem" "doc_sorted ps"
  shows "\<exists>t'. advance target t = Some t' \<and> state_ok (ps, sc, mf) t' (dropWhile (below target) rem)"
proof -
  let ?r = "dropWhile (below target) rem"
  from assms(1) obtain pss where p: "concat pss = ps" "cursor_ok pss (ts_cur t)" "remaining pss (ts_cur t) = rem"
    "shallow_ok pss (ts_cur t) rem" by auto
  from NextGEQ_spec[OF p(2), of target] assms(2) p(1,3) obtain c where
    c: "NextGEQ target (ts_cur t) = Some (if ?r = [] then (0, False, c) else (Doc (hd ?r), True, c))"
      "cursor_ok pss c" "remaining pss c = ?r" "?r \<noteq> [] \<longrightarrow> positioned pss c" "shallowIdx c = shallowIdx (ts_cur t)"
    by auto
  have "shallow_ok pss c ?r"
    using shallow_ok_mono[OF p(4), of ?r] shallow_ok_idx[OF c(5)] set_dropWhileD by fastforce
  moreover have "suffix ?r ps" using assms(1) suffix_dropWhile suffix_order.trans by fastforce
  moreover have "rem = [] \<Longrightarrow> ?r = []" by simp
  ultimately show ?thesis using assms(1) p(1) c by (auto simp: advance_def)
qed

lemma state_ok_freq: "state_ok q t rem \<Longrightarrow> rem \<noteq> [] \<Longrightarrow> Cursor_Freq (ts_cur t) = Frequency (hd rem)"
  by (cases q) (auto dest: positioned_hd)

lemma state_ok_done: "state_ok q t rem \<Longrightarrow> ts_done t \<longleftrightarrow> rem = []"
  by (cases q) simp

lemma state_ok_doc: "state_ok q t rem \<Longrightarrow> rem \<noteq> [] \<Longrightarrow> ts_doc t = Doc (hd rem)"
  by (cases q) simp

text \<open>All documents still ahead are at or after the current one.\<close>

lemma doc_sorted_suffix: "suffix rem ps \<Longrightarrow> doc_sorted ps \<Longrightarrow> doc_sorted rem"
  by (auto simp: suffix_def sorted_wrt_append)

lemma doc_sorted_hd: "doc_sorted rem \<Longrightarrow> p \<in> set rem \<Longrightarrow> Doc (hd rem) \<le> Doc p"
  by (cases rem) (auto simp: less_imp_le)

subsection \<open>The shallow block\<close>

lemma maxFreq_bound: "p \<in> set ch \<Longrightarrow> Frequency p \<le> foldl (\<lambda>m p. if Frequency p > m then Frequency p else m) m0 ch"
proof -
  have mono: "m \<le> foldl (\<lambda>m p. if Frequency p > m then Frequency p else m) m ch" for m ch
    by (induction ch arbitrary: m) (auto simp: not_less intro: order.trans[OF less_imp_le])
  show "p \<in> set ch \<Longrightarrow> ?thesis"
  proof (induction ch arbitrary: m0)
    case (Cons q ch)
    show ?case
    proof (cases "p = q")
      case True
      have "Frequency q \<le> (if Frequency q > m0 then Frequency q else m0)" by (simp add: not_less)
      also have "\<dots> \<le> foldl (\<lambda>m p. if Frequency p > m then Frequency p else m) (if Frequency q > m0 then Frequency q else m0) ch"
        by (rule mono)
      finally show ?thesis using True by simp
    qed (use Cons in simp)
  qed simp
qed

lemma blocks_ascending:
  assumes "doc_sorted (concat pss)" "i < j" "j < length pss" "p \<in> set (pss ! i)" "p' \<in> set (pss ! j)"
  shows "Doc p < Doc p'"
proof -
  let ?A = "concat (take j pss)" and ?B = "concat (drop j pss)"
  have "concat pss = ?A @ ?B" by (metis append_take_drop_id concat_append)
  with assms(1) have "doc_sorted (?A @ ?B)" by simp
  then have all: "\<forall>x \<in> set ?A. \<forall>y \<in> set ?B. Doc x < Doc y" by (simp add: sorted_wrt_append)
  have "pss ! i = take j pss ! i" "i < length (take j pss)" using assms(2,3) by simp_all
  then have "p \<in> set ?A" using assms(4) nth_mem[of i "take j pss"] by (auto simp del: length_take)
  moreover have "p' \<in> set ?B"
    using assms(3,5) by (metis Cons_nth_drop_Suc UnI1 concat.simps(2) set_append)
  ultimately show ?thesis using all by blast
qed

lemma block_last_max:
  assumes "doc_sorted (concat pss)" "i < length pss" "p \<in> set (pss ! i)"
  shows "Doc p \<le> Doc (last (pss ! i))"
proof (rule ccontr)
  assume "\<not> Doc p \<le> Doc (last (pss ! i))"
  then have "Doc (last (pss ! i)) < Doc p" by simp
  moreover have "pss ! i \<noteq> []" using assms(3) by auto
  ultimately show False using block_all_below[OF assms(1,2) _ _ assms(3)] by blast
qed

lemma AdvanceShallow_idem: "AdvanceShallow t (AdvanceShallow t c) = AdvanceShallow t c"
proof (induction t c rule: AdvanceShallow.induct)
  case (1 t c)
  show ?case
  proof (cases "int (shallowIdx c) < int (length (l_blocks (cu_l c))) - 1 \<and> lastDoc (l_blocks (cu_l c) ! shallowIdx c) < t")
    case True
    then have "AdvanceShallow t c = AdvanceShallow t (c\<lparr>shallowIdx := shallowIdx c + 1\<rparr>)"
      by (subst AdvanceShallow.simps) (simp only: simp_thms if_True)
    with 1[OF True] show ?thesis by simp
  next
    case False
    then have "AdvanceShallow t c = c" by (subst AdvanceShallow.simps) (simp only: if_False)
    then show ?thesis by simp
  qed
qed

lemma shallow_cursor:
  assumes "cursor_ok pss c" "doc_sorted (concat pss)" "positioned pss c" "remaining pss c = rem" "shallow_ok pss c rem"
    and "suffix rem (concat pss)"
  defines "c' \<equiv> AdvanceShallow (Doc (hd rem)) c"
  shows "cursor_ok pss c' \<and> positioned pss c' \<and> remaining pss c' = rem \<and> shallow_ok pss c' rem"
    and "\<exists>f l. BlockMaxFreq c' = Some f \<and> BlockLastDoc c' = Some l \<and> Doc (hd rem) \<le> l \<and>
      l \<in> Doc ` set (concat pss) \<and> (\<forall>p \<in> set rem. Doc p \<le> l \<longrightarrow> Frequency p \<le> f)"
proof -
  let ?pd = "Doc (hd rem)" and ?k = "shallowIdx c'"
  have ne: "rem \<noteq> []" using positioned_hd[OF assms(3)] assms(4) by auto
  have lok: "list_ok (cu_l c) pss" using assms(1) by (simp add: cursor_ok_def)
  note len = length_list_ok[OF lok]
  have fr: "c' = c\<lparr>shallowIdx := ?k\<rparr>" unfolding c'_def by (rule AdvanceShallow_frame)
  have lst: "lastDoc (l_blocks (cu_l c) ! i) = Doc (last (pss ! i))" "maxFreq (l_blocks (cu_l c) ! i) =
      foldl (\<lambda>m p. if Frequency p > m then Frequency p else m) 0 (pss ! i)" if "i < length pss" for i
    using list_okD(2)[OF lok that] by (simp_all add: block_ok_def)
  have sh: "shallowIdx c < length pss" "\<forall>i < shallowIdx c. \<forall>p \<in> set rem. Doc (last (pss ! i)) < Doc p"
    using assms(5) ne by (simp_all add: shallow_ok_def)
  have k: "?k < length pss" "\<forall>i. shallowIdx c \<le> i \<and> i < ?k \<longrightarrow> lastDoc (l_blocks (cu_l c) ! i) < ?pd"
    "?k < length pss - 1 \<longrightarrow> ?pd \<le> lastDoc (l_blocks (cu_l c) ! ?k)"
    using AdvanceShallow_spec[of c ?pd] sh(1) len unfolding c'_def Let_def by auto
  have srt: "doc_sorted rem" using doc_sorted_suffix[OF assms(6,2)] .
  have past: "Doc (last (pss ! i)) < Doc p" if "i < ?k" "p \<in> set rem" for i p
  proof (cases "i < shallowIdx c")
    case False
    then have "lastDoc (l_blocks (cu_l c) ! i) < ?pd" using k(2) that(1) by simp
    then have "Doc (last (pss ! i)) < ?pd" using k(1) that(1) lst(1)[of i] by simp
    also have "?pd \<le> Doc p" using doc_sorted_hd[OF srt that(2)] .
    finally show ?thesis .
  qed (use sh(2) that in blast)
  have inb: "\<exists>i < length pss. p \<in> set (pss ! i) \<and> ?k \<le> i" if "p \<in> set rem" for p
  proof -
    have "p \<in> set (concat pss)" using that set_mono_suffix[OF assms(6)] by blast
    then obtain i where i: "i < length pss" "p \<in> set (pss ! i)" by (auto simp: in_set_conv_nth[of _ pss])
    moreover have "?k \<le> i" using past[of i p] that block_last_max[OF assms(2) i] by (meson leD le_less_linear)
    ultimately show ?thesis by blast
  qed
  have rd: "positioned pss c'" "remaining pss c' = rem" "cursor_ok pss c'"
    using assms(1,3,4) by (subst fr, simp add: positioned_def remaining_def cursor_ok_def)+
  moreover have "shallow_ok pss c' rem" using past k(1) by (auto simp: shallow_ok_def)
  ultimately show "cursor_ok pss c' \<and> positioned pss c' \<and> remaining pss c' = rem \<and> shallow_ok pss c' rem" by simp
  let ?f = "maxFreq (l_blocks (cu_l c) ! ?k)" and ?l = "lastDoc (l_blocks (cu_l c) ! ?k)"
  have cu: "cu_l c' = cu_l c" by (subst fr) simp
  have "BlockMaxFreq c' = Some ?f" "BlockLastDoc c' = Some ?l"
    using k(1) len cu by (simp_all add: BlockMaxFreq_def BlockLastDoc_def)
  moreover have "?pd \<le> ?l"
  proof (cases "?k < length pss - 1")
    case False
    obtain i where i: "i < length pss" "hd rem \<in> set (pss ! i)" "?k \<le> i" using inb[of "hd rem"] ne by auto
    with False k(1) have "i = ?k" by linarith
    then show ?thesis using block_last_max[OF assms(2) i(1,2)] lst(1)[OF k(1)] by simp
  qed (use k(3) in simp)
  moreover have "Frequency p \<le> ?f" if pr: "p \<in> set rem" "Doc p \<le> ?l" for p
  proof -
    obtain i where i: "i < length pss" "p \<in> set (pss ! i)" "?k \<le> i" using inb[OF pr(1)] by auto
    have "i = ?k"
    proof (rule ccontr)
      assume "i \<noteq> ?k"
      then have "?k < i" using i(3) by simp
      moreover have "last (pss ! ?k) \<in> set (pss ! ?k)"
        using list_okD(2)[OF lok k(1)] by (simp add: block_ok_def)
      ultimately have "Doc (last (pss ! ?k)) < Doc p" using blocks_ascending[OF assms(2) _ i(1) _ i(2)] by blast
      with pr(2) lst(1)[OF k(1)] show False by simp
    qed
    with i(2) show ?thesis using lst(2)[OF k(1)] maxFreq_bound by simp
  qed
  moreover have "?l \<in> Doc ` set (concat pss)"
  proof -
    have "last (pss ! ?k) \<in> set (pss ! ?k)" using list_okD(2)[OF lok k(1)] by (simp add: block_ok_def)
    then have "last (pss ! ?k) \<in> set (concat pss)" using k(1) nth_mem by fastforce
    then show ?thesis using lst(1)[OF k(1)] by blast
  qed
  ultimately show "\<exists>f l. BlockMaxFreq c' = Some f \<and> BlockLastDoc c' = Some l \<and> ?pd \<le> l \<and>
      l \<in> Doc ` set (concat pss) \<and> (\<forall>p \<in> set rem. Doc p \<le> l \<longrightarrow> Frequency p \<le> f)" by blast
qed

text \<open>The same for a state; a second \<open>AdvanceShallow\<close> to the same document changes nothing.\<close>

definition shallowed :: "DocID \<Rightarrow> 's termState \<Rightarrow> Posting list \<Rightarrow> DocID \<Rightarrow> u32 \<Rightarrow> bool" where
  "shallowed pd t rem l f \<longleftrightarrow> AdvanceShallow pd (ts_cur t) = ts_cur t \<and> BlockMaxFreq (ts_cur t) = Some f \<and>
     BlockLastDoc (ts_cur t) = Some l \<and> pd \<le> l \<and> l < 0xFFFFFFFF \<and> (\<forall>p \<in> set rem. Doc p \<le> l \<longrightarrow> Frequency p \<le> f)"

lemma shallow_state:
  assumes "state_ok (ps, sc, mf) t rem" "qterm_ok (ps, sc, mf)" "rem \<noteq> []"
  defines "t' \<equiv> t\<lparr>ts_cur := AdvanceShallow (ts_doc t) (ts_cur t)\<rparr>"
  shows "state_ok (ps, sc, mf) t' rem" "\<exists>l f. shallowed (ts_doc t) t' rem l f"
proof -
  obtain pss where p: "concat pss = ps" "cursor_ok pss (ts_cur t)" "remaining pss (ts_cur t) = rem"
    "positioned pss (ts_cur t)" "shallow_ok pss (ts_cur t) rem" using assms(1,3) by auto
  have d: "ts_doc t = Doc (hd rem)" "suffix rem (concat pss)" using assms(1,3) p(1) by auto
  note sc = shallow_cursor[OF p(2) _ p(4,3,5) d(2)]
  show "state_ok (ps, sc, mf) t' rem" using assms(1-3) sc(1) p(1) d(1) by (auto simp: t'_def)
  show "\<exists>l f. shallowed (ts_doc t) t' rem l f"
    using sc(2) assms(2) p(1) d(1) by (fastforce simp: t'_def shallowed_def AdvanceShallow_idem)
qed

end
