(* ===== verification/Search_Correct.thy ===== *)
theory Search_Correct
  imports WandState
begin

text \<open>
  \<open>WAND\<close> returns the top k of the exhaustive scan. The loop keeps a frontier \<open>b\<close>: documents below it
  are settled (the heap holds the best k of them), every document from it on is still ahead in every
  list that holds it, and the terms behind it cannot beat the threshold together.
\<close>

definition query_docs :: "'s qterm list \<Rightarrow> DocID set" where
  "query_docs Q = (\<Union>q \<in> set Q. Doc ` set (fst q))"

definition doc_score :: "'s::linordered_idom qterm list \<Rightarrow> DocID \<Rightarrow> 's" where
  "doc_score Q d = sum_list (map (\<lambda>q. contrib q d) Q)"

definition hit_of :: "'s::linordered_idom qterm list \<Rightarrow> DocID \<Rightarrow> 's Hit" where
  "hit_of Q d = \<lparr>hit_Doc = d, hit_Score = doc_score Q d\<rparr>"

definition states_ok :: "'s::linordered_idom qterm list \<Rightarrow> 's states \<Rightarrow> Posting list list \<Rightarrow> bool" where
  "states_ok Q states R \<longleftrightarrow> length states = length Q \<and> length R = length Q \<and>
     (\<forall>j < length Q. state_ok (Q ! j) (states ! j) (R ! j))"

subsection \<open>Scores\<close>

lemma contrib_absent: "d \<notin> Doc ` set (fst q) \<Longrightarrow> contrib q d = 0"
proof (cases q)
  case (fields ps sc mf)
  assume "d \<notin> Doc ` set (fst q)"
  then have "map_of (map (\<lambda>p. (Doc p, Frequency p)) ps) d = None" by (auto simp: fields map_of_eq_None_iff)
  then show ?thesis by (simp add: fields)
qed

lemma contrib_present:
  assumes "qterm_ok (ps, sc, mf)" "p \<in> set ps"
  shows "contrib (ps, sc, mf) (Doc p) = Score sc (Frequency p)"
proof -
  have "distinct (map Doc ps)" using assms(1) by (auto intro: distinct_map_ascending)
  then have "map_of (map (\<lambda>p. (Doc p, Frequency p)) ps) (Doc p) = Some (Frequency p)"
    using assms(2) by (auto simp: o_def)
  then show ?thesis by simp
qed

lemma contrib_nonneg: "qterm_ok q \<Longrightarrow> 0 \<le> contrib q d"
  by (cases q) (auto simp: scorer_ok_def split: option.splits)

lemma doc_score_nonneg: "\<forall>q \<in> set Q. qterm_ok q \<Longrightarrow> 0 \<le> doc_score Q d"
  unfolding doc_score_def by (intro sum_list_nonneg) (auto intro: contrib_nonneg)

text \<open>A bound on the score from bounds on the terms of a duplicate-free index list that covers the document.\<close>

lemma doc_score_list:
  assumes "distinct J" "\<forall>j \<in> set J. j < length Q"
    and "\<And>j. j < length Q \<Longrightarrow> j \<notin> set J \<Longrightarrow> d \<notin> Doc ` set (fst (Q ! j))"
  shows "doc_score Q d = sum_list (map (\<lambda>j. contrib (Q ! j) d) J)"
proof -
  have "doc_score Q d = (\<Sum>j < length Q. contrib (Q ! j) d)"
    by (simp add: doc_score_def sum_list_sum_nth atLeast0LessThan)
  also have "\<dots> = (\<Sum>j \<in> set J. contrib (Q ! j) d)"
    using assms(2,3) by (intro sum.mono_neutral_right) (auto intro!: contrib_absent)
  also have "\<dots> = sum_list (map (\<lambda>j. contrib (Q ! j) d) J)"
    using assms(1) by (simp add: sum_list_distinct_conv_sum_set)
  finally show ?thesis .
qed

lemma doc_score_bound:
  assumes "distinct J" "\<forall>j \<in> set J. j < length Q"
    and "\<And>j. j < length Q \<Longrightarrow> j \<notin> set J \<Longrightarrow> d \<notin> Doc ` set (fst (Q ! j))"
    and "\<And>j. j \<in> set J \<Longrightarrow> contrib (Q ! j) d \<le> M j"
  shows "doc_score Q d \<le> sum_list (map M J)"
proof -
  have "doc_score Q d = sum_list (map (\<lambda>j. contrib (Q ! j) d) J)" using assms(1-3) by (rule doc_score_list)
  also have "\<dots> \<le> sum_list (map M J)" using assms(4) by (intro sum_list_mono) auto
  finally show ?thesis .
qed

subsection \<open>Loops over the live terms\<close>

lemma liveSorted_spec:
  "distinct (liveSorted states)" "set (liveSorted states) = {x. x < length states \<and> \<not> ts_done (states ! x)}"
  "sorted (map (\<lambda>x. ts_doc (states ! x)) (liveSorted states))"
  by (auto simp: liveSorted_def)

lemma states_ok_update:
  assumes "states_ok Q states R" "x < length Q" "state_ok (Q ! x) t r"
  shows "states_ok Q (states[x := t]) (R[x := r])"
proof -
  have "state_ok (Q ! j) (states[x := t] ! j) (R[x := r] ! j)" if "j < length Q" for j
    using assms that by (cases "j = x") (simp_all add: states_ok_def)
  then show ?thesis using assms(1) by (simp add: states_ok_def)
qed

lemma advance_where_ok:
  assumes "states_ok Q states R" "\<forall>q \<in> set Q. qterm_ok q" "distinct L" "\<forall>x \<in> set L. x < length Q"
  shows "\<exists>states'. advance_where P target L states = Some states' \<and>
    states_ok Q states' (map (\<lambda>x. if x \<in> set L \<and> P (states ! x) then dropWhile (below target) (R ! x) else R ! x) [0..<length Q])"
  using assms(1,3,4)
proof (induction L arbitrary: states R)
  case Nil
  then have "length R = length Q" by (simp add: states_ok_def)
  then have "map (\<lambda>x. R ! x) [0..<length Q] = R" by (metis map_nth)
  with Nil show ?case by simp
next
  case (Cons x L)
  have x: "x < length Q" "x \<notin> set L" "x < length states" "x < length R" using Cons.prems by (auto simp: states_ok_def)
  show ?case
  proof (cases "P (states ! x)")
    case True
    obtain ps sc mf where q: "Q ! x = (ps, sc, mf)" by (cases "Q ! x")
    have srt: "doc_sorted ps" using assms(2) x(1) q by (metis nth_mem qterm_ok.simps)
    have st: "state_ok (ps, sc, mf) (states ! x) (R ! x)" using Cons.prems(1) x q by (metis states_ok_def)
    obtain t where t: "advance target (states ! x) = Some t" "state_ok (Q ! x) t (dropWhile (below target) (R ! x))"
      using advance_ok[OF st srt, of target] q by auto
    let ?R = "R[x := dropWhile (below target) (R ! x)]"
    have "states_ok Q (states[x := t]) ?R" by (rule states_ok_update[OF Cons.prems(1) x(1) t(2)])
    from Cons.IH[OF this] Cons.prems obtain states' where
      s: "advance_where P target L (states[x := t]) = Some states'"
        "states_ok Q states' (map (\<lambda>y. if y \<in> set L \<and> P (states[x := t] ! y) then dropWhile (below target) (?R ! y) else ?R ! y) [0..<length Q])"
      by auto
    have "map (\<lambda>y. if y \<in> set L \<and> P (states[x := t] ! y) then dropWhile (below target) (?R ! y) else ?R ! y) [0..<length Q]
       = map (\<lambda>y. if y \<in> set (x # L) \<and> P (states ! y) then dropWhile (below target) (R ! y) else R ! y) [0..<length Q]"
      using x True by (intro map_cong) (auto simp: nth_list_update)
    with s True t(1) show ?thesis by simp
  next
    case False
    have "map (\<lambda>y. if y \<in> set (x # L) \<and> P (states ! y) then dropWhile (below target) (R ! y) else R ! y) [0..<length Q]
       = map (\<lambda>y. if y \<in> set L \<and> P (states ! y) then dropWhile (below target) (R ! y) else R ! y) [0..<length Q]"
      using False by (intro map_cong) auto
    moreover have "advance_where P target (x # L) states = advance_where P target L states" using False by simp
    ultimately show ?thesis using Cons.IH[OF Cons.prems(1)] Cons.prems(2,3) by (simp del: map_eq_conv)
  qed
qed

text \<open>\<open>blockMaxSum\<close> moves only the shallow pointers of the terms on the pivot document.\<close>

lemma blockMaxSum_ok:
  assumes "states_ok Q states R" "\<forall>q \<in> set Q. qterm_ok q" "distinct A"
    and "\<forall>x \<in> set A. x < length Q \<and> R ! x \<noteq> [] \<and> ts_doc (states ! x) = pd"
    and "B \<noteq> [] \<longrightarrow> hd B \<notin> set A \<and> pd < ts_doc (states ! hd B)"
  shows "\<exists>states' l f. blockMaxSum pd (A @ B) acc states =
      Some (acc + sum_list (map (\<lambda>x. MaxScore (ts_scorer (states ! x)) (f x)) A), states') \<and>
    states_ok Q states' R \<and> (\<forall>x. x \<notin> set A \<longrightarrow> states' ! x = states ! x) \<and>
    (\<forall>x < length Q. ts_doc (states' ! x) = ts_doc (states ! x)) \<and>
    (\<forall>x \<in> set A. shallowed pd (states' ! x) (R ! x) (l x) (f x))"
  using assms(1,3,4,5)
proof (induction A arbitrary: states acc)
  case Nil
  then show ?case by (cases B) auto
next
  case (Cons x A)
  have x: "x < length Q" "x \<notin> set A" "R ! x \<noteq> []" "ts_doc (states ! x) = pd" "x < length states"
    using Cons.prems by (auto simp: states_ok_def)
  obtain ps sc mf where q: "Q ! x = (ps, sc, mf)" by (cases "Q ! x")
  have srt: "qterm_ok (ps, sc, mf)" using assms(2) x(1) q by (metis nth_mem)
  have st: "state_ok (ps, sc, mf) (states ! x) (R ! x)" using Cons.prems(1) x q by (metis states_ok_def)
  let ?t = "(states ! x)\<lparr>ts_cur := AdvanceShallow pd (ts_cur (states ! x))\<rparr>"
  note sh = shallow_state[OF st srt x(3), unfolded x(4)]
  obtain l0 f0 where lf: "shallowed pd ?t (R ! x) l0 f0" using sh(2) by blast
  let ?s = "shallow pd x states"
  have s: "?s ! x = ?t" "\<And>y. y \<noteq> x \<Longrightarrow> ?s ! y = states ! y" "ts_doc (?s ! y) = ts_doc (states ! y)" for y
    using x(5) by (auto simp: shallow_def nth_list_update)
  have "states_ok Q ?s R"
    using Cons.prems(1) sh(1) q s x by (auto simp: states_ok_def shallow_def nth_list_update)
  from Cons.IH[OF this, of "acc + MaxScore (ts_scorer ?t) f0"] Cons.prems s obtain states' l f where
    IH: "blockMaxSum pd (A @ B) (acc + MaxScore (ts_scorer ?t) f0) ?s =
        Some (acc + MaxScore (ts_scorer ?t) f0 + sum_list (map (\<lambda>y. MaxScore (ts_scorer (?s ! y)) (f y)) A), states')"
      "states_ok Q states' R" "\<forall>y. y \<notin> set A \<longrightarrow> states' ! y = ?s ! y"
      "\<forall>y < length Q. ts_doc (states' ! y) = ts_doc (?s ! y)"
      "\<forall>y \<in> set A. shallowed pd (states' ! y) (R ! y) (l y) (f y)" by auto
  let ?f = "f(x := f0)" and ?l = "l(x := l0)"
  have "map (\<lambda>y. MaxScore (ts_scorer (?s ! y)) (f y)) A = map (\<lambda>y. MaxScore (ts_scorer (states ! y)) (?f y)) A"
    using x(2) s by (intro map_cong) auto
  then have "sum_list (map (\<lambda>y. MaxScore (ts_scorer (states ! y)) (?f y)) (x # A)) =
      MaxScore (ts_scorer ?t) f0 + sum_list (map (\<lambda>y. MaxScore (ts_scorer (?s ! y)) (f y)) A)" by (simp only: list.map sum_list.Cons) simp
  moreover have "blockMaxSum pd ((x # A) @ B) acc states = blockMaxSum pd (A @ B) (acc + MaxScore (ts_scorer ?t) f0) ?s"
    using lf s(1) x(4) by (simp add: shallowed_def Let_def)
  ultimately have "blockMaxSum pd ((x # A) @ B) acc states =
      Some (acc + sum_list (map (\<lambda>y. MaxScore (ts_scorer (states ! y)) (?f y)) (x # A)), states')"
    using IH(1) by (simp only: add.assoc)
  moreover have "\<forall>y \<in> set (x # A). shallowed pd (states' ! y) (R ! y) (?l y) (?f y)"
    using IH(3,5) x(2) s(1) lf by auto
  ultimately show ?case using IH(2,3,4) s by (intro exI[of _ states'] exI[of _ ?l] exI[of _ ?f]) auto
qed

lemma skip_bounds_ok:
  assumes "\<forall>x \<in> set A. ts_doc (states ! x) = pd \<and> shallowed pd (states ! x) (R ! x) (l x) (f x)"
    and "B \<noteq> [] \<longrightarrow> pd < ts_doc (states ! hd B)" "\<forall>x \<in> set A. x < length states" "A \<noteq> [] \<or> ml \<noteq> None"
  shows "\<exists>m. skip_bounds pd (A @ B) ml states =
      Some (Some m, (case B of [] \<Rightarrow> None | x # _ \<Rightarrow> Some (ts_doc (states ! x))), states) \<and>
    m \<in> set_option ml \<union> l ` set A \<and> (\<forall>v \<in> set_option ml \<union> l ` set A. m \<le> v)"
  using assms
proof (induction A arbitrary: ml)
  case Nil
  then show ?case by (cases B) auto
next
  case (Cons x A)
  have sh: "shallow pd x states = states" "BlockLastDoc (ts_cur (states ! x)) = Some (l x)" "ts_doc (states ! x) = pd"
    using Cons.prems by (simp_all add: shallowed_def shallow_def)
  let ?ml = "case ml of None \<Rightarrow> Some (l x) | Some m \<Rightarrow> if l x < m then Some (l x) else Some m"
  have step: "skip_bounds pd ((x # A) @ B) ml states = skip_bounds pd (A @ B) ?ml states"
    using sh by simp
  have "?ml \<noteq> None" by (auto split: option.splits)
  with Cons.IH[of ?ml] Cons.prems obtain m where
    m: "skip_bounds pd (A @ B) ?ml states = Some (Some m, (case B of [] \<Rightarrow> None | x # _ \<Rightarrow> Some (ts_doc (states ! x))), states)"
      "m \<in> set_option ?ml \<union> l ` set A" "\<forall>v \<in> set_option ?ml \<union> l ` set A. m \<le> v" by auto
  have "m \<in> set_option ml \<union> l ` set (x # A)" "\<forall>v \<in> set_option ml \<union> l ` set (x # A). m \<le> v"
    using m(2,3) by (cases ml; fastforce split: if_splits)+
  with m(1) step show ?case by auto
qed

lemma findPivot_loop_spec:
  "(findPivot_loop states thr sm i L = -1 \<and> (\<forall>n. 0 < n \<and> n \<le> length L \<longrightarrow> sm + sum_list (map (\<lambda>x. ts_maxScore (states ! x)) (take n L)) \<le> thr)) \<or>
   (\<exists>n < length L. findPivot_loop states thr sm i L = i + int n \<and>
      (\<forall>m. 0 < m \<and> m \<le> n \<longrightarrow> sm + sum_list (map (\<lambda>x. ts_maxScore (states ! x)) (take m L)) \<le> thr) \<and>
      thr < sm + sum_list (map (\<lambda>x. ts_maxScore (states ! x)) (take (Suc n) L)))"
proof (induction L arbitrary: sm i)
  case (Cons x L)
  let ?sm = "sm + ts_maxScore (states ! x)"
  let ?S = "\<lambda>n L. sum_list (map (\<lambda>x. ts_maxScore (states ! x)) (take n L))"
  have S: "sm + ?S (Suc n) (x # L) = ?sm + ?S n L" for n by (simp add: add.assoc)
  show ?case
  proof (cases "?sm > thr")
    case True
    then show ?thesis by (intro disjI2 exI[of _ 0]) simp
  next
    case False
    then have step: "findPivot_loop states thr sm i (x # L) = findPivot_loop states thr ?sm (i + 1) L" by simp
    have lift: "sm + ?S m (x # L) \<le> thr" if "0 < m" "m \<le> Suc n" "\<forall>m. 0 < m \<and> m \<le> n \<longrightarrow> ?sm + ?S m L \<le> thr" for m n
    proof (cases m)
      case (Suc m')
      show ?thesis
      proof (cases "m' = 0")
        case False
        with Suc that have "?sm + ?S m' L \<le> thr" by simp
        then show ?thesis using S[of m'] Suc by simp
      qed (use Suc \<open>\<not> ?sm > thr\<close> in simp)
    qed (use that in simp)
    from Cons.IH[of ?sm "i + 1"] show ?thesis
    proof
      assume "findPivot_loop states thr ?sm (i + 1) L = -1 \<and> (\<forall>n. 0 < n \<and> n \<le> length L \<longrightarrow> ?sm + ?S n L \<le> thr)"
      then show ?thesis unfolding step using lift[of _ "length L"] by (intro disjI1) auto
    next
      assume "\<exists>n < length L. findPivot_loop states thr ?sm (i + 1) L = i + 1 + int n \<and>
        (\<forall>m. 0 < m \<and> m \<le> n \<longrightarrow> ?sm + ?S m L \<le> thr) \<and> thr < ?sm + ?S (Suc n) L"
      then obtain n where "n < length L" "findPivot_loop states thr ?sm (i + 1) L = i + 1 + int n"
        "\<forall>m. 0 < m \<and> m \<le> n \<longrightarrow> ?sm + ?S m L \<le> thr" "thr < ?sm + ?S (Suc n) L" by blast
      then show ?thesis unfolding step using lift[of _ n] S[of "Suc n"]
        by (intro disjI2 exI[of _ "Suc n"]) auto
    qed
  qed
qed simp

lemma pickAdvance_loop_spec:
  assumes "\<forall>x \<in> set L. bestScore < ts_maxScore (states ! x) \<or> best \<noteq> None"
    and "best = None \<longrightarrow> (\<exists>x \<in> set L. ts_doc (states ! x) < pd)"
    and "\<forall>x. best = Some x \<longrightarrow> x \<in> S \<and> ts_doc (states ! x) < pd" "set L \<subseteq> S"
  shows "\<exists>x. pickAdvance_loop states pd L best bestScore = Some x \<and> x \<in> S \<and> ts_doc (states ! x) < pd"
  using assms
proof (induction L arbitrary: best bestScore)
  case (Cons y L)
  show ?case
  proof (cases "ts_doc (states ! y) < pd \<and> ts_maxScore (states ! y) > bestScore")
    case True
    with Cons.prems Cons.IH[of "ts_maxScore (states ! y)" "Some y"] show ?thesis by simp
  next
    case False
    then have "best = None \<Longrightarrow> \<not> ts_doc (states ! y) < pd" using Cons.prems(1) by auto
    with False Cons.prems Cons.IH[of bestScore best] show ?thesis by auto
  qed
qed auto

subsection \<open>The loop invariant\<close>

definition ahead :: "'s qterm list \<Rightarrow> nat \<Rightarrow> Posting list list \<Rightarrow> bool" where
  "ahead Q b R \<longleftrightarrow> (\<forall>j < length Q. \<forall>p \<in> set (fst (Q ! j)). b \<le> unat (Doc p) \<longrightarrow> p \<in> set (R ! j))"

definition behind :: "'s qterm list \<Rightarrow> nat \<Rightarrow> Posting list list \<Rightarrow> nat set" where
  "behind Q b R = {x. x < length Q \<and> R ! x \<noteq> [] \<and> unat (Doc (hd (R ! x))) < b}"

definition wand_inv ::
  "'s::linordered_idom qterm list \<Rightarrow> nat \<Rightarrow> nat \<Rightarrow> 's states \<Rightarrow> Posting list list \<Rightarrow> 's Hit list \<Rightarrow> 's \<Rightarrow> bool" where
  "wand_inv Q k b states R hp thr \<longleftrightarrow> states_ok Q states R \<and> ahead Q b R \<and>
     top_ok k (hit_of Q ` {d \<in> query_docs Q. unat d < b}) hp \<and> thr = threshold_of k hp \<and>
     (\<Sum>x \<in> behind Q b R. ts_maxScore (states ! x)) \<le> thr"

lemma query_docs_finite [simp]: "finite (query_docs Q)"
  by (simp add: query_docs_def)

lemma settle:
  assumes "top_ok k (hit_of Q ` {d \<in> query_docs Q. unat d < b}) hp" "0 < threshold_of k hp" "0 < k" "b \<le> T"
    and "\<And>d. d \<in> query_docs Q \<Longrightarrow> b \<le> unat d \<Longrightarrow> unat d < T \<Longrightarrow> doc_score Q d \<le> threshold_of k hp"
  shows "top_ok k (hit_of Q ` {d \<in> query_docs Q. unat d < T}) hp"
proof -
  let ?H = "hit_of Q ` {d \<in> query_docs Q. unat d < b}" and ?X = "hit_of Q ` {d \<in> query_docs Q. b \<le> unat d \<and> unat d < T}"
  have full: "length hp = k" using assms(2) by (auto simp: threshold_of_def split: if_splits)
  have tk: "is_topk k ?H (set hp)" "distinct hp" using assms(1) by (simp_all add: top_ok_def)
  have "rank t < rank x" if "x \<in> ?X" "t \<in> set hp" for x t
  proof (rule below_threshold_loses[OF assms(1) full assms(3) that(2)])
    show "hit_Score x \<le> threshold_of k hp" using that(1) assms(5) by (auto simp: hit_of_def)
    have "t \<in> ?H" using tk(1) that(2) by (auto simp: is_topk_def)
    then show "hit_Doc t < hit_Doc x" using that(1) by (auto simp: hit_of_def word_less_nat_alt)
  qed
  then have "is_topk k (?H \<union> ?X) (set hp)" using is_topk_lose[OF tk(1)] full tk(2) by (simp add: distinct_card)
  moreover have "{d \<in> query_docs Q. unat d < T} =
      {d \<in> query_docs Q. unat d < b} \<union> {d \<in> query_docs Q. b \<le> unat d \<and> unat d < T}" using assms(4) by auto
  then have "?H \<union> ?X = hit_of Q ` {d \<in> query_docs Q. unat d < T}" by (simp only: image_Un)
  ultimately show ?thesis using assms(1) by (simp add: top_ok_def)
qed

lemma contrib_le_max: "qterm_ok (ps, sc, mf) \<Longrightarrow> contrib (ps, sc, mf) d \<le> MaxScore sc mf"
  by (auto simp: scorer_ok_def less_imp_le split: option.splits dest!: map_of_SomeD)

subsection \<open>One round of the loop\<close>

text \<open>The facts of a round, for a state list whose lists ahead are \<open>R\<close>.\<close>

lemma live_iff:
  assumes "states_ok Q states R"
  shows "x \<in> set (liveSorted states) \<longleftrightarrow> x < length Q \<and> R ! x \<noteq> []"
  using assms state_ok_done[of "Q ! x" "states ! x" "R ! x"] by (auto simp: liveSorted_spec states_ok_def)

lemma live_doc:
  assumes "states_ok Q states R" "x \<in> set (liveSorted states)"
  shows "ts_doc (states ! x) = Doc (hd (R ! x))"
  using assms live_iff[OF assms(1)] state_ok_doc[of "Q ! x" "states ! x" "R ! x"] by (auto simp: states_ok_def)

lemma state_maxScore:
  assumes "states_ok Q states R" "\<forall>q \<in> set Q. qterm_ok q" "x < length Q"
  shows "0 < ts_maxScore (states ! x)" "contrib (Q ! x) d \<le> ts_maxScore (states ! x)"
proof -
  obtain ps sc mf where q: "Q ! x = (ps, sc, mf)" by (cases "Q ! x")
  have st: "state_ok (Q ! x) (states ! x) (R ! x)" using assms(1,3) by (simp add: states_ok_def)
  then have m: "ts_maxScore (states ! x) = MaxScore sc mf" using q by simp
  have ok: "qterm_ok (ps, sc, mf)" using assms(2,3) q by (metis nth_mem)
  show "0 < ts_maxScore (states ! x)" using ok m by simp
  show "contrib (Q ! x) d \<le> ts_maxScore (states ! x)" using contrib_le_max[OF ok] q m by simp
qed

lemma state_scorer:
  assumes "states_ok Q states R" "x < length Q"
  shows "ts_scorer (states ! x) = fst (snd (Q ! x))"
proof -
  obtain ps sc mf where q: "Q ! x = (ps, sc, mf)" by (cases "Q ! x")
  have "state_ok (Q ! x) (states ! x) (R ! x)" using assms by (simp add: states_ok_def)
  then show ?thesis using q by simp
qed

text \<open>A term that holds a document from the frontier on is live and not past it.\<close>

lemma holder_live:
  assumes "states_ok Q states R" "ahead Q b R" "\<forall>q \<in> set Q. qterm_ok q" "j < length Q"
    and "d \<in> Doc ` set (fst (Q ! j))" "b \<le> unat d"
  shows "j \<in> set (liveSorted states)" "ts_doc (states ! j) \<le> d" "\<exists>p \<in> set (R ! j). Doc p = d"
proof -
  obtain p where p: "p \<in> set (fst (Q ! j))" "Doc p = d" using assms(5) by auto
  have r: "p \<in> set (R ! j)" using assms(2,4,6) p unfolding ahead_def by blast
  then have "R ! j \<noteq> []" by auto
  then show live: "j \<in> set (liveSorted states)" unfolding live_iff[OF assms(1)] using assms(4) by simp
  obtain ps sc mf where q: "Q ! j = (ps, sc, mf)" by (cases "Q ! j")
  have "state_ok (Q ! j) (states ! j) (R ! j)" using assms(1,4) by (simp add: states_ok_def)
  then have "suffix (R ! j) ps" using q by simp
  moreover have "doc_sorted ps" using assms(3,4) q by (metis nth_mem qterm_ok.simps)
  ultimately have "Doc (hd (R ! j)) \<le> d" using doc_sorted_suffix doc_sorted_hd[OF _ r] p(2) by blast
  then show "ts_doc (states ! j) \<le> d" using live_doc[OF assms(1) live] by simp
  show "\<exists>p \<in> set (R ! j). Doc p = d" using r p(2) by blast
qed

text \<open>Documents below the document of the \<open>n\<close>-th live term are held only by the first \<open>n\<close>.\<close>

lemma score_before:
  assumes "states_ok Q states R" "ahead Q b R" "\<forall>q \<in> set Q. qterm_ok q" "b \<le> unat d"
    and "n < length (liveSorted states) \<longrightarrow> d < ts_doc (states ! (liveSorted states ! n))"
  shows "doc_score Q d \<le> sum_list (map (\<lambda>x. ts_maxScore (states ! x)) (take n (liveSorted states)))"
proof (rule doc_score_bound)
  let ?L = "liveSorted states"
  show "distinct (take n ?L)" using liveSorted_spec(1) distinct_take by blast
  show "\<forall>j \<in> set (take n ?L). j < length Q" by (auto simp: live_iff[OF assms(1)] dest!: in_set_takeD)
  show "contrib (Q ! j) d \<le> ts_maxScore (states ! j)" if "j \<in> set (take n ?L)" for j
    using state_maxScore(2)[OF assms(1,3)] live_iff[OF assms(1)] in_set_takeD[OF that] by blast
  show "d \<notin> Doc ` set (fst (Q ! j))" if j: "j < length Q" "j \<notin> set (take n ?L)" for j
  proof
    assume "d \<in> Doc ` set (fst (Q ! j))"
    note h = holder_live[OF assms(1-3) j(1) this assms(4)]
    then obtain i where i: "i < length ?L" "?L ! i = j" by (auto simp: in_set_conv_nth)
    have "n \<le> i" using j(2) i by (metis in_set_conv_nth length_take min_less_iff_conj not_le nth_take)
    then have "ts_doc (states ! (?L ! n)) \<le> ts_doc (states ! j)"
      using sorted_nth_mono[OF liveSorted_spec(3), of n i states] i by simp
    then show False using h(2) assms(5) \<open>n \<le> i\<close> i(1) by auto
  qed
qed

text \<open>No document lies between the frontier and the first live term.\<close>

lemma no_doc_before_first:
  assumes "states_ok Q states R" "ahead Q b R" "\<forall>q \<in> set Q. qterm_ok q" "d \<in> query_docs Q" "b \<le> unat d"
    and "liveSorted states \<noteq> []"
  shows "ts_doc (states ! (liveSorted states ! 0)) \<le> d"
proof -
  obtain q where "q \<in> set Q" "d \<in> Doc ` set (fst q)" using assms(4) unfolding query_docs_def by blast
  then obtain j where "j < length Q" "d \<in> Doc ` set (fst (Q ! j))" by (metis in_set_conv_nth)
  note h = holder_live[OF assms(1-3) this assms(5)]
  then obtain i where "i < length (liveSorted states)" "liveSorted states ! i = j" by (auto simp: in_set_conv_nth)
  then have "ts_doc (states ! (liveSorted states ! 0)) \<le> ts_doc (states ! j)"
    using sorted_nth_mono[OF liveSorted_spec(3), of 0 i states] assms(6) by simp
  with h(2) show ?thesis by simp
qed

lemma live_first_min:
  assumes "states_ok Q states R" "x \<in> set (liveSorted states)"
  shows "ts_doc (states ! (liveSorted states ! 0)) \<le> ts_doc (states ! x)"
proof -
  obtain i where "i < length (liveSorted states)" "liveSorted states ! i = x" using assms(2) by (auto simp: in_set_conv_nth)
  moreover from this(1) have "0 < length (liveSorted states)" by linarith
  ultimately show ?thesis using sorted_nth_mono[OF liveSorted_spec(3), of 0 i states] by simp
qed

text \<open>The pivot is at or past the frontier.\<close>

lemma pivot_ge_frontier:
  assumes "wand_inv Q k b states R hp thr" "\<forall>q \<in> set Q. qterm_ok q" "n < length (liveSorted states)"
    and "thr < sum_list (map (\<lambda>x. ts_maxScore (states ! x)) (take (Suc n) (liveSorted states)))"
  shows "b \<le> unat (ts_doc (states ! (liveSorted states ! n)))"
proof (rule ccontr)
  let ?L = "liveSorted states"
  assume "\<not> ?thesis"
  then have lt: "unat (ts_doc (states ! (?L ! n))) < b" by simp
  have so: "states_ok Q states R" using assms(1) by (simp add: wand_inv_def)
  have sub: "set (take (Suc n) ?L) \<subseteq> behind Q b R"
  proof
    fix x assume x: "x \<in> set (take (Suc n) ?L)"
    then obtain i where i: "i \<le> n" "?L ! i = x" using assms(3) by (auto simp: in_set_conv_nth less_Suc_eq_le)
    have xl: "x \<in> set ?L" using in_set_takeD[OF x] .
    have "ts_doc (states ! x) \<le> ts_doc (states ! (?L ! n))"
      using sorted_nth_mono[OF liveSorted_spec(3), of i n states] i assms(3) by auto
    then show "x \<in> behind Q b R"
      using lt live_iff[OF so] xl live_doc[OF so xl] by (auto simp: behind_def word_le_nat_alt)
  qed
  have fin: "finite (behind Q b R)" by (simp add: behind_def)
  have "sum_list (map (\<lambda>x. ts_maxScore (states ! x)) (take (Suc n) ?L)) = (\<Sum>x \<in> set (take (Suc n) ?L). ts_maxScore (states ! x))"
    using liveSorted_spec(1)[of states] by (simp add: sum_list_distinct_conv_sum_set distinct_take)
  also have "\<dots> \<le> (\<Sum>x \<in> behind Q b R. ts_maxScore (states ! x))"
    using sub fin state_maxScore(1)[OF so assms(2)] by (intro sum_mono2) (auto simp: behind_def less_imp_le)
  also have "\<dots> \<le> thr" using assms(1) by (simp add: wand_inv_def)
  finally show False using assms(4) by simp
qed

subsection \<open>What a round does to the lists ahead\<close>

lemma keep_dropWhile: "p \<in> set xs \<Longrightarrow> \<not> P p \<Longrightarrow> p \<in> set (dropWhile P xs)"
  by (induction xs) auto

abbreviation advanced :: "nat \<Rightarrow> nat set \<Rightarrow> DocID \<Rightarrow> Posting list list \<Rightarrow> Posting list list" where
  "advanced n S target R \<equiv> map (\<lambda>x. if x \<in> S then dropWhile (below target) (R ! x) else R ! x) [0..<n]"

lemma ahead_advanced:
  assumes "ahead Q b R" "b \<le> b'" "unat target \<le> b'"
  shows "ahead Q b' (advanced (length Q) S target R)"
  unfolding ahead_def
proof (intro allI impI ballI)
  fix j p assume j: "j < length Q" "p \<in> set (fst (Q ! j))" "b' \<le> unat (Doc p)"
  then have "p \<in> set (R ! j)" using assms(1,2) unfolding ahead_def by (meson order.trans)
  moreover have "\<not> below target p" using j(3) assms(3) by (simp add: word_less_nat_alt)
  ultimately show "p \<in> set (advanced (length Q) S target R ! j)" using j(1) keep_dropWhile[of p] by simp
qed

lemma advanced_smaller:
  assumes "length R = n" "y < n" "y \<in> S" "R ! y \<noteq> []" "Doc (hd (R ! y)) < target"
  shows "sum_list (map length (advanced n S target R)) < sum_list (map length R)"
proof -
  let ?g = "\<lambda>x. length (if x \<in> S then dropWhile (below target) (R ! x) else R ! x)"
  have le: "?g x \<le> length (R ! x)" for x by (simp add: length_dropWhile_le)
  obtain p ps where y: "R ! y = p # ps" using assms(4) by (cases "R ! y") auto
  then have "?g y = length (dropWhile (below target) ps)" using assms(3,5) by simp
  also have "\<dots> \<le> length ps" by (rule length_dropWhile_le)
  finally have "?g y < length (R ! y)" using y by simp
  then have "(\<Sum>x = 0..<n. ?g x) < (\<Sum>x = 0..<n. length (R ! x))"
    using le assms(2) by (intro sum_strict_mono_ex1 bexI[of _ y]) simp_all
  then show ?thesis using assms(1) by (simp add: sum_list_sum_nth)
qed

lemma hd_advanced: "dropWhile (below target) xs \<noteq> [] \<Longrightarrow> target \<le> Doc (hd (dropWhile (below target) xs))"
  by (metis hd_dropWhile not_le)

lemma threshold_nonneg:
  assumes "top_ok k (hit_of Q ` D) hp" "\<forall>q \<in> set Q. qterm_ok q" "0 < k"
  shows "0 \<le> threshold_of k hp"
proof (cases "length hp = k")
  case True
  then have "hp ! 0 \<in> set hp" using assms(3) by simp
  then have "hp ! 0 \<in> hit_of Q ` D" using assms(1) by (auto simp: top_ok_def is_topk_def)
  then show ?thesis using doc_score_nonneg[OF assms(2)] True by (auto simp: threshold_of_def hit_of_def)
qed (simp add: threshold_of_def)

lemma wand_invI:
  assumes "states_ok Q states R" "ahead Q b R" "top_ok k (hit_of Q ` {d \<in> query_docs Q. unat d < b}) hp"
    and "\<forall>q \<in> set Q. qterm_ok q" "0 < k" "\<forall>x < length Q. R ! x \<noteq> [] \<longrightarrow> b \<le> unat (Doc (hd (R ! x)))"
  shows "wand_inv Q k b states R hp (threshold_of k hp)"
proof -
  have "behind Q b R = {}" using assms(6) by (auto simp: behind_def)
  then show ?thesis using assms threshold_nonneg[OF assms(3,4,5)] by (simp add: wand_inv_def)
qed

text \<open>The live terms split at the pivot document, when it is the first live document.\<close>

definition live_split :: "'s qterm list \<Rightarrow> Posting list list \<Rightarrow> DocID \<Rightarrow> nat list \<Rightarrow> nat list \<Rightarrow> bool" where
  "live_split Q R pd A B \<longleftrightarrow> distinct (A @ B) \<and> A \<noteq> [] \<and>
     (\<forall>x. x \<in> set (A @ B) \<longleftrightarrow> x < length Q \<and> R ! x \<noteq> []) \<and>
     (\<forall>x \<in> set A. Doc (hd (R ! x)) = pd) \<and>
     (\<forall>x \<in> set B. pd < Doc (hd (R ! x)) \<and> Doc (hd (R ! hd B)) \<le> Doc (hd (R ! x)))"

lemma live_split_ex:
  assumes "states_ok Q states R" "liveSorted states \<noteq> []"
  defines "pd \<equiv> ts_doc (states ! (liveSorted states ! 0))"
  shows "\<exists>A B. liveSorted states = A @ B \<and> live_split Q R pd A B"
proof -
  let ?L = "liveSorted states"
  let ?P = "\<lambda>x. ts_doc (states ! x) = pd"
  let ?A = "takeWhile ?P ?L" and ?B = "dropWhile ?P ?L"
  have L: "?L = ?A @ ?B" by simp
  have d: "ts_doc (states ! x) = Doc (hd (R ! x))" if "x \<in> set ?L" for x using live_doc[OF assms(1) that] .
  have srt: "sorted (map (\<lambda>x. ts_doc (states ! x)) (?A @ ?B))" using liveSorted_spec(3)[of states] by simp
  have B: "pd < ts_doc (states ! x) \<and> ts_doc (states ! hd ?B) \<le> ts_doc (states ! x)" if "x \<in> set ?B" for x
  proof -
    have ne: "?B \<noteq> []" using that by (metis empty_iff empty_set)
    have "sorted (map (\<lambda>x. ts_doc (states ! x)) ?B)" using srt by (simp add: sorted_append del: takeWhile_dropWhile_id)
    then have le: "ts_doc (states ! hd ?B) \<le> ts_doc (states ! x)" using that by (cases ?B) auto
    have "hd ?B \<in> set ?L" using ne by (metis hd_in_set set_dropWhileD)
    then have "pd \<le> ts_doc (states ! hd ?B)" unfolding pd_def by (rule live_first_min[OF assms(1)])
    moreover have "ts_doc (states ! hd ?B) \<noteq> pd" using hd_dropWhile[OF ne] .
    ultimately show ?thesis using le by auto
  qed
  have "?A \<noteq> []" using assms(2) by (cases ?L) (auto simp: pd_def)
  moreover have "\<forall>x \<in> set ?A. Doc (hd (R ! x)) = pd" using d set_takeWhileD by fastforce
  moreover have "\<forall>x \<in> set ?B. pd < Doc (hd (R ! x)) \<and> Doc (hd (R ! hd ?B)) \<le> Doc (hd (R ! x))"
  proof
    fix x assume x: "x \<in> set ?B"
    then have "hd ?B \<in> set ?L" "x \<in> set ?L" by (metis empty_iff empty_set hd_in_set set_dropWhileD, metis set_dropWhileD)
    then show "pd < Doc (hd (R ! x)) \<and> Doc (hd (R ! hd ?B)) \<le> Doc (hd (R ! x))" using B[OF x] d by metis
  qed
  ultimately have "live_split Q R pd ?A ?B"
    unfolding live_split_def using liveSorted_spec(1)[of states] live_iff[OF assms(1)] by simp
  then show ?thesis using L by metis
qed

text \<open>The score of the pivot document is the sum over the terms sitting on it.\<close>

lemma pivot_score:
  assumes "states_ok Q states R" "ahead Q b R" "\<forall>q \<in> set Q. qterm_ok q" "live_split Q R pd A B" "b \<le> unat pd"
  shows "scoreDoc states (A @ B) pd = doc_score Q pd"
proof -
  have st: "state_ok (Q ! x) (states ! x) (R ! x)" "R ! x \<noteq> []" "x < length Q" if "x \<in> set (A @ B)" for x
    using assms(1,4) that by (auto simp: states_ok_def live_split_def)
  have doc: "ts_doc (states ! x) = Doc (hd (R ! x))" if "x \<in> set (A @ B)" for x
    using state_ok_doc[OF st(1,2)[OF that]] .
  have "foldl (\<lambda>s x. if ts_doc (states ! x) = pd then s + g x else s) s0 xs =
      s0 + sum_list (map g (filter (\<lambda>x. ts_doc (states ! x) = pd) xs))" for g :: "nat \<Rightarrow> 'a" and s0 xs
    by (induction xs arbitrary: s0) (simp_all add: add.assoc)
  moreover have "filter (\<lambda>x. ts_doc (states ! x) = pd) (A @ B) = A"
  proof -
    have "ts_doc (states ! x) = pd" if "x \<in> set A" for x using doc[of x] assms(4) that by (simp add: live_split_def)
    moreover have "ts_doc (states ! x) \<noteq> pd" if "x \<in> set B" for x using doc[of x] assms(4) that by (auto simp: live_split_def)
    ultimately show ?thesis by (simp add: filter_empty_conv filter_id_conv)
  qed
  ultimately have "scoreDoc states (A @ B) pd =
      sum_list (map (\<lambda>x. Score (ts_scorer (states ! x)) (Cursor_Freq (ts_cur (states ! x)))) A)"
    by (simp add: scoreDoc_def)
  also have "\<dots> = sum_list (map (\<lambda>x. contrib (Q ! x) pd) A)"
  proof (intro arg_cong[where f = sum_list] map_cong refl)
    fix x assume x: "x \<in> set A"
    then have xs: "x \<in> set (A @ B)" by simp
    obtain ps sc mf where q: "Q ! x = (ps, sc, mf)" by (cases "Q ! x")
    have s: "suffix (R ! x) ps" "ts_scorer (states ! x) = sc" using st(1)[OF xs] q by simp_all
    have "hd (R ! x) \<in> set ps" using s(1) st(2)[OF xs] by (metis hd_in_set set_mono_suffix subsetD)
    moreover have "qterm_ok (ps, sc, mf)" using assms(3) st(3)[OF xs] q by (metis nth_mem)
    moreover have "Doc (hd (R ! x)) = pd" using assms(4) x by (simp add: live_split_def)
    ultimately have "contrib (Q ! x) pd = Score sc (Frequency (hd (R ! x)))" using contrib_present q by metis
    then show "Score (ts_scorer (states ! x)) (Cursor_Freq (ts_cur (states ! x))) = contrib (Q ! x) pd"
      using s(2) state_ok_freq[OF st(1,2)[OF xs]] by simp
  qed
  also have "\<dots> = doc_score Q pd"
  proof (rule doc_score_list[symmetric])
    show "distinct A" "\<forall>j \<in> set A. j < length Q" using assms(4) by (auto simp: live_split_def)
    show "pd \<notin> Doc ` set (fst (Q ! j))" if j: "j < length Q" "j \<notin> set A" for j
    proof
      assume "pd \<in> Doc ` set (fst (Q ! j))"
      note h = holder_live[OF assms(1-3) j(1) this assms(5)]
      then have "j \<in> set (A @ B)" using live_iff[OF assms(1), of j] assms(4) unfolding live_split_def by blast
      moreover from this have "j \<in> set B" using j(2) by simp
      ultimately show False using h(2) doc assms(4) unfolding live_split_def by (metis leD)
    qed
  qed
  finally show ?thesis .
qed

subsection \<open>The three rounds\<close>

lemma docs_upto_pivot:
  assumes "states_ok Q states R" "ahead Q b R" "\<forall>q \<in> set Q. qterm_ok q" "liveSorted states \<noteq> []"
    and "pd = ts_doc (states ! (liveSorted states ! 0))" "b \<le> unat pd" "pd \<in> query_docs Q"
  shows "{d \<in> query_docs Q. unat d < unat pd + 1} = insert pd {d \<in> query_docs Q. unat d < b}"
proof -
  have "d = pd" if "d \<in> query_docs Q" "unat d < unat pd + 1" "\<not> unat d < b" for d
    using no_doc_before_first[OF assms(1-3) that(1) _ assms(4)] that(2,3) assms(5)
    by (simp add: word_le_nat_alt word_unat_eq_iff)
  moreover have "unat d < unat pd + 1" if "unat d < b" for d :: DocID using that assms(6) by simp
  ultimately show ?thesis using assms(7) by auto
qed

lemma doc_in_query:
  assumes "states_ok Q states R" "x < length Q" "R ! x \<noteq> []"
  shows "Doc (hd (R ! x)) \<in> query_docs Q"
proof -
  obtain ps sc mf where q: "Q ! x = (ps, sc, mf)" by (cases "Q ! x")
  have "state_ok (Q ! x) (states ! x) (R ! x)" using assms(1,2) by (simp add: states_ok_def)
  then have "suffix (R ! x) ps" using q by simp
  then have "hd (R ! x) \<in> set (fst (Q ! x))" using assms(3) q by (metis fst_conv hd_in_set set_mono_suffix subsetD)
  then show ?thesis using assms(2) unfolding query_docs_def by (metis UN_I image_eqI nth_mem)
qed

lemma doc_not_max: "\<forall>q \<in> set Q. qterm_ok q \<Longrightarrow> d \<in> query_docs Q \<Longrightarrow> unat d < 2 ^ 32 - 1"
  by (fastforce simp: query_docs_def word_less_nat_alt)

lemma advance_live:
  assumes "states_ok Q states R" "\<forall>q \<in> set Q. qterm_ok q" "live_split Q R pd A B"
    and "\<And>x. x \<in> set (A @ B) \<Longrightarrow> P (states ! x) \<longleftrightarrow> x \<in> S"
  shows "\<exists>states'. advance_where P target (A @ B) states = Some states' \<and>
    states_ok Q states' (advanced (length Q) (set (A @ B) \<inter> S) target R)"
proof -
  have "\<forall>x \<in> set (A @ B). x < length Q" "distinct (A @ B)" using assms(3) by (auto simp: live_split_def)
  from advance_where_ok[OF assms(1,2) this(2,1), of P target] obtain states' where
    s: "advance_where P target (A @ B) states = Some states'"
      "states_ok Q states' (map (\<lambda>x. if x \<in> set (A @ B) \<and> P (states ! x) then dropWhile (below target) (R ! x) else R ! x) [0..<length Q])"
    by blast
  have "(x \<in> set (A @ B) \<and> P (states ! x)) = (x \<in> set (A @ B) \<inter> S)" for x using assms(4) by blast
  then show ?thesis using s by (simp only:) blast
qed

lemma round_score:
  assumes "states_ok Q states R" "ahead Q b R" "top_ok k (hit_of Q ` {d \<in> query_docs Q. unat d < b}) hp"
    and "\<forall>q \<in> set Q. qterm_ok q" "0 < k" "live_split Q R pd A B" "b \<le> unat pd"
    and "{d \<in> query_docs Q. unat d < unat pd + 1} = insert pd {d \<in> query_docs Q. unat d < b}"
  defines "push \<equiv> pushTop hp \<lparr>hit_Doc = pd, hit_Score = scoreDoc states (A @ B) pd\<rparr> (int k) (threshold_of k hp)"
  shows "\<exists>states' R'. advance_where (\<lambda>t. ts_doc t = pd) (pd + 1) (A @ B) states = Some states' \<and>
    wand_inv Q k (unat pd + 1) states' R' (snd push) (fst push) \<and> sum_list (map length R') < sum_list (map length R)"
proof -
  have hit: "\<lparr>hit_Doc = pd, hit_Score = scoreDoc states (A @ B) pd\<rparr> = hit_of Q pd"
    using pivot_score[OF assms(1,2,4,6,7)] by (simp add: hit_of_def)
  have "hit_of Q pd \<notin> hit_of Q ` {d \<in> query_docs Q. unat d < b}" using assms(7) by (auto simp: hit_of_def)
  from pushTop_ok[OF assms(3,5) this] have push: "top_ok k (hit_of Q ` {d \<in> query_docs Q. unat d < unat pd + 1}) (snd push)"
    "fst push = threshold_of k (snd push)" unfolding assms(8) image_insert push_def hit by simp_all
  have doc: "ts_doc (states ! x) = Doc (hd (R ! x))" if "x \<in> set (A @ B)" for x
    using state_ok_doc[of "Q ! x"] assms(1,6) that by (auto simp: states_ok_def live_split_def)
  have onA: "ts_doc (states ! x) = pd \<longleftrightarrow> x \<in> set A" if "x \<in> set (A @ B)" for x
    using doc[OF that] that assms(6) by (auto simp: live_split_def)
  let ?R = "advanced (length Q) (set (A @ B) \<inter> set A) (pd + 1) R"
  obtain states' where s: "advance_where (\<lambda>t. ts_doc t = pd) (pd + 1) (A @ B) states = Some states'" "states_ok Q states' ?R"
    using advance_live[OF assms(1,4,6), of "\<lambda>t. ts_doc t = pd" "set A" "pd + 1"] onA by blast
  obtain a where a: "a \<in> set A" using assms(6) hd_in_set unfolding live_split_def by blast
  then have al: "a < length Q" "R ! a \<noteq> []" "Doc (hd (R ! a)) = pd" using assms(6) by (auto simp: live_split_def)
  have "unat pd < 2 ^ 32 - 1" using doc_not_max[OF assms(4)] doc_in_query[OF assms(1) al(1,2)] al(3) by simp
  then have wrap: "unat (pd + 1) = unat pd + 1" by (simp add: unat_word_ariths)
  have "\<forall>x < length Q. ?R ! x \<noteq> [] \<longrightarrow> unat pd + 1 \<le> unat (Doc (hd (?R ! x)))"
  proof (intro allI impI)
    fix x assume x: "x < length Q" "?R ! x \<noteq> []"
    show "unat pd + 1 \<le> unat (Doc (hd (?R ! x)))"
    proof (cases "x \<in> set A")
      case True
      then have "dropWhile (below (pd + 1)) (R ! x) \<noteq> []" using x by simp
      from hd_advanced[OF this] show ?thesis using x(1) True wrap by (simp add: word_le_nat_alt)
    next
      case False
      then have "R ! x \<noteq> []" using x by simp
      then have "x \<in> set B" using False x(1) assms(6) unfolding live_split_def by (metis Un_iff set_append)
      then have "pd < Doc (hd (R ! x))" using assms(6) by (simp add: live_split_def)
      then show ?thesis using x(1) False by (simp add: word_less_nat_alt)
    qed
  qed
  then have w: "wand_inv Q k (unat pd + 1) states' ?R (snd push) (threshold_of k (snd push))"
    using s(2) ahead_advanced[OF assms(2), of "unat pd + 1" "pd + 1"] wrap assms(7) push(1) assms(4,5)
    by (intro wand_invI) simp_all
  have "sum_list (map length ?R) < sum_list (map length R)"
  proof (rule advanced_smaller)
    show "length R = length Q" using assms(1) by (simp add: states_ok_def)
    show "a < length Q" "R ! a \<noteq> []" "a \<in> set (A @ B) \<inter> set A" using a al by simp_all
    show "Doc (hd (R ! a)) < pd + 1" using al(3) wrap by (simp add: word_less_nat_alt)
  qed
  with s(1) w show ?thesis unfolding push(2) by blast
qed

lemma round_skip:
  assumes "states_ok Q states R" "ahead Q b R" "top_ok k (hit_of Q ` {d \<in> query_docs Q. unat d < b}) hp"
    and "\<forall>q \<in> set Q. qterm_ok q" "0 < k" "live_split Q R pd A B" "b \<le> unat pd"
    and "\<forall>x \<in> set A. shallowed pd (states ! x) (R ! x) (l x) (f x)"
    and "sum_list (map (\<lambda>x. MaxScore (ts_scorer (states ! x)) (f x)) A) \<le> threshold_of k hp" "0 < threshold_of k hp"
  shows "\<exists>states' R' b'. skipBlock pd (A @ B) states = Some states' \<and>
    wand_inv Q k b' states' R' hp (threshold_of k hp) \<and> sum_list (map length R') < sum_list (map length R)"
proof -
  have A: "A \<noteq> []" "\<forall>x \<in> set A. x < length Q \<and> R ! x \<noteq> [] \<and> Doc (hd (R ! x)) = pd"
    and B: "\<forall>x \<in> set B. pd < Doc (hd (R ! x)) \<and> Doc (hd (R ! hd B)) \<le> Doc (hd (R ! x))"
    and mem: "\<And>x. x \<in> set (A @ B) \<longleftrightarrow> x < length Q \<and> R ! x \<noteq> []"
    using assms(6) by (auto simp: live_split_def)
  have doc: "ts_doc (states ! x) = Doc (hd (R ! x))" if "x \<in> set (A @ B)" for x
    using state_ok_doc[of "Q ! x"] assms(1) that mem[of x] by (auto simp: states_ok_def)
  have "\<forall>x \<in> set A. ts_doc (states ! x) = pd \<and> shallowed pd (states ! x) (R ! x) (l x) (f x)"
    "B \<noteq> [] \<longrightarrow> pd < ts_doc (states ! hd B)" "\<forall>x \<in> set A. x < length states" "A \<noteq> [] \<or> (None :: DocID option) \<noteq> None"
    using A B doc assms(1,8) by (auto simp: states_ok_def)
  from skip_bounds_ok[OF this] obtain m where
    m: "skip_bounds pd (A @ B) None states = Some (Some m, (case B of [] \<Rightarrow> None | x # _ \<Rightarrow> Some (ts_doc (states ! x))), states)"
      "m \<in> l ` set A" "\<forall>x \<in> set A. m \<le> l x" by auto
  have mb: "pd \<le> m" "m < 0xFFFFFFFF" using m(2) assms(8) by (auto simp: shallowed_def)
  then have wrap: "unat (m + 1) = unat m + 1" by (simp add: unat_word_ariths word_less_nat_alt)
  define T where "T = (case B of [] \<Rightarrow> m + 1 | x # _ \<Rightarrow> if ts_doc (states ! x) < m + 1 then ts_doc (states ! x) else m + 1)"
  have skip: "skipBlock pd (A @ B) states = advance_where (\<lambda>t. ts_doc t < T) T (A @ B) states"
    unfolding skipBlock_def m(1) T_def Let_def by (cases B) simp_all
  have TB: "T \<le> Doc (hd (R ! x))" if "x \<in> set B" for x
  proof -
    obtain y ys where "B = y # ys" using \<open>x \<in> set B\<close> by (cases B) auto
    moreover from this have "ts_doc (states ! y) = Doc (hd (R ! y))" "Doc (hd (R ! y)) \<le> Doc (hd (R ! x))"
      using doc[of y] B \<open>x \<in> set B\<close> by auto
    ultimately show ?thesis by (auto simp: T_def)
  qed
  have Tm: "unat T \<le> unat m + 1" using wrap by (auto simp: T_def word_less_nat_alt split: list.splits)
  have pT: "pd < T" using mb(1) wrap B doc by (cases B) (auto simp: T_def word_less_nat_alt word_le_nat_alt)
  have low: "doc_score Q d \<le> threshold_of k hp" if d: "d \<in> query_docs Q" "b \<le> unat d" "unat d < unat T" for d
  proof -
    have "doc_score Q d \<le> sum_list (map (\<lambda>x. MaxScore (ts_scorer (states ! x)) (f x)) A)"
    proof (rule doc_score_bound)
      show "distinct A" "\<forall>j \<in> set A. j < length Q" using assms(6) A by (auto simp: live_split_def)
      show "d \<notin> Doc ` set (fst (Q ! j))" if j: "j < length Q" "j \<notin> set A" for j
      proof
        assume "d \<in> Doc ` set (fst (Q ! j))"
        note h = holder_live[OF assms(1,2,4) j(1) this d(2)]
        have "j \<in> set (A @ B)" unfolding mem using h(1) live_iff[OF assms(1), of j] by blast
        moreover from this j(2) have "T \<le> Doc (hd (R ! j))" using TB by simp
        ultimately show False using h(2) doc d(3) by (auto simp: word_le_nat_alt)
      qed
      show "contrib (Q ! j) d \<le> MaxScore (ts_scorer (states ! j)) (f j)" if j: "j \<in> set A" for j
      proof -
        obtain ps sc mf where q: "Q ! j = (ps, sc, mf)" by (cases "Q ! j")
        have jl: "j < length Q" using A j by blast
        have ok: "qterm_ok (ps, sc, mf)" using assms(4) jl q by (metis nth_mem)
        have st: "state_ok (Q ! j) (states ! j) (R ! j)" using assms(1) jl by (simp add: states_ok_def)
        then have sc: "ts_scorer (states ! j) = sc" "suffix (R ! j) ps" using q by simp_all
        have sok: "scorer_ok sc" using ok by simp
        show ?thesis
        proof (cases "d \<in> Doc ` set (fst (Q ! j))")
          case True
          obtain p where p: "p \<in> set (R ! j)" "Doc p = d" using holder_live(3)[OF assms(1,2,4) jl True d(2)] by blast
          have "Doc p \<le> l j" using p(2) d(3) Tm m(3) j by (auto simp: word_le_nat_alt)
          then have "Frequency p \<le> f j" using assms(8) j p(1) by (simp add: shallowed_def)
          moreover have "p \<in> set ps" using p(1) sc(2) set_mono_suffix by blast
          ultimately show ?thesis using contrib_present[OF ok] p(2) q sc(1) sok by (metis scorer_ok_def)
        next
          case False
          have "0 \<le> Score sc (f j)" "Score sc (f j) \<le> MaxScore sc (f j)" using sok by (simp_all add: scorer_ok_def)
          then show ?thesis using contrib_absent[OF False] sc(1) by simp
        qed
      qed
    qed
    with assms(9) show ?thesis by simp
  qed
  have bT: "b \<le> unat T" using assms(7) pT by (simp add: word_less_nat_alt)
  note top = settle[OF assms(3,10,5) bT low]
  let ?S = "{x. Doc (hd (R ! x)) < T}"
  let ?R = "advanced (length Q) (set (A @ B) \<inter> ?S) T R"
  obtain states' where s: "advance_where (\<lambda>t. ts_doc t < T) T (A @ B) states = Some states'" "states_ok Q states' ?R"
    using advance_live[OF assms(1,4,6), of "\<lambda>t. ts_doc t < T" ?S T] doc by auto
  have "\<forall>x < length Q. ?R ! x \<noteq> [] \<longrightarrow> unat T \<le> unat (Doc (hd (?R ! x)))"
  proof (intro allI impI)
    fix x assume x: "x < length Q" "?R ! x \<noteq> []"
    show "unat T \<le> unat (Doc (hd (?R ! x)))"
    proof (cases "x \<in> set (A @ B) \<inter> ?S")
      case True
      then have R: "?R ! x = dropWhile (below T) (R ! x)" using x(1) by simp
      then have "T \<le> Doc (hd (?R ! x))" using hd_advanced[of T "R ! x"] x(2) by metis
      then show ?thesis by (simp only: word_le_nat_alt)
    next
      case False
      have "?R ! x = (if x \<in> set (A @ B) \<inter> ?S then dropWhile (below T) (R ! x) else R ! x)" using x(1) by simp
      then have R: "?R ! x = R ! x" using False by (simp only: if_False)
      then have "x \<in> set (A @ B)" using x mem[of x] by simp
      then show ?thesis using False by (simp only: R) (simp add: word_less_nat_alt not_less)
    qed
  qed
  from wand_invI[OF s(2) ahead_advanced[OF assms(2) bT order.refl] top assms(4,5) this]
  have "wand_inv Q k (unat T) states' ?R hp (threshold_of k hp)" .
  moreover have "sum_list (map length ?R) < sum_list (map length R)"
  proof (rule advanced_smaller)
    show "length R = length Q" using assms(1) by (simp add: states_ok_def)
    have "hd A \<in> set A" using A(1) by simp
    then show "hd A < length Q" "R ! hd A \<noteq> []" "hd A \<in> set (A @ B) \<inter> ?S" "Doc (hd (R ! hd A)) < T"
      using A(2) pT by simp_all
  qed
  ultimately show ?thesis using s(1) unfolding skip by blast
qed

lemma round_realign:
  assumes "wand_inv Q k b states R hp thr" "\<forall>q \<in> set Q. qterm_ok q" "0 < k"
    and "n < length (liveSorted states)" "0 < n"
    and "\<And>m. 0 < m \<Longrightarrow> m \<le> n \<Longrightarrow> sum_list (map (\<lambda>x. ts_maxScore (states ! x)) (take m (liveSorted states))) \<le> thr"
    and "thr < sum_list (map (\<lambda>x. ts_maxScore (states ! x)) (take (Suc n) (liveSorted states)))"
  defines "pd \<equiv> ts_doc (states ! (liveSorted states ! n))"
  assumes "ts_doc (states ! (liveSorted states ! 0)) \<noteq> pd"
  shows "\<exists>x s R'. pickAdvance states (liveSorted states) pd = Some x \<and> advance pd (states ! x) = Some s \<and>
    wand_inv Q k (unat pd) (states[x := s]) R' hp thr \<and> sum_list (map length R') < sum_list (map length R)"
proof -
  let ?L = "liveSorted states"
  have inv: "states_ok Q states R" "ahead Q b R" "top_ok k (hit_of Q ` {d \<in> query_docs Q. unat d < b}) hp"
    "thr = threshold_of k hp" using assms(1) by (simp_all add: wand_inv_def)
  have ne: "?L \<noteq> []" using assms(4) by auto
  have n: "?L ! n \<in> set ?L" using assms(4) by simp
  have "ts_doc (states ! (?L ! 0)) < pd"
    using live_first_min[OF inv(1) n] assms(9) by (simp add: pd_def)
  moreover have "?L ! 0 \<in> set ?L" using ne by simp
  moreover have pos: "0 < ts_maxScore (states ! x)" if "x \<in> set ?L" for x
    using state_maxScore(1)[OF inv(1) assms(2)] live_iff[OF inv(1)] that by blast
  moreover have "(-1 :: 'a) < ts_maxScore (states ! x)" if "x \<in> set ?L" for x
    using pos[OF that] by (simp add: order.strict_trans[of "-1" 0])
  ultimately obtain x where x: "pickAdvance states ?L pd = Some x" "x \<in> set ?L" "ts_doc (states ! x) < pd"
    using pickAdvance_loop_spec[of ?L "-1" states None pd "set ?L"] unfolding pickAdvance_def by blast
  have xl: "x < length Q" "R ! x \<noteq> []" using x(2) live_iff[OF inv(1)] by auto
  obtain ps sc mf where q: "Q ! x = (ps, sc, mf)" by (cases "Q ! x")
  have "doc_sorted ps" using assms(2) xl(1) q by (metis nth_mem qterm_ok.simps)
  moreover have "state_ok (ps, sc, mf) (states ! x) (R ! x)" using inv(1) xl(1) q by (metis states_ok_def)
  ultimately obtain s where s: "advance pd (states ! x) = Some s" "state_ok (Q ! x) s (dropWhile (below pd) (R ! x))"
    using advance_ok q by metis
  let ?R = "advanced (length Q) {x} pd R"
  have len: "length R = length Q" using inv(1) by (simp add: states_ok_def)
  have "R[x := dropWhile (below pd) (R ! x)] = ?R" using len xl(1) by (intro nth_equalityI) (auto simp: nth_list_update)
  then have so: "states_ok Q (states[x := s]) ?R" using states_ok_update[OF inv(1) xl(1) s(2)] by simp
  have bpd: "b \<le> unat pd" unfolding pd_def by (rule pivot_ge_frontier[OF assms(1,2,4,7)])
  have thr: "0 < thr"
  proof -
    have "take 1 ?L = [?L ! 0]" using ne by (cases ?L) simp_all
    then show ?thesis using assms(6)[of 1] assms(5) pos[of "?L ! 0"] ne by simp
  qed
  have low: "doc_score Q d \<le> threshold_of k hp" if "d \<in> query_docs Q" "b \<le> unat d" "unat d < unat pd" for d
  proof -
    have "doc_score Q d \<le> sum_list (map (\<lambda>x. ts_maxScore (states ! x)) (take n ?L))"
      using that(3) by (intro score_before[OF inv(1,2) assms(2) that(2)]) (simp add: pd_def word_less_nat_alt)
    also have "\<dots> \<le> thr" using assms(5,6) by simp
    finally show ?thesis using inv(4) by simp
  qed
  have top: "top_ok k (hit_of Q ` {d \<in> query_docs Q. unat d < unat pd}) hp"
    using thr inv(4) by (intro settle[OF inv(3) _ assms(3) bpd low]) simp_all
  have beh: "behind Q (unat pd) ?R \<subseteq> set (take n ?L) - {x}"
  proof
    fix y assume y: "y \<in> behind Q (unat pd) ?R"
    then have yl: "y < length Q" "?R ! y \<noteq> []" "Doc (hd (?R ! y)) < pd" by (auto simp: behind_def word_less_nat_alt)
    have "y \<noteq> x" using yl hd_advanced[of pd "R ! x"] by auto
    then have "R ! y \<noteq> []" "Doc (hd (R ! y)) < pd" using yl by simp_all
    then have yL: "y \<in> set ?L" using live_iff[OF inv(1)] yl(1) by blast
    then obtain i where i: "i < length ?L" "?L ! i = y" by (auto simp: in_set_conv_nth)
    have "\<not> n \<le> i"
    proof
      assume "n \<le> i"
      then have "pd \<le> ts_doc (states ! y)"
        using sorted_nth_mono[OF liveSorted_spec(3), of n i states] i assms(4) by (simp add: pd_def)
      with live_doc[OF inv(1) yL] \<open>Doc (hd (R ! y)) < pd\<close> show False by simp
    qed
    then show "y \<in> set (take n ?L) - {x}" using i \<open>y \<noteq> x\<close> by (auto simp: in_set_conv_nth intro!: exI[of _ i])
  qed
  have "(\<Sum>y \<in> behind Q (unat pd) ?R. ts_maxScore (states[x := s] ! y)) = (\<Sum>y \<in> behind Q (unat pd) ?R. ts_maxScore (states ! y))"
  proof (rule sum.cong)
    fix y assume "y \<in> behind Q (unat pd) ?R"
    then have "y \<noteq> x" using beh by blast
    then show "ts_maxScore (states[x := s] ! y) = ts_maxScore (states ! y)" by simp
  qed simp
  also have "\<dots> \<le> (\<Sum>y \<in> set (take n ?L). ts_maxScore (states ! y))"
    using beh pos by (intro sum_mono2) (auto simp: less_imp_le dest: in_set_takeD)
  also have "\<dots> = sum_list (map (\<lambda>x. ts_maxScore (states ! x)) (take n ?L))"
    using liveSorted_spec(1)[of states] by (simp add: sum_list_distinct_conv_sum_set distinct_take)
  also have "\<dots> \<le> thr" using assms(5,6) by simp
  finally have "wand_inv Q k (unat pd) (states[x := s]) ?R hp thr"
    using so ahead_advanced[OF inv(2) bpd order.refl, of "{x}"] top inv(4) by (simp add: wand_inv_def)
  moreover have "sum_list (map length ?R) < sum_list (map length R)"
    using x(3) live_doc[OF inv(1) x(2)] by (intro advanced_smaller[OF len xl(1) _ xl(2)]) simp_all
  ultimately show ?thesis using x(1) s(1) by blast
qed

subsection \<open>The loop ends with the top k\<close>

lemma wand_loop_correct:
  assumes "wand_inv Q k b states R hp thr" "\<forall>q \<in> set Q. qterm_ok q" "0 < k"
  shows "\<exists>h. wand_loop (int k) states hp thr = Some h \<and> top_ok k (hit_of Q ` query_docs Q) h"
  using assms(1)
proof (induction "sum_list (map length R)" arbitrary: b states R hp thr rule: less_induct)
  case less
  let ?L = "liveSorted states"
  let ?S = "\<lambda>n. sum_list (map (\<lambda>x. ts_maxScore (states ! x)) (take n ?L))"
  have inv: "states_ok Q states R" "ahead Q b R" "top_ok k (hit_of Q ` {d \<in> query_docs Q. unat d < b}) hp"
    "thr = threshold_of k hp" using less.prems by (simp_all add: wand_inv_def)
  show ?case
  proof (cases "?L = []")
    case True
    have "unat d < b" if "d \<in> query_docs Q" for d
    proof (rule ccontr)
      assume "\<not> unat d < b"
      then have d: "b \<le> unat d" by simp
      obtain q where "q \<in> set Q" "d \<in> Doc ` set (fst q)" using \<open>d \<in> query_docs Q\<close> unfolding query_docs_def by blast
      then obtain j where j: "j < length Q" "d \<in> Doc ` set (fst (Q ! j))" by (metis in_set_conv_nth)
      show False using holder_live(1)[OF inv(1,2) assms(2) j d] True by simp
    qed
    then have "{d \<in> query_docs Q. unat d < b} = query_docs Q" by blast
    then show ?thesis using inv(3) True by (subst wand_loop.simps) simp
  next
    case False
    have pos0: "0 < ts_maxScore (states ! (?L ! 0))"
      using state_maxScore(1)[OF inv(1) assms(2)] live_iff[OF inv(1), of "?L ! 0"] False by simp
    have S1: "?S 1 = ts_maxScore (states ! (?L ! 0))" using False by (cases ?L) simp_all
    from findPivot_loop_spec[of states thr 0 0 ?L] consider
      (none) "findPivot states ?L thr = -1" "\<And>n. 0 < n \<Longrightarrow> n \<le> length ?L \<Longrightarrow> ?S n \<le> thr"
    | (some) n where "n < length ?L" "findPivot states ?L thr = int n"
        "\<And>m. 0 < m \<Longrightarrow> m \<le> n \<Longrightarrow> ?S m \<le> thr" "thr < ?S (Suc n)"
      unfolding findPivot_def by fastforce
    then show ?thesis
    proof cases
      case none
      have len: "0 < length ?L" using False by simp
      have "0 < thr" using none(2)[of 1] len S1 pos0 by (simp add: Suc_le_eq)
      moreover have "doc_score Q d \<le> threshold_of k hp" if "b \<le> unat d" for d
        using score_before[OF inv(1,2) assms(2) that, of "length ?L"] none(2)[of "length ?L"] len inv(4) by simp
      ultimately have "top_ok k (hit_of Q ` {d \<in> query_docs Q. unat d < max b (2 ^ 32)}) hp"
        using inv(4) by (intro settle[OF inv(3) _ assms(3)]) simp_all
      moreover have "{d \<in> query_docs Q. unat d < max b (2 ^ 32)} = query_docs Q" by (auto simp: less_max_iff_disj)
      ultimately show ?thesis using none(1) False by (subst wand_loop.simps) simp
    next
      case (some n)
      let ?pd = "ts_doc (states ! (?L ! n))"
      have bpd: "b \<le> unat ?pd" by (rule pivot_ge_frontier[OF less.prems assms(2) some(1,4)])
      show ?thesis
      proof (cases "ts_doc (states ! (?L ! 0)) = ?pd")
        case eq: True
        obtain A B where AB: "?L = A @ B" "live_split Q R ?pd A B" using live_split_ex[OF inv(1) False] eq by auto
        have dA: "ts_doc (states ! x) = Doc (hd (R ! x))" if "x \<in> set (A @ B)" for x
          using live_doc[OF inv(1)] that unfolding AB(1) .
        have "ts_doc (states ! x) = ?pd" if "x \<in> set A" for x using dA[of x] AB(2) that by (simp add: live_split_def)
        then have Aok: "distinct A" "\<forall>x \<in> set A. x < length Q \<and> R ! x \<noteq> [] \<and> ts_doc (states ! x) = ?pd"
          using AB(2) unfolding live_split_def by auto
        have Bok: "B \<noteq> [] \<longrightarrow> hd B \<notin> set A \<and> ?pd < ts_doc (states ! hd B)"
        proof
          assume "B \<noteq> []"
          then have "hd B \<in> set B" by simp
          then show "hd B \<notin> set A \<and> ?pd < ts_doc (states ! hd B)" using AB(2) dA[of "hd B"] by (auto simp: live_split_def)
        qed
        obtain states1 l f where bm: "blockMaxSum ?pd (A @ B) 0 states =
            Some (0 + sum_list (map (\<lambda>x. MaxScore (ts_scorer (states ! x)) (f x)) A), states1)"
          "states_ok Q states1 R" "\<forall>x \<in> set A. shallowed ?pd (states1 ! x) (R ! x) (l x) (f x)"
          using blockMaxSum_ok[OF inv(1) assms(2) Aok Bok, of 0] by blast
        let ?ub = "sum_list (map (\<lambda>x. MaxScore (ts_scorer (states ! x)) (f x)) A)"
        have same: "ts_scorer (states1 ! x) = ts_scorer (states ! x)" if "x \<in> set A" for x
          using state_scorer[OF bm(2)] state_scorer[OF inv(1)] Aok(2) that by simp
        have ub: "sum_list (map (\<lambda>x. MaxScore (ts_scorer (states1 ! x)) (f x)) A) = ?ub"
          using same by (intro arg_cong[where f = sum_list] map_cong) auto
        have Ane: "A \<noteq> []" using AB(2) by (simp add: live_split_def)
        then have "?pd \<in> query_docs Q"
          using doc_in_query[OF inv(1), of "hd A"] Aok(2) AB(2) by (auto simp: live_split_def)
        note upto = docs_upto_pivot[OF inv(1,2) assms(2) False eq[symmetric] bpd this]
        show ?thesis
        proof (cases "?ub \<le> thr \<and> 0 < thr")
          case True
          obtain states' R' b' where s: "skipBlock ?pd (A @ B) states1 = Some states'"
            "wand_inv Q k b' states' R' hp thr" "sum_list (map length R') < sum_list (map length R)"
            using round_skip[OF bm(2) inv(2,3) assms(2,3) AB(2) bpd bm(3)] True ub inv(4) by auto
          have "wand_loop (int k) states hp thr = wand_loop (int k) states' hp thr"
            using False some(2) eq AB(1) bm(1) True s(1) Ane by (subst wand_loop.simps) (simp add: Let_def)
          then show ?thesis using less.hyps[OF s(3,2)] by simp
        next
          case F: False
          let ?push = "pushTop hp \<lparr>hit_Doc = ?pd, hit_Score = scoreDoc states1 (A @ B) ?pd\<rparr> (int k) (threshold_of k hp)"
          obtain states' R' where s: "advance_where (\<lambda>t. ts_doc t = ?pd) (?pd + 1) (A @ B) states1 = Some states'"
            "wand_inv Q k (unat ?pd + 1) states' R' (snd ?push) (fst ?push)" "sum_list (map length R') < sum_list (map length R)"
            using round_score[OF bm(2) inv(2,3) assms(2,3) AB(2) bpd upto] by blast
          have "wand_loop (int k) states hp thr = wand_loop (int k) states' (snd ?push) (fst ?push)"
            using False some(2) eq AB(1) bm(1) F s(1) inv(4) Ane
            by (subst wand_loop.simps) (auto simp: Let_def case_prod_unfold)
          then show ?thesis using less.hyps[OF s(3,2)] by simp
        qed
      next
        case ne: False
        then have "0 < n" by (metis gr0I)
        from round_realign[OF less.prems assms(2,3) some(1) this some(3,4) ne] obtain x s R' where
          s: "pickAdvance states ?L ?pd = Some x" "advance ?pd (states ! x) = Some s"
            "wand_inv Q k (unat ?pd) (states[x := s]) R' hp thr" "sum_list (map length R') < sum_list (map length R)" by blast
        have "wand_loop (int k) states hp thr = wand_loop (int k) (states[x := s]) hp thr"
          using False some(2) ne s(1,2) by (subst wand_loop.simps) (simp add: Let_def)
        then show ?thesis using less.hyps[OF s(4,3)] by simp
      qed
    qed
  qed
qed

subsection \<open>The query\<close>

text \<open>A term input over a freshly encoded list, as \<open>Segment.Postings\<close> hands it out.\<close>

fun input_ok :: "'s qterm \<Rightarrow> 's TermInput \<Rightarrow> bool" where
  "input_ok (ps, sc, mf) t \<longleftrightarrow>
     (\<exists>l. Encode ps = Inr l \<and> ti_Cursor t = List_Cursor l) \<and> ti_Scorer t = sc \<and> ti_MaxFreq t = mf"

lemma init_state_ok:
  assumes "input_ok (ps, sc, mf) t" "qterm_ok (ps, sc, mf)"
  shows "\<exists>s. init_state t = Some s \<and> state_ok (ps, sc, mf) s ps"
proof -
  obtain l where l: "Encode ps = Inr l" "ti_Cursor t = List_Cursor l" using assms(1) by auto
  let ?pss = "chunks ps" and ?c = "List_Cursor l"
  have c: "cursor_ok ?pss ?c" "remaining ?pss ?c = ps" using cursor_ok_Cursor[OF Encode_ok(1)[OF l(1)]] by simp_all
  have drop0: "dropWhile (below 0) ps = ps" by (cases ps) simp_all
  obtain c' where c': "NextGEQ 0 ?c = Some (if ps = [] then (0, False, c') else (Doc (hd ps), True, c'))"
    "cursor_ok ?pss c'" "remaining ?pss c' = ps" "ps \<noteq> [] \<longrightarrow> positioned ?pss c'" "shallowIdx c' = shallowIdx ?c"
    using NextGEQ_spec[OF c(1), of 0] assms(2) c(2) drop0 by auto
  have "ps \<noteq> [] \<Longrightarrow> ?pss \<noteq> []" using concat_chunks[of ps] by (metis concat.simps(1))
  then have "shallow_ok ?pss c' ps" using c'(5) by (auto simp: shallow_ok_def List_Cursor_def)
  then show ?thesis using c' assms(1) l(2) by (auto simp: init_state_def advance_def intro!: exI[of _ ?pss])
qed

lemma init_states_ok:
  assumes "list_all2 input_ok Q terms" "\<forall>q \<in> set Q. qterm_ok q"
  shows "\<exists>states. init_states terms = Some states \<and> states_ok Q states (map fst Q)"
  using assms
proof (induction Q terms rule: list_all2_induct)
  case Nil
  then show ?case by (simp add: states_ok_def)
next
  case (Cons q Q t terms)
  obtain states where IH: "init_states terms = Some states" "states_ok Q states (map fst Q)" using Cons by auto
  obtain ps sc mf where q: "q = (ps, sc, mf)" by (cases q)
  obtain s where s: "init_state t = Some s" "state_ok q s ps" using init_state_ok[of ps sc mf t] Cons q by auto
  have "state_ok ((q # Q) ! j) ((s # states) ! j) (map fst (q # Q) ! j)" if "j < length (q # Q)" for j
    using that IH(2) s(2) q by (cases j) (simp_all add: states_ok_def)
  then show ?case using IH s(1) by (simp add: states_ok_def)
qed

lemma WAND_correct:
  assumes "list_all2 input_ok Q terms" "\<forall>q \<in> set Q. qterm_ok q" "sort_Slice rank srt"
  shows "WAND srt terms k =
    Some (take (nat k) (sort_key rank (map (hit_of Q) (sorted_list_of_set (query_docs Q)))))"
proof (cases "k \<le> 0 \<or> terms = []")
  case True
  then have "k \<le> 0 \<or> Q = []" using assms(1) by auto
  then show ?thesis using True by (auto simp: WAND_def query_docs_def)
next
  case False
  then have k: "0 < nat k" "int (nat k) = k" by simp_all
  obtain states where st: "init_states terms = Some states" "states_ok Q states (map fst Q)"
    using init_states_ok[OF assms(1,2)] by blast
  have "ahead Q 0 (map fst Q)" by (simp add: ahead_def)
  moreover have "top_ok (nat k) (hit_of Q ` {d \<in> query_docs Q. unat d < 0}) []"
    by (simp add: top_ok_def is_topk_empty heap_ok_def)
  ultimately have "wand_inv Q (nat k) 0 states (map fst Q) [] (threshold_of (nat k) [])"
    by (intro wand_invI[OF st(2) _ _ assms(2) k(1)]) simp_all
  moreover have "threshold_of (nat k) ([] :: 'a Hit list) = 0" using k(1) by (simp add: threshold_of_def)
  ultimately obtain h where h: "wand_loop k states [] 0 = Some h" "top_ok (nat k) (hit_of Q ` query_docs Q) h"
    using wand_loop_correct[OF _ assms(2) k(1)] k(2) by metis
  let ?o = "srt (pop_all (length h) h)" and ?hs = "map (hit_of Q) (sorted_list_of_set (query_docs Q))"
  have hp: "heap_ok heap_less (length h) h" "distinct h" "is_topk (nat k) (hit_of Q ` query_docs Q) (set h)"
    using h(2) by (simp_all add: top_ok_def)
  have m: "mset ?o = mset h" using assms(3) mset_pop_all[OF hp(1) refl] by (simp add: sort_Slice_def)
  have "?o = take (nat k) (sort_key rank ?hs)"
  proof (rule is_topk_sorted[OF hp(3)])
    show "distinct ?o" using distinct_mset_eq[OF m] hp(2) by simp
    show "set ?o = set h" using mset_eq_setD[OF m] .
    show "sorted (map rank ?o)" using assms(3) by (simp add: sort_Slice_def)
    have "inj_on (hit_of Q) (query_docs Q)" by (auto simp: inj_on_def hit_of_def)
    then show "distinct ?hs" by (simp add: distinct_map)
    show "set ?hs = hit_of Q ` query_docs Q" by simp
  qed
  then show ?thesis using False st(1) h(1) by (simp add: WAND_def drain_def)
qed

subsection \<open>Properties\<close>

text \<open>C1: Block-max WAND is exhaustive scoring. For any query terms with non-negative, bounded scorers over
  encoded posting lists, \<open>WAND\<close> terminates and returns the \<open>k\<close> documents of highest total score, in
  descending score and ascending id on ties, as if every matching document had been scored and the
  whole list sorted, although blocks and documents below the threshold are skipped.\<close>

theorem WAND_topk:
  assumes "list_all2 input_ok Q terms" "\<forall>q \<in> set Q. qterm_ok q" "sort_Slice rank srt"
  shows "WAND srt terms k =
    Some (take (nat k) (sort_key rank (map (hit_of Q) (sorted_list_of_set (query_docs Q)))))"
  using assms by (rule WAND_correct)

definition sample_scorer :: "int Scorer" where
  "sample_scorer = \<lparr>Score = \<lambda>f. int (unat f), MaxScore = \<lambda>f. int (unat f)\<rparr>"

definition sample_query :: "int qterm list" where
  "sample_query =
     [([\<lparr>Doc = 1, Frequency = 2\<rparr>, \<lparr>Doc = 5, Frequency = 1\<rparr>], sample_scorer, 3),
      ([\<lparr>Doc = 5, Frequency = 3\<rparr>], sample_scorer, 3)]"

lemma sample_query_ok: "q \<in> set sample_query \<Longrightarrow> qterm_ok q"
  by (auto simp: sample_query_def sample_scorer_def scorer_ok_def word_le_def)

theorem WAND_topk_witness:
  "\<exists>terms. list_all2 input_ok sample_query terms \<and>
     WAND (sort_key rank) terms 1 = Some [\<lparr>hit_Doc = 5, hit_Score = 4\<rparr>]"
proof -
  obtain l where l: "Encode [\<lparr>Doc = 1, Frequency = 2\<rparr>, \<lparr>Doc = 5, Frequency = 1\<rparr>] = Inr l"
    by (simp add: Encode_def word_le_nat_alt)
  obtain m where m: "Encode [\<lparr>Doc = 5, Frequency = 3\<rparr>] = Inr m" by (simp add: Encode_def word_le_nat_alt)
  let ?terms = "[\<lparr>ti_Cursor = List_Cursor l, ti_Scorer = sample_scorer, ti_MaxFreq = 3\<rparr>,
    \<lparr>ti_Cursor = List_Cursor m, ti_Scorer = sample_scorer, ti_MaxFreq = 3\<rparr>]"
  have t: "list_all2 input_ok sample_query ?terms" using l m by (simp add: sample_query_def)
  have "query_docs sample_query = {1, 5}" by (auto simp: query_docs_def sample_query_def)
  then have d: "sorted_list_of_set (query_docs sample_query) = [1, 5]" by simp
  have h: "map (hit_of sample_query) [1, 5] = [\<lparr>hit_Doc = 1, hit_Score = 2\<rparr>, \<lparr>hit_Doc = 5, hit_Score = 4\<rparr>]"
    by (simp add: hit_of_def doc_score_def sample_query_def sample_scorer_def)
  have "sort_Slice rank (sort_key rank)" by (simp add: sort_Slice_def)
  from WAND_topk[OF t _ this, of 1] sample_query_ok have
    "WAND (sort_key rank) ?terms 1 = Some [\<lparr>hit_Doc = 5, hit_Score = 4\<rparr>]"
    unfolding d h by (simp add: rank_def)
  then show ?thesis using t by blast
qed

end
