(* ===== verification/Terms.thy ===== *)
theory Terms
  imports Types GoStrings
begin

text \<open>
  \<open>index/terms/terms.go\<close>: the term dictionary. The \<open>Dictionary\<close> interface is the locale
  \<open>dictionary\<close>; \<open>SortedDict\<close>, a sorted slice with binary search, interprets it. \<open>sort.Slice\<close> promises
  a sorted permutation and nothing about equal elements, so the sorted copy is an argument
  \<open>srt\<close> with that contract.
\<close>

record Entry =
  DocFreq :: nat
  Singleton :: bool
  SingletonDoc :: DocID
  SingletonFreq :: u32
  PostingOffset :: nat

definition Entry_zero :: Entry where
  "Entry_zero = \<lparr>DocFreq = 0, Singleton = False, SingletonDoc = 0, SingletonFreq = 0, PostingOffset = 0\<rparr>"

type_synonym Term = "string \<times> Entry"

record SortedDict =
  d_terms :: "Term list"

text \<open>The loop that collapses duplicates, keeping the last write.\<close>

fun collapse :: "Term list \<Rightarrow> Term list \<Rightarrow> Term list" where
  "collapse out [] = out"
| "collapse out (t # cp) =
     (if out \<noteq> [] \<and> fst t = fst (last out) then collapse (butlast out @ [t]) cp
      else collapse (out @ [t]) cp)"

definition NewSortedDict :: "(Term list \<Rightarrow> Term list) \<Rightarrow> Term list \<Rightarrow> SortedDict" where
  "NewSortedDict srt terms = \<lparr>d_terms = collapse [] (srt terms)\<rparr>"

definition search :: "SortedDict \<Rightarrow> string \<Rightarrow> nat" where
  "search d term = sort_Search (length (d_terms d)) (\<lambda>i. fst (d_terms d ! i) \<ge> term)"

definition Lookup :: "SortedDict \<Rightarrow> string \<Rightarrow> Entry \<times> bool" where
  "Lookup d term =
     (let i = search d term
      in if i < length (d_terms d) \<and> fst (d_terms d ! i) = term then (snd (d_terms d ! i), True)
         else (Entry_zero, False))"

text \<open>The callback of \<open>PrefixScan\<close> runs in a state of its own and says whether to go on.\<close>

fun PrefixScan_loop :: "string \<Rightarrow> (string \<Rightarrow> Entry \<Rightarrow> 's \<Rightarrow> bool \<times> 's) \<Rightarrow> Term list \<Rightarrow> 's \<Rightarrow> 's" where
  "PrefixScan_loop p fn [] s = s"
| "PrefixScan_loop p fn (t # ts) s =
     (if \<not> HasPrefix (fst t) p then s
      else case fn (fst t) (snd t) s of (cont, s') \<Rightarrow> if cont then PrefixScan_loop p fn ts s' else s')"

definition PrefixScan :: "SortedDict \<Rightarrow> string \<Rightarrow> (string \<Rightarrow> Entry \<Rightarrow> 's \<Rightarrow> bool \<times> 's) \<Rightarrow> 's \<Rightarrow> 's" where
  "PrefixScan d p fn s = PrefixScan_loop p fn (drop (search d p) (d_terms d)) s"

definition Dict_Len :: "SortedDict \<Rightarrow> nat" where
  "Dict_Len d = length (d_terms d)"

subsection \<open>The interface\<close>

text \<open>Running a callback over a list of terms until it asks to stop.\<close>

fun visit_all :: "(string \<Rightarrow> Entry \<Rightarrow> 's \<Rightarrow> bool \<times> 's) \<Rightarrow> Term list \<Rightarrow> 's \<Rightarrow> 's" where
  "visit_all fn [] s = s"
| "visit_all fn (t # ts) s =
     (case fn (fst t) (snd t) s of (cont, s') \<Rightarrow> if cont then visit_all fn ts s' else s')"

text \<open>A dictionary stands for a finite map; its scans visit the sorted listing of that map. The scan
  is fixed at the state type \<open>'s\<close> of the callback a client passes.\<close>

locale dictionary =
  fixes lookup :: "'d \<Rightarrow> string \<Rightarrow> Entry \<times> bool"
    and scan :: "'d \<Rightarrow> string \<Rightarrow> (string \<Rightarrow> Entry \<Rightarrow> 's \<Rightarrow> bool \<times> 's) \<Rightarrow> 's \<Rightarrow> 's"
    and len :: "'d \<Rightarrow> nat"
    and invar :: "'d \<Rightarrow> bool"
    and listing :: "'d \<Rightarrow> Term list"
  assumes listing_sorted: "invar d \<Longrightarrow> sorted_wrt (<) (map fst (listing d))"
    and lookup: "invar d \<Longrightarrow> lookup d t =
      (case map_of (listing d) t of Some e \<Rightarrow> (e, True) | None \<Rightarrow> (Entry_zero, False))"
    and scan: "invar d \<Longrightarrow> scan d p fn s = visit_all fn (filter (\<lambda>t. prefix p (fst t)) (listing d)) s"
    and len: "invar d \<Longrightarrow> len d = length (listing d)"
begin

lemma lookup_hit: "invar d \<Longrightarrow> snd (lookup d t) \<longleftrightarrow> t \<in> fst ` set (listing d)"
  using map_of_eq_None_iff[of "listing d" t] by (auto simp: lookup split: option.splits)

lemma lookup_member:
  assumes "invar d"
  shows "lookup d t = (e, True) \<longleftrightarrow> (t, e) \<in> set (listing d)"
proof -
  have "distinct (map fst (listing d))" using listing_sorted[OF assms] by (simp add: strict_sorted_iff)
  then have "map_of (listing d) t = Some e \<longleftrightarrow> (t, e) \<in> set (listing d)" by simp
  then show ?thesis using assms by (auto simp: lookup split: option.splits)
qed

end

subsection \<open>The sorted slice keeps the contract\<close>

definition dict_invar :: "SortedDict \<Rightarrow> bool" where
  "dict_invar d \<longleftrightarrow> sorted_wrt (<) (map fst (d_terms d))"

lemma search_split:
  assumes "dict_invar d"
  obtains L R where "d_terms d = L @ R" "search d t = length L" "\<forall>x \<in> set L. fst x < t" "\<forall>x \<in> set R. t \<le> fst x"
proof -
  have "sorted_wrt (\<lambda>x y. t \<le> fst x \<longrightarrow> t \<le> fst y) (d_terms d)"
    using assms unfolding dict_invar_def sorted_wrt_map by (rule sorted_wrt_mono_rel[rotated]) auto
  then obtain L R where "d_terms d = L @ R" "sort_Search (length (d_terms d)) (\<lambda>i. t \<le> fst (d_terms d ! i)) = length L"
    "\<forall>x \<in> set L. \<not> t \<le> fst x" "\<forall>x \<in> set R. t \<le> fst x" by (rule sort_Search_partition)
  then show thesis by (intro that[of L R]) (auto simp: search_def)
qed

lemma Lookup_map_of:
  assumes "dict_invar d"
  shows "Lookup d t = (case map_of (d_terms d) t of Some e \<Rightarrow> (e, True) | None \<Rightarrow> (Entry_zero, False))"
proof -
  obtain L R where s: "d_terms d = L @ R" "search d t = length L" "\<forall>x \<in> set L. fst x < t" "\<forall>x \<in> set R. t \<le> fst x"
    using assms by (rule search_split)
  have L: "map_of L t = None" using s(3) by (auto simp: map_of_eq_None_iff)
  show ?thesis
  proof (cases R)
    case Nil
    with s L show ?thesis by (simp add: Lookup_def)
  next
    case (Cons x R')
    have "\<forall>y \<in> set R'. fst x < fst y" using assms s(1) Cons by (simp add: dict_invar_def sorted_wrt_append)
    moreover have "t \<le> fst x" using s(4) Cons by simp
    ultimately have "map_of R t = (if fst x = t then Some (snd x) else None)"
      by (auto simp: Cons map_of_eq_None_iff)
    with s L Cons show ?thesis by (simp add: Lookup_def map_add_def)
  qed
qed

text \<open>From the insertion point of a prefix, the terms that carry it are an initial run.\<close>

lemma prefix_run:
  assumes "sorted_wrt (<) (map fst ts)" "\<forall>x \<in> set ts. p \<le> fst x"
  shows "PrefixScan_loop p fn ts s = visit_all fn (filter (\<lambda>t. prefix p (fst t)) ts) s"
  using assms
proof (induction ts arbitrary: s)
  case (Cons t ts)
  show ?case
  proof (cases "prefix p (fst t)")
    case True
    with Cons show ?thesis by (simp add: HasPrefix_def split: prod.splits)
  next
    case False
    have "\<not> prefix p (fst x)" if "x \<in> set ts" for x
    proof
      assume "prefix p (fst x)"
      then obtain y where y: "fst x = p @ y" by (auto simp: prefix_def)
      from Cons.prems that have "p \<le> fst t" "fst t < p @ y" using y by auto
      then show False using False prefix_interval by blast
    qed
    then have "filter (\<lambda>t. prefix p (fst t)) (t # ts) = []" using False by (auto simp: filter_empty_conv)
    with False show ?thesis by (simp add: HasPrefix_def)
  qed
qed simp

lemma PrefixScan_filter:
  assumes "dict_invar d"
  shows "PrefixScan d p fn s = visit_all fn (filter (\<lambda>t. prefix p (fst t)) (d_terms d)) s"
proof -
  obtain L R where s: "d_terms d = L @ R" "search d p = length L" "\<forall>x \<in> set L. fst x < p" "\<forall>x \<in> set R. p \<le> fst x"
    using assms by (rule search_split)
  have "\<not> prefix p (fst x)" if "x \<in> set L" for x
    using s(3) that prefix_le by (meson leD)
  then have "filter (\<lambda>t. prefix p (fst t)) L = []" by (auto simp: filter_empty_conv)
  moreover have "sorted_wrt (<) (map fst R)" using assms s(1) by (simp add: dict_invar_def sorted_wrt_append)
  ultimately show ?thesis using s by (simp add: PrefixScan_def prefix_run)
qed

interpretation sd: dictionary Lookup PrefixScan Dict_Len dict_invar d_terms
  by unfold_locales (simp_all add: dict_invar_def Lookup_map_of PrefixScan_filter Dict_Len_def)

subsection \<open>Building\<close>

lemma collapse_spec:
  assumes "sorted (map fst (out @ cp))" "sorted_wrt (<) (map fst out)"
  shows "sorted_wrt (<) (map fst (collapse out cp)) \<and> map_of (collapse out cp) = map_of (rev (out @ cp))"
  using assms
proof (induction out cp rule: collapse.induct)
  case (1 out)
  then show ?case by (simp add: map_of_inject_set strict_sorted_iff rev_map[symmetric])
next
  case (2 out t cp)
  show ?case
  proof (cases "out \<noteq> [] \<and> fst t = fst (last out)")
    case True
    then obtain o' l where o: "out = o' @ [l]" "fst t = fst l" by (metis append_butlast_last_id)
    have "sorted (map fst ((o' @ [t]) @ cp))" "sorted_wrt (<) (map fst (o' @ [t]))"
      using "2.prems" o by (simp_all add: sorted_wrt_append sorted_append)
    with "2.IH"(1) True o have "sorted_wrt (<) (map fst (collapse (o' @ [t]) cp)) \<and>
        map_of (collapse (o' @ [t]) cp) = map_of (rev ((o' @ [t]) @ cp))" by simp
    moreover have "map_of (t # l # r) = map_of (t # r)" for r :: "Term list" using o(2) by (simp add: fun_eq_iff)
    ultimately show ?thesis using True o by (simp add: map_of_append[where xs = "rev cp"] del: map_of.simps)
  next
    case False
    have "sorted_wrt (<) (map fst (out @ [t]))"
    proof (cases "out = []")
      case F: False
      with False have "fst (last out) \<noteq> fst t" by auto
      moreover have "\<forall>x \<in> set out. fst x \<le> fst (last out)"
        using "2.prems"(2) F by (induction out rule: rev_induct) (auto simp: sorted_wrt_append less_imp_le)
      moreover have "\<forall>x \<in> set out. fst x \<le> fst t" using "2.prems"(1) by (auto simp: sorted_append)
      ultimately have "\<forall>x \<in> set out. fst x < fst t" using F by (metis last_in_set order_le_imp_less_or_eq order_le_less_trans)
      then show ?thesis using "2.prems"(2) by (auto simp: sorted_wrt_append)
    qed simp
    with "2.IH"(2) "2.prems" False show ?thesis by auto
  qed
qed

lemma NewSortedDict_spec:
  assumes "sort_Slice fst srt"
  shows "dict_invar (NewSortedDict srt ts)" "map_of (d_terms (NewSortedDict srt ts)) = map_of (rev (srt ts))"
  using collapse_spec[of "[]" "srt ts"] assms by (simp_all add: sort_Slice_def dict_invar_def NewSortedDict_def)

lemma NewSortedDict_distinct:
  assumes "sort_Slice fst srt" "distinct (map fst ts)"
  shows "map_of (d_terms (NewSortedDict srt ts)) = map_of ts"
proof -
  have m: "mset (srt ts) = mset ts" using assms(1) by (simp add: sort_Slice_def)
  then have "distinct (map fst (srt ts))" using assms(2) by (metis mset_eq_imp_distinct_iff mset_map)
  then have "map_of (rev (srt ts)) = map_of ts"
    using assms(2) mset_eq_setD[OF m] by (simp add: map_of_inject_set rev_map[symmetric])
  with NewSortedDict_spec(2)[OF assms(1)] show ?thesis by simp
qed

text \<open>A strictly sorted listing is determined by its set of terms.\<close>

lemma sorted_terms_unique:
  assumes "sorted_wrt (<) (map fst xs)" "distinct (map fst ts)" "set xs = set (ts :: Term list)"
  shows "xs = sort_key fst ts"
proof -
  have "map fst xs = map fst (sort_key fst ts)"
    using assms by (intro sorted_distinct_set_unique) (auto simp: strict_sorted_iff distinct_map inj_on_def)
  moreover have "inj_on fst (set xs \<union> set (sort_key fst ts))" using assms by (simp add: distinct_map)
  ultimately show ?thesis by (metis map_inj_on)
qed

subsection \<open>Properties\<close>

text \<open>A dictionary built from distinct terms, with any sort that sorts, answers every lookup as the
  map of those terms, misses included, counts them, and a prefix scan visits exactly the terms
  with the prefix in ascending order, until the callback stops it.\<close>

theorem SortedDict_lookup_scan:
  assumes "sort_Slice fst srt" "distinct (map fst ts)"
  shows "Lookup (NewSortedDict srt ts) t = (case map_of ts t of Some e \<Rightarrow> (e, True) | None \<Rightarrow> (Entry_zero, False)) \<and>
    PrefixScan (NewSortedDict srt ts) p fn s = visit_all fn (filter (\<lambda>t. prefix p (fst t)) (sort_key fst ts)) s \<and>
    Dict_Len (NewSortedDict srt ts) = length ts"
proof -
  let ?d = "NewSortedDict srt ts"
  have inv: "dict_invar ?d" using NewSortedDict_spec[OF assms(1)] by simp
  have m: "map_of (d_terms ?d) = map_of ts" by (rule NewSortedDict_distinct[OF assms])
  then have "set (d_terms ?d) = set ts"
    using inv assms(2) by (simp add: map_of_inject_set dict_invar_def strict_sorted_iff)
  then have "d_terms ?d = sort_key fst ts"
    using inv assms(2) by (intro sorted_terms_unique) (simp_all add: dict_invar_def)
  then show ?thesis using sd.lookup[OF inv] sd.scan[OF inv] sd.len[OF inv] m by simp
qed

theorem SortedDict_lookup_scan_witness:
  "Lookup (NewSortedDict (sort_key fst) [(''b'', Entry_zero), (''a'', Entry_zero\<lparr>DocFreq := 3\<rparr>)]) ''a'' =
     (Entry_zero\<lparr>DocFreq := 3\<rparr>, True) \<and>
   PrefixScan (NewSortedDict (sort_key fst) [(''b'', Entry_zero), (''a'', Entry_zero\<lparr>DocFreq := 3\<rparr>)]) ''''
     (\<lambda>t e acc. (True, acc @ [t])) [] = [''a'', ''b'']"
  using SortedDict_lookup_scan[of "sort_key fst" "[(''b'', Entry_zero), (''a'', Entry_zero\<lparr>DocFreq := 3\<rparr>)]" "''a''"
      "''''" "\<lambda>t e acc. (True, acc @ [t])" "[]"]
  by (simp add: sort_Slice_def)

end
