(* ===== verification/GoBinary.thy ===== *)
theory GoBinary
  imports BitPack
begin

text \<open>
  The part of Go's \<open>encoding/binary\<close> the stores call: \<open>binary.Uvarint\<close> with its overflow rules
  (a count of 0 is a short buffer, a negative count an overflow). \<open>binary.AppendUvarint\<close> is the same
  loop as \<open>appendUvarint\<close>. A slice expression out of range panics, which is \<open>None\<close>.
\<close>

definition MaxVarintLen64 :: nat where "MaxVarintLen64 = 10"

fun binary_Uvarint_loop :: "u64 \<Rightarrow> nat \<Rightarrow> nat \<Rightarrow> bytes \<Rightarrow> u64 \<times> int" where
  "binary_Uvarint_loop x s i [] = (0, 0)"
| "binary_Uvarint_loop x s i (b # bs) =
     (if i = MaxVarintLen64 then (0, - (int i + 1))
      else if b < 0x80 then
        if i = MaxVarintLen64 - 1 \<and> b > 1 then (0, - (int i + 1))
        else (x OR push_bit s (ucast b), int i + 1)
      else binary_Uvarint_loop (x OR push_bit s (ucast (b AND 0x7f))) (s + 7) (i + 1) bs)"

definition binary_Uvarint :: "bytes \<Rightarrow> u64 \<times> int" where
  "binary_Uvarint buf = binary_Uvarint_loop 0 0 0 buf"

text \<open>\<open>buf[lo:]\<close> and \<open>buf[lo:hi]\<close> with integer bounds.\<close>

definition slice_from :: "'a list \<Rightarrow> int \<Rightarrow> 'a list option" where
  "slice_from buf lo = (if 0 \<le> lo \<and> lo \<le> int (length buf) then Some (drop (nat lo) buf) else None)"

definition slice :: "'a list \<Rightarrow> int \<Rightarrow> int \<Rightarrow> 'a list option" where
  "slice buf lo hi =
     (if 0 \<le> lo \<and> lo \<le> hi \<and> hi \<le> int (length buf) then Some (take (nat (hi - lo)) (drop (nat lo) buf)) else None)"

lemma binary_Uvarint_loop_eq:
  assumes "unat y * 2 ^ s < 2 ^ 64" "s = 7 * i" "i = 0 \<or> y \<noteq> 0"
  shows "binary_Uvarint_loop x s i (appendUvarint [] y @ rest) =
     apsnd int (readUvarint_loop x s i (appendUvarint [] y @ rest))"
  using assms
proof (induction "unat y" arbitrary: y x s i rule: less_induct)
  case less
  have "i < 10"
  proof (rule ccontr)
    assume "\<not> i < 10"
    then have "(2::nat) ^ 70 \<le> 2 ^ s" using less.prems(2) by (intro power_increasing) simp_all
    moreover have "1 \<le> unat y" using less.prems(3) \<open>\<not> i < 10\<close> by (simp add: unat_gt_0 Suc_le_eq)
    ultimately have "1 * (2::nat) ^ 70 \<le> unat y * 2 ^ s" by (intro mult_le_mono)
    with less.prems(1) show False by simp
  qed
  show ?case
  proof (cases "y \<ge> 0x80")
    case True
    then have y: "unat y \<ge> 128" by (simp add: word_le_nat_alt)
    have d: "unat (drop_bit 7 y) = unat y div 128" by (simp add: unat_drop_bit)
    have "unat (drop_bit 7 y) * 2 ^ (s + 7) = unat y div 128 * 128 * 2 ^ s" by (simp add: d power_add)
    also have "\<dots> \<le> unat y * 2 ^ s" by simp
    finally have fit: "unat (drop_bit 7 y) * 2 ^ (s + 7) < 2 ^ 64" using less.prems(1) by simp
    have "drop_bit 7 y \<noteq> 0" using d y by (metis div_greater_zero_iff unat_0 not_less_iff_gr_or_eq zero_less_numeral)
    with less.hyps[of "drop_bit 7 y" "s + 7" "i + 1"] fit less.prems(2) y True \<open>i < 10\<close> show ?thesis
      using continuation_byte(1)[of y] by (simp add: appendUvarint_step d MaxVarintLen64_def)
  next
    case False
    then have y: "unat y < 128" by (simp add: word_le_nat_alt)
    have b: "unat (ucast y :: byte) = unat y" using y by (simp add: unat_ucast_mod)
    have "\<not> (i = 9 \<and> (ucast y :: byte) > 1)"
    proof
      assume "i = 9 \<and> (ucast y :: byte) > 1"
      then have "2 \<le> unat y" "s = 63" using less.prems(2) by (simp_all add: word_less_nat_alt b)
      then have "2 * (2::nat) ^ 63 \<le> unat y * 2 ^ s" by (simp del: power_numeral)
      with less.prems(1) show False by simp
    qed
    moreover have "(ucast y :: byte) < 0x80" using y by (simp add: word_less_nat_alt b)
    ultimately show ?thesis using False \<open>i < 10\<close> by (simp add: appendUvarint_step MaxVarintLen64_def)
  qed
qed

lemma binary_Uvarint_append [codec]:
  "binary_Uvarint (appendUvarint [] y @ rest) = (y, int (length (appendUvarint [] y)))"
  using binary_Uvarint_loop_eq[of y 0 0 0 rest] read_appendUvarint[of y rest]
  by (simp add: binary_Uvarint_def readUvarint_def)

lemma slice_from_append [codec]: "slice_from (xs @ ys) (int (length xs)) = Some ys"
  by (simp add: slice_from_def)

lemma slice_append [codec]: "slice (xs @ ys @ zs) (int (length xs)) (int (length xs) + int (length ys)) = Some ys"
  by (simp add: slice_def)

end
