(* ===== verification/Forward.thy ===== *)
theory Forward
  imports GoBinary Types "HOL-Library.Monad_Syntax"
begin

text \<open>
  \<open>index/forward/forward.go\<close>: the stored-fields store. A \<open>Writer\<close> groups documents into chunks and
  seals a \<open>Store\<close>; \<open>Get\<close> finds the chunk by binary search, decompresses it and decodes the document.
  The codec is the locale \<open>chunk_codec\<close>, interpreted by the identity codec. Go strings are byte
  sequences. \<open>None\<close> as an outer result is a panic.
\<close>

record Document =
  URL :: bytes
  Title :: bytes
  Body :: bytes
  Norms :: "u16 list"

record Codec =
  Compress :: "bytes \<Rightarrow> bytes \<Rightarrow> bytes"
  Decompress :: "bytes \<Rightarrow> bytes \<Rightarrow> bytes option"

definition Identity :: Codec where
  "Identity = \<lparr>Compress = (\<lambda>dst src. dst @ src), Decompress = (\<lambda>dst src. Some (dst @ src))\<rparr>"

record chunkRef =
  ref_firstDoc :: DocID
  ref_offset :: nat
  rawLen :: nat
  ref_count :: nat

record Store =
  st_codec :: Codec
  st_data :: bytes
  st_chunks :: "chunkRef list"

record Writer =
  w_codec :: Codec
  chunkDocs :: nat
  w_data :: bytes
  w_chunks :: "chunkRef list"
  w_buf :: bytes
  bufFirst :: DocID
  bufCount :: nat
  nextDoc :: DocID
  started :: bool

definition DefaultChunkDocs :: nat where "DefaultChunkDocs = 16"

definition NewWriter :: "Codec \<Rightarrow> Writer" where
  "NewWriter codec = \<lparr>w_codec = codec, chunkDocs = DefaultChunkDocs, w_data = [], w_chunks = [], w_buf = [],
     bufFirst = 0, bufCount = 0, nextDoc = 0, started = False\<rparr>"

definition appendStr :: "bytes \<Rightarrow> bytes \<Rightarrow> bytes" where
  "appendStr dst s = appendUvarint dst (of_nat (length s)) @ s"

definition appendDoc :: "bytes \<Rightarrow> Document \<Rightarrow> bytes" where
  "appendDoc dst d =
     foldl (\<lambda>dst n. appendUvarint dst (ucast n))
       (appendStr (appendStr (appendStr dst (URL d)) (Title d)) (Body d)) (Norms d)"

text \<open>\<open>int(n)\<close> is the signed reading of the 64-bit length.\<close>

definition readStr :: "bytes \<Rightarrow> (bytes \<times> int) option" where
  "readStr src =
     (case binary_Uvarint src of (n, m) \<Rightarrow>
        map_option (\<lambda>s. (s, m + sint n)) (slice src m (m + sint n)))"

definition flush :: "Writer \<Rightarrow> Writer" where
  "flush w =
     (if bufCount w = 0 then w
      else let ref = \<lparr>ref_firstDoc = bufFirst w, ref_offset = length (w_data w), rawLen = length (w_buf w),
                      ref_count = bufCount w\<rparr>
           in w\<lparr>w_data := Compress (w_codec w) (w_data w) (w_buf w), w_chunks := w_chunks w @ [ref],
                w_buf := [], bufCount := 0\<rparr>)"

datatype forward_error = NotDense

definition Add :: "DocID \<Rightarrow> Document \<Rightarrow> Writer \<Rightarrow> forward_error + Writer" where
  "Add did doc w =
     (if started w \<and> did \<noteq> nextDoc w then Inl NotDense
      else let w = w\<lparr>started := True, nextDoc := did + 1\<rparr>;
               w = (if bufCount w = 0 then w\<lparr>bufFirst := did\<rparr> else w);
               w = w\<lparr>w_buf := appendDoc (w_buf w) doc, bufCount := bufCount w + 1\<rparr>
           in Inr (if bufCount w \<ge> chunkDocs w then flush w else w))"

definition Seal :: "Writer \<Rightarrow> Store" where
  "Seal w = (let w = flush w in \<lparr>st_codec = w_codec w, st_data = w_data w, st_chunks = w_chunks w\<rparr>)"

text \<open>One iteration of \<open>decodeNthDoc\<close>: the document at \<open>pos\<close> and the position after it.\<close>

fun read_norms :: "bytes \<Rightarrow> int \<Rightarrow> nat \<Rightarrow> (u16 list \<times> int) option" where
  "read_norms buf off 0 = Some ([], off)"
| "read_norms buf off (Suc k) =
     (case slice_from buf off of
        None \<Rightarrow> None
      | Some src \<Rightarrow>
          (case binary_Uvarint src of (v, m) \<Rightarrow>
             map_option (apfst ((#) (ucast v))) (read_norms buf (off + m) k)))"

definition read_doc :: "bytes \<Rightarrow> int \<Rightarrow> (Document \<times> int) option" where
  "read_doc buf pos =
     do {
       s1 \<leftarrow> slice_from buf pos; (url, p1) \<leftarrow> readStr s1;
       s2 \<leftarrow> slice_from buf (pos + p1); (title, p2) \<leftarrow> readStr s2;
       s3 \<leftarrow> slice_from buf (pos + p1 + p2); (body, p3) \<leftarrow> readStr s3;
       (norms, off) \<leftarrow> read_norms buf (pos + p1 + p2 + p3) NumFields;
       Some (\<lparr>URL = url, Title = title, Body = body, Norms = norms\<rparr>, off)
     }"

fun decodeNthDoc :: "bytes \<Rightarrow> int \<Rightarrow> nat \<Rightarrow> Document option option" where
  "decodeNthDoc buf pos 0 = map_option (\<lambda>(d, off). Some d) (read_doc buf pos)"
| "decodeNthDoc buf pos (Suc n) =
     (case read_doc buf pos of
        None \<Rightarrow> None
      | Some (d, off) \<Rightarrow> if off \<ge> int (length buf) then Some None else decodeNthDoc buf off n)"

definition Get :: "Store \<Rightarrow> DocID \<Rightarrow> Document option option" where
  "Get s did =
     (let i = sort_Search (length (st_chunks s)) (\<lambda>i. ref_firstDoc (st_chunks s ! i) > did)
      in if i = 0 then Some None
         else let ref = st_chunks s ! (i - 1)
              in if did \<ge> ref_firstDoc ref + of_nat (ref_count ref) then Some None
                 else let end_off = (if i < length (st_chunks s) then ref_offset (st_chunks s ! i) else length (st_data s))
                      in case slice (st_data s) (int (ref_offset ref)) (int end_off) of
                           None \<Rightarrow> None
                         | Some packed \<Rightarrow>
                             (case Decompress (st_codec s) [] packed of
                                None \<Rightarrow> Some None
                              | Some raw \<Rightarrow> decodeNthDoc raw 0 (unat (did - ref_firstDoc ref))))"

definition Store_Len :: "Store \<Rightarrow> nat" where
  "Store_Len s = foldl (\<lambda>n c. n + ref_count c) 0 (st_chunks s)"

text \<open>Adding documents under consecutive ids, as \<open>segment.Build\<close> does.\<close>

fun add_docs :: "nat \<Rightarrow> Document list \<Rightarrow> Writer \<Rightarrow> forward_error + Writer" where
  "add_docs i [] w = Inr w"
| "add_docs i (d # ds) w = (case Add (of_nat i) d w of Inl e \<Rightarrow> Inl e | Inr w' \<Rightarrow> add_docs (Suc i) ds w')"

subsection \<open>Documents\<close>

text \<open>A document the store can hold: four norms, and lengths that fit an \<open>int\<close>.\<close>

definition doc_ok :: "Document \<Rightarrow> bool" where
  "doc_ok d \<longleftrightarrow> length (Norms d) = NumFields \<and> length (URL d) < 2 ^ 63 \<and> length (Title d) < 2 ^ 63 \<and>
     length (Body d) < 2 ^ 63"

lemma appendStr_eq: "appendStr dst s = dst @ appendStr [] s"
  using appendUvarint_append[of dst] by (simp add: appendStr_def)

lemma foldl_norms: "foldl (\<lambda>dst n. appendUvarint dst (ucast n)) dst (ns :: u16 list) =
    dst @ concat (map (\<lambda>n. appendUvarint [] (ucast n)) ns)"
proof (induction ns arbitrary: dst)
  case (Cons n ns)
  then show ?case using appendUvarint_append[of dst "ucast n"] by simp
qed simp

lemma appendDoc_eq: "appendDoc dst d = dst @ appendDoc [] d"
  using appendStr_eq[of dst "URL d"] appendStr_eq[of "appendStr dst (URL d)" "Title d"]
    appendStr_eq[of "appendStr (appendStr dst (URL d)) (Title d)" "Body d"]
    appendStr_eq[of "appendStr [] (URL d)" "Title d"]
    appendStr_eq[of "appendStr (appendStr [] (URL d)) (Title d)" "Body d"]
  by (simp add: appendDoc_def foldl_norms)

lemma sint_of_nat_len: "n < 2 ^ 63 \<Longrightarrow> sint (of_nat n :: u64) = int n"
  by (simp add: signed_of_nat signed_take_bit_int_eq_self)

lemma readStr_appendStr [codec]:
  assumes "length s < 2 ^ 63"
  shows "readStr (appendStr [] s @ rest) = Some (s, int (length (appendStr [] s)))"
proof -
  let ?u = "appendUvarint [] (of_nat (length s))"
  have "binary_Uvarint (?u @ s @ rest) = (of_nat (length s), int (length ?u))" by (rule binary_Uvarint_append)
  moreover have "slice (?u @ s @ rest) (int (length ?u)) (int (length ?u) + int (length s)) = Some s"
    by (rule slice_append)
  ultimately show ?thesis using sint_of_nat_len[OF assms] by (simp add: readStr_def appendStr_def)
qed

lemma read_norms_append:
  "read_norms (pre @ concat (map (\<lambda>n. appendUvarint [] (ucast n)) ns) @ rest) (int (length pre)) (length ns) =
     Some (ns, int (length pre + length (concat (map (\<lambda>n. appendUvarint [] (ucast n)) ns))))" for ns :: "u16 list"
proof (induction ns arbitrary: pre)
  case (Cons n ns)
  let ?e = "appendUvarint [] (ucast n :: u64)"
  have "ucast (ucast n :: u64) = n" by (simp add: ucast_up_ucast_id is_up)
  then show ?case
    using Cons.IH[of "pre @ ?e"] slice_from_append[of pre] binary_Uvarint_append[of "ucast n"] by simp
qed simp

lemma read_doc_append:
  assumes "doc_ok d"
  shows "read_doc (pre @ appendDoc [] d @ rest) (int (length pre)) = Some (d, int (length pre + length (appendDoc [] d)))"
proof -
  let ?u = "appendStr [] (URL d)" and ?t = "appendStr [] (Title d)" and ?b = "appendStr [] (Body d)"
  let ?n = "concat (map (\<lambda>n. appendUvarint [] (ucast n)) (Norms d))"
  have enc: "appendDoc [] d = ?u @ ?t @ ?b @ ?n"
    using appendStr_eq[of ?u "Title d"] appendStr_eq[of "?u @ ?t" "Body d"] by (simp add: appendDoc_def foldl_norms)
  have "slice_from (pre @ appendDoc [] d @ rest) (int (length pre)) = Some (?u @ ?t @ ?b @ ?n @ rest)"
    "slice_from (pre @ appendDoc [] d @ rest) (int (length pre) + int (length ?u)) = Some (?t @ ?b @ ?n @ rest)"
    "slice_from (pre @ appendDoc [] d @ rest) (int (length pre) + int (length ?u) + int (length ?t)) = Some (?b @ ?n @ rest)"
    "read_norms (pre @ appendDoc [] d @ rest) (int (length pre) + int (length ?u) + int (length ?t) + int (length ?b)) NumFields
       = Some (Norms d, int (length pre + length (appendDoc [] d)))"
    using slice_from_append[of pre] slice_from_append[of "pre @ ?u"] slice_from_append[of "pre @ ?u @ ?t"]
      read_norms_append[of "pre @ ?u @ ?t @ ?b" "Norms d" rest] assms
    by (simp_all add: enc doc_ok_def add.assoc)
  then show ?thesis using assms by (simp add: read_doc_def readStr_appendStr doc_ok_def)
qed

abbreviation docs_bytes :: "Document list \<Rightarrow> bytes" where
  "docs_bytes ds \<equiv> concat (map (appendDoc []) ds)"

lemma appendUvarint_ne [simp]: "appendUvarint [] x \<noteq> []"
  by (cases "x \<ge> 0x80") (simp_all add: appendUvarint_step)

lemma appendDoc_ne [simp]: "appendDoc [] d \<noteq> []"
  using appendStr_eq[of "appendStr [] (URL d)"] appendStr_eq[of "appendStr (appendStr [] (URL d)) (Title d)"]
  by (simp add: appendDoc_def foldl_norms) (simp add: appendStr_def)

lemma decodeNthDoc_docs:
  assumes "n < length ds" "\<forall>d \<in> set ds. doc_ok d"
  shows "decodeNthDoc (pre @ docs_bytes ds) (int (length pre)) n = Some (Some (ds ! n))"
  using assms
proof (induction n arbitrary: pre ds)
  case 0
  then obtain d ds' where "ds = d # ds'" by (cases ds) auto
  with 0 show ?case using read_doc_append[of d pre "docs_bytes ds'"] by simp
next
  case (Suc n)
  then obtain d ds' where ds: "ds = d # ds'" by (cases ds) auto
  with Suc.prems obtain d' ds'' where ds': "ds' = d' # ds''" by (cases ds') auto
  have "length (docs_bytes ds') > 0" by (simp add: ds')
  with Suc ds show ?case
    using read_doc_append[of d pre "docs_bytes ds'"] Suc.IH[of ds' "pre @ appendDoc [] d"] by simp
qed

subsection \<open>The writer over any codec\<close>

text \<open>What the store relies on of a codec: compression appends, and decompression of what was
  appended gives the payload back.\<close>

locale chunk_codec =
  fixes codec :: Codec
  assumes compress_append: "Compress codec dst src = dst @ Compress codec [] src"
    and decompress: "Decompress codec dst (Compress codec [] src) = Some (dst @ src)"
begin

text \<open>The chunk index and data for a list of groups of documents.\<close>

fun refs :: "nat \<Rightarrow> nat \<Rightarrow> Document list list \<Rightarrow> chunkRef list" where
  "refs first off [] = []"
| "refs first off (g # gs) =
     \<lparr>ref_firstDoc = of_nat first, ref_offset = off, rawLen = length (docs_bytes g), ref_count = length g\<rparr> #
     refs (first + length g) (off + length (Compress codec [] (docs_bytes g))) gs"

abbreviation chunk_data :: "Document list list \<Rightarrow> bytes" where
  "chunk_data gs \<equiv> concat (map (\<lambda>g. Compress codec [] (docs_bytes g)) gs)"

lemma refs_append:
  "refs first off (gs @ hs) = refs first off gs @ refs (first + length (concat gs)) (off + length (chunk_data gs)) hs"
  by (induction gs arbitrary: first off) (simp_all add: add.assoc)

lemma length_refs [simp]: "length (refs first off gs) = length gs"
  by (induction gs arbitrary: first off) simp_all

definition writer_ok :: "nat \<Rightarrow> Document list list \<Rightarrow> Document list \<Rightarrow> Writer \<Rightarrow> bool" where
  "writer_ok base gs bs w \<longleftrightarrow>
     w_codec w = codec \<and> w_data w = chunk_data gs \<and> w_chunks w = refs base 0 gs \<and> [] \<notin> set gs \<and>
     w_buf w = docs_bytes bs \<and> bufCount w = length bs \<and>
     (bs \<noteq> [] \<longrightarrow> bufFirst w = of_nat (base + length (concat gs))) \<and>
     (gs \<noteq> [] \<or> bs \<noteq> [] \<longrightarrow> started w) \<and>
     (started w \<longrightarrow> nextDoc w = of_nat (base + length (concat gs @ bs)))"

lemma writer_ok_flush:
  assumes "writer_ok base gs bs w"
  shows "writer_ok base (if bs = [] then gs else gs @ [bs]) [] (flush w)"
  using assms compress_append[of "chunk_data gs"]
  by (auto simp: writer_ok_def flush_def Let_def refs_append)

lemma writer_ok_Add:
  assumes "writer_ok base gs bs w"
  obtains w' gs' bs' where "Add (of_nat (base + length (concat gs @ bs))) d w = Inr w'"
    "writer_ok base gs' bs' w'" "concat gs' @ bs' = concat gs @ bs @ [d]"
proof -
  let ?id = "of_nat (base + length (concat gs @ bs)) :: DocID"
  define w0 where "w0 = w\<lparr>started := True, nextDoc := ?id + 1\<rparr>"
  define w1 where "w1 = (if bufCount w = 0 then w0\<lparr>bufFirst := ?id\<rparr> else w0)\<lparr>w_buf := appendDoc (w_buf w) d, bufCount := bufCount w + 1\<rparr>"
  note w_defs = w0_def w1_def
  have ok: "writer_ok base gs (bs @ [d]) w1"
    using assms appendDoc_eq[of "docs_bytes bs" d] by (auto simp: writer_ok_def w_defs ac_simps)
  have "Add ?id d w = Inr (if bufCount w1 \<ge> chunkDocs w1 then flush w1 else w1)"
    using assms by (simp add: Add_def writer_ok_def w_defs Let_def)
  moreover have "writer_ok base (gs @ [bs @ [d]]) [] (flush w1)" using writer_ok_flush[OF ok] by simp
  ultimately show thesis using ok by (cases "bufCount w1 \<ge> chunkDocs w1") (force intro: that)+
qed

lemma add_docs_ok:
  assumes "writer_ok base gs bs w"
  obtains w' gs' bs' where "add_docs (base + length (concat gs @ bs)) ds w = Inr w'"
    "writer_ok base gs' bs' w'" "concat gs' @ bs' = concat gs @ bs @ ds"
  using assms
proof (induction ds arbitrary: gs bs w thesis)
  case Nil
  then show ?case by simp
next
  case (Cons d ds)
  obtain w1 gs1 bs1 where 1: "Add (of_nat (base + length (concat gs @ bs))) d w = Inr w1"
    "writer_ok base gs1 bs1 w1" "concat gs1 @ bs1 = concat gs @ bs @ [d]"
    using writer_ok_Add[OF Cons.prems(2)] .
  obtain w2 gs2 bs2 where 2: "add_docs (base + length (concat gs1 @ bs1)) ds w1 = Inr w2"
    "writer_ok base gs2 bs2 w2" "concat gs2 @ bs2 = concat gs1 @ bs1 @ ds"
    using Cons.IH[OF _ 1(2)] .
  have "concat gs2 @ bs2 = concat gs @ bs @ d # ds" using 1(3) 2(3) by (metis append.assoc append_Cons append_Nil)
  moreover have "add_docs (base + length (concat gs @ bs)) (d # ds) w = Inr w2"
    using 1(1) 2(1) unfolding 1(3) by simp
  ultimately show ?case using Cons.prems(1) 2(2) by blast
qed

lemma unat_refs:
  assumes "base + length (concat gs) < 2 ^ 32"
  shows "\<forall>c \<in> set (refs base off gs). base \<le> unat (ref_firstDoc c)"
  using assms
proof (induction gs arbitrary: base off)
  case (Cons g gs)
  then have "unat (of_nat base :: DocID) = base" by (simp add: unat_of_nat)
  with Cons.IH[of "base + length g"] Cons.prems show ?case by (fastforce simp: add.assoc)
qed simp

lemma refs_sorted:
  assumes "base + length (concat gs) < 2 ^ 32"
  shows "sorted_wrt (\<lambda>a b. ref_firstDoc a \<le> ref_firstDoc b) (refs base off gs)"
  using assms
proof (induction gs arbitrary: base off)
  case (Cons g gs)
  have "unat (of_nat base :: DocID) = base" using Cons.prems(1) by (simp add: unat_of_nat)
  with Cons unat_refs[of "base + length g" gs] show ?case
    by (fastforce simp: word_le_nat_alt add.assoc)
qed simp

text \<open>\<open>Get\<close> on a sealed store: the document at that position of what was written, or a miss.\<close>

lemma Get_refs:
  assumes "base + length (concat gs) < 2 ^ 32" "[] \<notin> set gs" "\<forall>d \<in> set (concat gs). doc_ok d"
  defines "s \<equiv> \<lparr>st_codec = codec, st_data = chunk_data gs, st_chunks = refs base 0 gs\<rparr>"
  shows "Get s did = Some (if base \<le> unat did \<and> unat did < base + length (concat gs)
                          then Some (concat gs ! (unat did - base)) else None)"
proof -
  have "sorted_wrt (\<lambda>x y. did < ref_firstDoc x \<longrightarrow> did < ref_firstDoc y) (refs base 0 gs)"
    using refs_sorted[OF assms(1)] by (rule sorted_wrt_mono_rel[rotated]) auto
  then obtain L R where LR: "refs base 0 gs = L @ R"
    "sort_Search (length (refs base 0 gs)) (\<lambda>i. did < ref_firstDoc (refs base 0 gs ! i)) = length L"
    "\<forall>c \<in> set L. \<not> did < ref_firstDoc c" "\<forall>c \<in> set R. did < ref_firstDoc c"
    by (rule sort_Search_partition)
  define gl gr where "gl = take (length L) gs" and "gr = drop (length L) gs"
  have gs: "gs = gl @ gr" by (simp add: gl_def gr_def)
  have "length L \<le> length gs" using arg_cong[OF LR(1), of length] by simp
  then have len: "length gl = length L" by (simp add: gl_def)
  let ?b = "base + length (concat gl)" and ?o = "length (chunk_data gl)"
  have L: "L = refs base 0 gl" and R: "R = refs ?b ?o gr"
    using LR(1) len unfolding gs refs_append by (simp_all add: append_eq_append_conv)
  have b: "?b < 2 ^ 32" using assms(1) by (simp add: gs)
  have past: "unat did < ?b" if ne: "gr \<noteq> []"
  proof -
    obtain g gr' where "gr = g # gr'" using ne by (cases gr) auto
    then have "did < of_nat ?b" using LR(4) R by simp
    then show ?thesis using b by (simp add: word_less_nat_alt unat_of_nat del: of_nat_add)
  qed
  show ?thesis
  proof (cases gl rule: rev_cases)
    case Nil
    then have "Get s did = Some None" using LR(2) len by (simp add: Get_def s_def)
    moreover have "\<not> (base \<le> unat did \<and> unat did < base + length (concat gs))"
      using past Nil gs by (cases gr) auto
    ultimately show ?thesis by simp
  next
    case (snoc gl' g)
    let ?f = "base + length (concat gl')" and ?p = "length (chunk_data gl')"
    let ?r = "\<lparr>ref_firstDoc = of_nat ?f, ref_offset = ?p, rawLen = length (docs_bytes g), ref_count = length g\<rparr>"
    have Lr: "L = refs base 0 gl' @ [?r]" using L snoc by (simp add: refs_append)
    have lenL: "length L = Suc (length gl')" using len snoc by simp
    have f: "unat (of_nat ?f :: DocID) = ?f" using b snoc by (simp add: unat_of_nat del: of_nat_add)
    have fd: "?f \<le> unat did" using LR(3) Lr f by (simp add: word_less_nat_alt)
    have sum: "unat (of_nat ?f + of_nat (length g) :: DocID) = ?b"
      using b snoc by (simp add: unat_of_nat add.assoc del: of_nat_add flip: of_nat_add)
    have ith: "refs base 0 gs ! (length L - 1) = ?r" using LR(1) Lr by (simp add: nth_append)
    have nxt: "(if length L < length gs then ref_offset (refs base 0 gs ! length L) else length (chunk_data gs)) = ?o"
    proof (cases gr)
      case (Cons h hs)
      then show ?thesis using LR(1) R len gs by (simp add: nth_append)
    qed (use len gs in simp)
    have dat: "chunk_data gs = chunk_data gl' @ Compress codec [] (docs_bytes g) @ chunk_data gr"
      using gs snoc by simp
    have sl: "slice (chunk_data gs) (int ?p) (int ?o) = Some (Compress codec [] (docs_bytes g))"
      using slice_append[of "chunk_data gl'" "Compress codec [] (docs_bytes g)" "chunk_data gr"] dat snoc by simp
    have get: "Get s did = (if did \<ge> of_nat ?f + of_nat (length g) then Some None
        else decodeNthDoc (docs_bytes g) 0 (unat (did - of_nat ?f)))"
      using LR(2) ith nxt[unfolded lenL] sl lenL
      by (cases "Suc (length gl') < length gs") (simp_all add: Get_def s_def decompress Let_def)
    show ?thesis
    proof (cases "unat did < ?b")
      case True
      then have lt: "unat did - ?f < length g" using snoc fd by simp
      have "unat (did - of_nat ?f) = unat did - ?f" using fd f by (simp add: unat_sub word_le_nat_alt)
      then have "Get s did = Some (Some (g ! (unat did - ?f)))"
        using get True sum decodeNthDoc_docs[OF lt, of "[]"] assms(3) gs snoc by (simp add: word_le_nat_alt)
      moreover have "concat gs ! (unat did - base) = g ! (unat did - ?f)"
        using lt fd by (simp add: gs snoc nth_append)
      moreover have "base \<le> unat did" "unat did < base + length (concat gs)" using True fd gs by simp_all
      ultimately show ?thesis by simp
    next
      case False
      then have "gr = []" using past by blast
      with False get sum gs show ?thesis by (simp add: word_le_nat_alt)
    qed
  qed
qed

lemma Len_refs: "Store_Len \<lparr>st_codec = codec, st_data = dat, st_chunks = refs base off gs\<rparr> = length (concat gs)"
proof -
  have "foldl (\<lambda>n c. n + ref_count c) k (refs base off gs) = k + length (concat gs)" for k
    by (induction gs arbitrary: k base off) simp_all
  then show ?thesis by (simp add: Store_Len_def)
qed

lemma write_read:
  assumes "base + length ds < 2 ^ 32" "\<forall>d \<in> set ds. doc_ok d"
  obtains w where "add_docs base ds (NewWriter codec) = Inr w" "Store_Len (Seal w) = length ds"
    "\<And>did. Get (Seal w) did = Some (if base \<le> unat did \<and> unat did < base + length ds
                          then Some (ds ! (unat did - base)) else None)"
proof -
  have "writer_ok base [] [] (NewWriter codec)" by (simp add: writer_ok_def NewWriter_def)
  then obtain w gs bs where w: "add_docs base ds (NewWriter codec) = Inr w" "writer_ok base gs bs w" "concat gs @ bs = ds"
    using add_docs_ok[where ds = ds and base = base and gs = "[]" and bs = "[]" and w = "NewWriter codec"] by auto
  define hs where "hs = (if bs = [] then gs else gs @ [bs])"
  have "writer_ok base hs [] (flush w)" using writer_ok_flush[OF w(2)] by (simp add: hs_def)
  then have s: "Seal w = \<lparr>st_codec = codec, st_data = chunk_data hs, st_chunks = refs base 0 hs\<rparr>" "[] \<notin> set hs"
    by (simp_all add: writer_ok_def Seal_def)
  have c: "concat hs = ds" using w(3) by (auto simp: hs_def)
  show thesis
  proof (rule that[OF w(1)])
    show "Store_Len (Seal w) = length ds" unfolding s(1) Len_refs c ..
    show "Get (Seal w) did = Some (if base \<le> unat did \<and> unat did < base + length ds
                          then Some (ds ! (unat did - base)) else None)" for did
      unfolding s(1) using Get_refs[of base hs did] s(2) assms c by simp
  qed
qed

end

interpretation identity: chunk_codec Identity
  by unfold_locales (simp_all add: Identity_def)

definition sample_doc :: Document where
  "sample_doc = \<lparr>URL = [104], Title = [], Body = [0, 255], Norms = [1, 0, 300, 2]\<rparr>"

subsection \<open>Properties\<close>

text \<open>Under any codec that keeps its contract, documents written under consecutive ids from
  \<open>base\<close> are sealed into a store whose \<open>Get\<close> returns each of them under its id and misses every other id,
  without a panic, and whose \<open>Len\<close> counts them. The ids must leave room for the end of the last
  chunk in 32 bits.\<close>

theorem forward_write_read:
  assumes "chunk_codec codec" "base + length ds < 2 ^ 32" "\<forall>d \<in> set ds. doc_ok d"
  shows "\<exists>w. add_docs base ds (NewWriter codec) = Inr w \<and> Store_Len (Seal w) = length ds \<and>
    (\<forall>did. Get (Seal w) did =
       Some (if base \<le> unat did \<and> unat did < base + length ds then Some (ds ! (unat did - base)) else None))"
  using chunk_codec.write_read[OF assms] by metis

theorem forward_write_read_witness:
  "\<exists>w. add_docs 7 [sample_doc] (NewWriter Identity) = Inr w \<and> Forward.Get (Seal w) 7 = Some (Some sample_doc) \<and>
    Forward.Get (Seal w) 8 = Some None"
  using forward_write_read[OF identity.chunk_codec_axioms, of 7 "[sample_doc]"]
  by (fastforce simp: sample_doc_def doc_ok_def NumFields_def)

end
