(* ===== verification/Segment.thy ===== *)
theory Segment
  imports Postings_Correct Terms Forward Bitset "HOL-Library.AList"
begin

text \<open>
  \<open>index/segment/segment.go\<close>: the immutable segment, its builder and the merge. A Go map is an
  association list with distinct keys, and the order in which a \<open>range\<close> loop visits it is an
  argument \<open>ord\<close> that may be any permutation. An outer \<open>None\<close> is a panic.
\<close>

record Segment =
  seg_id :: SegmentID
  seg_dict :: SortedDict
  seg_lists :: "PList list"
  seg_fwd :: Store
  seg_live :: bitset
  seg_numDocs :: nat

definition NumDocs :: "Segment \<Rightarrow> nat" where
  "NumDocs s = seg_numDocs s"

definition LiveDocs :: "Segment \<Rightarrow> nat" where
  "LiveDocs s = bs_count (seg_live s)"

definition Document_of :: "Segment \<Rightarrow> DocID \<Rightarrow> Document option option" where
  "Document_of s did = (if \<not> bs_get (seg_live s) (uint did) then Some None else Forward.Get (seg_fwd s) did)"

definition IsLive :: "Segment \<Rightarrow> DocID \<Rightarrow> bool" where
  "IsLive s did = bs_get (seg_live s) (uint did)"

definition Postings :: "Segment \<Rightarrow> string \<Rightarrow> (Cursor \<times> nat) option option" where
  "Postings s term =
     (case Lookup (seg_dict s) term of (e, ok) \<Rightarrow>
        if \<not> ok then Some None
        else if Singleton e then
          (case Encode [\<lparr>Doc = SingletonDoc e, Frequency = SingletonFreq e\<rparr>] of
             Inl _ \<Rightarrow> None
           | Inr l \<Rightarrow> Some (Some (List_Cursor l, 1)))
        else if PostingOffset e < length (seg_lists s)
          then Some (Some (List_Cursor (seg_lists s ! PostingOffset e), DocFreq e))
          else None)"

definition Delete :: "DocID \<Rightarrow> Segment \<Rightarrow> bool \<times> Segment" where
  "Delete did s =
     (if \<not> bs_get (seg_live s) (uint did) then (False, s)
      else (True, s\<lparr>seg_live := bs_clear (uint did) (seg_live s)\<rparr>))"

subsection \<open>The builder\<close>

record Builder =
  b_id :: SegmentID
  b_docs :: "Document list"
  b_terms :: "(string \<times> Posting list) list"
  b_next :: DocID

definition NewBuilder :: "SegmentID \<Rightarrow> Builder" where
  "NewBuilder sid = \<lparr>b_id = sid, b_docs = [], b_terms = [], b_next = 0\<rparr>"

text \<open>A missing key of a Go map reads as the zero value, the empty slice.\<close>

definition map_get :: "('k \<times> 'v list) list \<Rightarrow> 'k \<Rightarrow> 'v list" where
  "map_get m k = (case map_of m k of Some v \<Rightarrow> v | None \<Rightarrow> [])"

fun add_terms :: "DocID \<Rightarrow> (string \<times> u32) list \<Rightarrow> (string \<times> Posting list) list \<Rightarrow> (string \<times> Posting list) list" where
  "add_terms did [] m = m"
| "add_terms did ((term, f) # tf) m =
     (if f = 0 then add_terms did tf m
      else add_terms did tf (AList.update term (map_get m term @ [\<lparr>Doc = did, Frequency = f\<rparr>]) m))"

definition AddDocument ::
  "((string \<times> u32) list \<Rightarrow> (string \<times> u32) list) \<Rightarrow> Document \<Rightarrow> (string \<times> u32) list \<Rightarrow> Builder \<Rightarrow> DocID \<times> Builder" where
  "AddDocument ord doc termFreqs b =
     (b_next b, b\<lparr>b_next := b_next b + 1, b_docs := b_docs b @ [doc],
                  b_terms := add_terms (b_next b) (ord termFreqs) (b_terms b)\<rparr>)"

datatype build_error = EncodeFailed encode_error | ForwardFailed forward_error

fun build_terms :: "(string \<times> Posting list) list \<Rightarrow> Term list \<Rightarrow> PList list \<Rightarrow> build_error + Term list \<times> PList list" where
  "build_terms [] termList pls = Inr (termList, pls)"
| "build_terms ((term, ps) # m) termList pls =
     (let e = Entry_zero\<lparr>DocFreq := length ps\<rparr>
      in if length ps = 1 then
           build_terms m (termList @ [(term, e\<lparr>Singleton := True, SingletonDoc := Doc (ps ! 0),
             SingletonFreq := Frequency (ps ! 0)\<rparr>)]) pls
         else case Encode ps of
                Inl err \<Rightarrow> Inl (EncodeFailed err)
              | Inr l \<Rightarrow> build_terms m (termList @ [(term, e\<lparr>PostingOffset := length pls\<rparr>)]) (pls @ [l]))"

definition Build ::
  "((string \<times> Posting list) list \<Rightarrow> (string \<times> Posting list) list) \<Rightarrow> (Term list \<Rightarrow> Term list) \<Rightarrow> Builder \<Rightarrow> build_error + Segment" where
  "Build ord srt b =
     (case build_terms (ord (b_terms b)) [] [] of
        Inl err \<Rightarrow> Inl err
      | Inr (termList, pls) \<Rightarrow>
          (case add_docs 0 (b_docs b) (NewWriter Identity) of
             Inl err \<Rightarrow> Inl (ForwardFailed err)
           | Inr fw \<Rightarrow>
               Inr \<lparr>seg_id = b_id b, seg_dict = NewSortedDict srt termList, seg_lists = pls, seg_fwd = Seal fw,
                    seg_live = setAll (newBitset (length (b_docs b))), seg_numDocs = length (b_docs b)\<rparr>))"

subsection \<open>The merge\<close>

text \<open>\<open>visit\<close> of \<open>collectTerms\<close>: record the term's frequency for every live document of its list.\<close>

type_synonym perDoc = "(DocID \<times> (string \<times> u32) list) list"

fun visit_postings :: "Segment \<Rightarrow> string \<Rightarrow> Posting list \<Rightarrow> perDoc \<Rightarrow> perDoc" where
  "visit_postings s term [] out = out"
| "visit_postings s term (p # ps) out =
     (if \<not> bs_get (seg_live s) (uint (Doc p)) then visit_postings s term ps out
      else visit_postings s term ps
             (AList.update (Doc p) (AList.update term (Frequency p) (map_get out (Doc p))) out))"

fun collect_loop :: "Segment \<Rightarrow> string list \<Rightarrow> perDoc \<Rightarrow> perDoc option" where
  "collect_loop s [] out = Some out"
| "collect_loop s (term # ts) out =
     (case Postings s term of
        None \<Rightarrow> None
      | Some None \<Rightarrow> collect_loop s ts out
      | Some (Some (c, _)) \<Rightarrow>
          (case drain_cursor c of
             None \<Rightarrow> None
           | Some ps \<Rightarrow> collect_loop s ts (visit_postings s term ps out)))"

definition collectTerms :: "Segment \<Rightarrow> perDoc \<Rightarrow> perDoc option" where
  "collectTerms s out =
     (let allTerms = PrefixScan (seg_dict s) '''' (\<lambda>term _ acc. (True, acc @ [term])) []
      in collect_loop s (sort allTerms) out)"

text \<open>The inner loop of \<open>Merge\<close> over the old ids of one segment.\<close>

fun merge_docs ::
  "((string \<times> u32) list \<Rightarrow> (string \<times> u32) list) \<Rightarrow> Segment \<Rightarrow> perDoc \<Rightarrow> nat list \<Rightarrow> Builder \<Rightarrow> Builder option" where
  "merge_docs ord s pd [] b = Some b"
| "merge_docs ord s pd (old # olds) b =
     (if \<not> bs_get (seg_live s) (int old) then merge_docs ord s pd olds b
      else case Forward.Get (seg_fwd s) (of_nat old) of
             None \<Rightarrow> None
           | Some None \<Rightarrow> merge_docs ord s pd olds b
           | Some (Some doc) \<Rightarrow> merge_docs ord s pd olds (snd (AddDocument ord doc (map_get pd (of_nat old)) b)))"

fun merge_segs ::
  "((string \<times> u32) list \<Rightarrow> (string \<times> u32) list) \<Rightarrow> Segment list \<Rightarrow> Builder \<Rightarrow> Builder option" where
  "merge_segs ord [] b = Some b"
| "merge_segs ord (s # segs) b =
     (case collectTerms s [] of
        None \<Rightarrow> None
      | Some pd \<Rightarrow>
          (case merge_docs ord s pd [0..<unat (of_nat (seg_numDocs s) :: DocID)] b of
             None \<Rightarrow> None
           | Some b' \<Rightarrow> merge_segs ord segs b'))"

definition Merge ::
  "((string \<times> u32) list \<Rightarrow> (string \<times> u32) list) \<Rightarrow> ((string \<times> Posting list) list \<Rightarrow> (string \<times> Posting list) list) \<Rightarrow>
   (Term list \<Rightarrow> Term list) \<Rightarrow> SegmentID \<Rightarrow> Segment list \<Rightarrow> (build_error + Segment) option" where
  "Merge ord ord' srt newID segs = map_option (Build ord' srt) (merge_segs ord segs (NewBuilder newID))"

subsection \<open>What a segment holds\<close>

text \<open>The documents of a segment, in id order, each with its term frequencies.\<close>

type_synonym indexed = "Document \<times> (string \<rightharpoonup> u32)"

fun plist_from :: "nat \<Rightarrow> indexed list \<Rightarrow> string \<Rightarrow> Posting list" where
  "plist_from i [] t = []"
| "plist_from i ((d, m) # ds) t =
     (case m t of Some f \<Rightarrow> [\<lparr>Doc = of_nat i, Frequency = f\<rparr>] | None \<Rightarrow> []) @ plist_from (Suc i) ds t"

abbreviation plist :: "indexed list \<Rightarrow> string \<Rightarrow> Posting list" where
  "plist \<equiv> plist_from 0"

text \<open>Term frequencies as the builder records them: zero frequencies are dropped.\<close>

definition nonzero :: "(string \<times> u32) list \<Rightarrow> (string \<rightharpoonup> u32)" where
  "nonzero tf t = (case map_of tf t of Some f \<Rightarrow> if f = 0 then None else Some f | None \<Rightarrow> None)"

definition permutes :: "('a list \<Rightarrow> 'a list) \<Rightarrow> bool" where
  "permutes ord \<longleftrightarrow> (\<forall>xs. mset (ord xs) = mset xs)"

text \<open>The dictionary entry of a posting list, against the table of encoded lists.\<close>

definition entry_ok :: "PList list \<Rightarrow> Posting list \<Rightarrow> Entry \<Rightarrow> bool" where
  "entry_ok pls ps e \<longleftrightarrow> DocFreq e = length ps \<and>
     (if length ps = 1 then Singleton e \<and> SingletonDoc e = Doc (hd ps) \<and> SingletonFreq e = Frequency (hd ps)
      else \<not> Singleton e \<and> PostingOffset e < length pls \<and> Encode ps = Inr (pls ! PostingOffset e))"

definition indexed_ok :: "indexed \<Rightarrow> bool" where
  "indexed_ok d \<longleftrightarrow> doc_ok (fst d) \<and> (\<forall>t. snd d t \<noteq> Some 0)"

definition seg_ok :: "indexed list \<Rightarrow> Segment \<Rightarrow> bool" where
  "seg_ok ds s \<longleftrightarrow> length ds < 2 ^ 32 \<and> seg_numDocs s = length ds \<and>
     (\<forall>did. Forward.Get (seg_fwd s) did = Some (if unat did < length ds then Some (fst (ds ! unat did)) else None)) \<and>
     dict_invar (seg_dict s) \<and>
     (\<forall>t. case Lookup (seg_dict s) t of (e, ok) \<Rightarrow>
        ok = (plist ds t \<noteq> []) \<and> (ok \<longrightarrow> entry_ok (seg_lists s) (plist ds t) e)) \<and>
     bs_ok (seg_live s) \<and> bs_n (seg_live s) = length ds \<and> (\<forall>d \<in> set ds. indexed_ok d)"

definition live_docs :: "indexed list \<Rightarrow> Segment \<Rightarrow> indexed list" where
  "live_docs ds s = map (\<lambda>i. ds ! i) (filter (\<lambda>i. bs_get (seg_live s) (int i)) [0..<length ds])"

definition builder_ok :: "indexed list \<Rightarrow> Builder \<Rightarrow> bool" where
  "builder_ok ds b \<longleftrightarrow> b_docs b = map fst ds \<and> b_next b = of_nat (length ds) \<and> distinct (map fst (b_terms b)) \<and>
     (\<forall>t. map_of (b_terms b) t = (if plist ds t = [] then None else Some (plist ds t)))"

lemma plist_from_append: "plist_from i (ds @ es) t = plist_from i ds t @ plist_from (i + length ds) es t"
  by (induction ds arbitrary: i) (auto split: option.splits)

lemma plist_from_docs:
  assumes "i + length ds \<le> 2 ^ 32"
  shows "doc_sorted (plist_from i ds t)" "\<forall>p \<in> set (plist_from i ds t). i \<le> unat (Doc p)"
proof -
  have "doc_sorted (plist_from i ds t) \<and> (\<forall>p \<in> set (plist_from i ds t). i \<le> unat (Doc p))"
    using assms
  proof (induction ds arbitrary: i)
    case (Cons d ds)
    obtain x m where d: "d = (x, m)" by (cases d)
    have "unat (of_nat i :: DocID) = i" using Cons.prems by (simp add: unat_of_nat)
    with Cons.IH[of "Suc i"] Cons.prems show ?case
      by (auto simp: d word_less_nat_alt Suc_le_eq split: option.splits dest: less_imp_le)
  qed simp
  then show "doc_sorted (plist_from i ds t)" "\<forall>p \<in> set (plist_from i ds t). i \<le> unat (Doc p)" by simp_all
qed

subsection \<open>Building\<close>

lemma nonzero_Cons: "nonzero ((t, f) # tf) = (nonzero tf)(t := (if f = 0 then None else Some f))"
  by (simp add: nonzero_def fun_eq_iff)

lemma nonzero_fresh: "t \<notin> fst ` set tf \<Longrightarrow> nonzero tf t = None"
  using map_of_eq_None_iff[of tf t] by (simp add: nonzero_def)

lemma add_terms_spec:
  assumes "distinct (map fst tf)" "distinct (map fst m)"
  shows "distinct (map fst (add_terms did tf m)) \<and> map_of (add_terms did tf m) t =
    (case nonzero tf t of Some f \<Rightarrow> Some (map_get m t @ [\<lparr>Doc = did, Frequency = f\<rparr>]) | None \<Rightarrow> map_of m t)"
  using assms
proof (induction tf arbitrary: m)
  case Nil
  then show ?case by (simp add: nonzero_def)
next
  case (Cons a tf)
  obtain u f where a: "a = (u, f)" by (cases a)
  have fresh: "nonzero tf u = None" using Cons.prems(1) by (intro nonzero_fresh) (auto simp: a)
  show ?case
  proof (cases "f = 0")
    case True
    with Cons fresh show ?thesis by (simp add: a nonzero_Cons)
  next
    case False
    let ?m = "AList.update u (map_get m u @ [\<lparr>Doc = did, Frequency = f\<rparr>]) m"
    have "distinct (map fst ?m)" using Cons.prems(2) by (simp add: distinct_update)
    moreover have "map_of ?m = (map_of m)(u \<mapsto> map_get m u @ [\<lparr>Doc = did, Frequency = f\<rparr>])"
      by (simp add: update_conv')
    moreover from this have "map_get ?m t = (if t = u then map_get m u @ [\<lparr>Doc = did, Frequency = f\<rparr>] else map_get m t)"
      by (simp add: map_get_def)
    ultimately show ?thesis
      using Cons.IH[of ?m] Cons.prems(1) False fresh by (auto simp: a nonzero_Cons split: option.splits)
  qed
qed

lemma map_of_permuted:
  assumes "permutes ord" "distinct (map fst xs)"
  shows "map_of (ord xs) = map_of xs" "distinct (map fst (ord xs))"
proof -
  have m: "mset (ord xs) = mset xs" using assms(1) by (simp add: permutes_def)
  then show d: "distinct (map fst (ord xs))" using assms(2) by (metis mset_eq_imp_distinct_iff mset_map)
  then show "map_of (ord xs) = map_of xs" using assms(2) mset_eq_setD[OF m] by (simp add: map_of_inject_set)
qed

lemma builder_ok_get: "builder_ok ds b \<Longrightarrow> map_get (b_terms b) t = plist ds t"
  by (simp add: builder_ok_def map_get_def)

lemma builder_ok_New: "builder_ok [] (NewBuilder sid)"
  by (simp add: builder_ok_def NewBuilder_def)

lemma builder_ok_AddDocument:
  assumes "builder_ok ds b" "permutes ord" "distinct (map fst tf)"
  shows "builder_ok (ds @ [(doc, nonzero tf)]) (snd (AddDocument ord doc tf b))"
    and "fst (AddDocument ord doc tf b) = of_nat (length ds)"
proof -
  have "nonzero (ord tf) = nonzero tf" using map_of_permuted[OF assms(2,3)] by (simp add: nonzero_def fun_eq_iff)
  moreover have "distinct (map fst (b_terms b))" using assms(1) by (simp add: builder_ok_def)
  ultimately show "builder_ok (ds @ [(doc, nonzero tf)]) (snd (AddDocument ord doc tf b))"
    using assms(1) add_terms_spec[OF map_of_permuted(2)[OF assms(2,3)], of "b_terms b" "b_next b"] builder_ok_get[OF assms(1)]
    by (auto simp: builder_ok_def AddDocument_def plist_from_append split: option.splits)
  show "fst (AddDocument ord doc tf b) = of_nat (length ds)"
    using assms(1) by (simp add: builder_ok_def AddDocument_def)
qed

lemma Posting_eta [simp]: "\<lparr>Doc = Doc p, Frequency = Frequency p\<rparr> = p" for p :: Posting
  by (cases p) simp

lemma entry_ok_append: "entry_ok pls ps e \<Longrightarrow> entry_ok (pls @ qs) ps e"
  by (auto simp: entry_ok_def nth_append)

lemma Encode_sorted: "doc_sorted ps \<Longrightarrow> \<exists>l. Encode ps = Inr l"
  by (simp add: Encode_def strictly_ascending_iff)

lemma build_terms_spec:
  assumes "\<forall>(t, ps) \<in> set m. doc_sorted ps"
  shows "\<exists>ts ls. build_terms m termList pls = Inr (termList @ ts, pls @ ls) \<and> map fst ts = map fst m \<and>
     (\<forall>i < length m. entry_ok (pls @ ls) (snd (m ! i)) (snd (ts ! i)))"
  using assms
proof (induction m arbitrary: termList pls)
  case (Cons a m)
  obtain t ps where a: "a = (t, ps)" by (cases a)
  have srt: "doc_sorted ps" "\<forall>(t, ps) \<in> set m. doc_sorted ps" using Cons.prems by (auto simp: a)
  obtain e pls' where step: "build_terms (a # m) termList pls = build_terms m (termList @ [(t, e)]) (pls @ pls')"
    and e: "entry_ok (pls @ pls') ps e"
  proof (cases "length ps = 1")
    case True
    then obtain q where "ps = [q]" by (auto simp: length_Suc_conv)
    then show thesis by (intro that[of _ "[]"]) (auto simp: a Let_def entry_ok_def Entry_zero_def)
  next
    case False
    obtain l where "Encode ps = Inr l" using Encode_sorted[OF srt(1)] by blast
    with False show thesis by (intro that[of _ "[l]"]) (auto simp: a Let_def entry_ok_def Entry_zero_def)
  qed
  from Cons.IH[OF srt(2), of "termList @ [(t, e)]" "pls @ pls'"] obtain ts ls where
    IH: "build_terms m (termList @ [(t, e)]) (pls @ pls') = Inr ((termList @ [(t, e)]) @ ts, (pls @ pls') @ ls)"
      "map fst ts = map fst m" "\<forall>i < length m. entry_ok ((pls @ pls') @ ls) (snd (m ! i)) (snd (ts ! i))" by blast
  have "entry_ok (pls @ pls' @ ls) (snd ((a # m) ! i)) (snd (((t, e) # ts) ! i))" if "i < length (a # m)" for i
    using that IH(3) entry_ok_append[OF e, of ls] by (cases i) (simp_all add: a)
  then show ?case
    using IH(1,2) step by (intro exI[of _ "(t, e) # ts"] exI[of _ "pls' @ ls"]) (simp add: a)
qed simp

lemma map_of_zip_entries:
  assumes "map fst ts = map fst m" "distinct (map fst m)" "\<forall>i < length m. P (snd (m ! i)) (snd (ts ! i))"
  shows "case map_of m t of None \<Rightarrow> map_of ts t = None | Some ps \<Rightarrow> \<exists>e. map_of ts t = Some e \<and> P ps e"
proof (cases "map_of m t")
  case None
  moreover have "fst ` set ts = fst ` set m" using assms(1) by (metis list.set_map)
  ultimately have "map_of ts t = None" by (simp add: map_of_eq_None_iff)
  with None show ?thesis by simp
next
  case (Some ps)
  then have "(t, ps) \<in> set m" by (rule map_of_SomeD)
  then obtain i where i: "i < length m" "m ! i = (t, ps)" by (auto simp: in_set_conv_nth)
  have len: "length ts = length m" using assms(1) by (metis length_map)
  have "fst (ts ! i) = t" using assms(1) i len by (metis fst_conv nth_map)
  then have "(t, snd (ts ! i)) \<in> set ts" using i len by (metis nth_mem prod.collapse)
  moreover have "distinct (map fst ts)" using assms(1,2) by simp
  ultimately have "map_of ts t = Some (snd (ts ! i))" by simp
  with Some assms(3) i show ?thesis by auto
qed

lemma Build_spec:
  assumes "builder_ok ds b" "length ds < 2 ^ 32" "\<forall>d \<in> set ds. indexed_ok d" "permutes ord" "sort_Slice fst srt"
  shows "\<exists>s. Build ord srt b = Inr s \<and> seg_ok ds s \<and> live_docs ds s = ds \<and> seg_id s = b_id b"
proof -
  let ?m = "ord (b_terms b)"
  have dist: "distinct (map fst (b_terms b))" using assms(1) by (simp add: builder_ok_def)
  note perm = map_of_permuted[OF assms(4) dist]
  have "ps = plist ds t" if "(t, ps) \<in> set ?m" for t ps
    using that perm assms(1) map_of_is_SomeI[OF perm(2) that] by (simp add: builder_ok_def split: if_splits)
  then have "\<forall>(t, ps) \<in> set ?m. doc_sorted ps" using plist_from_docs(1)[of 0 ds] assms(2) by auto
  from build_terms_spec[OF this, of "[]" "[]"] obtain ts ls where
    bt: "build_terms ?m [] [] = Inr (ts, ls)" "map fst ts = map fst ?m"
      "\<forall>i < length ?m. entry_ok ls (snd (?m ! i)) (snd (ts ! i))" by auto
  note look = map_of_zip_entries[OF bt(2) perm(2) bt(3)]
  have "\<forall>d \<in> set (b_docs b). doc_ok d" using assms(1,3) by (auto simp: builder_ok_def indexed_ok_def)
  moreover have "0 + length (b_docs b) < 2 ^ 32" using assms(1,2) by (simp add: builder_ok_def)
  ultimately obtain fw where fw: "add_docs 0 (b_docs b) (NewWriter Identity) = Inr fw"
    "\<And>did. Forward.Get (Seal fw) did = Some (if 0 \<le> unat did \<and> unat did < 0 + length (b_docs b)
        then Some (b_docs b ! (unat did - 0)) else None)"
    using identity.write_read[of 0 "b_docs b"] by metis
  let ?d = "NewSortedDict srt ts"
  have inv: "dict_invar ?d" using NewSortedDict_spec(1)[OF assms(5)] .
  have "distinct (map fst ts)" using bt(2) perm(2) by simp
  then have md: "map_of (d_terms ?d) = map_of ts" using NewSortedDict_distinct[OF assms(5)] by blast
  define s where "s = \<lparr>seg_id = b_id b, seg_dict = ?d, seg_lists = ls, seg_fwd = Seal fw,
      seg_live = setAll (newBitset (length (b_docs b))), seg_numDocs = length (b_docs b)\<rparr>"
  have "case Lookup ?d t of (e, ok) \<Rightarrow> ok = (plist ds t \<noteq> []) \<and> (ok \<longrightarrow> entry_ok ls (plist ds t) e)" for t
    using look[of t] perm(1) assms(1) by (auto simp: sd.lookup[OF inv] md builder_ok_def split: option.splits if_splits)
  then have "seg_ok ds s"
    using assms(1,2,3) fw(2) inv setAll_ok by (auto simp: seg_ok_def s_def builder_ok_def)
  moreover have "live_docs ds s = ds"
    using assms(1) setAll_ok(3)[of "length ds"]
    by (simp add: live_docs_def s_def builder_ok_def) (metis (no_types, lifting) atLeastLessThan_iff filter_True map_nth set_upt)
  moreover have "Build ord srt b = Inr s" using bt(1) fw(1) by (simp add: Build_def s_def)
  ultimately show ?thesis by (auto simp: s_def)
qed

lemma seg_ok_Lookup:
  assumes "seg_ok ds s" "Lookup (seg_dict s) t = (e, ok)"
  shows "ok \<longleftrightarrow> plist ds t \<noteq> []" "ok \<Longrightarrow> entry_ok (seg_lists s) (plist ds t) e"
proof -
  have "case Lookup (seg_dict s) t of (e, ok) \<Rightarrow> ok = (plist ds t \<noteq> []) \<and> (ok \<longrightarrow> entry_ok (seg_lists s) (plist ds t) e)"
    using assms(1) by (simp add: seg_ok_def)
  with assms(2) show "ok \<longleftrightarrow> plist ds t \<noteq> []" "ok \<Longrightarrow> entry_ok (seg_lists s) (plist ds t) e" by simp_all
qed

text \<open>\<open>Postings\<close> gives a cursor over exactly the term's postings, and their number.\<close>

lemma Postings_spec:
  assumes "seg_ok ds s"
  shows "\<exists>l. (plist ds t \<noteq> [] \<longrightarrow> Encode (plist ds t) = Inr l) \<and>
    Postings s t = Some (if plist ds t = [] then None else Some (List_Cursor l, length (plist ds t)))"
proof -
  obtain e ok where l: "Lookup (seg_dict s) t = (e, ok)" by (cases "Lookup (seg_dict s) t")
  note ok = seg_ok_Lookup[OF assms l]
  show ?thesis
  proof (cases "plist ds t = []")
    case True
    with l ok show ?thesis by (simp add: Postings_def)
  next
    case False
    with ok have e: "entry_ok (seg_lists s) (plist ds t) e" by simp
    show ?thesis
    proof (cases "length (plist ds t) = 1")
      case True
      then obtain p where p: "plist ds t = [p]" by (metis One_nat_def length_0_conv length_Suc_conv)
      have "\<lparr>Doc = SingletonDoc e, Frequency = SingletonFreq e\<rparr> = p" using e p by (simp add: entry_ok_def)
      moreover obtain l where "Encode [p] = Inr l" using Encode_sorted[of "[p]"] by auto
      ultimately show ?thesis using l ok False p e by (auto simp: Postings_def entry_ok_def)
    next
      case F: False
      with e l ok False show ?thesis by (auto simp: Postings_def entry_ok_def)
    qed
  qed
qed

lemma drain_Encode: "Encode ps = Inr l \<Longrightarrow> drain_cursor (List_Cursor l) = Some ps"
  using drain_Cursor[OF Encode_ok(1)] by simp

subsection \<open>Merging\<close>

text \<open>A posting list read as a map from documents to frequencies.\<close>

abbreviation freq_of :: "Posting list \<Rightarrow> DocID \<rightharpoonup> u32" where
  "freq_of ps \<equiv> map_of (map (\<lambda>p. (Doc p, Frequency p)) ps)"

lemma freq_of_plist:
  assumes "i + length ds \<le> 2 ^ 32"
  shows "freq_of (plist_from i ds t) did =
    (if i \<le> unat did \<and> unat did < i + length ds then snd (ds ! (unat did - i)) t else None)"
  using assms
proof (induction ds arbitrary: i)
  case (Cons d ds)
  obtain x m where d: "d = (x, m)" by (cases d)
  have i: "unat (of_nat i :: DocID) = i" using Cons.prems by (simp add: unat_of_nat)
  then have eq: "did = of_nat i \<longleftrightarrow> unat did = i" by (metis word_unat_eq_iff)
  show ?case
  proof (cases "unat did = i")
    case True
    with eq Cons show ?thesis by (auto simp: d split: option.splits)
  next
    case False
    then have "i \<le> unat did \<Longrightarrow> unat did - i = Suc (unat did - Suc i)" by simp
    with False eq Cons.IH[of "Suc i"] Cons.prems show ?thesis by (auto simp: d split: option.splits)
  qed
qed auto

lemma map_get_update: "map_get (AList.update k v m) j = (if j = k then v else map_get m j)"
  by (simp add: map_get_def update_conv')

lemma visit_postings_spec:
  assumes "distinct (map Doc ps)" "\<forall>d. distinct (map fst (map_get out d))"
  shows "(\<forall>d. distinct (map fst (map_get (visit_postings s u ps out) d))) \<and>
    map_of (map_get (visit_postings s u ps out) did) t =
     (if t = u \<and> bs_get (seg_live s) (uint did) \<and> freq_of ps did \<noteq> None then freq_of ps did
      else map_of (map_get out did) t)"
  using assms
proof (induction ps arbitrary: out)
  case (Cons p ps)
  have fresh: "freq_of ps (Doc p) = None"
    using Cons.prems(1) by (auto simp: map_of_eq_None_iff)
  show ?case
  proof (cases "bs_get (seg_live s) (uint (Doc p))")
    case True
    let ?o = "AList.update (Doc p) (AList.update u (Frequency p) (map_get out (Doc p))) out"
    have "\<forall>d. distinct (map fst (map_get ?o d))"
      using Cons.prems(2) by (simp add: map_get_update distinct_update)
    with Cons.IH[of ?o] Cons.prems(1) True fresh show ?thesis
      by (auto simp: map_get_update update_conv')
  next
    case False
    with Cons fresh show ?thesis by auto
  qed
qed simp

lemma doc_sorted_distinct: "doc_sorted ps \<Longrightarrow> distinct (map Doc ps)"
  by (rule distinct_map_ascending)

lemma collect_loop_spec:
  assumes "seg_ok ds s" "\<forall>d. distinct (map fst (map_get out d))"
  shows "\<exists>out'. collect_loop s ts out = Some out' \<and> (\<forall>d. distinct (map fst (map_get out' d))) \<and>
    (\<forall>did t. map_of (map_get out' did) t =
       (if t \<in> set ts \<and> bs_get (seg_live s) (uint did) \<and> freq_of (plist ds t) did \<noteq> None then freq_of (plist ds t) did
        else map_of (map_get out did) t))"
  using assms(2)
proof (induction ts arbitrary: out)
  case (Cons u ts)
  obtain l where l: "plist ds u \<noteq> [] \<longrightarrow> Encode (plist ds u) = Inr l"
    "Postings s u = Some (if plist ds u = [] then None else Some (List_Cursor l, length (plist ds u)))"
    using Postings_spec[OF assms(1)] by blast
  have "distinct (map Doc (plist ds u))"
    using plist_from_docs(1)[of 0 ds u] assms(1) by (intro doc_sorted_distinct) (simp add: seg_ok_def)
  note v = visit_postings_spec[OF this Cons.prems, of s u]
  have "collect_loop s (u # ts) out = collect_loop s ts (visit_postings s u (plist ds u) out)"
    using l drain_Encode by auto
  moreover from Cons.IH[of "visit_postings s u (plist ds u) out"] v obtain out' where
    "collect_loop s ts (visit_postings s u (plist ds u) out) = Some out'" "\<forall>d. distinct (map fst (map_get out' d))"
    "\<forall>did t. map_of (map_get out' did) t =
       (if t \<in> set ts \<and> bs_get (seg_live s) (uint did) \<and> freq_of (plist ds t) did \<noteq> None then freq_of (plist ds t) did
        else map_of (map_get (visit_postings s u (plist ds u) out) did) t)" by blast
  ultimately show ?case using v by auto
qed simp

lemma collectTerms_spec:
  assumes "seg_ok ds s"
  shows "\<exists>pd. collectTerms s [] = Some pd \<and> (\<forall>d. distinct (map fst (map_get pd d))) \<and>
    (\<forall>did. map_of (map_get pd did) =
       (if bs_get (seg_live s) (uint did) \<and> unat did < length ds then snd (ds ! unat did) else Map.empty))"
proof -
  have inv: "dict_invar (seg_dict s)" and len: "length ds < 2 ^ 32" and bs: "bs_n (seg_live s) = length ds"
    using assms by (simp_all add: seg_ok_def)
  have v: "visit_all (\<lambda>term _ acc. (True, acc @ [term])) ts acc = acc @ map fst ts" for ts :: "Term list" and acc
    by (induction ts arbitrary: acc) simp_all
  have all: "PrefixScan (seg_dict s) '''' (\<lambda>term _ acc. (True, acc @ [term])) [] = map fst (d_terms (seg_dict s))"
    by (simp add: sd.scan[OF inv] v)
  have known: "t \<in> fst ` set (d_terms (seg_dict s)) \<longleftrightarrow> plist ds t \<noteq> []" for t
    using sd.lookup_hit[OF inv, of t] seg_ok_Lookup(1)[OF assms, of t] by (metis prod.collapse)
  obtain pd where pd: "collect_loop s (sort (map fst (d_terms (seg_dict s)))) [] = Some pd"
    "\<forall>d. distinct (map fst (map_get pd d))"
    "\<And>did t. map_of (map_get pd did) t =
       (if plist ds t \<noteq> [] \<and> bs_get (seg_live s) (uint did) \<and> freq_of (plist ds t) did \<noteq> None then freq_of (plist ds t) did
        else map_of (map_get [] did) t)"
    using collect_loop_spec[OF assms, of "[]" "sort (map fst (d_terms (seg_dict s)))"] known by (auto simp: map_get_def)
  have "map_of (map_get pd did) t =
     (if bs_get (seg_live s) (uint did) \<and> unat did < length ds then snd (ds ! unat did) t else None)" for did t
  proof -
    have "freq_of (plist ds t) did = (if unat did < length ds then snd (ds ! unat did) t else None)"
      using freq_of_plist[of 0 ds t did] len by simp
    moreover have "map_get ([] :: perDoc) did = []" by (simp add: map_get_def)
    moreover have "freq_of (plist ds t) did \<noteq> None \<Longrightarrow> plist ds t \<noteq> []" by auto
    ultimately show ?thesis unfolding pd(3) by auto
  qed
  then show ?thesis using pd(1,2) all by (auto simp: collectTerms_def fun_eq_iff)
qed

lemma merge_docs_spec:
  assumes "seg_ok ds s" "permutes ord" "\<forall>d. distinct (map fst (map_get pd d))"
    and "\<forall>did. map_of (map_get pd did) =
       (if bs_get (seg_live s) (uint did) \<and> unat did < length ds then snd (ds ! unat did) else Map.empty)"
    and "builder_ok es b" "\<forall>i \<in> set olds. i < length ds"
  shows "\<exists>b'. merge_docs ord s pd olds b = Some b' \<and> b_id b' = b_id b \<and>
     builder_ok (es @ map (\<lambda>i. ds ! i) (filter (\<lambda>i. bs_get (seg_live s) (int i)) olds)) b'"
  using assms(5,6)
proof (induction olds arbitrary: es b)
  case (Cons i olds)
  show ?case
  proof (cases "bs_get (seg_live s) (int i)")
    case True
    let ?tf = "map_get pd (of_nat i)"
    have i: "i < length ds" "length ds < 2 ^ 32" using Cons.prems assms(1) by (simp_all add: seg_ok_def)
    then have u: "unat (of_nat i :: DocID) = i" by (simp add: unat_of_nat)
    then have ui: "uint (of_nat i :: DocID) = int i" by (metis uint_nat)
    have "map_of ?tf = snd (ds ! i)" using assms(4) True i u ui by simp
    moreover have "indexed_ok (ds ! i)" using assms(1) i by (simp add: seg_ok_def)
    ultimately have nz: "(fst (ds ! i), nonzero ?tf) = ds ! i"
      by (auto simp: nonzero_def fun_eq_iff indexed_ok_def prod_eq_iff split: option.splits)
    have get: "Forward.Get (seg_fwd s) (of_nat i) = Some (Some (fst (ds ! i)))"
      using assms(1) i u by (simp add: seg_ok_def)
    let ?b = "snd (AddDocument ord (fst (ds ! i)) ?tf b)"
    have "builder_ok (es @ [ds ! i]) ?b"
      using builder_ok_AddDocument(1)[OF Cons.prems(1) assms(2), of ?tf "fst (ds ! i)"] assms(3) nz by simp
    from Cons.IH[OF this] Cons.prems True get show ?thesis by (auto simp: AddDocument_def)
  next
    case False
    with Cons show ?thesis by simp
  qed
qed simp

lemma merge_segs_spec:
  assumes "permutes ord" "list_all2 seg_ok dss segs" "builder_ok es b"
  shows "\<exists>b'. merge_segs ord segs b = Some b' \<and> b_id b' = b_id b \<and>
    builder_ok (es @ concat (map2 live_docs dss segs)) b'"
  using assms(2,3)
proof (induction dss segs arbitrary: es b rule: list_all2_induct)
  case (Cons ds dss s segs)
  obtain pd where pd: "collectTerms s [] = Some pd" "\<forall>d. distinct (map fst (map_get pd d))"
    "\<forall>did. map_of (map_get pd did) =
       (if bs_get (seg_live s) (uint did) \<and> unat did < length ds then snd (ds ! unat did) else Map.empty)"
    using collectTerms_spec[OF Cons.hyps(1)] by blast
  have n: "unat (of_nat (seg_numDocs s) :: DocID) = length ds"
    using Cons.hyps(1) by (simp add: seg_ok_def unat_of_nat)
  obtain b1 where b1: "merge_docs ord s pd [0..<length ds] b = Some b1" "b_id b1 = b_id b"
    "builder_ok (es @ live_docs ds s) b1"
    using merge_docs_spec[OF Cons.hyps(1) assms(1) pd(2,3) Cons.prems, of "[0..<length ds]"] by (auto simp: live_docs_def)
  from Cons.IH[OF b1(3)] b1 pd(1) n show ?case by auto
qed simp

lemma Merge_spec:
  assumes "permutes ord" "permutes ord'" "sort_Slice fst srt" "list_all2 seg_ok dss segs"
    and "length (concat (map2 live_docs dss segs)) < 2 ^ 32"
  defines "ds \<equiv> concat (map2 live_docs dss segs)"
  shows "\<exists>s. Merge ord ord' srt sid segs = Some (Inr s) \<and> seg_ok ds s \<and> live_docs ds s = ds \<and> seg_id s = sid"
proof -
  obtain b where b: "merge_segs ord segs (NewBuilder sid) = Some b" "b_id b = sid" "builder_ok ds b"
    using merge_segs_spec[OF assms(1,4) builder_ok_New[of sid]] by (auto simp: ds_def NewBuilder_def)
  have "indexed_ok d" if d: "d \<in> set ds" for d
  proof -
    obtain ds' s where "(ds', s) \<in> set (zip dss segs)" "d \<in> set (live_docs ds' s)" using d by (auto simp: ds_def)
    moreover from this(1) have "seg_ok ds' s" using assms(4) by (auto simp: list_all2_iff)
    ultimately show ?thesis by (auto simp: live_docs_def seg_ok_def)
  qed
  then show ?thesis using Build_spec[OF b(3) _ _ assms(2,3)] b(1,2) assms(5) by (auto simp: Merge_def ds_def)
qed

text \<open>Deleting clears one live bit and nothing else.\<close>

lemma Delete_spec:
  assumes "seg_ok ds s"
  shows "fst (Delete did s) = IsLive s did" "seg_ok ds (snd (Delete did s))"
    "IsLive (snd (Delete did s)) d \<longleftrightarrow> IsLive s d \<and> d \<noteq> did"
proof -
  show "fst (Delete did s) = IsLive s did" by (simp add: Delete_def IsLive_def)
  show "seg_ok ds (snd (Delete did s))" using assms by (auto simp: Delete_def seg_ok_def bs_ok_clear)
  show "IsLive (snd (Delete did s)) d \<longleftrightarrow> IsLive s d \<and> d \<noteq> did"
  proof (cases "bs_get (seg_live s) (uint did)")
    case True
    have "bs_get (bs_clear (uint did) (seg_live s)) (uint d) \<longleftrightarrow> bs_get (seg_live s) (uint d) \<and> unat d \<noteq> unat did"
      unfolding uint_nat using assms by (intro bs_get_clear) (simp add: seg_ok_def)
    with True show ?thesis by (simp add: Delete_def IsLive_def word_unat_eq_iff)
  qed (auto simp: Delete_def IsLive_def)
qed

lemma LiveDocs_length: "seg_ok ds s \<Longrightarrow> LiveDocs s = length (live_docs ds s)"
  by (simp add: LiveDocs_def live_docs_def seg_ok_def bs_count_card)

lemma length_filter_remove:
  assumes "distinct xs" "k \<in> set xs" "P k"
  shows "length (filter P xs) = length (filter (\<lambda>i. P i \<and> i \<noteq> k) xs) + 1"
  using assms
proof (induction xs)
  case (Cons x xs)
  show ?case
  proof (cases "x = k")
    case True
    with Cons.prems have "filter (\<lambda>i. P i \<and> i \<noteq> k) xs = filter P xs" by (intro filter_cong) auto
    with True Cons.prems show ?thesis by simp
  next
    case False
    with Cons show ?thesis by simp
  qed
qed simp

lemma IsLive_nat: "IsLive s did \<longleftrightarrow> bs_get (seg_live s) (int (unat did))"
  by (simp only: IsLive_def uint_nat)

lemma live_less: "seg_ok ds s \<Longrightarrow> IsLive s did \<Longrightarrow> unat did < length ds"
  unfolding IsLive_nat bs_get_nat by (simp add: seg_ok_def)

lemma LiveDocs_Delete:
  assumes "seg_ok ds s"
  shows "LiveDocs s = LiveDocs (snd (Delete did s)) + (if IsLive s did then 1 else 0)"
proof (cases "IsLive s did")
  case True
  let ?P = "\<lambda>i. bs_get (seg_live s) (int i)"
  have k: "?P (unat did)" "unat did < length ds"
    using True IsLive_nat[of s did] live_less[OF assms, of did] by simp_all
  have b: "bs_ok (seg_live s)" "bs_n (seg_live s) = length ds" using assms by (simp_all add: seg_ok_def)
  have "LiveDocs (snd (Delete did s)) = length (filter (\<lambda>i. ?P i \<and> i \<noteq> unat did) [0..<length ds])"
    using True b bs_get_clear[OF b(1), of "unat did"]
    by (simp add: LiveDocs_def Delete_def IsLive_def bs_count_card bs_ok_clear)
  moreover have "LiveDocs s = length (filter ?P [0..<length ds])" using b by (simp add: LiveDocs_def bs_count_card)
  ultimately show ?thesis using True length_filter_remove[of "[0..<length ds]" "unat did" ?P] k by simp
qed (simp add: Delete_def IsLive_def)

subsection \<open>Observations\<close>

text \<open>What a reader sees of a term: the whole posting list its cursor walks.\<close>

definition term_postings :: "Segment \<Rightarrow> string \<Rightarrow> Posting list option" where
  "term_postings s t =
     (case Postings s t of
        None \<Rightarrow> None
      | Some None \<Rightarrow> Some []
      | Some (Some (c, df)) \<Rightarrow> drain_cursor c)"

definition build_index ::
  "((string \<times> u32) list \<Rightarrow> (string \<times> u32) list) \<Rightarrow> SegmentID \<Rightarrow> (Document \<times> (string \<times> u32) list) list \<Rightarrow> Builder" where
  "build_index ord sid xs = fold (\<lambda>(doc, tf) b. snd (AddDocument ord doc tf b)) xs (NewBuilder sid)"

lemma term_postings_ok: "seg_ok ds s \<Longrightarrow> term_postings s t = Some (plist ds t)"
  using Postings_spec[of ds s t] drain_Encode by (auto simp: term_postings_def)

lemma Document_of_ok:
  assumes "seg_ok ds s"
  shows "Document_of s did = Some (if IsLive s did then Some (fst (ds ! unat did)) else None)"
  using live_less[OF assms, of did] assms by (simp add: Document_of_def IsLive_def seg_ok_def)

lemma build_index_ok:
  assumes "permutes ord" "\<forall>x \<in> set xs. distinct (map fst (snd x))"
  shows "builder_ok (map (apsnd nonzero) xs) (build_index ord sid xs)"
  using assms(2)
proof (induction xs rule: rev_induct)
  case Nil
  then show ?case by (simp add: build_index_def builder_ok_New)
next
  case (snoc x xs)
  obtain doc tf where x: "x = (doc, tf)" by (cases x)
  have "build_index ord sid (xs @ [x]) = snd (AddDocument ord doc tf (build_index ord sid xs))"
    by (simp add: build_index_def x)
  with snoc x show ?case using builder_ok_AddDocument(1)[OF _ assms(1), of "map (apsnd nonzero) xs"] by simp
qed

lemma indexed_ok_nonzero: "doc_ok (fst x) \<Longrightarrow> indexed_ok (apsnd nonzero x)"
  by (cases x) (auto simp: indexed_ok_def nonzero_def split: option.splits)

lemma Build_index_ok:
  assumes "permutes ord" "permutes ord'" "sort_Slice fst srt" "length xs < 2 ^ 32"
    and "\<forall>x \<in> set xs. doc_ok (fst x) \<and> distinct (map fst (snd x))"
  shows "\<exists>s. Build ord' srt (build_index ord sid xs) = Inr s \<and> seg_ok (map (apsnd nonzero) xs) s \<and>
    live_docs (map (apsnd nonzero) xs) s = map (apsnd nonzero) xs"
  using Build_spec[OF build_index_ok[OF assms(1)] _ _ assms(2,3), of xs sid] assms(4,5) indexed_ok_nonzero by auto

lemma all_live:
  assumes "seg_ok ds s" "live_docs ds s = ds"
  shows "IsLive s did \<longleftrightarrow> unat did < length ds"
proof -
  have "length (filter (\<lambda>i. bs_get (seg_live s) (int i)) [0..<length ds]) = length [0..<length ds]"
    using arg_cong[OF assms(2), of length] by (simp add: live_docs_def)
  then have "bs_get (seg_live s) (int i)" if "i < length ds" for i
    using that length_filter_less[of i "[0..<length ds]" "\<lambda>i. bs_get (seg_live s) (int i)"] by auto
  then show ?thesis using live_less[OF assms(1), of did] IsLive_nat[of s did] by blast
qed

subsection \<open>Properties\<close>

text \<open>C4: Whatever order the map loops take and however the terms are sorted, a segment built from a
  list of documents has for every term exactly the postings of the documents that contain it with a
  nonzero frequency, in id order, returns each document under its position, and is entirely live.\<close>

theorem Build_index_correct:
  assumes "permutes ord" "permutes ord'" "sort_Slice fst srt" "length xs < 2 ^ 32"
    and "\<forall>x \<in> set xs. doc_ok (fst x) \<and> distinct (map fst (snd x))"
  shows "\<exists>s. Build ord' srt (build_index ord sid xs) = Inr s \<and>
    (\<forall>t. term_postings s t = Some (plist (map (apsnd nonzero) xs) t)) \<and>
    (\<forall>did. Document_of s did = Some (if unat did < length xs then Some (fst (xs ! unat did)) else None)) \<and>
    LiveDocs s = length xs"
proof -
  let ?ds = "map (apsnd nonzero) xs"
  obtain s where s: "Build ord' srt (build_index ord sid xs) = Inr s" "seg_ok ?ds s" "live_docs ?ds s = ?ds"
    using Build_index_ok[OF assms] by blast
  have "LiveDocs s = length xs" using LiveDocs_length[OF s(2)] s(3) by simp
  then show ?thesis
    using s(1) by (intro exI[of _ s])
      (simp add: term_postings_ok[OF s(2)] Document_of_ok[OF s(2)] all_live[OF s(2,3)])
qed

definition sample_index :: "(Document \<times> (string \<times> u32) list) list" where
  "sample_index = [(sample_doc, [(''go'', 2), (''the'', 0)]), (sample_doc, [(''go'', 1), (''web'', 3)])]"

lemma sample_index_ok: "\<forall>x \<in> set sample_index. doc_ok (fst x) \<and> distinct (map fst (snd x))" "length sample_index < 2 ^ 32"
  by (simp_all add: sample_index_def sample_doc_def doc_ok_def NumFields_def)

lemma sample_orders: "permutes (\<lambda>xs. xs)" "permutes rev" "sort_Slice fst (sort_key fst)"
  by (simp_all add: permutes_def sort_Slice_def)

theorem Build_index_correct_witness:
  "\<exists>s. Build rev (sort_key fst) (build_index (\<lambda>xs. xs) 1 sample_index) = Inr s \<and>
    term_postings s ''go'' = Some [\<lparr>Doc = 0, Frequency = 2\<rparr>, \<lparr>Doc = 1, Frequency = 1\<rparr>] \<and>
    term_postings s ''the'' = Some [] \<and> LiveDocs s = 2"
proof -
  have "plist (map (apsnd nonzero) sample_index) ''go'' = [\<lparr>Doc = 0, Frequency = 2\<rparr>, \<lparr>Doc = 1, Frequency = 1\<rparr>]"
    "plist (map (apsnd nonzero) sample_index) ''the'' = []" "length sample_index = 2"
    by (simp_all add: sample_index_def nonzero_def)
  then show ?thesis
    using Build_index_correct[OF sample_orders(1,2,3) sample_index_ok(2,1), of 1] by auto
qed

text \<open>C3: Merging segments keeps exactly their live documents, in order, under fresh dense ids: the merged
  segment has for every term the postings of the concatenated live documents, all of them live.\<close>

theorem Merge_live_documents:
  assumes "permutes ord" "permutes ord'" "sort_Slice fst srt" "list_all2 seg_ok dss segs"
    and "length (concat (map2 live_docs dss segs)) < 2 ^ 32"
  shows "\<exists>s. Merge ord ord' srt sid segs = Some (Inr s) \<and>
    (\<forall>t. term_postings s t = Some (plist (concat (map2 live_docs dss segs)) t)) \<and>
    (\<forall>did. Document_of s did = Some (if unat did < length (concat (map2 live_docs dss segs))
        then Some (fst (concat (map2 live_docs dss segs) ! unat did)) else None)) \<and>
    LiveDocs s = sum_list (map LiveDocs segs)"
proof -
  let ?ds = "concat (map2 live_docs dss segs)"
  obtain s where s: "Merge ord ord' srt sid segs = Some (Inr s)" "seg_ok ?ds s" "live_docs ?ds s = ?ds"
    using Merge_spec[OF assms] by blast
  have "length ?ds = sum_list (map LiveDocs segs)"
    using assms(4) by (induction rule: list_all2_induct) (simp_all add: LiveDocs_length)
  then have "LiveDocs s = sum_list (map LiveDocs segs)" using LiveDocs_length[OF s(2)] s(3) by simp
  then show ?thesis
    using s(1) by (intro exI[of _ s])
      (simp add: term_postings_ok[OF s(2)] Document_of_ok[OF s(2)] all_live[OF s(2,3)])
qed

theorem Merge_live_documents_witness:
  "\<exists>s1 s. Build rev (sort_key fst) (build_index (\<lambda>xs. xs) 1 sample_index) = Inr s1 \<and>
     Merge (\<lambda>xs. xs) rev (sort_key fst) 9 [snd (Delete 0 s1), s1] = Some (Inr s) \<and>
     LiveDocs s = LiveDocs (snd (Delete 0 s1)) + LiveDocs s1"
proof -
  let ?ds = "map (apsnd nonzero) sample_index"
  obtain s1 where s1: "Build rev (sort_key fst) (build_index (\<lambda>xs. xs) 1 sample_index) = Inr s1" "seg_ok ?ds s1"
    using Build_index_ok[OF sample_orders(1,2,3) sample_index_ok(2,1)] by blast
  have ok: "list_all2 seg_ok [?ds, ?ds] [snd (Delete 0 s1), s1]" using s1(2) Delete_spec(2)[OF s1(2)] by simp
  have "length (live_docs ?ds s') \<le> 2" for s'
    by (simp add: live_docs_def sample_index_def)
  then have "length (concat (map2 live_docs [?ds, ?ds] [snd (Delete 0 s1), s1])) \<le> 4"
    by (simp add: add_le_mono[of _ 2 _ 2, simplified])
  then have "length (concat (map2 live_docs [?ds, ?ds] [snd (Delete 0 s1), s1])) < 2 ^ 32" by simp
  from Merge_live_documents[OF sample_orders(1,2,3) ok this, of 9] s1(1) show ?thesis by auto
qed

text \<open>\<open>Delete\<close> reports whether the document was live, makes exactly it unreadable, and leaves the
  postings untouched; the live count drops by one exactly when it was live.\<close>

theorem Delete_one_document:
  assumes "seg_ok ds s"
  shows "fst (Delete did s) = IsLive s did \<and>
    (\<forall>d. Document_of (snd (Delete did s)) d = (if d = did then Some None else Document_of s d)) \<and>
    (\<forall>t. term_postings (snd (Delete did s)) t = term_postings s t) \<and>
    LiveDocs s = LiveDocs (snd (Delete did s)) + (if IsLive s did then 1 else 0)"
proof -
  note D = Delete_spec[OF assms, of did]
  have "Document_of (snd (Delete did s)) d = (if d = did then Some None else Document_of s d)" for d
    using D(3)[of d] Document_of_ok[OF D(2), of d] Document_of_ok[OF assms, of d] by simp
  then show ?thesis
    using D(1) term_postings_ok[OF D(2)] term_postings_ok[OF assms] LiveDocs_Delete[OF assms] by simp
qed

theorem Delete_one_document_witness:
  "\<exists>s. Build rev (sort_key fst) (build_index (\<lambda>xs. xs) 1 sample_index) = Inr s \<and>
     fst (Delete 1 s) = IsLive s 1 \<and> Document_of (snd (Delete 1 s)) 1 = Some None"
proof -
  obtain s where s: "Build rev (sort_key fst) (build_index (\<lambda>xs. xs) 1 sample_index) = Inr s"
    "seg_ok (map (apsnd nonzero) sample_index) s"
    using Build_index_ok[OF sample_orders(1,2,3) sample_index_ok(2,1)] by blast
  with Delete_one_document[OF s(2), of 1] show ?thesis by auto
qed

end
