(* ===== verification/BM25F.thy ===== *)
theory BM25F
  imports WandState Complex_Main
begin

text \<open>
  \<open>rank/bm25f\<close>: the fielded BM25 scorer and the adapter that drives the first-stage retrieval. Scores are
  real numbers where the code computes in \<open>float32\<close> and \<open>float64\<close>; the per-field arrays are lists of length
  \<open>NumFields\<close>. Indexing the weights with a field outside the array panics, which is \<open>None\<close>.
\<close>

definition DefaultK1 :: real where "DefaultK1 = 1.2"

definition DefaultB :: real where "DefaultB = 0.75"

record Params =
  K1 :: real
  B :: "real list"
  Weights :: "real list"

definition DefaultParams :: Params where
  "DefaultParams = \<lparr>K1 = DefaultK1, B = replicate NumFields DefaultB, Weights = [1, 3, 2, 1.5]\<rparr>"

record Collection =
  N :: int
  AvgFieldLen :: "real list"

definition IDF :: "Collection \<Rightarrow> int \<Rightarrow> real" where
  "IDF c df =
     (let df = (if df > N c then N c else df);
          df = (if df < 0 then 0 else df);
          num = real_of_int (N c) - real_of_int df + 0.5;
          den = real_of_int df + 0.5
      in ln (1 + num / den))"

record Scorer =
  params :: Params
  col :: Collection

definition New :: "Params \<Rightarrow> Collection \<Rightarrow> Scorer" where
  "New p c = \<lparr>params = p, col = c\<lparr>AvgFieldLen := map (\<lambda>a. if a \<le> 0 then 1 else a) (AvgFieldLen c)\<rparr>\<rparr>"

definition field_norm :: "Scorer \<Rightarrow> nat \<Rightarrow> u32 \<Rightarrow> real" where
  "field_norm s f len =
     (let b = B (params s) ! f;
          bNorm = (1 - b) + b * real (unat len) / AvgFieldLen (col s) ! f
      in if bNorm \<le> 0 then 1 else bNorm)"

definition pseudoFreq :: "Scorer \<Rightarrow> u32 list \<Rightarrow> u32 list \<Rightarrow> real" where
  "pseudoFreq s tf fieldLen =
     foldl (\<lambda>eff f. if tf ! f = 0 \<or> Weights (params s) ! f = 0 then eff
        else eff + Weights (params s) ! f * real (unat (tf ! f)) / field_norm s f (fieldLen ! f)) 0 [0..<NumFields]"

definition saturate :: "Scorer \<Rightarrow> real \<Rightarrow> real \<Rightarrow> real" where
  "saturate s idf eff =
     (if eff \<le> 0 then 0 else let k1 = K1 (params s) in idf * eff * (k1 + 1) / (k1 + eff))"

definition ScoreTerm :: "Scorer \<Rightarrow> real \<Rightarrow> u32 list \<Rightarrow> u32 list \<Rightarrow> real" where
  "ScoreTerm s idf tf fieldLen = saturate s idf (pseudoFreq s tf fieldLen)"

record TermStats =
  ts_IDF :: real
  ts_TF :: "u32 list"

definition Score_doc :: "Scorer \<Rightarrow> TermStats list \<Rightarrow> u32 list \<Rightarrow> real" where
  "Score_doc s terms fieldLen =
     foldl (\<lambda>total t. total + saturate s (ts_IDF t) (pseudoFreq s (ts_TF t) fieldLen)) 0 terms"

subsection \<open>The first-stage scorer\<close>

record WANDScorer =
  ws_idf :: real
  ws_weight :: real
  ws_k1 :: real

definition NewWANDScorer :: "Params \<Rightarrow> real \<Rightarrow> Field \<Rightarrow> WANDScorer option" where
  "NewWANDScorer p idf field =
     (if unat field < length (Weights p)
      then Some \<lparr>ws_idf = idf, ws_weight = Weights p ! unat field, ws_k1 = K1 p\<rparr> else None)"

definition wand_score :: "WANDScorer \<Rightarrow> u32 \<Rightarrow> real" where
  "wand_score w freq =
     (if freq = 0 \<or> ws_weight w = 0 then 0
      else let eff = ws_weight w * real (unat freq)
           in ws_idf w * eff * (ws_k1 w + 1) / (ws_k1 w + eff))"

definition WANDScorer_Score :: "WANDScorer \<Rightarrow> u32 \<Rightarrow> real" where
  "WANDScorer_Score w freq = wand_score w freq"

definition WANDScorer_MaxScore :: "WANDScorer \<Rightarrow> u32 \<Rightarrow> real" where
  "WANDScorer_MaxScore w mf = wand_score w mf"

text \<open>The scorer behind the interface of the search package.\<close>

definition search_Scorer :: "WANDScorer \<Rightarrow> real Search.Scorer" where
  "search_Scorer w = \<lparr>Search.Scorer.Score = WANDScorer_Score w, MaxScore = WANDScorer_MaxScore w\<rparr>"

subsection \<open>Inverse document frequency and saturation\<close>

definition clamp_df :: "Collection \<Rightarrow> int \<Rightarrow> int" where
  "clamp_df c df = max 0 (min df (N c))"

lemma IDF_eq: "0 \<le> N c \<Longrightarrow> IDF c df = ln (1 + (N c - clamp_df c df + 0.5) / (clamp_df c df + 0.5))"
  by (auto simp: IDF_def clamp_df_def Let_def)

lemma IDF_pos:
  assumes "0 \<le> N c"
  shows "0 < IDF c df"
proof -
  have "0 < (N c - clamp_df c df + 0.5) / (clamp_df c df + 0.5)"
    using assms by (intro divide_pos_pos) (auto simp: clamp_df_def)
  then show ?thesis unfolding IDF_eq[OF assms] by (simp add: ln_gt_zero)
qed

lemma IDF_antimono:
  assumes "0 \<le> N c" "df \<le> df'"
  shows "IDF c df' \<le> IDF c df"
proof -
  let ?a = "clamp_df c df" and ?b = "clamp_df c df'"
  have ab: "0 \<le> ?a" "?a \<le> ?b" "?b \<le> N c" using assms by (auto simp: clamp_df_def)
  have "(N c - ?b + 0.5) / (?b + 0.5) \<le> (N c - ?a + 0.5) / (?a + 0.5)" using ab by (intro frac_le) auto
  moreover have "0 < (N c - ?b + 0.5) / (?b + 0.5)" using ab by (intro divide_pos_pos) auto
  ultimately show ?thesis unfolding IDF_eq[OF assms(1)] by (intro ln_mono) auto
qed

lemma saturation_mono:
  fixes k x y idf :: real
  assumes "0 \<le> idf" "0 \<le> k" "0 < x" "x \<le> y"
  shows "idf * x * (k + 1) / (k + x) \<le> idf * y * (k + 1) / (k + y)"
proof -
  have "x * (k + y) \<le> y * (k + x)" using mult_left_mono[OF assms(4,2)] by (simp add: algebra_simps)
  then have "x / (k + x) \<le> y / (k + y)" using assms by (simp add: divide_le_eq le_divide_eq mult.commute pos_divide_le_eq pos_le_divide_eq)
  then have "idf * (k + 1) * (x / (k + x)) \<le> idf * (k + 1) * (y / (k + y))" using assms by (intro mult_left_mono) simp_all
  then show ?thesis by (simp add: mult.commute mult.left_commute)
qed

definition wand_ok :: "WANDScorer \<Rightarrow> bool" where
  "wand_ok w \<longleftrightarrow> 0 < ws_idf w \<and> 0 < ws_weight w \<and> 0 \<le> ws_k1 w"

lemma wand_score_pos: "wand_ok w \<Longrightarrow> f \<noteq> 0 \<Longrightarrow> 0 < wand_score w f"
  by (auto simp: wand_score_def wand_ok_def Let_def unat_gt_0 simp del: of_nat_unat
      intro!: divide_pos_pos mult_pos_pos add_nonneg_pos)

lemma wand_score_mono:
  assumes "wand_ok w" "f \<le> m"
  shows "wand_score w f \<le> wand_score w m"
proof (cases "f = 0")
  case True
  then show ?thesis using wand_score_pos[OF assms(1), of m] by (cases "m = 0") (auto simp: wand_score_def)
next
  case False
  moreover have "m \<noteq> 0" using False assms(2) by auto
  moreover have "ws_weight w * real (unat f) \<le> ws_weight w * real (unat m)"
    using assms by (intro mult_left_mono) (auto simp: wand_ok_def word_le_nat_alt simp del: of_nat_unat)
  moreover have "0 < ws_weight w * real (unat f)" using False assms(1) by (simp add: wand_ok_def unat_gt_0 del: of_nat_unat)
  ultimately show ?thesis using assms(1) saturation_mono[of "ws_idf w" "ws_k1 w"] by (simp add: wand_score_def wand_ok_def Let_def del: of_nat_unat)
qed

text \<open>What Block-Max WAND asks of a scorer.\<close>

lemma search_Scorer_ok: "wand_ok w \<Longrightarrow> scorer_ok (search_Scorer w)"
  using wand_score_mono wand_score_pos less_imp_le
  by (fastforce simp: scorer_ok_def search_Scorer_def WANDScorer_Score_def WANDScorer_MaxScore_def wand_score_def)

subsection \<open>The fielded score\<close>

definition params_ok :: "Params \<Rightarrow> bool" where
  "params_ok p \<longleftrightarrow> 0 \<le> K1 p \<and> length (Weights p) = NumFields \<and> list_all (\<lambda>w. 0 \<le> w) (Weights p)"

lemma DefaultParams_ok: "params_ok DefaultParams"
  by (simp add: params_ok_def DefaultParams_def DefaultK1_def NumFields_def)

lemma field_norm_pos: "0 < field_norm s f len"
  by (auto simp: field_norm_def Let_def)

lemma pseudoFreq_sum:
  "pseudoFreq s tf fieldLen = (\<Sum>f < NumFields. Weights (params s) ! f * real (unat (tf ! f)) / field_norm s f (fieldLen ! f))"
proof -
  have "foldl (\<lambda>eff f. if tf ! f = 0 \<or> Weights (params s) ! f = 0 then eff
      else eff + Weights (params s) ! f * real (unat (tf ! f)) / field_norm s f (fieldLen ! f)) 0 [0..<n] =
    (\<Sum>f < n. Weights (params s) ! f * real (unat (tf ! f)) / field_norm s f (fieldLen ! f))" for n
    by (induction n) (auto simp del: of_nat_unat)
  then show ?thesis by (simp add: pseudoFreq_def del: of_nat_unat)
qed

lemma weight_nonneg: "params_ok p \<Longrightarrow> f < NumFields \<Longrightarrow> 0 \<le> Weights p ! f"
  by (simp add: params_ok_def list_all_length)

lemma pseudoFreq_mono:
  assumes "params_ok (params s)" "\<And>f. f < NumFields \<Longrightarrow> tf ! f \<le> tf' ! f"
  shows "0 \<le> pseudoFreq s tf fieldLen" "pseudoFreq s tf fieldLen \<le> pseudoFreq s tf' fieldLen"
  unfolding pseudoFreq_sum using assms weight_nonneg[OF assms(1)] field_norm_pos less_imp_le[OF field_norm_pos]
  by (auto intro!: sum_nonneg sum_mono divide_nonneg_pos divide_right_mono mult_left_mono simp: word_le_nat_alt simp del: of_nat_unat)

lemma saturate_mono:
  assumes "params_ok (params s)" "0 \<le> idf" "eff \<le> eff'"
  shows "0 \<le> saturate s idf eff" "saturate s idf eff \<le> saturate s idf eff'"
proof -
  have k: "0 \<le> K1 (params s)" using assms(1) by (simp add: params_ok_def)
  have nonneg: "0 \<le> saturate s idf e" for e using k assms(2) by (simp add: saturate_def Let_def)
  then show "0 \<le> saturate s idf eff" .
  show "saturate s idf eff \<le> saturate s idf eff'"
    using saturation_mono[OF assms(2) k, of eff eff'] assms(3) nonneg[of eff'] by (auto simp: saturate_def Let_def)
qed

lemma saturate_bound:
  assumes "params_ok (params s)" "0 \<le> idf"
  shows "saturate s idf eff \<le> idf * (K1 (params s) + 1)"
proof (cases "eff \<le> 0")
  case False
  have k: "0 \<le> K1 (params s)" using assms(1) by (simp add: params_ok_def)
  have "eff / (K1 (params s) + eff) \<le> 1" using False k by simp
  then have "idf * (K1 (params s) + 1) * (eff / (K1 (params s) + eff)) \<le> idf * (K1 (params s) + 1) * 1"
    using assms(2) k by (intro mult_left_mono) simp_all
  then show ?thesis using False by (simp add: saturate_def Let_def mult.commute mult.left_commute)
qed (use assms in \<open>simp add: saturate_def params_ok_def\<close>)

text \<open>At the average document length, a term found in one field only scores as in the first stage.\<close>

lemma ScoreTerm_average:
  assumes "params_ok p" "NewWANDScorer p idf field = Some w" "unat field < NumFields"
    and "\<forall>f < NumFields. f \<noteq> unat field \<longrightarrow> tf ! f = 0"
    and "length (AvgFieldLen c) = NumFields" "AvgFieldLen c ! unat field = real (unat (fieldLen ! unat field))" "0 < unat (fieldLen ! unat field)"
  shows "ScoreTerm (New p c) idf tf fieldLen = wand_score w (tf ! unat field)"
proof -
  let ?f = "unat field" and ?s = "New p c"
  have w: "ws_idf w = idf" "ws_weight w = Weights p ! ?f" "ws_k1 w = K1 p" using assms(2) by (auto simp: NewWANDScorer_def split: if_splits)
  have "field_norm ?s ?f (fieldLen ! ?f) = 1"
    using assms(3,5-7) by (simp add: field_norm_def New_def Let_def del: of_nat_unat)
  moreover have "pseudoFreq ?s tf fieldLen = Weights p ! ?f * real (unat (tf ! ?f)) / field_norm ?s ?f (fieldLen ! ?f)"
    unfolding pseudoFreq_sum by (subst sum.remove[of _ ?f]) (use assms(3,4) in \<open>auto simp: New_def simp del: of_nat_unat\<close>)
  ultimately have eff: "pseudoFreq ?s tf fieldLen = Weights p ! ?f * real (unat (tf ! ?f))" by simp
  have "0 \<le> Weights p ! ?f" using weight_nonneg[OF assms(1,3)] .
  then have "pseudoFreq ?s tf fieldLen \<le> 0 \<longleftrightarrow> tf ! ?f = 0 \<or> Weights p ! ?f = 0"
    unfolding eff by (auto simp: mult_le_0_iff unat_eq_0 simp del: of_nat_unat)
  moreover have "K1 (params ?s) = K1 p" by (simp add: New_def)
  ultimately show ?thesis
    by (simp add: ScoreTerm_def saturate_def wand_score_def w eff Let_def del: of_nat_unat)
qed

end
