(* ===== verification/SegmentSearch.thy ===== *)
theory SegmentSearch
  imports Search_Correct Segment BM25F
begin

text \<open>
  Retrieval over a segment: \<open>index/segment\<close>, \<open>rank/bm25f\<close> and \<open>index/search\<close> together. The inputs of \<open>WAND\<close> come from
  \<open>Segment.Postings\<close> and \<open>NewWANDScorer\<close>; the scores they give are those of the indexed documents.
\<close>

subsection \<open>Searching a built segment\<close>

text \<open>The inputs of \<open>WAND\<close> for the terms of a query: the terms the segment has, each with its cursor and the
  first-stage scorer for the body field at its document frequency.\<close>

definition query_term :: "Params \<Rightarrow> Collection \<Rightarrow> Segment \<Rightarrow> u32 \<Rightarrow> string \<Rightarrow> real TermInput option" where
  "query_term p c s mf t =
     (case Segment.Postings s t of
        Some (Some (cur, df)) \<Rightarrow>
          map_option (\<lambda>w. \<lparr>ti_Cursor = cur, ti_Scorer = search_Scorer w, ti_MaxFreq = mf\<rparr>)
            (NewWANDScorer p (IDF c (int df)) FieldBody)
      | _ \<Rightarrow> None)"

definition query_terms :: "Params \<Rightarrow> Collection \<Rightarrow> Segment \<Rightarrow> u32 \<Rightarrow> string list \<Rightarrow> real TermInput list" where
  "query_terms p c s mf ts = List.map_filter (query_term p c s mf) ts"

text \<open>The score of a document, from the documents as they were added.\<close>

definition doc_freq :: "('d \<times> (string \<times> u32) list) list \<Rightarrow> string \<Rightarrow> nat" where
  "doc_freq xs t = length (filter (\<lambda>x. nonzero (snd x) t \<noteq> None) xs)"

definition bm25 :: "Params \<Rightarrow> Collection \<Rightarrow> ('d \<times> (string \<times> u32) list) list \<Rightarrow> string list \<Rightarrow> nat \<Rightarrow> real" where
  "bm25 p c xs ts i =
     (\<Sum>t\<leftarrow>ts. case nonzero (snd (xs ! i)) t of
        None \<Rightarrow> 0
      | Some f \<Rightarrow> let eff = Weights p ! 0 * real (unat f)
                  in IDF c (int (doc_freq xs t)) * eff * (K1 p + 1) / (K1 p + eff))"

definition matching :: "('d \<times> (string \<times> u32) list) list \<Rightarrow> string list \<Rightarrow> nat list" where
  "matching xs ts = filter (\<lambda>i. \<exists>t \<in> set ts. nonzero (snd (xs ! i)) t \<noteq> None) [0..<length xs]"

lemma length_plist: "length (plist_from n ds t) = length (filter (\<lambda>x. snd x t \<noteq> None) ds)"
  by (induction ds arbitrary: n) (auto split: option.splits)

lemma dom_map_of_docs: "Doc ` set ps = {d. freq_of ps d \<noteq> None}"
  by (force simp: map_of_eq_None_iff)

definition body_scorer :: "Params \<Rightarrow> Collection \<Rightarrow> nat \<Rightarrow> WANDScorer" where
  "body_scorer p c df = \<lparr>ws_idf = IDF c (int df), ws_weight = Weights p ! 0, ws_k1 = K1 p\<rparr>"

definition segment_qterm :: "Params \<Rightarrow> Collection \<Rightarrow> indexed list \<Rightarrow> u32 \<Rightarrow> string \<Rightarrow> real qterm" where
  "segment_qterm p c ds mf t = (plist ds t, search_Scorer (body_scorer p c (length (plist ds t))), mf)"

lemma query_terms_ok:
  assumes "seg_ok ds s" "params_ok p"
  shows "list_all2 input_ok (map (segment_qterm p c ds mf) (filter (\<lambda>t. plist ds t \<noteq> []) ts)) (query_terms p c s mf ts)"
proof (induction ts)
  case (Cons t ts)
  obtain l where l: "plist ds t \<noteq> [] \<longrightarrow> Encode (plist ds t) = Inr l"
    "Segment.Postings s t = Some (if plist ds t = [] then None else Some (List_Cursor l, length (plist ds t)))"
    using Postings_spec[OF assms(1)] by blast
  have "NewWANDScorer p idf FieldBody = Some \<lparr>ws_idf = idf, ws_weight = Weights p ! 0, ws_k1 = K1 p\<rparr>" for idf
    using assms(2) by (simp add: NewWANDScorer_def FieldBody_def params_ok_def NumFields_def)
  then show ?case using l Cons.IH
    by (auto simp: query_terms_def query_term_def map_filter_def segment_qterm_def body_scorer_def)
qed (simp add: query_terms_def map_filter_def)

text \<open>The contribution of a term to a document, in the index and in the documents.\<close>

lemma contrib_segment:
  assumes "length ds \<le> 2 ^ 32" "i < length ds"
  shows "contrib (segment_qterm p c ds mf t) (of_nat i) =
    (case snd (ds ! i) t of None \<Rightarrow> 0 | Some f \<Rightarrow> wand_score (body_scorer p c (length (plist ds t))) f)"
proof -
  have "unat (of_nat i :: DocID) = i" using assms by (simp add: unat_of_nat)
  then show ?thesis using freq_of_plist[of 0 ds t "of_nat i"] assms
    by (simp add: segment_qterm_def search_Scorer_def WANDScorer_Score_def split: option.split)
qed

lemma query_docs_segment:
  assumes "length ds \<le> 2 ^ 32"
  shows "query_docs (map (segment_qterm p c ds mf) ts) =
    of_nat ` set (filter (\<lambda>i. \<exists>t \<in> set ts. snd (ds ! i) t \<noteq> None) [0..<length ds])"
proof -
  have "d \<in> Doc ` set (plist ds t) \<longleftrightarrow> unat d < length ds \<and> snd (ds ! unat d) t \<noteq> None" for d t
    unfolding dom_map_of_docs using freq_of_plist[of 0 ds t d] assms by simp
  then have "query_docs (map (segment_qterm p c ds mf) ts) = {d. unat d < length ds \<and> (\<exists>t \<in> set ts. snd (ds ! unat d) t \<noteq> None)}"
    unfolding query_docs_def segment_qterm_def by fastforce
  also have "\<dots> = of_nat ` {i. i < length ds \<and> (\<exists>t \<in> set ts. snd (ds ! i) t \<noteq> None)}"
  proof (intro set_eqI iffI)
    fix d :: DocID assume "d \<in> {d. unat d < length ds \<and> (\<exists>t \<in> set ts. snd (ds ! unat d) t \<noteq> None)}"
    then show "d \<in> of_nat ` {i. i < length ds \<and> (\<exists>t \<in> set ts. snd (ds ! i) t \<noteq> None)}"
      by (intro image_eqI[of _ _ "unat d"]) auto
  next
    fix d :: DocID assume "d \<in> of_nat ` {i. i < length ds \<and> (\<exists>t \<in> set ts. snd (ds ! i) t \<noteq> None)}"
    then obtain i where i: "d = of_nat i" "i < length ds" "\<exists>t \<in> set ts. snd (ds ! i) t \<noteq> None" by blast
    then have "unat d = i" using assms by (simp add: unat_of_nat)
    with i show "d \<in> {d. unat d < length ds \<and> (\<exists>t \<in> set ts. snd (ds ! unat d) t \<noteq> None)}" by simp
  qed
  finally show ?thesis by simp
qed

lemma sorted_ids:
  assumes "sorted_wrt (<) is" "\<forall>i \<in> set is. i < 2 ^ 32"
  shows "sorted_list_of_set ((of_nat :: nat \<Rightarrow> DocID) ` set is) = map of_nat is"
proof -
  have u: "unat (of_nat i :: DocID) = i" if "i \<in> set is" for i using assms(2) that by (simp add: unat_of_nat)
  have "sorted_wrt (<) (map (of_nat :: nat \<Rightarrow> DocID) is)"
    unfolding sorted_wrt_map by (rule sorted_wrt_mono_rel[OF _ assms(1)]) (simp add: u word_less_nat_alt)
  then show ?thesis using sorted_list_of_set_unique[of "of_nat ` set is" "map of_nat is"]
    by (simp add: strict_sorted_iff sorted_list_of_set.idem_if_sorted_distinct flip: set_map)
qed

lemma segment_qterm_ok:
  assumes "length ds < 2 ^ 32" "wand_ok (body_scorer p c (length (plist ds t)))" "plist ds t \<noteq> []"
    and "\<And>i f. i < length ds \<Longrightarrow> snd (ds ! i) t = Some f \<Longrightarrow> f \<noteq> 0 \<and> f \<le> mf"
  shows "qterm_ok (segment_qterm p c ds mf t)"
proof -
  have post: "unat (Doc q) < length ds \<and> Frequency q \<noteq> 0 \<and> Frequency q \<le> mf" if "q \<in> set (plist ds t)" for q
  proof -
    have "doc_sorted (plist ds t)" using plist_from_docs(1)[of 0 ds t] assms(1) by simp
    then have "distinct (map Doc (plist ds t))" by (rule doc_sorted_distinct)
    then have "freq_of (plist ds t) (Doc q) = Some (Frequency q)" using that by (auto intro!: map_of_is_SomeI simp: comp_def)
    then show ?thesis using freq_of_plist[of 0 ds t "Doc q"] assms(1,4) by (auto split: if_splits)
  qed
  have "mf \<noteq> 0" using post[of "hd (plist ds t)"] assms(3) by auto
  then have "0 < wand_score (body_scorer p c (length (plist ds t))) mf" by (rule wand_score_pos[OF assms(2)])
  moreover have "Doc q < 0xFFFFFFFF" if "q \<in> set (plist ds t)" for q
    using post[OF that] assms(1) by (simp add: word_less_nat_alt)
  ultimately show ?thesis using post plist_from_docs(1)[of 0 ds t] assms(1) search_Scorer_ok[OF assms(2)]
    by (auto simp: segment_qterm_def search_Scorer_def WANDScorer_MaxScore_def)
qed

lemma bm25_contrib:
  assumes "i < length xs" "length xs < 2 ^ 32" "0 < Weights p ! 0"
  defines "ds \<equiv> map (apsnd nonzero) xs"
  shows "doc_score (map (segment_qterm p c ds mf) (filter (\<lambda>t. plist ds t \<noteq> []) ts)) (of_nat i) = bm25 p c xs ts i"
proof -
  have df: "length (plist ds t) = doc_freq xs t" for t
    by (simp add: length_plist doc_freq_def ds_def filter_map comp_def)
  have nz: "f \<noteq> 0" if "nonzero (snd (xs ! i)) t = Some f" for t f using that by (auto simp: nonzero_def split: option.splits if_splits)
  have c: "contrib (segment_qterm p c ds mf t) (of_nat i) =
      (case nonzero (snd (xs ! i)) t of None \<Rightarrow> 0
       | Some f \<Rightarrow> let eff = Weights p ! 0 * real (unat f) in IDF c (int (doc_freq xs t)) * eff * (K1 p + 1) / (K1 p + eff))" for t
    using contrib_segment[of ds i p c mf t] assms(1-3) nz[of t]
    by (auto simp: ds_def wand_score_def body_scorer_def df[unfolded ds_def] simp del: of_nat_unat split: option.splits)
  have "nonzero (snd (xs ! i)) t = None" if "plist ds t = []" for t
    using df[of t] that assms(1) by (auto simp: doc_freq_def filter_empty_conv)
  then have "sum_list (map (\<lambda>t. contrib (segment_qterm p c ds mf t) (of_nat i)) (filter (\<lambda>t. plist ds t \<noteq> []) ts)) =
      sum_list (map (\<lambda>t. contrib (segment_qterm p c ds mf t) (of_nat i)) ts)"
    by (induction ts) (auto simp: c)
  then show ?thesis by (simp add: doc_score_def bm25_def c comp_def)
qed

lemma WAND_segment:
  assumes "seg_ok (map (apsnd nonzero) xs) s" "sort_Slice rank srt" "length xs < 2 ^ 32"
    and "\<forall>x \<in> set xs. list_all (\<lambda>(t, f). f \<le> mf) (snd x)"
    and "params_ok p" "0 < Weights p ! 0" "0 \<le> N c"
  shows "WAND srt (query_terms p c s mf ts) k =
      Some (take (nat k) (sort_key rank (map (\<lambda>i. \<lparr>hit_Doc = of_nat i, hit_Score = bm25 p c xs ts i\<rparr>) (matching xs ts))))"
proof -
  let ?ds = "map (apsnd nonzero) xs"
  let ?ts = "filter (\<lambda>t. plist ?ds t \<noteq> []) ts"
  let ?Q = "map (segment_qterm p c ?ds mf) ?ts"
  have len: "length ?ds \<le> 2 ^ 32" using assms(3) by simp
  have w: "wand_ok (body_scorer p c df)" for df
    using assms(5-7) IDF_pos by (simp add: wand_ok_def body_scorer_def params_ok_def)
  have freq: "f \<noteq> 0 \<and> f \<le> mf" if "i < length ?ds" "snd (?ds ! i) t = Some f" for i t f
  proof -
    have "map_of (snd (xs ! i)) t = Some f" "f \<noteq> 0" using that by (auto simp: nonzero_def split: option.splits if_splits)
    moreover have "xs ! i \<in> set xs" using that by simp
    ultimately show ?thesis using assms(4) by (fastforce simp: list_all_iff dest: map_of_SomeD)
  qed
  have q: "\<forall>q \<in> set ?Q. qterm_ok q"
  proof
    fix q assume "q \<in> set ?Q"
    then obtain t where t: "q = segment_qterm p c ?ds mf t" "plist ?ds t \<noteq> []" by auto
    show "qterm_ok q" unfolding t(1) using assms(3) freq[of _ t] by (intro segment_qterm_ok[OF _ w t(2)]) auto
  qed
  have "plist ?ds t \<noteq> []" if "i < length xs" "nonzero (snd (xs ! i)) t = Some f" for i t f
    using that length_plist[of 0 ?ds t] by (auto simp: filter_map comp_def filter_empty_conv dest!: nth_mem)
  then have m: "filter (\<lambda>i. \<exists>t \<in> set ?ts. snd (?ds ! i) t \<noteq> None) [0..<length ?ds] = matching xs ts"
    by (fastforce simp: matching_def intro!: filter_cong)
  have "sorted_list_of_set (query_docs ?Q) = map of_nat (matching xs ts)"
    unfolding query_docs_segment[OF len] m
    by (rule sorted_ids) (use assms(3) in \<open>auto simp: matching_def intro: sorted_wrt_filter\<close>)
  moreover have "hit_of ?Q (of_nat i) = \<lparr>hit_Doc = of_nat i, hit_Score = bm25 p c xs ts i\<rparr>" if "i \<in> set (matching xs ts)" for i
    using that assms(3,6) bm25_contrib[of i xs p c mf ts] by (simp add: hit_of_def matching_def)
  ultimately have "map (hit_of ?Q) (sorted_list_of_set (query_docs ?Q)) =
      map (\<lambda>i. \<lparr>hit_Doc = of_nat i, hit_Score = bm25 p c xs ts i\<rparr>) (matching xs ts)" by simp
  with WAND_correct[OF query_terms_ok[OF assms(1,5)] q assms(2), of k] show ?thesis by simp
qed

end
