(* ===== verification/Engine.thy ===== *)
theory Engine
  imports Prelude
begin

text \<open>
  \<open>storage/engine.go\<close>: the ordered, byte-keyed store interface. \<open>PrefixEnd\<close> and the write batch are
  the code of the file; the interface itself is the locale \<open>engine\<close>, whose laws say what a store
  promises its clients over the abstract map \<open>abs\<close> it represents. A \<open>nil\<close> range bound is \<open>None\<close>;
  nothing is promised for a range whose end lies before its start.
\<close>

record op =
  op_key :: bytes
  op_value :: bytes
  op_del :: bool

type_synonym Batch = "op list"

definition Batch_Set :: "bytes \<Rightarrow> bytes \<Rightarrow> Batch \<Rightarrow> Batch" where
  "Batch_Set key val b = b @ [\<lparr>op_key = key, op_value = val, op_del = False\<rparr>]"

definition Batch_Delete :: "bytes \<Rightarrow> Batch \<Rightarrow> Batch" where
  "Batch_Delete key b = b @ [\<lparr>op_key = key, op_value = [], op_del = True\<rparr>]"

definition Batch_Len :: "Batch \<Rightarrow> nat" where
  "Batch_Len b = length b"

definition Batch_Reset :: "Batch \<Rightarrow> Batch" where
  "Batch_Reset b = []"

text \<open>The loop of \<open>PrefixEnd\<close> from index \<open>i - 1\<close> downwards: increment the last byte that is not
  \<open>0xFF\<close> and cut there; \<open>None\<close> (Go's \<open>nil\<close>) when there is none.\<close>

fun PrefixEnd_loop :: "bytes \<Rightarrow> nat \<Rightarrow> bytes option" where
  "PrefixEnd_loop buf 0 = None"
| "PrefixEnd_loop buf (Suc i) =
     (if buf ! i \<noteq> 0xFF then Some (take (Suc i) (buf[i := buf ! i + 1])) else PrefixEnd_loop buf i)"

definition PrefixEnd :: "bytes \<Rightarrow> bytes option" where
  "PrefixEnd p = PrefixEnd_loop p (length p)"

subsection \<open>Key ranges\<close>

definition in_range :: "bytes option \<Rightarrow> bytes option \<Rightarrow> bytes \<Rightarrow> bool" where
  "in_range s e k \<longleftrightarrow>
     (case s of None \<Rightarrow> True | Some a \<Rightarrow> a \<le> k) \<and> (case e of None \<Rightarrow> True | Some b \<Rightarrow> k < b)"

text \<open>The ranges a client may scan: the end is not before the start.\<close>

definition ordered_range :: "bytes option \<Rightarrow> bytes option \<Rightarrow> bool" where
  "ordered_range s e \<longleftrightarrow> (case s of None \<Rightarrow> True | Some a \<Rightarrow> (case e of None \<Rightarrow> True | Some b \<Rightarrow> a \<le> b))"

text \<open>A structural reading of \<open>PrefixEnd\<close>: the successor of a prefix, if any.\<close>

fun prefix_succ :: "bytes \<Rightarrow> bytes option" where
  "prefix_succ [] = None"
| "prefix_succ (b # bs) =
     (case prefix_succ bs of
        Some e \<Rightarrow> Some (b # e)
      | None \<Rightarrow> if b \<noteq> 0xFF then Some [b + 1] else None)"

lemma PrefixEnd_loop_Cons:
  "i \<le> length bs \<Longrightarrow> PrefixEnd_loop (b # bs) (Suc i) =
     (case PrefixEnd_loop bs i of
        Some e \<Rightarrow> Some (b # e)
      | None \<Rightarrow> if b \<noteq> 0xFF then Some [b + 1] else None)"
proof (induction i)
  case (Suc i)
  then show ?case by (simp add: nth_Cons')
qed simp

lemma PrefixEnd_succ: "PrefixEnd p = prefix_succ p"
proof (induction p)
  case (Cons b bs)
  then show ?case using PrefixEnd_loop_Cons[of "length bs" bs b] by (simp add: PrefixEnd_def)
qed (simp add: PrefixEnd_def)

lemma byte_less_succ: "(b :: byte) \<noteq> 0xFF \<Longrightarrow> c < b + 1 \<longleftrightarrow> c \<le> b"
proof -
  assume "b \<noteq> 0xFF"
  then have "unat b \<noteq> 255" by (simp add: word_unat_eq_iff)
  then have "unat (b + 1) = unat b + 1" using unat_byte_le[of b] by (simp add: unat_word_ariths)
  then show ?thesis by (simp add: word_less_nat_alt word_le_nat_alt less_Suc_eq_le)
qed

lemma byte_le_max: "\<not> (0xFF :: byte) < c"
  using unat_byte_le[of c] by (simp add: word_less_nat_alt)

text \<open>\<open>Scan(prefix, PrefixEnd(prefix))\<close> visits exactly the keys that start with \<open>prefix\<close>.\<close>

lemma prefix_range: "in_range (Some p) (PrefixEnd p) k \<longleftrightarrow> prefix p k"
  unfolding PrefixEnd_succ
proof (induction p arbitrary: k)
  case (Cons b bs)
  show ?case
  proof (cases k)
    case (Cons c ks)
    show ?thesis
    proof (cases "prefix_succ bs")
      case None
      with Cons.IH[of ks] show ?thesis
        by (auto simp: \<open>k = c # ks\<close> in_range_def byte_less_succ byte_le_max)
    next
      case (Some e)
      with Cons.IH[of ks] show ?thesis by (auto simp: \<open>k = c # ks\<close> in_range_def)
    qed
  qed (simp add: in_range_def)
qed (simp add: in_range_def)

lemma ordered_prefix [simp]: "ordered_range (Some p) (PrefixEnd p)"
  using prefix_range[of p p] by (auto simp: ordered_range_def in_range_def split: option.splits)

subsection \<open>The interface\<close>

text \<open>The effect of one queued operation, and of a batch, on the abstract map.\<close>

definition op_effect :: "op \<Rightarrow> (bytes \<rightharpoonup> bytes) \<Rightarrow> (bytes \<rightharpoonup> bytes)" where
  "op_effect o1 m = (if op_del o1 then m(op_key o1 := None) else m(op_key o1 \<mapsto> op_value o1))"

definition batch_effect :: "Batch \<Rightarrow> (bytes \<rightharpoonup> bytes) \<Rightarrow> (bytes \<rightharpoonup> bytes)" where
  "batch_effect b m = fold op_effect b m"

lemma batch_effect_simps [simp]:
  "batch_effect [] m = m" "batch_effect (o1 # b) m = batch_effect b (op_effect o1 m)"
  by (simp_all add: batch_effect_def)

locale engine =
  fixes get :: "'e \<Rightarrow> bytes \<Rightarrow> bytes option"
    and set_key :: "bytes \<Rightarrow> bytes \<Rightarrow> 'e \<Rightarrow> 'e"
    and delete :: "bytes \<Rightarrow> 'e \<Rightarrow> 'e"
    and apply_batch :: "Batch \<Rightarrow> 'e \<Rightarrow> 'e"
    and scan :: "'e \<Rightarrow> bytes option \<Rightarrow> bytes option \<Rightarrow> (bytes \<times> bytes) list"
    and invar :: "'e \<Rightarrow> bool"
    and contents :: "'e \<Rightarrow> (bytes \<rightharpoonup> bytes)"
  assumes get: "invar e \<Longrightarrow> get e k = contents e k"
    and set_key: "invar e \<Longrightarrow> contents (set_key k v e) = (contents e)(k \<mapsto> v)"
    and delete: "invar e \<Longrightarrow> contents (delete k e) = (contents e)(k := None)"
    and apply_batch: "invar e \<Longrightarrow> contents (apply_batch b e) = batch_effect b (contents e)"
    and scan_sorted: "invar e \<Longrightarrow> ordered_range s t \<Longrightarrow> sorted_wrt (<) (map fst (scan e s t))"
    and scan_set: "invar e \<Longrightarrow> ordered_range s t \<Longrightarrow> set (scan e s t) = {(k, v). contents e k = Some v \<and> in_range s t k}"
    and invar_set: "invar e \<Longrightarrow> invar (set_key k v e)"
    and invar_delete: "invar e \<Longrightarrow> invar (delete k e)"
    and invar_apply: "invar e \<Longrightarrow> invar (apply_batch b e)"
begin

lemmas engine_laws = get set_key delete apply_batch scan_sorted scan_set invar_set invar_delete invar_apply

text \<open>A prefix scan lists the keys with that prefix, each once and in order.\<close>

lemma scan_prefix:
  assumes "invar e"
  shows "set (scan e (Some p) (PrefixEnd p)) = {(k, v). contents e k = Some v \<and> prefix p k}"
    and "sorted_wrt (<) (map fst (scan e (Some p) (PrefixEnd p)))"
  using assms by (simp_all add: scan_set scan_sorted prefix_range)

text \<open>A scan is the only list with its order and its contents.\<close>

lemma scan_unique:
  assumes "invar e" "ordered_range s t" "sorted_wrt (<) (map fst xs)"
    and "set xs = {(k, v). contents e k = Some v \<and> in_range s t k}"
  shows "scan e s t = xs"
proof -
  have inj: "inj_on fst (set xs)" unfolding assms(4) by (auto simp: inj_on_def)
  have "map fst (scan e s t) = map fst xs"
    using assms scan_set[OF assms(1,2)] scan_sorted[OF assms(1,2)]
    by (intro sorted_distinct_set_unique) (auto simp: strict_sorted_iff)
  moreover have "set (scan e s t) = set xs" using assms by (simp add: scan_set)
  ultimately show ?thesis using inj by (metis map_inj_on Un_absorb)
qed

end

subsection \<open>Properties\<close>

text \<open>The range from a prefix to its \<open>PrefixEnd\<close> holds exactly the keys that start with the prefix,
  the unbounded case (a prefix of \<open>0xFF\<close> bytes only) included.\<close>

theorem PrefixEnd_range: "in_range (Some p) (PrefixEnd p) k \<longleftrightarrow> prefix p k"
  by (rule prefix_range)

end
