(* ===== verification/MemEngine.thy ===== *)
theory MemEngine
  imports Engine
begin

text \<open>
  \<open>storage/memengine.go\<close>: the in-memory reference engine, one slice of entries kept sorted by key
  with binary-search lookups. It implements the interface \<open>engine\<close> (the interpretation \<open>mem\<close>).
\<close>

type_synonym entry = "bytes \<times> bytes"

record MemEngine =
  entries :: "entry list"

definition NewMemEngine :: MemEngine where
  "NewMemEngine = \<lparr>entries = []\<rparr>"

text \<open>\<open>sort.Search\<close> for the first entry whose key is at least \<open>key\<close>.\<close>

definition lower_bound :: "entry list \<Rightarrow> bytes \<Rightarrow> nat" where
  "lower_bound es key = sort_Search (length es) (\<lambda>i. fst (es ! i) \<ge> key)"

definition search :: "MemEngine \<Rightarrow> bytes \<Rightarrow> nat \<times> bool" where
  "search m key =
     (let i = lower_bound (entries m) key
      in if i < length (entries m) \<and> fst (entries m ! i) = key then (i, True) else (i, False))"

definition Get :: "MemEngine \<Rightarrow> bytes \<Rightarrow> bytes option" where
  "Get m key = (case search m key of (i, ok) \<Rightarrow> if ok then Some (snd (entries m ! i)) else None)"

definition mem_set :: "bytes \<Rightarrow> bytes \<Rightarrow> MemEngine \<Rightarrow> MemEngine" where
  "mem_set key val m =
     (case search m key of (i, ok) \<Rightarrow>
        if ok then m\<lparr>entries := (entries m)[i := (fst (entries m ! i), val)]\<rparr>
        else m\<lparr>entries := take i (entries m) @ [(key, val)] @ drop i (entries m)\<rparr>)"

definition mem_del :: "bytes \<Rightarrow> MemEngine \<Rightarrow> MemEngine" where
  "mem_del key m =
     (case search m key of (i, ok) \<Rightarrow>
        if ok then m\<lparr>entries := take i (entries m) @ drop (i + 1) (entries m)\<rparr> else m)"

definition Set :: "bytes \<Rightarrow> bytes \<Rightarrow> MemEngine \<Rightarrow> MemEngine" where
  "Set key val m = mem_set key val m"

definition Delete :: "bytes \<Rightarrow> MemEngine \<Rightarrow> MemEngine" where
  "Delete key m = mem_del key m"

fun Apply :: "Batch \<Rightarrow> MemEngine \<Rightarrow> MemEngine" where
  "Apply [] m = m"
| "Apply (o1 # ops) m =
     Apply ops (if op_del o1 then mem_del (op_key o1) m else mem_set (op_key o1) (op_value o1) m)"

text \<open>The iterator over a copied slice: \<open>Next\<close> advances, \<open>Key\<close> and \<open>Value\<close> read the position.\<close>

record sliceIter =
  it_entries :: "entry list"
  it_pos :: int

definition Iter_Next :: "sliceIter \<Rightarrow> bool \<times> sliceIter" where
  "Iter_Next it = (let it = it\<lparr>it_pos := it_pos it + 1\<rparr> in (it_pos it < int (length (it_entries it)), it))"

definition Iter_Key :: "sliceIter \<Rightarrow> bytes" where
  "Iter_Key it = fst (it_entries it ! nat (it_pos it))"

definition Iter_Value :: "sliceIter \<Rightarrow> bytes" where
  "Iter_Value it = snd (it_entries it ! nat (it_pos it))"

text \<open>The loop \<open>for it.Next() { it.Key(), it.Value() }\<close> of a client, as the list it visits.\<close>

function iter_collect :: "sliceIter \<Rightarrow> entry list" where
  "iter_collect it =
     (case Iter_Next it of (b, it') \<Rightarrow>
        if b then (Iter_Key it', Iter_Value it') # iter_collect it' else [])"
  by pat_completeness auto
termination
  by (relation "measure (\<lambda>it. nat (int (length (it_entries it)) - it_pos it))")
    (auto simp: Iter_Next_def Let_def)

declare iter_collect.simps [simp del]

text \<open>Both kinds of scan allocate \<open>hi - lo\<close> entries, which panics when it is negative: that is \<open>None\<close>.\<close>

definition scan_entries :: "entry list \<Rightarrow> bytes option \<Rightarrow> bytes option \<Rightarrow> sliceIter option" where
  "scan_entries es start stop =
     (let lo = (case start of None \<Rightarrow> 0 | Some s \<Rightarrow> lower_bound es s);
          hi = (case stop of None \<Rightarrow> length es | Some e \<Rightarrow> lower_bound es e)
      in if hi < lo then None else Some \<lparr>it_entries = take (hi - lo) (drop lo es), it_pos = -1\<rparr>)"

definition Scan :: "MemEngine \<Rightarrow> bytes option \<Rightarrow> bytes option \<Rightarrow> sliceIter option" where
  "Scan m start stop = scan_entries (entries m) start stop"

definition Close :: "MemEngine \<Rightarrow> MemEngine" where
  "Close m = m\<lparr>entries := []\<rparr>"

record memSnapshot =
  snap_entries :: "entry list"

definition Snapshot :: "MemEngine \<Rightarrow> memSnapshot" where
  "Snapshot m = \<lparr>snap_entries = entries m\<rparr>"

definition Snapshot_Get :: "memSnapshot \<Rightarrow> bytes \<Rightarrow> bytes option" where
  "Snapshot_Get s key =
     (let i = lower_bound (snap_entries s) key
      in if i < length (snap_entries s) \<and> fst (snap_entries s ! i) = key
         then Some (snd (snap_entries s ! i)) else None)"

definition Snapshot_Scan :: "memSnapshot \<Rightarrow> bytes option \<Rightarrow> bytes option \<Rightarrow> sliceIter option" where
  "Snapshot_Scan s start stop = scan_entries (snap_entries s) start stop"

subsection \<open>Invariant and abstraction\<close>

definition sorted_entries :: "entry list \<Rightarrow> bool" where
  "sorted_entries es \<longleftrightarrow> sorted_wrt (<) (map fst es)"

definition mem_invar :: "MemEngine \<Rightarrow> bool" where
  "mem_invar m \<longleftrightarrow> sorted_entries (entries m)"

definition mem_contents :: "MemEngine \<Rightarrow> (bytes \<rightharpoonup> bytes)" where
  "mem_contents m = map_of (entries m)"

text \<open>The entries a client's loop visits after a scan that returns.\<close>

definition mem_scan :: "MemEngine \<Rightarrow> bytes option \<Rightarrow> bytes option \<Rightarrow> entry list" where
  "mem_scan m start stop = iter_collect (the (Scan m start stop))"

lemma iter_collect_drop:
  "-1 \<le> it_pos it \<Longrightarrow> iter_collect it = drop (nat (it_pos it + 1)) (it_entries it)"
proof (induction it rule: iter_collect.induct)
  case (1 it)
  let ?p = "nat (it_pos it + 1)"
  show ?case
  proof (cases "it_pos it + 1 < int (length (it_entries it))")
    case True
    then have "?p < length (it_entries it)" using 1(2) by linarith
    moreover have "nat (it_pos it + 2) = Suc ?p" using 1(2) by linarith
    ultimately show ?thesis
      using 1(1)[OF _ True] 1(2) True
      by (subst iter_collect.simps)
        (simp add: Iter_Next_def Let_def Iter_Key_def Iter_Value_def Cons_nth_drop_Suc add.assoc)
  next
    case False
    then show ?thesis by (subst iter_collect.simps) (simp add: Iter_Next_def Let_def)
  qed
qed

lemma iter_collect_scan: "scan_entries es s e = Some it \<Longrightarrow> iter_collect it = it_entries it"
  by (auto simp: iter_collect_drop scan_entries_def Let_def split: if_splits)

subsection \<open>Binary search splits the entries\<close>

lemma lower_bound_split:
  assumes "sorted_entries es"
  obtains L R where "es = L @ R" "lower_bound es key = length L"
    "\<forall>e \<in> set L. fst e < key" "\<forall>e \<in> set R. key \<le> fst e"
proof -
  have "sorted_wrt (\<lambda>x y. key \<le> fst x \<longrightarrow> key \<le> fst y) es"
    using assms unfolding sorted_entries_def sorted_wrt_map by (rule sorted_wrt_mono_rel[rotated]) auto
  then obtain L R where "es = L @ R" "sort_Search (length es) (\<lambda>i. key \<le> fst (es ! i)) = length L"
    "\<forall>e \<in> set L. \<not> key \<le> fst e" "\<forall>e \<in> set R. key \<le> fst e" by (rule sort_Search_partition)
  then show thesis by (intro that[of L R]) (auto simp: lower_bound_def)
qed

lemma sorted_entries_simps [simp]:
  "sorted_entries []"
  "sorted_entries (e # es) \<longleftrightarrow> (\<forall>x \<in> set es. fst e < fst x) \<and> sorted_entries es"
  "sorted_entries (es @ fs) \<longleftrightarrow> sorted_entries es \<and> sorted_entries fs \<and> (\<forall>x \<in> set es. \<forall>y \<in> set fs. fst x < fst y)"
  by (auto simp: sorted_entries_def sorted_wrt_append)

lemma search_cases:
  assumes "mem_invar m"
  obtains (found) L v R where "entries m = L @ (key, v) # R" "search m key = (length L, True)"
      "\<forall>e \<in> set L. fst e < key" "\<forall>e \<in> set R. key < fst e"
  | (absent) L R where "entries m = L @ R" "search m key = (length L, False)"
      "\<forall>e \<in> set L. fst e < key" "\<forall>e \<in> set R. key < fst e"
proof -
  from assms have srt: "sorted_entries (entries m)" by (simp add: mem_invar_def)
  then obtain L R where s: "entries m = L @ R" "lower_bound (entries m) key = length L"
    "\<forall>e \<in> set L. fst e < key" "\<forall>e \<in> set R. key \<le> fst e" by (rule lower_bound_split)
  show thesis
  proof (cases R)
    case Nil
    with s show thesis by (intro absent[of L R]) (auto simp: search_def Let_def)
  next
    case (Cons e R')
    with srt s have *: "key \<le> fst e" "\<forall>x \<in> set R'. fst e < fst x" by simp_all
    show thesis
    proof (cases "fst e = key")
      case True
      with Cons s * show thesis by (intro found[of L "snd e" R']) (auto simp: search_def Let_def)
    next
      case False
      with * have "\<forall>x \<in> set R. key < fst x" using Cons by auto
      with False Cons s show thesis by (intro absent[of L R]) (auto simp: search_def Let_def)
    qed
  qed
qed

lemma map_of_None_above: "\<forall>e \<in> set es. k < fst e \<Longrightarrow> map_of es k = None" for k :: bytes
  by (auto simp: map_of_eq_None_iff)

lemma map_of_None_below: "\<forall>e \<in> set es. fst e < k \<Longrightarrow> map_of es k = None" for k :: bytes
  by (auto simp: map_of_eq_None_iff)

lemmas map_of_None_sides = map_of_None_above map_of_None_below

lemma map_of_replace: "map_of L k = None \<Longrightarrow> map_of (L @ (k, v) # R) = (map_of (L @ R))(k \<mapsto> v)"
  by (auto simp: fun_eq_iff map_add_def split: option.splits)

lemma mem_invarD: "mem_invar m \<Longrightarrow> entries m = es \<Longrightarrow> sorted_entries es"
  by (simp add: mem_invar_def)

lemma Get_contents: "mem_invar m \<Longrightarrow> Get m k = mem_contents m k"
  by (erule search_cases[where key = k])
    (simp_all add: Get_def mem_contents_def map_add_def map_of_None_sides)

lemma mem_set_spec:
  assumes "mem_invar m"
  shows "mem_invar (mem_set k v m)" "mem_contents (mem_set k v m) = (mem_contents m)(k \<mapsto> v)"
proof -
  have "mem_invar (mem_set k v m) \<and> mem_contents (mem_set k v m) = (mem_contents m)(k \<mapsto> v)"
  proof (cases rule: search_cases[OF assms, of k, case_names found absent])
    case (found L w R)
    moreover have "sorted_entries (L @ (k, v) # R)" using mem_invarD[OF assms found(1)] by simp
    ultimately show ?thesis
      using map_of_replace[of L k _ R] by (simp add: mem_set_def mem_invar_def mem_contents_def map_of_None_sides)
  next
    case (absent L R)
    moreover have "sorted_entries (L @ (k, v) # R)"
      using mem_invarD[OF assms absent(1)] absent(3,4) by simp
    ultimately show ?thesis
      using map_of_replace[of L k v R] by (simp add: mem_set_def mem_invar_def mem_contents_def map_of_None_sides)
  qed
  then show "mem_invar (mem_set k v m)" "mem_contents (mem_set k v m) = (mem_contents m)(k \<mapsto> v)" by simp_all
qed

lemma mem_del_spec:
  assumes "mem_invar m"
  shows "mem_invar (mem_del k m)" "mem_contents (mem_del k m) = (mem_contents m)(k := None)"
proof -
  have "mem_invar (mem_del k m) \<and> mem_contents (mem_del k m) = (mem_contents m)(k := None)"
  proof (cases rule: search_cases[OF assms, of k, case_names found absent])
    case (found L w R)
    moreover have "sorted_entries (L @ R)" using mem_invarD[OF assms found(1)] by simp
    moreover have "map_of (L @ R) k = None" using found(3,4) by (simp add: map_add_def map_of_None_sides)
    ultimately show ?thesis
      using map_of_replace[of L k w R] by (simp add: mem_del_def mem_invar_def mem_contents_def map_of_None_sides fun_upd_idem)
  next
    case (absent L R)
    then have "mem_contents m k = None" by (simp add: mem_contents_def map_add_def map_of_None_sides)
    with absent(2) assms show ?thesis by (simp add: mem_del_def fun_upd_idem)
  qed
  then show "mem_invar (mem_del k m)" "mem_contents (mem_del k m) = (mem_contents m)(k := None)" by simp_all
qed

lemma Apply_spec:
  "mem_invar m \<Longrightarrow> mem_invar (Apply b m) \<and> mem_contents (Apply b m) = batch_effect b (mem_contents m)"
  by (induction b m rule: Apply.induct) (simp_all add: mem_set_spec mem_del_spec op_effect_def)

lemma scan_range:
  assumes "sorted_entries es"
  shows "case scan_entries es s e of
      None \<Rightarrow> \<exists>x \<in> set es. \<not> in_range s None (fst x) \<and> \<not> in_range None e (fst x)
    | Some it \<Rightarrow> it_entries it = filter (\<lambda>x. in_range s e (fst x)) es \<and>
        \<not> (\<exists>x \<in> set es. \<not> in_range s None (fst x) \<and> \<not> in_range None e (fst x))"
proof -
  let ?lo = "case s of None \<Rightarrow> 0 | Some a \<Rightarrow> lower_bound es a"
  let ?hi = "case e of None \<Rightarrow> length es | Some b \<Rightarrow> lower_bound es b"
  obtain L R where l: "es = L @ R" "?lo = length L" "\<forall>x \<in> set L. \<not> in_range s None (fst x)" "\<forall>x \<in> set R. in_range s None (fst x)"
  proof (cases s)
    case (Some a)
    obtain L R where "es = L @ R" "lower_bound es a = length L" "\<forall>x \<in> set L. fst x < a" "\<forall>x \<in> set R. a \<le> fst x"
      using assms by (rule lower_bound_split)
    with Some show thesis by (intro that[of L R]) (auto simp: in_range_def)
  qed (rule that[of "[]" es], simp_all add: in_range_def)
  obtain L' R' where h: "es = L' @ R'" "?hi = length L'" "\<forall>x \<in> set L'. in_range None e (fst x)" "\<forall>x \<in> set R'. \<not> in_range None e (fst x)"
  proof (cases e)
    case (Some b)
    obtain L R where "es = L @ R" "lower_bound es b = length L" "\<forall>x \<in> set L. fst x < b" "\<forall>x \<in> set R. b \<le> fst x"
      using assms by (rule lower_bound_split)
    with Some show thesis by (intro that[of L R]) (auto simp: in_range_def)
  qed (rule that[of es "[]"], simp_all add: in_range_def)
  have ir: "in_range s e k \<longleftrightarrow> in_range s None k \<and> in_range None e k" for k
    by (simp add: in_range_def)
  have "take (length L' - length L) (drop (length L) es) = drop (length L) L'"
    unfolding h(1) by (simp add: take_drop)
  also have "\<dots> = filter (\<lambda>x. in_range s e (fst x)) es"
    using l(1,3,4) h(1,3,4) by (auto simp: append_eq_append_conv2 ir filter_empty_conv filter_id_conv)
  finally have f: "take (length L' - length L) (drop (length L) es) = filter (\<lambda>x. in_range s e (fst x)) es" .
  show ?thesis
  proof (cases "length L' < length L")
    case True
    have "length L' < length es" using True l(1) by simp
    then obtain x R'' where x: "R' = x # R''" using h(1) by (cases R') auto
    have "es ! length L' = x" by (simp add: h(1) x)
    then have "x \<in> set L" using True by (simp add: l(1) nth_append) (metis nth_mem)
    moreover have "x \<in> set es" "\<not> in_range None e (fst x)" using h(1,4) x by auto
    ultimately show ?thesis using l(2,3) h(2) True by (auto simp: scan_entries_def Let_def)
  next
    case False
    have "\<not> (\<exists>x \<in> set es. \<not> in_range s None (fst x) \<and> \<not> in_range None e (fst x))"
    proof
      assume "\<exists>x \<in> set es. \<not> in_range s None (fst x) \<and> \<not> in_range None e (fst x)"
      then obtain x where e: "x \<in> set es" "\<not> in_range s None (fst x)" "\<not> in_range None e (fst x)" by blast
      have "x \<in> set L" using e(1,2) l(4) unfolding l(1) by auto
      moreover have "x \<in> set R'" using e(1,3) h(3) unfolding h(1) by auto
      ultimately have x: "x \<in> set L" "x \<in> set R'" by blast+
      from l(1) h(1) False obtain us where "L' = L @ us" by (auto simp: append_eq_append_conv2)
      then have "x \<in> set L'" using x(1) by simp
      then show False using h(3,4) x(2) by blast
    qed
    then show ?thesis using f l(2) h(2) False by (simp add: scan_entries_def Let_def)
  qed
qed

lemma Scan_returns:
  assumes "mem_invar m" "ordered_range s e"
  obtains it where "Scan m s e = Some it" "iter_collect it = filter (\<lambda>x. in_range s e (fst x)) (entries m)"
proof (cases "Scan m s e")
  case None
  then obtain x where "\<not> in_range s None (fst x)" "\<not> in_range None e (fst x)"
    using scan_range[of "entries m" s e] assms(1) by (auto simp: mem_invar_def Scan_def)
  then have False using assms(2) by (auto simp: in_range_def ordered_range_def split: option.splits)
  then show thesis ..
next
  case (Some it)
  then show thesis using that scan_range[of "entries m" s e] iter_collect_scan[of "entries m" s e it] assms(1)
    by (simp add: mem_invar_def Scan_def)
qed

lemma sorted_entries_filter: "sorted_entries es \<Longrightarrow> sorted_entries (filter P es)"
  by (induction es) auto

lemma mem_scan_spec:
  assumes "mem_invar m" "ordered_range s e"
  shows "mem_scan m s e = filter (\<lambda>x. in_range s e (fst x)) (entries m)"
proof -
  obtain it where "Scan m s e = Some it" "iter_collect it = filter (\<lambda>x. in_range s e (fst x)) (entries m)"
    using assms by (rule Scan_returns)
  then show ?thesis by (simp add: mem_scan_def)
qed

text \<open>The clients' prefix scans never panic.\<close>

lemma Scan_prefix:
  assumes "mem_invar m"
  shows "\<exists>it. Scan m (Some p) (PrefixEnd p) = Some it \<and> mem_scan m (Some p) (PrefixEnd p) = iter_collect it"
proof -
  obtain it where "Scan m (Some p) (PrefixEnd p) = Some it" by (rule Scan_returns[OF assms ordered_prefix])
  then show ?thesis by (simp add: mem_scan_def)
qed

lemma distinct_sorted_entries: "sorted_entries es \<Longrightarrow> distinct (map fst es)"
  by (simp add: sorted_entries_def strict_sorted_iff)

subsection \<open>The engine keeps its contract\<close>

interpretation mem: engine Get Set Delete Apply mem_scan mem_invar mem_contents
proof (unfold_locales, goal_cases)
  case (6 e s t)
  then have "map_of (entries e) k = Some v \<longleftrightarrow> (k, v) \<in> set (entries e)" for k v
    using distinct_sorted_entries by (simp add: mem_invar_def)
  with 6 show ?case by (auto simp: mem_scan_spec mem_contents_def)
next
  case (5 e s t)
  then show ?case using sorted_entries_filter by (auto simp: mem_scan_spec mem_invar_def sorted_entries_def)
qed (simp_all add: Get_contents Set_def Delete_def mem_set_spec mem_del_spec Apply_spec)

text \<open>A snapshot is the same store frozen: it answers as the engine did when it was taken.\<close>

lemma Snapshot_Get_eq: "Snapshot_Get (Snapshot m) k = Get m k"
  by (simp add: Snapshot_Get_def Snapshot_def Get_def search_def Let_def)

lemma Snapshot_Scan_eq: "Snapshot_Scan (Snapshot m) s e = Scan m s e"
  by (simp add: Snapshot_Scan_def Snapshot_def Scan_def)

lemma mem_invar_New [simp]: "mem_invar NewMemEngine" "mem_contents NewMemEngine = Map.empty"
  by (simp_all add: mem_invar_def NewMemEngine_def mem_contents_def)

subsection \<open>Properties\<close>

text \<open>A run of writes on a fresh engine, each a single write or a batch.\<close>

datatype engine_op = ESet bytes bytes | EDelete bytes | EApply Batch

fun engine_step :: "engine_op \<Rightarrow> MemEngine \<Rightarrow> MemEngine" where
  "engine_step (ESet k v) m = Set k v m"
| "engine_step (EDelete k) m = Delete k m"
| "engine_step (EApply b) m = Apply b m"

fun map_step :: "engine_op \<Rightarrow> (bytes \<rightharpoonup> bytes) \<Rightarrow> (bytes \<rightharpoonup> bytes)" where
  "map_step (ESet k v) m = m(k \<mapsto> v)"
| "map_step (EDelete k) m = m(k := None)"
| "map_step (EApply b) m = batch_effect b m"

definition engine_run :: "engine_op list \<Rightarrow> MemEngine" where
  "engine_run ops = fold engine_step ops NewMemEngine"

definition map_run :: "engine_op list \<Rightarrow> (bytes \<rightharpoonup> bytes)" where
  "map_run ops = fold map_step ops Map.empty"

lemma engine_step_refines:
  "mem_invar m \<Longrightarrow> mem_invar (engine_step o1 m) \<and> mem_contents (engine_step o1 m) = map_step o1 (mem_contents m)"
  by (cases o1) (simp_all add: mem.engine_laws)

lemma fold_engine_refines:
  "mem_invar m \<Longrightarrow> mem_invar (fold engine_step ops m) \<and>
     mem_contents (fold engine_step ops m) = fold map_step ops (mem_contents m)"
  by (induction ops arbitrary: m) (auto simp: engine_step_refines)

text \<open>C8: The sorted-slice engine refines a finite map. After any sequence of sets, deletes and atomic
  batches, \<open>Get\<close> and a snapshot's \<open>Get\<close> answer what the map holds. A scan of the engine or of a snapshot panics exactly when the map
  has a key before the start of the range that is not before its end; otherwise it lists exactly the map's entries in the half-open
  range, each key once and in ascending order.\<close>

theorem MemEngine_refines_map:
  "Get (engine_run ops) k = map_run ops k \<and> Snapshot_Get (Snapshot (engine_run ops)) k = map_run ops k \<and>
   Snapshot_Scan (Snapshot (engine_run ops)) s e = Scan (engine_run ops) s e \<and>
   (let inverted = (\<exists>k v. map_run ops k = Some v \<and> \<not> in_range s None k \<and> \<not> in_range None e k)
    in case Scan (engine_run ops) s e of
         None \<Rightarrow> inverted
       | Some it \<Rightarrow> \<not> inverted \<and>
           set (iter_collect it) = {(k, v). map_run ops k = Some v \<and> in_range s e k} \<and>
           sorted_wrt (<) (map fst (iter_collect it)))"
proof -
  let ?m = "engine_run ops"
  have m: "mem_invar ?m" "mem_contents ?m = map_run ops"
    using fold_engine_refines[of NewMemEngine ops] by (simp_all add: engine_run_def map_run_def)
  have srt: "sorted_entries (entries ?m)" using m(1) by (simp add: mem_invar_def)
  have mo: "map_run ops k = Some v \<longleftrightarrow> (k, v) \<in> set (entries ?m)" for k v
    using distinct_sorted_entries[OF srt] m(2) by (simp add: mem_contents_def flip: m(2))
  have inv: "(\<exists>x \<in> set (entries ?m). \<not> in_range s None (fst x) \<and> \<not> in_range None e (fst x)) \<longleftrightarrow>
      (\<exists>k v. map_run ops k = Some v \<and> \<not> in_range s None k \<and> \<not> in_range None e k)"
    unfolding mo by force
  have "Get ?m k = map_run ops k" using mem.engine_laws(1)[OF m(1)] m(2) by simp
  then show ?thesis
    using scan_range[OF srt, of s e] iter_collect_scan[of "entries ?m" s e] sorted_entries_filter[OF srt]
    unfolding inv by (auto simp: Snapshot_Get_eq Snapshot_Scan_eq Scan_def Let_def mo sorted_entries_def split: option.splits)
qed

end
