(* ===== verification/WebTable.thy ===== *)
theory WebTable
  imports MemEngine GoStrings
begin

text \<open>
  \<open>storage/webtable.go\<close>: the document store as a key layout over an \<open>engine\<close>. The operations take
  the engine calls they make as arguments; their laws are proved once inside the locale \<open>engine\<close>
  and hold for the reference engine by its interpretation. A crawl timestamp is an \<open>int64\<close>, kept as
  its 64-bit pattern and read by \<open>sint\<close>; its conversion to \<open>uint64\<close> in the key is then the identity, and the key order is the
  unsigned order of the patterns.
\<close>

type_synonym Family = byte

type_synonym int64 = "64 word"

definition FamilyContents :: Family where "FamilyContents = 0"
definition FamilyAnchor :: Family where "FamilyAnchor = 1"
definition FamilyMeta :: Family where "FamilyMeta = 2"

definition ReverseHost :: "string \<Rightarrow> string" where
  "ReverseHost host =
     (let host = TrimSuffix (ToLower host) ''.''
      in if host = '''' then '''' else Join (rev (Split (CHR ''.'') host)) ''.'')"

definition RowKey :: "string \<Rightarrow> string \<Rightarrow> bytes" where
  "RowKey host path = bytes_of (ReverseHost host) @ bytes_of path"

text \<open>The order-preserving framing of a segment: \<open>0x00\<close> becomes \<open>0x00 0xFF\<close>, the end is \<open>0x00 0x00\<close>.\<close>

fun appendOrdered :: "bytes \<Rightarrow> bytes \<Rightarrow> bytes" where
  "appendOrdered dst [] = dst @ [0x00, 0x00]"
| "appendOrdered dst (c # seg) = appendOrdered (if c = 0x00 then dst @ [0x00, 0xFF] else dst @ [c]) seg"

text \<open>\<open>binary.BigEndian.PutUint64\<close>: the low \<open>n\<close> bytes of a word, most significant first.\<close>

fun be_bytes :: "nat \<Rightarrow> u64 \<Rightarrow> bytes" where
  "be_bytes 0 x = []"
| "be_bytes (Suc n) x = ucast (drop_bit (8 * n) x) # be_bytes n x"

fun be_read :: "u64 \<Rightarrow> bytes \<Rightarrow> u64" where
  "be_read acc [] = acc"
| "be_read acc (b # bs) = be_read (push_bit 8 acc OR ucast b) bs"

definition rowFamilyPrefix :: "bytes \<Rightarrow> Family \<Rightarrow> bytes" where
  "rowFamilyPrefix row fam = appendOrdered [] row @ [fam]"

definition cellKeyQualPrefix :: "bytes \<Rightarrow> Family \<Rightarrow> bytes \<Rightarrow> bytes" where
  "cellKeyQualPrefix row fam qual = appendOrdered (appendOrdered [] row @ [fam]) qual"

definition cellKey :: "bytes \<Rightarrow> Family \<Rightarrow> bytes \<Rightarrow> int64 \<Rightarrow> bytes" where
  "cellKey row fam qual tsNanos =
     appendOrdered (appendOrdered [] row @ [fam]) qual @ be_bytes 8 (NOT tsNanos)"

definition decodeTS :: "bytes \<Rightarrow> int64" where
  "decodeTS key = (if length key < 8 then 0 else NOT (be_read 0 (drop (length key - 8) key)))"

text \<open>\<open>decodeOrdered\<close> stops at the first \<open>0x00\<close> that is not followed by \<open>0xFF\<close>.\<close>

fun decodeOrdered :: "bytes \<Rightarrow> bytes" where
  "decodeOrdered [] = []"
| "decodeOrdered (b # bs) =
     (if b = 0x00 then
        (case bs of
           [] \<Rightarrow> []
         | c # cs \<Rightarrow> if c = 0xFF then 0x00 # decodeOrdered cs else [])
      else b # decodeOrdered bs)"

definition decodeQualifier :: "bytes \<Rightarrow> bytes \<Rightarrow> bytes" where
  "decodeQualifier key row =
     (let i = length (appendOrdered [] row) + 1
      in if i > length key then [] else decodeOrdered (drop i key))"

record Cell =
  Qualifier :: bytes
  TSNanos :: int64
  Cell_Value :: bytes

definition Put :: "(bytes \<Rightarrow> bytes \<Rightarrow> 'e \<Rightarrow> 'e) \<Rightarrow> bytes \<Rightarrow> Family \<Rightarrow> bytes \<Rightarrow> int64 \<Rightarrow> bytes \<Rightarrow> 'e \<Rightarrow> 'e" where
  "Put set_key row fam qual tsNanos val e = set_key (cellKey row fam qual tsNanos) val e"

definition Latest ::
  "('e \<Rightarrow> bytes option \<Rightarrow> bytes option \<Rightarrow> (bytes \<times> bytes) list) \<Rightarrow> 'e \<Rightarrow> bytes \<Rightarrow> Family \<Rightarrow> bytes \<Rightarrow> Cell option" where
  "Latest scan e row fam qual =
     (let p = cellKeyQualPrefix row fam qual
      in case scan e (Some p) (PrefixEnd p) of
           [] \<Rightarrow> None
         | (k, v) # _ \<Rightarrow> Some \<lparr>Qualifier = qual, TSNanos = decodeTS k, Cell_Value = v\<rparr>)"

text \<open>The loop of \<open>ScanFamily\<close>; the last qualifier is \<open>None\<close> until \<open>started\<close>.\<close>

fun ScanFamily_loop :: "bytes \<Rightarrow> bytes option \<Rightarrow> (bytes \<times> bytes) list \<Rightarrow> Cell list" where
  "ScanFamily_loop row lastQual [] = []"
| "ScanFamily_loop row lastQual ((k, v) # kvs) =
     (let qual = decodeQualifier k row
      in if lastQual = Some qual then ScanFamily_loop row lastQual kvs
         else \<lparr>Qualifier = qual, TSNanos = decodeTS k, Cell_Value = v\<rparr> # ScanFamily_loop row (Some qual) kvs)"

definition ScanFamily ::
  "('e \<Rightarrow> bytes option \<Rightarrow> bytes option \<Rightarrow> (bytes \<times> bytes) list) \<Rightarrow> 'e \<Rightarrow> bytes \<Rightarrow> Family \<Rightarrow> Cell list" where
  "ScanFamily scan e row fam =
     (let p = rowFamilyPrefix row fam in ScanFamily_loop row None (scan e (Some p) (PrefixEnd p)))"

fun GCVersions_loop :: "bytes \<Rightarrow> int \<Rightarrow> bytes option \<Rightarrow> int \<Rightarrow> Batch \<Rightarrow> (bytes \<times> bytes) list \<Rightarrow> Batch" where
  "GCVersions_loop row keepN lastQual seen b [] = b"
| "GCVersions_loop row keepN lastQual seen b ((k, v) # kvs) =
     (let qual = decodeQualifier k row
      in if lastQual \<noteq> Some qual then GCVersions_loop row keepN (Some qual) 1 b kvs
         else let seen = seen + 1
              in GCVersions_loop row keepN lastQual seen (if seen > keepN then Batch_Delete k b else b) kvs)"

definition GCVersions ::
  "('e \<Rightarrow> bytes option \<Rightarrow> bytes option \<Rightarrow> (bytes \<times> bytes) list) \<Rightarrow> (Batch \<Rightarrow> 'e \<Rightarrow> 'e) \<Rightarrow>
   bytes \<Rightarrow> Family \<Rightarrow> int \<Rightarrow> 'e \<Rightarrow> 'e" where
  "GCVersions scan apply_batch row fam keepN e =
     (let p = rowFamilyPrefix row fam;
          b = GCVersions_loop row keepN None 0 [] (scan e (Some p) (PrefixEnd p))
      in if Batch_Len b = 0 then e else apply_batch b e)"

subsection \<open>The segment framing\<close>

fun escape :: "bytes \<Rightarrow> bytes" where
  "escape [] = []"
| "escape (c # seg) = (if c = 0x00 then [0x00, 0xFF] else [c]) @ escape seg"

lemma appendOrdered_eq: "appendOrdered dst seg = dst @ escape seg @ [0x00, 0x00]"
  by (induction dst seg rule: appendOrdered.induct) auto

abbreviation framed :: "bytes \<Rightarrow> bytes" where
  "framed seg \<equiv> escape seg @ [0x00, 0x00]"

lemma decodeOrdered_framed [codec]: "decodeOrdered (framed seg @ rest) = seg"
  by (induction seg rule: escape.induct) auto

lemma framed_inject: "framed a @ x = framed b @ y \<longleftrightarrow> a = b \<and> x = y"
proof
  assume eq: "framed a @ x = framed b @ y"
  then have "a = b" by (metis decodeOrdered_framed)
  with eq show "a = b \<and> x = y" by simp
qed simp

text \<open>The framing preserves the lexicographic order of segments, whatever follows them.\<close>

lemma framed_less: "a < b \<Longrightarrow> framed a @ x < framed b @ y"
proof (induction a arbitrary: b)
  case Nil
  then obtain c b' where b: "b = c # b'" by (cases b) auto
  show ?case
  proof (cases "c = 0x00")
    case False
    then have "(0x00 :: byte) < c" by (simp add: word_gt_0)
    with False show ?thesis by (simp add: b)
  qed (simp add: b word_less_nat_alt)
next
  case (Cons c a)
  then obtain d b' where b: "b = d # b'" by (cases b) auto
  show ?case
  proof (cases "c = d")
    case True
    with Cons b show ?thesis by simp
  next
    case False
    with Cons.prems b have "c < d" by simp
    moreover from this have "d \<noteq> 0" by auto
    ultimately show ?thesis by (auto simp: b word_gt_0)
  qed
qed

lemma framed_less_iff: "framed a @ x < framed b @ y \<longleftrightarrow> a < b \<or> a = b \<and> x < y"
proof (cases a b rule: linorder_cases)
  case less
  then show ?thesis using framed_less by blast
next
  case greater
  then show ?thesis using framed_less[of b a y x] by (meson less_asym less_irrefl)
next
  case equal
  then show ?thesis using append_less_cancel[of "framed b" x y] by simp
qed

subsection \<open>Big-endian timestamps\<close>

lemma length_be_bytes [simp]: "length (be_bytes n x) = n"
  by (induction n) auto

lemma be_bytes_less:
  "be_bytes n x < be_bytes n y \<longleftrightarrow> unat x mod 256 ^ n < unat y mod 256 ^ n"
proof (induction n)
  case (Suc n)
  have s: "z mod 256 ^ Suc n = z mod 256 ^ n + 256 ^ n * (z div 256 ^ n mod 256)" for z :: nat
    unfolding power_Suc2 mod_mult2_eq by simp
  have d: "unat (ucast (drop_bit (8 * n) z) :: byte) = unat z div 256 ^ n mod 256" for z :: u64
    by (simp add: unat_ucast_mod unat_drop_bit power_mult)
  show ?case
    unfolding s by (simp add: digit_lex Suc.IH word_less_nat_alt word_unat_eq_iff d)
qed simp

lemma be_bytes8_less: "be_bytes 8 x < be_bytes 8 y \<longleftrightarrow> x < y"
  by (simp add: be_bytes_less word_less_nat_alt)

lemma be_bytes8_eq: "be_bytes 8 x = be_bytes 8 y \<longleftrightarrow> x = y"
  using be_bytes8_less[of x y] be_bytes8_less[of y x] by (metis less_irrefl linorder_less_linear)

lemma be_read_be_bytes:
  assumes "(unat acc + 1) * 256 ^ n \<le> 2 ^ 64"
  shows "unat (be_read acc (be_bytes n x)) = unat acc * 256 ^ n + unat x mod 256 ^ n"
  using assms
proof (induction n arbitrary: acc)
  case (Suc n)
  let ?b = "ucast (drop_bit (8 * n) x) :: byte"
  have d: "unat ?b = unat x div 256 ^ n mod 256"
    by (simp add: unat_ucast_mod unat_drop_bit power_mult)
  have s: "unat x mod 256 ^ Suc n = unat x mod 256 ^ n + 256 ^ n * (unat x div 256 ^ n mod 256)"
    unfolding power_Suc2 mod_mult2_eq by simp
  have "(unat acc + 1) * 256 \<le> (unat acc + 1) * 256 ^ Suc n" by (intro mult_le_mono2) simp
  also have "\<dots> \<le> 2 ^ 64" by (rule Suc.prems(1))
  finally have fit: "unat acc * 2 ^ 8 < 2 ^ 64" by simp
  have "unat (push_bit 8 acc OR ucast ?b) = unat (ucast ?b OR push_bit 8 acc)" by (simp add: or.commute)
  also have "\<dots> = unat ?b + unat acc * 256"
    using unat_or_push_bit[of "ucast ?b :: u64" 8 acc] fit by simp
  finally have a: "unat (push_bit 8 acc OR ucast ?b) = unat ?b + unat acc * 256" .
  have "(unat ?b + unat acc * 256 + 1) * 256 ^ n \<le> ((unat acc + 1) * 256) * 256 ^ n"
    using unat_byte_le[of ?b] by (intro mult_le_mono1) simp
  also have "\<dots> = (unat acc + 1) * 256 ^ Suc n" by (simp only: power_Suc mult.assoc)
  also have "\<dots> \<le> 2 ^ 64" by (rule Suc.prems)
  finally have "unat (be_read (push_bit 8 acc OR ucast ?b) (be_bytes n x))
      = (unat ?b + unat acc * 256) * 256 ^ n + unat x mod 256 ^ n"
    using Suc.IH[of "push_bit 8 acc OR ucast ?b"] by (simp only: a)
  then show ?case unfolding s by (simp only: be_bytes.simps be_read.simps d) (simp add: algebra_simps)
qed simp

lemma be_read_be_bytes8: "be_read 0 (be_bytes 8 x) = x"
  using be_read_be_bytes[of 0 8 x] by (simp add: word_unat_eq_iff)

subsection \<open>Cell keys\<close>

lemma cellKey_eq: "cellKey row fam qual ts = framed row @ fam # framed qual @ be_bytes 8 (NOT ts)"
  by (simp add: cellKey_def appendOrdered_eq)

lemma cellKeyQualPrefix_eq: "cellKeyQualPrefix row fam qual = framed row @ fam # framed qual"
  by (simp add: cellKeyQualPrefix_def appendOrdered_eq)

lemma rowFamilyPrefix_eq: "rowFamilyPrefix row fam = framed row @ [fam]"
  by (simp add: rowFamilyPrefix_def appendOrdered_eq)

lemma cellKey_inject [simp]:
  "cellKey row fam qual ts = cellKey row' fam' qual' ts' \<longleftrightarrow> row = row' \<and> fam = fam' \<and> qual = qual' \<and> ts = ts'"
  unfolding cellKey_eq using framed_inject be_bytes8_eq by auto

lemma prefix_cellKey_qual:
  "prefix (cellKeyQualPrefix row fam qual) (cellKey row' fam' qual' ts) \<longleftrightarrow> row = row' \<and> fam = fam' \<and> qual = qual'"
  unfolding cellKey_eq cellKeyQualPrefix_eq prefix_def
  using framed_inject[of row' "fam' # framed qual' @ be_bytes 8 (NOT ts)" row] framed_inject[of qual' _ qual]
  by auto

lemma prefix_cellKey_family:
  "prefix (rowFamilyPrefix row fam) (cellKey row' fam' qual ts) \<longleftrightarrow> row = row' \<and> fam = fam'"
  unfolding cellKey_eq rowFamilyPrefix_eq prefix_def
  using framed_inject[of row' "fam' # framed qual @ be_bytes 8 (NOT ts)" row] by auto

lemma decodeTS_cellKey [simp]: "decodeTS (cellKey row fam qual ts) = ts"
proof -
  have "decodeTS (p @ be_bytes 8 x) = NOT x" for p x
    by (simp add: decodeTS_def be_read_be_bytes8)
  then show ?thesis by (simp add: cellKey_def)
qed

lemma decodeQualifier_cellKey [simp]: "decodeQualifier (cellKey row fam qual ts) row = qual"
  using decodeOrdered_framed[of qual "be_bytes 8 (NOT ts)"]
  by (simp add: decodeQualifier_def cellKey_eq appendOrdered_eq)

text \<open>Within a row and family, keys order by qualifier, then newest first in the unsigned order
  of the timestamp.\<close>

lemma cellKey_less:
  "cellKey row fam q ts < cellKey row fam q' ts' \<longleftrightarrow> q < q' \<or> q = q' \<and> ts > ts'"
proof -
  have "uint (NOT x) = 2 ^ 64 - 1 - uint x" for x :: u64
  proof -
    have "(- uint x - 1 + 2 ^ 64) mod 2 ^ 64 = - uint x - 1 + 2 ^ 64"
    proof (rule mod_pos_pos_trivial)
      have "uint x < 2 ^ 64" using uint_bounded[of x] by simp
      then show "0 \<le> - uint x - 1 + 2 ^ 64" by linarith
      show "- uint x - 1 + 2 ^ 64 < 2 ^ 64" using uint_nonnegative[of x] by linarith
    qed
    moreover have "(- uint x - 1 + 2 ^ 64) mod 2 ^ 64 = (- uint x - 1) mod 2 ^ 64" by (rule mod_add_self2)
    ultimately have "(- uint x - 1) mod 2 ^ 64 = 2 ^ 64 - 1 - uint x" by linarith
    then show ?thesis by (simp add: unsigned_not_eq take_bit_eq_mod not_int_def)
  qed
  then have "NOT ts < NOT ts' \<longleftrightarrow> ts' < ts" by (simp add: word_less_def)
  then show ?thesis
    unfolding cellKey_eq using append_less_cancel[of "framed row @ [fam]" "framed q @ be_bytes 8 (NOT ts)"]
      framed_less_iff[of q _ q'] be_bytes8_less by simp
qed


subsection \<open>Cells of a family\<close>

type_synonym version = "bytes \<times> u64 \<times> bytes"

fun version_entry :: "bytes \<Rightarrow> Family \<Rightarrow> version \<Rightarrow> bytes \<times> bytes" where
  "version_entry row fam (q, ts, v) = (cellKey row fam q ts, v)"

fun version_cell :: "version \<Rightarrow> Cell" where
  "version_cell (q, ts, v) = \<lparr>Qualifier = q, TSNanos = ts, Cell_Value = v\<rparr>"

text \<open>The order of cell keys read on versions: by qualifier, then newest first.\<close>

fun version_less :: "version \<Rightarrow> version \<Rightarrow> bool" where
  "version_less (q, ts, v) (q', ts', v') \<longleftrightarrow> q < q' \<or> q = q' \<and> ts' < ts"

lemma version_entry_less: "fst (version_entry row fam c) < fst (version_entry row fam c') \<longleftrightarrow> version_less c c'"
  by (cases c; cases c') (simp add: cellKey_less)

lemma version_less_same: "version_less c d \<Longrightarrow> fst c = fst d \<Longrightarrow> fst (snd d) < fst (snd c)"
  by (cases c; cases d) simp

lemma sorted_version_entries:
  "sorted_wrt (<) (map fst (map (version_entry row fam) cs)) \<longleftrightarrow> sorted_wrt version_less cs"
  by (induction cs) (auto simp: version_entry_less)

text \<open>\<open>ScanFamily_loop\<close> keeps the first version of each qualifier.\<close>

lemma ScanFamily_loop_versions:
  fixes row fam
  assumes "sorted_wrt version_less cs" "\<forall>c \<in> set cs. \<forall>q. lq = Some q \<longrightarrow> q \<le> fst c"
  defines "out \<equiv> ScanFamily_loop row lq (map (version_entry row fam) cs)"
  shows "sorted_wrt (<) (map Qualifier out)"
    and "set out = version_cell ` {c \<in> set cs. lq \<noteq> Some (fst c) \<and> (\<forall>d \<in> set cs. fst d = fst c \<longrightarrow> fst (snd d) \<le> fst (snd c))}"
proof -
  have "sorted_wrt (<) (map Qualifier (ScanFamily_loop row lq (map (version_entry row fam) cs))) \<and>
     set (ScanFamily_loop row lq (map (version_entry row fam) cs)) =
       version_cell ` {c \<in> set cs. lq \<noteq> Some (fst c) \<and> (\<forall>d \<in> set cs. fst d = fst c \<longrightarrow> fst (snd d) \<le> fst (snd c))}"
    using assms(1,2)
  proof (induction cs arbitrary: lq)
    case (Cons c cs)
    obtain q ts v where c: "c = (q, ts, v)" by (cases c)
    from Cons.prems have srt: "sorted_wrt version_less cs"
      and hd: "\<forall>d \<in> set cs. q \<le> fst d \<and> (fst d = q \<longrightarrow> fst (snd d) < ts)"
      by (fastforce simp: c)+
    show ?case
    proof (cases "lq = Some q")
      case True
      with Cons.IH[OF srt, of lq] hd show ?thesis by (auto simp: c)
    next
      case False
      note IH = Cons.IH[OF srt, of "Some q"]
      have "sorted_wrt (<) (map Qualifier (ScanFamily_loop row (Some q) (map (version_entry row fam) cs)))"
        "set (ScanFamily_loop row (Some q) (map (version_entry row fam) cs)) =
         version_cell ` {d \<in> set cs. q \<noteq> fst d \<and> (\<forall>d' \<in> set cs. fst d' = fst d \<longrightarrow> fst (snd d') \<le> fst (snd d))}"
        using IH hd by auto
      moreover have "lq \<noteq> Some (fst d)" if "d \<in> set cs" "q \<noteq> fst d" for d
        using Cons.prems(2) that hd by (force simp: c)
      then have "{d \<in> set (c # cs). lq \<noteq> Some (fst d) \<and> (\<forall>d' \<in> set (c # cs). fst d' = fst d \<longrightarrow> fst (snd d') \<le> fst (snd d))}
          = insert c {d \<in> set cs. q \<noteq> fst d \<and> (\<forall>d' \<in> set cs. fst d' = fst d \<longrightarrow> fst (snd d') \<le> fst (snd d))}"
        using False hd by (auto simp: c)
      moreover have "q < fst d" if "d \<in> set cs" "q \<noteq> fst d" for d using hd that by (auto simp: order_less_le)
      ultimately show ?thesis using False by (auto simp: c)
    qed
  qed simp
  then show "sorted_wrt (<) (map Qualifier out)"
    "set out = version_cell ` {c \<in> set cs. lq \<noteq> Some (fst c) \<and> (\<forall>d \<in> set cs. fst d = fst c \<longrightarrow> fst (snd d) \<le> fst (snd c))}"
    by (simp_all add: out_def)
qed

text \<open>The deletions \<open>GCVersions\<close> queues: the versions with at least one, and at least \<open>keepN\<close>, newer
  versions of their cell before them.\<close>

definition stale :: "int \<Rightarrow> nat \<Rightarrow> bool" where
  "stale keepN newer \<longleftrightarrow> newer \<ge> 1 \<and> int newer \<ge> keepN"

abbreviation same_cell :: "version list \<Rightarrow> version \<Rightarrow> version list" where
  "same_cell cs c \<equiv> filter (\<lambda>d. fst d = fst c) cs"

fun stale_versions :: "int \<Rightarrow> version list \<Rightarrow> version list \<Rightarrow> version list" where
  "stale_versions keepN pre [] = []"
| "stale_versions keepN pre (c # cs) =
     (if stale keepN (length (same_cell pre c)) then [c] else []) @ stale_versions keepN (pre @ [c]) cs"

lemma stale_versions_iff:
  "c \<in> set (stale_versions keepN pre cs) \<longleftrightarrow>
     (\<exists>as bs. cs = as @ c # bs \<and> stale keepN (length (same_cell (pre @ as) c)))"
proof (induction cs arbitrary: pre)
  case (Cons d cs)
  have "(\<exists>as bs. d # cs = as @ c # bs \<and> P as) \<longleftrightarrow> c = d \<and> P [] \<or> (\<exists>as bs. cs = as @ c # bs \<and> P (d # as))" for P
    by (auto simp: Cons_eq_append_conv)
  from this[of "\<lambda>as. stale keepN (length (same_cell (pre @ as) c))"] show ?case
    by (simp add: Cons.IH) auto
qed simp

abbreviation del_op :: "bytes \<Rightarrow> op" where
  "del_op k \<equiv> \<lparr>op_key = k, op_value = [], op_del = True\<rparr>"

lemma GCVersions_loop_versions:
  assumes "sorted_wrt version_less (pre @ cs)"
    and "lastQual = (if pre = [] then None else Some (fst (last pre)))"
    and "pre \<noteq> [] \<longrightarrow> seen = int (length (same_cell pre (last pre)))"
  shows "GCVersions_loop row keepN lastQual seen b (map (version_entry row fam) cs) =
           b @ map (\<lambda>c. del_op (fst (version_entry row fam c))) (stale_versions keepN pre cs)"
  using assms
proof (induction cs arbitrary: pre lastQual seen b)
  case (Cons c cs)
  obtain q ts v where c: "c = (q, ts, v)" by (cases c)
  have srt: "sorted_wrt version_less ((pre @ [c]) @ cs)" using Cons.prems(1) by simp
  note IH = Cons.IH[OF srt]
  show ?case
  proof (cases "lastQual = Some q")
    case True
    then have ne: "pre \<noteq> []" "fst (last pre) = q" using Cons.prems(2) by (auto split: if_splits)
    then have s: "seen = int (length (same_cell pre c))" "same_cell pre c \<noteq> []"
      using Cons.prems(3) last_in_set[OF ne(1)] by (auto simp: c filter_empty_conv)
    then have "stale keepN (length (same_cell pre c)) \<longleftrightarrow> seen + 1 > keepN"
      by (auto simp: stale_def Suc_le_eq)
    with True s IH[of lastQual "seen + 1"] show ?thesis by (simp add: c Let_def Batch_Delete_def)
  next
    case False
    have "same_cell pre c = []"
    proof (rule ccontr)
      assume "same_cell pre c \<noteq> []"
      then obtain d where d: "d \<in> set pre" "fst d = q" by (auto simp: filter_empty_conv c)
      then have ne: "pre \<noteq> []" by auto
      with False Cons.prems(2) have "fst (last pre) \<noteq> q" by simp
      moreover have "fst (last pre) \<le> q"
        using Cons.prems(1) last_in_set[OF ne] by (cases "last pre") (force simp: sorted_wrt_append c)
      moreover have "q \<le> fst (last pre)"
      proof (cases "d = last pre")
        case False
        obtain pre' where pre: "pre = pre' @ [last pre]" using ne by (metis append_butlast_last_id)
        with d(1) False have "d \<in> set pre'" by (metis Un_iff empty_iff empty_set set_ConsD set_append)
        moreover have "sorted_wrt version_less (pre' @ [last pre])"
          using Cons.prems(1) pre by (simp add: sorted_wrt_append)
        ultimately have "version_less d (last pre)" by (simp add: sorted_wrt_append)
        with d(2) show ?thesis by (cases d; cases "last pre") auto
      qed (use d in simp)
      ultimately show False by simp
    qed
    with False IH[of "Some q" 1] show ?thesis by (simp add: c Let_def stale_def)
  qed
qed simp

lemma batch_effect_deletes:
  "batch_effect (map del_op ks) m = (\<lambda>k. if k \<in> set ks then None else m k)"
  by (induction ks arbitrary: m) (auto simp: op_effect_def fun_eq_iff)

subsection \<open>The table over any engine\<close>

context engine
begin

definition wt_wf :: "'e \<Rightarrow> bool" where
  "wt_wf e \<longleftrightarrow> invar e \<and> (\<forall>k \<in> dom (contents e). \<exists>row fam qual ts. k = cellKey row fam qual ts)"

definition stored :: "'e \<Rightarrow> bytes \<Rightarrow> Family \<Rightarrow> bytes \<Rightarrow> u64 \<rightharpoonup> bytes" where
  "stored e row fam qual ts = contents e (cellKey row fam qual ts)"

lemma wt_wf_Put: "wt_wf e \<Longrightarrow> wt_wf (Put set_key row fam qual ts v e)"
  unfolding wt_wf_def Put_def by (auto simp: set_key invar_set)

lemma stored_Put:
  "wt_wf e \<Longrightarrow> stored (Put set_key row fam qual ts v e) r f q t =
     (if (r, f, q, t) = (row, fam, qual, ts) then Some v else stored e r f q t)"
  by (simp add: wt_wf_def stored_def Put_def set_key)

lemma scan_versions:
  assumes "wt_wf e"
    and "\<And>r f q ts. prefix p (cellKey r f q ts) \<longleftrightarrow> r = row \<and> f = fam \<and> Q q"
  obtains cs where "scan e (Some p) (PrefixEnd p) = map (version_entry row fam) cs"
    "sorted_wrt version_less cs"
    "set cs = {(q, ts, v). Q q \<and> stored e row fam q ts = Some v}"
proof -
  have inv: "invar e" using assms by (simp add: wt_wf_def)
  let ?S = "scan e (Some p) (PrefixEnd p)"
  let ?dec = "\<lambda>(k, v). (decodeQualifier k row, decodeTS k, v)"
  have all: "\<exists>q ts v. x = version_entry row fam (q, ts, v) \<and> Q q \<and> stored e row fam q ts = Some v" if "x \<in> set ?S" for x
  proof -
    obtain k v where x: "x = (k, v)" by (cases x)
    with that have k: "contents e k = Some v" "prefix p k" using scan_prefix(1)[OF inv, of p] by auto
    obtain r f q ts where kq: "k = cellKey r f q ts"
      using assms(1) domI[of "contents e", OF k(1)] unfolding wt_wf_def by metis
    with k(2) assms(2) have "r = row" "f = fam" "Q q" by simp_all
    with k x kq show ?thesis by (auto simp: stored_def)
  qed
  then have "version_entry row fam (?dec x) = x" if "x \<in> set ?S" for x using that by fastforce
  then have ent: "map (version_entry row fam) (map ?dec ?S) = ?S" unfolding map_map by (intro map_idI) simp
  have set: "set (map ?dec ?S) = {(q, ts, v). Q q \<and> stored e row fam q ts = Some v}" (is "?L = ?R")
  proof
    show "?L \<subseteq> ?R" using all by fastforce
    have "(cellKey row fam q ts, v) \<in> set ?S" if "Q q" "stored e row fam q ts = Some v" for q ts v
      using that scan_prefix(1)[OF inv, of p] assms(2) by (auto simp: stored_def)
    then show "?R \<subseteq> ?L" by force
  qed
  have "sorted_wrt (<) (map fst (map (version_entry row fam) (map ?dec ?S)))"
    unfolding ent by (rule scan_prefix(2)[OF inv])
  then have "sorted_wrt version_less (map ?dec ?S)" unfolding sorted_version_entries .
  with set show thesis by (intro that[OF ent[symmetric]])
qed

lemmas family_versions = scan_versions[where p = "rowFamilyPrefix row fam" and row = row and fam = fam
    and Q = "\<lambda>_. True" for row fam, simplified prefix_cellKey_family, simplified]

lemmas cell_versions = scan_versions[where p = "cellKeyQualPrefix row fam qual" and row = row and fam = fam
    and Q = "\<lambda>q. q = qual" for row fam qual, simplified prefix_cellKey_qual, simplified]

lemma Latest_Some:
  assumes "wt_wf e"
  shows "Latest scan e row fam qual = Some c \<longleftrightarrow>
     Qualifier c = qual \<and> Cell.more c = () \<and> stored e row fam qual (TSNanos c) = Some (Cell_Value c) \<and>
     (\<forall>ts \<in> dom (stored e row fam qual). ts \<le> TSNanos c)"
proof -
  obtain cs where cs: "scan e (Some (cellKeyQualPrefix row fam qual)) (PrefixEnd (cellKeyQualPrefix row fam qual))
      = map (version_entry row fam) cs" "sorted_wrt version_less cs"
    "set cs = {(q, ts, v). q = qual \<and> stored e row fam q ts = Some v}"
    using assms by (rule cell_versions) auto
  show ?thesis
  proof (cases cs)
    case Nil
    then have "stored e row fam qual ts = None" for ts using cs(3) by (cases "stored e row fam qual ts") auto
    with Nil cs(1) show ?thesis by (simp add: Latest_def)
  next
    case (Cons d ds)
    have "d \<in> {(q, ts, v). q = qual \<and> stored e row fam q ts = Some v}"
      using cs(3) Cons by (metis list.set_intros(1))
    then obtain ts v where d: "d = (qual, ts, v)" "stored e row fam qual ts = Some v" by auto
    have max: "ts' \<le> ts" if "stored e row fam qual ts' = Some v'" for ts' v'
    proof -
      have "(qual, ts', v') \<in> set (d # ds)" using that cs(3) Cons by auto
      with cs(2) Cons d(1) show ?thesis by auto
    qed
    have "Latest scan e row fam qual = Some \<lparr>Qualifier = qual, TSNanos = ts, Cell_Value = v\<rparr>"
      using cs(1) Cons d by (simp add: Latest_def)
    moreover have "ts = ts'" if "\<forall>t \<in> dom (stored e row fam qual). t \<le> ts'" "stored e row fam qual ts' = Some v'" for ts' v'
      using that max d(2) by (meson antisym domI)
    ultimately show ?thesis using d(2) max by (cases c) fastforce
  qed
qed

lemma Latest_None:
  assumes "wt_wf e"
  shows "Latest scan e row fam qual = None \<longleftrightarrow> stored e row fam qual = Map.empty"
proof
  assume none: "Latest scan e row fam qual = None"
  show "stored e row fam qual = Map.empty"
  proof (rule ccontr)
    assume "stored e row fam qual \<noteq> Map.empty"
    then have ne: "dom (stored e row fam qual) \<noteq> {}" by simp
    let ?m = "Max (dom (stored e row fam qual))"
    have "?m \<in> dom (stored e row fam qual)" using ne by (intro Max_in) auto
    then obtain v where "stored e row fam qual ?m = Some v" by auto
    moreover have "\<forall>ts \<in> dom (stored e row fam qual). ts \<le> ?m" by simp
    ultimately have "Latest scan e row fam qual = Some \<lparr>Qualifier = qual, TSNanos = ?m, Cell_Value = v\<rparr>"
      using Latest_Some[OF assms] by simp
    with none show False by simp
  qed
next
  assume "stored e row fam qual = Map.empty"
  then show "Latest scan e row fam qual = None" using Latest_Some[OF assms, of row fam qual]
    by (cases "Latest scan e row fam qual") auto
qed

lemma ScanFamily_spec:
  assumes "wt_wf e"
  shows "sorted_wrt (<) (map Qualifier (ScanFamily scan e row fam))"
    and "set (ScanFamily scan e row fam) = {c. Latest scan e row fam (Qualifier c) = Some c}"
proof -
  obtain cs where cs: "scan e (Some (rowFamilyPrefix row fam)) (PrefixEnd (rowFamilyPrefix row fam))
      = map (version_entry row fam) cs" "sorted_wrt version_less cs"
    "set cs = {(q, ts, v). stored e row fam q ts = Some v}"
    using assms by (rule family_versions) auto
  note L = ScanFamily_loop_versions[OF cs(2), where lq = None and row = row and fam = fam, simplified]
  show "sorted_wrt (<) (map Qualifier (ScanFamily scan e row fam))"
    using L(1) cs(1) by (simp add: ScanFamily_def)
  have "set (ScanFamily scan e row fam) =
     version_cell ` {c \<in> set cs. \<forall>d \<in> set cs. fst d = fst c \<longrightarrow> fst (snd d) \<le> fst (snd c)}"
    using L(2) cs(1) by (simp add: ScanFamily_def)
  also have "\<dots> = {c. Latest scan e row fam (Qualifier c) = Some c}"
  proof (rule set_eqI)
    fix c :: Cell
    obtain q ts v where c: "c = version_cell (q, ts, v)" by (cases c) auto
    have "inj version_cell" by (rule injI) auto
    then have "c \<in> version_cell ` S \<longleftrightarrow> (q, ts, v) \<in> S" for S unfolding c by (rule inj_image_mem_iff)
    moreover have "(\<forall>d \<in> set cs. fst d = q \<longrightarrow> fst (snd d) \<le> ts) \<longleftrightarrow> (\<forall>t \<in> dom (stored e row fam q). t \<le> ts)"
      unfolding cs(3) by auto
    moreover have "(q, ts, v) \<in> set cs \<longleftrightarrow> stored e row fam q ts = Some v" unfolding cs(3) by simp
    ultimately show "c \<in> version_cell ` {c \<in> set cs. \<forall>d \<in> set cs. fst d = fst c \<longrightarrow> fst (snd d) \<le> fst (snd c)} \<longleftrightarrow>
       c \<in> {c. Latest scan e row fam (Qualifier c) = Some c}"
      by (simp add: Latest_Some[OF assms] c)
  qed
  finally show "set (ScanFamily scan e row fam) = {c. Latest scan e row fam (Qualifier c) = Some c}" .
qed

text \<open>Of the versions of a cell in the list, those before a version are the newer ones.\<close>

lemma newer_before:
  assumes "sorted_wrt version_less (as @ (q, ts, v) # bs)"
    and "set (as @ (q, ts, v) # bs) = {(q, ts, v). stored e row fam q ts = Some v}"
  shows "length (same_cell as (q, ts, v)) = card {t \<in> dom (stored e row fam q). ts < t}"
proof -
  let ?N = "same_cell as (q, ts, v)"
  have mem: "(q, t, w) \<in> set (as @ (q, ts, v) # bs) \<longleftrightarrow> stored e row fam q t = Some w" for t w
    unfolding assms(2) by simp
  have "sorted_wrt version_less ?N" using assms(1) by (simp add: sorted_wrt_append sorted_wrt_filter)
  then have "sorted_wrt (\<lambda>c d. fst (snd d) < fst (snd c)) ?N"
  proof (rule sorted_wrt_mono_rel[rotated])
    fix x y assume "x \<in> set ?N" "y \<in> set ?N" "version_less x y"
    then show "fst (snd y) < fst (snd x)" by (intro version_less_same) auto
  qed
  then have "distinct (map (fst \<circ> snd) ?N)" by (intro distinct_map_descending) simp
  then have "length ?N = card ((fst \<circ> snd) ` set ?N)"
    using distinct_card[of "map (fst \<circ> snd) ?N"] by (simp only: list.set_map length_map)
  also have "(fst \<circ> snd) ` set ?N = {t \<in> dom (stored e row fam q). ts < t}" (is "?L = ?R")
  proof
    have "stored e row fam q t = Some w \<and> ts < t" if "(q, t, w) \<in> set as" for t w
      using that mem[of t w] assms(1) by (auto simp: sorted_wrt_append)
    then show "?L \<subseteq> ?R" by auto
    have "(q, t, w) \<in> set as" if "stored e row fam q t = Some w" "ts < t" for t w
    proof -
      have "(q, t, w) \<in> set (as @ (q, ts, v) # bs)" using that mem by simp
      moreover have "(q, t, w) \<notin> set bs" using that(2) assms(1) by (auto simp: sorted_wrt_append)
      ultimately show ?thesis using that(2) by auto
    qed
    then show "?R \<subseteq> ?L" by force
  qed
  finally show ?thesis .
qed

lemma GCVersions_effect:
  assumes "wt_wf e"
  shows "invar (GCVersions scan apply_batch row fam keepN e)"
    and "contents (GCVersions scan apply_batch row fam keepN e) k =
      (if \<exists>q ts. k = cellKey row fam q ts \<and> ts \<in> dom (stored e row fam q) \<and>
            stale keepN (card {t \<in> dom (stored e row fam q). ts < t})
       then None else contents e k)"
proof -
  have inv: "invar e" using assms by (simp add: wt_wf_def)
  obtain cs where cs: "scan e (Some (rowFamilyPrefix row fam)) (PrefixEnd (rowFamilyPrefix row fam))
      = map (version_entry row fam) cs" "sorted_wrt version_less cs"
    "set cs = {(q, ts, v). stored e row fam q ts = Some v}"
    using assms by (rule family_versions) auto
  define ks where "ks = map (\<lambda>c. fst (version_entry row fam c)) (stale_versions keepN [] cs)"
  have "GCVersions_loop row keepN None 0 [] (map (version_entry row fam) cs) = map del_op ks"
    using GCVersions_loop_versions[where pre = "[]" and b = "[]" and cs = cs] cs(2) by (simp add: ks_def)
  then have gc: "GCVersions scan apply_batch row fam keepN e =
      (if map del_op ks = [] then e else apply_batch (map del_op ks) e)"
    using cs(1) by (simp add: GCVersions_def Batch_Len_def)
  then show "invar (GCVersions scan apply_batch row fam keepN e)" using inv by (simp add: invar_apply)
  have st: "(q, ts, v) \<in> set (stale_versions keepN [] cs) \<longleftrightarrow>
      stored e row fam q ts = Some v \<and> stale keepN (card {t \<in> dom (stored e row fam q). ts < t})" for q ts v
  proof -
    have "(q, ts, v) \<in> set (stale_versions keepN [] cs) \<longleftrightarrow>
       (\<exists>as bs. cs = as @ (q, ts, v) # bs \<and> stale keepN (card {t \<in> dom (stored e row fam q). ts < t}))"
    proof -
      have "length (same_cell as (q, ts, v)) = card {t \<in> dom (stored e row fam q). ts < t}"
        if "cs = as @ (q, ts, v) # bs" for as bs
        using cs(2,3) unfolding that by (rule newer_before)
      then show ?thesis unfolding stale_versions_iff append_Nil by auto
    qed
    also have "\<dots> \<longleftrightarrow> (q, ts, v) \<in> set cs \<and> stale keepN (card {t \<in> dom (stored e row fam q). ts < t})"
      by (auto simp: in_set_conv_decomp)
    finally show ?thesis using cs(3) by simp
  qed
  have "k \<in> set ks \<longleftrightarrow> (\<exists>q ts v. (q, ts, v) \<in> set (stale_versions keepN [] cs) \<and> k = cellKey row fam q ts)"
    unfolding ks_def by force
  then have "k \<in> set ks \<longleftrightarrow> (\<exists>q ts. k = cellKey row fam q ts \<and> ts \<in> dom (stored e row fam q) \<and>
      stale keepN (card {t \<in> dom (stored e row fam q). ts < t}))"
    unfolding st by auto
  moreover have "contents (GCVersions scan apply_batch row fam keepN e) k = (if k \<in> set ks then None else contents e k)"
    using gc inv by (simp add: apply_batch batch_effect_deletes)
  ultimately show "contents (GCVersions scan apply_batch row fam keepN e) k =
      (if \<exists>q ts. k = cellKey row fam q ts \<and> ts \<in> dom (stored e row fam q) \<and>
            stale keepN (card {t \<in> dom (stored e row fam q). ts < t})
       then None else contents e k)" by simp
qed

lemma wt_wf_GCVersions:
  assumes "wt_wf e"
  shows "wt_wf (GCVersions scan apply_batch row fam keepN e)"
proof -
  have "dom (contents (GCVersions scan apply_batch row fam keepN e)) \<subseteq> dom (contents e)"
    by (auto simp: GCVersions_effect(2)[OF assms] split: if_splits)
  then show ?thesis using assms GCVersions_effect(1)[OF assms] unfolding wt_wf_def by blast
qed

lemma stored_GCVersions:
  assumes "wt_wf e"
  shows "stored (GCVersions scan apply_batch row fam keepN e) r f q ts =
     (if r = row \<and> f = fam \<and> stale keepN (card {t \<in> dom (stored e row fam q). ts < t})
      then None else stored e r f q ts)"
  unfolding stored_def[of "GCVersions scan apply_batch row fam keepN e"] GCVersions_effect(2)[OF assms]
  by (auto simp: stored_def)

end

subsection \<open>Properties\<close>

text \<open>A table on the reference engine, built by any sequence of writes and garbage collections.\<close>

datatype table_op = OpPut bytes Family bytes u64 bytes | OpGC bytes Family int

fun table_step :: "table_op \<Rightarrow> MemEngine \<Rightarrow> MemEngine" where
  "table_step (OpPut row fam qual ts v) e = Put Set row fam qual ts v e"
| "table_step (OpGC row fam keepN) e = GCVersions mem_scan Apply row fam keepN e"

definition run_table :: "table_op list \<Rightarrow> MemEngine" where
  "run_table ops = fold table_step ops NewMemEngine"

abbreviation version_of :: "MemEngine \<Rightarrow> bytes \<Rightarrow> Family \<Rightarrow> bytes \<Rightarrow> u64 \<rightharpoonup> bytes" where
  "version_of e row fam qual ts \<equiv> Get e (cellKey row fam qual ts)"

lemma run_table_wf: "mem.wt_wf (run_table ops)"
proof (induction ops rule: rev_induct)
  case Nil
  then show ?case by (simp add: run_table_def mem.wt_wf_def)
next
  case (snoc op ops)
  then show ?case by (cases op) (simp_all add: run_table_def mem.wt_wf_Put mem.wt_wf_GCVersions)
qed

lemma version_of_stored: "version_of (run_table ops) row fam qual ts = mem.stored (run_table ops) row fam qual ts"
  using run_table_wf[of ops] by (simp add: mem.stored_def mem.wt_wf_def mem.get)

text \<open>The unsigned order of two patterns in terms of the signed numbers.\<close>

lemma pattern_less:
  fixes a b :: int64
  shows "a < b \<longleftrightarrow> (if (sint a < 0) = (sint b < 0) then sint a < sint b else sint b < 0)"
proof -
  have u: "0 \<le> uint x" "uint x < 2 ^ 64" for x :: int64 using uint_bounded[of x] by simp_all
  have s: "sint x = (if uint x < 2 ^ 63 then uint x else uint x - 2 ^ 64)" for x :: int64
  proof -
    have t: "sint x = (uint x + 2 ^ 63) mod 2 ^ 64 - 2 ^ 63"
      by (simp add: sint_uint signed_take_bit_eq_take_bit_shift take_bit_eq_mod)
    have "(uint x + 2 ^ 63) mod 2 ^ 64 = (if uint x < 2 ^ 63 then uint x + 2 ^ 63 else uint x + 2 ^ 63 - 2 ^ 64)"
      using u[of x] mod_add_self2[of "uint x + 2 ^ 63 - 2 ^ 64" "2 ^ 64"] by (auto simp: add.commute intro!: mod_pos_pos_trivial)
    then show ?thesis using t by auto
  qed
  show ?thesis using u[of a] u[of b] by (auto simp: s word_less_def)
qed

text \<open>C9: The byte order of cell keys is the order of the table: by row, then family, then qualifier, then newest version first,
  where a version from before 1970 (a negative timestamp) precedes every version from 1970 on. Distinct cells have distinct keys, and
  the qualifier and the timestamp decode from the key.\<close>

theorem cellKey_order:
  "(cellKey row fam q ts < cellKey row' fam' q' ts' \<longleftrightarrow>
      row < row' \<or> row = row' \<and> (fam < fam' \<or> fam = fam' \<and> (q < q' \<or> q = q' \<and>
        (if (sint ts < 0) = (sint ts' < 0) then sint ts' < sint ts else sint ts < 0)))) \<and>
   (cellKey row fam q ts = cellKey row' fam' q' ts' \<longleftrightarrow> (row, fam, q, ts) = (row', fam', q', ts')) \<and>
   decodeTS (cellKey row fam q ts) = ts \<and> decodeQualifier (cellKey row fam q ts) row = q"
proof -
  have "cellKey row fam q ts < cellKey row' fam' q' ts' \<longleftrightarrow>
      row < row' \<or> row = row' \<and> fam # framed q @ be_bytes 8 (NOT ts) < fam' # framed q' @ be_bytes 8 (NOT ts')"
    unfolding cellKey_eq using framed_less_iff[of row _ row'] by simp
  moreover have "framed q @ be_bytes 8 (NOT ts) < framed q' @ be_bytes 8 (NOT ts') \<longleftrightarrow> q < q' \<or> q = q' \<and> ts' < ts"
    using cellKey_less[of row fam q ts q' ts'] append_less_cancel[of "framed row @ [fam]"]
    unfolding cellKey_eq by simp
  ultimately show ?thesis using pattern_less[of ts' ts] by simp
qed

text \<open>In a table built by any sequence of \<open>Put\<close> and \<open>GCVersions\<close> calls, \<open>Latest\<close> returns the stored
  version of the cell with the greatest timestamp (as an unsigned word), and reports absence exactly
  when no version is stored.\<close>

theorem Latest_newest:
  "Latest mem_scan (run_table ops) row fam qual =
     (let V = {t. version_of (run_table ops) row fam qual t \<noteq> None}
      in if V = {} then None
         else Some \<lparr>Qualifier = qual, TSNanos = Max V,
                Cell_Value = the (version_of (run_table ops) row fam qual (Max V))\<rparr>)"
proof -
  let ?d = "dom (mem.stored (run_table ops) row fam qual)"
  have d: "{t. version_of (run_table ops) row fam qual t \<noteq> None} = ?d" by (auto simp: version_of_stored)
  show ?thesis
  proof (cases "?d = {}")
    case True
    then show ?thesis unfolding d using mem.Latest_None[OF run_table_wf] by simp
  next
    case False
    have "Max ?d \<in> ?d" using False by (intro Max_in) simp_all
    then obtain v where "mem.stored (run_table ops) row fam qual (Max ?d) = Some v" by blast
    moreover from this have "Latest mem_scan (run_table ops) row fam qual =
        Some \<lparr>Qualifier = qual, TSNanos = Max ?d, Cell_Value = v\<rparr>"
      unfolding mem.Latest_Some[OF run_table_wf] by simp
    ultimately show ?thesis using False unfolding d by (simp add: Let_def version_of_stored)
  qed
qed

text \<open>\<open>ScanFamily\<close> lists one cell per qualifier, in qualifier order, each the cell's latest version.\<close>

theorem ScanFamily_current_row:
  "sorted_wrt (<) (map Qualifier (ScanFamily mem_scan (run_table ops) row fam)) \<and>
   set (ScanFamily mem_scan (run_table ops) row fam) =
     {c. Latest mem_scan (run_table ops) row fam (Qualifier c) = Some c}"
  using mem.ScanFamily_spec[OF run_table_wf] by simp

text \<open>C5: \<open>GCVersions\<close> on a row and family removes exactly the versions with at least one, and at least
  \<open>keepN\<close>, newer stored versions of the same cell, and touches nothing else. Newer is meant in the order of the keys, in which
  a negative timestamp counts as later than every other.\<close>

theorem GCVersions_retention:
  "version_of (table_step (OpGC row fam keepN) (run_table ops)) r f q ts =
    (let newer = card {t. ts < t \<and> version_of (run_table ops) row fam q t \<noteq> None}
     in if r = row \<and> f = fam \<and> newer \<ge> 1 \<and> int newer \<ge> keepN then None
        else version_of (run_table ops) r f q ts)"
proof -
  have "{t \<in> dom (mem.stored (run_table ops) row fam q). ts < t} =
      {t. ts < t \<and> version_of (run_table ops) row fam q t \<noteq> None}" by (auto simp: version_of_stored)
  moreover have "table_step (OpGC row fam keepN) (run_table ops) = run_table (ops @ [OpGC row fam keepN])"
    by (simp add: run_table_def)
  ultimately show ?thesis
    using mem.stored_GCVersions[OF run_table_wf, of row fam keepN ops r f q ts]
    by (simp add: version_of_stored stale_def Let_def flip: table_step.simps(2))
qed

end
