(* ===== verification/LinkGraph.thy ===== *)
theory LinkGraph
  imports WebTable
begin

text \<open>
  \<open>storage/linkgraph.go\<close>: the adjacency index, each link written twice so that both directions are
  one prefix scan. As in \<open>WebTable\<close>, the operations take the engine calls they make as arguments.
  Anchor text is a Go string, a byte sequence.
\<close>

definition forwardTag :: byte where "forwardTag = 0x46"
definition backTag :: byte where "backTag = 0x42"

definition forwardKey :: "bytes \<Rightarrow> bytes \<Rightarrow> bytes" where
  "forwardKey src dst = appendOrdered (appendOrdered [forwardTag] src) dst"

definition backKey :: "bytes \<Rightarrow> bytes \<Rightarrow> bytes" where
  "backKey dst src = appendOrdered (appendOrdered [backTag] dst) src"

record Edge =
  Node :: bytes
  Anchor :: bytes

definition AddLink :: "(Batch \<Rightarrow> 'e \<Rightarrow> 'e) \<Rightarrow> bytes \<Rightarrow> bytes \<Rightarrow> bytes \<Rightarrow> 'e \<Rightarrow> 'e" where
  "AddLink apply_batch src dst anchor e =
     (let b = Batch_Set (forwardKey src dst) anchor [];
          b = Batch_Set (backKey dst src) anchor b
      in apply_batch b e)"

definition scanEdges ::
  "('e \<Rightarrow> bytes option \<Rightarrow> bytes option \<Rightarrow> (bytes \<times> bytes) list) \<Rightarrow> 'e \<Rightarrow> bytes \<Rightarrow> bytes \<Rightarrow> Edge list" where
  "scanEdges scan e p nodePrefix =
     map (\<lambda>(k, v). \<lparr>Node = decodeOrdered (drop (length nodePrefix) k), Anchor = v\<rparr>)
       (scan e (Some p) (PrefixEnd p))"

definition OutLinks ::
  "('e \<Rightarrow> bytes option \<Rightarrow> bytes option \<Rightarrow> (bytes \<times> bytes) list) \<Rightarrow> 'e \<Rightarrow> bytes \<Rightarrow> Edge list" where
  "OutLinks scan e src = (let p = appendOrdered [forwardTag] src in scanEdges scan e p p)"

definition InLinks ::
  "('e \<Rightarrow> bytes option \<Rightarrow> bytes option \<Rightarrow> (bytes \<times> bytes) list) \<Rightarrow> 'e \<Rightarrow> bytes \<Rightarrow> Edge list" where
  "InLinks scan e dst = (let p = appendOrdered [backTag] dst in scanEdges scan e p p)"

definition OutDegree ::
  "('e \<Rightarrow> bytes option \<Rightarrow> bytes option \<Rightarrow> (bytes \<times> bytes) list) \<Rightarrow> 'e \<Rightarrow> bytes \<Rightarrow> nat" where
  "OutDegree scan e src =
     (let p = appendOrdered [forwardTag] src in fold (\<lambda>_ n. n + 1) (scan e (Some p) (PrefixEnd p)) 0)"

subsection \<open>Edge keys\<close>

text \<open>Both key layouts are a tag and two framed segments.\<close>

definition edgeKey :: "byte \<Rightarrow> bytes \<Rightarrow> bytes \<Rightarrow> bytes" where
  "edgeKey tag a b = tag # framed a @ framed b"

lemma edge_keys: "forwardKey src dst = edgeKey forwardTag src dst" "backKey dst src = edgeKey backTag dst src"
  by (simp_all add: forwardKey_def backKey_def edgeKey_def appendOrdered_eq)

lemma edge_tags [simp]: "forwardTag \<noteq> backTag" "backTag \<noteq> forwardTag"
  by (simp_all add: forwardTag_def backTag_def)

lemma edgeKey_inject [simp]: "edgeKey t a b = edgeKey t' a' b' \<longleftrightarrow> t = t' \<and> a = a' \<and> b = b'"
  using framed_inject[of a "framed b" a' "framed b'"] framed_inject[of b "[]" b' "[]"]
  by (auto simp: edgeKey_def)

lemma edgeKey_less: "edgeKey t a b < edgeKey t a b' \<longleftrightarrow> b < b'"
  using framed_less_iff[of a "framed b" a "framed b'"] framed_less_iff[of b "[]" b' "[]"]
  by (simp add: edgeKey_def)

lemma prefix_edgeKey: "prefix (appendOrdered [t] a) (edgeKey t' a' b) \<longleftrightarrow> t = t' \<and> a = a'"
  unfolding edgeKey_def appendOrdered_eq prefix_def
  using framed_inject[of a' "framed b" a] by auto

lemma decode_edgeKey [simp]: "decodeOrdered (drop (length (appendOrdered [t] a)) (edgeKey t a b)) = b"
  using decodeOrdered_framed[of b "[]"] by (simp add: edgeKey_def appendOrdered_eq)

subsection \<open>The graph over any engine\<close>

context engine
begin

definition lg_wf :: "'e \<Rightarrow> bool" where
  "lg_wf e \<longleftrightarrow> invar e \<and> (\<forall>k \<in> dom (contents e). \<exists>t a b. k = edgeKey t a b) \<and>
     (\<forall>src dst. contents e (forwardKey src dst) = contents e (backKey dst src))"

definition link :: "'e \<Rightarrow> bytes \<Rightarrow> bytes \<rightharpoonup> bytes" where
  "link e src dst = contents e (forwardKey src dst)"

lemma AddLink_contents:
  "invar e \<Longrightarrow> contents (AddLink apply_batch src dst a e) =
     (contents e)(forwardKey src dst \<mapsto> a, backKey dst src \<mapsto> a)"
  by (simp add: AddLink_def apply_batch Batch_Set_def op_effect_def)

lemma lg_wf_AddLink: "lg_wf e \<Longrightarrow> lg_wf (AddLink apply_batch src dst a e)"
  by (auto simp: lg_wf_def AddLink_contents edge_keys) (simp add: AddLink_def invar_apply)

lemma link_AddLink:
  "lg_wf e \<Longrightarrow> link (AddLink apply_batch src dst a e) s d = (if s = src \<and> d = dst then Some a else link e s d)"
  by (auto simp: link_def lg_wf_def AddLink_contents edge_keys)

lemma scan_edges:
  assumes "lg_wf e"
  obtains ds where
    "scan e (Some (appendOrdered [t] a)) (PrefixEnd (appendOrdered [t] a)) = map (\<lambda>(b, v). (edgeKey t a b, v)) ds"
    "sorted_wrt (<) (map fst ds)" "set ds = {(b, v). contents e (edgeKey t a b) = Some v}"
proof -
  let ?p = "appendOrdered [t] a"
  let ?S = "scan e (Some ?p) (PrefixEnd ?p)"
  let ?dec = "\<lambda>(k, v). (decodeOrdered (drop (length ?p) k), v)"
  let ?enc = "\<lambda>(b, v). (edgeKey t a b, v)"
  have inv: "invar e" using assms by (simp add: lg_wf_def)
  have all: "\<exists>b v. x = (edgeKey t a b, v) \<and> contents e (edgeKey t a b) = Some v" if "x \<in> set ?S" for x
  proof -
    obtain k v where x: "x = (k, v)" by (cases x)
    with that have k: "contents e k = Some v" "prefix ?p k" using scan_prefix(1)[OF inv, of ?p] by auto
    then obtain t' a' b where "k = edgeKey t' a' b"
      using assms domI[of "contents e", OF k(1)] unfolding lg_wf_def by metis
    with k x show ?thesis by (auto simp: prefix_edgeKey)
  qed
  then have "?enc (?dec x) = x" if "x \<in> set ?S" for x using that by fastforce
  then have ent: "map ?enc (map ?dec ?S) = ?S" unfolding map_map by (intro map_idI) simp
  have set: "set (map ?dec ?S) = {(b, v). contents e (edgeKey t a b) = Some v}" (is "?L = ?R")
  proof
    show "?L \<subseteq> ?R" using all by fastforce
    have "(edgeKey t a b, v) \<in> set ?S" if "contents e (edgeKey t a b) = Some v" for b v
      using that scan_prefix(1)[OF inv, of ?p] by (auto simp: prefix_edgeKey)
    then show "?R \<subseteq> ?L" by force
  qed
  have "sorted_wrt (<) (map fst (map ?enc ds)) \<longleftrightarrow> sorted_wrt (<) (map fst ds)" for ds :: "(bytes \<times> bytes) list"
    by (induction ds) (auto simp: edgeKey_less)
  then have "sorted_wrt (<) (map fst (map ?dec ?S))" using scan_prefix(2)[OF inv, of ?p] ent by metis
  with set show thesis by (intro that[OF ent[symmetric]])
qed

lemma scanEdges_spec:
  assumes "lg_wf e"
  shows "sorted_wrt (<) (map Node (scanEdges scan e (appendOrdered [t] a) (appendOrdered [t] a)))"
    and "set (scanEdges scan e (appendOrdered [t] a) (appendOrdered [t] a)) =
       {ed. contents e (edgeKey t a (Node ed)) = Some (Anchor ed)}"
proof -
  obtain ds where ds: "scan e (Some (appendOrdered [t] a)) (PrefixEnd (appendOrdered [t] a)) = map (\<lambda>(b, v). (edgeKey t a b, v)) ds"
    "sorted_wrt (<) (map fst ds)" "set ds = {(b, v). contents e (edgeKey t a b) = Some v}"
    by (rule scan_edges[OF assms, of t a])
  have "scanEdges scan e (appendOrdered [t] a) (appendOrdered [t] a) = map (\<lambda>(b, v). \<lparr>Node = b, Anchor = v\<rparr>) ds"
    by (simp add: scanEdges_def ds(1) case_prod_unfold)
  moreover have "sorted_wrt (<) (map Node (map (\<lambda>(b, v). \<lparr>Node = b, Anchor = v\<rparr>) ds))"
    using ds(2) by (simp add: case_prod_unfold o_def)
  moreover have "ed \<in> (\<lambda>(b, v). \<lparr>Node = b, Anchor = v\<rparr>) ` {(b, v). contents e (edgeKey t a b) = Some v} \<longleftrightarrow>
      contents e (edgeKey t a (Node ed)) = Some (Anchor ed)" for ed :: Edge
    by (cases ed) force
  ultimately show "sorted_wrt (<) (map Node (scanEdges scan e (appendOrdered [t] a) (appendOrdered [t] a)))"
    "set (scanEdges scan e (appendOrdered [t] a) (appendOrdered [t] a)) =
       {ed. contents e (edgeKey t a (Node ed)) = Some (Anchor ed)}"
    using ds(3) by auto
qed

lemma OutLinks_spec:
  assumes "lg_wf e"
  shows "sorted_wrt (<) (map Node (OutLinks scan e src))"
    and "ed \<in> set (OutLinks scan e src) \<longleftrightarrow> link e src (Node ed) = Some (Anchor ed)"
  using scanEdges_spec[OF assms] by (simp_all add: OutLinks_def link_def edge_keys Let_def)

lemma InLinks_spec:
  assumes "lg_wf e"
  shows "sorted_wrt (<) (map Node (InLinks scan e dst))"
    and "ed \<in> set (InLinks scan e dst) \<longleftrightarrow> link e (Node ed) dst = Some (Anchor ed)"
  using scanEdges_spec[OF assms] assms by (simp_all add: InLinks_def link_def edge_keys lg_wf_def Let_def)

lemma OutDegree_length: "OutDegree scan e src = length (OutLinks scan e src)"
proof -
  have "fold (\<lambda>_ n. n + 1) xs k = k + length xs" for xs :: "(bytes \<times> bytes) list" and k :: nat
    by (induction xs arbitrary: k) simp_all
  then show ?thesis by (simp add: OutDegree_def OutLinks_def scanEdges_def Let_def)
qed

end

subsection \<open>Properties\<close>

text \<open>A graph built on the reference engine by a sequence of \<open>AddLink\<close> calls.\<close>

definition build_graph :: "(bytes \<times> bytes \<times> bytes) list \<Rightarrow> MemEngine" where
  "build_graph ls = fold (\<lambda>(src, dst, anchor). AddLink Apply src dst anchor) ls NewMemEngine"

lemma build_graph_snoc: "build_graph (ls @ [(s, d, a)]) = AddLink Apply s d a (build_graph ls)"
  by (simp add: build_graph_def)

lemma build_graph_wf: "mem.lg_wf (build_graph ls)"
proof (induction ls rule: rev_induct)
  case Nil
  then show ?case by (simp add: build_graph_def mem.lg_wf_def)
next
  case (snoc l ls)
  then show ?case by (cases l) (simp add: build_graph_snoc mem.lg_wf_AddLink)
qed

lemma build_graph_link: "mem.link (build_graph ls) src dst = map_of (rev (map (\<lambda>(s, d, a). ((s, d), a)) ls)) (src, dst)"
proof (induction ls rule: rev_induct)
  case Nil
  then show ?case by (simp add: build_graph_def mem.link_def)
next
  case (snoc l ls)
  then show ?case by (cases l) (simp add: build_graph_snoc mem.link_AddLink build_graph_wf)
qed

text \<open>C10: In a graph built by any sequence of \<open>AddLink\<close> calls, \<open>OutLinks src\<close> lists each
  destination once, in key order, with the anchor of the last call that added the link; \<open>InLinks\<close> is
  exactly the reverse relation; and \<open>OutDegree\<close> counts \<open>OutLinks\<close>.\<close>

theorem link_graph_inverse:
  "sorted_wrt (<) (map Node (OutLinks mem_scan (build_graph ls) src)) \<and>
   (\<lparr>Node = dst, Anchor = a\<rparr> \<in> set (OutLinks mem_scan (build_graph ls) src) \<longleftrightarrow>
      map_of (rev (map (\<lambda>(s, d, a). ((s, d), a)) ls)) (src, dst) = Some a) \<and>
   sorted_wrt (<) (map Node (InLinks mem_scan (build_graph ls) dst)) \<and>
   (\<lparr>Node = src, Anchor = a\<rparr> \<in> set (InLinks mem_scan (build_graph ls) dst) \<longleftrightarrow>
      \<lparr>Node = dst, Anchor = a\<rparr> \<in> set (OutLinks mem_scan (build_graph ls) src)) \<and>
   OutDegree mem_scan (build_graph ls) src = length (OutLinks mem_scan (build_graph ls) src)"
  by (simp add: mem.OutLinks_spec mem.InLinks_spec build_graph_wf build_graph_link mem.OutDegree_length)

end
