(* ===== verification/MergePolicy.thy ===== *)
theory MergePolicy
  imports Segment
begin

text \<open>
  \<open>index/segment/policy.go\<close>: the tiered merge policy. \<open>sort.Slice\<close> by floored size is an argument with
  its contract, as in \<open>Terms\<close>; a \<open>nil\<close> result is the empty list.
\<close>

record MergePolicy =
  SegmentsPerTier :: int
  MaxMergeAtOnce :: int
  FloorSegmentDocs :: int
  MaxMergedDocs :: int
  DeletesPctAllowed :: int

definition DefaultMergePolicy :: MergePolicy where
  "DefaultMergePolicy = \<lparr>SegmentsPerTier = 10, MaxMergeAtOnce = 10, FloorSegmentDocs = 2000,
     MaxMergedDocs = 50000000, DeletesPctAllowed = 33\<rparr>"

definition flooredSize :: "MergePolicy \<Rightarrow> Segment \<Rightarrow> int" where
  "flooredSize p s =
     (let n = int (LiveDocs s) in if n < FloorSegmentDocs p then FloorSegmentDocs p else n)"

definition tooManyDeletes :: "MergePolicy \<Rightarrow> Segment \<Rightarrow> bool" where
  "tooManyDeletes p s =
     (if seg_numDocs s = 0 then False
      else let deleted = int (seg_numDocs s) - int (LiveDocs s)
           in deleted * 100 \<ge> int (seg_numDocs s) * DeletesPctAllowed p)"

fun select_batch :: "MergePolicy \<Rightarrow> Segment list \<Rightarrow> int \<Rightarrow> Segment list \<Rightarrow> Segment list" where
  "select_batch p batch tot [] = batch"
| "select_batch p batch tot (s # ss) =
     (if int (length batch) \<ge> MaxMergeAtOnce p then batch
      else if tot + int (LiveDocs s) > MaxMergedDocs p \<and> length batch > 0 then batch
      else select_batch p (batch @ [s]) (tot + int (LiveDocs s)) ss)"

definition Select :: "(Segment list \<Rightarrow> Segment list) \<Rightarrow> MergePolicy \<Rightarrow> Segment list \<Rightarrow> Segment list" where
  "Select srt p segs =
     (if segs = [] then []
      else case List.find (tooManyDeletes p) segs of
             Some s \<Rightarrow> [s]
           | None \<Rightarrow>
               (let ss = srt segs
                in if int (length ss) < SegmentsPerTier p then []
                   else let batch = select_batch p [] 0 ss
                        in if length batch < 2 then [] else batch))"

subsection \<open>The batch is a bounded initial run\<close>

abbreviation live_total :: "Segment list \<Rightarrow> int" where
  "live_total ss \<equiv> sum_list (map (\<lambda>s. int (LiveDocs s)) ss)"

lemma select_batch_spec:
  assumes "tot = live_total batch" "length batch \<ge> 2 \<longrightarrow> tot \<le> MaxMergedDocs p"
    and "int (length batch) \<le> max 0 (MaxMergeAtOnce p)"
  shows "prefix batch (select_batch p batch tot ss) \<and> prefix (select_batch p batch tot ss) (batch @ ss) \<and>
    int (length (select_batch p batch tot ss)) \<le> max 0 (MaxMergeAtOnce p) \<and>
    (length (select_batch p batch tot ss) \<ge> 2 \<longrightarrow> live_total (select_batch p batch tot ss) \<le> MaxMergedDocs p)"
  using assms
proof (induction p batch tot ss rule: select_batch.induct)
  case (2 p batch tot s ss)
  show ?case
  proof (cases "int (length batch) \<ge> MaxMergeAtOnce p \<or> tot + int (LiveDocs s) > MaxMergedDocs p \<and> length batch > 0")
    case True
    with 2(2-) show ?thesis by auto
  next
    case False
    have "prefix batch x" if "prefix (batch @ [s]) x" for x using that by (auto simp: prefix_def)
    with 2(1) 2(2-) False show ?thesis by auto
  qed
qed simp

lemma Select_cases:
  obtains (rewrite) s where "Select srt p segs = [s]" "s \<in> set segs" "tooManyDeletes p s"
  | (tier) batch where "Select srt p segs = batch" "prefix batch (srt segs)" "2 \<le> length batch"
      "int (length batch) \<le> MaxMergeAtOnce p" "live_total batch \<le> MaxMergedDocs p"
      "SegmentsPerTier p \<le> int (length (srt segs))" "\<forall>s \<in> set segs. \<not> tooManyDeletes p s"
  | (idle) "Select srt p segs = []"
proof (cases "List.find (tooManyDeletes p) segs")
  case (Some s)
  then have "s \<in> set segs" "tooManyDeletes p s" by (auto simp: find_Some_iff)
  moreover from this(1) Some have "Select srt p segs = [s]" by (cases segs) (simp_all add: Select_def)
  ultimately show thesis using rewrite by blast
next
  case None
  let ?b = "select_batch p [] 0 (srt segs)"
  note spec = select_batch_spec[of 0 "[]" p "srt segs", simplified]
  show thesis
  proof (cases "segs = [] \<or> int (length (srt segs)) < SegmentsPerTier p \<or> length ?b < 2")
    case True
    with None idle show thesis by (auto simp: Select_def Let_def)
  next
    case False
    with None have sel: "Select srt p segs = ?b" by (simp add: Select_def)
    have "\<forall>s \<in> set segs. \<not> tooManyDeletes p s" using None by (simp add: find_None_iff)
    with False spec show thesis by (intro tier[OF sel]) linarith+
  qed
qed

subsection \<open>Properties\<close>

text \<open>\<open>Select\<close> chooses nothing, or one segment whose deletions reached the threshold, or, when no
  segment did and a tier is full, at least two and at most \<open>MaxMergeAtOnce\<close> of the smallest segments whose
  live documents fit in \<open>MaxMergedDocs\<close>: every segment left out is at least as large as every one chosen.\<close>

theorem Select_bounded:
  assumes "sort_Slice (flooredSize p) srt"
  shows "mset (Select srt p segs) \<subseteq># mset segs \<and>
    (Select srt p segs = [] \<or> (\<exists>s. Select srt p segs = [s] \<and> tooManyDeletes p s) \<or>
     2 \<le> length (Select srt p segs) \<and> int (length (Select srt p segs)) \<le> MaxMergeAtOnce p \<and>
     live_total (Select srt p segs) \<le> MaxMergedDocs p \<and> SegmentsPerTier p \<le> int (length segs) \<and>
     (\<forall>s \<in># mset segs - mset (Select srt p segs). \<forall>c \<in> set (Select srt p segs). flooredSize p c \<le> flooredSize p s))"
proof (cases rule: Select_cases[of srt p segs])
  case (rewrite s)
  then show ?thesis by simp
next
  case (tier batch)
  obtain rest where rest: "srt segs = batch @ rest" using tier(2) by (auto simp: prefix_def)
  have m: "mset segs = mset batch + mset rest" using assms rest by (metis mset_append sort_Slice_def)
  have "sorted (map (flooredSize p) (batch @ rest))" using assms rest by (metis sort_Slice_def)
  then have "\<forall>s \<in> set rest. \<forall>c \<in> set batch. flooredSize p c \<le> flooredSize p s" by (auto simp: sorted_append)
  moreover have "length segs = length batch + length rest" using m by (metis size_mset size_union)
  ultimately show ?thesis using tier m rest by auto
next
  case idle
  then show ?thesis by simp
qed

definition sample_segment :: Segment where
  "sample_segment = \<lparr>seg_id = 1, seg_dict = \<lparr>d_terms = []\<rparr>, seg_lists = [],
     seg_fwd = \<lparr>st_codec = Identity, st_data = [], st_chunks = []\<rparr>, seg_live = newBitset 70, seg_numDocs = 0\<rparr>"

theorem Select_bounded_witness:
  "length (Select (sort_key (flooredSize DefaultMergePolicy)) DefaultMergePolicy (replicate 12 sample_segment)) \<le> 10"
  using Select_bounded[of DefaultMergePolicy "sort_key (flooredSize DefaultMergePolicy)" "replicate 12 sample_segment"]
  by (auto simp: sort_Slice_def DefaultMergePolicy_def)

end
