(* ===== verification/JumpHash.thy ===== *)
theory JumpHash
  imports GoFloat
begin

text \<open>
  \<open>control/jump.go\<close>: jump consistent hashing. The loop computes in \<open>float64\<close>; every value it rounds is at
  least 1. The loop is a partial function: that it returns is part of the theorem. Conversions to
  \<open>int64\<close> stay in range for up to \<open>2^31\<close> buckets (\<open>next_jump_int64\<close>).
\<close>

subsection \<open>The hash\<close>

definition next_key :: "u64 \<Rightarrow> u64" where
  "next_key key = key * 2862933555777941757 + 1"

definition next_jump :: "u64 \<Rightarrow> int \<Rightarrow> int" where
  "next_jump key b =
     \<lfloor>fmul (float64 (b + 1)) (fdiv (float64 (2 ^ 31)) (float64 (uint (drop_bit 33 key + 1))))\<rfloor>"

partial_function (option) jump_loop :: "int \<Rightarrow> u64 \<Rightarrow> int \<Rightarrow> int \<Rightarrow> int option" where
  "jump_loop n key b j =
     (if j < n then jump_loop n (next_key key) j (next_jump (next_key key) j) else Some b)"

definition JumpHash :: "u64 \<Rightarrow> int \<Rightarrow> int option" where
  "JumpHash key numBuckets =
     (let numBuckets = (if numBuckets < 1 then 1 else numBuckets) in jump_loop numBuckets key (-1) 0)"

subsection \<open>Jumps\<close>

lemma next_jump_bounds:
  assumes "0 \<le> b" "b < 2 ^ 31"
  shows "b < next_jump key b" "next_jump key b \<le> 2 ^ 62"
proof -
  obtain a where a: "unat (drop_bit 33 key) = a" "a < 2 ^ 31" using unat_drop_bit_less[of 33 64 key] by simp
  then have "unat (drop_bit 33 key + 1) = a + 1" by (simp add: unat_word_ariths)
  then have "uint (drop_bit 33 key + 1) = int (a + 1)" unfolding uint_nat by (rule arg_cong)
  then obtain d where d: "uint (drop_bit 33 key + 1) = d" "1 \<le> d" "d \<le> 2 ^ 31" using a(2) by simp
  have fd: "float64 (uint (drop_bit 33 key + 1)) = of_int d" unfolding d(1) using d(2,3) by (intro float64_exact) simp_all
  have fp: "float64 (2 ^ 31) = 2 ^ 31" using float64_exact[of "2 ^ 31"] by simp
  let ?q = "fdiv (2 ^ 31) (of_int d)"
  have "(of_int d :: rat) \<le> 2 ^ 31" "(1 :: rat) \<le> of_int d" using d(2,3) of_int_le_iff[of d "2 ^ 31", where ?'a = rat] by simp_all
  then have q0: "of_int 1 \<le> (2 ^ 31 :: rat) / of_int d" "(2 ^ 31 :: rat) / of_int d \<le> 2 ^ 31"
    by (simp_all add: pos_le_divide_eq pos_divide_le_eq)
  have q: "1 \<le> ?q" "?q \<le> 2 ^ 31"
    using rnd53_ge[of 1, OF _ _ q0(1)] rnd53_le_pow[OF _ q0(2)] q0(1) by (simp_all add: fdiv_def)
  have fb: "float64 (b + 1) = of_int (b + 1)" using assms by (intro float64_exact) simp_all
  have b1: "(0::rat) \<le> of_int (b + 1)" "(of_int (b + 1) :: rat) \<le> 2 ^ 31"
    using assms by (simp, metis of_int_le_iff of_int_numeral of_int_power zless_imp_add1_zle)
  have p0: "of_int (b + 1) \<le> of_int (b + 1) * ?q" using mult_left_mono[OF q(1) b1(1)] by simp
  have "of_int (b + 1) * ?q \<le> 2 ^ 31 * 2 ^ 31" using b1 q by (intro mult_mono) simp_all
  then have p1: "of_int (b + 1) * ?q \<le> 2 ^ 62" by simp
  have "of_int (b + 1) \<le> fmul (of_int (b + 1)) ?q"
    unfolding fmul_def using assms by (intro rnd53_ge[OF _ _ p0]) simp_all
  then have "b + 1 \<le> next_jump key b" unfolding next_jump_def fb fd fp by (simp only: le_floor_iff)
  then show "b < next_jump key b" by simp
  have "fmul (of_int (b + 1)) ?q \<le> 2 ^ 62"
    unfolding fmul_def
  proof (rule rnd53_le_pow[OF _ p1])
    have "(1::rat) \<le> of_int (b + 1)" using assms(1) by simp
    then show "1 \<le> of_int (b + 1) * ?q" using p0 by linarith
  qed
  then have "\<lfloor>fmul (of_int (b + 1)) ?q\<rfloor> \<le> \<lfloor>of_int (2 ^ 62) :: rat\<rfloor>" by (intro floor_mono) simp
  then show "next_jump key b \<le> 2 ^ 62" unfolding next_jump_def fb fd fp by (simp only: floor_of_int)
qed

text \<open>The conversion to \<open>int64\<close> never leaves its range.\<close>

lemma next_jump_int64: "0 \<le> b \<Longrightarrow> b < 2 ^ 31 \<Longrightarrow> 0 \<le> next_jump key b \<and> next_jump key b < 2 ^ 63"
  using next_jump_bounds[of b key] by simp

subsection \<open>The loop\<close>

lemma jump_loop_step:
  "j < n \<Longrightarrow> jump_loop n key b j = jump_loop n (next_key key) j (next_jump (next_key key) j)"
  "\<not> j < n \<Longrightarrow> jump_loop n key b j = Some b"
  by (simp_all add: jump_loop.simps)

lemma jump_loop_spec:
  assumes "n < 2 ^ 31" "0 \<le> j"
  shows "\<exists>r. jump_loop n key b j = Some r \<and> (if j < n then j \<le> r \<and> r < n else r = b) \<and>
    jump_loop (n + 1) key b j \<in> {Some r, Some n}"
  using assms(2)
proof (induction "nat (n - j)" arbitrary: key b j rule: less_induct)
  case less
  have nj: "j < next_jump (next_key key) j" if "j \<le> n" using that less.prems assms(1) by (intro next_jump_bounds) simp_all
  consider "j < n" | "j = n" | "n < j" by linarith
  then show ?case
  proof cases
    case 1
    have "nat (n - next_jump (next_key key) j) < nat (n - j)" using nj 1 by simp
    from less.hyps[OF this, of "next_key key" j] nj less.prems 1 show ?thesis
      by (auto simp: jump_loop_step(1) split: if_splits)
  next
    case 2
    then show ?thesis using nj by (simp add: jump_loop_step)
  next
    case 3
    then show ?thesis by (simp add: jump_loop_step(2))
  qed
qed

subsection \<open>Properties\<close>

text \<open>C15: \<open>JumpHash\<close> always returns a bucket in range, and growing the table by one bucket leaves a key where
  it was or moves it to the new bucket: no key ever moves between old buckets. (Up to \<open>2^31 - 1\<close>
  buckets, with the rounding of every floating-point operation.)\<close>

theorem JumpHash_consistent:
  assumes "1 \<le> n" "n < 2 ^ 31"
  shows "\<exists>b. JumpHash key n = Some b \<and> 0 \<le> b \<and> b < n \<and> JumpHash key (n + 1) \<in> {Some b, Some n}"
  using jump_loop_spec[OF assms(2), of 0 key "-1"] assms(1) by (auto simp: JumpHash_def)

theorem JumpHash_consistent_witness:
  "\<exists>b. JumpHash 12345 10 = Some b \<and> 0 \<le> b \<and> b < 10 \<and> JumpHash 12345 11 \<in> {Some b, Some 10}"
  using JumpHash_consistent[of 10 12345] by simp

end
