(* ===== verification/Health.thy ===== *)
theory Health
  imports Membership Complex_Main
begin

text \<open>
  \<open>control/health.go\<close>: latency probation with hysteresis. Latencies are real numbers here; the
  smoothed average is exact instead of rounded to \<open>float64\<close>.
\<close>

datatype Health = Healthy | Probation

record HealthTracker =
  ewma :: "NodeID \<rightharpoonup> real"
  ht_state :: "NodeID \<rightharpoonup> Health"
  Alpha :: real
  EnterMillis :: real
  LeaveMillis :: real

definition NewHealthTracker :: HealthTracker where
  "NewHealthTracker =
     \<lparr>ewma = Map.empty, ht_state = Map.empty, Alpha = 0.2, EnterMillis = 200, LeaveMillis = 120\<rparr>"

text \<open>A read of a missing node is the zero value, \<open>Healthy\<close>.\<close>

definition State :: "HealthTracker \<Rightarrow> NodeID \<Rightarrow> Health" where
  "State h node = (case ht_state h node of Some st \<Rightarrow> st | None \<Rightarrow> Healthy)"

definition Observe :: "NodeID \<Rightarrow> real \<Rightarrow> HealthTracker \<Rightarrow> Health \<times> HealthTracker" where
  "Observe node latencyMillis h =
     (let cur = (case ewma h node of
                   None \<Rightarrow> latencyMillis
                 | Some cur \<Rightarrow> Alpha h * latencyMillis + (1 - Alpha h) * cur);
          h = h\<lparr>ewma := (ewma h)(node \<mapsto> cur)\<rparr>;
          st = State h node;
          st = (if st = Healthy \<and> cur > EnterMillis h then Probation
                else if st = Probation \<and> cur < LeaveMillis h then Healthy
                else st)
      in (st, h\<lparr>ht_state := (ht_state h)(node \<mapsto> st)\<rparr>))"

definition InFanout :: "HealthTracker \<Rightarrow> NodeID \<Rightarrow> bool" where
  "InFanout h node \<longleftrightarrow> State h node \<noteq> Probation"

subsection \<open>Runs\<close>

definition observe_all :: "(NodeID \<times> real) list \<Rightarrow> HealthTracker \<Rightarrow> HealthTracker" where
  "observe_all samples h = foldl (\<lambda>h (node, l). snd (Observe node l h)) h samples"

lemma observe_all_simps [simp]:
  "observe_all [] h = h" "observe_all (s # ss) h = observe_all ss (snd (Observe (fst s) (snd s) h))"
  "observe_all (ss @ ss') h = observe_all ss' (observe_all ss h)"
  by (simp_all add: observe_all_def case_prod_beta)

lemma Observe_sel [simp]:
  "Alpha (snd (Observe n l h)) = Alpha h" "EnterMillis (snd (Observe n l h)) = EnterMillis h"
  "LeaveMillis (snd (Observe n l h)) = LeaveMillis h"
  by (simp_all add: Observe_def Let_def)

lemma observe_all_sel [simp]:
  "Alpha (observe_all ss h) = Alpha h" "EnterMillis (observe_all ss h) = EnterMillis h"
  "LeaveMillis (observe_all ss h) = LeaveMillis h"
  by (induction ss arbitrary: h) simp_all

lemma Observe_other:
  "m \<noteq> n \<Longrightarrow> ewma (snd (Observe n l h)) m = ewma h m" "m \<noteq> n \<Longrightarrow> State (snd (Observe n l h)) m = State h m"
  by (simp_all add: Observe_def Let_def State_def)

lemma Observe_ewma:
  "ewma (snd (Observe n l h)) n = Some (case ewma h n of None \<Rightarrow> l | Some c \<Rightarrow> Alpha h * l + (1 - Alpha h) * c)"
  by (simp add: Observe_def Let_def)

lemma Observe_state:
  assumes "ewma (snd (Observe n l h)) n = Some c"
  shows "State (snd (Observe n l h)) n =
    (if State h n = Healthy \<and> c > EnterMillis h then Probation
     else if State h n = Probation \<and> c < LeaveMillis h then Healthy else State h n)"
  using assms by (simp add: Observe_def Let_def State_def)

text \<open>The band: a healthy node is not above the upper threshold, a node on probation not below the
  lower one.\<close>

definition in_band :: "HealthTracker \<Rightarrow> NodeID \<Rightarrow> bool" where
  "in_band h n \<longleftrightarrow> (case ewma h n of
      None \<Rightarrow> State h n = Healthy
    | Some c \<Rightarrow> if State h n = Healthy then c \<le> EnterMillis h else LeaveMillis h \<le> c)"

lemma in_band_Observe:
  assumes "in_band h m" "LeaveMillis h \<le> EnterMillis h"
  shows "in_band (snd (Observe n l h)) m"
proof (cases "m = n")
  case True
  obtain c where c: "ewma (snd (Observe n l h)) n = Some c" by (simp add: Observe_ewma)
  show ?thesis using assms(2) True
    by (cases "State h n") (auto simp: in_band_def c Observe_state[OF c])
next
  case False
  then show ?thesis using assms(1) by (simp add: in_band_def Observe_other split: option.splits)
qed

lemma in_band_observe_all:
  "in_band h m \<Longrightarrow> LeaveMillis h \<le> EnterMillis h \<Longrightarrow> in_band (observe_all ss h) m"
  by (induction ss arbitrary: h) (simp_all add: in_band_Observe)

text \<open>Samples at or below \<open>x\<close> pull the average towards \<open>x\<close> geometrically.\<close>

lemma ewma_decay:
  assumes "0 < Alpha h" "Alpha h \<le> 1" "ewma h n = Some c" "\<forall>l \<in> set ls. l \<le> x"
  shows "\<exists>c'. ewma (observe_all (map (Pair n) ls) h) n = Some c' \<and> c' \<le> x + (1 - Alpha h) ^ length ls * max 0 (c - x)"
  using assms
proof (induction ls arbitrary: h c)
  case (Cons l ls)
  let ?h = "snd (Observe n l h)" and ?a = "Alpha h"
  let ?c = "?a * l + (1 - ?a) * c"
  have e: "ewma ?h n = Some ?c" using Cons.prems(3) by (simp add: Observe_ewma)
  have "?a * l \<le> ?a * x" using Cons.prems(1,4) by simp
  moreover have "(1 - ?a) * (c - x) \<le> (1 - ?a) * max 0 (c - x)" using Cons.prems(2) by (intro mult_left_mono) auto
  ultimately have "?c - x \<le> (1 - ?a) * max 0 (c - x)" by (simp add: algebra_simps)
  then have m: "max 0 (?c - x) \<le> (1 - ?a) * max 0 (c - x)" using Cons.prems(2) by simp
  obtain c' where c': "ewma (observe_all (map (Pair n) ls) ?h) n = Some c'"
    "c' \<le> x + (1 - ?a) ^ length ls * max 0 (?c - x)"
    using Cons.IH[of ?h ?c] Cons.prems e by auto
  have "(1 - ?a) ^ length ls * max 0 (?c - x) \<le> (1 - ?a) ^ length ls * ((1 - ?a) * max 0 (c - x))"
    using m Cons.prems(2) by (intro mult_left_mono) simp_all
  then show ?case using c' by (auto simp: algebra_simps)
qed auto

subsection \<open>Properties\<close>

text \<open>Probation has hysteresis. After any samples on any nodes, a node in the fan-out has a smoothed
  latency at most \<open>EnterMillis\<close> and a node on probation one of at least \<open>LeaveMillis\<close>; a sample never
  changes the state while the new average lies between the two thresholds, and never touches
  another node.\<close>

theorem Health_hysteresis:
  "let h = observe_all ss NewHealthTracker
   in (InFanout h n \<longrightarrow> (\<forall>c. ewma h n = Some c \<longrightarrow> c \<le> 200)) \<and>
      (\<not> InFanout h n \<longrightarrow> (\<exists>c. ewma h n = Some c \<and> 120 \<le> c)) \<and>
      (\<forall>c. ewma (snd (Observe n l h)) n = Some c \<longrightarrow> 120 \<le> c \<longrightarrow> c \<le> 200 \<longrightarrow> fst (Observe n l h) = State h n) \<and>
      (\<forall>m. m \<noteq> n \<longrightarrow> State (snd (Observe n l h)) m = State h m)"
proof -
  let ?h = "observe_all ss NewHealthTracker"
  have new: "in_band NewHealthTracker n" "EnterMillis NewHealthTracker = 200" "LeaveMillis NewHealthTracker = 120"
    by (simp_all add: in_band_def NewHealthTracker_def State_def)
  have band: "in_band ?h n" using in_band_observe_all[OF new(1), of ss] new(2,3) by simp
  have fst: "fst (Observe n l ?h) = State (snd (Observe n l ?h)) n" by (simp add: Observe_def Let_def State_def)
  show ?thesis unfolding Let_def
  proof (intro conjI impI allI)
    show "InFanout ?h n \<Longrightarrow> ewma ?h n = Some c \<Longrightarrow> c \<le> 200" for c
      using band new by (cases "State ?h n") (auto simp: in_band_def InFanout_def)
    show "\<not> InFanout ?h n \<Longrightarrow> \<exists>c. ewma ?h n = Some c \<and> 120 \<le> c"
      using band new by (auto simp: in_band_def InFanout_def split: option.splits)
    show "ewma (snd (Observe n l ?h)) n = Some c \<Longrightarrow> 120 \<le> c \<Longrightarrow> c \<le> 200 \<Longrightarrow> fst (Observe n l ?h) = State ?h n" for c
      unfolding fst using new by (auto simp: Observe_state)
    show "m \<noteq> n \<Longrightarrow> State (snd (Observe n l ?h)) m = State ?h m" for m by (rule Observe_other(2))
  qed
qed

theorem Health_hysteresis_witness:
  "fst (Observe ''a'' 300 (observe_all [(''a'', 100)] NewHealthTracker)) = State (observe_all [(''a'', 100)] NewHealthTracker) ''a''"
proof -
  let ?h = "observe_all [(''a'', 100)] NewHealthTracker"
  obtain c where c: "ewma (snd (Observe ''a'' 300 ?h)) ''a'' = Some c" "120 \<le> c" "c \<le> 200"
    by (simp add: Observe_def NewHealthTracker_def Let_def)
  then show ?thesis using Health_hysteresis[of "[(''a'', 100)]" "''a''" 300] unfolding Let_def by blast
qed

text \<open>A slow node always comes back. Whatever the tracker has seen, once a node's samples stay at or
  below a latency under \<open>LeaveMillis\<close>, some number of them is enough to put it back in the fan-out, and
  it stays there.\<close>

theorem Health_recovers:
  assumes "0 < Alpha h" "Alpha h \<le> 1" "x < LeaveMillis h" "LeaveMillis h \<le> EnterMillis h"
  shows "\<exists>N. \<forall>ls. N \<le> length ls \<longrightarrow> (\<forall>l \<in> set ls. l \<le> x) \<longrightarrow> InFanout (observe_all (map (Pair n) ls) h) n"
proof -
  define c where "c = (case ewma h n of Some c \<Rightarrow> max c x | None \<Rightarrow> x)"
  have "c - x \<ge> 0" by (simp add: c_def split: option.splits)
  obtain N where N: "(1 - Alpha h) ^ N * (c - x) < LeaveMillis h - x"
  proof -
    have "(\<lambda>k. (1 - Alpha h) ^ k * (c - x)) \<longlonglongrightarrow> 0 * (c - x)"
      using assms(1,2) by (intro tendsto_mult_right LIMSEQ_realpow_zero) simp_all
    then have "\<forall>\<^sub>F k in sequentially. (1 - Alpha h) ^ k * (c - x) < LeaveMillis h - x"
      using assms(3) by (intro order_tendstoD(2)[where y = 0]) simp_all
    then show thesis using that by (auto simp: eventually_sequentially)
  qed
  have "InFanout (observe_all (map (Pair n) ls) h) n" if l: "Suc N \<le> length ls" "\<forall>l \<in> set ls. l \<le> x" for ls
  proof -
    obtain ls0 l1 where ls: "ls = ls0 @ [l1]" using l(1) by (cases ls rule: rev_cases) auto
    let ?h = "observe_all (map (Pair n) ls0) h"
    have low: "\<exists>c'. ewma (observe_all (map (Pair n) ms) h) n = Some c' \<and> c' < LeaveMillis h"
      if ms: "Suc N \<le> length ms" "\<forall>l \<in> set ms. l \<le> x" for ms
    proof -
      obtain m1 ms0 where m: "ms = m1 # ms0" using ms(1) by (cases ms) auto
      let ?h1 = "snd (Observe n m1 h)"
      obtain c1 where c1: "ewma ?h1 n = Some c1" by (simp add: Observe_ewma)
      have "c1 \<le> c"
      proof (cases "ewma h n")
        case (Some c0)
        have "Alpha h * m1 \<le> Alpha h * c" "(1 - Alpha h) * c0 \<le> (1 - Alpha h) * c"
          using assms(1,2) ms(2) m Some by (auto simp: c_def intro!: mult_left_mono)
        then show ?thesis using c1 Some by (simp add: Observe_ewma algebra_simps)
      qed (use c1 ms(2) m in \<open>simp add: Observe_ewma c_def\<close>)
      obtain c' where c': "ewma (observe_all (map (Pair n) ms0) ?h1) n = Some c'"
        "c' \<le> x + (1 - Alpha h) ^ length ms0 * max 0 (c1 - x)"
        using ewma_decay[of ?h1 n c1 ms0 x] assms c1 ms(2) m by auto
      have "(1 - Alpha h) ^ length ms0 * max 0 (c1 - x) \<le> (1 - Alpha h) ^ N * (c - x)"
        using \<open>c1 \<le> c\<close> \<open>c - x \<ge> 0\<close> assms ms(1) m by (intro mult_mono power_decreasing) auto
      then show ?thesis using c' N m by auto
    qed
    obtain c' where c': "ewma (snd (Observe n l1 ?h)) n = Some c'" "c' < LeaveMillis h" using low[OF l] by (auto simp: ls)
    then show ?thesis using assms(4) by (auto simp: ls InFanout_def Observe_state)
  qed
  then show ?thesis by blast
qed

theorem Health_recovers_witness:
  "\<exists>N. InFanout (observe_all (map (Pair ''a'') (replicate N 100)) (snd (Observe ''a'' 500 NewHealthTracker))) ''a''"
proof -
  obtain N where "\<forall>ls. N \<le> length ls \<longrightarrow> (\<forall>l \<in> set ls. l \<le> 100) \<longrightarrow>
      InFanout (observe_all (map (Pair ''a'') ls) (snd (Observe ''a'' 500 NewHealthTracker))) ''a''"
    using Health_recovers[of "snd (Observe ''a'' 500 NewHealthTracker)" 100 "''a''"] by (auto simp: NewHealthTracker_def)
  then have "InFanout (observe_all (map (Pair ''a'') (replicate N 100)) (snd (Observe ''a'' 500 NewHealthTracker))) ''a''"
    by (simp del: map_replicate)
  then show ?thesis ..
qed

end
