(* ===== verification/Serve.thy ===== *)
theory Serve
  imports Types GoHeap Complex_Main "HOL-Library.Product_Lexorder"
begin

text \<open>
  \<open>serve/serve.go\<close>, \<open>merge.go\<close>, \<open>fanout.go\<close> and \<open>coordinator.go\<close>: a node of the serving tree scatters a
  query to its children, drops the ones that failed, and merges the ranked answers. What a child
  answers is an argument (an error or a response): a child is a network client. The goroutines of
  \<open>Scatter\<close> write one slot each, in any order of completion.
\<close>

type_synonym ShardID = u32

record Request =
  rq_Query :: string
  rq_K :: int
  rq_Snapshot :: SnapshotID

record 's Response =
  Results :: "'s Result list"

subsection \<open>Merging\<close>

record 's cursor =
  c_shard :: nat
  c_pos :: nat
  c_results :: "'s Result list"

definition head :: "'s cursor \<Rightarrow> 's Result" where
  "head c = c_results c ! c_pos c"

definition mergeHeap_Less :: "'s::linorder cursor \<Rightarrow> 's cursor \<Rightarrow> bool" where
  "mergeHeap_Less x y =
     (let a = head x; b = head y
      in if Res_Score a \<noteq> Res_Score b then Res_Score a > Res_Score b
         else if Segment (Res_Doc a) \<noteq> Segment (Res_Doc b) then Segment (Res_Doc a) < Segment (Res_Doc b)
         else Local (Res_Doc a) < Local (Res_Doc b))"

fun merge_init :: "nat \<Rightarrow> 's::linorder Response list \<Rightarrow> 's cursor list \<Rightarrow> 's cursor list" where
  "merge_init s [] h = h"
| "merge_init s (r # rs) h =
     merge_init (Suc s) rs
       (if Results r \<noteq> [] then heap_Push mergeHeap_Less \<lparr>c_shard = s, c_pos = 0, c_results = Results r\<rparr> h else h)"

text \<open>The pop loop; the first argument is the room left in the output.\<close>

fun merge_loop :: "nat \<Rightarrow> 's::linorder cursor list \<Rightarrow> 's Result list" where
  "merge_loop 0 h = []"
| "merge_loop (Suc k) h =
     (if h = [] then []
      else let (top, h) = heap_Pop mergeHeap_Less h
           in head top # merge_loop k
                (if c_pos top + 1 < length (c_results top)
                 then heap_Push mergeHeap_Less (top\<lparr>c_pos := c_pos top + 1\<rparr>) h else h))"

definition MergeTopK :: "'s::linorder Response list \<Rightarrow> int \<Rightarrow> 's Result list" where
  "MergeTopK shards k = (if k \<le> 0 then [] else merge_loop (nat k) (merge_init 0 shards []))"

subsection \<open>Scatter and gather\<close>

record 's Gathered =
  g_Responses :: "'s Response list"
  g_OK :: "bool list"

definition Responded :: "'s Gathered \<Rightarrow> nat" where
  "Responded g = length (filter (\<lambda>b. b) (g_OK g))"

definition OKResponses :: "'s Gathered \<Rightarrow> 's Response list" where
  "OKResponses g = map snd (filter fst (zip (g_OK g) (g_Responses g)))"

text \<open>The goroutine of shard \<open>i\<close>: an error leaves the slot as it was.\<close>

definition scatter_one :: "('e + 's Response) list \<Rightarrow> nat \<Rightarrow> 's Gathered \<Rightarrow> 's Gathered" where
  "scatter_one answers i g =
     (case answers ! i of
        Inl err \<Rightarrow> g
      | Inr r \<Rightarrow> g\<lparr>g_Responses := (g_Responses g)[i := r], g_OK := (g_OK g)[i := True]\<rparr>)"

definition Scatter :: "nat list \<Rightarrow> ('e + 's Response) list \<Rightarrow> 's Gathered" where
  "Scatter order answers =
     fold (scatter_one answers) order
       \<lparr>g_Responses = replicate (length answers) \<lparr>Results = []\<rparr>, g_OK = replicate (length answers) False\<rparr>"

subsection \<open>The coordinator\<close>

record Coordinator =
  minResponded :: real

definition NewCoordinator :: "real \<Rightarrow> Coordinator" where
  "NewCoordinator m = \<lparr>minResponded = (if m \<le> 0 \<or> m > 1 then 1 else m)\<rparr>"

datatype 'e search_error = CtxErr 'e | ErrInsufficientShards

definition need :: "Coordinator \<Rightarrow> nat \<Rightarrow> int" where
  "need c n = max \<lceil>minResponded c * real n\<rceil> 1"

definition Coordinator_Search ::
  "nat list \<Rightarrow> Coordinator \<Rightarrow> 'e option \<Rightarrow> ('e + 's::linorder Response) list \<Rightarrow> Request \<Rightarrow> 'e search_error + 's Result list" where
  "Coordinator_Search order c ctx_err answers req =
     (if answers = [] then Inr []
      else let g = Scatter order answers
           in if int (Responded g) < need c (length answers)
              then (case ctx_err of Some e \<Rightarrow> Inl (CtxErr e) | None \<Rightarrow> Inl ErrInsufficientShards)
              else Inr (MergeTopK (OKResponses g) (rq_K req)))"

subsection \<open>The merge order\<close>

definition res_key :: "'s::linordered_idom Result \<Rightarrow> 's \<times> u64 \<times> u32" where
  "res_key r = (- Res_Score r, Segment (Res_Doc r), Local (Res_Doc r))"

lemma Less_key: "mergeHeap_Less x y \<longleftrightarrow> res_key (head x) < res_key (head y)"
  by (auto simp: mergeHeap_Less_def res_key_def Let_def)

interpretation merge_heap: weak_order "mergeHeap_Less :: 's::linordered_idom cursor \<Rightarrow> 's cursor \<Rightarrow> bool"
  by unfold_locales (auto simp: Less_key)

abbreviation left :: "'s cursor \<Rightarrow> 's Result list" where
  "left c \<equiv> drop (c_pos c) (c_results c)"

definition cursor_sorted :: "'s::linordered_idom cursor \<Rightarrow> bool" where
  "cursor_sorted c \<longleftrightarrow> c_pos c < length (c_results c) \<and> sorted (map res_key (left c))"

lemma left_Cons: "c_pos c < length (c_results c) \<Longrightarrow> left c = head c # drop (Suc (c_pos c)) (c_results c)"
  by (simp add: head_def Cons_nth_drop_Suc)

definition all_left :: "'s cursor list \<Rightarrow> 's Result multiset" where
  "all_left h = \<Sum>\<^sub># (image_mset (\<lambda>c. mset (left c)) (mset h))"

lemma merge_init_ok:
  assumes "heap_ok mergeHeap_Less (length h) h" "\<forall>c \<in> set h. cursor_sorted c" "\<forall>r \<in> set rs. sorted (map res_key (Results r))"
  shows "heap_ok mergeHeap_Less (length (merge_init s rs h)) (merge_init s rs h) \<and>
    (\<forall>c \<in> set (merge_init s rs h). cursor_sorted c) \<and>
    all_left (merge_init s rs h) = all_left h + mset (concat (map Results rs))"
  using assms
proof (induction s rs h rule: merge_init.induct)
  case (2 s r rs h)
  show ?case
  proof (cases "Results r = []")
    case False
    let ?c = "\<lparr>c_shard = s, c_pos = 0, c_results = Results r\<rparr>"
    note push = merge_heap.heap_Push[OF 2(2), of ?c]
    have "set (heap_Push mergeHeap_Less ?c h) = insert ?c (set h)" using push(2) by (metis set_mset_add_mset_insert set_mset_mset)
    then have "\<forall>c \<in> set (heap_Push mergeHeap_Less ?c h). cursor_sorted c" using 2(3,4) False by (simp add: cursor_sorted_def)
    with 2(1)[of] push 2(4) False show ?thesis by (simp add: all_left_def)
  qed (use 2 in simp)
qed simp

lemma merge_loop_ok:
  assumes "heap_ok mergeHeap_Less (length h) h" "\<forall>c \<in> set h. cursor_sorted c"
  shows "mset (merge_loop k h) \<subseteq># all_left h \<and>
    map res_key (merge_loop k h) = take k (sorted_list_of_multiset (image_mset res_key (all_left h)))"
  using assms
proof (induction k arbitrary: h)
  case (Suc k)
  show ?case
  proof (cases "h = []")
    case False
    note pop = merge_heap.heap_Pop[OF Suc.prems(1) False]
    obtain h1 where hp: "heap_Pop mergeHeap_Less h = (hd h, h1)" using pop(1) by (metis prod.collapse)
    let ?t = "hd h"
    let ?h = "if c_pos ?t + 1 < length (c_results ?t) then heap_Push mergeHeap_Less (?t\<lparr>c_pos := c_pos ?t + 1\<rparr>) h1 else h1"
    have t: "cursor_sorted ?t" using Suc.prems(2) False by simp
    have h1: "mset h = add_mset ?t (mset h1)" "heap_ok mergeHeap_Less (length h1) h1" using pop(2,3) by (simp_all add: hp)
    have sub: "set h1 \<subseteq> set h" using h1(1) by (metis set_mset_add_mset_insert set_mset_mset subset_insertI)
    have lt: "left ?t = head ?t # drop (Suc (c_pos ?t)) (c_results ?t)" using t by (intro left_Cons) (simp add: cursor_sorted_def)
    note push = merge_heap.heap_Push[OF h1(2), of "?t\<lparr>c_pos := c_pos ?t + 1\<rparr>"]
    have h2: "heap_ok mergeHeap_Less (length ?h) ?h" using h1(2) push(1) by simp
    have s2: "\<forall>c \<in> set ?h. cursor_sorted c"
    proof -
      have "set (heap_Push mergeHeap_Less (?t\<lparr>c_pos := c_pos ?t + 1\<rparr>) h1) = insert (?t\<lparr>c_pos := c_pos ?t + 1\<rparr>) (set h1)"
        using push(2) by (metis set_mset_add_mset_insert set_mset_mset)
      then show ?thesis using sub Suc.prems(2) t lt by (auto simp: cursor_sorted_def)
    qed
    have al: "all_left h = add_mset (head ?t) (all_left ?h)"
      using h1(1) push(2) lt by (auto simp: all_left_def)
    have min: "res_key (head ?t) \<le> res_key x" if x: "x \<in># all_left h" for x
    proof -
      obtain c where c: "c \<in> set h" "x \<in> set (left c)" using x by (auto simp: all_left_def)
      have "res_key (head ?t) \<le> res_key (head c)" using pop(4)[OF c(1)] by (simp add: Less_key)
      also have "\<dots> \<le> res_key x" using Suc.prems(2) c left_Cons[of c] by (auto simp: cursor_sorted_def)
      finally show ?thesis .
    qed
    have "sorted_list_of_multiset (image_mset res_key (all_left h)) =
        res_key (head ?t) # sorted_list_of_multiset (image_mset res_key (all_left ?h))"
      using min unfolding al by (simp add: insort_is_Cons)
    with Suc.IH[OF h2 s2] show ?thesis using False by (simp add: hp al)
  qed (simp add: all_left_def)
qed simp

subsection \<open>Gathering does not depend on the schedule\<close>

lemma Scatter_slots:
  assumes "distinct order" "\<forall>i \<in> set order. i < length answers"
  shows "length (g_Responses (Scatter order answers)) = length answers" "length (g_OK (Scatter order answers)) = length answers"
    "i < length answers \<Longrightarrow> g_OK (Scatter order answers) ! i = (i \<in> set order \<and> \<not> isl (answers ! i))"
    "i < length answers \<Longrightarrow> g_Responses (Scatter order answers) ! i =
       (if i \<in> set order \<and> \<not> isl (answers ! i) then projr (answers ! i) else \<lparr>Results = []\<rparr>)"
proof -
  let ?g0 = "\<lparr>g_Responses = replicate (length answers) \<lparr>Results = []\<rparr>, g_OK = replicate (length answers) False\<rparr>"
  have *: "length (g_Responses (fold (scatter_one answers) os g)) = length (g_Responses g) \<and>
      length (g_OK (fold (scatter_one answers) os g)) = length (g_OK g) \<and>
      (i < length (g_OK g) \<longrightarrow> g_OK (fold (scatter_one answers) os g) ! i = (g_OK g ! i \<or> i \<in> set os \<and> \<not> isl (answers ! i))) \<and>
      (i < length (g_Responses g) \<longrightarrow> g_Responses (fold (scatter_one answers) os g) ! i =
        (if i \<in> set os \<and> \<not> isl (answers ! i) then projr (answers ! i) else g_Responses g ! i))" for i os g
  proof (induction os arbitrary: g)
    case (Cons o1 os)
    show ?case using Cons.IH[of "scatter_one answers o1 g"]
      by (cases "answers ! o1"; cases "i = o1") (auto simp: scatter_one_def)
  qed simp
  from *[of order ?g0 i] show
    "length (g_Responses (Scatter order answers)) = length answers" "length (g_OK (Scatter order answers)) = length answers"
    "i < length answers \<Longrightarrow> g_OK (Scatter order answers) ! i = (i \<in> set order \<and> \<not> isl (answers ! i))"
    "i < length answers \<Longrightarrow> g_Responses (Scatter order answers) ! i =
       (if i \<in> set order \<and> \<not> isl (answers ! i) then projr (answers ! i) else \<lparr>Results = []\<rparr>)"
    by (simp_all add: Scatter_def)
qed

abbreviation answered :: "('e + 's Response) list \<Rightarrow> 's Response list" where
  "answered answers \<equiv> map projr (filter (\<lambda>a. \<not> isl a) answers)"

lemma Scatter_complete:
  assumes "mset order = mset [0..<length answers]"
  shows "OKResponses (Scatter order answers) = answered answers" "Responded (Scatter order answers) = length (answered answers)"
proof -
  have o: "set order = {0..<length answers}" "distinct order"
    using mset_eq_setD[OF assms] mset_eq_imp_distinct_iff[OF assms] by simp_all
  note s = Scatter_slots[OF o(2), of answers]
  have ok: "g_OK (Scatter order answers) = map (\<lambda>a. \<not> isl a) answers"
    using s o(1) by (intro nth_equalityI) auto
  have rs: "g_Responses (Scatter order answers) = map (\<lambda>a. if isl a then \<lparr>Results = []\<rparr> else projr a) answers"
    using s o(1) by (intro nth_equalityI) auto
  show "OKResponses (Scatter order answers) = answered answers" unfolding OKResponses_def ok rs
    by (induction answers) auto
  show "Responded (Scatter order answers) = length (answered answers)" unfolding Responded_def ok
    by (induction answers) auto
qed

subsection \<open>Properties\<close>

lemma MergeTopK_spec:
  fixes shards :: "'s::linordered_idom Response list"
  assumes "\<forall>r \<in> set shards. sorted (map res_key (Results r))"
  shows "mset (MergeTopK shards k) \<subseteq># mset (concat (map Results shards)) \<and>
    map res_key (MergeTopK shards k) = take (nat k) (sort (map res_key (concat (map Results shards))))"
proof (cases "k \<le> 0")
  case False
  have "heap_ok mergeHeap_Less (length ([] :: 's cursor list)) []" by (simp add: heap_ok_def)
  from merge_init_ok[OF this _ assms, of 0] have i:
    "heap_ok mergeHeap_Less (length (merge_init 0 shards [])) (merge_init 0 shards [])"
    "\<forall>c \<in> set (merge_init 0 shards []). cursor_sorted c"
    "all_left (merge_init 0 shards []) = mset (concat (map Results shards))"
    by (auto simp: all_left_def)
  have "sorted_list_of_multiset (image_mset res_key (mset (concat (map Results shards)))) = sort (map res_key (concat (map Results shards)))"
    by (metis mset_map sorted_list_of_multiset_mset)
  with merge_loop_ok[OF i(1,2), of "nat k"] i(3) False show ?thesis by (simp add: MergeTopK_def)
qed (simp add: MergeTopK_def)

text \<open>C17: The k-way merge is a global ranking. When every shard's answer is ranked, the merged page holds
  results of the shards only, each at most as often as they returned it, and their ranks (score
  descending, then segment and document ascending) are the \<open>k\<close> first of all results sorted.\<close>

theorem MergeTopK_ranked:
  fixes shards :: "'s::linordered_idom Response list"
  assumes "\<forall>r \<in> set shards. sorted (map res_key (Results r))"
  shows "mset (MergeTopK shards k) \<subseteq># mset (concat (map Results shards)) \<and>
    map res_key (MergeTopK shards k) = take (nat k) (sort (map res_key (concat (map Results shards))))"
  using assms by (rule MergeTopK_spec)

definition sample_result :: "nat \<Rightarrow> int \<Rightarrow> int Result" where
  "sample_result d s = \<lparr>Res_Doc = \<lparr>Segment = 1, Local = of_nat d\<rparr>, Res_URL = [], Res_Score = s\<rparr>"

theorem MergeTopK_ranked_witness:
  "map res_key (MergeTopK [\<lparr>Results = [sample_result 1 9, sample_result 2 3]\<rparr>, \<lparr>Results = [sample_result 3 5]\<rparr>] 2)
     = [(-9, 1, 1), (-5, 1, 3)]"
  using MergeTopK_ranked[of "[\<lparr>Results = [sample_result 1 9, sample_result 2 3]\<rparr>, \<lparr>Results = [sample_result 3 5]\<rparr>]" 2]
  by (simp add: sample_result_def res_key_def)

text \<open>C16: A degraded page is never served as complete, and the page does not depend on the schedule. For
  every order in which the children finish, the coordinator answers exactly when at least the required
  share of them (and at least one) answered, with the global ranking of the answers that arrived;
  otherwise it returns the context's error if there is one and \<open>ErrInsufficientShards\<close> if not.\<close>

theorem Coordinator_Search_cutoff:
  fixes answers :: "('e + 's::linordered_idom Response) list"
  assumes "mset order = mset [0..<length answers]" "answers \<noteq> []" "c = NewCoordinator m"
    "\<forall>r \<in> set (answered answers). sorted (map res_key (Results r))"
  shows "case Coordinator_Search order c ctx_err answers req of
      Inr page \<Rightarrow> 1 \<le> length (answered answers) \<and> minResponded c * real (length answers) \<le> real (length (answered answers)) \<and>
        map res_key page = take (nat (rq_K req)) (sort (map res_key (concat (map Results (answered answers)))))
    | Inl e \<Rightarrow> (answered answers = [] \<or> real (length (answered answers)) < minResponded c * real (length answers)) \<and>
        (case ctx_err of Some x \<Rightarrow> e = CtxErr x | None \<Rightarrow> e = ErrInsufficientShards)"
proof -
  note s = Scatter_complete[OF assms(1)]
  have need: "int (length (answered answers)) < need c (length answers) \<longleftrightarrow>
      answered answers = [] \<or> real (length (answered answers)) < minResponded c * real (length answers)"
  proof (cases "answered answers = []")
    case False
    have "int n < max \<lceil>x\<rceil> 1 \<longleftrightarrow> real n < x" if "1 \<le> n" for n :: nat and x :: real
      using that by (simp add: less_max_iff_disj less_ceiling_iff)
    moreover have "1 \<le> length (answered answers)" using False by (metis length_0_conv less_one not_le)
    ultimately show ?thesis using False unfolding need_def by blast
  qed (simp add: need_def)
  show ?thesis
    using assms(2) need MergeTopK_spec[OF assms(4), of "rq_K req"]
    by (auto simp: Coordinator_Search_def Let_def s not_less Suc_le_eq split: option.splits)
qed

theorem Coordinator_Search_cutoff_witness:
  "case Coordinator_Search [1, 0] (NewCoordinator 1) None
      [Inl (), Inr \<lparr>Results = [sample_result 1 9]\<rparr>] \<lparr>rq_Query = [], rq_K = 1, rq_Snapshot = []\<rparr> of
     Inr page \<Rightarrow> False | Inl e \<Rightarrow> e = ErrInsufficientShards"
  using Coordinator_Search_cutoff[of "[1, 0]" "[Inl (), Inr \<lparr>Results = [sample_result 1 9]\<rparr>]" "NewCoordinator 1" 1 None
      "\<lparr>rq_Query = [], rq_K = 1, rq_Snapshot = []\<rparr>"]
  by (auto simp: NewCoordinator_def eval_nat_numeral split: sum.splits)

end
