(* ===== verification/ResultCache.thy ===== *)
theory ResultCache
  imports Types
begin

text \<open>
  The least-recently-used cache of \<open>serve/cache.go\<close>. The code keeps a doubly linked list of entries and
  a map from keys to list elements; an element is named here by a number, its address. The mutex makes
  every method one step. The refinement is to the plain list of pairs, most recent first.
\<close>

record 'v element =
  el_addr :: nat
  el_key :: string
  el_val :: 'v

record 'v LRUCache =
  capacity :: int
  ll :: "'v element list"
  items :: "string \<rightharpoonup> nat"
  next_addr :: nat

definition NewLRUCache :: "int \<Rightarrow> 'v LRUCache" where
  "NewLRUCache cap = \<lparr>capacity = cap, ll = [], items = Map.empty, next_addr = 0\<rparr>"

text \<open>\<open>container/list\<close>: \<open>MoveToFront\<close> and \<open>PushFront\<close>.\<close>

definition MoveToFront :: "nat \<Rightarrow> 'v element list \<Rightarrow> 'v element list" where
  "MoveToFront a es = filter (\<lambda>e. el_addr e = a) es @ filter (\<lambda>e. el_addr e \<noteq> a) es"

definition PushFront :: "string \<Rightarrow> 'v \<Rightarrow> 'v LRUCache \<Rightarrow> nat \<times> 'v LRUCache" where
  "PushFront k v c =
     (next_addr c, c\<lparr>ll := \<lparr>el_addr = next_addr c, el_key = k, el_val = v\<rparr> # ll c, next_addr := Suc (next_addr c)\<rparr>)"

definition element_at :: "'v LRUCache \<Rightarrow> nat \<Rightarrow> 'v element option" where
  "element_at c a = find (\<lambda>e. el_addr e = a) (ll c)"

text \<open>A key without an entry is a miss; an address without an element would be a nil dereference.\<close>

definition Get :: "string \<Rightarrow> 'v LRUCache \<Rightarrow> 'v option \<times> 'v LRUCache" where
  "Get key c =
     (case items c key of
        None \<Rightarrow> (None, c)
      | Some a \<Rightarrow> (map_option el_val (element_at c a), c\<lparr>ll := MoveToFront a (ll c)\<rparr>))"

definition evict :: "'v LRUCache \<Rightarrow> 'v LRUCache" where
  "evict c =
     (if ll c = [] then c
      else c\<lparr>ll := butlast (ll c), items := (items c)(el_key (last (ll c)) := None)\<rparr>)"

definition Set :: "string \<Rightarrow> 'v \<Rightarrow> 'v LRUCache \<Rightarrow> 'v LRUCache" where
  "Set key val c =
     (if capacity c \<le> 0 then c
      else case items c key of
             Some a \<Rightarrow>
               let c = c\<lparr>ll := map (\<lambda>e. if el_addr e = a then e\<lparr>el_val := val\<rparr> else e) (ll c)\<rparr>
               in c\<lparr>ll := MoveToFront a (ll c)\<rparr>
           | None \<Rightarrow>
               let (a, c) = PushFront key val c;
                   c = c\<lparr>items := (items c)(key \<mapsto> a)\<rparr>
               in if int (length (ll c)) > capacity c then evict c else c)"

definition Cache_Len :: "'v LRUCache \<Rightarrow> nat" where
  "Cache_Len c = length (ll c)"

subsection \<open>The invariant\<close>

definition pairs :: "'v LRUCache \<Rightarrow> (string \<times> 'v) list" where
  "pairs c = map (\<lambda>e. (el_key e, el_val e)) (ll c)"

definition lru_ok :: "'v LRUCache \<Rightarrow> bool" where
  "lru_ok c \<longleftrightarrow> distinct (map el_addr (ll c)) \<and> distinct (map el_key (ll c)) \<and>
     (\<forall>k a. items c k = Some a \<longleftrightarrow> (\<exists>e \<in> set (ll c). el_key e = k \<and> el_addr e = a)) \<and>
     (\<forall>e \<in> set (ll c). el_addr e < next_addr c) \<and> int (length (ll c)) \<le> max 0 (capacity c)"

lemma lru_okD:
  assumes "lru_ok c"
  shows "distinct (map el_addr (ll c))" "distinct (map el_key (ll c))"
    "items c k = Some a \<longleftrightarrow> (\<exists>e \<in> set (ll c). el_key e = k \<and> el_addr e = a)"
    "e \<in> set (ll c) \<Longrightarrow> el_addr e < next_addr c" "int (length (ll c)) \<le> max 0 (capacity c)"
  using assms unfolding lru_ok_def by blast+

lemma lru_ok_New: "lru_ok (NewLRUCache cap)"
  by (simp add: lru_ok_def NewLRUCache_def)

lemma filter_addr:
  assumes "distinct (map el_addr es)" "e \<in> set es"
  shows "filter (\<lambda>x. el_addr x = el_addr e) es = [e]" "find (\<lambda>x. el_addr x = el_addr e) es = Some e"
  using assms by (induction es) (auto simp: filter_empty_conv image_iff)

lemma same_key_addr:
  assumes "lru_ok c" "e \<in> set (ll c)" "e' \<in> set (ll c)"
  shows "el_addr e' = el_addr e \<longleftrightarrow> el_key e' = el_key e"
  using lru_okD(1,2)[OF assms(1)] assms(2,3) by (auto simp: distinct_map inj_on_def)

text \<open>Touching an entry: the list with that entry in front.\<close>

lemma MoveToFront_split:
  assumes "lru_ok c" "e \<in> set (ll c)"
  shows "MoveToFront (el_addr e) (ll c) = e # filter (\<lambda>x. el_key x \<noteq> el_key e) (ll c)"
  using filter_addr[OF lru_okD(1)[OF assms(1)] assms(2)] same_key_addr[OF assms]
  by (auto simp: MoveToFront_def intro!: filter_cong)

subsection \<open>The specification\<close>

text \<open>A list of pairs, most recent first, with room for \<open>cap\<close> of them.\<close>

definition spec_get :: "string \<Rightarrow> (string \<times> 'v) list \<Rightarrow> 'v option \<times> (string \<times> 'v) list" where
  "spec_get k l =
     (case map_of l k of None \<Rightarrow> (None, l) | Some v \<Rightarrow> (Some v, (k, v) # filter (\<lambda>p. fst p \<noteq> k) l))"

definition spec_set :: "int \<Rightarrow> string \<Rightarrow> 'v \<Rightarrow> (string \<times> 'v) list \<Rightarrow> (string \<times> 'v) list" where
  "spec_set cap k v l = take (nat cap) ((k, v) # filter (\<lambda>p. fst p \<noteq> k) l)"

lemma items_cases:
  assumes "lru_ok c"
  obtains "items c k = None" "k \<notin> el_key ` set (ll c)"
  | e where "e \<in> set (ll c)" "el_key e = k" "items c k = Some (el_addr e)"
  using lru_okD(3)[OF assms, of k] by (cases "items c k") force+

lemma map_of_pairs:
  assumes "lru_ok c" "e \<in> set (ll c)"
  shows "map_of (pairs c) (el_key e) = Some (el_val e)"
  using lru_okD(2)[OF assms(1)] assms(2) by (intro map_of_is_SomeI) (auto simp: pairs_def comp_def)

lemma lru_ok_move:
  assumes "lru_ok c" "e \<in> set (ll c)" "el_key e' = el_key e" "el_addr e' = el_addr e"
  shows "lru_ok (c\<lparr>ll := e' # filter (\<lambda>x. el_key x \<noteq> el_key e) (ll c)\<rparr>)"
proof -
  note ok = lru_okD[OF assms(1)] and sk = same_key_addr[OF assms(1,2)]
  let ?es = "filter (\<lambda>x. el_key x \<noteq> el_key e) (ll c)"
  have "el_addr x \<noteq> el_addr e" if "x \<in> set ?es" for x using sk[of x] that by simp
  then have addr: "el_addr e \<notin> el_addr ` set ?es" by force
  have mem: "(\<exists>x \<in> set (e' # ?es). el_key x = k \<and> el_addr x = a) \<longleftrightarrow> (\<exists>x \<in> set (ll c). el_key x = k \<and> el_addr x = a)" for k a
    using assms(2-4) sk by (cases "k = el_key e") (auto, metis)
  have "length ?es < length (ll c)" using assms(2) by (intro length_filter_less) auto
  moreover have "\<forall>k a. items c k = Some a \<longleftrightarrow> (\<exists>x \<in> set (e' # ?es). el_key x = k \<and> el_addr x = a)"
    unfolding mem using ok(3) by blast
  moreover have "distinct (map el_addr (e' # ?es))" "distinct (map el_key (e' # ?es))"
    using ok(1,2) addr assms(3,4) by (auto simp: distinct_map_filter)
  moreover have "\<forall>x \<in> set (e' # ?es). el_addr x < next_addr c" using ok(4) assms(2,4) by auto
  ultimately show ?thesis using ok(5) unfolding lru_ok_def by simp
qed

lemma Get_refines:
  assumes "lru_ok c"
  shows "lru_ok (snd (Get k c)) \<and> fst (Get k c) = fst (spec_get k (pairs c)) \<and>
    pairs (snd (Get k c)) = snd (spec_get k (pairs c)) \<and> capacity (snd (Get k c)) = capacity c"
proof (rule items_cases[OF assms, of k])
  assume "items c k = None" "k \<notin> el_key ` set (ll c)"
  moreover from this have "map_of (pairs c) k = None" by (auto simp: map_of_eq_None_iff pairs_def)
  ultimately show ?thesis using assms by (simp add: Get_def spec_get_def)
next
  fix e assume e: "e \<in> set (ll c)" "el_key e = k" "items c k = Some (el_addr e)"
  note mf = MoveToFront_split[OF assms e(1)]
  have "pairs (snd (Get k c)) = (k, el_val e) # filter (\<lambda>p. fst p \<noteq> k) (pairs c)"
    using e by (simp add: Get_def mf pairs_def filter_map comp_def)
  then show ?thesis
    using e lru_ok_move[OF assms e(1) refl refl] map_of_pairs[OF assms e(1)] filter_addr(2)[OF lru_okD(1)[OF assms] e(1)]
    by (simp add: Get_def spec_get_def mf element_at_def)
qed

text \<open>A new key goes in front; the last entry leaves when the list is over capacity.\<close>

lemma lru_ok_push:
  fixes v :: 'v
  assumes "lru_ok c" "k \<notin> el_key ` set (ll c)" "0 < capacity c"
  defines "n \<equiv> \<lparr>el_addr = next_addr c, el_key = k, el_val = v\<rparr>"
  shows "lru_ok (Set k v c)" "ll (Set k v c) = take (nat (capacity c)) (n # ll c)"
proof -
  note ok = lru_okD[OF assms(1)]
  have none: "items c k = None" using ok(3)[of k] assms(2) by (cases "items c k") auto
  have fresh: "next_addr c \<notin> el_addr ` set (ll c)" using ok(4) by fastforce
  let ?its = "(items c)(k \<mapsto> next_addr c)"
  have its: "?its k' = Some a \<longleftrightarrow> (\<exists>e \<in> set (n # ll c). el_key e = k' \<and> el_addr e = a)" for k' a
    using ok(3)[of k' a] assms(2) by (auto simp: n_def)
  show "lru_ok (Set k v c) " "ll (Set k v c) = take (nat (capacity c)) (n # ll c)"
  proof (atomize (full), cases "int (length (ll c)) < capacity c")
    case True
    then have "Set k v c = c\<lparr>ll := n # ll c, next_addr := Suc (next_addr c), items := ?its\<rparr>"
      using none assms(3) by (simp add: Set_def PushFront_def n_def)
    then show "lru_ok (Set k v c) \<and> ll (Set k v c) = take (nat (capacity c)) (n # ll c)"
      using ok fresh assms(2) its True by (auto simp: lru_ok_def n_def less_Suc_eq)
  next
    case False
    then have len: "length (ll c) = nat (capacity c)" using ok(5) assms(3) by simp
    then obtain es z where ll: "ll c = es @ [z]" using assms(3) by (cases "ll c" rule: rev_cases) auto
    have set: "Set k v c = c\<lparr>ll := n # es, next_addr := Suc (next_addr c), items := ?its(el_key z := None)\<rparr>"
      using none assms(3) False by (simp add: Set_def PushFront_def n_def evict_def ll)
    have "(?its(el_key z := None)) k' = Some a \<longleftrightarrow> (\<exists>e \<in> set (n # es). el_key e = k' \<and> el_addr e = a)" for k' a
    proof -
      have "el_key e \<noteq> el_key z" if "e \<in> set es" for e using ok(2) that by (auto simp: ll image_iff)
      then show ?thesis using its[of k' a] assms(2) by (auto simp: ll n_def)
    qed
    then show "lru_ok (Set k v c) \<and> ll (Set k v c) = take (nat (capacity c)) (n # ll c)"
      unfolding set len[symmetric] using ok fresh assms(2) by (auto simp: lru_ok_def n_def ll less_Suc_eq)
  qed
qed

lemma Set_refines:
  assumes "lru_ok c"
  shows "lru_ok (Set k v c) \<and> pairs (Set k v c) = spec_set (capacity c) k v (pairs c) \<and> capacity (Set k v c) = capacity c"
proof (cases "capacity c \<le> 0")
  case True
  then show ?thesis using assms lru_okD(5)[OF assms] by (simp add: Set_def spec_set_def pairs_def)
next
  case False
  have cap: "capacity (Set k v c) = capacity c"
    by (simp add: Set_def PushFront_def evict_def Let_def split: option.splits)
  show ?thesis
  proof (rule items_cases[OF assms, of k])
    assume k: "items c k = None" "k \<notin> el_key ` set (ll c)"
    have "filter (\<lambda>p. fst p \<noteq> k) (pairs c) = pairs c" using k(2) by (auto simp: filter_id_conv pairs_def)
    then show ?thesis using lru_ok_push[OF assms k(2)] False cap by (simp add: spec_set_def pairs_def flip: take_map)
  next
    fix e assume e: "e \<in> set (ll c)" "el_key e = k" "items c k = Some (el_addr e)"
    let ?upd = "\<lambda>x. if el_addr x = el_addr e then x\<lparr>el_val := v\<rparr> else x" and ?e = "e\<lparr>el_val := v\<rparr>"
    have fa: "filter (\<lambda>x. el_addr x = el_addr e) (ll c) = [e]" using filter_addr(1)[OF lru_okD(1)[OF assms] e(1)] .
    have upd: "el_addr (?upd x) = el_addr x" for x by simp
    have "filter (\<lambda>x. el_addr x = el_addr e) (map ?upd (ll c)) = [?e]"
      unfolding filter_map comp_def upd fa by simp
    moreover have "filter (\<lambda>x. el_addr x \<noteq> el_addr e) (map ?upd (ll c)) = filter (\<lambda>x. el_key x \<noteq> k) (ll c)"
    proof -
      have "map ?upd (filter (\<lambda>x. el_addr x \<noteq> el_addr e) (ll c)) = filter (\<lambda>x. el_addr x \<noteq> el_addr e) (ll c)"
        by (rule map_idI) simp
      then show ?thesis unfolding filter_map comp_def upd
        using same_key_addr[OF assms e(1)] e(2) by (auto intro: filter_cong)
    qed
    ultimately have set: "Set k v c = c\<lparr>ll := ?e # filter (\<lambda>x. el_key x \<noteq> el_key e) (ll c)\<rparr>"
      using False e by (simp add: Set_def MoveToFront_def)
    have ok: "lru_ok (Set k v c)" unfolding set by (rule lru_ok_move[OF assms e(1)]) simp_all
    have "pairs (Set k v c) = (k, v) # filter (\<lambda>p. fst p \<noteq> k) (pairs c)"
      using e(2) by (simp add: set pairs_def filter_map comp_def)
    moreover have "length (pairs (Set k v c)) \<le> nat (capacity c)" using lru_okD(5)[OF ok] False cap by (simp add: pairs_def)
    ultimately show ?thesis using ok cap by (simp add: spec_set_def)
  qed
qed

subsection \<open>Properties\<close>

datatype 'v cache_op = CGet string | CSet string 'v

fun run_cache :: "'v cache_op list \<Rightarrow> 'v LRUCache \<Rightarrow> 'v option list \<times> 'v LRUCache" where
  "run_cache [] c = ([], c)"
| "run_cache (CGet k # ops) c =
     (let (r, c) = Get k c; (rs, c) = run_cache ops c in (r # rs, c))"
| "run_cache (CSet k v # ops) c = run_cache ops (Set k v c)"

fun run_spec :: "int \<Rightarrow> 'v cache_op list \<Rightarrow> (string \<times> 'v) list \<Rightarrow> 'v option list \<times> (string \<times> 'v) list" where
  "run_spec cap [] l = ([], l)"
| "run_spec cap (CGet k # ops) l =
     (let (r, l) = spec_get k l; (rs, l) = run_spec cap ops l in (r # rs, l))"
| "run_spec cap (CSet k v # ops) l = run_spec cap ops (spec_set cap k v l)"

lemma run_cache_refines:
  "lru_ok c \<Longrightarrow> capacity c = cap \<Longrightarrow>
     fst (run_cache ops c) = fst (run_spec cap ops (pairs c)) \<and> lru_ok (snd (run_cache ops c)) \<and>
     pairs (snd (run_cache ops c)) = snd (run_spec cap ops (pairs c)) \<and> capacity (snd (run_cache ops c)) = cap"
proof (induction ops arbitrary: c)
  case (Cons o1 ops)
  show ?case
  proof (cases o1)
    case (CGet k)
    with Cons.IH[of "snd (Get k c)"] Get_refines[OF Cons.prems(1), of k] Cons.prems(2) show ?thesis
      by (simp add: Let_def case_prod_beta)
  next
    case (CSet k v)
    with Cons.IH[of "Set k v c"] Set_refines[OF Cons.prems(1), of k v] Cons.prems(2) show ?thesis by simp
  qed
qed simp

text \<open>C20: The linked list and the index map implement a least-recently-used list. For any sequence of lookups
  and stores on a fresh cache, every lookup returns what the list of pairs (most recently used first,
  cut to the capacity on a store) returns, the two structures stay consistent (every stored key is
  found through the map, at its own element), and the cache never holds more than its capacity; a
  capacity of zero or less stores nothing.\<close>

theorem LRUCache_refines_list:
  fixes ops :: "'v cache_op list"
  shows "fst (run_cache ops (NewLRUCache cap)) = fst (run_spec cap ops []) \<and>
   pairs (snd (run_cache ops (NewLRUCache cap))) = snd (run_spec cap ops []) \<and>
   lru_ok (snd (run_cache ops (NewLRUCache cap))) \<and>
   int (Cache_Len (snd (run_cache ops (NewLRUCache cap)))) \<le> max 0 cap"
proof -
  let ?c = "NewLRUCache cap :: 'v LRUCache"
  have c: "capacity ?c = cap" "pairs ?c = []" by (simp_all add: NewLRUCache_def pairs_def)
  note r = run_cache_refines[OF lru_ok_New c(1), of ops, unfolded c(2)]
  then show ?thesis using lru_okD(5)[of "snd (run_cache ops ?c)"] by (simp add: Cache_Len_def)
qed

end
