(* ===== verification/Loader.thy ===== *)
theory Loader
  imports ResultCache
begin

text \<open>
  The single-flight loader of \<open>serve/cache.go\<close>, as the steps of concurrent calls of \<open>Get\<close>. A call is a number. The
  \<open>singleflight\<close> package is third-party code: joining a flight and ending one are arguments with the documented contract
  \<open>singleflight\<close>. The cache is any implementation of the interface; the locale \<open>page_cache\<close> states what the loader needs of it and
  \<open>LRUCache\<close> provides it.
\<close>

subsection \<open>State\<close>

datatype 'e loader_err = CtxErr | LoadErr 'e

text \<open>Between the miss and \<open>DoChan\<close>; in the \<open>select\<close>; returned.\<close>

datatype ('e, 'v) status = Missed string | Waiting string | Got string "'e loader_err + 'v"

text \<open>
  \<open>running\<close>: the loads that execute, with the call whose context they use. \<open>loaded\<close>: the functions that have returned and whose
  results the group still has to deliver. \<open>chan\<close>: the buffered result channel of a call. \<open>finished\<close> records every result of a load.
\<close>

record ('c, 'g, 'e, 'v) Loader =
  l_cache :: 'c
  l_group :: 'g
  callers :: "nat \<rightharpoonup> ('e, 'v) status"
  running :: "(string \<times> nat) list"
  loaded :: "(string \<times> ('e + 'v)) list"
  chan :: "nat \<rightharpoonup> 'e + 'v"
  canceled :: "nat set"
  finished :: "(string \<times> ('e + 'v)) set"

definition NewLoader :: "'c \<Rightarrow> 'g \<Rightarrow> ('c, 'g, 'e, 'v) Loader" where
  "NewLoader cache grp =
     \<lparr>l_cache = cache, l_group = grp, callers = Map.empty, running = [], loaded = [], chan = Map.empty, canceled = {}, finished = {}\<rparr>"

subsection \<open>Steps\<close>

definition Loader_lookup :: "(string \<Rightarrow> 'c \<Rightarrow> 'v option \<times> 'c) \<Rightarrow> nat \<Rightarrow> string \<Rightarrow> ('c, 'g, 'e, 'v) Loader \<Rightarrow> ('c, 'g, 'e, 'v) Loader" where
  "Loader_lookup cget c key s =
     (case cget key (l_cache s) of
        (Some v, cache) \<Rightarrow> s\<lparr>l_cache := cache, callers := (callers s)(c \<mapsto> Got key (Inr v))\<rparr>
      | (None, cache) \<Rightarrow> s\<lparr>l_cache := cache, callers := (callers s)(c \<mapsto> Missed key)\<rparr>)"

definition Loader_DoChan :: "(string \<Rightarrow> nat \<Rightarrow> 'g \<Rightarrow> bool \<times> 'g) \<Rightarrow> nat \<Rightarrow> string \<Rightarrow> ('c, 'g, 'e, 'v) Loader \<Rightarrow> ('c, 'g, 'e, 'v) Loader" where
  "Loader_DoChan do_chan c key s =
     (case do_chan key c (l_group s) of (started, g) \<Rightarrow>
        s\<lparr>l_group := g, callers := (callers s)(c \<mapsto> Waiting key),
          running := (if started then (key, c) # running s else running s)\<rparr>)"

text \<open>The function that the group runs: an error goes on, a page is stored first.\<close>

definition load_done :: "(string \<Rightarrow> 'v \<Rightarrow> 'c \<Rightarrow> 'c) \<Rightarrow> string \<times> nat \<Rightarrow> 'e + 'v \<Rightarrow> ('c, 'g, 'e, 'v) Loader \<Rightarrow> ('c, 'g, 'e, 'v) Loader" where
  "load_done cset kc r s =
     s\<lparr>l_cache := (case r of Inl err \<Rightarrow> l_cache s | Inr v \<Rightarrow> cset (fst kc) v (l_cache s)),
       running := remove1 kc (running s), loaded := (fst kc, r) # loaded s, finished := insert (fst kc, r) (finished s)\<rparr>"

definition deliver :: "(string \<Rightarrow> 'g \<Rightarrow> nat list \<times> 'g) \<Rightarrow> string \<times> ('e + 'v) \<Rightarrow> ('c, 'g, 'e, 'v) Loader \<Rightarrow> ('c, 'g, 'e, 'v) Loader" where
  "deliver finish kr s =
     (case finish (fst kr) (l_group s) of (ws, g) \<Rightarrow>
        s\<lparr>l_group := g, loaded := remove1 kr (loaded s), chan := (\<lambda>w. if w \<in> set ws then Some (snd kr) else chan s w)\<rparr>)"

definition Loader_receive :: "nat \<Rightarrow> string \<Rightarrow> 'e + 'v \<Rightarrow> ('c, 'g, 'e, 'v) Loader \<Rightarrow> ('c, 'g, 'e, 'v) Loader" where
  "Loader_receive c key res s =
     s\<lparr>callers := (callers s)(c \<mapsto> Got key (case res of Inl err \<Rightarrow> Inl (LoadErr err) | Inr v \<Rightarrow> Inr v))\<rparr>"

inductive loader_step ::
  "(string \<Rightarrow> 'c \<Rightarrow> 'v option \<times> 'c) \<Rightarrow> (string \<Rightarrow> 'v \<Rightarrow> 'c \<Rightarrow> 'c) \<Rightarrow> (string \<Rightarrow> nat \<Rightarrow> 'g \<Rightarrow> bool \<times> 'g) \<Rightarrow>
    (string \<Rightarrow> 'g \<Rightarrow> nat list \<times> 'g) \<Rightarrow> ('c, 'g, 'e, 'v) Loader \<Rightarrow> ('c, 'g, 'e, 'v) Loader \<Rightarrow> bool"
  for cget cset do_chan finish where
  call: "callers s c = None \<Longrightarrow> loader_step cget cset do_chan finish s (Loader_lookup cget c key s)"
| join: "callers s c = Some (Missed key) \<Longrightarrow> loader_step cget cset do_chan finish s (Loader_DoChan do_chan c key s)"
| load: "kc \<in> set (running s) \<Longrightarrow> loader_step cget cset do_chan finish s (load_done cset kc r s)"
| publish: "kr \<in> set (loaded s) \<Longrightarrow> loader_step cget cset do_chan finish s (deliver finish kr s)"
| receive: "callers s c = Some (Waiting key) \<Longrightarrow> chan s c = Some res \<Longrightarrow> loader_step cget cset do_chan finish s (Loader_receive c key res s)"
| context_done: "callers s c = Some (Waiting key) \<Longrightarrow> c \<in> canceled s \<Longrightarrow>
    loader_step cget cset do_chan finish s (s\<lparr>callers := (callers s)(c \<mapsto> Got key (Inl CtxErr))\<rparr>)"
| cancel: "loader_step cget cset do_chan finish s (s\<lparr>canceled := insert c (canceled s)\<rparr>)"

subsection \<open>What the loader relies on\<close>

text \<open>The documentation of \<open>golang.org/x/sync/singleflight\<close>: one execution in flight for a key at a time; a duplicate caller waits
  for the original and receives the same result. \<open>in_flight\<close> reads the waiting calls of a key.\<close>

definition singleflight :: "(string \<Rightarrow> nat \<Rightarrow> 'g \<Rightarrow> bool \<times> 'g) \<Rightarrow> (string \<Rightarrow> 'g \<Rightarrow> nat list \<times> 'g) \<Rightarrow> ('g \<Rightarrow> string \<rightharpoonup> nat list) \<Rightarrow> 'g \<Rightarrow> bool" where
  "singleflight do_chan finish in_flight g0 \<longleftrightarrow>
     in_flight g0 = Map.empty \<and>
     (\<forall>k c g. fst (do_chan k c g) = (in_flight g k = None) \<and>
        in_flight (snd (do_chan k c g)) = (in_flight g)(k \<mapsto> (case in_flight g k of None \<Rightarrow> [c] | Some ws \<Rightarrow> ws @ [c]))) \<and>
     (\<forall>k g ws. in_flight g k = Some ws \<longrightarrow> fst (finish k g) = ws \<and> in_flight (snd (finish k g)) = (in_flight g)(k := None))"

lemma singleflightD:
  assumes "singleflight do_chan finish in_flight g0"
  shows "in_flight g0 = Map.empty" "fst (do_chan k c g) = (in_flight g k = None)"
    "in_flight (snd (do_chan k c g)) = (in_flight g)(k \<mapsto> (case in_flight g k of None \<Rightarrow> [c] | Some ws \<Rightarrow> ws @ [c]))"
    "in_flight g k = Some ws \<Longrightarrow> fst (finish k g) = ws"
    "in_flight g k = Some ws \<Longrightarrow> in_flight (snd (finish k g)) = (in_flight g)(k := None)"
  using assms unfolding singleflight_def by blast+

text \<open>A cache may forget pages and refuse new ones, but holds only pages that were stored under their key.\<close>

locale page_cache =
  fixes cget :: "string \<Rightarrow> 'c \<Rightarrow> 'v option \<times> 'c"
    and cset :: "string \<Rightarrow> 'v \<Rightarrow> 'c \<Rightarrow> 'c"
    and contents :: "'c \<Rightarrow> (string \<times> 'v) set"
    and ok :: "'c \<Rightarrow> bool"
  assumes get_ok: "ok c \<Longrightarrow> ok (snd (cget k c))"
    and get_hit: "ok c \<Longrightarrow> fst (cget k c) = Some v \<Longrightarrow> (k, v) \<in> contents c"
    and get_contents: "ok c \<Longrightarrow> contents (snd (cget k c)) \<subseteq> contents c"
    and set_ok: "ok c \<Longrightarrow> ok (cset k v c)"
    and set_contents: "ok c \<Longrightarrow> contents (cset k v c) \<subseteq> insert (k, v) (contents c)"

subsection \<open>The invariant\<close>

text \<open>The keys in flight are those with a load that runs or whose result is not delivered, one load each.\<close>

definition flights_inv :: "('g \<Rightarrow> string \<rightharpoonup> nat list) \<Rightarrow> ('c, 'g, 'e, 'v) Loader \<Rightarrow> bool" where
  "flights_inv in_flight s \<longleftrightarrow> distinct (map fst (running s) @ map fst (loaded s)) \<and>
     set (map fst (running s) @ map fst (loaded s)) = Map.dom (in_flight (l_group s))"

definition joined :: "('e, 'v) status option \<Rightarrow> string \<Rightarrow> bool" where
  "joined st k \<longleftrightarrow> st = Some (Waiting k) \<or> (\<exists>x. st = Some (Got k x))"

definition waiting_inv :: "('g \<Rightarrow> string \<rightharpoonup> nat list) \<Rightarrow> ('c, 'g, 'e, 'v) Loader \<Rightarrow> bool" where
  "waiting_inv in_flight s \<longleftrightarrow>
     (\<forall>k ws c. in_flight (l_group s) k = Some ws \<longrightarrow> c \<in> set ws \<longrightarrow> joined (callers s c) k) \<and>
     (\<forall>c r. chan s c = Some r \<longrightarrow> (\<exists>k. joined (callers s c) k \<and> (k, r) \<in> finished s)) \<and>
     (\<forall>c k. callers s c = Some (Waiting k) \<longrightarrow> chan s c \<noteq> None \<or> (\<exists>ws. in_flight (l_group s) k = Some ws \<and> c \<in> set ws))"

lemma waiting_invI:
  assumes "\<And>k ws c. in_flight (l_group s) k = Some ws \<Longrightarrow> c \<in> set ws \<Longrightarrow> joined (callers s c) k"
    "\<And>c r. chan s c = Some r \<Longrightarrow> \<exists>k. joined (callers s c) k \<and> (k, r) \<in> finished s"
    "\<And>c k. callers s c = Some (Waiting k) \<Longrightarrow> chan s c \<noteq> None \<or> (\<exists>ws. in_flight (l_group s) k = Some ws \<and> c \<in> set ws)"
  shows "waiting_inv in_flight s"
  unfolding waiting_inv_def using assms by blast

definition result_of :: "('c, 'g, 'e, 'v) Loader \<Rightarrow> nat \<Rightarrow> string \<Rightarrow> 'e loader_err + 'v \<Rightarrow> bool" where
  "result_of s c k x \<longleftrightarrow>
     (case x of Inr v \<Rightarrow> (k, Inr v) \<in> finished s | Inl (LoadErr e) \<Rightarrow> (k, Inl e) \<in> finished s | Inl CtxErr \<Rightarrow> c \<in> canceled s)"

definition results_inv :: "('c \<Rightarrow> (string \<times> 'v) set) \<Rightarrow> ('c \<Rightarrow> bool) \<Rightarrow> ('c, 'g, 'e, 'v) Loader \<Rightarrow> bool" where
  "results_inv contents ok s \<longleftrightarrow> ok (l_cache s) \<and> (\<forall>(k, v) \<in> contents (l_cache s). (k, Inr v) \<in> finished s) \<and>
     set (loaded s) \<subseteq> finished s \<and> (\<forall>c k x. callers s c = Some (Got k x) \<longrightarrow> result_of s c k x)"

lemma flights_inv_step:
  assumes "loader_step cget cset do_chan finish s s'" "singleflight do_chan finish in_flight g0" "flights_inv in_flight s"
  shows "flights_inv in_flight s'"
  using assms(1)
proof (cases rule: loader_step.cases)
  case (call c key)
  then show ?thesis using assms(3) by (auto simp: flights_inv_def Loader_lookup_def split: prod.splits option.splits)
next
  case (join c key)
  have "in_flight (l_group s) key = None \<longrightarrow> key \<notin> fst ` set (running s) \<and> key \<notin> fst ` set (loaded s)"
  proof -
    have "fst ` set (running s) \<union> fst ` set (loaded s) = Map.dom (in_flight (l_group s))" using assms(3) by (simp add: flights_inv_def)
    then show ?thesis by blast
  qed
  then show ?thesis using join assms(3) singleflightD(2,3)[OF assms(2), of key c "l_group s"]
    by (cases "do_chan key c (l_group s)") (auto simp: flights_inv_def Loader_DoChan_def domIff image_iff)
next
  case (load kc r)
  obtain xs ys where r: "running s = xs @ kc # ys" "kc \<notin> set xs" using load(2) by (meson split_list_first)
  then show ?thesis using assms(3) load(1) by (auto simp: flights_inv_def load_done_def remove1_append)
next
  case (publish kr)
  obtain xs ys where l: "loaded s = xs @ kr # ys" "kr \<notin> set xs" using publish(2) by (meson split_list_first)
  then have "fst kr \<in> Map.dom (in_flight (l_group s))" using assms(3) by (auto simp: flights_inv_def)
  then obtain ws where "in_flight (l_group s) (fst kr) = Some ws" by auto
  note f = singleflightD(5)[OF assms(2) this]
  show ?thesis using assms(3) l f publish(1)
    by (cases "finish (fst kr) (l_group s)") (auto simp: flights_inv_def deliver_def remove1_append)
qed (use assms(3) in \<open>auto simp: flights_inv_def Loader_receive_def\<close>)

lemma not_joined:
  assumes "waiting_inv in_flight s" "callers s c = None \<or> callers s c = Some (Missed key)"
  shows "chan s c = None" "in_flight (l_group s) k = Some ws \<Longrightarrow> c \<notin> set ws"
proof -
  have n: "\<not> joined (callers s c) k'" for k' using assms(2) by (auto simp: joined_def)
  show "chan s c = None" using assms(1) n unfolding waiting_inv_def by (cases "chan s c") blast+
  show "c \<notin> set ws" if "in_flight (l_group s) k = Some ws" using assms(1) n that unfolding waiting_inv_def by blast
qed

lemma waiting_inv_returned:
  assumes "waiting_inv in_flight s" "callers s c = Some (Waiting k)"
  shows "waiting_inv in_flight (s\<lparr>callers := (callers s)(c \<mapsto> Got k x)\<rparr>)"
proof -
  have "joined (callers s c) k' \<longleftrightarrow> k' = k" for k' using assms(2) by (auto simp: joined_def)
  moreover have "joined (Some (Got k x)) k' \<longleftrightarrow> k' = k" for k' by (auto simp: joined_def)
  ultimately have j: "joined (((callers s)(c \<mapsto> Got k x)) d) k' = joined (callers s d) k'" for d k' by simp
  have w: "callers s d = Some (Waiting k')" if "((callers s)(c \<mapsto> Got k x)) d = Some (Waiting k')" for d k'
    using that by (auto split: if_splits)
  show ?thesis
  proof (rule waiting_invI, goal_cases)
    case (1 k' ws d)
    then have "joined (callers s d) k'" using assms(1) unfolding waiting_inv_def by simp
    then show ?case by (simp add: j del: fun_upd_apply)
  next
    case (2 d r)
    then have "\<exists>k'. joined (callers s d) k' \<and> (k', r) \<in> finished s" using assms(1) unfolding waiting_inv_def by simp
    then show ?case by (simp add: j del: fun_upd_apply)
  next
    case (3 d k')
    then have "callers s d = Some (Waiting k')" by (intro w) simp
    then show ?case using assms(1) unfolding waiting_inv_def by simp
  qed
qed

lemma waiting_inv_mono:
  assumes "waiting_inv in_flight s" "callers s' = callers s" "chan s' = chan s" "l_group s' = l_group s" "finished s \<subseteq> finished s'"
  shows "waiting_inv in_flight s'"
  using assms(1,5) unfolding waiting_inv_def assms(2-4) by blast

lemma waiting_inv_step:
  assumes "loader_step cget cset do_chan finish s s'" "singleflight do_chan finish in_flight g0" "flights_inv in_flight s"
    "waiting_inv in_flight s" "set (loaded s) \<subseteq> finished s"
  shows "waiting_inv in_flight s'"
  using assms(1)
proof (cases rule: loader_step.cases)
  case (call c key)
  obtain cache st where s': "s' = s\<lparr>l_cache := cache, callers := (callers s)(c \<mapsto> st)\<rparr>" "\<forall>k. st \<noteq> Waiting k"
    using call(1) by (auto simp: Loader_lookup_def split: prod.splits option.splits)
  have "callers s c = None \<or> callers s c = Some (Missed key)" using call(2) ..
  note n = not_joined[OF assms(4) this]
  show ?thesis unfolding s'(1)
  proof (rule waiting_invI, goal_cases)
    case (1 k ws d)
    then show ?case using assms(4) n(2) unfolding waiting_inv_def by auto
  next
    case (2 d r)
    then show ?case using assms(4) n(1) unfolding waiting_inv_def by auto
  next
    case (3 d k)
    then show ?case using assms(4) s'(2) unfolding waiting_inv_def by (auto split: if_splits)
  qed
next
  case (join c key)
  have s': "callers s' = (callers s)(c \<mapsto> Waiting key)" "chan s' = chan s" "finished s' = finished s"
      "l_group s' = snd (do_chan key c (l_group s))"
    using join(1) by (simp_all add: Loader_DoChan_def split: prod.splits)
  let ?ws = "case in_flight (l_group s) key of None \<Rightarrow> [c] | Some ws \<Rightarrow> ws @ [c]"
  have f: "in_flight (l_group s') = (in_flight (l_group s))(key \<mapsto> ?ws)" unfolding s'(4) by (rule singleflightD(3)[OF assms(2)])
  have "callers s c = None \<or> callers s c = Some (Missed key)" using join(2) ..
  note n = not_joined[OF assms(4) this]
  show ?thesis
  proof (rule waiting_invI, goal_cases)
    case (1 k ws d)
    then show ?case
    proof (cases "d = c")
      case True
      then show ?thesis using 1 n(2)[of k ws] by (cases "k = key") (auto simp: f s'(1-3) joined_def)
    next
      case False
      then have "\<exists>ws. in_flight (l_group s) k = Some ws \<and> d \<in> set ws"
        using 1 by (cases "in_flight (l_group s) key") (auto simp: f split: if_splits)
      then show ?thesis using assms(4) False unfolding waiting_inv_def s'(1-3) by auto
    qed
  next
    case (2 d r)
    then show ?case using assms(4) n(1) unfolding waiting_inv_def s'(1-3) by auto
  next
    case (3 d k)
    show ?case
    proof (cases "d = c")
      case True
      then show ?thesis using 3 by (auto simp: f s'(1-3) split: option.splits)
    next
      case False
      then have "chan s d \<noteq> None \<or> (\<exists>ws. in_flight (l_group s) k = Some ws \<and> d \<in> set ws)"
        using 3 assms(4) unfolding waiting_inv_def s'(1-3) by auto
      then show ?thesis by (auto simp: f s'(1-3))
    qed
  qed
next
  case (load kc r)
  then show ?thesis by (intro waiting_inv_mono[OF assms(4)]) (auto simp: load_done_def)
next
  case (publish kr)
  have "fst kr \<in> Map.dom (in_flight (l_group s))" using assms(3) publish(2) by (auto simp: flights_inv_def)
  then obtain ws where ws: "in_flight (l_group s) (fst kr) = Some ws" by auto
  have s': "callers s' = callers s" "chan s' = (\<lambda>w. if w \<in> set ws then Some (snd kr) else chan s w)" "finished s' = finished s"
      "l_group s' = snd (finish (fst kr) (l_group s))"
    using publish(1) singleflightD(4)[OF assms(2) ws] by (auto simp: deliver_def split: prod.splits)
  have f: "in_flight (l_group s') = (in_flight (l_group s))(fst kr := None)" unfolding s'(4) by (rule singleflightD(5)[OF assms(2) ws])
  have kr: "(fst kr, snd kr) \<in> finished s" using assms(5) publish(2) by auto
  have ws_joined: "joined (callers s w) (fst kr)" if "w \<in> set ws" for w using assms(4) ws that unfolding waiting_inv_def by blast
  show ?thesis
  proof (rule waiting_invI, goal_cases)
    case (1 k ws d)
    then show ?case using assms(4) unfolding waiting_inv_def by (simp add: f s'(1-3) split: if_splits)
  next
    case (2 d r)
    then show ?case
    proof (cases "d \<in> set ws")
      case True
      then have "r = snd kr" using 2 by (simp add: s'(2))
      then show ?thesis using kr ws_joined[OF True] unfolding s'(1,3) by blast
    next
      case False
      then show ?thesis using 2 assms(4) unfolding waiting_inv_def s'(1-3) by simp
    qed
  next
    case (3 d k)
    then have "chan s d \<noteq> None \<or> (\<exists>ws. in_flight (l_group s) k = Some ws \<and> d \<in> set ws)"
      using assms(4) unfolding waiting_inv_def s'(1-3) by blast
    then show ?case using ws by (auto simp: f s'(1-3))
  qed
next
  case (receive c key res)
  then show ?thesis using waiting_inv_returned[OF assms(4) receive(2)] by (simp add: Loader_receive_def)
next
  case (context_done c key)
  then show ?thesis using waiting_inv_returned[OF assms(4) context_done(2)] by simp
next
  case (cancel c)
  then show ?thesis using assms(4) unfolding waiting_inv_def by simp
qed

text \<open>A result stays a result when more loads finish and more contexts end.\<close>

lemma result_of_mono: "result_of s c k x \<Longrightarrow> finished s \<subseteq> finished s' \<Longrightarrow> canceled s \<subseteq> canceled s' \<Longrightarrow> result_of s' c k x"
  unfolding result_of_def by (auto split: sum.splits loader_err.splits)

lemma result_of_callers [simp]: "result_of (s\<lparr>callers := f\<rparr>) c k x = result_of s c k x"
  by (simp add: result_of_def split: sum.split loader_err.split)

context page_cache begin

lemma results_inv_step:
  assumes "loader_step cget cset do_chan finish s s'" "waiting_inv in_flight s" "results_inv contents ok s"
  shows "results_inv contents ok s'"
proof -
  note inv = assms(3)[unfolded results_inv_def]
  have rel: "result_of s' c k x" if "callers s c = Some (Got k x)" "finished s \<subseteq> finished s'" "canceled s \<subseteq> canceled s'" for c k x
    using inv that result_of_mono by blast
  show ?thesis using assms(1)
  proof (cases rule: loader_step.cases)
    case (call c key)
    obtain r cache where r: "cget key (l_cache s) = (r, cache)" by fastforce
    then have s': "s' = s\<lparr>l_cache := cache, callers := (callers s)(c \<mapsto> (case r of Some v \<Rightarrow> Got key (Inr v) | None \<Rightarrow> Missed key))\<rparr>"
      using call(1) by (simp add: Loader_lookup_def split: option.splits)
    have cache: "ok cache" "contents cache \<subseteq> contents (l_cache s)" using get_ok get_contents[of "l_cache s" key] get_ok[of "l_cache s" key] inv r by auto
    have hit: "(key, Inr v) \<in> finished s" if "r = Some v" for v using get_hit[of "l_cache s" key v] inv r that by auto
    have "result_of s' d k x" if "callers s' d = Some (Got k x)" for d k x
    proof (cases "d = c")
      case True
      then show ?thesis using that hit s' by (auto simp: result_of_def split: option.splits)
    next
      case False
      then show ?thesis using that rel s' by simp
    qed
    then show ?thesis using inv cache s' unfolding results_inv_def by auto
  next
    case (join c key)
    then have "callers s' = (callers s)(c \<mapsto> Waiting key)" "l_cache s' = l_cache s" "loaded s' = loaded s" "finished s' = finished s" "canceled s' = canceled s"
      by (auto simp: Loader_DoChan_def split: prod.splits)
    then show ?thesis using inv rel unfolding results_inv_def by auto
  next
    case (load kc r)
    then have s': "callers s' = callers s" "loaded s' = (fst kc, r) # loaded s" "finished s' = insert (fst kc, r) (finished s)" "canceled s' = canceled s"
        "l_cache s' = (case r of Inl err \<Rightarrow> l_cache s | Inr v \<Rightarrow> cset (fst kc) v (l_cache s))"
      by (simp_all add: load_done_def)
    have "ok (l_cache s')" using inv set_ok by (simp add: s' split: sum.splits)
    moreover have "\<forall>(k, v) \<in> contents (l_cache s'). (k, Inr v) \<in> finished s'"
      using inv set_contents[of "l_cache s" "fst kc"] by (fastforce simp: s' split: sum.splits)
    moreover have "\<forall>c k x. callers s' c = Some (Got k x) \<longrightarrow> result_of s' c k x" using rel s' by auto
    ultimately show ?thesis using inv s' unfolding results_inv_def by auto
  next
    case (publish kr)
    then have "callers s' = callers s" "l_cache s' = l_cache s" "set (loaded s') \<subseteq> set (loaded s)" "finished s' = finished s" "canceled s' = canceled s"
      by (auto simp: deliver_def split: prod.splits intro: set_mp[OF set_remove1_subset])
    then show ?thesis using inv rel unfolding results_inv_def by auto
  next
    case (receive c key res)
    obtain k where k: "joined (callers s c) k" "(k, res) \<in> finished s" using assms(2) receive(3) unfolding waiting_inv_def by blast
    have "k = key" using k(1) receive(2) by (auto simp: joined_def)
    then have "result_of s c key (case res of Inl err \<Rightarrow> Inl (LoadErr err) | Inr v \<Rightarrow> Inr v)" using k(2) by (cases res) (simp_all add: result_of_def)
    then show ?thesis using inv receive(1) by (auto simp: results_inv_def Loader_receive_def)
  next
    case (context_done c key)
    then have "result_of s c key (Inl CtxErr)" by (simp add: result_of_def)
    then show ?thesis using inv context_done(1) by (auto simp: results_inv_def)
  next
    case (cancel c)
    then show ?thesis using inv rel unfolding results_inv_def by auto
  qed
qed

lemma reachable_inv:
  assumes "(loader_step cget cset do_chan finish)\<^sup>*\<^sup>* (NewLoader c0 g0) s" "singleflight do_chan finish in_flight g0"
    "ok c0" "contents c0 = {}"
  shows "flights_inv in_flight s \<and> waiting_inv in_flight s \<and> results_inv contents ok s"
  using assms(1)
proof (induction rule: rtranclp_induct)
  case base
  show ?case using singleflightD(1)[OF assms(2)] assms(3,4)
    by (simp add: flights_inv_def waiting_inv_def results_inv_def NewLoader_def)
next
  case (step s s')
  then have "set (loaded s) \<subseteq> finished s" by (simp add: results_inv_def)
  then show ?case
    using step flights_inv_step[OF step(2) assms(2)] waiting_inv_step[OF step(2) assms(2)] results_inv_step[OF step(2)] by blast
qed

end

subsection \<open>No call is stuck\<close>

lemma receive_chan:
  assumes "callers s c = Some (Waiting k)" "chan s c = Some r"
  shows "\<exists>s'. loader_step cget cset do_chan finish s s' \<and> callers s' c = Some (Got k (case r of Inl e \<Rightarrow> Inl (LoadErr e) | Inr v \<Rightarrow> Inr v))"
  using loader_step.receive[OF assms] by (intro exI conjI) (assumption, simp add: Loader_receive_def)

lemma publish_returns:
  assumes "callers s c = Some (Waiting k)" "in_flight (l_group s) k = Some ws" "c \<in> set ws" "(k, r) \<in> set (loaded s)"
    "singleflight do_chan finish in_flight g0"
  shows "\<exists>s'. (loader_step cget cset do_chan finish)\<^sup>*\<^sup>* s s' \<and> callers s' c = Some (Got k (case r of Inl e \<Rightarrow> Inl (LoadErr e) | Inr v \<Rightarrow> Inr v))"
proof -
  let ?s = "deliver finish (k, r) s"
  have "loader_step cget cset do_chan finish s ?s" by (rule loader_step.publish[OF assms(4)])
  moreover have "callers ?s c = Some (Waiting k)" "chan ?s c = Some r"
    using assms(1,3) singleflightD(4)[OF assms(5,2)] by (auto simp: deliver_def split: prod.splits)
  moreover from receive_chan[OF this] obtain s' where "loader_step cget cset do_chan finish ?s s'"
      "callers s' c = Some (Got k (case r of Inl e \<Rightarrow> Inl (LoadErr e) | Inr v \<Rightarrow> Inr v))" by blast
  ultimately show ?thesis by (intro exI[of _ s'] conjI) (auto intro: converse_rtranclp_into_rtranclp)
qed

lemma waiting_returns:
  assumes "callers s c = Some (Waiting k)" "flights_inv in_flight s" "waiting_inv in_flight s" "singleflight do_chan finish in_flight g0"
  shows "\<exists>s' x. (loader_step cget cset do_chan finish)\<^sup>*\<^sup>* s s' \<and> callers s' c = Some (Got k x) \<and> x \<noteq> Inl CtxErr"
proof -
  have ne: "(case r of Inl e \<Rightarrow> Inl (LoadErr e) | Inr v \<Rightarrow> Inr v) \<noteq> Inl CtxErr" for r by (simp split: sum.splits)
  consider r where "chan s c = Some r" | ws where "in_flight (l_group s) k = Some ws" "c \<in> set ws"
    using assms(1,3) unfolding waiting_inv_def by blast
  then show ?thesis
  proof cases
    case 1
    then show ?thesis using receive_chan[OF assms(1)] ne by blast
  next
    case 2
    then have "k \<in> set (map fst (running s) @ map fst (loaded s))" using assms(2) by (simp add: flights_inv_def domIff)
    then consider l where "(k, l) \<in> set (running s)" | r where "(k, r) \<in> set (loaded s)" by auto
    then show ?thesis
    proof cases
      case 1
      let ?s = "load_done cset (k, l) (Inl undefined) s"
      have st: "loader_step cget cset do_chan finish s ?s" by (rule loader_step.load[OF 1])
      have "callers ?s c = Some (Waiting k)" "in_flight (l_group ?s) k = Some ws" "(k, Inl undefined) \<in> set (loaded ?s)"
        using assms(1) 2 by (simp_all add: load_done_def)
      from publish_returns[OF this(1,2) 2(2) this(3) assms(4)] obtain s' x where
        "(loader_step cget cset do_chan finish)\<^sup>*\<^sup>* ?s s'" "callers s' c = Some (Got k x)" "x \<noteq> Inl CtxErr" using ne by blast
      then show ?thesis using st by (blast intro: converse_rtranclp_into_rtranclp)
    next
      case 2: 2
      then show ?thesis using publish_returns[OF assms(1) \<open>in_flight (l_group s) k = Some ws\<close> \<open>c \<in> set ws\<close> 2 assms(4)] ne by blast
    qed
  qed
qed

subsection \<open>The loader over the LRU cache\<close>

interpretation lru_page: page_cache Get Set "\<lambda>c. set (pairs c)" lru_ok
proof (unfold_locales, goal_cases)
  case (1 c k)
  then show ?case using Get_refines[of c k] by simp
next
  case (4 c k v)
  then show ?case using Set_refines[of c k v] by simp
next
  case (2 c k v)
  then show ?case using Get_refines[of c k] by (auto simp: spec_get_def dest: map_of_SomeD split: option.splits)
next
  case (3 c k)
  then show ?case using Get_refines[of c k] by (auto simp: spec_get_def dest: map_of_SomeD split: option.splits)
next
  case (5 c k v)
  then show ?case using Set_refines[of c k v] by (auto simp: spec_set_def dest: in_set_takeD)
qed

text \<open>A single-flight group kept as a map from keys to waiting calls.\<close>

definition sample_do_chan :: "string \<Rightarrow> nat \<Rightarrow> (string \<rightharpoonup> nat list) \<Rightarrow> bool \<times> (string \<rightharpoonup> nat list)" where
  "sample_do_chan k c g = (g k = None, g(k \<mapsto> (case g k of None \<Rightarrow> [c] | Some ws \<Rightarrow> ws @ [c])))"

definition sample_finish :: "string \<Rightarrow> (string \<rightharpoonup> nat list) \<Rightarrow> nat list \<times> (string \<rightharpoonup> nat list)" where
  "sample_finish k g = (case g k of None \<Rightarrow> [] | Some ws \<Rightarrow> ws, g(k := None))"

lemma sample_singleflight: "singleflight sample_do_chan sample_finish (\<lambda>g. g) Map.empty"
  by (simp add: singleflight_def sample_do_chan_def sample_finish_def)

text \<open>C21: Concurrent lookups of one key never stampede the backend. Whatever the order of calls, joins, loads, deliveries and
  cancellations: at most one load per key is in flight; a call returns a page only if a load of that very key produced it, the
  error of such a load, or the context's error when its own context ended; errors are never cached, and every cached page is the
  result of a load of its key; and a waiting call can always still get the result of a load.\<close>

theorem Loader_single_flight:
  assumes "singleflight do_chan finish in_flight g0"
    and "(loader_step Get Set do_chan finish)\<^sup>*\<^sup>* (NewLoader (NewLRUCache cap) g0) s"
  shows "distinct (map fst (running s) @ map fst (loaded s)) \<and>
    (\<forall>c k x. callers s c = Some (Got k x) \<longrightarrow> result_of s c k x) \<and>
    (\<forall>(k, v) \<in> set (pairs (l_cache s)). (k, Inr v) \<in> finished s) \<and>
    (\<forall>c k. callers s c = Some (Waiting k) \<longrightarrow>
      (\<exists>s' x. (loader_step Get Set do_chan finish)\<^sup>*\<^sup>* s s' \<and> callers s' c = Some (Got k x) \<and> x \<noteq> Inl CtxErr))"
proof -
  have "set (pairs (NewLRUCache cap)) = {}" by (simp add: pairs_def NewLRUCache_def)
  note inv = lru_page.reachable_inv[OF assms(2,1) lru_ok_New this]
  have "\<exists>s' x. (loader_step Get Set do_chan finish)\<^sup>*\<^sup>* s s' \<and> callers s' c = Some (Got k x) \<and> x \<noteq> Inl CtxErr"
    if "callers s c = Some (Waiting k)" for c k using waiting_returns[OF that _ _ assms(1)] inv by blast
  then show ?thesis using inv unfolding results_inv_def flights_inv_def by blast
qed

theorem Loader_single_flight_witness:
  "\<exists>s x. (loader_step Get Set sample_do_chan sample_finish)\<^sup>*\<^sup>* (NewLoader (NewLRUCache 2 :: nat LRUCache) Map.empty :: (_, _, string, _) Loader) s \<and>
     callers s 1 = Some (Got ''q'' x) \<and> x \<noteq> Inl CtxErr"
proof -
  let ?step = "loader_step Get Set sample_do_chan sample_finish"
  let ?s0 = "NewLoader (NewLRUCache 2 :: nat LRUCache) Map.empty :: (_, _, string, _) Loader"
  let ?s1 = "Loader_lookup Get 0 ''q'' ?s0" let ?s2 = "Loader_DoChan sample_do_chan 0 ''q'' ?s1"
  let ?s3 = "Loader_lookup Get 1 ''q'' ?s2" let ?s4 = "Loader_DoChan sample_do_chan 1 ''q'' ?s3"
  note defs = Loader_lookup_def Loader_DoChan_def NewLoader_def NewLRUCache_def Get_def sample_do_chan_def
  have "?step ?s0 ?s1" "?step ?s1 ?s2" "?step ?s2 ?s3" "?step ?s3 ?s4"
    by (rule loader_step.call loader_step.join; simp add: defs)+
  then have r: "?step\<^sup>*\<^sup>* ?s0 ?s4" by (meson converse_rtranclp_into_rtranclp rtranclp.rtrancl_refl)
  have "callers ?s4 1 = Some (Waiting ''q'')" by (simp add: defs)
  then show ?thesis using Loader_single_flight[OF sample_singleflight r] r by (meson rtranclp_trans)
qed

end
