(* ===== verification/Hedge.thy ===== *)
theory Hedge
  imports Prelude
begin

text \<open>
  \<open>serve/hedge.go\<close>: hedged requests as a state machine. The attempts run in goroutines, so the order of
  completions, timer ticks and the end of the context is up to the environment: the \<open>select\<close> loop is a step
  relation. \<open>fn i\<close> is what the attempt on replica \<open>i\<close> returns when it completes, and \<open>ctx\<close> the
  context's error if the context may end. A completed attempt waits in the buffered channel until the
  loop receives it, so the attempts not received yet are the ones in flight.
\<close>

record 'e hstate =
  launched :: nat
  pending :: nat
  lastErr :: "'e option"
  timerC :: bool
  inflight :: "nat list"

datatype ('e, 'a) hconf = Running "'e hstate" | Returned "'e option + 'a"

definition launch :: "'e hstate \<Rightarrow> 'e hstate" where
  "launch s = s\<lparr>inflight := inflight s @ [launched s], launched := launched s + 1, pending := pending s + 1\<rparr>"

definition arm :: "int \<Rightarrow> int \<Rightarrow> 'e hstate \<Rightarrow> 'e hstate" where
  "arm replicas delay s = s\<lparr>timerC := (int (launched s) < replicas \<and> delay > 0)\<rparr>"

fun launch_all :: "nat \<Rightarrow> 'e hstate \<Rightarrow> 'e hstate" where
  "launch_all 0 s = s"
| "launch_all (Suc n) s = launch_all n (launch s)"

text \<open>The part before the loop; no replicas is an error at once.\<close>

definition Hedge_init :: "'e \<Rightarrow> int \<Rightarrow> int \<Rightarrow> ('e, 'a) hconf" where
  "Hedge_init canceled replicas delay =
     (if replicas \<le> 0 then Returned (Inl (Some canceled))
      else let s = launch \<lparr>launched = 0, pending = 0, lastErr = None, timerC = False, inflight = []\<rparr>;
               s = (if delay \<le> 0 then launch_all (nat replicas - launched s) s else s)
           in Running (arm replicas delay s))"

text \<open>Receiving a failure: the next replica is tried right away, if there is one.\<close>

definition on_error :: "int \<Rightarrow> int \<Rightarrow> nat \<Rightarrow> 'e \<Rightarrow> 'e hstate \<Rightarrow> 'e hstate" where
  "on_error replicas delay i e s =
     (let s = s\<lparr>pending := pending s - 1, lastErr := Some e, inflight := remove1 i (inflight s)\<rparr>
      in if int (launched s) < replicas then arm replicas delay (launch s) else s)"

inductive hedge_step ::
  "int \<Rightarrow> int \<Rightarrow> 'e option \<Rightarrow> (nat \<Rightarrow> 'e + 'a) \<Rightarrow> ('e, 'a) hconf \<Rightarrow> ('e, 'a) hconf \<Rightarrow> bool"
  for replicas delay ctx fn where
  context_done: "ctx = Some e \<Longrightarrow> 0 < pending s \<Longrightarrow> hedge_step replicas delay ctx fn (Running s) (Returned (Inl (Some e)))"
| timer: "0 < pending s \<Longrightarrow> timerC s \<Longrightarrow> hedge_step replicas delay ctx fn (Running s) (Running (arm replicas delay (launch s)))"
| success: "0 < pending s \<Longrightarrow> i \<in> set (inflight s) \<Longrightarrow> fn i = Inr v \<Longrightarrow> hedge_step replicas delay ctx fn (Running s) (Returned (Inr v))"
| failure: "0 < pending s \<Longrightarrow> i \<in> set (inflight s) \<Longrightarrow> fn i = Inl e \<Longrightarrow>
    hedge_step replicas delay ctx fn (Running s) (Running (on_error replicas delay i e s))"
| exhausted: "pending s = 0 \<Longrightarrow> hedge_step replicas delay ctx fn (Running s) (Returned (Inl (lastErr s)))"

inductive_cases hedge_RunningE: "hedge_step replicas delay ctx fn (Running s) c"
inductive_cases hedge_ReturnedE: "hedge_step replicas delay ctx fn (Returned r) c"

subsection \<open>The invariant\<close>

definition hedge_inv :: "int \<Rightarrow> (nat \<Rightarrow> 'e + 'a) \<Rightarrow> 'e hstate \<Rightarrow> bool" where
  "hedge_inv replicas fn s \<longleftrightarrow> pending s = length (inflight s) \<and> distinct (inflight s) \<and>
     set (inflight s) \<subseteq> {..<launched s} \<and> int (launched s) \<le> replicas \<and>
     (timerC s \<longrightarrow> int (launched s) < replicas) \<and> (0 < pending s \<or> int (launched s) = replicas) \<and>
     (\<forall>i < launched s. i \<notin> set (inflight s) \<longrightarrow> isl (fn i)) \<and> 0 < launched s \<and>
     (pending s < launched s \<longrightarrow> (\<exists>i < launched s. \<exists>e. fn i = Inl e \<and> lastErr s = Some e))"

lemma hedge_inv_launch:
  assumes "hedge_inv replicas fn s" "int (launched s) < replicas"
  shows "hedge_inv replicas fn (arm replicas delay (launch s))"
proof -
  have "launched s \<notin> set (inflight s)" using assms(1) by (auto simp: hedge_inv_def)
  then show ?thesis using assms by (fastforce simp: hedge_inv_def launch_def arm_def less_Suc_eq)
qed

lemma launch_all_simps:
  "launched (launch_all n s) = launched s + n" "pending (launch_all n s) = pending s + n"
  "inflight (launch_all n s) = inflight s @ [launched s..<launched s + n]" "lastErr (launch_all n s) = lastErr s"
  by (induction n arbitrary: s) (auto simp: launch_def upt_conv_Cons)

lemma hedge_inv_init:
  assumes "Hedge_init canceled replicas delay = Running s"
  shows "hedge_inv replicas fn s" "0 < replicas"
proof -
  show r: "0 < replicas" using assms by (auto simp: Hedge_init_def split: if_splits)
  have s: "s = arm replicas delay (let s = launch \<lparr>launched = 0, pending = 0, lastErr = None, timerC = False, inflight = []\<rparr>
      in if delay \<le> 0 then launch_all (nat replicas - launched s) s else s)"
    using assms r by (auto simp: Hedge_init_def Let_def)
  have "[0..<nat replicas] = 0 # [Suc 0..<nat replicas]" using r by (simp add: upt_conv_Cons)
  then show "hedge_inv replicas fn s" unfolding s Let_def using r
    by (auto simp: hedge_inv_def arm_def launch_def launch_all_simps)
qed

lemma hedge_inv_error:
  assumes "hedge_inv replicas fn s" "i \<in> set (inflight s)" "fn i = Inl e"
  shows "hedge_inv replicas fn (on_error replicas delay i e s)"
proof -
  let ?s = "s\<lparr>pending := pending s - 1, lastErr := Some e, inflight := remove1 i (inflight s)\<rparr>"
  have p: "pending s = length (inflight s)" "distinct (inflight s)" "i < launched s" using assms by (auto simp: hedge_inv_def)
  have len: "length (remove1 i (inflight s)) = pending s - 1" using p(1) assms(2) by (simp add: length_remove1)
  have isl: "isl (fn j)" if "j < launched s" "j \<notin> set (remove1 i (inflight s))" for j
    using that assms p(2) by (cases "j = i") (auto simp: hedge_inv_def)
  show ?thesis
  proof (cases "int (launched s) < replicas")
    case True
    have fresh: "launched s \<notin> set (remove1 i (inflight s))" using assms(1) p(2) by (auto simp: hedge_inv_def)
    have "hedge_inv replicas fn (arm replicas delay (launch ?s))"
      using assms p len isl fresh True by (auto simp: hedge_inv_def launch_def arm_def less_Suc_eq)
    then show ?thesis using True by (simp add: on_error_def Let_def)
  next
    case False
    then have "int (launched s) = replicas" using assms(1) by (auto simp: hedge_inv_def)
    then show ?thesis using False assms p len isl by (auto simp: hedge_inv_def on_error_def Let_def)
  qed
qed

definition conf_inv :: "int \<Rightarrow> 'e option \<Rightarrow> (nat \<Rightarrow> 'e + 'a) \<Rightarrow> ('e, 'a) hconf \<Rightarrow> bool" where
  "conf_inv replicas ctx fn c \<longleftrightarrow> (case c of
      Running s \<Rightarrow> hedge_inv replicas fn s
    | Returned (Inr v) \<Rightarrow> \<exists>i. int i < replicas \<and> fn i = Inr v
    | Returned (Inl e) \<Rightarrow> e \<noteq> None \<and> (ctx = e \<or>
        (\<forall>i. int i < replicas \<longrightarrow> isl (fn i)) \<and> (\<exists>i. int i < replicas \<and> fn i = Inl (the e))))"

lemma conf_inv_step:
  assumes "hedge_step replicas delay ctx fn c c'" "conf_inv replicas ctx fn c"
  shows "conf_inv replicas ctx fn c'"
  using assms
proof (cases rule: hedge_step.cases)
  case (timer s)
  have inv: "hedge_inv replicas fn s" using assms(2) timer(1) by (simp add: conf_inv_def)
  have "int (launched s) < replicas" using inv timer(4) by (simp add: hedge_inv_def)
  with timer(2) show ?thesis using hedge_inv_launch[OF inv] by (simp add: conf_inv_def)
next
  case (success s i v)
  then show ?thesis using assms(2) by (force simp: conf_inv_def hedge_inv_def)
next
  case (failure s i e)
  then show ?thesis using assms(2) hedge_inv_error by (auto simp: conf_inv_def)
next
  case (exhausted s)
  then show ?thesis using assms(2) by (force simp: conf_inv_def hedge_inv_def)
qed (auto simp: conf_inv_def)

text \<open>Every step uses up a launch or an attempt.\<close>

fun hedge_measure :: "int \<Rightarrow> ('e, 'a) hconf \<Rightarrow> nat" where
  "hedge_measure replicas (Running s) = Suc (2 * nat (replicas - int (launched s)) + pending s)"
| "hedge_measure replicas (Returned r) = 0"

lemma hedge_measure_step:
  assumes "hedge_step replicas delay ctx fn c c'" "conf_inv replicas ctx fn c"
  shows "hedge_measure replicas c' < hedge_measure replicas c"
  using assms
proof (cases rule: hedge_step.cases)
  case (timer s)
  then show ?thesis using assms(2) by (auto simp: conf_inv_def hedge_inv_def launch_def arm_def)
next
  case (failure s i e)
  then show ?thesis using assms(2) by (auto simp: conf_inv_def hedge_inv_def on_error_def launch_def arm_def Let_def)
qed auto

lemma hedge_progress:
  assumes "conf_inv replicas ctx fn (Running s)"
  shows "\<exists>c'. hedge_step replicas delay ctx fn (Running s) c'"
proof (cases "pending s")
  case (Suc p)
  then obtain i where i: "i \<in> set (inflight s)"
    using assms by (cases "inflight s") (auto simp: conf_inv_def hedge_inv_def)
  have p: "0 < pending s" using Suc by simp
  show ?thesis
  proof (cases "fn i")
    case (Inl e)
    then show ?thesis using hedge_step.failure[of s i fn e] p i by blast
  next
    case (Inr v)
    then show ?thesis using hedge_step.success[of s i fn v] p i by blast
  qed
qed (auto intro: hedge_step.exhausted)

lemma conf_inv_reachable:
  assumes "(hedge_step replicas delay ctx fn)\<^sup>*\<^sup>* c c'" "conf_inv replicas ctx fn c"
  shows "conf_inv replicas ctx fn c'"
  using assms by (induction rule: rtranclp_induct) (auto intro: conf_inv_step)

lemma hedge_run_bound:
  "((hedge_step replicas delay ctx fn) ^^ n) c c' \<Longrightarrow> conf_inv replicas ctx fn c \<Longrightarrow>
   hedge_measure replicas c' + n \<le> hedge_measure replicas c"
proof (induction n arbitrary: c')
  case (Suc n)
  then obtain d where d: "((hedge_step replicas delay ctx fn) ^^ n) c d" "hedge_step replicas delay ctx fn d c'" by auto
  have "conf_inv replicas ctx fn d" using conf_inv_reachable[of replicas delay ctx fn c d] d(1) Suc.prems(2)
    by (meson relpowp_imp_rtranclp)
  then show ?case using hedge_measure_step[OF d(2)] Suc.IH[OF d(1) Suc.prems(2)] by simp
qed simp

lemma conf_inv_init:
  "0 < replicas \<Longrightarrow> conf_inv replicas ctx fn (Hedge_init canceled replicas delay)"
  using hedge_inv_init[of canceled replicas delay]
  by (cases "Hedge_init canceled replicas delay :: (_, 'b) hconf") (auto simp: conf_inv_def Hedge_init_def Let_def)

lemma hedge_returns:
  "conf_inv replicas ctx fn c \<Longrightarrow> \<exists>r. (hedge_step replicas delay ctx fn)\<^sup>*\<^sup>* c (Returned r)"
proof (induction "hedge_measure replicas c" arbitrary: c rule: less_induct)
  case less
  show ?case
  proof (cases c)
    case (Running s)
    then obtain d where d: "hedge_step replicas delay ctx fn c d" using hedge_progress less.prems by blast
    from less.hyps[OF hedge_measure_step[OF d less.prems] conf_inv_step[OF d less.prems]] d show ?thesis
      by (meson converse_rtranclp_into_rtranclp)
  qed auto
qed

subsection \<open>The failures of a run\<close>

text \<open>The attempts whose failure the loop receives in a step: those that leave the set in flight while the call goes on.\<close>

definition received :: "('e, 'a) hconf \<Rightarrow> ('e, 'a) hconf \<Rightarrow> nat list" where
  "received c d =
     (case c of
        Returned r \<Rightarrow> []
      | Running s \<Rightarrow> (case d of Returned r \<Rightarrow> [] | Running t \<Rightarrow> filter (\<lambda>i. i \<notin> set (inflight t)) (inflight s)))"

text \<open>A run with the failures it received, in order.\<close>

inductive hedge_run ::
  "int \<Rightarrow> int \<Rightarrow> 'e option \<Rightarrow> (nat \<Rightarrow> 'e + 'a) \<Rightarrow> ('e, 'a) hconf \<Rightarrow> nat list \<Rightarrow> ('e, 'a) hconf \<Rightarrow> bool"
  for replicas delay ctx fn c where
  run_start: "hedge_run replicas delay ctx fn c [] c"
| run_step: "hedge_run replicas delay ctx fn c fs d \<Longrightarrow> hedge_step replicas delay ctx fn d e \<Longrightarrow>
    hedge_run replicas delay ctx fn c (fs @ received d e) e"

lemma hedge_run_iff: "(hedge_step replicas delay ctx fn)\<^sup>*\<^sup>* c d \<longleftrightarrow> (\<exists>fs. hedge_run replicas delay ctx fn c fs d)"
proof
  show "\<exists>fs. hedge_run replicas delay ctx fn c fs d" if "(hedge_step replicas delay ctx fn)\<^sup>*\<^sup>* c d"
    using that by (induction rule: rtranclp_induct) (blast intro: run_start run_step)+
  show "(hedge_step replicas delay ctx fn)\<^sup>*\<^sup>* c d" if "\<exists>fs. hedge_run replicas delay ctx fn c fs d"
  proof -
    from that obtain fs where "hedge_run replicas delay ctx fn c fs d" ..
    then show ?thesis by induction auto
  qed
qed

definition failures_ok :: "(nat \<Rightarrow> 'e + 'a) \<Rightarrow> nat list \<Rightarrow> 'e hstate \<Rightarrow> bool" where
  "failures_ok fn fs s \<longleftrightarrow> distinct fs \<and> set fs = {i. i < launched s \<and> i \<notin> set (inflight s)} \<and>
     map Inl (case lastErr s of None \<Rightarrow> [] | Some e \<Rightarrow> [e]) = (if fs = [] then [] else [fn (last fs)])"

definition run_inv :: "int \<Rightarrow> 'e option \<Rightarrow> (nat \<Rightarrow> 'e + 'a) \<Rightarrow> nat list \<Rightarrow> ('e, 'a) hconf \<Rightarrow> bool" where
  "run_inv replicas ctx fn fs c \<longleftrightarrow> distinct fs \<and> list_all (\<lambda>i. int i < replicas \<and> isl (fn i)) fs \<and> (case c of
      Running s \<Rightarrow> hedge_inv replicas fn s \<and> failures_ok fn fs s
    | Returned (Inr v) \<Rightarrow> \<exists>i. int i < replicas \<and> fn i = Inr v
    | Returned (Inl e) \<Rightarrow> ctx \<noteq> None \<and> e = ctx \<or>
        set fs = {i. int i < replicas} \<and> (\<exists>x. e = Some x \<and> fs \<noteq> [] \<and> fn (last fs) = Inl x))"

lemma failures_fail:
  assumes "hedge_inv replicas fn s" "failures_ok fn fs s"
  shows "distinct fs" "list_all (\<lambda>i. int i < replicas \<and> isl (fn i)) fs"
  using assms by (auto simp: hedge_inv_def failures_ok_def list_all_iff)

lemma run_inv_Running:
  assumes "hedge_inv replicas fn s" "failures_ok fn fs s"
  shows "run_inv replicas ctx fn fs (Running s)"
  using failures_fail[OF assms] assms by (simp add: run_inv_def)

lemma filter_one: "distinct xs \<Longrightarrow> i \<in> set xs \<Longrightarrow> filter (\<lambda>j. j = i) xs = [i]"
  by (induction xs) (auto simp: filter_empty_conv)

lemma received_failure:
  assumes "hedge_inv replicas fn s" "i \<in> set (inflight s)"
  shows "received (Running s) (Running (on_error replicas delay i e s)) = [i]"
proof -
  have "distinct (inflight s)" "launched s \<notin> set (inflight s)" "i < launched s" using assms by (auto simp: hedge_inv_def)
  then have "j \<notin> set (inflight (on_error replicas delay i e s)) \<longleftrightarrow> j = i" if "j \<in> set (inflight s)" for j
    using that by (auto simp: on_error_def launch_def arm_def Let_def)
  then have "received (Running s) (Running (on_error replicas delay i e s)) = filter (\<lambda>j. j = i) (inflight s)"
    by (auto simp: received_def intro: filter_cong)
  also have "\<dots> = [i]" using \<open>distinct (inflight s)\<close> assms(2) by (rule filter_one)
  finally show ?thesis .
qed

lemma run_inv_step:
  assumes "hedge_step replicas delay ctx fn c d" "run_inv replicas ctx fn fs c"
  shows "run_inv replicas ctx fn (fs @ received c d) d"
  using assms(1)
proof (cases rule: hedge_step.cases)
  case (context_done e s)
  then show ?thesis using assms(2) by (simp add: run_inv_def received_def)
next
  case (timer s)
  have inv: "hedge_inv replicas fn s" and fl: "failures_ok fn fs s" using assms(2) timer(1) by (simp_all add: run_inv_def)
  have "int (launched s) < replicas" using inv timer(4) by (simp add: hedge_inv_def)
  note inv' = hedge_inv_launch[OF inv this]
  have "received c d = []" using timer by (simp add: received_def launch_def arm_def)
  moreover have "failures_ok fn fs (arm replicas delay (launch s))"
    using fl inv by (auto simp: failures_ok_def hedge_inv_def launch_def arm_def less_Suc_eq)
  ultimately show ?thesis using run_inv_Running[OF inv'] timer(2) by simp
next
  case (success s i v)
  then have "int i < replicas" using assms(2) by (auto simp: run_inv_def hedge_inv_def)
  then show ?thesis using success assms(2) by (auto simp: run_inv_def received_def)
next
  case (failure s i e)
  have inv: "hedge_inv replicas fn s" and fl: "failures_ok fn fs s" using assms(2) failure(1) by (simp_all add: run_inv_def)
  note inv' = hedge_inv_error[OF inv failure(4,5), of delay]
  note r = received_failure[OF inv failure(4), of delay e]
  have i: "i < launched s" "distinct (inflight s)" "launched s \<notin> set (inflight s)" using inv failure(4) by (auto simp: hedge_inv_def)
  have "failures_ok fn (fs @ [i]) (on_error replicas delay i e s)"
    using fl i failure(4,5) by (auto simp: failures_ok_def on_error_def launch_def arm_def Let_def less_Suc_eq)
  then show ?thesis unfolding failure(1,2) r by (rule run_inv_Running[OF inv'])
next
  case (exhausted s)
  have inv: "hedge_inv replicas fn s" and fl: "failures_ok fn fs s" using assms(2) exhausted(1) by (simp_all add: run_inv_def)
  have e: "inflight s = []" "int (launched s) = replicas" "0 < launched s" using inv exhausted(3) by (auto simp: hedge_inv_def)
  have l: "set fs = {i. i < launched s}" using fl e(1) by (simp add: failures_ok_def)
  moreover have "(i < launched s) = (int i < replicas)" for i unfolding e(2)[symmetric] by simp
  ultimately have "set fs = {i. int i < replicas}" by (simp only:)
  moreover have "0 \<in> set fs" unfolding l using e(3) by simp
  then have "fs \<noteq> []" by (cases fs) simp_all
  ultimately have s: "set fs = {i. int i < replicas}" "fs \<noteq> []" by blast+
  then obtain x where "lastErr s = Some x" "fn (last fs) = Inl x"
    using fl by (auto simp: failures_ok_def split: option.splits)
  then show ?thesis using exhausted(1,2) s failures_fail[OF inv fl] by (simp add: run_inv_def received_def)
qed

lemma run_inv_init:
  assumes "0 < replicas"
  shows "run_inv replicas ctx fn [] (Hedge_init canceled replicas delay)"
proof -
  obtain s where s: "(Hedge_init canceled replicas delay :: ('a, 'b) hconf) = Running s"
    using assms by (cases "Hedge_init canceled replicas delay :: ('a, 'b) hconf") (auto simp: Hedge_init_def Let_def)
  have "lastErr (launch_all n t) = lastErr t" for n and t :: "'a hstate" by (simp add: launch_all_simps)
  then have "lastErr s = None" "{i. i < launched s \<and> i \<notin> set (inflight s)} = {}"
    using s assms by (auto simp: Hedge_init_def Let_def arm_def launch_def launch_all_simps split: if_splits)
  then show ?thesis unfolding s using hedge_inv_init[OF s] by (intro run_inv_Running) (auto simp: failures_ok_def)
qed

lemma hedge_run_inv:
  assumes "hedge_run replicas delay ctx fn c fs d" "run_inv replicas ctx fn [] c"
  shows "run_inv replicas ctx fn fs d"
  using assms by induction (auto intro: run_inv_step)

subsection \<open>Properties\<close>

text \<open>C19: What a hedged request returns, whatever the order of completions, ticks and failures. A value is the value of one of the
  replicas. An error is the error of the context, which may end the call at any time, or every replica was tried and failed and it is
  the error of the attempt whose failure was received last. No failure is received twice.\<close>

theorem Hedge_result:
  assumes "0 < replicas" "hedge_run replicas delay ctx fn (Hedge_init canceled replicas delay) fs (Returned r)"
  shows "distinct fs \<and> list_all (\<lambda>i. int i < replicas \<and> isl (fn i)) fs \<and> (case r of
      Inr v \<Rightarrow> \<exists>i. int i < replicas \<and> fn i = Inr v
    | Inl e \<Rightarrow> ctx \<noteq> None \<and> e = ctx \<or>
        set fs = {i. int i < replicas} \<and> (\<exists>x. e = Some x \<and> fs \<noteq> [] \<and> fn (last fs) = Inl x))"
  using hedge_run_inv[OF assms(2) run_inv_init[OF assms(1)]] by (simp add: run_inv_def)

theorem Hedge_result_witness:
  "\<exists>r. hedge_run 2 5 None (\<lambda>i. Inl (if i = 0 then ''slow'' else ''down'') :: string + nat) (Hedge_init ''canceled'' 2 5) [0, 1] (Returned r) \<and>
     r = Inl (Some ''down'')"
proof -
  let ?fn = "\<lambda>i::nat. Inl (if i = 0 then ''slow'' else ''down'') :: string + nat"
  let ?s = "arm 2 5 (launch \<lparr>launched = 0, pending = 0, lastErr = None, timerC = False, inflight = []\<rparr>)"
  let ?t = "on_error 2 5 0 ''slow'' ?s" let ?u = "on_error 2 5 1 ''down'' ?t"
  note defs = arm_def launch_def on_error_def Let_def
  have i: "Hedge_init ''canceled'' 2 5 = Running ?s" by (simp add: Hedge_init_def Let_def)
  have st: "hedge_step 2 5 None ?fn (Running ?s) (Running ?t)" by (rule hedge_step.failure[of _ 0]) (simp_all add: defs)
  have tu: "hedge_step 2 5 None ?fn (Running ?t) (Running ?u)" by (rule hedge_step.failure[of _ 1]) (simp_all add: defs)
  have ur: "hedge_step 2 5 None ?fn (Running ?u) (Returned (Inl (lastErr ?u)))" by (rule hedge_step.exhausted) (simp add: defs)
  have rec: "([] @ received (Running ?s) (Running ?t)) @ received (Running ?t) (Running ?u) = [0, 1]" by (simp add: received_def defs)
  have "hedge_run 2 5 None ?fn (Hedge_init ''canceled'' 2 5) [0, 1] (Returned (Inl (lastErr ?u)))"
    using run_step[OF run_step[OF run_step[OF run_start st] tu] ur] unfolding i rec by (simp add: received_def)
  moreover from Hedge_result[OF _ this] have "lastErr ?u = Some ''down''" by simp
  ultimately show ?thesis by auto
qed

text \<open>C18: Hedging never hangs and never over-launches. With every attempt completing eventually, no run takes
  more than \<open>2 * replicas\<close> steps, a running call can always take a step, at most one attempt per replica
  is launched, and the call does return.\<close>

theorem Hedge_terminates:
  fixes fn :: "nat \<Rightarrow> 'e + 'a"
  assumes "0 < replicas"
  shows "(\<forall>n c. ((hedge_step replicas delay ctx fn) ^^ n) (Hedge_init canceled replicas delay) c \<longrightarrow> int n \<le> 2 * replicas) \<and>
    (\<forall>s. (hedge_step replicas delay ctx fn)\<^sup>*\<^sup>* (Hedge_init canceled replicas delay) (Running s) \<longrightarrow>
       int (launched s) \<le> replicas \<and> distinct (inflight s) \<and> (\<exists>c. hedge_step replicas delay ctx fn (Running s) c)) \<and>
    (\<exists>r. (hedge_step replicas delay ctx fn)\<^sup>*\<^sup>* (Hedge_init canceled replicas delay) (Returned r))"
proof (intro conjI allI impI)
  note init = conf_inv_init[OF assms, of ctx fn canceled delay]
  fix n c assume n: "((hedge_step replicas delay ctx fn) ^^ n) (Hedge_init canceled replicas delay) c"
  have "int (hedge_measure replicas (Hedge_init canceled replicas delay :: ('e, 'a) hconf)) \<le> 2 * replicas"
    using assms by (auto simp: Hedge_init_def Let_def arm_def launch_def launch_all_simps)
  then show "int n \<le> 2 * replicas" using hedge_run_bound[OF n init] by linarith
next
  note init = conf_inv_init[OF assms, of ctx fn canceled delay]
  fix s assume "(hedge_step replicas delay ctx fn)\<^sup>*\<^sup>* (Hedge_init canceled replicas delay) (Running s)"
  note inv = conf_inv_reachable[OF this init]
  show "int (launched s) \<le> replicas" "distinct (inflight s)" using inv by (auto simp: conf_inv_def hedge_inv_def)
  show "\<exists>c. hedge_step replicas delay ctx fn (Running s) c" by (rule hedge_progress[OF inv])
next
  show "\<exists>r. (hedge_step replicas delay ctx fn)\<^sup>*\<^sup>* (Hedge_init canceled replicas delay) (Returned r)"
    by (rule hedge_returns[OF conf_inv_init[OF assms]])
qed

theorem Hedge_terminates_witness:
  "\<exists>r. (hedge_step 3 10 None (\<lambda>i. Inl ''down'' :: string + nat))\<^sup>*\<^sup>* (Hedge_init ''canceled'' 3 10) (Returned r)"
  using Hedge_terminates[of 3 10 None "\<lambda>i. Inl ''down'' :: string + nat" "''canceled''"] by simp

end
