(* ===== verification/Robots.thy ===== *)
theory Robots
  imports GoStrings "HOL-Library.Product_Lexorder"
begin

text \<open>
  \<open>crawler/robots/robots.go\<close>: the robots exclusion protocol. A file is its bytes; \<open>bufio.Scanner\<close> cuts
  the first \<open>MaxBytes\<close> of it into lines (a line is never longer than the scanner's buffer, which is
  larger than \<open>MaxBytes\<close>). The number parser of the advisory crawl delay is the argument \<open>pf\<close>:
  \<open>strconv.ParseFloat\<close> with the conversion to nanoseconds, \<open>None\<close> for an error or a negative number.
  The glob matcher's loop is a partial function: that it returns is part of its theorem.
\<close>

definition MaxBytes :: nat where "MaxBytes = 500 * 1024"

record rule =
  r_allow :: bool
  r_pattern :: string

record group =
  agents :: "string list"
  rules :: "rule list"
  crawlDelay :: int
  hasDelay :: bool

record Robots =
  groups :: "group list"
  sitemaps :: "string list"

subsection \<open>Parsing\<close>

definition stripComment :: "string \<Rightarrow> string" where
  "stripComment line = (case Cut line (CHR ''#'') of (before, _, found) \<Rightarrow> if found then before else line)"

definition splitField :: "string \<Rightarrow> string \<times> string \<times> bool" where
  "splitField line =
     (case Cut line (CHR '':'') of
        (name, val, found) \<Rightarrow>
          if \<not> found then ([], [], False)
          else let field = ToLower (TrimSpace name); v = TrimSpace val
               in if field = [] then ([], [], False) else (field, v, True))"

text \<open>\<open>bufio.ScanLines\<close>: the lines without their terminators, no empty line after the last newline.\<close>

definition drop_cr :: "string \<Rightarrow> string" where
  "drop_cr l = (if l \<noteq> [] \<and> last l = CHR 0x0D then butlast l else l)"

definition scan_lines :: "string \<Rightarrow> string list" where
  "scan_lines s = (let ls = Split (CHR 0x0A) s in map drop_cr (if last ls = [] then butlast ls else ls))"

text \<open>The loop's state: the groups so far, the last of which is the current one, and whether it has
  seen a rule.\<close>

definition upd_last :: "(group \<Rightarrow> group) \<Rightarrow> Robots \<Rightarrow> Robots" where
  "upd_last f rb = rb\<lparr>groups := butlast (groups rb) @ [f (last (groups rb))]\<rparr>"

definition empty_group :: group where
  "empty_group = \<lparr>agents = [], rules = [], crawlDelay = 0, hasDelay = False\<rparr>"

definition parse_line :: "(string \<Rightarrow> int option) \<Rightarrow> string \<Rightarrow> Robots \<times> bool \<Rightarrow> Robots \<times> bool" where
  "parse_line pf text st =
     (case st of (rb, startedRules) \<Rightarrow>
      case splitField (stripComment text) of (field, val, ok) \<Rightarrow>
      if \<not> ok then (rb, startedRules)
      else if field = ''user-agent'' then
        (let (rb, startedRules) =
               (if groups rb = [] \<or> startedRules then (rb\<lparr>groups := groups rb @ [empty_group]\<rparr>, False)
                else (rb, startedRules));
             v = ToLower (TrimSpace val)
         in (if v \<noteq> [] then upd_last (\<lambda>g. g\<lparr>agents := agents g @ [v]\<rparr>) rb else rb, startedRules))
      else if field = ''allow'' \<or> field = ''disallow'' then
        (if groups rb = [] then (rb, startedRules)
         else if field = ''disallow'' \<and> TrimSpace val = [] then (rb, True)
         else (upd_last (\<lambda>g. g\<lparr>rules := rules g @ [\<lparr>r_allow = (field = ''allow''), r_pattern = val\<rparr>]\<rparr>) rb, True))
      else if field = ''crawl-delay'' then
        (if groups rb = [] then (rb, startedRules)
         else case pf (TrimSpace val) of
                Some d \<Rightarrow> (upd_last (\<lambda>g. g\<lparr>crawlDelay := d, hasDelay := True\<rparr>) rb, True)
              | None \<Rightarrow> (rb, True))
      else if field = ''sitemap'' then
        (let s = TrimSpace val in (if s \<noteq> [] then rb\<lparr>sitemaps := sitemaps rb @ [s]\<rparr> else rb, startedRules))
      else (rb, startedRules))"

definition Parse :: "(string \<Rightarrow> int option) \<Rightarrow> string \<Rightarrow> Robots" where
  "Parse pf body =
     fst (foldl (\<lambda>st l. parse_line pf l st) (\<lparr>groups = [], sitemaps = []\<rparr>, False) (scan_lines (take MaxBytes body)))"

subsection \<open>Questions\<close>

fun groupFor_agents :: "string \<Rightarrow> group \<Rightarrow> string list \<Rightarrow> group option \<times> int \<times> group option \<Rightarrow> group option \<times> int \<times> group option" where
  "groupFor_agents ua g [] st = st"
| "groupFor_agents ua g (a # as) (best, bestLen, star) =
     groupFor_agents ua g as
       (if a = ''*'' then (best, bestLen, if star = None then Some g else star)
        else if Contains ua a \<and> int (length a) > bestLen then (Some g, int (length a), star)
        else (best, bestLen, star))"

definition groupFor :: "Robots \<Rightarrow> string \<Rightarrow> group option" where
  "groupFor rb userAgent =
     (let ua = ToLower userAgent;
          (best, _, star) = foldl (\<lambda>st g. groupFor_agents ua g (agents g) st) (None, -1, None) (groups rb)
      in if best \<noteq> None then best else star)"

definition normalizePath :: "string \<Rightarrow> string" where
  "normalizePath p = (if p = [] then ''/'' else if \<not> HasPrefix p ''/'' then ''/'' @ p else p)"

text \<open>The two-pointer matcher; \<open>starP\<close> is -1 before the first star.\<close>

partial_function (option) glob_loop :: "string \<Rightarrow> string \<Rightarrow> bool \<Rightarrow> int \<Rightarrow> nat \<Rightarrow> nat \<Rightarrow> nat \<Rightarrow> bool option" where
  "glob_loop pattern s anchored starP starS p j =
     (if p = length pattern \<and> (\<not> anchored \<or> j = length s) then Some True
      else if p \<noteq> length pattern \<and> pattern ! p = CHR ''*'' then
        glob_loop pattern s anchored (int p) j (p + 1) j
      else if p \<noteq> length pattern \<and> j < length s \<and> pattern ! p = s ! j then
        glob_loop pattern s anchored starP starS (p + 1) (j + 1)
      else if starP < 0 \<or> starS \<ge> length s then Some False
      else glob_loop pattern s anchored starP (starS + 1) (nat starP + 1) (starS + 1))"

definition matchGlob :: "string \<Rightarrow> string \<Rightarrow> bool \<Rightarrow> bool option" where
  "matchGlob pattern s anchored = glob_loop pattern s anchored (-1) 0 0 0"

definition matchLen :: "string \<Rightarrow> string \<Rightarrow> (nat \<times> bool) option" where
  "matchLen pattern path =
     (let anchored = HasSuffix pattern ''$'';
          pat = (if anchored then take (length pattern - 1) pattern else pattern)
      in map_option (\<lambda>m. if m then (length pat, True) else (0, False)) (matchGlob pat path anchored))"

fun allowed_loop :: "string \<Rightarrow> rule list \<Rightarrow> int \<Rightarrow> bool \<Rightarrow> bool option" where
  "allowed_loop path [] bestLen allow = Some allow"
| "allowed_loop path (r # rs) bestLen allow =
     (case matchLen (r_pattern r) path of
        None \<Rightarrow> None
      | Some (n, ok) \<Rightarrow>
          if \<not> ok then allowed_loop path rs bestLen allow
          else if int n > bestLen \<or> int n = bestLen \<and> r_allow r then allowed_loop path rs (int n) (r_allow r)
          else allowed_loop path rs bestLen allow)"

definition Allowed :: "Robots \<Rightarrow> string \<Rightarrow> string \<Rightarrow> bool option" where
  "Allowed rb userAgent path =
     (case groupFor rb userAgent of
        None \<Rightarrow> Some True
      | Some g \<Rightarrow> allowed_loop (normalizePath path) (rules g) (-1) True)"

definition CrawlDelay :: "Robots \<Rightarrow> string \<Rightarrow> int \<times> bool" where
  "CrawlDelay rb userAgent =
     (case groupFor rb userAgent of
        None \<Rightarrow> (0, False)
      | Some g \<Rightarrow> if \<not> hasDelay g then (0, False) else (crawlDelay g, True))"

subsection \<open>The pattern language\<close>

text \<open>The reference: a star matches any run, an unanchored pattern matches a prefix.\<close>

fun glob :: "bool \<Rightarrow> string \<Rightarrow> string \<Rightarrow> bool" where
  "glob anch [] s = (\<not> anch \<or> s = [])"
| "glob anch (c # p) s =
     (if c = CHR ''*'' then \<exists>k \<in> {..length s}. glob anch p (drop k s)
      else case s of [] \<Rightarrow> False | x # t \<Rightarrow> x = c \<and> glob anch p t)"

lemma glob_star: "glob anch (CHR ''*'' # p) s \<longleftrightarrow> (\<exists>k \<le> length s. glob anch p (drop k s))"
  by auto

declare glob.simps(2) [simp del]

lemma glob_literal:
  "CHR ''*'' \<notin> set w \<Longrightarrow> glob anch (w @ p) s \<longleftrightarrow> (\<exists>t. s = w @ t \<and> glob anch p t)"
proof (induction w arbitrary: s)
  case (Cons c w)
  then show ?case by (cases s) (auto simp: glob.simps(2))
qed simp

text \<open>The alternatives the loop still has: the current position, or a longer run of the last star.\<close>

definition later :: "string \<Rightarrow> string \<Rightarrow> bool \<Rightarrow> int \<Rightarrow> nat \<Rightarrow> bool" where
  "later pat s anch starP starS \<longleftrightarrow>
     0 \<le> starP \<and> (\<exists>k. starS < k \<and> k \<le> length s \<and> glob anch (drop (nat starP + 1) pat) (drop k s))"

text \<open>Since the last star, a star-free word was matched literally.\<close>

definition word_ok :: "string \<Rightarrow> string \<Rightarrow> int \<Rightarrow> nat \<Rightarrow> nat \<Rightarrow> nat \<Rightarrow> bool" where
  "word_ok pat s starP starS p j \<longleftrightarrow> p \<le> length pat \<and> starS \<le> j \<and> j \<le> length s \<and>
     (0 \<le> starP \<longrightarrow> (\<exists>w. drop (nat starP + 1) pat = w @ drop p pat \<and> CHR ''*'' \<notin> set w \<and>
        nat starP + 1 + length w = p \<and> j = starS + length w))"

text \<open>A new star makes the older one superfluous.\<close>

lemma later_subsumed:
  assumes "word_ok pat s starP starS p j" "p < length pat" "pat ! p = CHR ''*''" "later pat s anch starP starS"
  shows "glob anch (drop p pat) (drop j s)"
proof -
  have d: "drop p pat = CHR ''*'' # drop (p + 1) pat" using assms(2,3) by (simp add: Cons_nth_drop_Suc flip: assms(3))
  obtain k where k: "starS < k" "k \<le> length s" "glob anch (drop (nat starP + 1) pat) (drop k s)" "0 \<le> starP"
    using assms(4) by (auto simp: later_def)
  obtain w where w: "drop (nat starP + 1) pat = w @ drop p pat" "CHR ''*'' \<notin> set w" "j = starS + length w"
    using assms(1) k(4) by (auto simp: word_ok_def)
  obtain t where t: "drop k s = w @ t" "glob anch (CHR ''*'' # drop (p + 1) pat) t"
    using k(3) w(1,2) d by (auto simp: glob_literal)
  then obtain m where m: "m \<le> length t" "glob anch (drop (p + 1) pat) (drop m t)" unfolding glob_star by blast
  have "t = drop (k + length w) s" by (metis t(1) append_eq_conv_conj drop_drop add.commute)
  then have "drop m t = drop (k + length w + m - j) (drop j s)" using k(1) w(3) by (simp add: ac_simps)
  moreover have "k + length w + m - j \<le> length (drop j s)"
  proof -
    have "length s - k = length w + length t" using t(1) by (metis length_append length_drop)
    then show ?thesis using m(1) k(1,2) w(3) by simp
  qed
  ultimately show ?thesis unfolding d glob_star using m(2) by metis
qed

lemma ex_next: "(\<exists>k. a < k \<and> k \<le> n \<and> Q k) \<longleftrightarrow> Suc a \<le> n \<and> Q (Suc a) \<or> (\<exists>k. Suc a < k \<and> k \<le> n \<and> Q k)"
  by (metis Suc_leI Suc_lessD le_neq_implies_less lessI order_le_less_trans)

lemma glob_loop_spec:
  assumes "word_ok pat s starP starS p j"
  shows "glob_loop pat s anch starP starS p j = Some (glob anch (drop p pat) (drop j s) \<or> later pat s anch starP starS)"
  using assms
proof (induction "(length s - starS) * (length pat + 1) + (length pat - p)" arbitrary: starP starS p j rule: less_induct)
  case less
  note w = less.prems[unfolded word_ok_def]
  have pj: "p \<le> length pat" "starS \<le> j" "j \<le> length s" using w by auto
  have step: "glob_loop pat s anch starP starS p j =
     (if p = length pat \<and> (\<not> anch \<or> j = length s) then Some True
      else if p \<noteq> length pat \<and> pat ! p = CHR ''*'' then glob_loop pat s anch (int p) j (p + 1) j
      else if p \<noteq> length pat \<and> j < length s \<and> pat ! p = s ! j then glob_loop pat s anch starP starS (p + 1) (j + 1)
      else if starP < 0 \<or> starS \<ge> length s then Some False
      else glob_loop pat s anch starP (starS + 1) (nat starP + 1) (starS + 1))"
    by (rule glob_loop.simps)
  have d: "drop p pat = pat ! p # drop (p + 1) pat" if "p \<noteq> length pat"
    using that pj(1) by (simp add: Cons_nth_drop_Suc)
  consider (fin) "p = length pat" "\<not> anch \<or> j = length s"
    | (star) "p < length pat" "pat ! p = CHR ''*''"
    | (char) "p < length pat" "pat ! p \<noteq> CHR ''*''" "j < length s" "pat ! p = s ! j"
    | (mis) "p = length pat \<longrightarrow> anch \<and> j < length s"
      "p < length pat \<longrightarrow> pat ! p \<noteq> CHR ''*'' \<and> \<not> (j < length s \<and> pat ! p = s ! j)"
    using pj by fastforce
  then show ?case
  proof cases
    case fin
    then show ?thesis by (subst step) auto
  next
    case star
    have ok: "word_ok pat s (int p) j (p + 1) j" using pj star(1) by (simp add: word_ok_def exI[of _ "[]"])
    have "(length s - j) * (length pat + 1) \<le> (length s - starS) * (length pat + 1)" using pj(2) by (intro mult_le_mono1) simp
    then have m: "(length s - j) * (length pat + 1) + (length pat - (p + 1)) < (length s - starS) * (length pat + 1) + (length pat - p)"
      using star(1) by (intro add_le_less_mono) simp_all
    have g: "glob anch (drop p pat) (drop j s) \<longleftrightarrow> glob anch (drop (p + 1) pat) (drop j s) \<or> later pat s anch (int p) j"
    proof -
      have "glob anch (drop p pat) (drop j s) \<longleftrightarrow> (\<exists>k \<le> length s - j. glob anch (drop (p + 1) pat) (drop (k + j) s))"
        using d star by (simp add: glob_star)
      also have "\<dots> \<longleftrightarrow> (\<exists>k. j \<le> k \<and> k \<le> length s \<and> glob anch (drop (p + 1) pat) (drop k s))"
        using pj(3) by (metis add.commute add_le_cancel_left le_add2 le_add_diff_inverse le_add_diff_inverse2)
      finally show ?thesis using pj(3) by (auto simp: later_def le_less)
    qed
    have "later pat s anch starP starS \<Longrightarrow> glob anch (drop p pat) (drop j s)"
      using later_subsumed[OF less.prems star] .
    then show ?thesis using less.hyps[OF m ok] star g by (subst step) auto
  next
    case char
    have ok: "word_ok pat s starP starS (p + 1) (j + 1)"
    proof -
      have "\<exists>w. drop (nat starP + 1) pat = w @ drop (p + 1) pat \<and> CHR ''*'' \<notin> set w \<and>
          nat starP + 1 + length w = p + 1 \<and> j + 1 = starS + length w" if sp: "0 \<le> starP"
      proof -
        obtain w where "drop (nat starP + 1) pat = w @ drop p pat" "CHR ''*'' \<notin> set w"
          "nat starP + 1 + length w = p" "j = starS + length w" using w sp by auto
        then show ?thesis using d char by (intro exI[of _ "w @ [pat ! p]"]) auto
      qed
      then show ?thesis using char pj by (auto simp: word_ok_def)
    qed
    have "glob anch (drop p pat) (drop j s) \<longleftrightarrow> glob anch (drop (p + 1) pat) (drop (j + 1) s)"
      using d char by (simp add: glob.simps(2) Cons_nth_drop_Suc[symmetric])
    then show ?thesis using less.hyps[OF _ ok] char by (subst step) auto
  next
    case mis
    have no: "\<not> glob anch (drop p pat) (drop j s)"
    proof (cases "p = length pat")
      case False
      then show ?thesis using mis(2) pj d
        by (cases "j < length s") (auto simp: glob.simps(2) Cons_nth_drop_Suc[symmetric])
    qed (use mis(1) in auto)
    show ?thesis
    proof (cases "starP < 0 \<or> starS \<ge> length s")
      case True
      then show ?thesis using no mis pj by (subst step) (auto simp: later_def)
    next
      case False
      obtain w' where "drop (nat starP + 1) pat = w' @ drop p pat" "nat starP + 1 + length w' = p" using w False by auto
      then have ok: "word_ok pat s starP (starS + 1) (nat starP + 1) (starS + 1)"
        using False pj by (auto simp: word_ok_def intro!: exI[of _ "[]"])
      have m: "(length s - (starS + 1)) * (length pat + 1) + (length pat - (nat starP + 1))
          < (length s - starS) * (length pat + 1) + (length pat - p)"
      proof -
        have "(length s - starS) * (length pat + 1) = (length s - (starS + 1)) * (length pat + 1) + (length pat + 1)"
          using False by (metis Suc_diff_Suc Suc_eq_plus1 add.commute mult_Suc not_le)
        then show ?thesis by simp
      qed
      have "later pat s anch starP starS \<longleftrightarrow>
          glob anch (drop (nat starP + 1) pat) (drop (starS + 1) s) \<or> later pat s anch starP (starS + 1)"
        using False ex_next[of starS "length s" "\<lambda>k. glob anch (drop (nat starP + 1) pat) (drop k s)"]
        by (auto simp: later_def)
      then show ?thesis using less.hyps[OF m ok] no mis pj False by (subst step) auto
    qed
  qed
qed

lemma matchGlob_glob: "matchGlob pat s anch = Some (glob anch pat s)"
  using glob_loop_spec[of pat s "-1" 0 0 0 anch] by (simp add: matchGlob_def word_ok_def later_def)

subsection \<open>Longest match\<close>

text \<open>What a rule matches and how specific it is.\<close>

definition pat_body :: "rule \<Rightarrow> string" where
  "pat_body r = (if HasSuffix (r_pattern r) ''$'' then take (length (r_pattern r) - 1) (r_pattern r) else r_pattern r)"

definition rule_matches :: "string \<Rightarrow> rule \<Rightarrow> bool" where
  "rule_matches path r \<longleftrightarrow> glob (HasSuffix (r_pattern r) ''$'') (pat_body r) path"

lemma matchLen_spec:
  "matchLen (r_pattern r) path = Some (if rule_matches path r then (length (pat_body r), True) else (0, False))"
  by (simp add: matchLen_def matchGlob_glob rule_matches_def pat_body_def Let_def)

text \<open>The loop keeps the maximum of the matching rules by length, then by allow.\<close>

lemma allowed_loop_max:
  "allowed_loop path rs bestLen allow =
     Some (snd (fold max (map (\<lambda>r. (int (length (pat_body r)), r_allow r)) (filter (rule_matches path) rs)) (bestLen, allow)))"
proof (induction path rs bestLen allow rule: allowed_loop.induct)
  case (2 path r rs bestLen allow)
  then show ?case by (auto simp: matchLen_spec max_def less_eq_prod_def)
qed simp

subsection \<open>Properties\<close>

text \<open>The two-pointer glob matcher with a single backtrack point terminates on every pattern and path
  and decides the pattern language: a star matches any run of characters, an unanchored pattern a
  prefix of the path, an anchored one the whole path.\<close>

theorem matchGlob_decides: "matchGlob pat s anch = Some (glob anch pat s)"
  by (rule matchGlob_glob)

text \<open>C22: The longest match wins, whatever the order of the rules, and an allow rule wins a tie: a path is
  refused exactly when the group for the user agent has a matching disallow rule that is longer than
  every matching allow rule. Without a group, access is allowed.\<close>

theorem Allowed_longest_match:
  "Allowed rb ua path = Some (case groupFor rb ua of
     None \<Rightarrow> True
   | Some g \<Rightarrow> \<not> (\<exists>d \<in> set (rules g). \<not> r_allow d \<and> rule_matches (normalizePath path) d \<and>
       (\<forall>a \<in> set (rules g). r_allow a \<and> rule_matches (normalizePath path) a \<longrightarrow> length (pat_body a) < length (pat_body d))))"
proof (cases "groupFor rb ua")
  case (Some g)
  let ?p = "normalizePath path"
  let ?f = "\<lambda>r. (int (length (pat_body r)), r_allow r)"
  let ?ms = "filter (rule_matches ?p) (rules g)"
  define S where "S = insert (-1, True) (?f ` set ?ms)"
  have "fold max (map ?f ?ms) (-1, True) = Max S" by (simp add: S_def Max.set_eq_fold[symmetric])
  then have al: "Allowed rb ua path = Some (snd (Max S))" using Some by (simp add: Allowed_def allowed_loop_max)
  have fin: "finite S" "S \<noteq> {}" by (simp_all add: S_def)
  have mem: "Max S \<in> S" and ub: "\<And>y. y \<in> S \<Longrightarrow> y \<le> Max S" using fin by simp_all
  have "\<not> snd (Max S) \<longleftrightarrow> (\<exists>d \<in> set ?ms. \<not> r_allow d \<and> (\<forall>a \<in> set ?ms. r_allow a \<longrightarrow> length (pat_body a) < length (pat_body d)))"
  proof
    assume "\<not> snd (Max S)"
    then obtain d where d: "d \<in> set ?ms" "\<not> r_allow d" "Max S = ?f d" using mem by (auto simp: S_def)
    have "length (pat_body a) < length (pat_body d)" if "a \<in> set ?ms" "r_allow a" for a
      using ub[of "?f a"] that d by (auto simp: S_def less_eq_prod_def)
    with d show "\<exists>d \<in> set ?ms. \<not> r_allow d \<and> (\<forall>a \<in> set ?ms. r_allow a \<longrightarrow> length (pat_body a) < length (pat_body d))" by blast
  next
    assume "\<exists>d \<in> set ?ms. \<not> r_allow d \<and> (\<forall>a \<in> set ?ms. r_allow a \<longrightarrow> length (pat_body a) < length (pat_body d))"
    then obtain d where d: "d \<in> set ?ms" "\<not> r_allow d"
      "\<And>a. a \<in> set ?ms \<Longrightarrow> r_allow a \<Longrightarrow> length (pat_body a) < length (pat_body d)" by blast
    have "?f d \<le> Max S" using d(1) by (intro ub) (auto simp: S_def)
    show "\<not> snd (Max S)"
    proof
      assume "snd (Max S)"
      then consider "Max S = (-1, True)" | a where "a \<in> set ?ms" "r_allow a" "Max S = ?f a" using mem by (auto simp: S_def)
      then show False
      proof cases
        case 2
        then show False using d(3)[OF 2(1,2)] d(2) \<open>?f d \<le> Max S\<close> by (simp add: less_eq_prod_def)
      qed (use \<open>?f d \<le> Max S\<close> in \<open>simp add: less_eq_prod_def\<close>)
    qed
  qed
  then show ?thesis using Some al by auto
qed (simp add: Allowed_def)

definition sample_robots :: Robots where
  "sample_robots = \<lparr>groups = [\<lparr>agents = [''*''],
      rules = [\<lparr>r_allow = False, r_pattern = ''/pri''\<rparr>, \<lparr>r_allow = True, r_pattern = ''/pri/*.txt''\<rparr>],
      crawlDelay = 0, hasDelay = False\<rparr>], sitemaps = []\<rparr>"

theorem Allowed_longest_match_witness:
  "Allowed sample_robots ''bot'' ''/pri/x'' = Some False"
  unfolding Allowed_longest_match
  by (simp add: sample_robots_def groupFor_def normalizePath_def HasPrefix_def rule_matches_def pat_body_def HasSuffix_def
      suffix_def glob.simps(2) atMost_Suc)

end
