(* ===== verification/Dedup.thy ===== *)
theory Dedup
  imports GoStrings Bitset Placement
begin

text \<open>
  \<open>crawler/dedup\<close>: SimHash fingerprints and the banded index that finds fingerprints within Hamming
  distance 3. The content hash is SHA-256 of the standard library and stays outside. A feature bag is an
  association list with distinct keys, in the iteration order of the Go map; the accumulators are 64-bit
  words, compared as signed numbers.
\<close>

definition HammingThreshold :: nat where "HammingThreshold = 3"

definition hashFeature :: "string \<Rightarrow> u64" where
  "hashFeature s = fnv1a s"

definition simhash_add :: "string \<times> u64 \<Rightarrow> u64 list \<Rightarrow> u64 list" where
  "simhash_add fw acc =
     (let h = hashFeature (fst fw)
      in map (\<lambda>i. if h AND push_bit i 1 \<noteq> 0 then acc ! i + snd fw else acc ! i - snd fw) [0..<64])"

definition SimHash :: "(string \<times> u64) list \<Rightarrow> u64" where
  "SimHash features =
     (let acc = fold simhash_add features (replicate 64 0)
      in foldl (\<lambda>fp i. if 0 < sint (acc ! i) then fp OR push_bit i 1 else fp) 0 [0..<64])"

definition count_key :: "string \<Rightarrow> (string \<times> u64) list \<Rightarrow> (string \<times> u64) list" where
  "count_key k m = AList.update k ((case map_of m k of Some n \<Rightarrow> n | None \<Rightarrow> 0) + 1) m"

definition Shingle :: "string \<Rightarrow> int \<Rightarrow> (string \<times> u64) list" where
  "Shingle text k =
     (let k = nat (if k < 1 then 1 else k);
          words = Fields (ToLower text)
      in if length words < k then (if words \<noteq> [] then count_key (Join words '' '') [] else [])
         else fold (\<lambda>i m. count_key (Join (take k (drop i words)) '' '') m) [0..<length words - k + 1] [])"

definition SimHashText :: "string \<Rightarrow> int \<Rightarrow> u64" where
  "SimHashText text k = SimHash (Shingle text k)"

definition Hamming :: "u64 \<Rightarrow> u64 \<Rightarrow> nat" where
  "Hamming a b = OnesCount64 (a XOR b)"

definition NearDup :: "u64 \<Rightarrow> u64 \<Rightarrow> bool" where
  "NearDup a b \<longleftrightarrow> Hamming a b \<le> HammingThreshold"

subsection \<open>The banded index\<close>

definition numBlocks :: nat where "numBlocks = 4"

record NearDupIndex =
  tables :: "nat \<Rightarrow> u16 \<Rightarrow> u64 list"
  fps :: "(u64 \<times> u64) list"

definition NewNearDupIndex :: NearDupIndex where
  "NewNearDupIndex = \<lparr>tables = (\<lambda>b k. []), fps = []\<rparr>"

definition band :: "u64 \<Rightarrow> nat \<Rightarrow> u16" where
  "band fp b = ucast (drop_bit (b * 16) fp)"

definition Add :: "u64 \<Rightarrow> u64 \<Rightarrow> NearDupIndex \<Rightarrow> NearDupIndex" where
  "Add cid fp x =
     fold (\<lambda>b x. x\<lparr>tables := (tables x)(b := (tables x b)(band fp b := tables x b (band fp b) @ [cid]))\<rparr>)
       [0..<numBlocks] (x\<lparr>fps := AList.update cid fp (fps x)\<rparr>)"

text \<open>The state of the query: best id, best distance, found, ids seen. A missing fingerprint reads as
  zero.\<close>

type_synonym query_state = "u64 \<times> nat \<times> bool \<times> u64 list"

definition query_one :: "NearDupIndex \<Rightarrow> u64 \<Rightarrow> u64 \<Rightarrow> query_state \<Rightarrow> query_state" where
  "query_one x fp cid st =
     (case st of (bestID, bestDist, found, seen) \<Rightarrow>
        if cid \<in> set seen then st
        else let d = Hamming fp (case map_of (fps x) cid of Some f \<Rightarrow> f | None \<Rightarrow> 0)
             in if d \<le> HammingThreshold \<and> (d < bestDist \<or> d = bestDist \<and> cid < bestID)
                then (cid, d, True, cid # seen) else (bestID, bestDist, found, cid # seen))"

definition Query :: "u64 \<Rightarrow> NearDupIndex \<Rightarrow> u64 \<times> bool" where
  "Query fp x =
     (let (bestID, _, found, _) =
            fold (\<lambda>b st. fold (query_one x fp) (tables x b (band fp b)) st) [0..<numBlocks] (0, HammingThreshold + 1, False, [])
      in (bestID, found))"

definition AddIfNew :: "u64 \<Rightarrow> u64 \<Rightarrow> NearDupIndex \<Rightarrow> (u64 \<times> bool) \<times> NearDupIndex" where
  "AddIfNew newID fp x =
     (case Query fp x of (cid, ok) \<Rightarrow> if ok then ((cid, False), x) else ((newID, True), Add newID fp x))"

definition Index_Len :: "NearDupIndex \<Rightarrow> nat" where
  "Index_Len x = length (fps x)"

subsection \<open>The pigeonhole\<close>

lemma band_bit: "i < 16 \<Longrightarrow> bit (band fp b) i = bit fp (b * 16 + i)"
  by (simp add: band_def bit_ucast_iff bit_drop_bit_eq add.commute)

lemma bands_differ:
  assumes "band f b \<noteq> band g b" "b < numBlocks"
  shows "\<exists>n. n \<in> {n. n < 64 \<and> bit (f XOR g) n} \<and> n div 16 = b"
proof -
  obtain i where i: "i < 16" "bit (band f b) i \<noteq> bit (band g b) i"
  proof -
    have "\<not> (\<forall>i < 16. bit (band f b) i = bit (band g b) i)" using bit_word_eqI[of "band f b" "band g b"] assms(1) by auto
    then show thesis using that by blast
  qed
  then have "bit (f XOR g) (b * 16 + i)" by (simp add: band_bit bit_xor_iff)
  moreover have "b * 16 + i < 64" using i(1) assms(2) by (simp add: numBlocks_def)
  moreover have "(b * 16 + i) div 16 = b" using i(1) by simp
  ultimately show ?thesis by blast
qed

lemma Hamming_card: "Hamming f g = card {n. n < 64 \<and> bit (f XOR g) n}"
proof -
  have "set (filter (bit (f XOR g)) [0..<64]) = {n. n < 64 \<and> bit (f XOR g) n}" by auto
  then show ?thesis unfolding Hamming_def OnesCount64_def by (metis distinct_card distinct_filter distinct_upt)
qed

text \<open>At most three differing bits leave one of the four bands equal.\<close>

lemma pigeonhole:
  assumes "NearDup f g"
  shows "\<exists>b < numBlocks. band f b = band g b"
proof (rule ccontr)
  assume "\<not> (\<exists>b < numBlocks. band f b = band g b)"
  then have "\<exists>n. n \<in> {n. n < 64 \<and> bit (f XOR g) n} \<and> n div 16 = b" if "b < numBlocks" for b
    using bands_differ[OF _ that] that by blast
  then have "{..<numBlocks} \<subseteq> (\<lambda>n. n div 16) ` {n. n < 64 \<and> bit (f XOR g) n}" by (metis (mono_tags, lifting) image_iff lessThan_iff subsetI)
  then have "card {..<numBlocks} \<le> card {n. n < 64 \<and> bit (f XOR g) n}" by (rule surj_card_le[rotated]) simp
  then show False using assms by (simp add: NearDup_def Hamming_card HammingThreshold_def numBlocks_def)
qed

subsection \<open>The index\<close>

lemma Add_tables:
  "tables (Add cid fp x) b k = tables x b k @ (if b < numBlocks \<and> k = band fp b then [cid] else [])"
  "fps (Add cid fp x) = AList.update cid fp (fps x)"
proof -
  let ?f = "\<lambda>b x. x\<lparr>tables := (tables x)(b := (tables x b)(band fp b := tables x b (band fp b) @ [cid]))\<rparr>"
  have *: "tables (fold ?f [0..<n] y) b k = tables y b k @ (if b < n \<and> k = band fp b then [cid] else []) \<and>
      fps (fold ?f [0..<n] y) = fps y" for n y
    by (induction n) (auto simp: less_Suc_eq)
  show "tables (Add cid fp x) b k = tables x b k @ (if b < numBlocks \<and> k = band fp b then [cid] else [])"
    "fps (Add cid fp x) = AList.update cid fp (fps x)"
    unfolding Add_def using *[of numBlocks "x\<lparr>fps := AList.update cid fp (fps x)\<rparr>"] by simp_all
qed

definition index_ok :: "NearDupIndex \<Rightarrow> bool" where
  "index_ok x \<longleftrightarrow>
     (\<forall>c f. map_of (fps x) c = Some f \<longrightarrow> (\<forall>b < numBlocks. c \<in> set (tables x b (band f b)))) \<and>
     (\<forall>b k. \<forall>c \<in> set (tables x b k). map_of (fps x) c \<noteq> None)"

lemma index_ok_Add: "index_ok x \<Longrightarrow> index_ok (Add cid fp x)"
  by (auto simp: index_ok_def Add_tables update_conv)

lemma index_ok_New: "index_ok NewNearDupIndex"
  by (simp add: index_ok_def NewNearDupIndex_def)

lemma index_ok_AddIfNew: "index_ok x \<Longrightarrow> index_ok (snd (AddIfNew cid fp x))"
  by (simp add: AddIfNew_def index_ok_Add split: prod.split)

text \<open>The distance to a stored cluster.\<close>

definition dist :: "NearDupIndex \<Rightarrow> u64 \<Rightarrow> u64 \<Rightarrow> nat" where
  "dist x fp cid = Hamming fp (case map_of (fps x) cid of Some f \<Rightarrow> f | None \<Rightarrow> 0)"

fun query_ok :: "NearDupIndex \<Rightarrow> u64 \<Rightarrow> query_state \<Rightarrow> bool" where
  "query_ok x fp (bestID, bestDist, found, seen) \<longleftrightarrow>
     (if found
      then bestID \<in> set seen \<and> bestDist = dist x fp bestID \<and> bestDist \<le> HammingThreshold \<and>
           (\<forall>c \<in> set seen. (bestDist, bestID) \<le> (dist x fp c, c))
      else bestDist = HammingThreshold + 1 \<and> (\<forall>c \<in> set seen. HammingThreshold < dist x fp c))"

lemma query_one_ok:
  assumes "query_ok x fp st"
  shows "query_ok x fp (query_one x fp cid st)" "set (snd (snd (snd (query_one x fp cid st)))) = insert cid (set (snd (snd (snd st))))"
proof -
  obtain b d f s where st: "st = (b, d, f, s)" by (cases st)
  show "query_ok x fp (query_one x fp cid st)"
    using assms by (auto simp: st query_one_def Let_def dist_def[symmetric] less_eq_prod_def split: if_splits)
  show "set (snd (snd (snd (query_one x fp cid st)))) = insert cid (set (snd (snd (snd st))))"
    by (auto simp: st query_one_def Let_def)
qed

lemma fold_query_ok:
  "query_ok x fp st \<Longrightarrow> query_ok x fp (fold (query_one x fp) cs st) \<and>
     set (snd (snd (snd (fold (query_one x fp) cs st)))) = set cs \<union> set (snd (snd (snd st)))"
proof (induction cs arbitrary: st)
  case (Cons c cs)
  then show ?case using query_one_ok[OF Cons.prems, of c] Cons.IH[of "query_one x fp c st"] by auto
qed simp

lemma fold_fold: "fold (\<lambda>b. fold f (g b)) bs st = fold f (concat (map g bs)) st"
  by (induction bs arbitrary: st) simp_all

lemma Query_spec:
  assumes "index_ok x"
  shows "case Query fp x of (cid, ok) \<Rightarrow>
     if ok then \<exists>f. map_of (fps x) cid = Some f \<and> NearDup fp f \<and>
       (\<forall>c g. map_of (fps x) c = Some g \<longrightarrow> (Hamming fp f, cid) \<le> (Hamming fp g, c))
     else \<forall>c g. map_of (fps x) c = Some g \<longrightarrow> \<not> NearDup fp g"
proof -
  let ?cs = "concat (map (\<lambda>b. tables x b (band fp b)) [0..<numBlocks])"
  let ?st = "fold (query_one x fp) ?cs (0, HammingThreshold + 1, False, [])"
  obtain b d f s where st: "?st = (b, d, f, s)" by (cases ?st)
  have "query_ok x fp (0, HammingThreshold + 1, False, [])" by simp
  from fold_query_ok[OF this, of ?cs, unfolded st] have q: "query_ok x fp (b, d, f, s)" "set s = set ?cs"
    by (blast, simp only: snd_conv list.set Un_empty_right)
  have Q: "Query fp x = (b, f)" unfolding Query_def fold_fold st by simp
  have stored: "\<exists>g. map_of (fps x) c = Some g \<and> dist x fp c = Hamming fp g" if c: "c \<in> set s" for c
  proof -
    obtain k where "c \<in> set (tables x k (band fp k))" using c unfolding q(2) by auto
    then obtain g where "map_of (fps x) c = Some g" using assms unfolding index_ok_def by blast
    then show ?thesis by (simp add: dist_def)
  qed
  have near: "c \<in> set s" if g: "map_of (fps x) c = Some g" "NearDup fp g" for c g
  proof -
    obtain k where "k < numBlocks" "band fp k = band g k" using pigeonhole[OF g(2)] by blast
    then have "k \<in> set [0..<numBlocks]" "c \<in> set (tables x k (band fp k))" using assms g(1) unfolding index_ok_def by (simp, metis)
    then show ?thesis unfolding q(2) set_concat set_map by blast
  qed
  show ?thesis
  proof (cases f)
    case True
    then have b: "b \<in> set s" "d = dist x fp b" "d \<le> HammingThreshold" "\<And>c. c \<in> set s \<Longrightarrow> (d, b) \<le> (dist x fp c, c)"
      using q(1) by auto
    obtain fb where fb: "map_of (fps x) b = Some fb" "d = Hamming fp fb" using stored[OF b(1)] b(2) by auto
    have "(Hamming fp fb, b) \<le> (Hamming fp g, c)" if g: "map_of (fps x) c = Some g" for c g
    proof (cases "NearDup fp g")
      case True
      then show ?thesis using b(4)[OF near[OF g]] fb(2) g by (simp add: dist_def)
    qed (use b(3) fb(2) in \<open>simp add: NearDup_def less_eq_prod_def\<close>)
    then show ?thesis using True fb b(3) by (simp add: Q NearDup_def)
  next
    case False
    have "\<not> NearDup fp g" if g: "map_of (fps x) c = Some g" for c g
    proof
      assume n: "NearDup fp g"
      have "HammingThreshold < dist x fp c" using q(1) near[OF g n] False by simp
      then show False using n g by (simp add: NearDup_def dist_def)
    qed
    then show ?thesis using False by (simp add: Q)
  qed
qed

subsection \<open>Properties\<close>

definition build_index :: "(u64 \<times> u64) list \<Rightarrow> NearDupIndex" where
  "build_index adds = fold (\<lambda>(c, f). Add c f) adds NewNearDupIndex"

lemma neardup_build_ok: "index_ok (build_index adds)"
proof -
  have "index_ok x \<Longrightarrow> index_ok (fold (\<lambda>(c, f). Add c f) adds x)" for x
    by (induction adds arbitrary: x) (auto simp: index_ok_Add)
  then show ?thesis by (simp add: build_index_def index_ok_New)
qed

text \<open>C23: The banded index has no false positives and no false negatives. After any additions, a query finds
  a cluster exactly when some stored fingerprint is within Hamming distance 3, and then returns the
  closest one, the smallest id among equals, although it only looks at four hash buckets.\<close>

theorem NearDup_Query_exact:
  "case Query fp (build_index adds) of (cid, ok) \<Rightarrow>
     if ok then \<exists>f. map_of (fps (build_index adds)) cid = Some f \<and> NearDup fp f \<and>
       (\<forall>c g. map_of (fps (build_index adds)) c = Some g \<longrightarrow> (Hamming fp f, cid) \<le> (Hamming fp g, c))
     else \<forall>c g. map_of (fps (build_index adds)) c = Some g \<longrightarrow> \<not> NearDup fp g"
  by (rule Query_spec[OF neardup_build_ok])

theorem NearDup_Query_exact_witness: "Query 0x1113 (build_index [(7, 0x1111)]) = (7, True)"
proof -
  let ?x = "build_index [(7, 0x1111)]"
  have fps: "map_of (fps ?x) c = (if c = 7 then Some 0x1111 else None)" for c
    by (simp add: build_index_def Add_tables NewNearDupIndex_def)
  have "NearDup 0x1113 0x1111" by code_simp
  then show ?thesis
    using NearDup_Query_exact[of "[(7, 0x1111)]" "0x1113"] by (auto simp: fps split: if_splits prod.splits)
qed

end
