(* ===== verification/Frontier.thy ===== *)
theory Frontier
  imports GoHeap "HOL-Library.AList"
begin

text \<open>
  \<open>crawler/frontier\<close>: the crawl scheduler. Times and durations are integers in nanoseconds; the one product
  of durations wraps at 64 bits. A host state is reached through its name, so the ready heap holds names and
  its comparison reads the table. The name and the heap index recorded in a host state are never read
  and are left out. The clock is an argument: every operation reads it at most once. \<open>Next\<close> panics on an empty
  back queue, which is the value \<open>None\<close>.
\<close>

subsection \<open>The seen set\<close>

type_synonym MemSeenSet = "u64 list"

definition NewMemSeenSet :: MemSeenSet where "NewMemSeenSet = []"

definition Seen :: "MemSeenSet \<Rightarrow> u64 \<Rightarrow> bool \<times> MemSeenSet" where
  "Seen s fp = (if fp \<in> set s then (True, s) else (False, fp # s))"

definition SeenSet_Len :: "MemSeenSet \<Rightarrow> nat" where
  "SeenSet_Len s = length s"

subsection \<open>Hosts\<close>

record URL =
  Raw :: string
  Host :: string
  Priority :: int
  Fingerprint :: u64

definition Priorities :: nat where "Priorities = 8"

record politeness =
  factor :: int
  min_gap :: int
  max_gap :: int

definition defaultPoliteness :: politeness where
  "defaultPoliteness = \<lparr>factor = 10, min_gap = 500 * 1000000, max_gap = 30 * 1000000000\<rparr>"

definition gap :: "politeness \<Rightarrow> int \<Rightarrow> int \<Rightarrow> int" where
  "gap p lastFetch crawlDelay =
     (let g = sint (of_int (factor p * lastFetch) :: 64 word);
          g = max g (min_gap p);
          g = min g (max_gap p)
      in max g crawlDelay)"

record hostState =
  readyAt :: int
  crawlDelay :: int
  priority :: int
  busy :: bool
  queue :: "URL list"

record 's Frontier =
  seen :: 's
  polite :: politeness
  front :: "URL list list"
  hosts :: "string \<rightharpoonup> hostState"
  ready :: "string list"
  pending :: int

definition host_at :: "(string \<rightharpoonup> hostState) \<Rightarrow> string \<Rightarrow> hostState" where
  "host_at hs h = the (hs h)"

definition hostHeap_Less :: "(string \<rightharpoonup> hostState) \<Rightarrow> string \<Rightarrow> string \<Rightarrow> bool" where
  "hostHeap_Less hs i j =
     (if readyAt (host_at hs i) \<noteq> readyAt (host_at hs j) then readyAt (host_at hs i) < readyAt (host_at hs j)
      else priority (host_at hs i) > priority (host_at hs j))"

subsection \<open>The operations\<close>

definition New :: "'s \<Rightarrow> 's Frontier" where
  "New s = \<lparr>seen = s, polite = defaultPoliteness, front = replicate Priorities [], hosts = Map.empty,
            ready = [], pending = 0\<rparr>"

definition WithPolitenessFactor :: "int \<Rightarrow> 's Frontier \<Rightarrow> 's Frontier" where
  "WithPolitenessFactor k f = f\<lparr>polite := (polite f)\<lparr>factor := k\<rparr>\<rparr>"

definition hostLocked :: "int \<Rightarrow> string \<Rightarrow> 's Frontier \<Rightarrow> hostState \<times> 's Frontier" where
  "hostLocked now host f =
     (case hosts f host of
        Some hs \<Rightarrow> (hs, f)
      | None \<Rightarrow>
          let hs = \<lparr>readyAt = now, crawlDelay = 0, priority = 0, busy = False, queue = []\<rparr>
          in (hs, f\<lparr>hosts := (hosts f)(host \<mapsto> hs)\<rparr>))"

definition assign_one :: "int \<Rightarrow> URL \<Rightarrow> 's Frontier \<Rightarrow> 's Frontier" where
  "assign_one now u f =
     (let (hs, f) = hostLocked now (Host u) f;
          wasEmpty = (queue hs = []);
          f = f\<lparr>hosts := (hosts f)(Host u \<mapsto> hs\<lparr>queue := queue hs @ [u], priority := max (priority hs) (Priority u)\<rparr>)\<rparr>
      in if wasEmpty \<and> \<not> busy hs then f\<lparr>ready := heap_Push (hostHeap_Less (hosts f)) (Host u) (ready f)\<rparr> else f)"

definition assign_queue :: "int \<Rightarrow> nat \<Rightarrow> 's Frontier \<Rightarrow> 's Frontier" where
  "assign_queue now p f =
     (let f = fold (assign_one now) (front f ! p) f in f\<lparr>front := (front f)[p := []]\<rparr>)"

definition assignLocked :: "int \<Rightarrow> 's Frontier \<Rightarrow> 's Frontier" where
  "assignLocked now f = fold (assign_queue now) (rev [0..<Priorities]) f"

definition Add :: "('s \<Rightarrow> u64 \<Rightarrow> bool \<times> 's) \<Rightarrow> int \<Rightarrow> URL \<Rightarrow> 's Frontier \<Rightarrow> bool \<times> 's Frontier" where
  "Add seen_op now u f =
     (if Host u = [] then (False, f)
      else case seen_op (seen f) (Fingerprint u) of
             (True, s) \<Rightarrow> (False, f\<lparr>seen := s\<rparr>)
           | (False, s) \<Rightarrow>
               let p = nat (min (max (Priority u) 0) (int Priorities - 1));
                   f = f\<lparr>seen := s, front := (front f)[p := front f ! p @ [u]], pending := pending f + 1\<rparr>
               in (True, assignLocked now f))"

definition SetCrawlDelay :: "int \<Rightarrow> string \<Rightarrow> int \<Rightarrow> 's Frontier \<Rightarrow> 's Frontier" where
  "SetCrawlDelay now host d f =
     (let (hs, f) = hostLocked now host f in f\<lparr>hosts := (hosts f)(host \<mapsto> hs\<lparr>crawlDelay := d\<rparr>)\<rparr>)"

definition Next :: "int \<Rightarrow> 's Frontier \<Rightarrow> (URL option \<times> 's Frontier) option" where
  "Next now f =
     (let f = assignLocked now f
      in if ready f = [] then Some (None, f)
         else let host = ready f ! 0; hs = host_at (hosts f) host
              in if busy hs \<or> readyAt hs > now then Some (None, f)
                 else case queue hs of
                        [] \<Rightarrow> None
                      | u # us \<Rightarrow>
                          let f = f\<lparr>hosts := (hosts f)(host \<mapsto> hs\<lparr>queue := us, busy := True\<rparr>), pending := pending f - 1\<rparr>
                          in Some (Some u, f\<lparr>ready := snd (heap_Pop (hostHeap_Less (hosts f)) (ready f))\<rparr>))"

definition Done :: "int \<Rightarrow> URL \<Rightarrow> int \<Rightarrow> 's Frontier \<Rightarrow> 's Frontier" where
  "Done now u fetchDuration f =
     (case hosts f (Host u) of
        None \<Rightarrow> f
      | Some hs \<Rightarrow>
          let hs = hs\<lparr>busy := False, readyAt := now + gap (polite f) fetchDuration (crawlDelay hs)\<rparr>;
              f = f\<lparr>hosts := (hosts f)(Host u \<mapsto> hs)\<rparr>
          in if length (queue hs) > 0
             then f\<lparr>ready := heap_Push (hostHeap_Less (hosts f)) (Host u) (ready f)\<rparr> else f)"

definition Frontier_Len :: "'s Frontier \<Rightarrow> int" where
  "Frontier_Len f = pending f"

subsection \<open>The invariant\<close>

text \<open>The heap is kept in the order of \<open>readyAt\<close> only: raising the priority of a host in the heap can break
  the order of the tie-break.\<close>

definition ready_before :: "(string \<rightharpoonup> hostState) \<Rightarrow> string \<Rightarrow> string \<Rightarrow> bool" where
  "ready_before hs i j \<longleftrightarrow> readyAt (host_at hs i) < readyAt (host_at hs j)"

interpretation host_heap: heap_order "hostHeap_Less hs" "ready_before hs" for hs
  by unfold_locales (auto simp: hostHeap_Less_def ready_before_def split: if_splits)

definition queue_of :: "'s Frontier \<Rightarrow> string \<Rightarrow> URL list" where
  "queue_of f h = (case hosts f h of Some hs \<Rightarrow> queue hs | None \<Rightarrow> [])"

definition waiting :: "'s Frontier \<Rightarrow> string \<Rightarrow> bool" where
  "waiting f h \<longleftrightarrow> (\<exists>hs. hosts f h = Some hs \<and> queue hs \<noteq> [] \<and> \<not> busy hs)"

definition queued :: "'s Frontier \<Rightarrow> URL multiset" where
  "queued f = (\<Sum>h \<in> dom (hosts f). mset (queue_of f h))"

definition core_ok :: "'s Frontier \<Rightarrow> bool" where
  "core_ok f \<longleftrightarrow> finite (dom (hosts f)) \<and> distinct (ready f) \<and> (\<forall>h. h \<in> set (ready f) \<longleftrightarrow> waiting f h) \<and>
     heap_ok (ready_before (hosts f)) (length (ready f)) (ready f) \<and> (\<forall>h. \<forall>u \<in> set (queue_of f h). Host u = h)"

definition frontier_ok :: "'s Frontier \<Rightarrow> bool" where
  "frontier_ok f \<longleftrightarrow> core_ok f \<and> front f = replicate Priorities [] \<and> pending f = int (size (queued f))"

lemma core_okD:
  assumes "core_ok f"
  shows "finite (dom (hosts f))" "distinct (ready f)" "h \<in> set (ready f) \<longleftrightarrow> waiting f h"
    "heap_ok (ready_before (hosts f)) (length (ready f)) (ready f)" "u \<in> set (queue_of f h) \<Longrightarrow> Host u = h"
  using assms by (auto simp: core_ok_def)

lemma host_at_simps [simp]: "host_at (m(h \<mapsto> hs)) k = (if k = h then hs else host_at m k)"
  by (simp add: host_at_def)

lemma heap_ok_cong:
  assumes "\<And>h. h \<in> set l \<Longrightarrow> readyAt (host_at m h) = readyAt (host_at m' h)"
  shows "heap_ok (ready_before m) (length l) l = heap_ok (ready_before m') (length l) l"
proof -
  have "ready_before m (l ! j) (l ! parent j) = ready_before m' (l ! j) (l ! parent j)" if "j < length l" for j
    using that assms[of "l ! j"] assms[of "l ! parent j"] by (simp add: ready_before_def less_imp_diff_less)
  then show ?thesis by (auto simp: heap_ok_def)
qed

lemma queued_upd:
  assumes "finite (dom (hosts f))" "hosts f' = (hosts f)(h \<mapsto> hs)"
  shows "queued f' + mset (queue_of f h) = queued f + mset (queue hs)"
proof -
  have q: "queue_of f' k = (if k = h then queue hs else queue_of f k)" for k using assms(2) by (simp add: queue_of_def)
  have "queued f' = mset (queue hs) + (\<Sum>k \<in> dom (hosts f) - {h}. mset (queue_of f k))"
    using assms by (auto simp: queued_def sum.insert_remove q intro!: sum.cong)
  moreover have "queued f = mset (queue_of f h) + (\<Sum>k \<in> dom (hosts f) - {h}. mset (queue_of f k))"
  proof (cases "h \<in> dom (hosts f)")
    case False
    then show ?thesis by (simp add: queued_def queue_of_def domIff)
  qed (simp add: queued_def sum.remove[OF assms(1)])
  ultimately show ?thesis by (simp add: ac_simps)
qed

text \<open>Replacing the state of one host, with the heap unchanged or with the host pushed onto it.\<close>

lemma core_ok_upd:
  assumes "core_ok f" "\<forall>u \<in> set (queue hs). Host u = h"
    and "hosts f' = (hosts f)(h \<mapsto> hs)" "ready f' = ready f"
    and "waiting f h \<longleftrightarrow> queue hs \<noteq> [] \<and> \<not> busy hs" "waiting f h \<Longrightarrow> readyAt hs = readyAt (host_at (hosts f) h)"
  shows "core_ok f'"
  unfolding core_ok_def
proof (intro conjI allI ballI)
  note ok = core_okD[OF assms(1)]
  show "finite (dom (hosts f'))" "distinct (ready f')" using ok(1,2) assms(3,4) by simp_all
  show "k \<in> set (ready f') \<longleftrightarrow> waiting f' k" for k
    using ok(3)[of k] assms(3,4,5) by (auto simp: waiting_def)
  have "heap_ok (ready_before (hosts f')) (length (ready f)) (ready f) = heap_ok (ready_before (hosts f)) (length (ready f)) (ready f)"
    by (rule heap_ok_cong) (use ok(3) assms(3,6) in auto)
  then show "heap_ok (ready_before (hosts f')) (length (ready f')) (ready f')" using ok(4) assms(4) by simp
  show "Host u = k" if "u \<in> set (queue_of f' k)" for k u
    using that ok(5)[of u k] assms(2,3) by (auto simp: queue_of_def split: if_splits)
qed

lemma core_ok_push:
  assumes "core_ok f" "\<forall>u \<in> set (queue hs). Host u = h"
    and "hosts f' = (hosts f)(h \<mapsto> hs)" "ready f' = heap_Push (hostHeap_Less (hosts f')) h (ready f)"
    and "\<not> waiting f h" "queue hs \<noteq> []" "\<not> busy hs"
  shows "core_ok f'"
  unfolding core_ok_def
proof (intro conjI allI ballI)
  note ok = core_okD[OF assms(1)]
  have new: "h \<notin> set (ready f)" using ok(3) assms(5) by simp
  have "heap_ok (ready_before (hosts f')) (length (ready f)) (ready f) = heap_ok (ready_before (hosts f)) (length (ready f)) (ready f)"
    by (rule heap_ok_cong) (use new assms(3) in auto)
  then have "heap_ok (ready_before (hosts f')) (length (ready f)) (ready f)" using ok(4) by simp
  note push = host_heap.heap_Push[OF this, of h]
  have s: "mset (ready f') = add_mset h (mset (ready f))" using push(2) assms(4) by simp
  then have "set (ready f') = insert h (set (ready f))" by (metis set_mset_add_mset_insert set_mset_mset)
  then show "k \<in> set (ready f') \<longleftrightarrow> waiting f' k" for k
    using ok(3)[of k] assms(3,6,7) by (auto simp: waiting_def)
  show "distinct (ready f')" using s new ok(2) by (metis distinct.simps(2) mset.simps(2) mset_eq_imp_distinct_iff)
  show "heap_ok (ready_before (hosts f')) (length (ready f')) (ready f')" using push(1) assms(4) by simp
  show "finite (dom (hosts f'))" using ok(1) assms(3) by simp
  show "Host u = k" if "u \<in> set (queue_of f' k)" for k u
    using that ok(5)[of u k] assms(2,3) by (auto simp: queue_of_def split: if_splits)
qed

lemma core_ok_pop:
  assumes "core_ok f" "\<forall>u \<in> set (queue hs). Host u = h"
    and "hosts f' = (hosts f)(h \<mapsto> hs)" "ready f' = snd (heap_Pop (hostHeap_Less (hosts f')) (ready f))"
    and "ready f \<noteq> []" "h = hd (ready f)" "readyAt hs = readyAt (host_at (hosts f) h)" "busy hs"
  shows "core_ok f'"
  unfolding core_ok_def
proof (intro conjI allI ballI)
  note ok = core_okD[OF assms(1)]
  have "heap_ok (ready_before (hosts f')) (length (ready f)) (ready f) = heap_ok (ready_before (hosts f)) (length (ready f)) (ready f)"
    by (rule heap_ok_cong) (use assms(3,7) in auto)
  then have "heap_ok (ready_before (hosts f')) (length (ready f)) (ready f)" using ok(4) by simp
  note pop = host_heap.heap_Pop[OF this assms(5)]
  have s: "mset (ready f) = add_mset h (mset (ready f'))" using pop(2) assms(4,6) by simp
  have d: "distinct (h # ready f')" using s ok(2) by (metis mset.simps(2) mset_eq_imp_distinct_iff)
  have "set (ready f) = insert h (set (ready f'))" using s by (metis set_mset_add_mset_insert set_mset_mset)
  then have "k \<in> set (ready f') \<longleftrightarrow> k \<noteq> h \<and> k \<in> set (ready f)" for k using d by auto
  then show "k \<in> set (ready f') \<longleftrightarrow> waiting f' k" for k
    using ok(3)[of k] assms(3,8) by (auto simp: waiting_def)
  show "distinct (ready f')" using d by simp
  show "heap_ok (ready_before (hosts f')) (length (ready f')) (ready f')" using pop(3) assms(4) by simp
  show "finite (dom (hosts f'))" using ok(1) assms(3) by simp
  show "Host u = k" if "u \<in> set (queue_of f' k)" for k u
    using that ok(5)[of u k] assms(2,3) by (auto simp: queue_of_def split: if_splits)
qed

subsection \<open>Each operation keeps it\<close>

definition host_or_new :: "int \<Rightarrow> 's Frontier \<Rightarrow> string \<Rightarrow> hostState" where
  "host_or_new now f h =
     (case hosts f h of
        Some hs \<Rightarrow> hs | None \<Rightarrow> \<lparr>readyAt = now, crawlDelay = 0, priority = 0, busy = False, queue = []\<rparr>)"

lemma hostLocked_eq:
  "hostLocked now h f = (host_or_new now f h, f\<lparr>hosts := (hosts f)(h \<mapsto> host_or_new now f h)\<rparr>)"
  by (cases "hosts f h") (simp_all add: hostLocked_def host_or_new_def Let_def fun_upd_idem)

lemma waiting_host: "waiting f h \<longleftrightarrow> queue (host_or_new now f h) \<noteq> [] \<and> \<not> busy (host_or_new now f h)"
  by (auto simp: waiting_def host_or_new_def split: option.split)

lemma queue_of_host: "queue_of f h = queue (host_or_new now f h)"
  by (simp add: queue_of_def host_or_new_def split: option.split)

lemma host_at_or_new: "waiting f h \<Longrightarrow> host_at (hosts f) h = host_or_new now f h"
  by (auto simp: waiting_def host_at_def host_or_new_def)

definition enqueue :: "URL \<Rightarrow> hostState \<Rightarrow> hostState" where
  "enqueue u hs = hs\<lparr>queue := queue hs @ [u], priority := max (priority hs) (Priority u)\<rparr>"

lemma enqueue_sel [simp]:
  "queue (enqueue u hs) = queue hs @ [u]" "busy (enqueue u hs) = busy hs" "readyAt (enqueue u hs) = readyAt hs"
  "crawlDelay (enqueue u hs) = crawlDelay hs"
  by (simp_all add: enqueue_def)

lemma assign_one_sel:
  fixes f now u
  defines "hs \<equiv> host_or_new now f (Host u)"
  shows "hosts (assign_one now u f) = (hosts f)(Host u \<mapsto> enqueue u hs)"
    "ready (assign_one now u f) =
       (if queue hs = [] \<and> \<not> busy hs then heap_Push (hostHeap_Less (hosts (assign_one now u f))) (Host u) (ready f) else ready f)"
    "front (assign_one now u f) = front f" "pending (assign_one now u f) = pending f"
    "seen (assign_one now u f) = seen f" "polite (assign_one now u f) = polite f"
  by (simp_all add: assign_one_def hostLocked_eq hs_def enqueue_def Let_def)

lemma assign_one_ok:
  assumes "core_ok f"
  shows "core_ok (assign_one now u f)" "queued (assign_one now u f) = add_mset u (queued f)"
proof -
  let ?hs = "host_or_new now f (Host u)"
  note sel = assign_one_sel[of now u f]
  have own: "\<forall>v \<in> set (queue (enqueue u ?hs)). Host v = Host u"
    using core_okD(5)[OF assms, of _ "Host u"] by (auto simp: queue_of_host[of f _ now])
  show "core_ok (assign_one now u f)"
  proof (cases "queue ?hs = [] \<and> \<not> busy ?hs")
    case True
    with sel(2) show ?thesis by (intro core_ok_push[OF assms own sel(1)]) (simp_all add: waiting_host[of f _ now])
  next
    case False
    with sel(2) show ?thesis
      by (intro core_ok_upd[OF assms own sel(1)]) (auto simp: waiting_host[of f _ now] host_at_or_new[of f _ now])
  qed
  show "queued (assign_one now u f) = add_mset u (queued f)"
    using queued_upd[OF core_okD(1)[OF assms] sel(1)] by (simp add: queue_of_host[of f _ now])
qed

lemma assign_queue_Nil:
  assumes "front f ! p = []"
  shows "assign_queue now p f = f"
proof -
  have "(front f)[p := []] = front f" using assms by (metis list_update_id)
  then show ?thesis using assms by (simp add: assign_queue_def)
qed

lemma fold_assign_Nil: "\<forall>p \<in> set ps. front f ! p = [] \<Longrightarrow> fold (assign_queue now) ps f = f"
  by (induction ps) (simp_all add: assign_queue_Nil)

lemma assignLocked_Nil: "front f = replicate Priorities [] \<Longrightarrow> assignLocked now f = f"
  by (simp add: assignLocked_def fold_assign_Nil)

text \<open>A single waiting address goes straight to its host, so the front queues are empty between calls.\<close>

lemma assignLocked_one:
  assumes "front f = (replicate Priorities [])[p := [u]]" "p < Priorities"
  shows "assignLocked now f = (assign_one now u f)\<lparr>front := replicate Priorities []\<rparr>"
proof -
  obtain as bs where ps: "rev [0..<Priorities] = as @ p # bs" "p \<notin> set as" "p \<notin> set bs"
    using assms(2) split_list[of p "rev [0..<Priorities]"] by (metis distinct_append distinct_rev distinct_upt distinct.simps(2)
        atLeastLessThan_iff disjoint_iff list.set_intros(1) set_rev set_upt zero_le)
  have "set as \<subseteq> {..<Priorities}" "set bs \<subseteq> {..<Priorities}" using arg_cong[OF ps(1), of set] by auto
  then have Nil: "front f ! q = []" if "q \<in> set as \<union> set bs" for q
    using that ps(2,3) assms(1) by (cases "q = p") (auto simp: subset_iff)
  have one: "assign_queue now p f = (assign_one now u f)\<lparr>front := replicate Priorities []\<rparr>"
    using assms by (simp add: assign_queue_def Let_def assign_one_sel list_update_same_conv)
  have "fold (assign_queue now) as f = f" using Nil by (simp add: fold_assign_Nil)
  moreover have "fold (assign_queue now) bs (assign_queue now p f) = assign_queue now p f"
    using \<open>set bs \<subseteq> {..<Priorities}\<close> by (intro fold_assign_Nil) (auto simp: one subset_iff)
  ultimately show ?thesis by (simp add: assignLocked_def ps(1) one)
qed

lemma core_ok_front [simp]:
  "core_ok (f\<lparr>front := fr\<rparr>) = core_ok f" "core_ok (f\<lparr>pending := n\<rparr>) = core_ok f" "core_ok (f\<lparr>seen := s\<rparr>) = core_ok f"
  "queued (f\<lparr>front := fr\<rparr>) = queued f" "queued (f\<lparr>pending := n\<rparr>) = queued f" "queued (f\<lparr>seen := s\<rparr>) = queued f"
  by (simp_all add: core_ok_def queued_def waiting_def queue_of_def[abs_def])

lemma Add_admitted:
  assumes "frontier_ok f" "Host u \<noteq> []" "seen_op (seen f) (Fingerprint u) = (False, s)"
  shows "\<exists>f'. Add seen_op now u f = (True, f') \<and> frontier_ok f' \<and> queued f' = add_mset u (queued f) \<and> seen f' = s \<and>
     polite f' = polite f \<and> hosts f' = (hosts f)(Host u \<mapsto> enqueue u (host_or_new now f (Host u)))"
proof -
  let ?p = "nat (min (max (Priority u) 0) (int Priorities - 1))"
  have p: "?p < Priorities" by (auto simp: Priorities_def)
  have ok: "core_ok f" "front f = replicate Priorities []" "pending f = int (size (queued f))"
    using assms(1) by (simp_all add: frontier_ok_def)
  define g where "g = f\<lparr>seen := s, front := (front f)[?p := front f ! ?p @ [u]], pending := pending f + 1\<rparr>"
  have "core_ok g" "queued g = queued f"
    using ok(1) by (simp_all add: g_def core_ok_def queued_def waiting_def queue_of_def[abs_def])
  note one = assign_one_ok[OF this(1), of now u, unfolded this(2)]
  have "host_or_new now g h = host_or_new now f h" for h by (simp add: g_def host_or_new_def)
  moreover have "assignLocked now g = (assign_one now u g)\<lparr>front := replicate Priorities []\<rparr>"
    by (rule assignLocked_one[OF _ p]) (use ok(2) p in \<open>simp add: g_def\<close>)
  moreover have "Add seen_op now u f = (True, assignLocked now g)"
    using assms(2,3) by (simp add: Add_def g_def Let_def)
  moreover have "pending g = pending f + 1" "seen g = s" "polite g = polite f" "hosts g = hosts f" by (simp_all add: g_def)
  ultimately show ?thesis using one ok(3) assign_one_sel[of now u g]
    by (intro exI[of _ "assignLocked now g"]) (simp add: frontier_ok_def)
qed

lemma frontier_okD:
  assumes "frontier_ok f"
  shows "core_ok f" "front f = replicate Priorities []" "pending f = int (size (queued f))"
  using assms by (simp_all add: frontier_ok_def)

text \<open>Two updates that keep the queues: \<open>SetCrawlDelay\<close> on any host and \<open>Done\<close> on a busy one.\<close>

lemma SetCrawlDelay_ok:
  assumes "frontier_ok f"
  shows "frontier_ok (SetCrawlDelay now h d f) \<and> queued (SetCrawlDelay now h d f) = queued f"
    "hosts (SetCrawlDelay now h d f) = (hosts f)(h \<mapsto> (host_or_new now f h)\<lparr>crawlDelay := d\<rparr>)"
    "seen (SetCrawlDelay now h d f) = seen f" "polite (SetCrawlDelay now h d f) = polite f"
proof -
  let ?f = "SetCrawlDelay now h d f" and ?hs = "(host_or_new now f h)\<lparr>crawlDelay := d\<rparr>"
  show h: "hosts ?f = (hosts f)(h \<mapsto> ?hs)" and "seen ?f = seen f" and "polite ?f = polite f"
    by (simp_all add: SetCrawlDelay_def hostLocked_eq)
  have rest: "ready ?f = ready f" "front ?f = front f" "pending ?f = pending f"
    by (simp_all add: SetCrawlDelay_def hostLocked_eq)
  note ok = frontier_okD[OF assms]
  have own: "\<forall>u \<in> set (queue ?hs). Host u = h" using core_okD(5)[OF ok(1), of _ h] by (simp add: queue_of_host[of f _ now])
  have "core_ok ?f"
    by (rule core_ok_upd[OF ok(1) own h rest(1)]) (simp_all add: waiting_host[of f _ now] host_at_or_new[of f _ now])
  moreover have "queued ?f = queued f"
    using queued_upd[OF core_okD(1)[OF ok(1)] h] by (simp add: queue_of_host[of f _ now])
  ultimately show "frontier_ok ?f \<and> queued ?f = queued f" using ok rest by (simp add: frontier_ok_def)
qed

lemma Done_ok:
  fixes now d
  assumes "frontier_ok f" "hosts f (Host u) = Some hs" "busy hs"
  defines "hs' \<equiv> hs\<lparr>busy := False, readyAt := now + gap (polite f) d (crawlDelay hs)\<rparr>"
  shows "frontier_ok (Done now u d f) \<and> queued (Done now u d f) = queued f"
    "hosts (Done now u d f) = (hosts f)(Host u \<mapsto> hs')"
    "seen (Done now u d f) = seen f" "polite (Done now u d f) = polite f"
proof -
  let ?f = "Done now u d f"
  show h: "hosts ?f = (hosts f)(Host u \<mapsto> hs')" and "seen ?f = seen f" and "polite ?f = polite f"
    using assms(2) by (simp_all add: Done_def Let_def hs'_def)
  have rest: "front ?f = front f" "pending ?f = pending f"
    and r: "ready ?f = (if queue hs \<noteq> [] then heap_Push (hostHeap_Less (hosts ?f)) (Host u) (ready f) else ready f)"
    using assms(2) by (simp_all add: Done_def Let_def hs'_def)
  note ok = frontier_okD[OF assms(1)]
  have own: "\<forall>v \<in> set (queue hs'). Host v = Host u"
    using core_okD(5)[OF ok(1), of _ "Host u"] assms(2) by (simp add: queue_of_def hs'_def)
  have nw: "\<not> waiting f (Host u)" using assms(2,3) by (simp add: waiting_def)
  have "core_ok ?f"
  proof (cases "queue hs = []")
    case True
    then show ?thesis using r nw by (intro core_ok_upd[OF ok(1) own h]) (simp_all add: hs'_def)
  next
    case False
    then show ?thesis using r nw by (intro core_ok_push[OF ok(1) own h]) (simp_all add: hs'_def)
  qed
  moreover have "queued ?f = queued f"
    using queued_upd[OF core_okD(1)[OF ok(1)] h] assms(2) by (simp add: queue_of_def hs'_def)
  ultimately show "frontier_ok ?f \<and> queued ?f = queued f" using ok rest by (simp add: frontier_ok_def)
qed

definition serves :: "int \<Rightarrow> 's Frontier \<Rightarrow> URL \<Rightarrow> 's Frontier \<Rightarrow> bool" where
  "serves now f u f' \<longleftrightarrow>
     (\<exists>us. queue_of f (Host u) = u # us \<and> waiting f (Host u) \<and> readyAt (host_at (hosts f) (Host u)) \<le> now \<and>
        (\<forall>k. waiting f k \<longrightarrow> readyAt (host_at (hosts f) (Host u)) \<le> readyAt (host_at (hosts f) k)) \<and>
        hosts f' = (hosts f)(Host u \<mapsto> (host_at (hosts f) (Host u))\<lparr>queue := us, busy := True\<rparr>)) \<and>
     queued f = add_mset u (queued f') \<and> seen f' = seen f \<and> polite f' = polite f"

lemma Next_cases:
  assumes "frontier_ok f"
  shows "Next now f = Some (None, f) \<and> (\<forall>h. waiting f h \<longrightarrow> now < readyAt (host_at (hosts f) h)) \<or>
    (\<exists>u f'. Next now f = Some (Some u, f') \<and> frontier_ok f' \<and> serves now f u f')"
proof -
  note ok = frontier_okD[OF assms] and core = core_okD[OF frontier_okD(1)[OF assms]]
  have a: "assignLocked now f = f" by (rule assignLocked_Nil[OF ok(2)])
  show ?thesis
  proof (cases "ready f = []")
    case True
    then show ?thesis using core(3) by (simp add: Next_def a)
  next
    case False
    define h where "h = hd (ready f)"
    define hs where "hs = host_at (hosts f) h"
    have h0: "ready f ! 0 = h" using False by (simp add: h_def hd_conv_nth)
    have w: "waiting f h" using core(3)[of h] hd_in_set[OF False] by (simp add: h_def)
    then obtain u us where hs: "hosts f h = Some hs" "\<not> busy hs" "queue hs = u # us"
      by (auto simp: waiting_def hs_def host_at_def neq_Nil_conv)
    have first: "readyAt hs \<le> readyAt (host_at (hosts f) k)" if "waiting f k" for k
      using host_heap.heap_Pop(4)[OF core(4) False, of k] core(3)[of k] that by (simp add: ready_before_def hs_def h_def)
    show ?thesis
    proof (cases "readyAt hs > now")
      case True
      then have "Next now f = Some (None, f)" using False h0 by (simp add: Next_def a hs_def)
      moreover have "now < readyAt (host_at (hosts f) k)" if "waiting f k" for k using first[OF that] True by simp
      ultimately show ?thesis by blast
    next
      case ready: False
      let ?hs = "hs\<lparr>queue := us, busy := True\<rparr>"
      let ?g = "f\<lparr>hosts := (hosts f)(h \<mapsto> ?hs), pending := pending f - 1\<rparr>"
      define f' where "f' = ?g\<lparr>ready := snd (heap_Pop (hostHeap_Less (hosts ?g)) (ready f))\<rparr>"
      have nx: "Next now f = Some (Some u, f')" using False h0 hs ready by (simp add: Next_def a hs_def Let_def f'_def)
      have sel: "hosts f' = (hosts f)(h \<mapsto> ?hs)" "ready f' = snd (heap_Pop (hostHeap_Less (hosts f')) (ready f))"
        "front f' = front f" "pending f' = pending f - 1" "seen f' = seen f" "polite f' = polite f"
        by (simp_all add: f'_def)
      have q: "queue_of f h = u # us" using hs by (simp add: queue_of_def)
      have hu: "Host u = h" using core(5)[of u h] q by simp
      have own: "\<forall>v \<in> set (queue ?hs). Host v = h" using core(5)[of _ h] q by simp
      have c: "core_ok f'" by (rule core_ok_pop[OF ok(1) own sel(1,2) False]) (simp_all add: h_def hs_def)
      have "queued f = add_mset u (queued f')" using queued_upd[OF core(1) sel(1)] q by simp
      moreover from this have "frontier_ok f'"
        using c ok(2) sel(3,4) unfolding frontier_ok_def ok(3) by simp
      moreover have "readyAt (host_at (hosts f) h) \<le> now" using ready by (simp add: hs_def)
      ultimately have "serves now f u f'"
        unfolding serves_def hu using w q first sel(1,5,6) by (intro conjI exI[of _ us]) (simp_all add: hs_def)
      with nx \<open>frontier_ok f'\<close> show ?thesis by blast
    qed
  qed
qed

subsection \<open>Crawls\<close>

text \<open>A crawl is a sequence of calls at a clock that does not run backwards; \<open>out\<close> are the addresses handed
  out and not yet done. \<open>Done\<close> is called for such an address, as its documentation asks.\<close>

datatype event = Admit URL | Refuse URL | Delay string int | Fetch URL | Idle | Finish URL int

inductive crawl_run ::
  "('s \<Rightarrow> u64 \<Rightarrow> bool \<times> 's) \<Rightarrow> 's Frontier \<Rightarrow> (int \<times> event) list \<Rightarrow> 's Frontier \<Rightarrow> int \<Rightarrow> URL list \<Rightarrow> bool"
  for seen_op f0 where
  start: "crawl_run seen_op f0 [] f0 t []"
| admit: "crawl_run seen_op f0 tr f t out \<Longrightarrow> t \<le> t' \<Longrightarrow> Add seen_op t' u f = (True, f') \<Longrightarrow>
    crawl_run seen_op f0 (tr @ [(t', Admit u)]) f' t' out"
| refuse: "crawl_run seen_op f0 tr f t out \<Longrightarrow> t \<le> t' \<Longrightarrow> Add seen_op t' u f = (False, f') \<Longrightarrow>
    crawl_run seen_op f0 (tr @ [(t', Refuse u)]) f' t' out"
| delay: "crawl_run seen_op f0 tr f t out \<Longrightarrow> t \<le> t' \<Longrightarrow>
    crawl_run seen_op f0 (tr @ [(t', Delay h d)]) (SetCrawlDelay t' h d f) t' out"
| fetch: "crawl_run seen_op f0 tr f t out \<Longrightarrow> t \<le> t' \<Longrightarrow> Next t' f = Some (Some u, f') \<Longrightarrow>
    crawl_run seen_op f0 (tr @ [(t', Fetch u)]) f' t' (u # out)"
| idle: "crawl_run seen_op f0 tr f t out \<Longrightarrow> t \<le> t' \<Longrightarrow> Next t' f = Some (None, f') \<Longrightarrow>
    crawl_run seen_op f0 (tr @ [(t', Idle)]) f' t' out"
| finish: "crawl_run seen_op f0 tr f t out \<Longrightarrow> t \<le> t' \<Longrightarrow> u \<in> set out \<Longrightarrow>
    crawl_run seen_op f0 (tr @ [(t', Finish u d)]) (Done t' u d f) t' (remove1 u out)"

definition delay_of :: "(int \<times> event) list \<Rightarrow> string \<Rightarrow> int" where
  "delay_of tr h = foldl (\<lambda>c (t, e). case e of Delay k d \<Rightarrow> if k = h then d else c | _ \<Rightarrow> c) 0 tr"

definition in_flight :: "(int \<times> event) list \<Rightarrow> string \<Rightarrow> bool" where
  "in_flight tr h =
     foldl (\<lambda>b (t, e). case e of Fetch u \<Rightarrow> b \<or> Host u = h | Finish u d \<Rightarrow> b \<and> Host u \<noteq> h | _ \<Rightarrow> b) False tr"

definition due_ok :: "politeness \<Rightarrow> (int \<times> event) list \<Rightarrow> string \<Rightarrow> int \<Rightarrow> bool" where
  "due_ok pol tr h m \<longleftrightarrow>
     (\<forall>j < length tr. \<forall>t u d. tr ! j = (t, Finish u d) \<and> Host u = h \<longrightarrow> t + gap pol d (delay_of (take j tr) h) \<le> m)"

definition trace_ok :: "politeness \<Rightarrow> (int \<times> event) list \<Rightarrow> bool" where
  "trace_ok pol tr \<longleftrightarrow>
     (\<forall>i < length tr. \<forall>t v. tr ! i = (t, Fetch v) \<longrightarrow>
        \<not> in_flight (take i tr) (Host v) \<and> due_ok pol (take i tr) (Host v) t)"

lemma trace_Nil [simp]: "delay_of [] h = 0" "\<not> in_flight [] h" "due_ok pol [] h m" "trace_ok pol []"
  by (simp_all add: delay_of_def in_flight_def due_ok_def trace_ok_def)

lemma delay_of_snoc [simp]:
  "delay_of (tr @ [(t, e)]) h = (case e of Delay k d \<Rightarrow> if k = h then d else delay_of tr h | _ \<Rightarrow> delay_of tr h)"
  by (cases e) (simp_all add: delay_of_def)

lemma in_flight_snoc [simp]:
  "in_flight (tr @ [(t, e)]) h =
     (case e of Fetch u \<Rightarrow> in_flight tr h \<or> Host u = h | Finish u d \<Rightarrow> in_flight tr h \<and> Host u \<noteq> h | _ \<Rightarrow> in_flight tr h)"
  by (cases e) (simp_all add: in_flight_def)

lemma due_ok_snoc [simp]:
  "due_ok pol (tr @ [(t, e)]) h m \<longleftrightarrow>
     due_ok pol tr h m \<and> (\<forall>u d. e = Finish u d \<and> Host u = h \<longrightarrow> t + gap pol d (delay_of tr h) \<le> m)"
  by (auto simp: due_ok_def nth_append less_Suc_eq)

lemma trace_ok_snoc [simp]:
  "trace_ok pol (tr @ [(t, e)]) \<longleftrightarrow>
     trace_ok pol tr \<and> (\<forall>v. e = Fetch v \<longrightarrow> \<not> in_flight tr (Host v) \<and> due_ok pol tr (Host v) t)"
  by (auto simp: trace_ok_def nth_append less_Suc_eq)

lemma due_ok_mono:
  assumes "due_ok pol tr h m" "m \<le> m'"
  shows "due_ok pol tr h m'"
  unfolding due_ok_def
proof (intro allI impI)
  fix j t u d assume "j < length tr" "tr ! j = (t, Finish u d) \<and> Host u = h"
  then have "t + gap pol d (delay_of (take j tr) h) \<le> m" using assms(1) unfolding due_ok_def by blast
  then show "t + gap pol d (delay_of (take j tr) h) \<le> m'" using assms(2) by linarith
qed

subsection \<open>The schedule along a crawl\<close>

definition busy_host :: "'s Frontier \<Rightarrow> string \<Rightarrow> bool" where
  "busy_host f h \<longleftrightarrow> (\<exists>hs. hosts f h = Some hs \<and> busy hs)"

definition delay_at :: "'s Frontier \<Rightarrow> string \<Rightarrow> int" where
  "delay_at f h = (case hosts f h of Some hs \<Rightarrow> crawlDelay hs | None \<Rightarrow> 0)"

definition due_host :: "politeness \<Rightarrow> (int \<times> event) list \<Rightarrow> 's Frontier \<Rightarrow> int \<Rightarrow> string \<Rightarrow> bool" where
  "due_host pol tr f t h \<longleftrightarrow>
     (case hosts f h of
        Some hs \<Rightarrow> due_ok pol tr h (if busy hs then t else readyAt hs)
      | None \<Rightarrow> \<forall>m. due_ok pol tr h m)"

definition run_inv :: "politeness \<Rightarrow> (int \<times> event) list \<Rightarrow> 's Frontier \<Rightarrow> int \<Rightarrow> URL list \<Rightarrow> bool" where
  "run_inv pol tr f t out \<longleftrightarrow> frontier_ok f \<and> polite f = pol \<and> distinct (map Host out) \<and>
     (\<forall>h. busy_host f h \<longleftrightarrow> h \<in> Host ` set out) \<and> (\<forall>h. in_flight tr h \<longleftrightarrow> busy_host f h) \<and>
     (\<forall>h. delay_at f h = delay_of tr h) \<and> (\<forall>h. due_host pol tr f t h) \<and> trace_ok pol tr"

lemma run_invD:
  assumes "run_inv pol tr f t out"
  shows "frontier_ok f" "polite f = pol" "distinct (map Host out)" "busy_host f h \<longleftrightarrow> h \<in> Host ` set out"
    "in_flight tr h \<longleftrightarrow> busy_host f h" "delay_at f h = delay_of tr h" "due_host pol tr f t h" "trace_ok pol tr"
  using assms by (auto simp: run_inv_def)

text \<open>A step that neither starts nor ends a fetch keeps the schedule of every host.\<close>

lemma run_inv_quiet:
  assumes "run_inv pol tr f t out" "t \<le> t'" "frontier_ok f'" "polite f' = polite f"
    and "\<And>v. e \<noteq> Fetch v" "\<And>u d. e \<noteq> Finish u d"
    and "\<And>h hs. hosts f h = Some hs \<Longrightarrow> \<exists>hs'. hosts f' h = Some hs' \<and> readyAt hs' = readyAt hs \<and> busy hs' = busy hs"
    and "\<And>h. hosts f h = None \<Longrightarrow> \<not> busy_host f' h"
    and "\<And>h. delay_at f' h = delay_of (tr @ [(t', e)]) h"
  shows "run_inv pol (tr @ [(t', e)]) f' t' out"
proof -
  note inv = run_invD[OF assms(1)]
  have b: "busy_host f' h = busy_host f h" for h
    using assms(7)[of h] assms(8)[of h] by (cases "hosts f h") (auto simp: busy_host_def)
  have "due_host pol (tr @ [(t', e)]) f' t' h" for h
  proof (cases "hosts f h")
    case None
    then show ?thesis using inv(7)[of h] assms(6) by (simp add: due_host_def split: option.split)
  next
    case (Some hs)
    then obtain hs' where hs': "hosts f' h = Some hs'" "readyAt hs' = readyAt hs" "busy hs' = busy hs" using assms(7) by blast
    then show ?thesis using inv(7)[of h] Some assms(2,6) by (auto simp: due_host_def elim: due_ok_mono)
  qed
  moreover have "in_flight (tr @ [(t', e)]) h = in_flight tr h" for h by (simp add: assms(5,6) split: event.split)
  moreover have "trace_ok pol (tr @ [(t', e)])" using inv(8) assms(5) by simp
  ultimately show ?thesis unfolding run_inv_def using assms(3,4,9) inv b by (intro conjI allI) simp_all
qed

lemma run_inv_fetch:
  assumes "run_inv pol tr f t out" "t \<le> t'" "frontier_ok f'" "serves t' f u f'"
  shows "run_inv pol (tr @ [(t', Fetch u)]) f' t' (u # out)"
proof -
  note inv = run_invD[OF assms(1)]
  let ?h = "Host u"
  obtain us where us: "waiting f ?h" "readyAt (host_at (hosts f) ?h) \<le> t'" "polite f' = polite f"
    "hosts f' = (hosts f)(?h \<mapsto> (host_at (hosts f) ?h)\<lparr>queue := us, busy := True\<rparr>)"
    using assms(4) by (auto simp: serves_def)
  obtain hs where hs: "hosts f ?h = Some hs" "\<not> busy hs" "host_at (hosts f) ?h = hs"
    using us(1) by (auto simp: waiting_def host_at_def)
  have nb: "\<not> busy_host f ?h" using hs by (simp add: busy_host_def)
  have due: "due_ok pol tr ?h t'" using inv(7)[of ?h] hs us(2) by (auto simp: due_host_def elim: due_ok_mono)
  have b: "busy_host f' h \<longleftrightarrow> busy_host f h \<or> h = ?h" for h using us(4) hs by (auto simp: busy_host_def)
  have "delay_at f' h = delay_at f h" for h using us(4) hs by (simp add: delay_at_def)
  moreover have "due_host pol (tr @ [(t', Fetch u)]) f' t' h" for h
    using inv(7)[of h] us(4) due assms(2) by (auto simp: due_host_def split: option.splits elim: due_ok_mono)
  moreover have "?h \<notin> Host ` set out" using nb inv(4) by blast
  ultimately show ?thesis unfolding run_inv_def using assms(3) us(3) inv nb due b by auto
qed

definition pol_ok :: "politeness \<Rightarrow> bool" where
  "pol_ok p \<longleftrightarrow> 0 \<le> min_gap p \<and> 0 \<le> max_gap p"

lemma gap_nonneg: "pol_ok p \<Longrightarrow> 0 \<le> gap p d c"
  by (auto simp: pol_ok_def gap_def Let_def)

lemma run_inv_finish:
  assumes "run_inv pol tr f t out" "t \<le> t'" "u \<in> set out" "pol_ok pol"
  shows "run_inv pol (tr @ [(t', Finish u d)]) (Done t' u d f) t' (remove1 u out)"
proof -
  note inv = run_invD[OF assms(1)]
  let ?h = "Host u" and ?f = "Done t' u d f"
  obtain hs where hs: "hosts f ?h = Some hs" "busy hs" using inv(4)[of ?h] assms(3) by (auto simp: busy_host_def)
  note dn = Done_ok[OF inv(1) hs, of t' d]
  have "due_ok pol tr ?h t" using inv(7)[of ?h] hs by (simp add: due_host_def)
  then have due: "due_ok pol tr ?h (t' + gap pol d (crawlDelay hs))"
    using gap_nonneg[OF assms(4), of d "crawlDelay hs"] assms(2) by (elim due_ok_mono) linarith
  have c: "crawlDelay hs = delay_of tr ?h" using inv(6)[of ?h] hs by (simp add: delay_at_def)
  have b: "busy_host ?f h \<longleftrightarrow> busy_host f h \<and> h \<noteq> ?h" for h using dn(2) by (auto simp: busy_host_def)
  have "delay_at ?f h = delay_at f h" for h using dn(2) hs by (simp add: delay_at_def)
  moreover have "due_host pol (tr @ [(t', Finish u d)]) ?f t' h" for h
  proof (cases "h = ?h")
    case True
    obtain hs' where hs': "hosts ?f ?h = Some hs'" "\<not> busy hs'" "readyAt hs' = t' + gap pol d (delay_of tr ?h)"
      unfolding dn(2) inv(2) c by simp
    have "due_ok pol (tr @ [(t', Finish u d)]) ?h (readyAt hs')"
      unfolding due_ok_snoc hs'(3) using due[unfolded c] by blast
    then show ?thesis unfolding True due_host_def hs'(1) by (simp only: option.case hs'(2) if_False)
  next
    case False
    then have "hosts ?f h = hosts f h" using dn(2) by simp
    then show ?thesis using inv(7)[of h] False assms(2) by (auto simp: due_host_def split: option.splits elim: due_ok_mono)
  qed
  moreover have "Host ` set (remove1 u out) = Host ` set out - {?h}"
    using inv(3) assms(3) by (auto simp: distinct_map set_remove1_eq inj_on_def)
  moreover have "distinct (map Host (remove1 u out))"
    using inv(3) by (auto simp: distinct_map set_remove1_eq inj_on_diff)
  ultimately show ?thesis unfolding run_inv_def using dn(1,4) inv b by auto
qed

definition admitted :: "(int \<times> event) list \<Rightarrow> URL list" where
  "admitted tr = concat (map (\<lambda>(t, e). case e of Admit u \<Rightarrow> [u] | _ \<Rightarrow> []) tr)"

definition fetched :: "(int \<times> event) list \<Rightarrow> URL list" where
  "fetched tr = concat (map (\<lambda>(t, e). case e of Fetch u \<Rightarrow> [u] | _ \<Rightarrow> []) tr)"

lemma admitted_simps [simp]:
  "admitted [] = []" "admitted (tr @ [(t, e)]) = admitted tr @ (case e of Admit u \<Rightarrow> [u] | _ \<Rightarrow> [])"
  "fetched [] = []" "fetched (tr @ [(t, e)]) = fetched tr @ (case e of Fetch u \<Rightarrow> [u] | _ \<Rightarrow> [])"
  by (simp_all add: admitted_def fetched_def split: event.split)

text \<open>The interface \<open>SeenSet\<close>: a set that answers whether a fingerprint was in it and records it.\<close>

locale seen_set =
  fixes seen_op :: "'s \<Rightarrow> u64 \<Rightarrow> bool \<times> 's" and contents :: "'s \<Rightarrow> u64 set" and seen_len :: "'s \<Rightarrow> nat"
    and invar :: "'s \<Rightarrow> bool"
  assumes seen_op: "invar s \<Longrightarrow> seen_op s fp = (b, s') \<Longrightarrow>
      (b \<longleftrightarrow> fp \<in> contents s) \<and> contents s' = insert fp (contents s) \<and> invar s'"
    and seen_len: "invar s \<Longrightarrow> seen_len s = card (contents s)"
begin

lemma Add_cases:
  assumes "frontier_ok f" "invar (seen f)" "Add seen_op now u f = (b, f')"
  shows "frontier_ok f' \<and> polite f' = polite f \<and> invar (seen f') \<and>
     (if b then Fingerprint u \<notin> contents (seen f) \<and> contents (seen f') = insert (Fingerprint u) (contents (seen f)) \<and>
        queued f' = add_mset u (queued f) \<and> hosts f' = (hosts f)(Host u \<mapsto> enqueue u (host_or_new now f (Host u)))
      else contents (seen f') = contents (seen f) \<and> queued f' = queued f \<and> hosts f' = hosts f \<and>
        (Host u = [] \<or> Fingerprint u \<in> contents (seen f)))"
proof (cases "Host u = []")
  case True
  then show ?thesis using assms by (simp add: Add_def)
next
  case False
  obtain b' s where s: "seen_op (seen f) (Fingerprint u) = (b', s)" by fastforce
  note op = seen_op[OF assms(2) s]
  show ?thesis
  proof (cases b')
    case True
    then have "b = False" "f' = f\<lparr>seen := s\<rparr>" using assms(3) False s by (simp_all add: Add_def)
    then show ?thesis using assms(1) op True by (auto simp: frontier_ok_def)
  next
    case f: False
    then show ?thesis
      using Add_admitted[OF assms(1) False, of seen_op s now] assms(3) s op by auto
  qed
qed

text \<open>Admitted addresses are queued or were handed out, and no fingerprint is admitted twice.\<close>

definition account :: "(int \<times> event) list \<Rightarrow> 's Frontier \<Rightarrow> bool" where
  "account tr f \<longleftrightarrow> invar (seen f) \<and> contents (seen f) = Fingerprint ` set (admitted tr) \<and>
     distinct (map Fingerprint (admitted tr)) \<and> mset (admitted tr) = queued f + mset (fetched tr)"

lemma crawl_inv:
  assumes "crawl_run seen_op f0 tr f t out" "frontier_ok f0" "hosts f0 = Map.empty" "invar (seen f0)" "contents (seen f0) = {}"
    and "pol_ok (polite f0)"
  shows "run_inv (polite f0) tr f t out \<and> account tr f"
  using assms(1)
proof (induction rule: crawl_run.induct)
  case (start t)
  show ?case using assms(2-5)
    by (auto simp: run_inv_def account_def busy_host_def delay_at_def due_host_def queued_def)
next
  case (admit tr f t out t' u f')
  then have inv: "run_inv (polite f0) tr f t out" "account tr f" by simp_all
  note add = Add_cases[OF run_invD(1)[OF inv(1)] _ admit.hyps(3)]
  have "run_inv (polite f0) (tr @ [(t', Admit u)]) f' t' out"
    using add inv(2)
    by (intro run_inv_quiet[OF inv(1) admit.hyps(2)])
      (auto simp: account_def busy_host_def delay_at_def host_or_new_def run_invD(6)[OF inv(1), symmetric] split: option.split if_splits)
  moreover have "account (tr @ [(t', Admit u)]) f'" using add inv(2) by (auto simp: account_def)
  ultimately show ?case ..
next
  case (refuse tr f t out t' u f')
  then have inv: "run_inv (polite f0) tr f t out" "account tr f" by simp_all
  note add = Add_cases[OF run_invD(1)[OF inv(1)] _ refuse.hyps(3)]
  have "run_inv (polite f0) (tr @ [(t', Refuse u)]) f' t' out"
    using add inv(2) run_invD(6)[OF inv(1)]
    by (intro run_inv_quiet[OF inv(1) refuse.hyps(2)]) (auto simp: account_def busy_host_def delay_at_def)
  moreover have "account (tr @ [(t', Refuse u)]) f'" using add inv(2) by (auto simp: account_def)
  ultimately show ?case ..
next
  case (delay tr f t out t' h d)
  then have inv: "run_inv (polite f0) tr f t out" "account tr f" by simp_all
  note sd = SetCrawlDelay_ok[OF run_invD(1)[OF inv(1)], of t' h d]
  have "run_inv (polite f0) (tr @ [(t', Delay h d)]) (SetCrawlDelay t' h d f) t' out"
    using sd
    by (intro run_inv_quiet[OF inv(1) delay.hyps(2)])
      (auto simp: busy_host_def delay_at_def host_or_new_def run_invD(6)[OF inv(1), symmetric] split: option.split if_splits)
  moreover have "account (tr @ [(t', Delay h d)]) (SetCrawlDelay t' h d f)" using sd inv(2) by (simp add: account_def)
  ultimately show ?case ..
next
  case (fetch tr f t out t' u f')
  then have inv: "run_inv (polite f0) tr f t out" "account tr f" by simp_all
  have "frontier_ok f'" "serves t' f u f'" using Next_cases[OF run_invD(1)[OF inv(1)], of t'] fetch.hyps(3) by auto
  then have "run_inv (polite f0) (tr @ [(t', Fetch u)]) f' t' (u # out)" "account (tr @ [(t', Fetch u)]) f'"
    using run_inv_fetch[OF inv(1) fetch.hyps(2)] inv(2) by (simp_all add: account_def serves_def)
  then show ?case ..
next
  case (idle tr f t out t' f')
  then have inv: "run_inv (polite f0) tr f t out" "account tr f" by simp_all
  have f': "f' = f" using Next_cases[OF run_invD(1)[OF inv(1)], of t'] idle.hyps(3) by auto
  have "run_inv (polite f0) (tr @ [(t', Idle)]) f t' out"
    using run_invD(1,6)[OF inv(1)] by (intro run_inv_quiet[OF inv(1) idle.hyps(2)]) (auto simp: busy_host_def)
  then show ?case using inv(2) by (simp add: f' account_def)
next
  case (finish tr f t out t' u d)
  then have inv: "run_inv (polite f0) tr f t out" "account tr f" by simp_all
  obtain hs where hs: "hosts f (Host u) = Some hs" "busy hs"
    using run_invD(4)[OF inv(1), of "Host u"] finish.hyps(3) by (auto simp: busy_host_def)
  note dn = Done_ok[OF run_invD(1)[OF inv(1)] hs, of t' d]
  have "account (tr @ [(t', Finish u d)]) (Done t' u d f)" using dn inv(2) by (simp add: account_def)
  then show ?case using run_inv_finish[OF inv(1) finish.hyps(2,3) assms(6)] by blast
qed

end

interpretation mem_seen: seen_set Seen set SeenSet_Len distinct
  by unfold_locales (auto simp: Seen_def SeenSet_Len_def distinct_card split: if_splits)

abbreviation new_frontier :: "int \<Rightarrow> MemSeenSet Frontier" where
  "new_frontier k \<equiv> WithPolitenessFactor k (New NewMemSeenSet)"

lemma new_frontier_ok:
  "frontier_ok (new_frontier k)" "hosts (new_frontier k) = Map.empty" "seen (new_frontier k) = []"
  "polite (new_frontier k) = defaultPoliteness\<lparr>factor := k\<rparr>"
  by (simp_all add: WithPolitenessFactor_def New_def NewMemSeenSet_def frontier_ok_def core_ok_def queued_def queue_of_def
      waiting_def heap_ok_def)

lemma new_frontier_inv:
  assumes "crawl_run Seen (new_frontier k) tr f t out"
  shows "run_inv (defaultPoliteness\<lparr>factor := k\<rparr>) tr f t out" "mem_seen.account tr f"
proof -
  have "pol_ok (polite (new_frontier k))" by (simp add: WithPolitenessFactor_def New_def pol_ok_def defaultPoliteness_def)
  then show "run_inv (defaultPoliteness\<lparr>factor := k\<rparr>) tr f t out" "mem_seen.account tr f"
    using mem_seen.crawl_inv[OF assms] by (simp_all add: new_frontier_ok)
qed

text \<open>C25: The frontier is polite. In every crawl, when an address is handed out, no other address of its host is
  in flight, and every earlier fetch of the host ended at least its gap before: the fetch duration times the
  factor, at least half a second and at most thirty, raised to the crawl delay set for the host by then.\<close>

theorem Frontier_polite:
  assumes "crawl_run Seen (new_frontier k) tr f t out" "i < length tr" "tr ! i = (t2, Fetch v)"
  shows "\<not> in_flight (take i tr) (Host v) \<and>
    (\<forall>j < i. \<forall>t1 u d. tr ! j = (t1, Finish u d) \<and> Host u = Host v \<longrightarrow>
       t1 + gap (defaultPoliteness\<lparr>factor := k\<rparr>) d (delay_of (take j tr) (Host v)) \<le> t2)"
proof -
  have *: "\<not> in_flight (take i tr) (Host v)" "due_ok (defaultPoliteness\<lparr>factor := k\<rparr>) (take i tr) (Host v) t2"
    using run_invD(8)[OF new_frontier_inv(1)[OF assms(1)]] assms(2,3) unfolding trace_ok_def by blast+
  have "t1 + gap (defaultPoliteness\<lparr>factor := k\<rparr>) d (delay_of (take j tr) (Host v)) \<le> t2"
    if "j < i" "tr ! j = (t1, Finish u d)" "Host u = Host v" for j t1 u d
    using *(2) that assms(2) unfolding due_ok_def by (auto simp: min_def)
  with *(1) show ?thesis by blast
qed

definition sample_url :: "u64 \<Rightarrow> URL" where
  "sample_url fp = \<lparr>Raw = ''x'', Host = ''h'', Priority = 3, Fingerprint = fp\<rparr>"

definition sample_trace :: "(int \<times> event) list" where
  "sample_trace = [(0, Admit (sample_url 1)), (0, Admit (sample_url 2)), (0, Fetch (sample_url 1)),
     (5, Finish (sample_url 1) 7), (500000005, Fetch (sample_url 2))]"

text \<open>The only host that waits is served once its time has come.\<close>

lemma Next_single:
  assumes "frontier_ok f" "hosts f = [h \<mapsto> hs]" "queue hs = u # us" "\<not> busy hs" "readyAt hs \<le> now"
  shows "\<exists>f'. Next now f = Some (Some u, f') \<and> frontier_ok f' \<and> hosts f' = [h \<mapsto> hs\<lparr>queue := us, busy := True\<rparr>] \<and> polite f' = polite f"
proof -
  have w: "waiting f k \<longleftrightarrow> k = h" for k using assms(2-4) by (simp add: waiting_def)
  have r: "host_at (hosts f) h = hs" "queue_of f h = u # us" using assms(2,3) by (simp_all add: host_at_def queue_of_def)
  obtain v f' where v: "Next now f = Some (Some v, f')" "frontier_ok f'" "serves now f v f'"
    using Next_cases[OF assms(1), of now] w r assms(5) by auto
  have "Host v = h" using v(3) w by (auto simp: serves_def)
  then have "v = u" "hosts f' = [h \<mapsto> hs\<lparr>queue := us, busy := True\<rparr>]" "polite f' = polite f"
    using v(3) r assms(2) by (auto simp: serves_def)
  then show ?thesis using v by blast
qed

lemma sample_crawl: "\<exists>f t out. crawl_run Seen (new_frontier 10) sample_trace f t out"
proof -
  let ?a = "sample_url 1" and ?b = "sample_url 2"
  have h [simp]: "Host (sample_url n) = ''h''" "Fingerprint (sample_url n) = n" for n by (simp_all add: sample_url_def)
  obtain f1 where f1: "Add Seen 0 ?a (new_frontier 10) = (True, f1)" "frontier_ok f1" "seen f1 = [1]"
    "polite f1 = polite (new_frontier 10)" "hosts f1 = [''h'' \<mapsto> enqueue ?a (host_or_new 0 (new_frontier 10) ''h'')]"
    using Add_admitted[OF new_frontier_ok(1)[of 10], where u = ?a and seen_op = Seen and s = "[1]" and now = 0] by (auto simp: new_frontier_ok Seen_def)
  obtain f2 where f2: "Add Seen 0 ?b f1 = (True, f2)" "frontier_ok f2" "polite f2 = polite (new_frontier 10)"
    "hosts f2 = [''h'' \<mapsto> enqueue ?b (enqueue ?a (host_or_new 0 (new_frontier 10) ''h''))]"
    using Add_admitted[OF f1(2), where u = ?b and seen_op = Seen and s = "[2, 1]" and now = 0] f1 by (auto simp: Seen_def host_or_new_def)
  obtain f3 hs where f3: "Next 0 f2 = Some (Some ?a, f3)" "frontier_ok f3" "polite f3 = polite (new_frontier 10)"
    "hosts f3 = [''h'' \<mapsto> hs]" "busy hs" "queue hs = [?b]" "crawlDelay hs = 0"
    using Next_single[OF f2(2) f2(4), of ?a "[?b]" 0] f2(3) by (fastforce simp: host_or_new_def new_frontier_ok)
  note dn = Done_ok[OF f3(2), of ?a hs 5 7]
  define f4 where "f4 = Done 5 ?a 7 f3"
  obtain hs4 where f4: "frontier_ok f4" "hosts f4 = [''h'' \<mapsto> hs4]" "\<not> busy hs4" "queue hs4 = ?b # []" "readyAt hs4 = 500000005"
    using dn f3(3-7) by (simp add: f4_def new_frontier_ok gap_def defaultPoliteness_def)
  obtain f5 where f5: "Next 500000005 f4 = Some (Some ?b, f5)" using Next_single[OF f4(1,2,4,3)] f4(5) by auto
  have "crawl_run Seen (new_frontier 10) ([] @ [(0, Admit ?a)]) f1 0 []"
    by (rule crawl_run.admit[OF crawl_run.start order_refl f1(1)])
  then have "crawl_run Seen (new_frontier 10) (([] @ [(0, Admit ?a)]) @ [(0, Admit ?b)]) f2 0 []"
    by (rule crawl_run.admit[OF _ _ f2(1)]) simp
  then have "crawl_run Seen (new_frontier 10) ((([] @ [(0, Admit ?a)]) @ [(0, Admit ?b)]) @ [(0, Fetch ?a)]) f3 0 [?a]"
    by (rule crawl_run.fetch[OF _ _ f3(1)]) simp
  then have "crawl_run Seen (new_frontier 10)
      (((([] @ [(0, Admit ?a)]) @ [(0, Admit ?b)]) @ [(0, Fetch ?a)]) @ [(5, Finish ?a 7)]) f4 5 (remove1 ?a [?a])"
    unfolding f4_def by (rule crawl_run.finish) simp_all
  from crawl_run.fetch[OF this _ f5] show ?thesis unfolding sample_trace_def by auto
qed

theorem Frontier_polite_witness: "\<not> in_flight (take 4 sample_trace) ''h'' \<and> 5 + gap defaultPoliteness 7 0 \<le> 500000005"
proof -
  obtain f t out where run: "crawl_run Seen (new_frontier 10) sample_trace f t out" using sample_crawl by blast
  have s: "sample_trace ! 4 = (500000005, Fetch (sample_url 2))" "sample_trace ! 3 = (5, Finish (sample_url 1) 7)"
    "4 < length sample_trace" "delay_of (take 3 sample_trace) ''h'' = 0" "Host (sample_url n) = ''h''" for n
    by (simp_all add: sample_trace_def sample_url_def delay_of_def eval_nat_numeral)
  have p: "defaultPoliteness\<lparr>factor := 10\<rparr> = defaultPoliteness" by (simp add: defaultPoliteness_def)
  show ?thesis using Frontier_polite[OF run s(3,1)] s(2,4,5) unfolding p by (metis lessI numeral_3_eq_3 numeral_eq_Suc pred_numeral_simps(2) BitM.simps)
qed

text \<open>C26: \<open>Next\<close> is exact. At any point of a crawl it does not panic; it returns nothing only when every host
  with queued addresses is busy or still in its gap, and otherwise the oldest address of a host that became
  eligible first.\<close>

theorem Frontier_Next_exact:
  assumes "crawl_run Seen (new_frontier k) tr f t out"
  shows "case Next now f of
      None \<Rightarrow> False
    | Some (None, f') \<Rightarrow> f' = f \<and> (\<forall>h hs. hosts f h = Some hs \<and> queue hs \<noteq> [] \<and> \<not> busy hs \<longrightarrow> now < readyAt hs)
    | Some (Some u, f') \<Rightarrow> \<exists>hs. hosts f (Host u) = Some hs \<and> queue hs = u # tl (queue hs) \<and> \<not> busy hs \<and> readyAt hs \<le> now \<and>
        (\<forall>h' hs'. hosts f h' = Some hs' \<and> queue hs' \<noteq> [] \<and> \<not> busy hs' \<longrightarrow> readyAt hs \<le> readyAt hs')"
proof -
  have w: "waiting f h \<and> host_at (hosts f) h = hs" if "hosts f h = Some hs" "queue hs \<noteq> []" "\<not> busy hs" for h hs
    using that by (simp add: waiting_def host_at_def)
  from Next_cases[OF run_invD(1)[OF new_frontier_inv(1)[OF assms]], of now] show ?thesis
  proof (elim disjE conjE exE)
    fix u f' assume nx: "Next now f = Some (Some u, f')" and s: "serves now f u f'"
    obtain hs where hs: "hosts f (Host u) = Some hs" "\<not> busy hs" "host_at (hosts f) (Host u) = hs"
      using s by (auto simp: serves_def waiting_def host_at_def)
    have "queue hs = u # tl (queue hs)" using s hs(1) by (auto simp: serves_def queue_of_def)
    moreover have "readyAt hs \<le> now" "\<And>k. waiting f k \<Longrightarrow> readyAt hs \<le> readyAt (host_at (hosts f) k)"
      using s hs(3) by (auto simp: serves_def)
    ultimately show ?thesis using nx hs(1,2) w by fastforce
  qed (use w in fastforce)
qed

theorem Frontier_Next_exact_witness: "Next 0 (new_frontier 10) \<noteq> None"
  using Frontier_Next_exact[OF crawl_run.start, where k = 10 and now = 0]
  by (cases "Next 0 (new_frontier 10)") auto

text \<open>Nothing is lost and nothing is crawled twice. Along a crawl the admitted addresses are those queued and
  those handed out, \<open>Len\<close> is their difference, no fingerprint is admitted or handed out twice, and \<open>Add\<close> refuses
  exactly the addresses without a host and those whose fingerprint was admitted before.\<close>

theorem Frontier_account:
  assumes "crawl_run Seen (new_frontier k) tr f t out"
  shows "mset (admitted tr) = queued f + mset (fetched tr) \<and>
    Frontier_Len f = int (length (admitted tr)) - int (length (fetched tr)) \<and>
    SeenSet_Len (seen f) = length (admitted tr) \<and>
    distinct (map Fingerprint (admitted tr)) \<and> distinct (map Fingerprint (fetched tr)) \<and>
    (fst (Add Seen now u f) \<longleftrightarrow> Host u \<noteq> [] \<and> Fingerprint u \<notin> Fingerprint ` set (admitted tr))"
proof -
  note inv = new_frontier_inv[OF assms]
  have acc: "distinct (seen f)" "set (seen f) = Fingerprint ` set (admitted tr)" "distinct (map Fingerprint (admitted tr))"
    "mset (admitted tr) = queued f + mset (fetched tr)"
    using inv(2) by (simp_all add: mem_seen.account_def)
  have "size (queued f) = length (admitted tr) - length (fetched tr)" "length (fetched tr) \<le> length (admitted tr)"
    using arg_cong[OF acc(4), of size] by simp_all
  then have "Frontier_Len f = int (length (admitted tr)) - int (length (fetched tr))"
    using frontier_okD(3)[OF run_invD(1)[OF inv(1)]] by (simp add: Frontier_Len_def)
  moreover have "SeenSet_Len (seen f) = length (admitted tr)"
    using distinct_card[OF acc(1)] distinct_card[OF acc(3)] acc(2) by (simp add: SeenSet_Len_def)
  moreover have "distinct (map Fingerprint (fetched tr))"
  proof -
    obtain qs where "mset qs = queued f" using ex_mset by blast
    then have "mset (map Fingerprint (admitted tr)) = mset (map Fingerprint (qs @ fetched tr))" using acc(4) by simp
    then have "distinct (map Fingerprint (qs @ fetched tr))" using acc(3) mset_eq_imp_distinct_iff by blast
    then show ?thesis by simp
  qed
  moreover have "fst (Add Seen now u f) \<longleftrightarrow> Host u \<noteq> [] \<and> Fingerprint u \<notin> Fingerprint ` set (admitted tr)"
  proof -
    obtain b f' where b: "Add Seen now u f = (b, f')" by fastforce
    show ?thesis
    proof (cases "Host u = []")
      case True
      then show ?thesis by (simp add: Add_def)
    next
      case False
      then show ?thesis using mem_seen.Add_cases[OF run_invD(1)[OF inv(1)] acc(1) b] acc(2) by (cases b) (simp_all add: b)
    qed
  qed
  ultimately show ?thesis using acc by blast
qed

theorem Frontier_account_witness:
  "\<exists>f t out. crawl_run Seen (new_frontier 10) sample_trace f t out \<and> Frontier_Len f = 0 \<and> SeenSet_Len (seen f) = 2"
proof -
  obtain f t out where run: "crawl_run Seen (new_frontier 10) sample_trace f t out" using sample_crawl by blast
  have "length (admitted sample_trace) = 2" "length (fetched sample_trace) = 2"
    by (simp_all add: sample_trace_def admitted_def fetched_def)
  then show ?thesis using Frontier_account[OF run] run by auto
qed

end
