(* ===== verification/CIFF.thy ===== *)
theory CIFF
  imports GoBinary GoFloat
begin

text \<open>
  \<open>open/ciff\<close>: the index export. The writer is the bytes written so far, the reader the bytes still to
  come; strings are byte strings. An \<open>int\<close> or \<open>int64\<close> is its 64-bit word, so the conversions to and from
  \<open>uint64\<close> are the identity; a \<open>float64\<close> is its bit pattern. A slice whose length is negative or whose size
  exceeds the address space panics (\<open>MakeSlice\<close>). \<open>slices.SortFunc\<close> is unstable: the three sorts of
  \<open>NewMemSource\<close> are arguments with the contract of a sort.
\<close>

datatype ciff_error =
    EOF | UnexpectedEOF | Overflow
  | MakeSlice
  | BadMagic bytes | UnsupportedVersion u64
  | NotSorted bytes | ListCount u64 u64 | DocCount u64 u64

definition magic :: bytes where "magic = [0x43, 0x49, 0x46, 0x46]"

definition version :: u64 where "version = 1"

record Header =
  NumPostingsLists :: u64
  NumDocs :: u64
  TotalTerms :: u64
  AverageDocLength :: u64
  Description :: bytes

record Posting =
  DocID :: u32
  TF :: u32

record PostingsList =
  Term :: bytes
  DF :: u32
  CF :: u64
  Postings :: "Posting list"

record DocRecord =
  dr_DocID :: u32
  CollectionDocID :: bytes
  Length :: u32

record Index =
  idx_Header :: Header
  idx_Terms :: "PostingsList list"
  idx_Docs :: "DocRecord list"

subsection \<open>Writing\<close>

definition putUvarint :: "bytes \<Rightarrow> u64 \<Rightarrow> bytes" where
  "putUvarint w x = appendUvarint w x"

definition putString :: "bytes \<Rightarrow> bytes \<Rightarrow> bytes" where
  "putString w s = putUvarint w (of_nat (length s)) @ s"

definition writeHeader :: "bytes \<Rightarrow> Header \<Rightarrow> bytes" where
  "writeHeader w h =
     (let w = putUvarint w (NumPostingsLists h);
          w = putUvarint w (NumDocs h);
          w = putUvarint w (TotalTerms h);
          w = putUvarint w (AverageDocLength h)
      in putString w (Description h))"

fun write_postings :: "bytes \<Rightarrow> nat \<Rightarrow> u32 \<Rightarrow> bytes \<Rightarrow> Posting list \<Rightarrow> ciff_error + bytes" where
  "write_postings trm i prev w [] = Inr w"
| "write_postings trm i prev w (p # ps) =
     (if i > 0 \<and> DocID p < prev then Inl (NotSorted trm)
      else let w = putUvarint w (ucast (DocID p - prev));
               w = putUvarint w (ucast (TF p))
           in write_postings trm (i + 1) (DocID p) w ps)"

definition writePostingsList :: "bytes \<Rightarrow> PostingsList \<Rightarrow> ciff_error + bytes" where
  "writePostingsList w pl =
     (let w = putString w (Term pl);
          w = putUvarint w (ucast (DF pl));
          w = putUvarint w (CF pl);
          w = putUvarint w (of_nat (length (Postings pl)))
      in write_postings (Term pl) 0 0 w (Postings pl))"

definition writeDocRecord :: "bytes \<Rightarrow> DocRecord \<Rightarrow> bytes" where
  "writeDocRecord w dr =
     (let w = putUvarint w (ucast (dr_DocID dr));
          w = putString w (CollectionDocID dr)
      in putUvarint w (ucast (Length dr)))"

fun write_lists :: "u64 \<Rightarrow> bytes \<Rightarrow> PostingsList list \<Rightarrow> ciff_error + u64 \<times> bytes" where
  "write_lists nl w [] = Inr (nl, w)"
| "write_lists nl w (pl # pls) =
     (case writePostingsList w pl of Inl e \<Rightarrow> Inl e | Inr w \<Rightarrow> write_lists (nl + 1) w pls)"

fun write_docs :: "u64 \<Rightarrow> bytes \<Rightarrow> DocRecord list \<Rightarrow> u64 \<times> bytes" where
  "write_docs docs w [] = (docs, w)"
| "write_docs docs w (dr # drs) = write_docs (docs + 1) (writeDocRecord w dr) drs"

text \<open>The source is the header and the two sequences its iterators yield.\<close>

definition Write :: "Header \<Rightarrow> PostingsList list \<Rightarrow> DocRecord list \<Rightarrow> ciff_error + bytes" where
  "Write h terms docs =
     (let w = writeHeader (putUvarint magic version) h
      in case write_lists 0 w terms of
           Inl e \<Rightarrow> Inl e
         | Inr (nl, w) \<Rightarrow>
             if nl \<noteq> NumPostingsLists h then Inl (ListCount (NumPostingsLists h) nl)
             else let (n, w) = write_docs 0 w docs
                  in if n \<noteq> NumDocs h then Inl (DocCount (NumDocs h) n) else Inr w)"

subsection \<open>Reading\<close>

type_synonym 'a reader = "bytes \<Rightarrow> ciff_error + 'a \<times> bytes"

definition rreturn :: "'a \<Rightarrow> 'a reader" where
  "rreturn x r = Inr (x, r)"

definition rfail :: "ciff_error \<Rightarrow> 'a reader" where
  "rfail e r = Inl e"

text \<open>\<open>if err != nil { return err }\<close>\<close>

definition rbind :: "'a reader \<Rightarrow> ('a \<Rightarrow> 'b reader) \<Rightarrow> 'b reader" where
  "rbind m k r = (case m r of Inl e \<Rightarrow> Inl e | Inr (x, r) \<Rightarrow> k x r)"

text \<open>\<open>io.ReadFull\<close> and \<open>binary.ReadUvarint\<close>.\<close>

definition ReadFull :: "nat \<Rightarrow> bytes reader" where
  "ReadFull n r =
     (if n \<le> length r then Inr (take n r, drop n r) else Inl (if r = [] then EOF else UnexpectedEOF))"

fun ReadUvarint_loop :: "u64 \<Rightarrow> nat \<Rightarrow> nat \<Rightarrow> u64 reader" where
  "ReadUvarint_loop x s i [] =
     Inl (if i \<ge> MaxVarintLen64 then Overflow else if i > 0 then UnexpectedEOF else EOF)"
| "ReadUvarint_loop x s i (b # r) =
     (if i \<ge> MaxVarintLen64 then Inl Overflow
      else if b < 0x80 then
        if i = MaxVarintLen64 - 1 \<and> b > 1 then Inl Overflow else Inr (x OR push_bit s (ucast b), r)
      else ReadUvarint_loop (x OR push_bit s (ucast (b AND 0x7f))) (s + 7) (i + 1) r)"

definition ReadUvarint :: "u64 reader" where
  "ReadUvarint = ReadUvarint_loop 0 0 0"

text \<open>The check of \<open>make\<close> for \<open>n\<close> elements of a size in bytes, with 48 bits of address space.\<close>

definition makeslice :: "nat \<Rightarrow> u64 \<Rightarrow> nat reader" where
  "makeslice sz n =
     (if 0 \<le> sint n \<and> sz * unat n \<le> 2 ^ 48 then rreturn (unat n) else rfail MakeSlice)"

definition readString :: "bytes reader" where
  "readString =
     rbind ReadUvarint (\<lambda>n.
       if n = 0 then rreturn []
       else rbind (makeslice 1 n) (\<lambda>len. ReadFull len))"

fun read_n :: "nat \<Rightarrow> 'a reader \<Rightarrow> 'a list reader" where
  "read_n 0 rd = rreturn []"
| "read_n (Suc n) rd = rbind rd (\<lambda>x. rbind (read_n n rd) (\<lambda>xs. rreturn (x # xs)))"

definition readHeader :: "Header reader" where
  "readHeader =
     rbind ReadUvarint (\<lambda>npl.
     rbind ReadUvarint (\<lambda>nd.
     rbind ReadUvarint (\<lambda>tt.
     rbind ReadUvarint (\<lambda>adl.
     rbind readString (\<lambda>desc.
     rreturn \<lparr>NumPostingsLists = npl, NumDocs = nd, TotalTerms = tt, AverageDocLength = adl, Description = desc\<rparr>)))))"

fun read_postings :: "nat \<Rightarrow> u32 \<Rightarrow> Posting list reader" where
  "read_postings 0 docid = rreturn []"
| "read_postings (Suc n) docid =
     rbind ReadUvarint (\<lambda>gap.
     rbind ReadUvarint (\<lambda>tf.
     let docid = docid + ucast gap
     in rbind (read_postings n docid) (\<lambda>ps. rreturn (\<lparr>DocID = docid, TF = ucast tf\<rparr> # ps))))"

definition readPostingsList :: "PostingsList reader" where
  "readPostingsList =
     rbind readString (\<lambda>trm.
     rbind ReadUvarint (\<lambda>df.
     rbind ReadUvarint (\<lambda>cf.
     rbind ReadUvarint (\<lambda>n.
     rbind (makeslice 8 n) (\<lambda>len.
     rbind (read_postings len 0) (\<lambda>ps.
     rreturn \<lparr>Term = trm, DF = ucast df, CF = cf, Postings = ps\<rparr>))))))"

definition readDocRecord :: "DocRecord reader" where
  "readDocRecord =
     rbind ReadUvarint (\<lambda>did.
     rbind readString (\<lambda>cid.
     rbind ReadUvarint (\<lambda>len.
     rreturn \<lparr>dr_DocID = ucast did, CollectionDocID = cid, Length = ucast len\<rparr>)))"

definition Read :: "Index reader" where
  "Read =
     rbind (ReadFull (length magic)) (\<lambda>buf.
     if buf \<noteq> magic then rfail (BadMagic buf)
     else rbind ReadUvarint (\<lambda>v.
     if v \<noteq> version then rfail (UnsupportedVersion v)
     else rbind readHeader (\<lambda>h.
     rbind (makeslice 56 (NumPostingsLists h)) (\<lambda>nl.
     rbind (read_n nl readPostingsList) (\<lambda>terms.
     rbind (makeslice 32 (NumDocs h)) (\<lambda>nd.
     rbind (read_n nd readDocRecord) (\<lambda>docs.
     rreturn \<lparr>idx_Header = h, idx_Terms = terms, idx_Docs = docs\<rparr>)))))))"

subsection \<open>The in-memory source\<close>

record MemSource =
  header :: Header
  ms_terms :: "PostingsList list"
  ms_docs :: "DocRecord list"

definition NewMemSource ::
  "(PostingsList list \<Rightarrow> PostingsList list) \<Rightarrow> (Posting list \<Rightarrow> Posting list) \<Rightarrow> (DocRecord list \<Rightarrow> DocRecord list) \<Rightarrow>
   bytes \<Rightarrow> PostingsList list \<Rightarrow> DocRecord list \<Rightarrow> MemSource" where
  "NewMemSource sortTerms sortPostings sortDocs desc terms docs =
     (let terms = map (\<lambda>pl. pl\<lparr>Postings := sortPostings (Postings pl)\<rparr>) (sortTerms terms);
          docs = sortDocs docs;
          totalTerms = foldl (\<lambda>t d. t + ucast (Length d)) 0 docs;
          avg = (if length docs > 0
                 then Float64bits (float64_int (sint totalTerms) / float64_int (int (length docs))) else 0)
      in \<lparr>header = \<lparr>NumPostingsLists = of_nat (length terms), NumDocs = of_nat (length docs),
                    TotalTerms = totalTerms, AverageDocLength = avg, Description = desc\<rparr>,
          ms_terms = terms, ms_docs = docs\<rparr>)"

subsection \<open>What a reader consumes\<close>

text \<open>\<open>p\<close> reads the bytes \<open>e\<close> as \<open>v\<close> and leaves the rest, and reports the end of input on any part of
  \<open>e\<close>.\<close>

definition reads :: "'a reader \<Rightarrow> bytes \<Rightarrow> 'a \<Rightarrow> bool" where
  "reads p e v \<longleftrightarrow> (\<forall>rest. p (e @ rest) = Inr (v, rest)) \<and>
     (\<forall>q. strict_prefix q e \<longrightarrow> p q = Inl EOF \<or> p q = Inl UnexpectedEOF)"

lemma readsD:
  assumes "reads p e v"
  shows "p (e @ rest) = Inr (v, rest)" "strict_prefix q e \<Longrightarrow> p q = Inl EOF \<or> p q = Inl UnexpectedEOF"
  using assms by (simp_all add: reads_def)

lemma reads_return: "reads (rreturn v) [] v"
  by (simp add: reads_def rreturn_def)

lemma reads_bind:
  assumes "reads m e v" "reads (k v) e' v'"
  shows "reads (rbind m k) (e @ e') v'"
  unfolding reads_def
proof (intro conjI allI impI)
  fix rest
  show "rbind m k ((e @ e') @ rest) = Inr (v', rest)"
    using readsD(1)[OF assms(1), of "e' @ rest"] readsD(1)[OF assms(2)] by (simp add: rbind_def)
next
  fix q assume q: "strict_prefix q (e @ e')"
  show "rbind m k q = Inl EOF \<or> rbind m k q = Inl UnexpectedEOF"
  proof (cases "strict_prefix q e")
    case True
    then show ?thesis using readsD(2)[OF assms(1) True] by (auto simp: rbind_def)
  next
    case False
    then have "prefix e q" using q by (metis prefix_append prefix_order.less_le prefix_order.order_refl prefix_same_cases prefixI strict_prefix_def)
    then obtain q' where q': "q = e @ q'" by (auto simp: prefix_def)
    then have "strict_prefix q' e'" using q by (simp add: strict_prefix_def)
    then show ?thesis using readsD(1)[OF assms(1)] readsD(2)[OF assms(2)] by (simp add: rbind_def q')
  qed
qed

lemma reads_bind_return: "reads m e v \<Longrightarrow> f v = v' \<Longrightarrow> reads (rbind m (\<lambda>x. rreturn (f x))) e v'"
  using reads_bind[of m e v _ "[]"] reads_return by fastforce

lemma reads_bind_pure: "m = rreturn v \<Longrightarrow> reads (k v) e v' \<Longrightarrow> reads (rbind m k) e v'"
  using reads_bind[OF reads_return] by fastforce

lemma reads_ReadFull: "reads (ReadFull (length e)) e e"
  unfolding reads_def
proof (intro conjI allI impI)
  fix q assume "strict_prefix q e"
  then have "length q < length e" by (rule prefix_length_less)
  then show "ReadFull (length e) q = Inl EOF \<or> ReadFull (length e) q = Inl UnexpectedEOF" by (simp add: ReadFull_def)
qed (simp add: ReadFull_def)

subsection \<open>Variable-length integers\<close>

lemma ReadUvarint_loop_eq:
  assumes "binary_Uvarint_loop x s i r = (v, n)" "0 < n" "i \<le> MaxVarintLen64"
  shows "ReadUvarint_loop x s i r = Inr (v, drop (nat n - i) r) \<and> int i < n"
  using assms
proof (induction r arbitrary: x s i)
  case (Cons b r)
  show ?case
  proof (cases "i < MaxVarintLen64 \<and> \<not> b < 0x80")
    case True
    then have *: "binary_Uvarint_loop (x OR push_bit s (ucast (b AND 0x7f))) (s + 7) (i + 1) r = (v, n)"
      using Cons.prems(1) by auto
    then have "ReadUvarint_loop (x OR push_bit s (ucast (b AND 0x7f))) (s + 7) (i + 1) r = Inr (v, drop (nat n - (i + 1)) r) \<and>
        int (i + 1) < n"
      using Cons.IH[OF *] Cons.prems(2,3) True by simp
    moreover from this have "nat n - i = Suc (nat n - (i + 1))" by linarith
    ultimately show ?thesis using True by simp
  next
    case False
    then show ?thesis using Cons.prems by (auto simp: nat_add_distrib split: if_splits)
  qed
qed simp

lemma ReadUvarint_loop_short:
  assumes "\<forall>b \<in> set r. \<not> b < 0x80" "i + length r < MaxVarintLen64"
  shows "ReadUvarint_loop x s i r = Inl (if i + length r > 0 then UnexpectedEOF else EOF)"
  using assms by (induction r arbitrary: x s i) auto

lemma appendUvarint_shape:
  "unat y < 128 ^ Suc k \<Longrightarrow> length (appendUvarint [] y) \<le> Suc k \<and>
     (\<forall>b \<in> set (butlast (appendUvarint [] y)). \<not> b < 0x80) \<and> appendUvarint [] y \<noteq> []"
proof (induction k arbitrary: y)
  case 0
  then have "y < 0x80" by (simp add: word_less_nat_alt)
  then show ?case by (simp add: appendUvarint_step)
next
  case (Suc k)
  show ?case
  proof (cases "y < 0x80")
    case True
    then show ?thesis by (simp add: appendUvarint_step)
  next
    case False
    have "unat (drop_bit 7 y) < 128 ^ Suc k" using Suc.prems by (simp add: unat_drop_bit less_mult_imp_div_less mult.commute)
    from Suc.IH[OF this] show ?thesis
      using False continuation_byte(1)[of y] by (auto simp: appendUvarint_step not_less)
  qed
qed

lemma reads_uvarint: "reads ReadUvarint (appendUvarint [] y) y"
  unfolding reads_def
proof (intro conjI allI impI)
  have "unat y < 128 ^ Suc 9" using unat_u64_less[of y] by (rule less_le_trans) simp
  note shape = appendUvarint_shape[OF this]
  fix rest
  show "ReadUvarint (appendUvarint [] y @ rest) = Inr (y, rest)"
    using ReadUvarint_loop_eq[of 0 0 0] binary_Uvarint_append[of y rest] shape
    by (fastforce simp: ReadUvarint_def binary_Uvarint_def)
  fix q assume q: "strict_prefix q (appendUvarint [] y)"
  then have "prefix q (butlast (appendUvarint [] y))" by (metis append_butlast_last_id prefix_order.less_le prefix_snoc strict_prefix_simps(1))
  then have "\<forall>b \<in> set q. \<not> b < 0x80" using shape by (meson set_mono_prefix subsetD)
  moreover have "length q < 10" using prefix_length_less[OF q] shape by linarith
  ultimately show "ReadUvarint q = Inl EOF \<or> ReadUvarint q = Inl UnexpectedEOF"
    by (simp add: ReadUvarint_def ReadUvarint_loop_short MaxVarintLen64_def)
qed

subsection \<open>The bytes of an export\<close>

text \<open>A codec: what the writer emits for a value within the limits, the reader gives back. A section of
  the file is a sequence of such values.\<close>

locale codec =
  fixes enc :: "'a \<Rightarrow> bytes" and dec :: "'a reader" and fits :: "'a \<Rightarrow> bool"
  assumes dec_enc: "fits x \<Longrightarrow> reads dec (enc x) x"
begin

lemma reads_list: "\<forall>x \<in> set xs. fits x \<Longrightarrow> reads (read_n (length xs) dec) (concat (map enc xs)) xs"
proof (induction xs)
  case (Cons x xs)
  have "reads (rbind (read_n (length xs) dec) (\<lambda>xs. rreturn (x # xs))) (concat (map enc xs)) (x # xs)"
    by (rule reads_bind_return) (use Cons in simp_all)
  then show ?case using Cons.prems reads_bind[OF dec_enc[of x]] by simp
qed (simp add: reads_return)

end

abbreviation uv :: "u64 \<Rightarrow> bytes" where "uv \<equiv> appendUvarint []"

definition str_bytes :: "bytes \<Rightarrow> bytes" where
  "str_bytes s = uv (of_nat (length s)) @ s"

definition header_bytes :: "Header \<Rightarrow> bytes" where
  "header_bytes h =
     uv (NumPostingsLists h) @ uv (NumDocs h) @ uv (TotalTerms h) @ uv (AverageDocLength h) @ str_bytes (Description h)"

fun posting_bytes :: "u32 \<Rightarrow> Posting list \<Rightarrow> bytes" where
  "posting_bytes prev [] = []"
| "posting_bytes prev (p # ps) = uv (ucast (DocID p - prev)) @ uv (ucast (TF p)) @ posting_bytes (DocID p) ps"

definition list_bytes :: "PostingsList \<Rightarrow> bytes" where
  "list_bytes pl =
     str_bytes (Term pl) @ uv (ucast (DF pl)) @ uv (CF pl) @ uv (of_nat (length (Postings pl))) @ posting_bytes 0 (Postings pl)"

definition doc_bytes :: "DocRecord \<Rightarrow> bytes" where
  "doc_bytes dr = uv (ucast (dr_DocID dr)) @ str_bytes (CollectionDocID dr) @ uv (ucast (Length dr))"

definition export :: "Header \<Rightarrow> PostingsList list \<Rightarrow> DocRecord list \<Rightarrow> bytes" where
  "export h terms docs =
     magic @ uv version @ header_bytes h @ concat (map list_bytes terms) @ concat (map doc_bytes docs)"

definition in_order :: "PostingsList \<Rightarrow> bool" where
  "in_order pl \<longleftrightarrow> sorted (map DocID (Postings pl))"

lemma put_eq [simp]: "putUvarint w y = w @ uv y" "putString w s = w @ str_bytes s"
  using appendUvarint_append[of w] by (simp_all add: putUvarint_def putString_def str_bytes_def)

lemma write_postings_eq:
  "(i = 0 \<longrightarrow> prev = 0) \<Longrightarrow> write_postings trm i prev w ps =
     (if sorted (prev # map DocID ps) then Inr (w @ posting_bytes prev ps) else Inl (NotSorted trm))"
  by (induction ps arbitrary: i prev w) (auto simp: Let_def not_less)

lemma writePostingsList_eq:
  "writePostingsList w pl = (if in_order pl then Inr (w @ list_bytes pl) else Inl (NotSorted (Term pl)))"
  by (simp add: writePostingsList_def Let_def write_postings_eq in_order_def list_bytes_def)

lemma write_lists_eq:
  "write_lists n w pls =
     (case find (\<lambda>pl. \<not> in_order pl) pls of
        Some pl \<Rightarrow> Inl (NotSorted (Term pl))
      | None \<Rightarrow> Inr (n + of_nat (length pls), w @ concat (map list_bytes pls)))"
  by (induction pls arbitrary: n w) (auto simp: writePostingsList_eq add.assoc split: option.splits)

lemma write_docs_eq: "write_docs n w ds = (n + of_nat (length ds), w @ concat (map doc_bytes ds))"
  by (induction ds arbitrary: n w) (simp_all add: writeDocRecord_def Let_def doc_bytes_def)

lemma Write_eq:
  "Write h terms docs =
     (case find (\<lambda>pl. \<not> in_order pl) terms of
        Some pl \<Rightarrow> Inl (NotSorted (Term pl))
      | None \<Rightarrow>
          if of_nat (length terms) \<noteq> NumPostingsLists h then Inl (ListCount (NumPostingsLists h) (of_nat (length terms)))
          else if of_nat (length docs) \<noteq> NumDocs h then Inl (DocCount (NumDocs h) (of_nat (length docs)))
          else Inr (export h terms docs))"
  by (simp add: Write_def Let_def write_lists_eq write_docs_eq writeHeader_def export_def header_bytes_def
      split: option.splits)

subsection \<open>Reading it back\<close>

definition str_fits :: "bytes \<Rightarrow> bool" where
  "str_fits s \<longleftrightarrow> length s \<le> 2 ^ 48"

definition list_fits :: "PostingsList \<Rightarrow> bool" where
  "list_fits pl \<longleftrightarrow> str_fits (Term pl) \<and> 8 * length (Postings pl) \<le> 2 ^ 48"

definition doc_fits :: "DocRecord \<Rightarrow> bool" where
  "doc_fits dr \<longleftrightarrow> str_fits (CollectionDocID dr)"

definition export_fits :: "bytes \<Rightarrow> PostingsList list \<Rightarrow> DocRecord list \<Rightarrow> bool" where
  "export_fits desc terms docs \<longleftrightarrow> str_fits desc \<and> list_all list_fits terms \<and> list_all doc_fits docs \<and>
     56 * length terms \<le> 2 ^ 48 \<and> 32 * length docs \<le> 2 ^ 48"

lemma makeslice_ok:
  assumes "sz * n \<le> 2 ^ 48" "0 < sz"
  shows "makeslice sz (of_nat n) = rreturn n"
proof -
  have "1 * n \<le> sz * n" using assms(2) by (intro mult_le_mono1) simp
  then have n: "n \<le> 2 ^ 48" using assms(1) by linarith
  then have u: "unat (of_nat n :: u64) = n" by (simp add: unat_of_nat take_bit_nat_eq_self)
  moreover have "sint (of_nat n :: u64) = int n" using n by (simp add: signed_of_nat signed_take_bit_int_eq_self)
  ultimately show ?thesis using assms(1) by (simp add: makeslice_def)
qed

interpretation uvarint: codec uv ReadUvarint "\<lambda>_. True"
  by unfold_locales (rule reads_uvarint)

interpretation str: codec str_bytes readString str_fits
proof
  fix s assume s: "str_fits s"
  then have z: "(of_nat (length s) :: u64) = 0 \<longleftrightarrow> s = []"
    by (subst word_of_nat_eq_0_iff) (auto simp: str_fits_def dest: dvd_imp_le)
  have m: "makeslice 1 (of_nat (length s)) = rreturn (length s)" using s by (intro makeslice_ok) (simp_all add: str_fits_def)
  have "reads (if (of_nat (length s) :: u64) = 0 then rreturn [] else rbind (makeslice 1 (of_nat (length s))) (\<lambda>len. ReadFull len)) s s"
    unfolding z by (auto simp: reads_return simp del: One_nat_def intro: reads_bind_pure[OF m] reads_ReadFull)
  then show "reads readString (str_bytes s) s"
    unfolding readString_def str_bytes_def by (rule reads_bind[OF reads_uvarint])
qed

interpretation hdr: codec header_bytes readHeader "\<lambda>h. str_fits (Description h)"
proof
  fix h :: Header assume "str_fits (Description h)"
  then show "reads readHeader (header_bytes h) h"
    unfolding readHeader_def header_bytes_def
    by (intro reads_bind[OF reads_uvarint] reads_bind_return[OF str.dec_enc]) simp_all
qed

lemma ucast_u64_u32 [simp]: "ucast (ucast (x :: u32) :: u64) = x"
  by (simp add: word_unat_eq_iff unat_ucast_mod)

lemma reads_postings: "reads (read_postings (length ps) prev) (posting_bytes prev ps) ps"
proof (induction ps arbitrary: prev)
  case (Cons p ps)
  have "reads (rbind (read_postings (length ps) (DocID p)) (\<lambda>ps. rreturn (\<lparr>DocID = DocID p, TF = TF p\<rparr> # ps)))
      (posting_bytes (DocID p) ps) (p # ps)"
    by (rule reads_bind_return[OF Cons.IH]) simp
  then show ?case by (auto simp: Let_def intro!: reads_bind[OF reads_uvarint])
qed (simp add: reads_return)

interpretation plist: codec list_bytes readPostingsList list_fits
proof
  fix pl :: PostingsList assume fits: "list_fits pl"
  then have "makeslice 8 (of_nat (length (Postings pl))) = rreturn (length (Postings pl))"
    by (intro makeslice_ok) (simp_all add: list_fits_def)
  then show "reads readPostingsList (list_bytes pl) pl"
    unfolding readPostingsList_def list_bytes_def using fits
    by (intro reads_bind[OF str.dec_enc] reads_bind[OF reads_uvarint], simp add: list_fits_def)
      (erule reads_bind_pure, rule reads_bind_return[OF reads_postings], simp)
qed

interpretation docrec: codec doc_bytes readDocRecord doc_fits
proof
  fix dr :: DocRecord assume "doc_fits dr"
  then show "reads readDocRecord (doc_bytes dr) dr"
    unfolding readDocRecord_def doc_bytes_def
    by (intro reads_bind[OF reads_uvarint] reads_bind[OF str.dec_enc] reads_bind_return[OF reads_uvarint])
      (simp_all add: doc_fits_def)
qed

lemma reads_export:
  assumes "export_fits (Description h) terms docs"
    and "NumPostingsLists h = of_nat (length terms)" "NumDocs h = of_nat (length docs)"
  shows "reads Read (export h terms docs) \<lparr>idx_Header = h, idx_Terms = terms, idx_Docs = docs\<rparr>"
proof -
  note fits = assms(1)[unfolded export_fits_def list_all_iff]
  have m: "makeslice 56 (NumPostingsLists h) = rreturn (length terms)" "makeslice 32 (NumDocs h) = rreturn (length docs)"
    unfolding assms(2,3) using fits by (intro makeslice_ok; simp)+
  let ?docs = "\<lambda>h terms. rbind (makeslice 32 (NumDocs h)) (\<lambda>nd. rbind (read_n nd readDocRecord) (\<lambda>docs.
     rreturn \<lparr>idx_Header = h, idx_Terms = terms, idx_Docs = docs\<rparr>))"
  let ?terms = "\<lambda>h. rbind (makeslice 56 (NumPostingsLists h)) (\<lambda>nl. rbind (read_n nl readPostingsList) (?docs h))"
  have "reads (?docs h terms) (concat (map doc_bytes docs)) \<lparr>idx_Header = h, idx_Terms = terms, idx_Docs = docs\<rparr>"
    by (rule reads_bind_pure[OF m(2)], rule reads_bind_return[OF docrec.reads_list]) (use fits in simp_all)
  then have "reads (rbind (read_n (length terms) readPostingsList) (?docs h))
      (concat (map list_bytes terms) @ concat (map doc_bytes docs)) \<lparr>idx_Header = h, idx_Terms = terms, idx_Docs = docs\<rparr>"
    by (rule reads_bind[rotated]) (use fits in \<open>simp add: plist.reads_list\<close>)
  then have "reads (?terms h) (concat (map list_bytes terms) @ concat (map doc_bytes docs)) \<lparr>idx_Header = h, idx_Terms = terms, idx_Docs = docs\<rparr>"
    by (rule reads_bind_pure[OF m(1)])
  then have "reads (rbind readHeader ?terms) (header_bytes h @ concat (map list_bytes terms) @ concat (map doc_bytes docs))
      \<lparr>idx_Header = h, idx_Terms = terms, idx_Docs = docs\<rparr>"
    by (rule reads_bind[rotated]) (use fits in \<open>simp add: hdr.dec_enc\<close>)
  then show ?thesis unfolding Read_def export_def
    by (intro reads_bind[OF reads_ReadFull] , simp) (intro reads_bind[OF reads_uvarint], simp)
qed

lemma find_None_all: "find (\<lambda>x. \<not> P x) xs = None \<longleftrightarrow> (\<forall>x \<in> set xs. P x)"
  by (auto simp: find_None_iff)

lemma sum_lengths: "foldl (\<lambda>t d. t + ucast (Length d)) (of_nat n :: u64) ds = of_nat (n + (\<Sum>d\<leftarrow>ds. unat (Length d)))"
proof (induction ds arbitrary: n)
  case (Cons d ds)
  have "(of_nat n + ucast (Length d) :: u64) = of_nat (n + unat (Length d))" by simp
  then show ?case using Cons.IH[of "n + unat (Length d)"] by (simp add: add.assoc)
qed simp

lemma MemSource_spec:
  assumes "sort_Slice Term sortTerms" "sort_Slice DocID sortPostings" "sort_Slice dr_DocID sortDocs"
    and "export_fits desc terms docs"
  defines "m \<equiv> NewMemSource sortTerms sortPostings sortDocs desc terms docs"
  shows "\<exists>bs. Write (header m) (ms_terms m) (ms_docs m) = Inr bs \<and>
      (\<forall>rest. Read (bs @ rest) = Inr (\<lparr>idx_Header = header m, idx_Terms = ms_terms m, idx_Docs = ms_docs m\<rparr>, rest)) \<and>
      (\<forall>q. strict_prefix q bs \<longrightarrow> Read q = Inl EOF \<or> Read q = Inl UnexpectedEOF)"
    and "sorted (map Term (ms_terms m)) \<and> list_all (\<lambda>pl. sorted (map DocID (Postings pl))) (ms_terms m) \<and>
      {#(Term pl, DF pl, CF pl, mset (Postings pl)). pl \<in># mset (ms_terms m)#} =
      {#(Term pl, DF pl, CF pl, mset (Postings pl)). pl \<in># mset terms#}"
    and "sorted (map dr_DocID (ms_docs m)) \<and> mset (ms_docs m) = mset docs \<and> Description (header m) = desc \<and>
      unat (TotalTerms (header m)) = (\<Sum>d\<leftarrow>docs. unat (Length d)) mod 2 ^ 64"
proof -
  let ?norm = "\<lambda>pl. pl\<lparr>Postings := sortPostings (Postings pl)\<rparr>"
  have sel: "ms_terms m = map ?norm (sortTerms terms)" "ms_docs m = sortDocs docs" "Description (header m) = desc"
    "NumPostingsLists (header m) = of_nat (length (ms_terms m))" "NumDocs (header m) = of_nat (length (ms_docs m))"
    "TotalTerms (header m) = foldl (\<lambda>t d. t + ucast (Length d)) 0 (ms_docs m)"
    by (simp_all add: m_def NewMemSource_def Let_def)
  have msT: "mset (sortTerms terms) = mset terms" and msD: "mset (sortDocs docs) = mset docs"
    and msP: "mset (sortPostings ps) = mset ps" "sorted (map DocID (sortPostings ps))" for ps
    using assms(1-3) by (simp_all add: sort_Slice_def)
  have len: "length (sortTerms terms) = length terms" "length (sortDocs docs) = length docs" "length (sortPostings ps) = length ps" for ps
    using msT msD msP(1) by (metis size_mset)+
  have sets: "set (sortTerms terms) = set terms" "set (sortDocs docs) = set docs" using msT msD by (metis set_mset_mset)+
  have ord: "list_all (\<lambda>pl. sorted (map DocID (Postings pl))) (ms_terms m)" using msP(2) by (simp add: sel list_all_iff)
  have fits: "export_fits (Description (header m)) (ms_terms m) (ms_docs m)"
    using assms(4) by (simp add: sel export_fits_def list_all_iff list_fits_def len sets)
  have "Write (header m) (ms_terms m) (ms_docs m) = Inr (export (header m) (ms_terms m) (ms_docs m))"
    using ord sel(4,5) find_None_all[of in_order "ms_terms m"] by (simp add: Write_eq list_all_iff in_order_def)
  then show "\<exists>bs. Write (header m) (ms_terms m) (ms_docs m) = Inr bs \<and>
      (\<forall>rest. Read (bs @ rest) = Inr (\<lparr>idx_Header = header m, idx_Terms = ms_terms m, idx_Docs = ms_docs m\<rparr>, rest)) \<and>
      (\<forall>q. strict_prefix q bs \<longrightarrow> Read q = Inl EOF \<or> Read q = Inl UnexpectedEOF)"
    using reads_export[OF fits sel(4,5)] unfolding reads_def by blast
  have "sorted (map Term (ms_terms m))" using assms(1) by (simp add: sel sort_Slice_def comp_def)
  moreover have "{#(Term pl, DF pl, CF pl, mset (Postings pl)). pl \<in># mset (ms_terms m)#} =
      {#(Term pl, DF pl, CF pl, mset (Postings pl)). pl \<in># mset (sortTerms terms)#}"
    by (simp add: sel image_mset.compositionality comp_def msP(1))
  ultimately show "sorted (map Term (ms_terms m)) \<and> list_all (\<lambda>pl. sorted (map DocID (Postings pl))) (ms_terms m) \<and>
      {#(Term pl, DF pl, CF pl, mset (Postings pl)). pl \<in># mset (ms_terms m)#} =
      {#(Term pl, DF pl, CF pl, mset (Postings pl)). pl \<in># mset terms#}"
    using ord msT by simp
  have "(\<Sum>d\<leftarrow>sortDocs docs. unat (Length d)) = (\<Sum>d\<leftarrow>docs. unat (Length d))"
    using arg_cong[OF msD, of "\<lambda>M. \<Sum>d\<in>#M. unat (Length d)"] unfolding mset_map[symmetric] sum_mset_sum_list .
  then have "unat (TotalTerms (header m)) = (\<Sum>d\<leftarrow>docs. unat (Length d)) mod 2 ^ 64"
    using sum_lengths[of 0 "sortDocs docs"] by (simp add: sel unsigned_of_nat take_bit_eq_mod)
  then show "sorted (map dr_DocID (ms_docs m)) \<and> mset (ms_docs m) = mset docs \<and> Description (header m) = desc \<and>
      unat (TotalTerms (header m)) = (\<Sum>d\<leftarrow>docs. unat (Length d)) mod 2 ^ 64"
    using assms(3) msD by (simp add: sel sort_Slice_def)
qed

text \<open>C24: An export can be read back. \<open>Write\<close> accepts the in-memory source of any lists and documents that
  fit in memory, \<open>Read\<close> returns exactly its header and sections and stops at their end, and every proper prefix
  of the file is refused as truncated. The sections are the input, sorted: terms in ascending order with
  their postings in ascending order, documents by id, and the header counts them.\<close>

theorem CIFF_roundtrip:
  assumes "sort_Slice Term sortTerms" "sort_Slice DocID sortPostings" "sort_Slice dr_DocID sortDocs"
    and "export_fits desc terms docs"
  shows "let m = NewMemSource sortTerms sortPostings sortDocs desc terms docs in
    (\<exists>bs. Write (header m) (ms_terms m) (ms_docs m) = Inr bs \<and>
      (\<forall>rest. Read (bs @ rest) = Inr (\<lparr>idx_Header = header m, idx_Terms = ms_terms m, idx_Docs = ms_docs m\<rparr>, rest)) \<and>
      (\<forall>q. strict_prefix q bs \<longrightarrow> Read q = Inl EOF \<or> Read q = Inl UnexpectedEOF)) \<and>
    sorted (map Term (ms_terms m)) \<and> list_all (\<lambda>pl. sorted (map DocID (Postings pl))) (ms_terms m) \<and>
    {#(Term pl, DF pl, CF pl, mset (Postings pl)). pl \<in># mset (ms_terms m)#} =
      {#(Term pl, DF pl, CF pl, mset (Postings pl)). pl \<in># mset terms#} \<and>
    sorted (map dr_DocID (ms_docs m)) \<and> mset (ms_docs m) = mset docs \<and> Description (header m) = desc \<and>
    unat (TotalTerms (header m)) = (\<Sum>d\<leftarrow>docs. unat (Length d)) mod 2 ^ 64"
  unfolding Let_def using MemSource_spec[OF assms] by blast

definition sample_terms :: "PostingsList list" where
  "sample_terms = [\<lparr>Term = [0x62], DF = 2, CF = 5, Postings = [\<lparr>DocID = 300, TF = 2\<rparr>, \<lparr>DocID = 0, TF = 3\<rparr>]\<rparr>,
     \<lparr>Term = [0x61], DF = 1, CF = 1, Postings = [\<lparr>DocID = 7, TF = 1\<rparr>]\<rparr>]"

definition sample_docs :: "DocRecord list" where
  "sample_docs = [\<lparr>dr_DocID = 7, CollectionDocID = [0x78], Length = 3\<rparr>, \<lparr>dr_DocID = 0, CollectionDocID = [], Length = 3\<rparr>]"

lemma sort_Slice_sort_key: "sort_Slice k (sort_key k)"
  by (simp add: sort_Slice_def)

theorem CIFF_roundtrip_witness:
  "let m = NewMemSource (sort_key Term) (sort_key DocID) (sort_key dr_DocID) [] sample_terms sample_docs in
     (\<exists>bs. Write (header m) (ms_terms m) (ms_docs m) = Inr bs \<and>
        Read (bs @ [0]) = Inr (\<lparr>idx_Header = header m, idx_Terms = ms_terms m, idx_Docs = ms_docs m\<rparr>, [0])) \<and>
     unat (TotalTerms (header m)) = 6"
proof -
  have fits: "export_fits [] sample_terms sample_docs"
    by (simp add: export_fits_def sample_terms_def sample_docs_def list_fits_def doc_fits_def str_fits_def)
  have six: "(\<Sum>d\<leftarrow>sample_docs. unat (Length d)) mod 2 ^ 64 = 6" by (simp add: sample_docs_def)
  obtain m where m: "NewMemSource (sort_key Term) (sort_key DocID) (sort_key dr_DocID) [] sample_terms sample_docs = m" by blast
  show ?thesis
    using CIFF_roundtrip[OF sort_Slice_sort_key sort_Slice_sort_key sort_Slice_sort_key fits] unfolding m Let_def six by blast
qed

lemma Write_reads:
  assumes "Write h terms docs = Inr bs" "export_fits (Description h) terms docs"
  shows "Read (bs @ rest) = Inr (\<lparr>idx_Header = h, idx_Terms = terms, idx_Docs = docs\<rparr>, rest)"
  using assms readsD(1)[OF reads_export[of h terms docs]] by (simp add: Write_eq split: option.splits if_splits)

lemma export_identifies:
  assumes "Write h terms docs = Inr bs" "Write h' terms' docs' = Inr bs'" "bs @ rest = bs' @ rest'"
    and "export_fits (Description h) terms docs" "export_fits (Description h') terms' docs'"
  shows "h = h' \<and> terms = terms' \<and> docs = docs' \<and> rest = rest'"
  using Write_reads[OF assms(1,4), of rest] Write_reads[OF assms(2,5), of rest'] assms(3) by simp

text \<open>\<open>Write\<close> fails exactly when a list is not in ascending order or a section does not have the announced
  length; the error names the first bad list, or the count announced and the count found.\<close>

theorem CIFF_Write_errors:
  "case Write h terms docs of
     Inl err \<Rightarrow>
       (\<exists>good pl bad. terms = good @ pl # bad \<and> err = NotSorted (Term pl) \<and> \<not> sorted (map DocID (Postings pl)) \<and>
          list_all (\<lambda>pl. sorted (map DocID (Postings pl))) good) \<or>
       list_all (\<lambda>pl. sorted (map DocID (Postings pl))) terms \<and>
         (err = ListCount (NumPostingsLists h) (of_nat (length terms)) \<and> of_nat (length terms) \<noteq> NumPostingsLists h \<or>
          err = DocCount (NumDocs h) (of_nat (length docs)) \<and> of_nat (length docs) \<noteq> NumDocs h)
   | Inr bs \<Rightarrow> list_all (\<lambda>pl. sorted (map DocID (Postings pl))) terms \<and>
       of_nat (length terms) = NumPostingsLists h \<and> of_nat (length docs) = NumDocs h"
proof (cases "find (\<lambda>pl. \<not> in_order pl) terms")
  case None
  then have "list_all (\<lambda>pl. sorted (map DocID (Postings pl))) terms"
    by (simp add: find_None_all list_all_iff in_order_def)
  then show ?thesis using None by (simp add: Write_eq)
next
  case (Some pl)
  then obtain i where "i < length terms" "\<not> in_order (terms ! i)" "pl = terms ! i" "\<forall>j < i. in_order (terms ! j)"
    by (auto simp: find_Some_iff)
  then have "terms = take i terms @ pl # drop (Suc i) terms" "\<not> in_order pl" "list_all in_order (take i terms)"
    by (auto simp: list_all_length id_take_nth_drop)
  then have "\<exists>good l bad. terms = good @ l # bad \<and> NotSorted (Term pl) = NotSorted (Term l) \<and>
      \<not> sorted (map DocID (Postings l)) \<and> list_all (\<lambda>pl. sorted (map DocID (Postings pl))) good"
    unfolding in_order_def by blast
  then show ?thesis using Some by (simp add: Write_eq)
qed

text \<open>A count is trusted before anything is read: a few bytes make \<open>Read\<close> panic instead of returning an error.\<close>

lemma Read_trusts_count: "Read (magic @ uv version @ uv (2 ^ 63) @ uv 0 @ uv 0 @ uv 0 @ uv 0) = Inl MakeSlice"
proof -
  let ?h = "\<lparr>NumPostingsLists = 2 ^ 63, NumDocs = 0, TotalTerms = 0, AverageDocLength = 0, Description = []\<rparr>"
  have h: "readHeader (header_bytes ?h @ []) = Inr (?h, [])" by (rule readsD(1)[OF hdr.dec_enc]) (simp add: str_fits_def)
  have m: "makeslice 56 (2 ^ 63) r = Inl MakeSlice" for r by (simp add: makeslice_def rfail_def)
  have "rbind ReadUvarint k (uv v @ r) = k v r" for k :: "u64 \<Rightarrow> 'a reader" and v r
    using readsD(1)[OF reads_uvarint] by (simp add: rbind_def)
  then show ?thesis using h m readsD(1)[OF reads_ReadFull[of magic]] readsD(1)[OF reads_uvarint[of version]]
    by (simp add: Read_def rbind_def header_bytes_def str_bytes_def)
qed

end
