(* ===== verification/Spec2Isabelle.thy ===== *)
theory Spec2Isabelle
  imports HNSW_Correct Quantize Fetch Harness Command Telemetry AnswerEngine AnswerEval Metric Trace WARC Federation CrowdSignal PageRank Fusion RankEval
    SegmentSearch WebTable LinkGraph MergePolicy
    Placement JumpHash Health Serve Loader Hedge
    Robots Dedup Frontier CIFF
begin

text \<open>
  A verification library for openindex, an open web-search index written in Go. The theories follow the
  packages of the program; each definition keeps the name of the Go function it translates.

  \<^bold>\<open>The program.\<close> A crawler (\<open>crawler/\<close>) fetches pages within the robots rules and drops near duplicates. The
  storage layer (\<open>storage/\<close>) keeps their versions and links in an ordered byte-key store. The index
  (\<open>index/\<close>) compresses postings, keeps them in immutable segments beside a term dictionary and the stored
  documents, and answers queries by Block-Max WAND. The serving tree (\<open>serve/\<close>) scatters a query over the
  shards, hedges slow replicas, merges the answers and caches them. The control plane (\<open>control/\<close>) places shards
  on nodes and publishes the placement through a coordination store with leases and watches. Ranking (\<open>rank/\<close>)
  computes link authority, fuses rankings and reranks; the answer engine (\<open>answer/\<close>) writes cited answers over the
  retrieved passages. The open-data part (\<open>open/\<close>) exports the index, federates partitions of other operators and
  collects privatized clicks; \<open>telemetry/\<close> counts and traces requests.

  \<^bold>\<open>Shared theories.\<close>
  \<^item> \<open>Prelude\<close>: machine words, digit lists, \<open>sort.Search\<close>, the lemma collections and the list lemmas.
  \<^item> \<open>GoBinary\<close>, \<open>GoStrings\<close>, \<open>GoHeap\<close>: what the sources use of \<open>encoding/binary\<close>, \<open>strings\<close> and
    \<open>container/heap\<close>. The heap theory proves once, in the locales \<open>weak_order\<close> and \<open>heap_order\<close>, that \<open>Push\<close> and \<open>Pop\<close> keep
    the heap order and the elements; every \<open>Less\<close> of the program that a heap uses interprets them.
  \<^item> \<open>GoFloat\<close>: the rounding of \<open>float64\<close> and \<open>float32\<close> operations with its error, and the bit patterns of stored floats.
  \<^item> \<open>Types\<close>: \<open>types.go\<close>.

  \<^bold>\<open>Storage.\<close>
  \<^item> \<open>Engine\<close> (\<open>storage/engine.go\<close>): the batch, \<open>PrefixEnd\<close> and the locale \<open>engine\<close>, the contract of an ordered
    store. \<open>MemEngine\<close> (\<open>memengine.go\<close>) interprets it: the sorted slice is a finite map, scans are ordered
    ranges of it (a scan whose start and end are inverted around a key panics, so the laws ask for ordered ranges, and the
    clients are shown to scan only those), and snapshots do not see later writes.
  \<^item> \<open>WebTable\<close> (\<open>webtable.go\<close>) and \<open>LinkGraph\<close> (\<open>linkgraph.go\<close>) are clients of the locale: cell keys order by row,
    family, qualifier and descending time (the bits of a timestamp compare unsigned, so a negative one counts as newest), so \<open>Latest\<close>, \<open>ScanFamily\<close> and \<open>GCVersions\<close> meet an abstract table of
    versions; the two link directions are inverse.

  \<^bold>\<open>Index.\<close>
  \<^item> \<open>BitPack\<close>, \<open>GroupVarint\<close>, \<open>PForDelta\<close> (\<open>index/postings/\<close>): the codecs, their round trips, and the least-cost
    width. \<open>Postings\<close> is \<open>postings.go\<close>; \<open>Postings_Correct\<close> shows that a cursor reads what \<open>Encode\<close> wrote and that
    \<open>NextGEQ\<close> is a lower-bound search.
  \<^item> \<open>Terms\<close>, \<open>Forward\<close>, \<open>Bitset\<close>, \<open>Segment\<close>, \<open>MergePolicy\<close> (\<open>index/terms\<close>, \<open>index/forward\<close>, \<open>index/segment\<close>): dictionary
    lookups and prefix scans, the chunked document store, and the life of a segment: build, delete, merge, and
    the choice of what to merge. \<open>Terms\<close> has the locale \<open>dictionary\<close> that a segment uses.
  \<^item> \<open>Search\<close> is \<open>index/search/wand.go\<close>. \<open>TopK\<close>, \<open>WandState\<close> and \<open>Search_Correct\<close> prove that it ends and returns the
    top k of exhaustive scoring.
  \<^item> \<open>BM25F\<close> (\<open>rank/bm25f\<close>): the scorer and the bound that WAND relies on. \<open>SegmentSearch\<close> puts
    segment, scorer and search together.
  \<^item> \<open>CIFF\<close> (\<open>open/ciff\<close>): the exchange format; an export reads back and a truncated one is refused. The locale
    \<open>codec\<close> lifts the round trip of a value to the sections of a file.

  \<^bold>\<open>Ranking and answers.\<close>
  \<^item> \<open>PageRank\<close> (\<open>rank/graph\<close>): power iteration on a probability distribution, its contraction, and trust along links.
  \<^item> \<open>Fusion\<close> (\<open>rank/fusion\<close>, \<open>rank/cascade.go\<close>, \<open>rank/ltr\<close>, \<open>rank/feature\<close>): reciprocal rank fusion with
    its \<open>float32\<close> accumulation, and the reranker.
    \<open>RankEval\<close> (\<open>rank/eval\<close>): the relevance metrics; NDCG lies in the unit interval.
  \<^item> \<open>Grounding\<close> (\<open>answer/ground\<close>, \<open>answer/verify\<close>, \<open>answer/engine/citations.go\<close>): claims are ordered spans that cover the
    text, verification keeps exactly the supported ones, and markers go to the ends of their spans. \<open>Synth\<close>
    (\<open>answer/synth\<close>): context order, budget and the cap per source. \<open>AnswerEngine\<close> (\<open>answer/router\<close>, \<open>answer/engine\<close>) is the
    pipeline, with the served models as fields. \<open>AnswerEval\<close> (\<open>answer/eval\<close>): the grounding metrics.
  \<^item> \<open>Harness\<close> (\<open>harness/\<close>): reports, the regression gates over them, and the latency percentile.

  \<^bold>\<open>Vectors.\<close>
  \<^item> \<open>Vectors\<close> (\<open>vector/vector.go\<close>, \<open>vector/embed\<close>): the distances, which agree on unit vectors, and the reference embedder.
  \<^item> \<open>Quantize\<close> (\<open>vector/quantize\<close>): scalar codes are within half a step, product codes are the nearest reconstructible vector,
    binary distances count sides.
  \<^item> \<open>DistHeap\<close> (\<open>vector/ann/heap.go\<close>): the two candidate heaps, an interpretation of \<open>weak_order\<close>. \<open>HNSW\<close> (\<open>hnsw.go\<close>): the layered graph
    with the draws of the level generator as arguments. \<open>HNSW_Correct\<close>: a build never panics and ends in a well-formed graph, and a
    search ends and returns the nearest of the nodes it visited.

  \<^bold>\<open>Control plane.\<close>
  \<^item> \<open>ControlStore\<close> (\<open>control/store.go\<close>): keys, leases, expiry, watches with bounded channels, and the locale
    \<open>coord_store\<close>, interpreted on \<open>MemStore\<close>. \<open>Membership\<close> (\<open>control.go\<close>, \<open>membership.go\<close>, \<open>election.go\<close>), \<open>Routing\<close>
    (\<open>routing.go\<close>) and \<open>Placement\<close> (\<open>rendezvous.go\<close>, \<open>placement.go\<close>) are its clients: leases refine to an abstract table,
    a router equals a fresh load, one reconciliation converges and placement moves little.
  \<^item> \<open>JumpHash\<close> (\<open>jump.go\<close>) and \<open>Health\<close> (\<open>health.go\<close>): consistent hashing with the rounding of every \<open>float64\<close>
    operation, and latency probation.

  \<^bold>\<open>Serving.\<close>
  \<^item> \<open>Serve\<close> (\<open>serve.go\<close>, \<open>merge.go\<close>, \<open>fanout.go\<close>, \<open>coordinator.go\<close>): the k-way merge returns the best k in order; the
    coordinator answers exactly when enough children did.
  \<^item> \<open>ResultCache\<close> (\<open>cache.go\<close>): the linked list and its index refine a bounded recency list. \<open>Loader\<close>: concurrent
    calls of the single-flight loader over any cache that meets the locale \<open>page_cache\<close>; one load per key, no error cached.
  \<^item> \<open>Hedge\<close> (\<open>hedge.go\<close>): a step relation over completions, timer ticks and cancellation; it ends, never sticks,
    and fails only with the error of the context or, when every replica failed, with the error received last.

  \<^bold>\<open>Crawler.\<close>
  \<^item> \<open>Robots\<close> (\<open>crawler/robots\<close>): the parser, the glob matcher and the longest-match decision.
  \<^item> \<open>Dedup\<close> (\<open>crawler/dedup\<close>): SimHash and the exactness of the banded near-duplicate index.
  \<^item> \<open>Frontier\<close> (\<open>crawler/frontier\<close>): the queues and the ready heap. The locale \<open>seen_set\<close> is what it needs of a
    deduplicator. Along every crawl no host is fetched twice at once or before its delay.
  \<^item> \<open>Fetch\<close> (\<open>crawler/fetch\<close>): forward-confirmed reverse DNS with the resolver as arguments, and the render gate.
  \<^item> \<open>WARC\<close> (\<open>crawler/warc\<close>): the archive writer over a stream that may fail; locators address their record.

  \<^bold>\<open>Open data and telemetry.\<close>
  \<^item> \<open>Federation\<close> (\<open>open/open.go\<close>, \<open>sign.go\<close>, \<open>open/federation\<close>): signed artifacts, trust, federated search and the rebuild audit.
  \<^item> \<open>CrowdSignal\<close> (\<open>open/crowdsignal\<close>): squashing, randomized response on draws from the generator's
    grid, and the aggregate: privacy, and the mean squared error of the published counts.
  \<^item> \<open>Metric\<close> (\<open>telemetry/metric\<close>): the bounded series table, each series the histogram of its requests. \<open>Trace\<close> (\<open>telemetry/trace\<close>): spans across processes.
    \<open>Telemetry\<close> (\<open>telemetry.go\<close>): the timer and the logger in front of them.

  \<^bold>\<open>Planning.\<close>
  \<^item> \<open>Capacity\<close> (\<open>capacity/\<close>): cost formulas, the memory limit, the build sequence and the risks. \<open>Command\<close>
    (\<open>cmd/openindex\<close>): a report is written whole or the process fails.

  \<^bold>\<open>Loops and fuel.\<close> Loops whose end is not structural are \<open>partial_function (option)\<close>: \<open>wand_loop\<close>, \<open>jump_loop\<close>,
  \<open>glob_loop\<close>, \<open>drain_cursor\<close>, \<open>greedy_loop\<close> and \<open>search_loop\<close>; the theorems show that they return. There is no fuel in the model. Slice reads out
  of range are \<open>None\<close>, Go's panic.

  \<^bold>\<open>Idealisations.\<close> Scores, latencies, ranks and response fractions are exact (an ordered ring, or reals) where
  Go computes in floating point; \<open>JumpHash\<close>, the sampler of \<open>Trace\<close> and reciprocal rank fusion
  keep the rounding, and \<open>GoFloat\<close> the bits. An operation under a mutex is one atomic step.
  A Go map is a function or an association list; where the code iterates over it, the order is an argument or any
  order of the list. An unstable sort is an argument with the contract of a sort. \<open>ToLower\<close> and \<open>Fields\<close> act on
  ASCII.

  \<^bold>\<open>Not modelled.\<close> The generated wire code (\<open>proto/\<close>), the flag package, \<open>net/http\<close> below the transport settings, the
  \<open>singleflight\<close> package, which is a parameter with its documented contract, \<open>ContentHash\<close>, and the text of a regression message.
  Cryptographic hashes, signatures, compression and name resolution are libraries and arguments.
\<close>

section \<open>Across components\<close>

text \<open>C2: A query over a freshly built segment is answered exactly. Index documents, look the query terms up in the
  segment, score them with the first-stage BM25 scorer at their document frequency, and run Block-Max WAND: the
  result is the \<open>k\<close> best matching documents by BM25, computed from the documents as they were added, with ties
  to the smaller id, and every hit resolves to the stored document.\<close>

theorem Search_built_segment:
  assumes "permutes ord" "permutes ord'" "sort_Slice fst srt" "sort_Slice rank srt'" "length xs < 2 ^ 32"
    and "\<forall>x \<in> set xs. doc_ok (fst x) \<and> distinct (map fst (snd x)) \<and> list_all (\<lambda>(t, f). f \<le> mf) (snd x)"
    and "params_ok p" "0 < Weights p ! 0" "0 \<le> N c"
  shows "\<exists>s. Build ord' srt (Segment.build_index ord sid xs) = Inr s \<and>
    WAND srt' (query_terms p c s mf ts) k =
      Some (take (nat k) (sort_key rank (map (\<lambda>i. \<lparr>hit_Doc = of_nat i, hit_Score = bm25 p c xs ts i\<rparr>) (matching xs ts)))) \<and>
    list_all (\<lambda>i. Document_of s (of_nat i) = Some (Some (fst (xs ! i)))) (matching xs ts)"
proof -
  let ?ds = "map (apsnd nonzero) xs"
  obtain s where s: "Build ord' srt (Segment.build_index ord sid xs) = Inr s" "seg_ok ?ds s" "live_docs ?ds s = ?ds"
    using Build_index_ok[OF assms(1-3,5), of sid] assms(6) by auto
  have "Document_of s (of_nat i) = Some (Some (fst (xs ! i)))" if "i \<in> set (matching xs ts)" for i
  proof -
    have i: "i < length xs" using that by (simp add: matching_def)
    then have "unat (of_nat i :: DocID) = i" using assms(5) by (simp add: unat_of_nat)
    then show ?thesis using Document_of_ok[OF s(2), of "of_nat i"] all_live[OF s(2,3), of "of_nat i"] i by simp
  qed
  moreover have "\<forall>x \<in> set xs. list_all (\<lambda>(t, f). f \<le> mf) (snd x)" using assms(6) by blast
  ultimately show ?thesis
    using s(1) WAND_segment[OF s(2) assms(4,5) _ assms(7-9), of mf ts k] by (auto simp: list_all_iff)
qed

theorem Search_built_segment_witness:
  "\<exists>s. Build rev (sort_key fst) (Segment.build_index (\<lambda>xs. xs) 1 Segment.sample_index) = Inr s \<and>
     WAND (sort_key rank) (query_terms DefaultParams \<lparr>N = 2, AvgFieldLen = [1, 1, 1, 1]\<rparr> s 3 [''web'', ''none'']) 5 =
       Some [\<lparr>hit_Doc = 1, hit_Score = bm25 DefaultParams \<lparr>N = 2, AvgFieldLen = [1, 1, 1, 1]\<rparr> sample_index [''web'', ''none''] 1\<rparr>]"
proof -
  have r: "sort_Slice rank (sort_key rank)" by (simp add: sort_Slice_def)
  have d: "\<forall>x \<in> set sample_index. doc_ok (fst x) \<and> distinct (map fst (snd x)) \<and> list_all (\<lambda>(t, f). f \<le> 3) (snd x)"
    using sample_index_ok(1) by (simp add: sample_index_def word_le_nat_alt)
  have m: "matching sample_index [''web'', ''none''] = [1]" by (simp add: matching_def sample_index_def nonzero_def upt_rec)
  show ?thesis
    using Search_built_segment[OF sample_orders r sample_index_ok(2) d DefaultParams_ok, of "\<lparr>N = 2, AvgFieldLen = [1, 1, 1, 1]\<rparr>" 1 "[''web'', ''none'']" 5]
    unfolding m by (auto simp: DefaultParams_def)
qed

end
